(* ===== verification/Xv6_Prelude.thy ===== *)
theory Xv6_Prelude
  imports Main "HOL-Library.Word"
begin

text \<open>
  Shared ground of the development: the outcome type of kernel code (a value or a
  \<open>panic\<close>), the machine integer types, the table scans that xv6 writes as
  \<open>for(p = tab; p < &tab[N]; p++)\<close>, and the generic list and word lemmas that the
  component theories use.  Nothing in this theory models one particular source function.
\<close>

section \<open>Outcomes\<close>

text \<open>
  Kernel code returns, stops the machine with \<open>panic(msg)\<close>, or goes to sleep until another
  process changes what it waits for.  A function that may do so returns an \<open>outcome\<close>; \<open>andthen\<close>
  runs the continuation only after a normal return.
\<close>

datatype 'a outcome = Panic string | Asleep | Val 'a

fun andthen :: "'a outcome \<Rightarrow> ('a \<Rightarrow> 'b outcome) \<Rightarrow> 'b outcome" where
  "andthen (Panic m) f = Panic m"
| "andthen Asleep f = Asleep"
| "andthen (Val x) f = f x"

lemma andthen_Val [simp]: "andthen r f = Val y \<longleftrightarrow> (\<exists>x. r = Val x \<and> f x = Val y)"
  by (cases r) auto

lemma andthen_assoc: "andthen (andthen r f) g = andthen r (\<lambda>x. andthen (f x) g)"
  by (cases r) auto

fun returns :: "'a outcome \<Rightarrow> bool" where
  "returns (Panic m) = False"
| "returns Asleep = False"
| "returns (Val x) = True"

lemma returns_iff: "returns r \<longleftrightarrow> (\<exists>x. r = Val x)"
  by (cases r) auto

text \<open>A loop over the elements of a list that stops at the first call that does not return.\<close>

fun each :: "('a \<Rightarrow> 's \<Rightarrow> 's outcome) \<Rightarrow> 'a list \<Rightarrow> 's \<Rightarrow> 's outcome" where
  "each f [] s = Val s"
| "each f (x # xs) s = andthen (f x s) (each f xs)"

lemma each_append: "each f (xs @ ys) s = andthen (each f xs s) (each f ys)"
proof (induction xs arbitrary: s)
  case Nil
  then show ?case by simp
next
  case (Cons x xs)
  then show ?case by (cases "f x s") simp_all
qed

lemma each_snocI: "each f xs s = Val t \<Longrightarrow> f x t = Val u \<Longrightarrow> each f (xs @ [x]) s = Val u"
  by (simp add: each_append)

section \<open>Machine integers\<close>

type_synonym byte = "8 word"
type_synonym ushort = "16 word"
type_synonym uint = "32 word"

text \<open>User addresses end where the kernel's begin (\<open>memlayout.h\<close>).\<close>

definition KERNBASE :: uint where "KERNBASE = 0x80000000"

section \<open>Scanning a table\<close>

text \<open>
  The index of the first entry that satisfies a test: the loop
  \<open>for(p = tab; p < &tab[N]; p++) if(test(p)) goto found;\<close>.
\<close>

fun scan :: "('a \<Rightarrow> bool) \<Rightarrow> 'a list \<Rightarrow> nat option" where
  "scan P [] = None"
| "scan P (x # xs) = (if P x then Some 0 else map_option Suc (scan P xs))"

lemma scan_None: "scan P xs = None \<longleftrightarrow> (\<forall>x \<in> set xs. \<not> P x)"
  by (induction xs) auto

lemma scan_Some:
  "scan P xs = Some i \<longleftrightarrow> i < length xs \<and> P (xs ! i) \<and> (\<forall>j < i. \<not> P (xs ! j))"
proof (induction xs arbitrary: i)
  case Nil
  then show ?case by simp
next
  case (Cons x xs)
  show ?case
  proof (cases i)
    case 0
    then show ?thesis using Cons by (auto split: if_splits)
  next
    case (Suc k)
    then show ?thesis using Cons [of k] by (auto simp: All_less_Suc2)
  qed
qed

lemma scan_SomeD:
  assumes "scan P xs = Some i"
  shows "i < length xs" and "P (xs ! i)" and "\<And>j. j < i \<Longrightarrow> \<not> P (xs ! j)"
  using assms by (auto simp: scan_Some)

lemma scan_None_nth: "scan P xs = None \<Longrightarrow> i < length xs \<Longrightarrow> \<not> P (xs ! i)"
  by (simp add: scan_None)

lemma scan_exists: "i < length xs \<Longrightarrow> P (xs ! i) \<Longrightarrow> \<exists>j. scan P xs = Some j \<and> j \<le> i"
proof -
  assume i: "i < length xs" "P (xs ! i)"
  then have "scan P xs \<noteq> None" by (auto simp: scan_None)
  then obtain j where j: "scan P xs = Some j" by blast
  then have "j \<le> i" using i by (metis scan_SomeD(3) not_le)
  with j show ?thesis by blast
qed

text \<open>Rewriting every entry of a table: the loop that visits all of it.\<close>

lemma nth_map_pred:
  "i < length xs \<Longrightarrow> map (\<lambda>x. if P x then f x else x) xs ! i = (if P (xs ! i) then f (xs ! i) else xs ! i)"
  by simp

section \<open>List lemmas\<close>

lemma list_update_twice [simp]: "(xs[i := x])[i := y] = xs[i := y]"
  by (simp add: list_update_overwrite)

lemma filter_list_update_length:
  "i < length xs \<Longrightarrow>
   length (filter P (xs[i := y])) + (if P (xs ! i) then 1 else 0) =
   length (filter P xs) + (if P y then 1 else 0)"
proof (induction xs arbitrary: i)
  case Nil
  then show ?case by simp
next
  case (Cons x xs)
  then show ?case by (cases i) auto
qed

lemma nth_update: "(xs[i := x]) ! j = (if i = j \<and> j < length xs then x else xs ! j)"
  by (cases "i < length xs") (auto simp: nth_list_update list_update_beyond)

lemma set_list_update_subset: "set (xs[i := y]) \<subseteq> insert y (set xs)"
  by (rule set_update_subset_insert)

text \<open>Offsets inside a window of a ring are distinct slots.\<close>

lemma mod_window:
  assumes "i < n" "j < n" "(a + i) mod n = (a + j) mod (n :: nat)"
  shows "i = j"
proof -
  have "int n dvd int (a + i) - int (a + j)"
    using assms(3) by (metis mod_eq_dvd_iff of_nat_mod)
  then have "int n dvd int i - int j" by simp
  moreover have "\<bar>int i - int j\<bar> < int n" using assms(1,2) by auto
  ultimately show ?thesis by (metis abs_of_nat dvd_imp_le_int eq_iff_diff_eq_0 not_le of_nat_eq_iff)
qed

section \<open>Word lemmas\<close>

lemma unat_lt_32 [simp]: "unat (w :: uint) < 4294967296"
  using unsigned_less [of w] by simp

lemma unat_lt_8 [simp]: "unat (w :: byte) < 256"
  using unsigned_less [of w] by simp

lemma unat_add_uint:
  "unat (a + b :: uint) = (unat a + unat b) mod 4294967296"
  by (simp add: unat_word_ariths)

lemma unat_sub_uint:
  "unat (a - b :: uint) =
     (if unat b \<le> unat a then unat a - unat b else unat a + 4294967296 - unat b)"
  by (simp add: unat_sub_if')

lemma sint_uint32: "sint (x :: uint) = (if uint x < 2147483648 then uint x else uint x - 4294967296)"
proof -
  have "bit (uint x) 31 \<longleftrightarrow> \<not> uint x < 2147483648"
  proof -
    have "uint x < 4294967296" using uint_lt2p [of x] by simp
    moreover have "0 \<le> uint x" by simp
    ultimately have "uint x div 2147483648 = (if uint x < 2147483648 then 0 else 1)"
      by auto
    then show ?thesis by (auto simp: bit_iff_odd)
  qed
  moreover have "take_bit 32 (uint x) = uint x"
    using uint_lt2p [of x] by (simp add: take_bit_int_eq_self_iff)
  ultimately show ?thesis
    by (simp add: sint_uint signed_take_bit_eq_take_bit_minus)
qed

lemma unat_neg_abs:
  fixes xx :: uint
  assumes "sint xx < 0"
  shows "unat (- xx) = nat \<bar>sint xx\<bar>"
proof -
  have "0 < uint xx" "uint xx < 4294967296" using assms uint_lt2p [of xx] by (auto simp: sint_uint32 split: if_splits)
  moreover have "uint (- xx) = (- uint xx) mod 4294967296"
    by (simp add: uint_word_ariths)
  ultimately have "uint (- xx) = 4294967296 - uint xx"
    by (simp add: zmod_zminus1_eq_if)
  then show ?thesis using assms by (auto simp: sint_uint32 unat_eq_nat_uint split: if_splits)
qed

lemma unat_of_nat_uint: "k < 4294967296 \<Longrightarrow> unat (of_nat k :: uint) = k"
  by (simp add: unat_of_nat take_bit_nat_eq_self)

end
