(* ===== verification/Xv6_String.thy ===== *)
theory Xv6_String
  imports Xv6_Prelude
begin

unbundle bit_operations_syntax

text \<open>
  The C string and memory routines: \<open>string.c\<close> of the kernel, \<open>ulib.c\<close> of user space, and
  the private copies in \<open>proc.c\<close> (\<open>my_strcmp\<close>) and \<open>sh.c\<close> (\<open>my_strncmp\<close>,
  \<open>strtok_xv6\<close>).  A pointer to a C string is the list of characters from it to the end of
  its object, and reading at the end of the list yields the terminating NUL; a buffer that is
  written is the list of its characters.  Memory for the \<open>mem*\<close> routines is a function from
  addresses to bytes.
\<close>

section \<open>Reading C strings\<close>

abbreviation NUL :: char where
  "NUL \<equiv> CHR 0x00"

fun at0 :: "string \<Rightarrow> char" where
  "at0 [] = NUL"
| "at0 (c # cs) = c"

definition uchar :: "char \<Rightarrow> int" where
  "uchar c = int (of_char c)"

text \<open>The characters before the first NUL: what a C string denotes.\<close>

fun cstr :: "string \<Rightarrow> string" where
  "cstr [] = []"
| "cstr (c # cs) = (if c = NUL then [] else c # cstr cs)"

fun strlen :: "string \<Rightarrow> nat" where
  "strlen [] = 0"
| "strlen (c # cs) = (if c = NUL then 0 else Suc (strlen cs))"

fun strncmp :: "string \<Rightarrow> string \<Rightarrow> nat \<Rightarrow> int" where
  "strncmp p q 0 = 0"
| "strncmp p q (Suc n) =
     (if at0 p \<noteq> NUL \<and> at0 p = at0 q then strncmp (tl p) (tl q) n
      else uchar (at0 p) - uchar (at0 q))"

fun strcmp :: "string \<Rightarrow> string \<Rightarrow> int" where
  "strcmp [] q = uchar NUL - uchar (at0 q)"
| "strcmp (c # p) q =
     (if c \<noteq> NUL \<and> c = at0 q then strcmp p (tl q) else uchar c - uchar (at0 q))"

fun my_strcmp :: "string \<Rightarrow> string \<Rightarrow> int" where
  "my_strcmp [] s2 = uchar NUL - uchar (at0 s2)"
| "my_strcmp (c # s1) s2 =
     (if c \<noteq> NUL \<and> at0 s2 \<noteq> NUL
      then (if c \<noteq> at0 s2 then uchar c - uchar (at0 s2) else my_strcmp s1 (tl s2))
      else uchar c - uchar (at0 s2))"

fun my_strncmp :: "string \<Rightarrow> string \<Rightarrow> nat \<Rightarrow> int" where
  "my_strncmp s1 s2 0 = 0"
| "my_strncmp s1 s2 (Suc n) =
     (if at0 s1 \<noteq> at0 s2 then uchar (at0 s1) - uchar (at0 s2)
      else if at0 s1 = NUL then 0
      else my_strncmp (tl s1) (tl s2) n)"

text \<open>\<open>strchr\<close> of \<open>ulib.c\<close>: the suffix at the first occurrence; never finds NUL itself.\<close>

fun strchr :: "string \<Rightarrow> char \<Rightarrow> string option" where
  "strchr [] c = None"
| "strchr (x # s) c = (if x = NUL then None else if x = c then Some (x # s) else strchr s c)"

section \<open>Writing C strings\<close>

text \<open>The characters \<open>strcpy\<close> writes from the destination on.\<close>

fun strcpy :: "string \<Rightarrow> string" where
  "strcpy [] = [NUL]"
| "strcpy (c # t) = (if c = NUL then [NUL] else c # strcpy t)"

text \<open>
  \<open>strncpy\<close>: the first loop copies up to and including the NUL, the second pads the rest of
  the \<open>n\<close> characters with NULs.
\<close>

fun strncpy_loop :: "string \<Rightarrow> nat \<Rightarrow> string" where
  "strncpy_loop t 0 = []"
| "strncpy_loop t (Suc n) =
     at0 t # (if at0 t = NUL then replicate n NUL else strncpy_loop (tl t) n)"

definition strncpy :: "string \<Rightarrow> string \<Rightarrow> int \<Rightarrow> string" where
  "strncpy s t n = strncpy_loop t (nat n) @ drop (nat n) s"

text \<open>
  \<open>safestrcpy\<close>: the argument of the loop is the value of \<open>n\<close> when \<open>--n > 0\<close> is evaluated.
\<close>

fun safestrcpy_loop :: "string \<Rightarrow> nat \<Rightarrow> string" where
  "safestrcpy_loop t 0 = [NUL]"
| "safestrcpy_loop t (Suc 0) = [NUL]"
| "safestrcpy_loop t (Suc (Suc n)) =
     at0 t # (if at0 t = NUL then [NUL] else safestrcpy_loop (tl t) (Suc n))"

definition safestrcpy :: "string \<Rightarrow> string \<Rightarrow> int \<Rightarrow> string" where
  "safestrcpy s t n =
     (if n \<le> 0 then s
      else (let w = safestrcpy_loop t (nat n) in w @ drop (length w) s))"

section \<open>Numbers and lines\<close>

text \<open>\<open>atoi\<close>: the 32-bit \<open>int\<close> accumulator wraps around.\<close>

definition is_digit :: "char \<Rightarrow> bool" where
  "is_digit c \<longleftrightarrow> uchar (CHR ''0'') \<le> uchar c \<and> uchar c \<le> uchar (CHR ''9'')"

fun atoi_loop :: "uint \<Rightarrow> string \<Rightarrow> uint" where
  "atoi_loop n [] = n"
| "atoi_loop n (c # s) =
     (if is_digit c
      then atoi_loop (n * 10 + word_of_int (uchar c) - word_of_int (uchar (CHR ''0''))) s
      else n)"

definition atoi :: "string \<Rightarrow> int" where
  "atoi s = sint (atoi_loop 0 s)"

text \<open>
  \<open>gets(buf, max)\<close> over the characters that \<open>read(0, &c, 1)\<close> will deliver: the line read
  (with its terminating NUL) and the characters left.  The argument of the loop is how many
  more characters fit, \<open>max - 1 - i\<close>.
\<close>

fun gets_loop :: "nat \<Rightarrow> string \<Rightarrow> string \<times> string" where
  "gets_loop 0 inp = ([NUL], inp)"
| "gets_loop (Suc k) [] = ([NUL], [])"
| "gets_loop (Suc k) (c # inp) =
     (if c = CHR 0x0A \<or> c = CHR 0x0D then ([c, NUL], inp)
      else (let (b, rest) = gets_loop k inp in (c # b, rest)))"

definition gets :: "nat \<Rightarrow> string \<Rightarrow> string \<times> string" where
  "gets mx inp = gets_loop (mx - 1) inp"

text \<open>
  \<open>strtok_xv6\<close>: the static \<open>next_token\<close> is the state (\<open>None\<close> is the null pointer).  The scan
  cuts the token at the first delimiter; the token itself is what precedes it.
\<close>

fun strtok_scan :: "string \<Rightarrow> string \<Rightarrow> string \<times> string option" where
  "strtok_scan [] delim = ([], None)"
| "strtok_scan (c # s) delim =
     (if c = NUL then ([], None)
      else if c \<in> set (cstr delim) then ([], Some s)
      else (let (tok, nxt) = strtok_scan s delim in (c # tok, nxt)))"

definition strtok_xv6 :: "string option \<Rightarrow> string option \<Rightarrow> string \<Rightarrow> string option \<times> string option" where
  "strtok_xv6 next_token s delim =
     (let nt = (case s of None \<Rightarrow> next_token | Some p \<Rightarrow> Some p) in
      case nt of
        None \<Rightarrow> (None, nt)
      | Some p \<Rightarrow>
          if at0 p = NUL then (None, nt)
          else (let (tok, nxt) = strtok_scan p delim in (Some tok, nxt)))"

section \<open>Memory\<close>

type_synonym memory = "nat \<Rightarrow> byte"

fun copy_up :: "memory \<Rightarrow> nat \<Rightarrow> nat \<Rightarrow> nat \<Rightarrow> memory" where
  "copy_up m d s 0 = m"
| "copy_up m d s (Suc n) = copy_up (m(d := m s)) (d + 1) (s + 1) n"

fun copy_down :: "memory \<Rightarrow> nat \<Rightarrow> nat \<Rightarrow> nat \<Rightarrow> memory" where
  "copy_down m d s 0 = m"
| "copy_down m d s (Suc n) = copy_down (m(d - 1 := m (s - 1))) (d - 1) (s - 1) n"

definition memmove :: "memory \<Rightarrow> nat \<Rightarrow> nat \<Rightarrow> nat \<Rightarrow> memory" where
  "memmove m dst src n =
     (if src < dst \<and> src + n > dst then copy_down m (dst + n) (src + n) n
      else copy_up m dst src n)"

definition memcpy :: "memory \<Rightarrow> nat \<Rightarrow> nat \<Rightarrow> nat \<Rightarrow> memory" where
  "memcpy m dst src n = memmove m dst src n"

text \<open>The user-space \<open>memmove\<close> of \<open>ulib.c\<close> always copies upwards.\<close>

definition umemmove :: "memory \<Rightarrow> nat \<Rightarrow> nat \<Rightarrow> int \<Rightarrow> memory" where
  "umemmove m vdst vsrc n = copy_up m vdst vsrc (nat n)"

fun memcmp :: "memory \<Rightarrow> nat \<Rightarrow> nat \<Rightarrow> nat \<Rightarrow> int" where
  "memcmp m s1 s2 0 = 0"
| "memcmp m s1 s2 (Suc n) =
     (if m s1 \<noteq> m s2 then uint (m s1) - uint (m s2) else memcmp m (s1 + 1) (s2 + 1) n)"

text \<open>The string stores of \<open>x86.h\<close>: \<open>rep stosb\<close> and \<open>rep stosl\<close> (little endian).\<close>

fun stosb :: "memory \<Rightarrow> nat \<Rightarrow> byte \<Rightarrow> nat \<Rightarrow> memory" where
  "stosb m a c 0 = m"
| "stosb m a c (Suc n) = stosb (m(a := c)) (a + 1) c n"

fun stosl :: "memory \<Rightarrow> nat \<Rightarrow> uint \<Rightarrow> nat \<Rightarrow> memory" where
  "stosl m a w 0 = m"
| "stosl m a w (Suc n) =
     stosl (m(a := ucast w, a + 1 := ucast (drop_bit 8 w),
              a + 2 := ucast (drop_bit 16 w), a + 3 := ucast (drop_bit 24 w))) (a + 4) w n"

definition memset :: "memory \<Rightarrow> nat \<Rightarrow> uint \<Rightarrow> nat \<Rightarrow> memory" where
  "memset m dst c n =
     (if dst mod 4 = 0 \<and> n mod 4 = 0
      then (let c = c AND 0xFF in
            stosl m dst (push_bit 24 c OR push_bit 16 c OR push_bit 8 c OR c) (n div 4))
      else stosb m dst (ucast c) n)"

definition umemset :: "memory \<Rightarrow> nat \<Rightarrow> uint \<Rightarrow> nat \<Rightarrow> memory" where
  "umemset m dst c n = stosb m dst (ucast c) n"

section \<open>Facts about reading\<close>

named_theorems cstring_simps

lemma uchar_eq_iff [cstring_simps]: "uchar c = uchar d \<longleftrightarrow> c = d"
  by (simp add: uchar_def of_char_eq_iff)

lemma uchar_NUL [cstring_simps]: "uchar NUL = 0"
  by (simp add: uchar_def)

lemma uchar_bounds: "0 \<le> uchar c \<and> uchar c < 256"
  using nat_of_char_less_256 [of c] by (simp add: uchar_def)

lemma uchar_zero_iff [cstring_simps]: "uchar c = 0 \<longleftrightarrow> c = NUL"
  using uchar_eq_iff [of c NUL] by (simp add: uchar_NUL)

lemma strlen_cstr: "strlen s = length (cstr s)"
  by (induction s) auto

lemma cstr_no_NUL: "NUL \<notin> set (cstr s)"
  by (induction s) auto

lemma cstr_id: "NUL \<notin> set s \<Longrightarrow> cstr s = s"
  by (induction s) auto

lemma cstr_append_NUL: "NUL \<notin> set s \<Longrightarrow> cstr (s @ NUL # t) = s"
  by (induction s) auto

lemma cstr_eq_Nil: "cstr s = [] \<longleftrightarrow> at0 s = NUL"
  by (cases s) auto

lemma cstr_cons: "at0 s \<noteq> NUL \<Longrightarrow> cstr s = at0 s # cstr (tl s)"
  by (cases s) auto

lemma strcmp_zero_iff: "strcmp p q = 0 \<longleftrightarrow> cstr p = cstr q"
proof (induction p q rule: strcmp.induct)
  case (1 q)
  then show ?case by (auto simp: cstring_simps cstr_eq_Nil [symmetric])
next
  case (2 c p q)
  then show ?case by (cases q) (auto simp: cstring_simps)
qed

lemma my_strcmp_zero_iff: "my_strcmp p q = 0 \<longleftrightarrow> cstr p = cstr q"
proof (induction p q rule: my_strcmp.induct)
  case (1 q)
  then show ?case by (auto simp: cstring_simps cstr_eq_Nil [symmetric])
next
  case (2 c p q)
  then show ?case by (cases q) (auto simp: cstring_simps)
qed

lemma strncmp_zero_iff: "strncmp p q n = 0 \<longleftrightarrow> take n (cstr p) = take n (cstr q)"
proof (induction p q n rule: strncmp.induct)
  case (1 p q)
  then show ?case by simp
next
  case (2 p q n)
  then show ?case by (cases p; cases q) (auto simp: cstring_simps)
qed

lemma my_strncmp_eq_strncmp: "my_strncmp p q n = strncmp p q n"
  by (induction p q n rule: my_strncmp.induct) (auto simp: cstring_simps)

lemma strchr_None: "strchr s c = None \<longleftrightarrow> c \<notin> set (cstr s)"
  by (induction s c rule: strchr.induct) auto

lemma strchr_Some:
  "strchr s c = Some t \<Longrightarrow> \<exists>p. s = p @ t \<and> at0 t = c \<and> c \<noteq> NUL \<and> c \<notin> set p \<and> NUL \<notin> set p"
  by (induction s c rule: strchr.induct) (auto split: if_splits)

section \<open>Facts about writing\<close>

lemma strcpy_eq: "strcpy t = cstr t @ [NUL]"
  by (induction t) auto

lemma length_strncpy_loop [simp]: "length (strncpy_loop t n) = n"
  by (induction t n rule: strncpy_loop.induct) auto

lemma strncpy_loop_eq:
  "strncpy_loop t n = take n (cstr t) @ replicate (n - length (cstr t)) NUL"
proof (induction t n rule: strncpy_loop.induct)
  case (1 t)
  then show ?case by simp
next
  case (2 t n)
  show ?case
  proof (cases "at0 t = NUL")
    case True
    then show ?thesis by (simp add: cstr_eq_Nil [THEN iffD2])
  next
    case False
    then show ?thesis using 2 by (simp add: cstr_cons)
  qed
qed

lemma length_strncpy: "nat n \<le> length s \<Longrightarrow> length (strncpy s t n) = length s"
  by (simp add: strncpy_def)

text \<open>A name written by \<open>strncpy\<close> compares equal under \<open>strncmp\<close> with the same bound.\<close>

lemma cstr_strncpy_loop: "cstr (strncpy_loop t n) = take n (cstr t)"
proof (induction t n rule: strncpy_loop.induct)
  case (1 t)
  then show ?case by simp
next
  case (2 t n)
  then show ?case by (cases t) auto
qed

lemma strncmp_strncpy: "strncmp t (strncpy_loop t n) n = 0"
  by (simp add: strncmp_zero_iff cstr_strncpy_loop)

lemma length_safestrcpy_loop: "0 < n \<Longrightarrow> length (safestrcpy_loop t n) \<le> n"
  by (induction t n rule: safestrcpy_loop.induct) auto

lemma cstr_safestrcpy_loop:
  "0 < n \<Longrightarrow> cstr (safestrcpy_loop t n @ r) = take (n - 1) (cstr t)"
proof (induction t n rule: safestrcpy_loop.induct)
  case (1 t)
  then show ?case by simp
next
  case (2 t)
  then show ?case by simp
next
  case (3 t n)
  then show ?case by (cases t) auto
qed

text \<open>
  \<open>safestrcpy\<close> leaves the buffer its length, and the C string in it is the source cut to
  \<open>n - 1\<close> characters.
\<close>

lemma safestrcpy_spec:
  assumes "0 < n" and "nat n \<le> length s"
  shows "length (safestrcpy s t n) = length s"
    and "cstr (safestrcpy s t n) = take (nat n - 1) (cstr t)"
  using assms length_safestrcpy_loop [of "nat n" t]
  by (auto simp: safestrcpy_def Let_def cstr_safestrcpy_loop)

section \<open>Facts about lines and tokens\<close>

lemma gets_loop_length: "length (fst (gets_loop k inp)) \<le> k + 1"
  by (induction k inp rule: gets_loop.induct) (auto split: prod.splits)

lemma gets_loop_split: "gets_loop k inp = (b, rest) \<Longrightarrow> inp = butlast b @ rest \<and> last b = NUL"
proof (induction k inp arbitrary: b rest rule: gets_loop.induct)
  case (1 inp)
  then show ?case by auto
next
  case (2 k)
  then show ?case by auto
next
  case (3 k c inp)
  show ?case
  proof (cases "c = CHR 0x0A \<or> c = CHR 0x0D")
    case True
    then show ?thesis using "3.prems" by auto
  next
    case False
    then obtain b' where b': "gets_loop k inp = (b', rest)" "b = c # b'"
      using "3.prems" by (auto split: prod.splits)
    have "b' \<noteq> []" using b'(1) by (cases k; cases inp) (auto split: if_splits prod.splits)
    with "3.IH" [OF False b'(1)] b'(2) show ?thesis by auto
  qed
qed

lemma strtok_scan_spec:
  assumes "strtok_scan s delim = (tok, nxt)"
  shows "set tok \<inter> set (cstr delim) = {} \<and> NUL \<notin> set tok \<and>
         (case nxt of
            None \<Rightarrow> cstr s = tok
          | Some r \<Rightarrow> \<exists>d \<in> set (cstr delim). s = tok @ d # r)"
  using assms
proof (induction s arbitrary: tok nxt)
  case Nil
  then show ?case by simp
next
  case (Cons c s)
  show ?case
  proof (cases "c = NUL \<or> c \<in> set (cstr delim)")
    case True
    then show ?thesis using Cons.prems by (force split: if_splits)
  next
    case False
    then obtain tok' where "strtok_scan s delim = (tok', nxt)" "tok = c # tok'"
      using Cons.prems by (auto split: prod.splits)
    with Cons.IH [of tok' nxt] False show ?thesis by (auto split: option.splits)
  qed
qed

section \<open>Facts about memory\<close>

text \<open>The specification: every byte of the destination gets the old byte of the source.\<close>

definition moved :: "memory \<Rightarrow> nat \<Rightarrow> nat \<Rightarrow> nat \<Rightarrow> memory" where
  "moved m d s n = (\<lambda>a. if d \<le> a \<and> a < d + n then m (s + (a - d)) else m a)"

lemma moved_0 [simp]: "moved m d s 0 = m"
  by (rule ext) (auto simp: moved_def)

lemma moved_first:
  "d \<le> s \<or> s + n < d \<Longrightarrow> moved (m(d := m s)) (d + 1) (s + 1) n = moved m d s (Suc n)"
proof (rule ext)
  fix x
  assume h: "d \<le> s \<or> s + n < d"
  have "s + (x - d) = Suc s + (x - Suc d)" if "d < x"
    using that by simp
  then show "moved (m(d := m s)) (d + 1) (s + 1) n x = moved m d s (Suc n) x"
    using h by (cases "x = d") (auto simp: moved_def)
qed

lemma moved_last:
  "s \<le> d \<Longrightarrow> moved (m(d + n := m (s + n))) d s n = moved m d s (Suc n)"
  by (rule ext) (auto simp: moved_def less_Suc_eq)

lemma copy_up_moved: "d \<le> s \<or> s + n \<le> d \<Longrightarrow> copy_up m d s n = moved m d s n"
proof (induction n arbitrary: m d s)
  case 0
  then show ?case by simp
next
  case (Suc n)
  then have "copy_up (m(d := m s)) (d + 1) (s + 1) n = moved (m(d := m s)) (d + 1) (s + 1) n"
    by (intro Suc.IH) auto
  also have "\<dots> = moved m d s (Suc n)"
    using Suc.prems by (intro moved_first) auto
  finally show ?case by simp
qed

lemma copy_down_moved: "s \<le> d \<Longrightarrow> copy_down m (d + n) (s + n) n = moved m d s n"
proof (induction n arbitrary: m)
  case 0
  then show ?case by simp
next
  case (Suc n)
  have "copy_down m (d + Suc n) (s + Suc n) (Suc n) = moved (m(d + n := m (s + n))) d s n"
    using Suc by simp
  also have "\<dots> = moved m d s (Suc n)"
    using Suc.prems by (rule moved_last)
  finally show ?case .
qed

lemma memmove_eq: "memmove m dst src n = moved m dst src n"
proof (cases "src < dst \<and> src + n > dst")
  case True
  then show ?thesis by (simp add: memmove_def copy_down_moved)
next
  case False
  then have "dst \<le> src \<or> src + n \<le> dst" by auto
  with False show ?thesis by (auto simp: memmove_def copy_up_moved)
qed

text \<open>
  The kernel's \<open>memmove\<close> copies correctly for every placement of source and
  destination, overlapping or not: every destination byte receives the byte the source held
  before the call, and no other byte changes.
\<close>

theorem memmove_moved: "memmove m dst src n = moved m dst src n"
  by (rule memmove_eq)

lemma umemmove_moved:
  "vdst \<le> vsrc \<or> vsrc + nat n \<le> vdst \<Longrightarrow> umemmove m vdst vsrc n = moved m vdst vsrc (nat n)"
  by (simp add: umemmove_def copy_up_moved)

definition filled :: "memory \<Rightarrow> nat \<Rightarrow> byte \<Rightarrow> nat \<Rightarrow> memory" where
  "filled m d c n = (\<lambda>a. if d \<le> a \<and> a < d + n then c else m a)"

lemma filled_0 [simp]: "filled m d c 0 = m"
  by (rule ext) (auto simp: filled_def)

lemma filled_first: "filled (m(d := c)) (d + 1) c n = filled m d c (Suc n)"
  by (rule ext) (auto simp: filled_def)

lemma stosb_filled: "stosb m d c n = filled m d c n"
proof (induction m d c n rule: stosb.induct)
  case (1 m a c)
  then show ?case by simp
next
  case (2 m a c n)
  then show ?case by (simp only: stosb.simps filled_first)
qed

lemma stosl_filled:
  assumes "ucast w = c" "ucast (drop_bit 8 w) = c"
    "ucast (drop_bit 16 w) = c" "ucast (drop_bit 24 w) = c"
  shows "stosl m d w n = filled m d c (4 * n)"
proof (induction n arbitrary: m d)
  case 0
  then show ?case by simp
next
  case (Suc n)
  have "filled (m(d := c, d + 1 := c, d + 2 := c, d + 3 := c)) (d + 4) c (4 * n)
      = filled m d c (4 * Suc n)"
    by (rule ext) (auto simp: filled_def)
  then show ?case by (simp only: stosl.simps assms Suc)
qed

lemma spread_byte:
  assumes "w = push_bit 24 (c AND 0xFF) OR push_bit 16 (c AND 0xFF) OR push_bit 8 (c AND 0xFF)
      OR (c AND 0xFF :: uint)"
  shows "ucast w = (ucast c :: byte)" "ucast (drop_bit 8 w) = (ucast c :: byte)"
    "ucast (drop_bit 16 w) = (ucast c :: byte)" "ucast (drop_bit 24 w) = (ucast c :: byte)"
proof -
  have m: "(0xFF :: uint) = mask 8"
    by (simp add: mask_eq_exp_minus_1)
  show "ucast w = (ucast c :: byte)" "ucast (drop_bit 8 w) = (ucast c :: byte)"
    "ucast (drop_bit 16 w) = (ucast c :: byte)" "ucast (drop_bit 24 w) = (ucast c :: byte)"
    unfolding assms m by (rule bit_word_eqI, simp add: bit_simps)+
qed

lemma memset_eq: "memset m dst c n = filled m dst (ucast c) n"
proof (cases "dst mod 4 = 0 \<and> n mod 4 = 0")
  case True
  then have "4 * (n div 4) = n" by auto
  with True show ?thesis
    unfolding memset_def Let_def
    by (subst stosl_filled [OF spread_byte [OF refl]]) auto
next
  case False
  then show ?thesis by (auto simp: memset_def stosb_filled)
qed

text \<open>
  The word-at-a-time fast path of \<open>memset\<close> is equivalent to the byte loop: whatever the
  alignment, exactly the \<open>n\<close> bytes from \<open>dst\<close> become the low byte of \<open>c\<close>.
\<close>

theorem memset_filled: "memset m dst c n = filled m dst (ucast c) n"
  by (rule memset_eq)

end
