(* ===== verification/Xv6_Print.thy ===== *)
theory Xv6_Print
  imports Xv6_String
begin

text \<open>
  Formatted output: \<open>printint\<close> and \<open>cprintf\<close> of \<open>console.c\<close> and \<open>printint\<close> and
  \<open>printf\<close> of the user library \<open>printf.c\<close>.  Output is the string of characters given to
  \<open>consputc\<close> or \<open>putc\<close>, in order.  The result \<open>None\<close> stands for undefined behaviour: a
  division by zero, a digit outside the digit table, a write past the 16-byte buffer, or a
  format that does not match its arguments.  The theorems show that with the bases the callers
  use (10 and 16) none of the first three can happen, and what is printed.
\<close>

section \<open>printint\<close>

partial_function (option) printint_loop :: "string \<Rightarrow> uint \<Rightarrow> uint \<Rightarrow> string \<Rightarrow> string option" where
  "printint_loop digits base x buf =
     (if base = 0 \<or> 16 \<le> length buf \<or> length digits \<le> unat (x mod base) then None
      else (let buf' = buf @ [digits ! unat (x mod base)] in
            if x div base \<noteq> 0 then printint_loop digits base (x div base) buf' else Some buf'))"

definition printint_buf :: "string \<Rightarrow> uint \<Rightarrow> uint \<Rightarrow> bool \<Rightarrow> string option" where
  "printint_buf digits xx base sg =
     (let neg = (sg \<and> sint xx < 0);
          x = (if neg then - xx else xx) in
      case printint_loop digits base x [] of
        None \<Rightarrow> None
      | Some buf \<Rightarrow>
          if \<not> neg then Some (rev buf)
          else if 16 \<le> length buf then None else Some (rev (buf @ ''-'')))"

definition cons_printint :: "uint \<Rightarrow> uint \<Rightarrow> bool \<Rightarrow> string option" where
  "cons_printint xx base sg = printint_buf ''0123456789abcdef'' xx base sg"

definition u_printint :: "uint \<Rightarrow> uint \<Rightarrow> bool \<Rightarrow> string option" where
  "u_printint xx base sg = printint_buf ''0123456789ABCDEF'' xx base sg"

section \<open>cprintf and printf\<close>

datatype vararg = VInt uint | VStr "string option"

definition str_or_null :: "string option \<Rightarrow> string" where
  "str_or_null s = (case s of None \<Rightarrow> ''(null)'' | Some t \<Rightarrow> cstr t)"

text \<open>Printing one argument, then the rest of the output.\<close>

definition emit :: "string option \<Rightarrow> string option \<Rightarrow> string option" where
  "emit a b = (case a of None \<Rightarrow> None | Some x \<Rightarrow> map_option (\<lambda>y. x @ y) b)"

fun cprintf_loop :: "string \<Rightarrow> vararg list \<Rightarrow> string option" where
  "cprintf_loop [] args = Some []"
| "cprintf_loop [c] args = (if c = NUL \<or> c = CHR ''%'' then Some [] else Some [c])"
| "cprintf_loop (c # d # fmt) args =
     (if c = NUL then Some []
      else if c \<noteq> CHR ''%'' then emit (Some [c]) (cprintf_loop (d # fmt) args)
      else if d = NUL then Some []
      else if d = CHR ''d'' then
        (case args of
           VInt x # rest \<Rightarrow> emit (cons_printint x 10 True) (cprintf_loop fmt rest)
         | _ \<Rightarrow> None)
      else if d = CHR ''x'' \<or> d = CHR ''p'' then
        (case args of
           VInt x # rest \<Rightarrow> emit (cons_printint x 16 False) (cprintf_loop fmt rest)
         | _ \<Rightarrow> None)
      else if d = CHR ''s'' then
        (case args of
           VStr s # rest \<Rightarrow> emit (Some (str_or_null s)) (cprintf_loop fmt rest)
         | _ \<Rightarrow> None)
      else if d = CHR ''%'' then emit (Some ''%'') (cprintf_loop fmt args)
      else emit (Some [CHR ''%'', d]) (cprintf_loop fmt args))"

definition cprintf :: "string option \<Rightarrow> vararg list \<Rightarrow> string option outcome" where
  "cprintf fmt args =
     (case fmt of None \<Rightarrow> Panic ''null fmt'' | Some f \<Rightarrow> Val (cprintf_loop f args))"

text \<open>The user-space \<open>printf\<close> keeps a \<open>state\<close>: \<open>True\<close> after a percent sign.\<close>

fun printf_loop :: "bool \<Rightarrow> string \<Rightarrow> vararg list \<Rightarrow> string option" where
  "printf_loop state [] args = Some []"
| "printf_loop state (c # fmt) args =
     (if c = NUL then Some []
      else if \<not> state then
        (if c = CHR ''%'' then printf_loop True fmt args
         else emit (Some [c]) (printf_loop False fmt args))
      else if c = CHR ''d'' then
        (case args of
           VInt x # rest \<Rightarrow> emit (u_printint x 10 True) (printf_loop False fmt rest)
         | _ \<Rightarrow> None)
      else if c = CHR ''x'' \<or> c = CHR ''p'' then
        (case args of
           VInt x # rest \<Rightarrow> emit (u_printint x 16 False) (printf_loop False fmt rest)
         | _ \<Rightarrow> None)
      else if c = CHR ''s'' then
        (case args of
           VStr s # rest \<Rightarrow> emit (Some (str_or_null s)) (printf_loop False fmt rest)
         | _ \<Rightarrow> None)
      else if c = CHR ''c'' then
        (case args of
           VInt x # rest \<Rightarrow> emit (Some [char_of (unat x)]) (printf_loop False fmt rest)
         | _ \<Rightarrow> None)
      else if c = CHR ''%'' then emit (Some [c]) (printf_loop False fmt args)
      else emit (Some [CHR ''%'', c]) (printf_loop False fmt args))"

definition printf :: "string \<Rightarrow> vararg list \<Rightarrow> string option" where
  "printf fmt args = printf_loop False fmt args"

section \<open>The digits of a number\<close>

text \<open>Least significant digit first, as the buffer is filled.\<close>

fun digits_rev :: "nat \<Rightarrow> nat \<Rightarrow> nat list" where
  "digits_rev b n = (if b < 2 \<or> n < b then [n mod b] else n mod b # digits_rev b (n div b))"

declare digits_rev.simps [simp del]

lemma digits_rev_rec:
  "2 \<le> b \<Longrightarrow> digits_rev b n = n mod b # (if n div b = 0 then [] else digits_rev b (n div b))"
  by (subst digits_rev.simps) (auto simp: div_eq_0_iff)

lemma digits_rev_length: "2 \<le> b \<Longrightarrow> n < b ^ k \<Longrightarrow> 0 < k \<Longrightarrow> length (digits_rev b n) \<le> k"
proof (induction k arbitrary: n)
  case 0
  then show ?case by simp
next
  case (Suc k)
  show ?case
  proof (cases "n < b")
    case True
    then show ?thesis by (simp add: digits_rev.simps)
  next
    case False
    then have k: "0 < k" using Suc.prems by (cases k) auto
    have "n div b < b ^ k"
      using Suc.prems by (simp add: less_mult_imp_div_less mult.commute)
    with Suc.IH [of "n div b"] k Suc.prems(1) False show ?thesis
      by (subst digits_rev.simps) auto
  qed
qed

lemma digits_rev_lt: "2 \<le> b \<Longrightarrow> d \<in> set (digits_rev b n) \<Longrightarrow> d < b"
proof (induction b n rule: digits_rev.induct)
  case (1 b n)
  then show ?case by (subst (asm) digits_rev_rec) (auto split: if_splits simp: div_eq_0_iff)
qed

text \<open>Reading the digits back.\<close>

fun eval_rev :: "nat \<Rightarrow> nat list \<Rightarrow> nat" where
  "eval_rev b [] = 0"
| "eval_rev b (d # ds) = d + b * eval_rev b ds"

lemma eval_digits_rev: "2 \<le> b \<Longrightarrow> eval_rev b (digits_rev b n) = n"
proof (induction b n rule: digits_rev.induct)
  case (1 b n)
  show ?case
  proof (cases "n < b")
    case True
    then show ?thesis using 1 by (simp add: digits_rev.simps)
  next
    case False
    then show ?thesis using 1 by (subst digits_rev.simps) auto
  qed
qed

section \<open>printint prints the digits\<close>

lemma printint_loop_digits:
  assumes b: "2 \<le> unat base" "unat base \<le> length digits"
    and room: "length buf + length (digits_rev (unat base) (unat x)) \<le> 16"
  shows "printint_loop digits base x buf
       = Some (buf @ map ((!) digits) (digits_rev (unat base) (unat x)))"
  using room
proof (induction "unat x" arbitrary: x buf rule: less_induct)
  case less
  let ?b = "unat base"
  have nz: "base \<noteq> 0" using b by auto
  have lt: "unat (x mod base) < length digits"
    using b by (simp add: unat_mod) (metis mod_less_divisor nz unat_gt_0 order_less_le_trans)
  have rec: "digits_rev ?b (unat x) =
      unat x mod ?b # (if unat x div ?b = 0 then [] else digits_rev ?b (unat x div ?b))"
    using b by (intro digits_rev_rec) auto
  then have len: "length buf < 16" using less.prems by auto
  have zero: "x div base = 0 \<longleftrightarrow> unat x div ?b = 0"
    by (metis unat_div unat_eq_zero)
  show ?case
  proof (cases "x div base = 0")
    case True
    then show ?thesis
      using nz lt len zero
      by (subst printint_loop.simps) (simp add: rec unat_mod Let_def)
  next
    case False
    then have "unat (x div base) < unat x"
      using b zero by (simp add: unat_div) (metis div_less_dividend gr0I div_0 less_le_trans
          one_less_numeral_iff semiring_norm(76))
    moreover have "length (buf @ [digits ! unat (x mod base)])
        + length (digits_rev ?b (unat (x div base))) \<le> 16"
      using less.prems False zero by (simp add: rec unat_div)
    ultimately have "printint_loop digits base (x div base) (buf @ [digits ! unat (x mod base)])
      = Some ((buf @ [digits ! unat (x mod base)])
          @ map ((!) digits) (digits_rev ?b (unat (x div base))))"
      by (rule less.hyps)
    then show ?thesis
      using nz lt len zero False
      by (subst printint_loop.simps) (simp add: rec unat_mod unat_div Let_def)
  qed
qed

text \<open>What a number looks like in a base: most significant digit first, a minus sign if negative.\<close>

definition numeral_string :: "string \<Rightarrow> nat \<Rightarrow> int \<Rightarrow> string" where
  "numeral_string digits b v =
     (if v < 0 then ''-'' else []) @ rev (map ((!) digits) (digits_rev b (nat \<bar>v\<bar>)))"

definition shown_value :: "uint \<Rightarrow> bool \<Rightarrow> int" where
  "shown_value x sg = (if sg then sint x else uint x)"

lemma shown_value_nonneg: "\<not> shown_value xx sg < 0 \<Longrightarrow> nat \<bar>shown_value xx sg\<bar> = unat xx"
proof -
  assume "\<not> shown_value xx sg < 0"
  then have "shown_value xx sg = uint xx"
    using uint_ge_0 [of xx] uint_lt2p [of xx] by (auto simp: shown_value_def sint_uint32 split: if_splits)
  then show ?thesis by simp
qed

lemma digits_rev_room:
  fixes x :: uint
  assumes "b = 10 \<or> b = 16"
  shows "length (digits_rev b (unat x)) \<le> 10"
  using assms
proof
  assume b: "b = 10"
  have "unat x < 10 ^ 10" by (rule order_less_le_trans [OF unat_lt_32]) simp
  with b show ?thesis by (intro digits_rev_length) simp_all
next
  assume b: "b = 16"
  have "unat x < 16 ^ 10" by (rule order_less_le_trans [OF unat_lt_32]) simp
  with b show ?thesis by (intro digits_rev_length) simp_all
qed

lemma printint_buf_numeral:
  assumes base: "base = 10 \<or> base = 16" and d: "length digits = 16"
  shows "printint_buf digits xx base sg
       = Some (numeral_string digits (unat base) (shown_value xx sg))"
proof -
  have b: "unat base = 10 \<or> unat base = 16" using base by auto
  have run: "printint_loop digits base x [] = Some (map ((!) digits) (digits_rev (unat base) (unat x)))"
    for x
    using printint_loop_digits [of base digits "[]" x] b d digits_rev_room [of "unat base" x] by auto
  show ?thesis
  proof (cases "sg \<and> sint xx < 0")
    case True
    have len: "length (digits_rev (unat base) (nat \<bar>sint xx\<bar>)) \<le> 10"
      using digits_rev_room [OF b, of "- xx"] True by (simp add: unat_neg_abs)
    have loop: "printint_loop digits base (- xx) []
        = Some (map ((!) digits) (digits_rev (unat base) (nat \<bar>sint xx\<bar>)))"
      using run [of "- xx"] True by (simp only: unat_neg_abs)
    have "printint_buf digits xx base sg
        = Some (rev (map ((!) digits) (digits_rev (unat base) (nat \<bar>sint xx\<bar>)) @ ''-''))"
      unfolding printint_buf_def Let_def using True len by (simp add: loop)
    then show ?thesis using True by (simp add: numeral_string_def shown_value_def)
  next
    case False
    then have nn: "\<not> shown_value xx sg < 0"
      by (simp add: shown_value_def)
    moreover note shown_value_nonneg [OF nn]
    moreover have "printint_buf digits xx base sg
        = Some (rev (map ((!) digits) (digits_rev (unat base) (unat xx))))"
      unfolding printint_buf_def Let_def using False by (auto simp: run [of xx])
    ultimately show ?thesis by (simp add: numeral_string_def)
  qed
qed

lemma cons_printint_numeral:
  "base = 10 \<or> base = 16 \<Longrightarrow>
   cons_printint xx base sg
   = Some (numeral_string ''0123456789abcdef'' (unat base) (shown_value xx sg))"
  unfolding cons_printint_def by (rule printint_buf_numeral) simp_all

lemma u_printint_numeral:
  "base = 10 \<or> base = 16 \<Longrightarrow>
   u_printint xx base sg
   = Some (numeral_string ''0123456789ABCDEF'' (unat base) (shown_value xx sg))"
  unfolding u_printint_def by (rule printint_buf_numeral) simp_all

section \<open>Reading a printed number back\<close>

definition dec_digit :: "nat \<Rightarrow> char" where
  "dec_digit d = ''0123456789ABCDEF'' ! d"

lemma digit_char:
  assumes "d < 10"
  shows "is_digit (dec_digit d)" and "uchar (dec_digit d) = int d + 48"
proof -
  have "d \<in> {0, 1, 2, 3, 4, 5, 6, 7, 8, 9}" using assms by auto
  then show "is_digit (dec_digit d)" "uchar (dec_digit d) = int d + 48"
    by (auto simp: is_digit_def uchar_def dec_digit_def)
qed

lemma atoi_loop_append:
  "\<forall>c \<in> set s. is_digit c \<Longrightarrow> atoi_loop n (s @ t) = atoi_loop (atoi_loop n s) t"
  by (induction s arbitrary: n) auto

lemma atoi_loop_digits:
  "\<forall>d \<in> set ds. d < 10 \<Longrightarrow>
   atoi_loop 0 (rev (map dec_digit ds)) = of_nat (eval_rev 10 ds)"
proof (induction ds)
  case Nil
  then show ?case by simp
next
  case (Cons d ds)
  have "\<forall>c \<in> set (rev (map dec_digit ds)). is_digit c"
    using Cons.prems by (auto intro: digit_char(1))
  then have "atoi_loop 0 (rev (map dec_digit (d # ds)))
      = atoi_loop (atoi_loop 0 (rev (map dec_digit ds))) [dec_digit d]"
    by (simp add: atoi_loop_append)
  also have "\<dots> = of_nat (eval_rev 10 (d # ds))"
    using Cons digit_char [of d] by (simp add: uchar_def)
  finally show ?case .
qed

text \<open>
  Printing a machine integer in decimal and reading it back with \<open>atoi\<close> gives the integer
  again, for every non-negative value; printing never runs past the 16-byte buffer.
\<close>

theorem printint_atoi_roundtrip:
  assumes "0 \<le> sint x"
  shows "\<exists>s. u_printint x 10 True = Some s \<and> atoi s = sint x \<and> length s \<le> 10"
proof -
  let ?s = "rev (map dec_digit (digits_rev 10 (unat x)))"
  have v: "\<not> shown_value x True < 0"
    using assms by (simp add: shown_value_def)
  have "u_printint x 10 True = Some ?s"
    using v
    by (simp add: u_printint_numeral numeral_string_def shown_value_nonneg [OF v, simplified v]
        dec_digit_def [abs_def, symmetric] del: abs_of_nonneg)
  moreover have "atoi_loop 0 ?s = x"
    using atoi_loop_digits [of "digits_rev 10 (unat x)"] digits_rev_lt [of 10 _ "unat x"]
    by (simp add: eval_digits_rev)
  ultimately show ?thesis
    using digits_rev_room [of 10 x] by (intro exI [of _ ?s]) (simp add: atoi_def)
qed

theorem printint_atoi_roundtrip_witness:
  "0 \<le> sint (40 :: uint) \<and>
   (\<exists>s. u_printint 40 10 True = Some s \<and> atoi s = 40 \<and> length s \<le> 10)"
proof -
  have h: "0 \<le> sint (40 :: uint)" by simp
  then show ?thesis using printint_atoi_roundtrip [OF h] by simp
qed

end
