(* ===== verification/Xv6_Pipe.thy ===== *)
theory Xv6_Pipe
  imports Xv6_Prelude
begin

text \<open>
  Pipes (\<open>pipe.c\<close>).  A pipe is a ring of \<open>PIPESIZE\<close> bytes with two free-running 32-bit
  counters.  The functions run under the pipe's lock, so each call is one atomic step up to the
  point where it returns or goes to sleep; a call that sleeps is resumed later from the same
  loop iteration.  \<open>wakeup\<close> calls are recorded in order.  The specification is an unbounded FIFO
  queue of bytes: the locale \<open>bounded_fifo\<close> states it and the ring is shown to satisfy it,
  wrap-around of the counters included.
\<close>

section \<open>The pipe\<close>

definition PIPESIZE :: nat where
  "PIPESIZE = 512"

record pipe =
  pdata :: "byte list"
  nread :: uint
  nwrite :: uint
  readopen :: bool
  writeopen :: bool

datatype pchan = Chan_nread | Chan_nwrite

text \<open>How a call ends for now: it returns an int, or sleeps on a channel.\<close>

datatype pipe_end = Returns int | Sleeps pchan

text \<open>The two accesses to the ring: \<open>p->data[p->nwrite++ % PIPESIZE] = b\<close> and its converse.\<close>

definition pipe_put :: "pipe \<Rightarrow> byte \<Rightarrow> pipe" where
  "pipe_put p b =
     p\<lparr>pdata := (pdata p)[unat (nwrite p mod of_nat PIPESIZE) := b], nwrite := nwrite p + 1\<rparr>"

definition pipe_get :: "pipe \<Rightarrow> byte \<times> pipe" where
  "pipe_get p =
     (pdata p ! unat (nread p mod of_nat PIPESIZE), p\<lparr>nread := nread p + 1\<rparr>)"

text \<open>What \<open>pipealloc\<close> stores into the fresh page: only the counters and flags are set.\<close>

definition pipe_init :: "byte list \<Rightarrow> pipe" where
  "pipe_init page =
     \<lparr>pdata = page, nread = 0, nwrite = 0, readopen = True, writeopen = True\<rparr>"

text \<open>\<open>pipeclose\<close>: the result says whether the page of the pipe is freed.\<close>

definition pipeclose :: "pipe \<Rightarrow> bool \<Rightarrow> pipe \<times> pchan list \<times> bool" where
  "pipeclose p writable =
     (let (p, w) = (if writable then (p\<lparr>writeopen := False\<rparr>, [Chan_nread])
                    else (p\<lparr>readopen := False\<rparr>, [Chan_nwrite]))
      in (p, w, \<not> readopen p \<and> \<not> writeopen p))"

text \<open>
  \<open>pipewrite\<close> from loop index \<open>i\<close>: \<open>killed\<close> is \<open>myproc()->killed\<close>.  The result is the pipe,
  the channels woken, the loop index reached and how the call ended.  A writer that sleeps
  continues with the index it returned.
\<close>

function pipewrite_loop ::
    "bool \<Rightarrow> byte list \<Rightarrow> int \<Rightarrow> nat \<Rightarrow> pipe \<Rightarrow> pipe \<times> pchan list \<times> nat \<times> pipe_end" where
  "pipewrite_loop killed addr n i p =
     (if int i < n then
        (if nwrite p = nread p + of_nat PIPESIZE then
           (if \<not> readopen p \<or> killed then (p, [], i, Returns (- 1))
            else (p, [Chan_nread], i, Sleeps Chan_nwrite))
         else pipewrite_loop killed addr n (i + 1) (pipe_put p (addr ! i)))
      else (p, [Chan_nread], i, Returns n))"
  by pat_completeness auto
termination
  by (relation "measure (\<lambda>(killed, addr, n, i, p). nat (n - int i))") auto

declare pipewrite_loop.simps [simp del]

definition pipewrite :: "bool \<Rightarrow> pipe \<Rightarrow> byte list \<Rightarrow> int \<Rightarrow> pipe \<times> pchan list \<times> nat \<times> pipe_end" where
  "pipewrite killed p addr n = pipewrite_loop killed addr n 0 p"

text \<open>\<open>piperead\<close>: the copy loop, and the whole call with the bytes stored at \<open>addr\<close>.\<close>

fun piperead_copy :: "nat \<Rightarrow> pipe \<Rightarrow> byte list \<times> pipe" where
  "piperead_copy 0 p = ([], p)"
| "piperead_copy (Suc k) p =
     (if nread p = nwrite p then ([], p)
      else (let (b, p') = pipe_get p; (bs, p'') = piperead_copy k p' in (b # bs, p'')))"

definition piperead :: "bool \<Rightarrow> pipe \<Rightarrow> int \<Rightarrow> pipe \<times> pchan list \<times> byte list \<times> pipe_end" where
  "piperead killed p n =
     (if nread p = nwrite p \<and> writeopen p then
        (if killed then (p, [], [], Returns (- 1)) else (p, [], [], Sleeps Chan_nread))
      else (let (bs, p') = piperead_copy (nat n) p
            in (p', [Chan_nwrite], bs, Returns (int (length bs)))))"

section \<open>The FIFO contract\<close>

locale bounded_fifo =
  fixes inv :: "'s \<Rightarrow> bool"
    and contents :: "'s \<Rightarrow> 'a list"
    and put :: "'s \<Rightarrow> 'a \<Rightarrow> 's"
    and get :: "'s \<Rightarrow> 'a \<times> 's"
    and cap :: nat
  assumes put_inv: "inv s \<Longrightarrow> length (contents s) < cap \<Longrightarrow> inv (put s x)"
    and put_contents: "inv s \<Longrightarrow> length (contents s) < cap \<Longrightarrow> contents (put s x) = contents s @ [x]"
    and get_inv: "inv s \<Longrightarrow> contents s \<noteq> [] \<Longrightarrow> inv (snd (get s))"
    and get_contents: "inv s \<Longrightarrow> contents s \<noteq> [] \<Longrightarrow> contents s = fst (get s) # contents (snd (get s))"
    and bounded: "inv s \<Longrightarrow> length (contents s) \<le> cap"
begin

lemma puts_spec:
  "inv s \<Longrightarrow> length (contents s) + length xs \<le> cap \<Longrightarrow>
   inv (foldl put s xs) \<and> contents (foldl put s xs) = contents s @ xs"
proof (induction xs arbitrary: s)
  case Nil
  then show ?case by simp
next
  case (Cons x xs)
  then have "inv (put s x)" "contents (put s x) = contents s @ [x]"
    by (auto intro: put_inv put_contents)
  with Cons show ?case by auto
qed

lemma get_after_put:
  "inv s \<Longrightarrow> contents s = [] \<Longrightarrow> 0 < cap \<Longrightarrow> fst (get (put s x)) = x"
  using put_contents [of s x] put_inv [of s x] get_contents [of "put s x"] by auto

end

section \<open>The ring implements it\<close>

definition pipe_count :: "pipe \<Rightarrow> nat" where
  "pipe_count p = unat (nwrite p - nread p)"

definition pipe_contents :: "pipe \<Rightarrow> byte list" where
  "pipe_contents p =
     map (\<lambda>k. pdata p ! ((unat (nread p) + k) mod PIPESIZE)) [0..<pipe_count p]"

definition pipe_inv :: "pipe \<Rightarrow> bool" where
  "pipe_inv p \<longleftrightarrow> length (pdata p) = PIPESIZE \<and> pipe_count p \<le> PIPESIZE"

lemma length_pipe_contents [simp]: "length (pipe_contents p) = pipe_count p"
  by (simp add: pipe_contents_def)

lemma ring_slot: "unat (a mod of_nat PIPESIZE :: uint) = unat a mod PIPESIZE"
  by (simp add: PIPESIZE_def unat_mod)

lemma nwrite_count: "unat (nwrite p) mod PIPESIZE = (unat (nread p) + pipe_count p) mod PIPESIZE"
proof -
  have "nwrite p = nread p + (nwrite p - nread p)" by simp
  then have "unat (nwrite p) = (unat (nread p) + pipe_count p) mod 4294967296"
    unfolding pipe_count_def by (metis unat_add_uint)
  then show ?thesis by (simp add: PIPESIZE_def mod_mod_cancel)
qed

lemma unat_word_plus_1: "unat (d :: uint) < 4294967295 \<Longrightarrow> unat (d + 1) = unat d + 1"
  by (simp add: unat_add_uint)

lemma pipe_put_sel [simp]:
  "pdata (pipe_put p b) = (pdata p)[unat (nwrite p mod of_nat PIPESIZE) := b]"
  "nread (pipe_put p b) = nread p" "nwrite (pipe_put p b) = nwrite p + 1"
  "readopen (pipe_put p b) = readopen p" "writeopen (pipe_put p b) = writeopen p"
  by (simp_all add: pipe_put_def)

lemma pipe_get_sel [simp]:
  "fst (pipe_get p) = pdata p ! unat (nread p mod of_nat PIPESIZE)"
  "pdata (snd (pipe_get p)) = pdata p"
  "nread (snd (pipe_get p)) = nread p + 1" "nwrite (snd (pipe_get p)) = nwrite p"
  "readopen (snd (pipe_get p)) = readopen p" "writeopen (snd (pipe_get p)) = writeopen p"
  by (simp_all add: pipe_get_def)

lemma pipe_count_put: "pipe_count p \<le> PIPESIZE \<Longrightarrow> pipe_count (pipe_put p b) = pipe_count p + 1"
proof -
  assume le: "pipe_count p \<le> PIPESIZE"
  have "nwrite p + 1 - nread p = (nwrite p - nread p) + 1" by simp
  moreover have "unat ((nwrite p - nread p) + 1) = unat (nwrite p - nread p) + 1"
    using le by (intro unat_word_plus_1) (simp add: pipe_count_def PIPESIZE_def)
  ultimately show ?thesis by (simp only: pipe_count_def pipe_put_sel)
qed

lemma pipe_full_iff:
  "nwrite p = nread p + of_nat PIPESIZE \<longleftrightarrow> pipe_count p = PIPESIZE"
proof -
  have "nwrite p = nread p + of_nat PIPESIZE \<longleftrightarrow> nwrite p - nread p = of_nat PIPESIZE"
    by (auto simp: algebra_simps)
  also have "\<dots> \<longleftrightarrow> pipe_count p = PIPESIZE"
    by (simp add: pipe_count_def PIPESIZE_def word_unat_eq_iff)
  finally show ?thesis .
qed

lemma pipe_empty_iff: "nread p = nwrite p \<longleftrightarrow> pipe_count p = 0"
  by (auto simp: pipe_count_def unat_eq_zero)

lemma pipe_contents_put:
  assumes inv: "pipe_inv p" and room: "pipe_count p < PIPESIZE"
  shows "pipe_contents (pipe_put p b) = pipe_contents p @ [b]"
proof -
  let ?at = "\<lambda>k. (unat (nread p) + k) mod PIPESIZE"
  have w: "unat (nwrite p mod of_nat PIPESIZE) = ?at (pipe_count p)"
    by (simp only: ring_slot nwrite_count)
  have len: "?at k < length (pdata p)" for k
    using inv by (simp add: pipe_inv_def PIPESIZE_def)
  have other: "?at k \<noteq> ?at (pipe_count p)" if "k < pipe_count p" for k
    using mod_window [of k PIPESIZE "pipe_count p" "unat (nread p)"] that room by auto
  have "pipe_contents (pipe_put p b)
      = map (\<lambda>k. (pdata p)[?at (pipe_count p) := b] ! ?at k) [0..<Suc (pipe_count p)]"
    using room by (simp add: pipe_contents_def pipe_count_put w del: upt_Suc)
  also have "\<dots> = pipe_contents p @ [b]"
    using other [THEN not_sym] len by (simp add: pipe_contents_def nth_list_update)
  finally show ?thesis .
qed

lemma pipe_count_get:
  "0 < pipe_count p \<Longrightarrow> pipe_count (snd (pipe_get p)) = pipe_count p - 1"
proof -
  assume pos: "0 < pipe_count p"
  have "nwrite p - (nread p + 1) = (nwrite p - nread p) - 1" by simp
  moreover have "unat ((nwrite p - nread p) - 1) = unat (nwrite p - nread p) - 1"
    using pos by (simp add: pipe_count_def unat_sub_uint)
  ultimately show ?thesis by (simp only: pipe_count_def pipe_get_sel)
qed

lemma pipe_contents_get:
  assumes "pipe_contents p \<noteq> []"
  shows "pipe_contents p = fst (pipe_get p) # pipe_contents (snd (pipe_get p))"
proof -
  have pos: "0 < pipe_count p"
    using assms by (metis length_greater_0_conv length_pipe_contents)
  have shift: "(unat (nread p + 1) + k) mod PIPESIZE = (unat (nread p) + Suc k) mod PIPESIZE" for k
  proof -
    have "(unat (nread p + 1) + k) mod 512 = ((unat (nread p) + 1) mod 4294967296 mod 512 + k) mod 512"
      by (simp only: unat_add_uint unat_1 mod_add_left_eq)
    also have "\<dots> = (unat (nread p) + Suc k) mod 512"
      by (simp add: mod_mod_cancel mod_simps)
    finally show ?thesis by (simp add: PIPESIZE_def)
  qed
  have "pipe_contents p
      = map (\<lambda>k. pdata p ! ((unat (nread p) + k) mod PIPESIZE)) (0 # map Suc [0..<pipe_count p - 1])"
    using pos by (simp add: pipe_contents_def map_Suc_upt upt_conv_Cons)
  also have "\<dots> = fst (pipe_get p) # pipe_contents (snd (pipe_get p))"
    using pos by (simp only: list.map map_map comp_def add_0_right pipe_get_sel ring_slot
        pipe_contents_def pipe_count_get shift)
  finally show ?thesis .
qed

interpretation pipe_fifo: bounded_fifo pipe_inv pipe_contents pipe_put pipe_get PIPESIZE
proof unfold_locales
  fix p :: pipe and b :: byte
  assume inv: "pipe_inv p" and room: "length (pipe_contents p) < PIPESIZE"
  then show "pipe_contents (pipe_put p b) = pipe_contents p @ [b]"
    by (simp add: pipe_contents_put)
  from inv room show "pipe_inv (pipe_put p b)"
    by (simp add: pipe_inv_def pipe_count_put)
next
  fix p :: pipe
  assume inv: "pipe_inv p" and ne: "pipe_contents p \<noteq> []"
  from ne show "pipe_contents p = fst (pipe_get p) # pipe_contents (snd (pipe_get p))"
    by (rule pipe_contents_get)
  from ne have "0 < pipe_count p" by (metis length_greater_0_conv length_pipe_contents)
  with inv show "pipe_inv (snd (pipe_get p))"
    by (auto simp: pipe_inv_def pipe_count_get)
next
  fix p :: pipe
  assume "pipe_inv p"
  then show "length (pipe_contents p) \<le> PIPESIZE" by (simp add: pipe_inv_def)
qed


section \<open>Writing and reading whole blocks\<close>

text \<open>The bytes a call of \<open>pipewrite\<close> moves before it returns or sleeps.\<close>

lemma pipewrite_loop_spec:
  assumes "pipewrite_loop killed addr n i p = (p', ws, j, e)" and "pipe_inv p"
  shows "i \<le> j \<and> pipe_inv p' \<and>
         pipe_contents p' = pipe_contents p @ map ((!) addr) [i..<j] \<and>
         readopen p' = readopen p \<and> writeopen p' = writeopen p \<and>
         (int i \<le> n \<longrightarrow> int j \<le> n) \<and>
         (case e of
            Sleeps c \<Rightarrow> c = Chan_nwrite \<and> int j < n \<and> pipe_count p' = PIPESIZE \<and> readopen p' \<and> \<not> killed
          | Returns r \<Rightarrow> (r = n \<and> n \<le> int j) \<or>
              (r = - 1 \<and> int j < n \<and> pipe_count p' = PIPESIZE \<and> (\<not> readopen p' \<or> killed)))"
  using assms
proof (induction killed addr n i p rule: pipewrite_loop.induct)
  case (1 killed addr n i p)
  show ?case
  proof (cases "int i < n")
    case False
    then show ?thesis using 1 by (auto simp: pipewrite_loop.simps [of killed addr n i p])
  next
    case lt: True
    show ?thesis
    proof (cases "pipe_count p = PIPESIZE")
      case True
      then show ?thesis
        using 1 lt by (auto simp: pipewrite_loop.simps [of killed addr n i p] pipe_full_iff split: if_splits)
    next
      case False
      then have room: "length (pipe_contents p) < PIPESIZE"
        using "1.prems"(2) by (simp add: pipe_inv_def)
      have nf: "nwrite p \<noteq> nread p + of_nat PIPESIZE" using False pipe_full_iff by blast
      have rec: "pipewrite_loop killed addr n (i + 1) (pipe_put p (addr ! i)) = (p', ws, j, e)"
        using "1.prems"(1) lt nf by (simp add: pipewrite_loop.simps [of killed addr n i p])
      have inv': "pipe_inv (pipe_put p (addr ! i))"
        using "1.prems"(2) room by (rule pipe_fifo.put_inv)
      have "pipe_contents (pipe_put p (addr ! i)) = pipe_contents p @ [addr ! i]"
        using "1.prems"(2) room by (rule pipe_fifo.put_contents)
      with "1.IH" [OF lt nf rec inv'] lt show ?thesis
        by (auto simp: upt_conv_Cons split: pipe_end.splits)
    qed
  qed
qed

lemma piperead_copy_spec:
  assumes "piperead_copy k p = (bs, p')" and "pipe_inv p"
  shows "pipe_inv p' \<and> pipe_contents p = bs @ pipe_contents p' \<and>
         length bs = min k (pipe_count p) \<and>
         readopen p' = readopen p \<and> writeopen p' = writeopen p"
  using assms
proof (induction k arbitrary: p bs)
  case 0
  then show ?case by simp
next
  case (Suc k)
  show ?case
  proof (cases "pipe_count p = 0")
    case True
    then show ?thesis using Suc.prems by (simp add: pipe_empty_iff)
  next
    case False
    then have ne: "pipe_contents p \<noteq> []"
      by (metis length_pipe_contents list.size(3))
    obtain b q where g: "pipe_get p = (b, q)" by fastforce
    then obtain bs' where "piperead_copy k q = (bs', p')" "bs = b # bs'"
      using Suc.prems(1) False by (auto simp: pipe_empty_iff split: prod.splits)
    with g have rec: "piperead_copy k (snd (pipe_get p)) = (bs', p')"
      and bs: "bs = fst (pipe_get p) # bs'"
      by (simp_all del: pipe_get_sel)
    have inv': "pipe_inv (snd (pipe_get p))"
      using Suc.prems(2) ne by (rule pipe_fifo.get_inv)
    have c: "pipe_contents p = fst (pipe_get p) # pipe_contents (snd (pipe_get p))"
      using Suc.prems(2) ne by (rule pipe_fifo.get_contents)
    then have "pipe_count p = Suc (pipe_count (snd (pipe_get p)))"
      by (metis length_Cons length_pipe_contents)
    with Suc.IH [OF rec inv'] c bs show ?thesis by (simp del: pipe_get_sel(1))
  qed
qed

section \<open>Any number of readers and writers\<close>

text \<open>
  The events on one pipe, in the order the lock serialises them: a (possibly resumed) write from
  index \<open>i\<close> of a buffer, a read, and the closing of either end.  The ghost fields record every
  byte a writer copied in and every byte a reader copied out.
\<close>

datatype pipe_event =
  Ev_write bool "byte list" int nat
| Ev_read bool int
| Ev_close bool

record pipe_run =
  the_pipe :: pipe
  sent :: "byte list"
  received :: "byte list"

fun pipe_event_step :: "pipe_run \<Rightarrow> pipe_event \<Rightarrow> pipe_run" where
  "pipe_event_step s (Ev_write killed addr n i) =
     (let (p', ws, j, e) = pipewrite_loop killed addr n i (the_pipe s)
      in s\<lparr>the_pipe := p', sent := sent s @ map ((!) addr) [i..<j]\<rparr>)"
| "pipe_event_step s (Ev_read killed n) =
     (let (p', ws, bs, e) = piperead killed (the_pipe s) n
      in s\<lparr>the_pipe := p', received := received s @ bs\<rparr>)"
| "pipe_event_step s (Ev_close w) =
     (let (p', ws, freed) = pipeclose (the_pipe s) w in s\<lparr>the_pipe := p'\<rparr>)"

definition pipe_start :: "byte list \<Rightarrow> pipe_run" where
  "pipe_start page = \<lparr>the_pipe = pipe_init page, sent = [], received = []\<rparr>"

definition pipe_run_ok :: "pipe_run \<Rightarrow> bool" where
  "pipe_run_ok s \<longleftrightarrow> pipe_inv (the_pipe s) \<and> sent s = received s @ pipe_contents (the_pipe s)"

lemma piperead_spec:
  assumes "piperead killed p n = (p', ws, bs, e)" and "pipe_inv p"
  shows "pipe_inv p' \<and> pipe_contents p = bs @ pipe_contents p'"
  using assms piperead_copy_spec [of "nat n" p]
  by (auto simp: piperead_def split: if_splits prod.splits)

lemma pipe_close_contents:
  "pipeclose p w = (p', ws, freed) \<Longrightarrow>
   pipe_contents p' = pipe_contents p \<and> pipe_inv p' = pipe_inv p"
  by (auto simp: pipeclose_def pipe_contents_def pipe_count_def pipe_inv_def split: if_splits)

lemma pipe_event_step_ok: "pipe_run_ok s \<Longrightarrow> pipe_run_ok (pipe_event_step s ev)"
proof (cases ev)
  case (Ev_write killed addr n i)
  obtain p' ws j e where "pipewrite_loop killed addr n i (the_pipe s) = (p', ws, j, e)"
    by (metis prod_cases4)
  with pipewrite_loop_spec [OF this] Ev_write show "pipe_run_ok s \<Longrightarrow> ?thesis"
    by (simp add: pipe_run_ok_def)
next
  case (Ev_read killed n)
  obtain p' ws bs e where "piperead killed (the_pipe s) n = (p', ws, bs, e)"
    by (metis prod_cases4)
  with piperead_spec [OF this] Ev_read show "pipe_run_ok s \<Longrightarrow> ?thesis"
    by (simp add: pipe_run_ok_def)
next
  case (Ev_close w)
  obtain p' ws fr where "pipeclose (the_pipe s) w = (p', ws, fr)"
    by (metis prod_cases3)
  with pipe_close_contents [OF this] Ev_close show "pipe_run_ok s \<Longrightarrow> ?thesis"
    by (simp add: pipe_run_ok_def)
qed

lemma pipe_start_ok: "length page = PIPESIZE \<Longrightarrow> pipe_run_ok (pipe_start page)"
  by (simp add: pipe_run_ok_def pipe_start_def pipe_init_def pipe_inv_def pipe_contents_def
      pipe_count_def)

lemma pipe_events_ok: "pipe_run_ok s \<Longrightarrow> pipe_run_ok (foldl pipe_event_step s evs)"
  by (induction evs arbitrary: s) (auto intro: pipe_event_step_ok)

text \<open>
  C23: a pipe is a FIFO channel: after any interleaving of writes (whole or resumed), reads and
  closes, what readers got followed by what the ring still holds is exactly what writers put
  in, in order; the ring never holds more than \<open>PIPESIZE\<close> bytes.  The counters may wrap
  around any number of times.
\<close>

theorem pipe_fifo_history:
  assumes "length page = PIPESIZE" and s: "s = foldl pipe_event_step (pipe_start page) evs"
  shows "sent s = received s @ pipe_contents (the_pipe s) \<and> pipe_count (the_pipe s) \<le> PIPESIZE"
  using pipe_events_ok [OF pipe_start_ok [OF assms(1)], of evs]
  by (simp add: s pipe_run_ok_def pipe_inv_def)

theorem pipe_fifo_history_witness:
  "length (replicate PIPESIZE (0 :: byte)) = PIPESIZE \<and>
   (let s = foldl pipe_event_step (pipe_start (replicate PIPESIZE 0))
              [Ev_write False [7, 8, 9] 3 0, Ev_read False 2]
    in sent s = received s @ pipe_contents (the_pipe s))"
proof -
  have h: "length (replicate PIPESIZE (0 :: byte)) = PIPESIZE" by simp
  show ?thesis
    using pipe_fifo_history [OF h refl, of "[Ev_write False [7, 8, 9] 3 0, Ev_read False 2]"]
    by (simp only: h Let_def simp_thms)
qed

text \<open>
  A writer is never refused while there is room, and blocks only when the pipe is full with
  its read end open: the call returns \<open>n\<close> having queued all \<open>n\<close> bytes, or fails with -1
  exactly when the pipe is full and the read end is closed or the writer was killed, or sleeps on
  \<open>nwrite\<close> with the pipe full, the next byte still to be written.
\<close>

theorem pipewrite_outcome:
  assumes "pipewrite killed p addr n = (p', ws, j, e)" and "pipe_inv p" and "0 \<le> n"
  shows "pipe_contents p' = pipe_contents p @ map ((!) addr) [0..<j] \<and> int j \<le> n \<and>
         (e = Returns n \<and> int j = n \<or>
          e = Returns (- 1) \<and> int j < n \<and> pipe_count p' = PIPESIZE \<and> (\<not> readopen p' \<or> killed) \<or>
          e = Sleeps Chan_nwrite \<and> int j < n \<and> pipe_count p' = PIPESIZE \<and> readopen p' \<and> \<not> killed)"
  using pipewrite_loop_spec [OF assms(1) [unfolded pipewrite_def] assms(2)] assms(3)
  by (auto split: pipe_end.splits)

theorem pipewrite_outcome_witness:
  "\<exists>p' ws j e. pipewrite False (pipe_init (replicate PIPESIZE 0)) [5, 6] 2 = (p', ws, j, e) \<and>
     int j \<le> 2 \<and> pipe_contents p' = map ((!) [5, 6]) [0..<j]"
proof -
  let ?p = "pipe_init (replicate PIPESIZE 0)"
  obtain p' ws j e where run: "pipewrite False ?p [5, 6] 2 = (p', ws, j, e)"
    by (metis prod_cases4)
  have inv: "pipe_inv ?p" and c: "pipe_contents ?p = []"
    by (simp_all add: pipe_inv_def pipe_init_def pipe_count_def pipe_contents_def)
  from pipewrite_outcome [OF run inv] run show ?thesis by (auto simp: c)
qed

end
