(* ===== verification/Xv6_Proc.thy ===== *)
theory Xv6_Proc
  imports Xv6_String
begin

text \<open>
  The process table of the Signal-Scheduler kernel (\<open>proc.c\<close>, \<open>proc.h\<close>, the timer and
  exit paths of \<open>trap.c\<close>, signal delivery in \<open>syscall.c\<close>).

  Every function runs under \<open>ptable.lock\<close> (or touches a process only it owns), so it is one
  atomic step on the state.  A \<open>struct proc *\<close> is an index into the table.  C \<open>int\<close> fields are
  \<open>int\<close> (signed overflow is undefined in C); \<open>ticks\<close> is a 32-bit counter.  Results of other
  subsystems that a function depends on (the page \<open>kalloc\<close> returns, the page directory
  \<open>copyuvm\<close> builds, whether \<open>copyout\<close> succeeds) are arguments, with 0 for failure, and the
  calls made into other subsystems are appended to \<open>calls\<close> in program order, so no effect is lost.
  A function whose C code ends in \<open>sched()\<close> returns the state at the switch.
\<close>

section \<open>State\<close>

datatype procstate = UNUSED | EMBRYO | SLEEPING | RUNNABLE | RUNNING | ZOMBIE | CREATED

text \<open>Sleep channels are addresses; the ones of this file are those of processes and of \<open>ticks\<close>.\<close>

datatype chan = Ch_proc nat | Ch_ticks | Ch_addr uint

record trapframe =
  tf_eax :: uint
  tf_cs :: uint
  tf_ds :: uint
  tf_es :: uint
  tf_ss :: uint
  tf_eflags :: uint
  tf_esp :: uint
  tf_eip :: uint

record proc =
  sz :: uint
  pgdir :: uint
  kstack :: uint
  state :: procstate
  pid :: int
  parent :: "nat option"
  tf :: trapframe
  at_forkret :: bool
  chan :: "chan option"
  killed :: int
  ofile :: "nat option list"
  cwd :: "nat option"
  pname :: string
  suspended :: int
  sighandler :: uint
  sig_pending :: int
  start_later :: int
  exec_time :: int
  creation_time :: int
  start_time :: int
  end_time :: int
  total_ticks :: int
  waiting_time :: int
  context_switches :: int
  first_scheduled :: int
  response_time :: int
  initial_priority :: int
  dynamic_priority :: int

datatype kcall =
  Kfree uint | Freevm uint | Filedup nat | Fileclose nat | Idup "nat option"
| Begin_op | Iput "nat option" | End_op | Switchuvm nat | Inituvm uint
| Cprintf string int

record ptable =
  procs :: "proc list"
  nextpid :: int
  initproc :: "nat option"
  ticks :: uint
  cpu_proc :: "nat \<Rightarrow> nat option"
  prev_proc :: "nat \<Rightarrow> nat option"
  calls :: "kcall list"

definition NPROC :: nat where
  "NPROC = 64"

text \<open>The tunables the Makefile passes: \<open>-DINIT_PRIORITY=10 -DALPHA=1 -DBETA=1\<close>.\<close>

record tunables =
  INIT_PRIORITY :: int
  ALPHA :: int
  BETA :: int

definition make_tunables :: tunables where
  "make_tunables = \<lparr>INIT_PRIORITY = 10, ALPHA = 1, BETA = 1\<rparr>"

abbreviation proc_at :: "ptable \<Rightarrow> nat \<Rightarrow> proc" where
  "proc_at s i \<equiv> procs s ! i"

definition upd_proc :: "nat \<Rightarrow> (proc \<Rightarrow> proc) \<Rightarrow> ptable \<Rightarrow> ptable" where
  "upd_proc i f s = s\<lparr>procs := (procs s)[i := f (procs s ! i)]\<rparr>"

definition call :: "kcall list \<Rightarrow> ptable \<Rightarrow> ptable" where
  "call cs s = s\<lparr>calls := calls s @ cs\<rparr>"

definition ticks_int :: "ptable \<Rightarrow> int" where
  "ticks_int s = sint (ticks s)"

section \<open>Creation\<close>

text \<open>\<open>kst\<close> is the page \<open>kalloc\<close> returns.  Fields not assigned keep what the slot held.\<close>

definition allocproc :: "tunables \<Rightarrow> uint \<Rightarrow> ptable \<Rightarrow> nat option \<times> ptable" where
  "allocproc T kst s =
     (case scan (\<lambda>p. state p = UNUSED) (procs s) of
        None \<Rightarrow> (None, s)
      | Some i \<Rightarrow>
          let s = upd_proc i (\<lambda>p. p\<lparr>state := EMBRYO, pid := nextpid s\<rparr>)
                    (s\<lparr>nextpid := nextpid s + 1\<rparr>);
              s = upd_proc i (\<lambda>p. p\<lparr>kstack := kst\<rparr>) s in
          if kst = 0 then (None, upd_proc i (\<lambda>p. p\<lparr>state := UNUSED\<rparr>) s)
          else
            (Some i,
             upd_proc i
               (\<lambda>p. p\<lparr>at_forkret := True,
                      suspended := 0, sig_pending := 0, sighandler := 0,
                      start_later := 0, exec_time := - 1,
                      creation_time := ticks_int s, start_time := 0, end_time := 0,
                      total_ticks := 0, waiting_time := 0, context_switches := 0,
                      first_scheduled := 0, response_time := 0,
                      initial_priority := INIT_PRIORITY T,
                      dynamic_priority := INIT_PRIORITY T\<rparr>) s))"

definition zero_tf :: trapframe where
  "zero_tf = \<lparr>tf_eax = 0, tf_cs = 0, tf_ds = 0, tf_es = 0, tf_ss = 0, tf_eflags = 0,
              tf_esp = 0, tf_eip = 0\<rparr>"

text \<open>
  \<open>userinit\<close>: \<open>pgd\<close> is what \<open>setupkvm\<close> returns, \<open>root\<close> the inode of \<open>namei("/")\<close>.  The C code
  does not check \<open>allocproc\<close>; a null result faults at the first store.
\<close>

definition userinit :: "tunables \<Rightarrow> uint \<Rightarrow> uint \<Rightarrow> nat option \<Rightarrow> ptable \<Rightarrow> ptable outcome" where
  "userinit T kst pgd root s =
     (case allocproc T kst s of
        (None, s) \<Rightarrow> Panic ''null pointer''
      | (Some i, s) \<Rightarrow>
          let s = s\<lparr>initproc := Some i\<rparr>;
              s = upd_proc i (\<lambda>p. p\<lparr>pgdir := pgd\<rparr>) s in
          if pgd = 0 then Panic ''userinit: out of memory?''
          else
            let s = call [Inituvm pgd] s in
            Val (upd_proc i
              (\<lambda>p. p\<lparr>sz := 4096,
                     tf := zero_tf\<lparr>tf_cs := 27, tf_ds := 35, tf_es := 35, tf_ss := 35,
                                   tf_eflags := 512, tf_esp := 4096, tf_eip := 0\<rparr>,
                     pname := safestrcpy (pname p) ''initcode'' 16,
                     cwd := root, state := RUNNABLE\<rparr>) s))"

text \<open>
  \<open>growproc(n)\<close>: \<open>allocuvm\<close> and \<open>deallocuvm\<close> (\<open>vm.c\<close>) are arguments, from the old and the new
  size to the size they return.
\<close>

definition growproc ::
    "(uint \<Rightarrow> uint \<Rightarrow> uint) \<Rightarrow> (uint \<Rightarrow> uint \<Rightarrow> uint) \<Rightarrow> nat \<Rightarrow> int \<Rightarrow> ptable \<Rightarrow> int \<times> ptable" where
  "growproc alloc dealloc cur n s =
     (let old = sz (proc_at s cur);
          new = old + word_of_int n;
          r = (if 0 < n then alloc old new else if n < 0 then dealloc old new else old) in
      if (0 < n \<or> n < 0) \<and> r = 0 then (- 1, s)
      else (0, call [Switchuvm cur] (upd_proc cur (\<lambda>p. p\<lparr>sz := r\<rparr>) s)))"

text \<open>The open files and the directory a child shares with its parent.\<close>

definition dup_files :: "nat \<Rightarrow> nat \<Rightarrow> ptable \<Rightarrow> ptable" where
  "dup_files cur np s =
     (let fs = ofile (proc_at s cur) in
      upd_proc np
        (\<lambda>p. p\<lparr>ofile := map (\<lambda>(f, g). if f \<noteq> None then f else g) (zip fs (ofile p)),
               cwd := cwd (proc_at s cur)\<rparr>)
        (call (map Filedup (map the (filter (\<lambda>f. f \<noteq> None) fs)) @ [Idup (cwd (proc_at s cur))]) s))"

definition fork :: "tunables \<Rightarrow> uint \<Rightarrow> uint \<Rightarrow> nat \<Rightarrow> ptable \<Rightarrow> int \<times> ptable" where
  "fork T kst pgd cur s =
     (case allocproc T kst s of
        (None, s) \<Rightarrow> (- 1, s)
      | (Some np, s) \<Rightarrow>
          let s = upd_proc np (\<lambda>p. p\<lparr>pgdir := pgd\<rparr>) s in
          if pgd = 0 then
            (- 1, upd_proc np (\<lambda>p. p\<lparr>kstack := 0, state := UNUSED\<rparr>)
                    (call [Kfree (kstack (proc_at s np))] s))
          else
            let c = proc_at s cur;
                s = upd_proc np
                      (\<lambda>p. p\<lparr>sz := sz c, parent := Some cur, tf := (tf c)\<lparr>tf_eax := 0\<rparr>\<rparr>) s;
                s = dup_files cur np s;
                s = upd_proc np (\<lambda>p. p\<lparr>pname := safestrcpy (pname p) (pname c) 16\<rparr>) s;
                pd = pid (proc_at s np)
            in (pd, upd_proc np (\<lambda>p. p\<lparr>state := RUNNABLE\<rparr>) s))"

definition custom_fork ::
    "tunables \<Rightarrow> uint \<Rightarrow> uint \<Rightarrow> nat \<Rightarrow> int \<Rightarrow> int \<Rightarrow> ptable \<Rightarrow> int \<times> ptable" where
  "custom_fork T kst pgd cur later etime s =
     (case allocproc T kst s of
        (None, s) \<Rightarrow> (- 1, s)
      | (Some np, s) \<Rightarrow>
          let s = upd_proc np (\<lambda>p. p\<lparr>pgdir := pgd\<rparr>) s in
          if pgd = 0 then
            (- 1, upd_proc np (\<lambda>p. p\<lparr>kstack := 0, state := UNUSED\<rparr>)
                    (call [Kfree (kstack (proc_at s np))] s))
          else
            let c = proc_at s cur;
                s = upd_proc np (\<lambda>p. p\<lparr>sz := sz c, parent := Some cur, tf := tf c\<rparr>) s;
                s = upd_proc np
                      (\<lambda>p. p\<lparr>sig_pending := 0, start_later := later, exec_time := etime,
                             creation_time := ticks_int s, total_ticks := 0, waiting_time := 0,
                             context_switches := 0, first_scheduled := 0,
                             initial_priority := INIT_PRIORITY T,
                             dynamic_priority := INIT_PRIORITY T\<rparr>) s;
                s = upd_proc np (\<lambda>p. p\<lparr>tf := (tf p)\<lparr>tf_eax := 0\<rparr>\<rparr>) s;
                s = dup_files cur np s;
                s = upd_proc np (\<lambda>p. p\<lparr>pname := safestrcpy (pname p) (pname c) 16\<rparr>) s;
                pd = pid (proc_at s np)
            in (pd, upd_proc np
                      (\<lambda>p. p\<lparr>state := (if later \<noteq> 0 then CREATED else RUNNABLE)\<rparr>) s))"

definition sys_scheduler_start :: "ptable \<Rightarrow> int \<times> ptable" where
  "sys_scheduler_start s =
     (0, s\<lparr>procs := map (\<lambda>p. if state p = CREATED
                             then p\<lparr>state := RUNNABLE, start_time := ticks_int s\<rparr> else p)
                       (procs s)\<rparr>)"

section \<open>Sleep, wakeup, kill\<close>

definition wakeup1 :: "chan option \<Rightarrow> ptable \<Rightarrow> ptable" where
  "wakeup1 c s =
     s\<lparr>procs := map (\<lambda>p. if state p = SLEEPING \<and> chan p = c then p\<lparr>state := RUNNABLE\<rparr> else p)
                   (procs s)\<rparr>"

definition wakeup :: "chan option \<Rightarrow> ptable \<Rightarrow> ptable" where
  "wakeup c s = wakeup1 c s"

text \<open>The checks \<open>sched\<close> makes before it switches away.\<close>

definition sched_check :: "bool \<Rightarrow> int \<Rightarrow> procstate \<Rightarrow> bool \<Rightarrow> unit outcome" where
  "sched_check holding_ptable ncli st interruptible =
     (if \<not> holding_ptable then Panic ''sched ptable.lock''
      else if ncli \<noteq> 1 then Panic ''sched locks''
      else if st = RUNNING then Panic ''sched running''
      else if interruptible then Panic ''sched interruptible''
      else Val ())"

text \<open>\<open>yield\<close> and \<open>sleep\<close> up to the switch, and what \<open>sleep\<close> does when the process runs again.\<close>

definition yield :: "nat \<Rightarrow> ptable \<Rightarrow> ptable" where
  "yield cur s = upd_proc cur (\<lambda>p. p\<lparr>state := RUNNABLE\<rparr>) s"

definition sleep :: "nat option \<Rightarrow> chan option \<Rightarrow> bool \<Rightarrow> ptable \<Rightarrow> ptable outcome" where
  "sleep cur c lk_nonnull s =
     (case cur of
        None \<Rightarrow> Panic ''sleep''
      | Some i \<Rightarrow>
          if \<not> lk_nonnull then Panic ''sleep without lk''
          else Val (upd_proc i (\<lambda>p. p\<lparr>chan := c, state := SLEEPING\<rparr>) s))"

definition sleep_tidy :: "nat \<Rightarrow> ptable \<Rightarrow> ptable" where
  "sleep_tidy cur s = upd_proc cur (\<lambda>p. p\<lparr>chan := None\<rparr>) s"

definition kill :: "int \<Rightarrow> ptable \<Rightarrow> int \<times> ptable" where
  "kill pd s =
     (case scan (\<lambda>p. pid p = pd) (procs s) of
        None \<Rightarrow> (- 1, s)
      | Some i \<Rightarrow>
          (0, upd_proc i
                (\<lambda>p. p\<lparr>killed := 1,
                       state := (if state p = SLEEPING then RUNNABLE else state p)\<rparr>) s))"

section \<open>Exit and wait\<close>

definition close_files :: "nat \<Rightarrow> ptable \<Rightarrow> ptable" where
  "close_files cur s =
     upd_proc cur (\<lambda>p. p\<lparr>ofile := map (\<lambda>f. None) (ofile p)\<rparr>)
       (call (map Fileclose (map the (filter (\<lambda>f. f \<noteq> None) (ofile (proc_at s cur))))) s)"

text \<open>One step of the loop that passes the children to init.\<close>

definition reparent_step :: "nat \<Rightarrow> ptable \<Rightarrow> nat \<Rightarrow> ptable" where
  "reparent_step cur s i =
     (if parent (proc_at s i) = Some cur then
        let s = upd_proc i (\<lambda>p. p\<lparr>parent := initproc s\<rparr>) s in
        if state (proc_at s i) = ZOMBIE then wakeup1 (map_option Ch_proc (initproc s)) s else s
      else s)"

definition exit_report :: "proc \<Rightarrow> kcall list" where
  "exit_report p =
     (let tat = end_time p - creation_time p; wt = tat - total_ticks p in
      [Cprintf ''PID: %d'' (pid p), Cprintf ''TAT: %d'' tat, Cprintf ''WT: %d'' wt,
       Cprintf ''RT: %d'' (response_time p), Cprintf ''#CS: %d'' (context_switches p)])"

definition exit :: "nat \<Rightarrow> ptable \<Rightarrow> ptable outcome" where
  "exit cur s =
     (if Some cur = initproc s then Panic ''init exiting''
      else
        let s = close_files cur s;
            s = call [Begin_op, Iput (cwd (proc_at s cur)), End_op] s;
            s = upd_proc cur (\<lambda>p. p\<lparr>cwd := None\<rparr>) s;
            s = upd_proc cur (\<lambda>p. p\<lparr>end_time := ticks_int s\<rparr>) s;
            s = call (exit_report (proc_at s cur)) s;
            s = wakeup1 (map_option Ch_proc (parent (proc_at s cur))) s;
            s = foldl (reparent_step cur) s [0..<length (procs s)]
        in Val (upd_proc cur (\<lambda>p. p\<lparr>state := ZOMBIE\<rparr>) s))"

datatype wait_end = Wait_returns int | Wait_sleeps

text \<open>One round of the \<open>for(;;)\<close> of \<open>wait\<close>: a zombie child is reaped, or -1, or the caller sleeps.\<close>

definition wait_round :: "nat \<Rightarrow> ptable \<Rightarrow> wait_end \<times> ptable" where
  "wait_round cur s =
     (case scan (\<lambda>p. parent p = Some cur \<and> state p = ZOMBIE) (procs s) of
        Some i \<Rightarrow>
          (let p = proc_at s i in
           (Wait_returns (pid p),
            upd_proc i
              (\<lambda>p. p\<lparr>kstack := 0, pid := 0, parent := None,
                     pname := (pname p)[0 := NUL], killed := 0, state := UNUSED\<rparr>)
              (call [Kfree (kstack p), Freevm (pgdir p)] s)))
      | None \<Rightarrow>
          if (\<forall>p \<in> set (procs s). parent p \<noteq> Some cur) \<or> killed (proc_at s cur) \<noteq> 0
          then (Wait_returns (- 1), s)
          else (Wait_sleeps, upd_proc cur (\<lambda>p. p\<lparr>chan := Some (Ch_proc cur), state := SLEEPING\<rparr>) s))"

section \<open>The scheduler\<close>

text \<open>The first loop of a round ages every process that is ready to run.\<close>

definition age :: "tunables \<Rightarrow> proc \<Rightarrow> proc" where
  "age T p =
     (if state p = RUNNABLE \<and> suspended p = 0 then
        p\<lparr>waiting_time := waiting_time p + 1,
          dynamic_priority :=
            initial_priority p - (ALPHA T * total_ticks p) + (BETA T * (waiting_time p + 1))\<rparr>
      else p)"

text \<open>The second loop: \<open>best\<close> is \<open>highest_priority_proc\<close>; an expired process becomes a zombie.\<close>

definition expired :: "proc \<Rightarrow> bool" where
  "expired p \<longleftrightarrow> 0 < exec_time p \<and> exec_time p \<le> total_ticks p"

definition beats :: "proc \<Rightarrow> proc \<Rightarrow> bool" where
  "beats p q \<longleftrightarrow>
     dynamic_priority q < dynamic_priority p \<or>
     (dynamic_priority p = dynamic_priority q \<and> pid p < pid q)"

fun pick_loop :: "int \<Rightarrow> proc list \<Rightarrow> nat \<Rightarrow> (nat \<times> proc) option \<Rightarrow> proc list \<times> (nat \<times> proc) option" where
  "pick_loop now [] i best = ([], best)"
| "pick_loop now (p # ps) i best =
     (if suspended p \<noteq> 0 \<or> state p \<noteq> RUNNABLE then
        (let (ps', b) = pick_loop now ps (i + 1) best in (p # ps', b))
      else if expired p then
        (let (ps', b) = pick_loop now ps (i + 1) best
         in (p\<lparr>state := ZOMBIE, end_time := now\<rparr> # ps', b))
      else
        (let best' = (case best of
                        None \<Rightarrow> Some (i, p)
                      | Some (j, q) \<Rightarrow> if beats p q then Some (i, p) else best);
             (ps', b) = pick_loop now ps (i + 1) best'
         in (p # ps', b)))"

definition pick :: "tunables \<Rightarrow> ptable \<Rightarrow> ptable \<times> nat option" where
  "pick T s =
     (let (ps, b) = pick_loop (ticks_int s) (map (age T) (procs s)) 0 None
      in (s\<lparr>procs := ps\<rparr>, map_option fst b))"

text \<open>Dispatching process \<open>i\<close> on CPU \<open>c\<close>, up to \<open>swtch\<close>.\<close>

definition dispatch :: "nat \<Rightarrow> nat \<Rightarrow> ptable \<Rightarrow> ptable" where
  "dispatch c i s =
     (let s = (if first_scheduled (proc_at s i) = 0
               then upd_proc i (\<lambda>p. p\<lparr>first_scheduled := 1,
                      response_time := sint (ticks s - word_of_int (creation_time p))\<rparr>) s
               else s);
          s = upd_proc i (\<lambda>p. p\<lparr>waiting_time := 0\<rparr>) s;
          s = call [Switchuvm i] (s\<lparr>cpu_proc := (cpu_proc s)(c := Some i)\<rparr>);
          s = upd_proc i (\<lambda>p. p\<lparr>state := RUNNING\<rparr>) s;
          s = (case prev_proc s c of
                 None \<Rightarrow> s
               | Some q \<Rightarrow>
                   if q \<noteq> i \<and> i \<noteq> 1
                   then upd_proc q (\<lambda>p. p\<lparr>context_switches := context_switches p + 1\<rparr>) s
                   else s)
      in s\<lparr>prev_proc := (prev_proc s)(c := Some i)\<rparr>)"

text \<open>One iteration of the scheduler's loop on CPU \<open>c\<close>, up to the switch to the chosen process.\<close>

definition scheduler_round :: "tunables \<Rightarrow> nat \<Rightarrow> ptable \<Rightarrow> ptable" where
  "scheduler_round T c s =
     (case pick T s of
        (s, None) \<Rightarrow> s
      | (s, Some i) \<Rightarrow> dispatch c i s)"

text \<open>What the iteration does when the process has switched back.\<close>

definition scheduler_back :: "nat \<Rightarrow> ptable \<Rightarrow> ptable" where
  "scheduler_back c s = s\<lparr>cpu_proc := (cpu_proc s)(c := None)\<rparr>"

section \<open>Signals\<close>

definition sigint_proc :: "proc \<Rightarrow> proc" where
  "sigint_proc p =
     (if 2 < pid p
      then p\<lparr>killed := 1, state := (if state p = SLEEPING then RUNNABLE else state p)\<rparr>
      else p)"

definition sigbg_step :: "ptable \<Rightarrow> nat \<Rightarrow> ptable" where
  "sigbg_step s i =
     (let p = proc_at s i in
      if pid p = 2 then upd_proc i (\<lambda>p. p\<lparr>suspended := 0, state := RUNNABLE\<rparr>) s
      else if 2 < pid p then
        let s = (case parent p of
                   None \<Rightarrow> s
                 | Some q \<Rightarrow> if pid (proc_at s q) = 2
                             then upd_proc i (\<lambda>p. p\<lparr>parent := Some 0\<rparr>) s else s)
        in upd_proc i (\<lambda>p. p\<lparr>suspended := 1\<rparr>) s
      else s)"

definition sigfg_proc :: "proc \<Rightarrow> proc" where
  "sigfg_proc p =
     (if suspended p \<noteq> 0
      then p\<lparr>suspended := 0,
             state := (if state p \<noteq> ZOMBIE \<and> state p \<noteq> UNUSED then RUNNABLE else state p)\<rparr>
      else p)"

definition sigcustom_proc :: "proc \<Rightarrow> proc" where
  "sigcustom_proc p =
     (if 2 < pid p \<and> state p \<noteq> UNUSED \<and> state p \<noteq> ZOMBIE
      then p\<lparr>sig_pending := 1, state := (if state p = SLEEPING then RUNNABLE else state p)\<rparr>
      else p)"

definition sendsig :: "int \<Rightarrow> ptable \<Rightarrow> ptable" where
  "sendsig signum s =
     (if signum = 1 then s\<lparr>procs := map sigint_proc (procs s)\<rparr>
      else if signum = 2 then foldl sigbg_step s [0..<length (procs s)]
      else if signum = 3 then s\<lparr>procs := map sigfg_proc (procs s)\<rparr>
      else if signum = 4 then s\<lparr>procs := map sigcustom_proc (procs s)\<rparr>
      else s)"

text \<open>
  The end of \<open>syscall\<close>: a pending signal with a handler redirects the return to user space.
  \<open>copyout_ok\<close> says whether the return address could be stored at \<open>esp - 4\<close>.
\<close>

definition deliver_signal :: "bool \<Rightarrow> nat \<Rightarrow> ptable \<Rightarrow> ptable" where
  "deliver_signal copyout_ok cur s =
     (let p = proc_at s cur in
      if sig_pending p \<noteq> 0 \<and> sighandler p \<noteq> 0 then
        let s = (if copyout_ok
                 then upd_proc cur (\<lambda>p. p\<lparr>tf := (tf p)\<lparr>tf_esp := tf_esp (tf p) - 4,
                                                       tf_eip := sighandler p\<rparr>\<rparr>) s
                 else s)
        in upd_proc cur (\<lambda>p. p\<lparr>sig_pending := 0\<rparr>) s
      else s)"

definition sys_signal :: "uint option \<Rightarrow> nat \<Rightarrow> ptable \<Rightarrow> int \<times> ptable" where
  "sys_signal handler cur s =
     (case handler of
        None \<Rightarrow> (- 1, s)
      | Some h \<Rightarrow> (0, upd_proc cur (\<lambda>p. p\<lparr>sighandler := h\<rparr>) s))"

section \<open>Traps\<close>

text \<open>
  The timer interrupt up to \<open>lapiceoi\<close>, then the checks on the way out of \<open>trap\<close>: each check
  says whether the process exits, yields or goes on.
\<close>

definition timer_tick :: "nat \<Rightarrow> ptable \<Rightarrow> ptable" where
  "timer_tick c s =
     (let s = (if c = 0 then wakeup (Some Ch_ticks) (s\<lparr>ticks := ticks s + 1\<rparr>) else s) in
      case cpu_proc s c of
        None \<Rightarrow> s
      | Some i \<Rightarrow>
          if state (proc_at s i) = RUNNING \<and> suspended (proc_at s i) = 0 then
            let s = upd_proc i (\<lambda>p. p\<lparr>total_ticks := total_ticks p + 1\<rparr>) s in
            if expired (proc_at s i)
            then upd_proc i (\<lambda>p. p\<lparr>end_time := ticks_int s, killed := 1\<rparr>) s
            else s
          else s)"

datatype trap_next = Trap_exit | Trap_yield | Trap_go_on

definition user_mode :: "uint \<Rightarrow> bool" where
  "user_mode cs \<longleftrightarrow> unat cs mod 4 = 3"

definition trap_check_killed :: "uint \<Rightarrow> nat option \<Rightarrow> ptable \<Rightarrow> trap_next" where
  "trap_check_killed cs cur s =
     (case cur of
        Some i \<Rightarrow> if killed (proc_at s i) \<noteq> 0 \<and> user_mode cs then Trap_exit else Trap_go_on
      | None \<Rightarrow> Trap_go_on)"

definition trap_check_timer :: "bool \<Rightarrow> nat option \<Rightarrow> ptable \<Rightarrow> trap_next" where
  "trap_check_timer is_timer cur s =
     (case cur of
        Some i \<Rightarrow> if state (proc_at s i) = RUNNING \<and> is_timer then Trap_yield else Trap_go_on
      | None \<Rightarrow> Trap_go_on)"

definition trap_check_suspended :: "uint \<Rightarrow> nat option \<Rightarrow> ptable \<Rightarrow> trap_next" where
  "trap_check_suspended cs cur s =
     (case cur of
        Some i \<Rightarrow> if suspended (proc_at s i) \<noteq> 0 \<and> user_mode cs then Trap_yield else Trap_go_on
      | None \<Rightarrow> Trap_go_on)"

section \<open>Small facts\<close>

named_theorems proc_defs

lemma upd_proc_sel [simp]:
  "procs (upd_proc i f s) = (procs s)[i := f (procs s ! i)]"
  "nextpid (upd_proc i f s) = nextpid s" "initproc (upd_proc i f s) = initproc s"
  "ticks (upd_proc i f s) = ticks s" "cpu_proc (upd_proc i f s) = cpu_proc s"
  "prev_proc (upd_proc i f s) = prev_proc s" "calls (upd_proc i f s) = calls s"
  by (simp_all add: upd_proc_def)

lemma call_sel [simp]:
  "procs (call cs s) = procs s" "nextpid (call cs s) = nextpid s"
  "initproc (call cs s) = initproc s" "ticks (call cs s) = ticks s"
  "cpu_proc (call cs s) = cpu_proc s" "prev_proc (call cs s) = prev_proc s"
  "calls (call cs s) = calls s @ cs"
  by (simp_all add: call_def)

lemma wakeup1_sel [simp]:
  "nextpid (wakeup1 c s) = nextpid s" "initproc (wakeup1 c s) = initproc s"
  "ticks (wakeup1 c s) = ticks s" "cpu_proc (wakeup1 c s) = cpu_proc s"
  "prev_proc (wakeup1 c s) = prev_proc s" "calls (wakeup1 c s) = calls s"
  "length (procs (wakeup1 c s)) = length (procs s)"
  by (simp_all add: wakeup1_def)

lemma wakeup1_nth:
  "i < length (procs s) \<Longrightarrow> procs (wakeup1 c s) ! i =
     (let p = procs s ! i in if state p = SLEEPING \<and> chan p = c then p\<lparr>state := RUNNABLE\<rparr> else p)"
  by (simp add: wakeup1_def Let_def)

text \<open>Whatever a table loop does, it keeps the table's length.\<close>

lemma length_pick_loop: "length (fst (pick_loop now ps i b)) = length ps"
  by (induction now ps i b rule: pick_loop.induct) (auto simp: Let_def split: prod.splits option.splits)

lemma length_reparent [simp]: "length (procs (reparent_step cur s i)) = length (procs s)"
  by (simp add: reparent_step_def Let_def)

lemma length_sigbg [simp]: "length (procs (sigbg_step s i)) = length (procs s)"
  by (simp add: sigbg_step_def Let_def split: option.splits)

end
