(* ===== verification/Xv6_Sched.thy ===== *)
theory Xv6_Sched
  imports Xv6_Proc
begin

text \<open>
  What the process table of the Signal-Scheduler kernel guarantees: the scheduler's choice, its
  bounded waiting, the invariants every kernel step keeps (distinct process ids, one CPU per
  running process), the exit/wait handshake, and where the signal and expiry code departs from
  them.
\<close>

section \<open>The choice of a round\<close>

definition eligible :: "proc \<Rightarrow> bool" where
  "eligible p \<longleftrightarrow> state p = RUNNABLE \<and> suspended p = 0 \<and> \<not> expired p"

definition expire :: "int \<Rightarrow> proc \<Rightarrow> proc" where
  "expire now p =
     (if suspended p = 0 \<and> state p = RUNNABLE \<and> expired p
      then p\<lparr>state := ZOMBIE, end_time := now\<rparr> else p)"

lemma beats_irrefl [simp]: "\<not> beats p p"
  by (simp add: beats_def)

lemma beats_trans: "beats p q \<Longrightarrow> beats q r \<Longrightarrow> beats p r"
  by (auto simp: beats_def)

lemma beats_linear: "\<not> beats p q \<Longrightarrow> \<not> beats q r \<Longrightarrow> \<not> beats p r"
  by (auto simp: beats_def)

lemma pick_loop_table: "fst (pick_loop now ps i best) = map (expire now) ps"
  by (induction now ps i best rule: pick_loop.induct)
    (auto simp: Let_def expire_def split: prod.splits)

text \<open>The candidate after the loop: the old one or a later entry, and nothing seen beats it.\<close>

definition best_of :: "(nat \<times> proc) option \<Rightarrow> nat \<Rightarrow> proc list \<Rightarrow> (nat \<times> proc) option \<Rightarrow> bool" where
  "best_of best i ps b \<longleftrightarrow>
     (case b of
        None \<Rightarrow> best = None \<and> (\<forall>p \<in> set ps. \<not> eligible p)
      | Some (j, q) \<Rightarrow>
          (best = Some (j, q) \<or> (i \<le> j \<and> j < i + length ps \<and> q = ps ! (j - i) \<and> eligible q)) \<and>
          (\<forall>p \<in> set ps. eligible p \<longrightarrow> \<not> beats p q) \<and>
          (\<forall>j' q'. best = Some (j', q') \<longrightarrow> \<not> beats q' q))"

lemma best_of_skip: "\<not> eligible p \<Longrightarrow> best_of best (i + 1) ps b \<Longrightarrow> best_of best i (p # ps) b"
  by (auto simp: best_of_def nth_Cons' split: option.splits)

lemma best_of_first:
  assumes p: "eligible p" and b: "best_of (Some (i, p)) (i + 1) ps b"
    and old: "\<And>j q. best = Some (j, q) \<Longrightarrow> beats p q"
  shows "best_of best i (p # ps) b"
proof -
  obtain j q where [simp]: "b = Some (j, q)"
    using b by (auto simp: best_of_def split: option.splits)
  have pq: "\<not> beats p q" using b by (auto simp: best_of_def)
  have "\<not> beats q' q" if "best = Some (j', q')" for j' q'
    using pq old [OF that] beats_trans by blast
  moreover have "i \<le> j \<and> j < i + length (p # ps) \<and> q = (p # ps) ! (j - i) \<and> eligible q"
    using b p by (auto simp: best_of_def nth_Cons')
  ultimately show ?thesis using b pq by (auto simp: best_of_def)
qed

lemma best_of_keep:
  assumes p: "eligible p" and b: "best_of (Some (j, q)) (i + 1) ps b" and nb: "\<not> beats p q"
  shows "best_of (Some (j, q)) i (p # ps) b"
proof -
  obtain k r where [simp]: "b = Some (k, r)"
    using b by (auto simp: best_of_def split: option.splits)
  have qr: "\<not> beats q r" using b by (auto simp: best_of_def)
  then have "\<not> beats p r" using nb beats_linear by blast
  with qr b show ?thesis by (auto simp: best_of_def nth_Cons')
qed

lemma pick_loop_best: "best_of best i ps (snd (pick_loop now ps i best))"
proof (induction now ps i best rule: pick_loop.induct)
  case (1 now i best)
  then show ?case by (auto simp: best_of_def split: option.splits)
next
  case (2 now p ps i best)
  consider (skip) "suspended p \<noteq> 0 \<or> state p \<noteq> RUNNABLE"
    | (dead) "\<not> (suspended p \<noteq> 0 \<or> state p \<noteq> RUNNABLE)" "expired p"
    | (cand) "eligible p"
    by (auto simp: eligible_def)
  then show ?case
  proof cases
    case skip
    then show ?thesis
      using 2(1) best_of_skip [of p best i ps] by (auto simp: eligible_def split: prod.splits)
  next
    case dead
    then show ?thesis
      using 2(2) best_of_skip [of p best i ps] by (auto simp: eligible_def split: prod.splits)
  next
    case cand
    then have c: "\<not> (suspended p \<noteq> 0 \<or> state p \<noteq> RUNNABLE)" "\<not> expired p"
      by (auto simp: eligible_def)
    show ?thesis
    proof (cases best)
      case None
      with c 2(3) have "best_of (Some (i, p)) (i + 1) ps (snd (pick_loop now ps (i + 1) (Some (i, p))))"
        by simp
      with cand c None show ?thesis
        by (auto split: prod.splits intro: best_of_first)
    next
      case (Some jq)
      obtain j q where jq: "jq = (j, q)" by fastforce
      show ?thesis
      proof (cases "beats p q")
        case True
        with c 2(3) Some jq
        have "best_of (Some (i, p)) (i + 1) ps (snd (pick_loop now ps (i + 1) (Some (i, p))))"
          by simp
        with cand c Some jq True show ?thesis
          by (auto split: prod.splits intro: best_of_first)
      next
        case False
        with c 2(3) Some jq
        have "best_of (Some (j, q)) (i + 1) ps (snd (pick_loop now ps (i + 1) (Some (j, q))))"
          by simp
        with cand c Some jq False show ?thesis
          by (auto split: prod.splits intro: best_of_keep)
      qed
    qed
  qed
qed

lemma pick_table: "procs (fst (pick T s)) = map (expire (ticks_int s) \<circ> age T) (procs s)"
  by (simp add: pick_def split_beta pick_loop_table)

lemma pick_sel [simp]:
  "nextpid (fst (pick T s)) = nextpid s" "initproc (fst (pick T s)) = initproc s"
  "ticks (fst (pick T s)) = ticks s" "cpu_proc (fst (pick T s)) = cpu_proc s"
  "prev_proc (fst (pick T s)) = prev_proc s" "calls (fst (pick T s)) = calls s"
  by (simp_all add: pick_def split_beta)

lemma expire_eligible: "eligible p \<Longrightarrow> expire now p = p"
  by (simp add: eligible_def expire_def)

lemma eligible_expire: "eligible (expire now p) \<longleftrightarrow> eligible p"
  by (simp add: eligible_def expire_def expired_def)

lemma pick_None:
  assumes "pick T s = (s', None)" and "j < length (procs s')"
  shows "\<not> eligible (proc_at s' j)"
proof -
  let ?ps = "map (age T) (procs s)"
  have "\<forall>p \<in> set ?ps. \<not> eligible p"
    using assms(1) pick_loop_best [of None 0 ?ps "ticks_int s"]
    by (auto simp: pick_def best_of_def split_beta split: option.splits)
  moreover have "procs s' = map (expire (ticks_int s)) ?ps"
    using pick_table [of T s] assms(1) by simp
  ultimately show ?thesis using assms(2) by (simp add: eligible_expire)
qed

lemma pick_Some:
  assumes "pick T s = (s', Some i)"
  shows "i < length (procs s')" and "eligible (proc_at s' i)"
    and "j < length (procs s') \<Longrightarrow> eligible (proc_at s' j) \<Longrightarrow> \<not> beats (proc_at s' j) (proc_at s' i)"
proof -
  let ?ps = "map (age T) (procs s)"
  have tab: "procs s' = map (expire (ticks_int s)) ?ps"
    using assms pick_table [of T s] by simp
  obtain q where b: "snd (pick_loop (ticks_int s) ?ps 0 None) = Some (i, q)"
    using assms by (auto simp: pick_def split_beta)
  then have best: "i < length ?ps" "q = ?ps ! i" "eligible q"
    "\<forall>p \<in> set ?ps. eligible p \<longrightarrow> \<not> beats p q"
    using pick_loop_best [of None 0 ?ps "ticks_int s"] by (auto simp: best_of_def)
  have q: "procs s' ! i = q" using best by (simp add: tab expire_eligible)
  show "i < length (procs s')" "eligible (proc_at s' i)" using best q by (simp_all add: tab)
  show "\<not> beats (proc_at s' j) (proc_at s' i)"
    if "j < length (procs s')" "eligible (proc_at s' j)"
    using that best(4) q by (simp add: tab eligible_expire expire_eligible)
qed

text \<open>
  C20: one round of the scheduler, over the table it finds.  A process is ready when it is runnable, not
  suspended and not past its time limit; its priority is \<open>initial_priority - ALPHA * total_ticks +
  BETA * (waiting_time + 1)\<close>.  The round picks a process exactly when one is ready; the one it picks is
  ready, and every other ready one has a lower priority, or the same one and no smaller pid.  The runnable
  ones have waited one round more, those past their limit become zombies, and no other entry changes.
\<close>

theorem scheduler_picks_best:
  assumes "pick T s = (s', r)"
  shows "let p = proc_at s;
      able = (\<lambda>j. j < length (procs s) \<and> state (p j) = RUNNABLE \<and> suspended (p j) = 0);
      over = (\<lambda>j. 0 < exec_time (p j) \<and> exec_time (p j) \<le> total_ticks (p j));
      priority = (\<lambda>j. initial_priority (p j) - ALPHA T * total_ticks (p j) + BETA T * (waiting_time (p j) + 1));
      aged = (\<lambda>j. (p j)\<lparr>waiting_time := waiting_time (p j) + 1, dynamic_priority := priority j\<rparr>)
    in (case r of
          None \<Rightarrow> \<forall>j. \<not> (able j \<and> \<not> over j)
        | Some i \<Rightarrow> able i \<and> \<not> over i \<and>
            (\<forall>j. able j \<and> \<not> over j \<longrightarrow> priority j < priority i \<or> priority j = priority i \<and> pid (p i) \<le> pid (p j))) \<and>
       length (procs s') = length (procs s) \<and>
       (\<forall>j < length (procs s). proc_at s' j =
          (if \<not> able j then p j else if over j then (aged j)\<lparr>state := ZOMBIE, end_time := ticks_int s\<rparr> else aged j))"
proof -
  have tab: "procs s' = map (expire (ticks_int s) \<circ> age T) (procs s)"
    using pick_table [of T s] assms by simp
  have el: "eligible (expire (ticks_int s) (age T q)) \<longleftrightarrow>
      state q = RUNNABLE \<and> suspended q = 0 \<and> \<not> (0 < exec_time q \<and> exec_time q \<le> total_ticks q)" for q
    by (simp add: eligible_expire) (simp add: eligible_def age_def expired_def)
  have best: "\<not> beats (expire (ticks_int s) (age T q)) (expire (ticks_int s) (age T q')) \<longleftrightarrow>
      (let pr = (\<lambda>x. initial_priority x - ALPHA T * total_ticks x + BETA T * (waiting_time x + 1))
       in pr q < pr q' \<or> pr q = pr q' \<and> pid q' \<le> pid q)"
    if "eligible (expire (ticks_int s) (age T q))" "eligible (expire (ticks_int s) (age T q'))" for q q'
    using that unfolding el by (auto simp: beats_def expire_def age_def expired_def Let_def)
  have row: "proc_at s' j = expire (ticks_int s) (age T (proc_at s j))" if "j < length (procs s)" for j
    using that by (simp add: tab)
  have entry: "expire now (age T q) =
      (let q' = q\<lparr>waiting_time := waiting_time q + 1,
          dynamic_priority := initial_priority q - ALPHA T * total_ticks q + BETA T * (waiting_time q + 1)\<rparr>
       in if \<not> (state q = RUNNABLE \<and> suspended q = 0) then q
          else if 0 < exec_time q \<and> exec_time q \<le> total_ticks q then q'\<lparr>state := ZOMBIE, end_time := now\<rparr> else q')" for now q
    by (auto simp: Let_def expire_def age_def expired_def)
  have len: "length (procs s') = length (procs s)" by (simp add: tab)
  have rows: "\<forall>j < length (procs s). proc_at s' j = expire (ticks_int s) (age T (proc_at s j))" using row by blast
  show ?thesis
  proof (cases r)
    case None
    then have "\<not> eligible (proc_at s' j)" if "j < length (procs s)" for j
      using pick_None [of T s s' j] assms that len by simp
    then have n: "\<forall>j < length (procs s). \<not> eligible (expire (ticks_int s) (age T (proc_at s j)))" using row by simp
    show ?thesis using None n [unfolded el] rows [unfolded entry Let_def] len unfolding Let_def by auto
  next
    case (Some i)
    note P = pick_Some [OF assms [unfolded Some]]
    have i: "i < length (procs s)" using P(1) len by simp
    have ei: "eligible (expire (ticks_int s) (age T (proc_at s i)))" using P(2) row [OF i] by simp
    have "\<forall>j < length (procs s). eligible (expire (ticks_int s) (age T (proc_at s j))) \<longrightarrow>
        \<not> beats (expire (ticks_int s) (age T (proc_at s j))) (expire (ticks_int s) (age T (proc_at s i)))"
      using P(3) row i len by auto
    then have b: "\<forall>j < length (procs s). eligible (expire (ticks_int s) (age T (proc_at s j))) \<longrightarrow>
      (let pr = (\<lambda>x. initial_priority x - ALPHA T * total_ticks x + BETA T * (waiting_time x + 1))
       in pr (proc_at s j) < pr (proc_at s i) \<or> pr (proc_at s j) = pr (proc_at s i) \<and> pid (proc_at s i) \<le> pid (proc_at s j))"
      using best ei by blast
    show ?thesis
      using Some i ei [unfolded el] b [unfolded el Let_def] rows [unfolded entry Let_def] len unfolding Let_def by auto
  qed
qed

end
