(* ===== verification/Xv6_Kstep.thy ===== *)
theory Xv6_Kstep
  imports Xv6_Sched
begin

text \<open>
  The process table as a state machine: \<open>kstep\<close> has one rule per critical section of
  \<open>proc.c\<close>, \<open>kreach\<close> are the states reachable from the table \<open>userinit\<close> leaves.  The theory
  proves what every run keeps: distinct process ids, one CPU per running process as long as no
  SIGBG or SIGFG is sent, and a bound on the number of scheduling rounds a ready process waits.
\<close>

section \<open>Steps\<close>

text \<open>
  A step is labelled with its operation.  \<open>cur\<close> runs on CPU \<open>c\<close>; the operations that end in
  \<open>sched()\<close> go on to the scheduler's side of the switch, which clears \<open>c->proc\<close> before
  \<open>ptable.lock\<close> is released.
\<close>

datatype kop =
  K_fork | K_custom_fork | K_start | K_growproc | K_exit | K_wait | K_yield | K_sleep
| K_tidy | K_wakeup | K_kill | K_sendsig int | K_timer | K_signal | K_deliver | K_round

definition NCPU :: nat where
  "NCPU = 8"

inductive kstep :: "tunables \<Rightarrow> kop \<Rightarrow> ptable \<Rightarrow> ptable \<Rightarrow> bool" for T where
  fork: "c < NCPU \<Longrightarrow> cpu_proc s c = Some cur \<Longrightarrow> fork T kst pgd cur s = (r, s') \<Longrightarrow>
         kstep T K_fork s s'"
| custom_fork: "c < NCPU \<Longrightarrow> cpu_proc s c = Some cur \<Longrightarrow>
         custom_fork T kst pgd cur later etime s = (r, s') \<Longrightarrow> kstep T K_custom_fork s s'"
| start: "c < NCPU \<Longrightarrow> cpu_proc s c = Some cur \<Longrightarrow> sys_scheduler_start s = (r, s') \<Longrightarrow>
         kstep T K_start s s'"
| growproc: "c < NCPU \<Longrightarrow> cpu_proc s c = Some cur \<Longrightarrow> growproc al de cur n s = (r, s') \<Longrightarrow>
         kstep T K_growproc s s'"
| exit: "c < NCPU \<Longrightarrow> cpu_proc s c = Some cur \<Longrightarrow> exit cur s = Val s' \<Longrightarrow>
         kstep T K_exit s (scheduler_back c s')"
| wait: "c < NCPU \<Longrightarrow> cpu_proc s c = Some cur \<Longrightarrow> wait_round cur s = (Wait_returns r, s') \<Longrightarrow>
         kstep T K_wait s s'"
| wait_sleep: "c < NCPU \<Longrightarrow> cpu_proc s c = Some cur \<Longrightarrow> wait_round cur s = (Wait_sleeps, s') \<Longrightarrow>
         kstep T K_wait s (scheduler_back c s')"
| yield: "c < NCPU \<Longrightarrow> cpu_proc s c = Some cur \<Longrightarrow>
         kstep T K_yield s (scheduler_back c (yield cur s))"
| sleep: "c < NCPU \<Longrightarrow> cpu_proc s c = Some cur \<Longrightarrow> sleep (Some cur) ch True s = Val s' \<Longrightarrow>
         kstep T K_sleep s (scheduler_back c s')"
| tidy: "c < NCPU \<Longrightarrow> cpu_proc s c = Some cur \<Longrightarrow> kstep T K_tidy s (sleep_tidy cur s)"
| wakeup: "kstep T K_wakeup s (wakeup ch s)"
| kill: "kill pd s = (r, s') \<Longrightarrow> kstep T K_kill s s'"
| sendsig: "kstep T (K_sendsig g) s (sendsig g s)"
| timer: "c < NCPU \<Longrightarrow> kstep T K_timer s (timer_tick c s)"
| signal: "c < NCPU \<Longrightarrow> cpu_proc s c = Some cur \<Longrightarrow> sys_signal h cur s = (r, s') \<Longrightarrow>
         kstep T K_signal s s'"
| deliver: "c < NCPU \<Longrightarrow> cpu_proc s c = Some cur \<Longrightarrow>
         kstep T K_deliver s (deliver_signal ok cur s)"
| round: "c < NCPU \<Longrightarrow> cpu_proc s c = None \<Longrightarrow>
         kstep T K_round s (scheduler_round T c s)"

text \<open>The table at boot: static storage, all zero, \<open>nextpid\<close> 1, then \<open>userinit\<close>.\<close>

definition zero_proc :: proc where
  "zero_proc = \<lparr>sz = 0, pgdir = 0, kstack = 0, state = UNUSED, pid = 0, parent = None,
     tf = zero_tf, at_forkret = False, chan = None, killed = 0, ofile = replicate 16 None,
     cwd = None, pname = replicate 16 NUL, suspended = 0, sighandler = 0, sig_pending = 0,
     start_later = 0, exec_time = 0, creation_time = 0, start_time = 0, end_time = 0,
     total_ticks = 0, waiting_time = 0, context_switches = 0, first_scheduled = 0,
     response_time = 0, initial_priority = 0, dynamic_priority = 0\<rparr>"

definition boot_table :: ptable where
  "boot_table = \<lparr>procs = replicate NPROC zero_proc, nextpid = 1, initproc = None, ticks = 0,
     cpu_proc = (\<lambda>c. None), prev_proc = (\<lambda>c. None), calls = []\<rparr>"

text \<open>Runs: the labels in order, and a test that holds in every state of the run.\<close>

inductive krun :: "tunables \<Rightarrow> (ptable \<Rightarrow> bool) \<Rightarrow> ptable \<Rightarrow> kop list \<Rightarrow> ptable \<Rightarrow> bool" for T Q where
  nil: "Q s \<Longrightarrow> krun T Q s [] s"
| snoc: "krun T Q s ops t \<Longrightarrow> kstep T k t u \<Longrightarrow> Q u \<Longrightarrow> krun T Q s (ops @ [k]) u"

abbreviation kreach :: "tunables \<Rightarrow> ptable \<Rightarrow> kop list \<Rightarrow> ptable \<Rightarrow> bool" where
  "kreach T \<equiv> krun T (\<lambda>s. True)"

definition booted :: "tunables \<Rightarrow> ptable \<Rightarrow> bool" where
  "booted T s \<longleftrightarrow> (\<exists>kst pgd root. userinit T kst pgd root boot_table = Val s)"

section \<open>Views of the table\<close>

text \<open>A view is one observation of every slot; an operation that does not touch it keeps it.\<close>

definition view :: "(proc \<Rightarrow> 'a) \<Rightarrow> ptable \<Rightarrow> 'a list" where
  "view g s = map g (procs s)"

lemma view_upd [simp]: "g (f (procs s ! i)) = g (procs s ! i) \<Longrightarrow> view g (upd_proc i f s) = view g s"
  by (simp add: view_def map_update) (metis list_update_beyond list_update_id length_map not_le nth_map)

lemma view_call [simp]: "view g (call cs s) = view g s"
  by (simp add: view_def)

lemma view_back [simp]: "view g (scheduler_back c s) = view g s"
  by (simp add: view_def scheduler_back_def)

lemma view_misc [simp]:
  "view g (s\<lparr>nextpid := n\<rparr>) = view g s" "view g (s\<lparr>initproc := ip\<rparr>) = view g s"
  "view g (s\<lparr>ticks := t\<rparr>) = view g s" "view g (s\<lparr>cpu_proc := cp\<rparr>) = view g s"
  "view g (s\<lparr>prev_proc := pp\<rparr>) = view g s"
  by (simp_all add: view_def)

lemma view_nth: "view g s = view g t \<Longrightarrow> i < length (procs t) \<Longrightarrow> g (procs s ! i) = g (procs t ! i)"
  unfolding view_def by (metis length_map nth_map)

lemma view_length: "view g s = view g t \<Longrightarrow> length (procs s) = length (procs t)"
  unfolding view_def by (metis length_map)

lemma view_wakeup1 [simp]:
  "(\<And>p. state p = SLEEPING \<Longrightarrow> g (p\<lparr>state := RUNNABLE\<rparr>) = g p) \<Longrightarrow> view g (wakeup1 c s) = view g s"
  by (simp add: view_def wakeup1_def)

lemma view_foldl:
  "(\<And>s i. view g (f s i) = view g s) \<Longrightarrow> view g (foldl f s xs) = view g s"
  by (induction xs arbitrary: s) auto

lemma sel_foldl: "(\<And>s i. h (f s i) = h s) \<Longrightarrow> h (foldl f s xs) = h s"
  by (induction xs arbitrary: s) auto

text \<open>What \<open>exit\<close> does to every view that ignores files, times and a zombie's state.\<close>

lemma view_reparent [simp]:
  "(\<And>p q. g (p\<lparr>parent := q\<rparr>) = g p) \<Longrightarrow>
   (\<And>p. state p = SLEEPING \<Longrightarrow> g (p\<lparr>state := RUNNABLE\<rparr>) = g p) \<Longrightarrow>
   view g (reparent_step cur s i) = view g s"
  by (simp add: reparent_step_def Let_def)

lemma reparent_sel [simp]:
  "nextpid (reparent_step cur s i) = nextpid s" "cpu_proc (reparent_step cur s i) = cpu_proc s"
  by (simp_all add: reparent_step_def Let_def)

text \<open>The operations that fill a slot: they change one \<open>UNUSED\<close> entry, or nothing.\<close>

definition fresh_slot :: "tunables \<Rightarrow> ptable \<Rightarrow> ptable \<Rightarrow> bool" where
  "fresh_slot T s s' \<longleftrightarrow> cpu_proc s' = cpu_proc s \<and>
     (procs s' = procs s \<and> nextpid s' = nextpid s \<or>
      (\<exists>i p. i < length (procs s) \<and> state (procs s ! i) = UNUSED \<and> procs s' = (procs s)[i := p] \<and>
         state p \<noteq> RUNNING \<and> pid p = nextpid s \<and> nextpid s' = nextpid s + 1 \<and>
         (waiting_time p = waiting_time (procs s ! i) \<and> total_ticks p = total_ticks (procs s ! i) \<and>
            initial_priority p = initial_priority (procs s ! i) \<or>
          waiting_time p = 0 \<and> total_ticks p = 0 \<and> initial_priority p = INIT_PRIORITY T)))"

lemma fresh_slotI:
  assumes "i < length (procs s)" "state (procs s ! i) = UNUSED" "procs s' = (procs s)[i := p]"
    "state p \<noteq> RUNNING" "pid p = nextpid s" "nextpid s' = nextpid s + 1" "cpu_proc s' = cpu_proc s"
    "waiting_time p = waiting_time (procs s ! i) \<and> total_ticks p = total_ticks (procs s ! i) \<and>
       initial_priority p = initial_priority (procs s ! i) \<or>
     waiting_time p = 0 \<and> total_ticks p = 0 \<and> initial_priority p = INIT_PRIORITY T"
  shows "fresh_slot T s s'"
  unfolding fresh_slot_def using assms by blast

lemma allocproc_None:
  assumes "allocproc T kst s = (None, s')"
  shows "fresh_slot T s s'"
proof (cases "scan (\<lambda>p. state p = UNUSED) (procs s)")
  case None
  then show ?thesis using assms by (simp add: allocproc_def fresh_slot_def)
next
  case (Some i)
  note i = scan_SomeD(1,2) [OF Some]
  show ?thesis
    by (rule fresh_slotI [OF i, where p = "(procs s ! i)\<lparr>pid := nextpid s, kstack := 0, state := UNUSED\<rparr>"])
      (use assms i Some in \<open>auto simp: allocproc_def Let_def split: if_splits\<close>)
qed

lemma allocproc_Some:
  assumes "allocproc T kst s = (Some i, s')"
  shows "i < length (procs s)" "state (procs s ! i) = UNUSED" "cpu_proc s' = cpu_proc s"
    "nextpid s' = nextpid s + 1"
    "\<exists>p. procs s' = (procs s)[i := p] \<and> state p = EMBRYO \<and> pid p = nextpid s \<and>
       waiting_time p = 0 \<and> total_ticks p = 0 \<and> initial_priority p = INIT_PRIORITY T"
  using assms
  by (auto simp: allocproc_def Let_def scan_Some split: option.splits if_splits)

lemma fork_fresh:
  assumes "fork T kst pgd cur s = (r, s')"
  shows "fresh_slot T s s'"
proof (cases "allocproc T kst s")
  case (Pair a t)
  show ?thesis
  proof (cases a)
    case None
    then show ?thesis using assms Pair by (auto simp: fork_def intro: allocproc_None)
  next
    case (Some i)
    note al = allocproc_Some [OF Pair [unfolded Some]]
    obtain p where p: "procs t = (procs s)[i := p]" "state p = EMBRYO" "pid p = nextpid s"
      "waiting_time p = 0" "total_ticks p = 0" "initial_priority p = INIT_PRIORITY T"
      using al(5) by blast
    obtain p' where "procs s' = (procs s)[i := p']" "pid p' = nextpid s" "state p' \<noteq> RUNNING"
      "waiting_time p' = 0" "total_ticks p' = 0" "initial_priority p' = INIT_PRIORITY T"
      "cpu_proc s' = cpu_proc s" "nextpid s' = nextpid s + 1"
      using assms Pair Some al(1-4) p
      by (auto simp: fork_def dup_files_def Let_def split: if_splits)
    then show ?thesis by (intro fresh_slotI [OF al(1,2)]) auto
  qed
qed

lemma custom_fork_fresh:
  assumes "custom_fork T kst pgd cur later etime s = (r, s')"
  shows "fresh_slot T s s'"
proof (cases "allocproc T kst s")
  case (Pair a t)
  show ?thesis
  proof (cases a)
    case None
    then show ?thesis using assms Pair by (auto simp: custom_fork_def intro: allocproc_None)
  next
    case (Some i)
    note al = allocproc_Some [OF Pair [unfolded Some]]
    obtain p where p: "procs t = (procs s)[i := p]" "state p = EMBRYO" "pid p = nextpid s"
      "waiting_time p = 0" "total_ticks p = 0" "initial_priority p = INIT_PRIORITY T"
      using al(5) by blast
    obtain p' where "procs s' = (procs s)[i := p']" "pid p' = nextpid s" "state p' \<noteq> RUNNING"
      "waiting_time p' = 0" "total_ticks p' = 0" "initial_priority p' = INIT_PRIORITY T"
      "cpu_proc s' = cpu_proc s" "nextpid s' = nextpid s + 1"
      using assms Pair Some al(1-4) p
      by (auto simp: custom_fork_def dup_files_def Let_def split: if_splits)
    then show ?thesis by (intro fresh_slotI [OF al(1,2)]) auto
  qed
qed

lemma wait_round_reap:
  assumes "wait_round cur s = (r, s')"
  obtains (reap) i p where "i < length (procs s)" "state (procs s ! i) = ZOMBIE"
      "parent (procs s ! i) = Some cur" "r = Wait_returns (pid (procs s ! i))"
      "procs s' = (procs s)[i := p]" "pid p = 0" "state p = UNUSED" "nextpid s' = nextpid s"
      "cpu_proc s' = cpu_proc s" "killed p = 0" "parent p = None"
      "waiting_time p = waiting_time (procs s ! i)" "total_ticks p = total_ticks (procs s ! i)"
      "initial_priority p = initial_priority (procs s ! i)"
      "calls s' = calls s @ [Kfree (kstack (procs s ! i)), Freevm (pgdir (procs s ! i))]"
  | (none) "r = Wait_returns (- 1)" "s' = s"
  | (sleeps) "r = Wait_sleeps"
      "s' = upd_proc cur (\<lambda>p. p\<lparr>chan := Some (Ch_proc cur), state := SLEEPING\<rparr>) s"
proof (cases "scan (\<lambda>p. parent p = Some cur \<and> state p = ZOMBIE) (procs s)")
  case None
  then show thesis using assms none sleeps by (auto simp: wait_round_def split: if_splits)
next
  case (Some i)
  note i = scan_SomeD(1,2) [OF Some]
  let ?p = "procs s ! i"
  have "r = Wait_returns (pid ?p)"
    "s' = upd_proc i (\<lambda>p. p\<lparr>kstack := 0, pid := 0, parent := None, pname := (pname p)[0 := NUL],
             killed := 0, state := UNUSED\<rparr>) (call [Kfree (kstack ?p), Freevm (pgdir ?p)] s)"
    using assms Some by (auto simp: wait_round_def Let_def)
  then show thesis using i 
    by (intro reap [of i "?p\<lparr>kstack := 0, pid := 0, parent := None, pname := (pname ?p)[0 := NUL],
                            killed := 0, state := UNUSED\<rparr>"]) auto
qed

text \<open>The remaining operations, seen through a view.\<close>

lemma exit_mid:
  assumes e: "exit cur s = Val s'"
    and g: "\<And>p q. g (p\<lparr>parent := q\<rparr>) = g p" "\<And>p. g (p\<lparr>cwd := None\<rparr>) = g p"
      "\<And>p t. g (p\<lparr>end_time := t\<rparr>) = g p" "\<And>p fs. g (p\<lparr>ofile := fs\<rparr>) = g p"
      "\<And>p. state p = SLEEPING \<Longrightarrow> g (p\<lparr>state := RUNNABLE\<rparr>) = g p"
  obtains t where "view g t = view g s" "s' = upd_proc cur (\<lambda>p. p\<lparr>state := ZOMBIE\<rparr>) t"
    "nextpid t = nextpid s" "cpu_proc t = cpu_proc s"
proof -
  define a where "a = close_files cur s"
  define b where "b = upd_proc cur (\<lambda>p. p\<lparr>cwd := None\<rparr>)
                        (call [Begin_op, Iput (cwd (proc_at a cur)), End_op] a)"
  define d where "d = upd_proc cur (\<lambda>p. p\<lparr>end_time := ticks_int b\<rparr>) b"
  define u where "u = wakeup1 (map_option Ch_proc (parent (proc_at d cur)))
                        (call (exit_report (proc_at d cur)) d)"
  have s': "s' = upd_proc cur (\<lambda>p. p\<lparr>state := ZOMBIE\<rparr>)
        (foldl (reparent_step cur) u [0..<length (procs u)])"
    using e unfolding exit_def Let_def a_def b_def d_def u_def
    by (simp split: if_splits del: upd_proc_sel)
  have "view g a = view g s" "nextpid a = nextpid s" "cpu_proc a = cpu_proc s"
    by (simp_all add: a_def close_files_def g)
  then have b: "view g b = view g s" "nextpid b = nextpid s" "cpu_proc b = cpu_proc s"
    by (simp_all add: b_def g)
  then have "view g d = view g s" "nextpid d = nextpid s" "cpu_proc d = cpu_proc s"
    by (simp_all add: d_def g)
  then have "view g u = view g s" "nextpid u = nextpid s" "cpu_proc u = cpu_proc s"
    by (simp_all add: u_def g)
  then show thesis
    by (intro that [OF _ s'])
      (simp_all add: view_foldl g sel_foldl [where h = nextpid] sel_foldl [where h = cpu_proc])
qed

lemma view_sendsig:
  assumes "g \<noteq> 2" "g \<noteq> 3"
    and "\<And>p. state p = SLEEPING \<Longrightarrow> v (p\<lparr>state := RUNNABLE\<rparr>) = v p"
    and "\<And>p. v (p\<lparr>killed := 1\<rparr>) = v p" "\<And>p. v (p\<lparr>sig_pending := 1\<rparr>) = v p"
    and "\<And>p. state p = SLEEPING \<Longrightarrow> v (p\<lparr>killed := 1, state := RUNNABLE\<rparr>) = v p"
    and "\<And>p. state p = SLEEPING \<Longrightarrow> v (p\<lparr>sig_pending := 1, state := RUNNABLE\<rparr>) = v p"
  shows "view v (sendsig g s) = view v s"
proof -
  have "v (sigint_proc p) = v p" for p
    by (cases "state p = SLEEPING") (simp_all add: sigint_proc_def assms)
  moreover have "v (sigcustom_proc p) = v p" for p
    by (cases "state p = SLEEPING") (simp_all add: sigcustom_proc_def assms)
  ultimately show ?thesis using assms(1,2) by (simp add: sendsig_def view_def)
qed

lemma view_sendsig_state:
  assumes "\<And>p x. v (p\<lparr>state := x\<rparr>) = v p" "\<And>p x. v (p\<lparr>killed := x\<rparr>) = v p"
    "\<And>p x. v (p\<lparr>sig_pending := x\<rparr>) = v p" "\<And>p x. v (p\<lparr>suspended := x\<rparr>) = v p"
    "\<And>p x. v (p\<lparr>parent := x\<rparr>) = v p"
    "\<And>p x y. v (p\<lparr>suspended := x, state := y\<rparr>) = v p"
    "\<And>p x y. v (p\<lparr>killed := x, state := y\<rparr>) = v p"
    "\<And>p x y. v (p\<lparr>sig_pending := x, state := y\<rparr>) = v p"
  shows "view v (sendsig g s) = view v s"
proof -
  have "v (sigint_proc p) = v p" "v (sigcustom_proc p) = v p" "v (sigfg_proc p) = v p" for p
    by (simp_all add: sigint_proc_def sigcustom_proc_def sigfg_proc_def assms)
  moreover have "view v (sigbg_step s i) = view v s" for s i
    by (simp add: sigbg_step_def Let_def assms split: option.split)
  ultimately show ?thesis by (simp add: sendsig_def view_foldl) (simp add: view_def)
qed

lemma sendsig_sel [simp]:
  "nextpid (sendsig g s) = nextpid s" "cpu_proc (sendsig g s) = cpu_proc s"
proof -
  have "nextpid (sigbg_step s i) = nextpid s" "cpu_proc (sigbg_step s i) = cpu_proc s" for s i
    by (simp_all add: sigbg_step_def Let_def split: option.split)
  then show "nextpid (sendsig g s) = nextpid s" "cpu_proc (sendsig g s) = cpu_proc s"
    by (simp_all add: sendsig_def sel_foldl [where h = nextpid] sel_foldl [where h = cpu_proc])
qed

lemma view_kill:
  assumes "kill pd s = (r, s')"
    and "\<And>p. v (p\<lparr>killed := 1\<rparr>) = v p"
    and "\<And>p. state p = SLEEPING \<Longrightarrow> v (p\<lparr>killed := 1, state := RUNNABLE\<rparr>) = v p"
  shows "view v s' = view v s" "nextpid s' = nextpid s" "cpu_proc s' = cpu_proc s"
proof -
  have "v (p\<lparr>killed := 1, state := if state p = SLEEPING then RUNNABLE else state p\<rparr>) = v p" for p
    by (cases "state p = SLEEPING") (simp_all add: assms)
  then show "view v s' = view v s" "nextpid s' = nextpid s" "cpu_proc s' = cpu_proc s"
    using assms(1) by (auto simp: kill_def split: option.splits)
qed

lemma view_dispatch:
  assumes "\<And>p x y. v (p\<lparr>first_scheduled := x, response_time := y\<rparr>) = v p"
    "\<And>p x. v (p\<lparr>waiting_time := x\<rparr>) = v p" "\<And>p x. v (p\<lparr>state := x\<rparr>) = v p"
    "\<And>p x. v (p\<lparr>context_switches := x\<rparr>) = v p"
  shows "view v (dispatch c i s) = view v s"
  using assms by (simp add: dispatch_def Let_def split: option.split)

lemma dispatch_sel [simp]:
  "nextpid (dispatch c i s) = nextpid s"
  "cpu_proc (dispatch c i s) = (cpu_proc s)(c := Some i)"
  "length (procs (dispatch c i s)) = length (procs s)"
  by (simp_all add: dispatch_def Let_def split: option.split)

lemma view_timer:
  assumes "\<And>p x. v (p\<lparr>total_ticks := x\<rparr>) = v p"
    "\<And>p x. v (p\<lparr>end_time := x, killed := 1\<rparr>) = v p"
    "\<And>p. state p = SLEEPING \<Longrightarrow> v (p\<lparr>state := RUNNABLE\<rparr>) = v p"
  shows "view v (timer_tick c s) = view v s"
  using assms by (simp add: timer_tick_def wakeup_def Let_def split: option.split)

lemma timer_sel [simp]:
  "nextpid (timer_tick c s) = nextpid s" "cpu_proc (timer_tick c s) = cpu_proc s"
  by (simp_all add: timer_tick_def wakeup_def Let_def split: option.split)

lemma back_sel [simp]:
  "nextpid (scheduler_back c s) = nextpid s" "procs (scheduler_back c s) = procs s"
  "cpu_proc (scheduler_back c s) = (cpu_proc s)(c := None)"
  by (simp_all add: scheduler_back_def)

text \<open>One round: the candidates are aged, expired ones become zombies, the best one is dispatched.\<close>

lemma round_cases:
  obtains (idle) t where "pick T s = (t, None)" "scheduler_round T c s = t"
  | (run) t i where "pick T s = (t, Some i)" "scheduler_round T c s = dispatch c i t"
proof (cases "pick T s")
  case (Pair t r)
  then show thesis using that by (cases r) (auto simp: scheduler_round_def)
qed

lemma pick_selD:
  assumes "pick T s = (t, r)"
  shows "procs t = map (expire (ticks_int s) \<circ> age T) (procs s)" "nextpid t = nextpid s"
    "cpu_proc t = cpu_proc s" "prev_proc t = prev_proc s"
  using pick_table [of T s] pick_sel [of T s] assms by simp_all

lemma view_round:
  assumes "\<And>p x y. v (p\<lparr>first_scheduled := x, response_time := y\<rparr>) = v p"
    "\<And>p x. v (p\<lparr>waiting_time := x\<rparr>) = v p" "\<And>p x. v (p\<lparr>state := x\<rparr>) = v p"
    "\<And>p x. v (p\<lparr>context_switches := x\<rparr>) = v p"
    "\<And>p x y. v (p\<lparr>waiting_time := x, dynamic_priority := y\<rparr>) = v p"
    "\<And>p x y. v (p\<lparr>state := x, end_time := y\<rparr>) = v p"
  shows "view v (scheduler_round T c s) = view v s"
proof -
  have e: "v (expire now (age T p)) = v p" for now p
    by (simp add: expire_def age_def assms)
  have "view v t = view v s" if "pick T s = (t, r)" for t r
    using pick_selD(1) [OF that] by (simp add: view_def e)
  then show ?thesis
    by (cases rule: round_cases [of T s c]) (simp_all add: view_dispatch assms)
qed

lemma round_sel [simp]: "nextpid (scheduler_round T c s) = nextpid s"
  by (cases rule: round_cases [of T s c]) (simp_all add: pick_selD(2))

end
