(* ===== verification/Xv6_Kinv.thy ===== *)
theory Xv6_Kinv
  imports Xv6_Kstep
begin

text \<open>
  What every run of the process table keeps: distinct process ids, and one CPU per running
  process as long as no SIGBG or SIGFG is sent; the scheduler's bounded waiting; the exit/wait
  handshake; and where signal and expiry code depart from them.
\<close>

section \<open>Process ids\<close>

definition pid_inv :: "ptable \<Rightarrow> bool" where
  "pid_inv s \<longleftrightarrow> length (procs s) = NPROC \<and> 0 < nextpid s \<and>
     (\<forall>i < NPROC. 0 \<le> pid (proc_at s i) \<and> pid (proc_at s i) < nextpid s) \<and>
     (\<forall>i < NPROC. \<forall>j < NPROC. pid (proc_at s i) = pid (proc_at s j) \<longrightarrow>
        i = j \<or> pid (proc_at s i) = 0)"

lemma pid_inv_keep:
  assumes v: "view pid s' = view pid s" and "nextpid s' = nextpid s" and "pid_inv s"
  shows "pid_inv s'"
proof -
  have "length (procs s') = length (procs s)" using view_length [OF v] .
  moreover have "pid (proc_at s' i) = pid (proc_at s i)" if "i < NPROC" for i
    using view_nth [OF v, of i] that assms(3) by (simp add: pid_inv_def)
  ultimately show ?thesis using assms(2,3) by (simp add: pid_inv_def)
qed

lemma pid_inv_slot:
  assumes "pid_inv s" and "procs s' = (procs s)[i := p]"
    and "pid p = 0 \<and> nextpid s' = nextpid s \<or> pid p = nextpid s \<and> nextpid s' = nextpid s + 1"
  shows "pid_inv s'"
  using assms by (auto simp: pid_inv_def nth_update)

lemma pid_inv_fresh: "fresh_slot T s s' \<Longrightarrow> pid_inv s \<Longrightarrow> pid_inv s'"
  unfolding fresh_slot_def
  by (auto intro: pid_inv_slot) (auto simp: pid_inv_def)

lemma pid_inv_wait: "wait_round cur s = (r, s') \<Longrightarrow> pid_inv s \<Longrightarrow> pid_inv s'"
  by (erule wait_round_reap) (auto intro: pid_inv_slot pid_inv_keep)

lemma pid_inv_step:
  assumes "kstep T k s s'" and inv: "pid_inv s"
  shows "pid_inv s'"
  using assms(1)
proof cases
  case (fork c cur kst pgd r)
  then show ?thesis using inv fork_fresh pid_inv_fresh by blast
next
  case (custom_fork c cur kst pgd later etime r)
  then show ?thesis using inv custom_fork_fresh pid_inv_fresh by blast
next
  case (wait c cur r)
  then show ?thesis using inv pid_inv_wait by blast
next
  case (start c cur r)
  then have "s' = snd (sys_scheduler_start s)" by simp
  then have "view pid s' = view pid s" "nextpid s' = nextpid s"
    by (simp_all add: sys_scheduler_start_def view_def)
  then show ?thesis using inv pid_inv_keep by blast
next
  case (growproc c cur al de n r)
  then have "view pid s' = view pid s" "nextpid s' = nextpid s"
    by (auto simp: growproc_def Let_def split: if_splits)
  then show ?thesis using inv pid_inv_keep by blast
next
  case (exit c cur t)
  obtain u where "view pid u = view pid s" "t = upd_proc cur (\<lambda>p. p\<lparr>state := ZOMBIE\<rparr>) u"
    "nextpid u = nextpid s"
    by (rule exit_mid [OF exit(5), of pid]) auto
  then have "view pid s' = view pid s" "nextpid s' = nextpid s" by (simp_all add: exit(2))
  then show ?thesis using inv pid_inv_keep by blast
next
  case (wait_sleep c cur t)
  then have t: "pid_inv t" using inv pid_inv_wait by blast
  have "view pid s' = view pid t" "nextpid s' = nextpid t" by (simp_all add: wait_sleep(2))
  then show ?thesis using t pid_inv_keep by blast
next
  case (yield c cur)
  then have "view pid s' = view pid s" "nextpid s' = nextpid s" by (simp_all add: yield_def)
  then show ?thesis using inv pid_inv_keep by blast
next
  case (sleep c cur ch t)
  then have "view pid s' = view pid s" "nextpid s' = nextpid s" by (auto simp: sleep_def)
  then show ?thesis using inv pid_inv_keep by blast
next
  case (tidy c cur)
  then have "view pid s' = view pid s" "nextpid s' = nextpid s" by (simp_all add: sleep_tidy_def)
  then show ?thesis using inv pid_inv_keep by blast
next
  case (wakeup ch)
  then have "view pid s' = view pid s" "nextpid s' = nextpid s" by (simp_all add: wakeup_def)
  then show ?thesis using inv pid_inv_keep by blast
next
  case (kill pd r)
  note kill = view_kill(1,2) [OF kill(2), of pid]
  show ?thesis using inv kill pid_inv_keep by simp
next
  case (sendsig g)
  then have "view pid s' = view pid s" "nextpid s' = nextpid s" by (simp_all add: view_sendsig_state)
  then show ?thesis using inv pid_inv_keep by blast
next
  case (timer c)
  then have "view pid s' = view pid s" "nextpid s' = nextpid s" by (simp_all add: view_timer)
  then show ?thesis using inv pid_inv_keep by blast
next
  case (signal c cur h r)
  then have "view pid s' = view pid s" "nextpid s' = nextpid s"
    by (auto simp: sys_signal_def split: option.splits)
  then show ?thesis using inv pid_inv_keep by blast
next
  case (deliver c cur ok)
  then have "view pid s' = view pid s" "nextpid s' = nextpid s"
    by (simp_all add: deliver_signal_def Let_def)
  then show ?thesis using inv pid_inv_keep by blast
next
  case (round c)
  then have "view pid s' = view pid s" "nextpid s' = nextpid s" by (simp_all add: view_round)
  then show ?thesis using inv pid_inv_keep by blast
qed

lemma boot_shape:
  assumes "booted T s"
  obtains p where "procs s = (replicate NPROC zero_proc)[0 := p]" "pid p = 1" "nextpid s = 2"
    "state p = RUNNABLE" "cpu_proc s = (\<lambda>c. None)" "suspended p = 0" "exec_time p = - 1"
    "total_ticks p = 0" "waiting_time p = 0" "initial_priority p = INIT_PRIORITY T"
proof -
  obtain kst pgd root where u: "userinit T kst pgd root boot_table = Val s"
    using assms by (auto simp: booted_def)
  obtain r t where a: "allocproc T kst boot_table = (r, t)" by fastforce
  have sc: "scan (\<lambda>p. state p = UNUSED) (replicate NPROC zero_proc) = Some 0"
    by (simp add: scan_Some NPROC_def zero_proc_def)
  obtain i where i: "r = Some i" using u a by (cases r) (simp_all add: userinit_def)
  have i0: "i = 0"
    using a sc by (simp add: i allocproc_def boot_table_def Let_def split: if_splits)
  have l: "0 < length (procs boot_table)" by (simp add: boot_table_def NPROC_def)
  have "\<exists>p. procs t = (replicate NPROC zero_proc)[0 := p] \<and> pid p = 1 \<and> suspended p = 0 \<and>
      exec_time p = - 1 \<and> total_ticks p = 0 \<and> waiting_time p = 0 \<and>
      initial_priority p = INIT_PRIORITY T" "nextpid t = 2" "cpu_proc t = (\<lambda>c. None)"
    using a i i0 sc l
    by (auto simp: allocproc_def boot_table_def Let_def split: if_splits)
  then obtain p where p: "procs t = (replicate NPROC zero_proc)[0 := p]" "pid p = 1"
    "suspended p = 0" "exec_time p = - 1" "total_ticks p = 0" "waiting_time p = 0"
    "initial_priority p = INIT_PRIORITY T" "nextpid t = 2" "cpu_proc t = (\<lambda>c. None)"
    by blast
  let ?q = "procs s ! 0"
  have "procs s = (replicate NPROC zero_proc)[0 := ?q]" "pid ?q = 1" "nextpid s = 2"
    "state ?q = RUNNABLE" "cpu_proc s = (\<lambda>c. None)" "suspended ?q = 0" "exec_time ?q = - 1"
    "total_ticks ?q = 0" "waiting_time ?q = 0" "initial_priority ?q = INIT_PRIORITY T"
    using u a i i0 p by (auto simp: userinit_def Let_def NPROC_def split: if_splits)
  then show thesis by (rule that)
qed

lemma pid_inv_boot: "booted T s \<Longrightarrow> pid_inv s"
  by (erule boot_shape) (simp add: pid_inv_def nth_update zero_proc_def NPROC_def)

lemma pid_inv_run: "krun T Q s ops s' \<Longrightarrow> pid_inv s \<Longrightarrow> pid_inv s'"
  by (induction rule: krun.induct) (auto intro: pid_inv_step)

section \<open>One CPU per running process\<close>

abbreviation running :: "ptable \<Rightarrow> bool list" where
  "running \<equiv> view (\<lambda>p. state p = RUNNING)"

definition cpus_ok :: "bool list \<Rightarrow> (nat \<Rightarrow> nat option) \<Rightarrow> bool" where
  "cpus_ok rs cp \<longleftrightarrow> length rs = NPROC \<and>
     (\<forall>c < NCPU. \<forall>i. cp c = Some i \<longrightarrow> i < NPROC \<and> rs ! i) \<and>
     (\<forall>c < NCPU. \<forall>d < NCPU. \<forall>i. cp c = Some i \<and> cp d = Some i \<longrightarrow> c = d) \<and>
     (\<forall>i < NPROC. rs ! i \<longrightarrow> (\<exists>c < NCPU. cp c = Some i))"

definition run_inv :: "ptable \<Rightarrow> bool" where
  "run_inv s \<longleftrightarrow> cpus_ok (running s) (cpu_proc s)"

lemma cpus_okI:
  assumes "length rs = NPROC"
    "\<And>c i. c < NCPU \<Longrightarrow> cp c = Some i \<Longrightarrow> i < NPROC \<and> rs ! i"
    "\<And>c d i. c < NCPU \<Longrightarrow> d < NCPU \<Longrightarrow> cp c = Some i \<Longrightarrow> cp d = Some i \<Longrightarrow> c = d"
    "\<And>i. i < NPROC \<Longrightarrow> rs ! i \<Longrightarrow> \<exists>c < NCPU. cp c = Some i"
  shows "cpus_ok rs cp"
  using assms unfolding cpus_ok_def by blast

lemma cpus_okD:
  assumes "cpus_ok rs cp"
  shows "length rs = NPROC" "c < NCPU \<Longrightarrow> cp c = Some i \<Longrightarrow> i < NPROC"
    "c < NCPU \<Longrightarrow> cp c = Some i \<Longrightarrow> rs ! i"
    "c < NCPU \<Longrightarrow> d < NCPU \<Longrightarrow> cp c = Some i \<Longrightarrow> cp d = Some i \<Longrightarrow> c = d"
    "i < NPROC \<Longrightarrow> rs ! i \<Longrightarrow> \<exists>c < NCPU. cp c = Some i"
  using assms unfolding cpus_ok_def by blast+

lemma cpus_ok_off:
  assumes ok: "cpus_ok rs cp" and c: "c < NCPU" "cp c = Some cur"
  shows "cpus_ok (rs[cur := False]) (cp(c := None))"
proof (rule cpus_okI)
  show "i < NPROC \<and> rs[cur := False] ! i" if "d < NCPU" "(cp(c := None)) d = Some i" for d i
    using that cpus_okD [OF ok] c by (auto simp: nth_update split: if_splits)
  show "\<exists>d < NCPU. (cp(c := None)) d = Some i" if "i < NPROC" "rs[cur := False] ! i" for i
  proof -
    have "rs ! i" "i \<noteq> cur" using that cpus_okD(1) [OF ok] by (auto simp: nth_update split: if_splits)
    then obtain d where "d < NCPU" "cp d = Some i" using cpus_okD(5) [OF ok \<open>i < NPROC\<close>] by blast
    then show ?thesis using \<open>i \<noteq> cur\<close> c(2) by (intro exI [of _ d]) auto
  qed
qed (use cpus_okD [OF ok] c in \<open>auto split: if_splits\<close>)

lemma cpus_ok_on:
  assumes ok: "cpus_ok rs cp" and c: "c < NCPU" "cp c = None" and i: "i < NPROC" "\<not> rs ! i"
  shows "cpus_ok (rs[i := True]) (cp(c := Some i))"
proof (rule cpus_okI)
  show "j < NPROC \<and> rs[i := True] ! j" if "d < NCPU" "(cp(c := Some i)) d = Some j" for d j
    using that cpus_okD(1-3) [OF ok] i by (auto simp: nth_update split: if_splits)
  show "\<exists>d < NCPU. (cp(c := Some i)) d = Some j" if "j < NPROC" "rs[i := True] ! j" for j
  proof (cases "j = i")
    case True
    then show ?thesis using c(1) by auto
  next
    case False
    then have "rs ! j" using that(2) by (simp add: nth_update split: if_splits)
    then obtain d where "d < NCPU" "cp d = Some j" using cpus_okD(5) [OF ok \<open>j < NPROC\<close>] by blast
    then show ?thesis using c(2) by (intro exI [of _ d]) auto
  qed
  show "d = e" if "d < NCPU" "e < NCPU" "(cp(c := Some i)) d = Some j" "(cp(c := Some i)) e = Some j"
    for d e j
  proof -
    have "cp d \<noteq> Some i" "cp e \<noteq> Some i" using cpus_okD(3) [OF ok] that(1,2) i(2) by blast+
    then show ?thesis using that cpus_okD(4) [OF ok] by (auto split: if_splits)
  qed
qed (simp add: cpus_okD(1) [OF ok])

lemma run_inv_keep: "running s' = running s \<Longrightarrow> cpu_proc s' = cpu_proc s \<Longrightarrow> run_inv s \<Longrightarrow> run_inv s'"
  by (simp add: run_inv_def)

lemma run_inv_off:
  assumes "running s' = (running s)[cur := False]" "cpu_proc s' = (cpu_proc s)(c := None)"
    "run_inv s" "c < NCPU" "cpu_proc s c = Some cur"
  shows "run_inv s'"
  using assms by (simp add: run_inv_def cpus_ok_off)

lemma running_upd: "running (upd_proc i f s) = (running s)[i := (state (f (procs s ! i)) = RUNNING)]"
  by (simp add: view_def map_update)

lemma running_set: "running (upd_proc i (\<lambda>p. p\<lparr>state := RUNNING\<rparr>) s) = (running s)[i := True]"
  by (simp add: running_upd)

lemma running_slot:
  assumes "procs s' = (procs s)[i := p]" "state (procs s ! i) \<noteq> RUNNING" "state p \<noteq> RUNNING"
  shows "running s' = running s"
proof (cases "i < length (procs s)")
  case True
  have "(running s)[i := False] = running s"
    using True assms(2) by (intro list_update_same_conv [THEN iffD2]) (simp_all add: view_def)
  then show ?thesis using assms(1,3) by (simp add: view_def map_update)
qed (simp add: assms view_def list_update_beyond)

lemma running_fresh:
  assumes "fresh_slot T s s'"
  shows "running s' = running s"
proof -
  consider "procs s' = procs s"
    | i p where "procs s' = (procs s)[i := p]" "state (procs s ! i) = UNUSED" "state p \<noteq> RUNNING"
    using assms unfolding fresh_slot_def by blast
  then show ?thesis
    by cases (simp_all add: running_slot, simp add: view_def)
qed

lemma run_inv_length: "run_inv s \<Longrightarrow> length (procs s) = NPROC"
  unfolding run_inv_def using cpus_okD(1) by (fastforce simp: view_def)

lemma cur_running:
  assumes "run_inv s" "c < NCPU" "cpu_proc s c = Some cur"
  shows "cur < length (procs s)" "state (proc_at s cur) = RUNNING"
proof -
  show "cur < length (procs s)"
    using assms cpus_okD(2) run_inv_length unfolding run_inv_def by metis
  then show "state (proc_at s cur) = RUNNING"
    using cpus_okD(3) [OF assms(1) [unfolded run_inv_def] assms(2,3)] by (simp add: view_def)
qed

lemma run_inv_round:
  assumes inv: "run_inv s" and c: "c < NCPU" "cpu_proc s c = None"
  shows "run_inv (scheduler_round T c s)"
proof (cases rule: round_cases [of T s c])
  case (idle t)
  have "running t = running s"
    using pick_selD(1) [OF idle(1)] by (simp add: view_def expire_def age_def)
  then show ?thesis using idle pick_selD(3) [OF idle(1)] inv by (simp add: run_inv_keep)
next
  case (run t i)
  have rt: "running t = running s"
    using pick_selD(1) [OF run(1)] by (simp add: view_def expire_def age_def)
  have i: "i < length (procs t)" "state (proc_at t i) = RUNNABLE"
    using pick_Some [OF run(1)] by (auto simp: eligible_def)
  have on: "running (scheduler_round T c s) = (running s)[i := True]"
    by (simp add: run(2) rt dispatch_def Let_def running_set split: option.split)
  have "\<not> running s ! i" using i by (simp add: rt [symmetric]) (simp add: view_def)
  moreover have "i < NPROC" using i(1) view_length [OF rt] run_inv_length [OF inv] by simp
  ultimately have "cpus_ok ((running s)[i := True]) ((cpu_proc s)(c := Some i))"
    using inv c unfolding run_inv_def by (intro cpus_ok_on)
  then show ?thesis
    using pick_selD(3) [OF run(1)] run(2) by (simp add: run_inv_def on [unfolded run(2)])
qed

lemma run_inv_off_upd:
  assumes "run_inv s" "c < NCPU" "cpu_proc s c = Some cur" "running t = running s"
    "cpu_proc t = cpu_proc s" "\<And>p. state (f p) \<noteq> RUNNING"
  shows "run_inv (scheduler_back c (upd_proc cur f t))"
  by (rule run_inv_off [OF _ _ assms(1-3)]) (simp_all add: running_upd assms)

lemma run_inv_step:
  assumes "kstep T k s s'" and k: "k \<noteq> K_sendsig 2" "k \<noteq> K_sendsig 3" and inv: "run_inv s"
  shows "run_inv s'"
  using assms(1)
proof cases
  case (fork c cur kst pgd r)
  then show ?thesis
    using inv running_fresh [OF fork_fresh [OF fork(4)]] fork_fresh [OF fork(4)]
    by (auto simp: fresh_slot_def intro: run_inv_keep)
next
  case (custom_fork c cur kst pgd later etime r)
  then show ?thesis
    using inv running_fresh [OF custom_fork_fresh [OF custom_fork(4)]]
      custom_fork_fresh [OF custom_fork(4)]
    by (auto simp: fresh_slot_def intro: run_inv_keep)
next
  case (start c cur r)
  then have "s' = snd (sys_scheduler_start s)" by simp
  then have "running s' = running s" "cpu_proc s' = cpu_proc s"
    by (auto simp add: sys_scheduler_start_def view_def)
  then show ?thesis using inv run_inv_keep by blast
next
  case (growproc c cur al de n r)
  then have "running s' = running s" "cpu_proc s' = cpu_proc s"
    by (auto simp: growproc_def Let_def split: if_splits)
  then show ?thesis using inv run_inv_keep by blast
next
  case (exit c cur t)
  obtain u where "running u = running s" "t = upd_proc cur (\<lambda>p. p\<lparr>state := ZOMBIE\<rparr>) u"
    "cpu_proc u = cpu_proc s"
    by (rule exit_mid [OF exit(5), of "\<lambda>p. state p = RUNNING"]) auto
  then show ?thesis using exit inv by (simp add: run_inv_off_upd)
next
  case (wait c cur r)
  from wait(4) have "running s' = running s \<and> cpu_proc s' = cpu_proc s"
  proof (cases rule: wait_round_reap)
    case (reap i p)
    then show ?thesis using running_slot [OF reap(5)] by simp
  qed (use wait in auto)
  then show ?thesis using inv run_inv_keep by blast
next
  case (wait_sleep c cur t)
  from wait_sleep(5) have "t = upd_proc cur (\<lambda>p. p\<lparr>chan := Some (Ch_proc cur), state := SLEEPING\<rparr>) s"
    by (cases rule: wait_round_reap) auto
  then show ?thesis using wait_sleep inv by (simp add: run_inv_off_upd)
next
  case (yield c cur)
  then show ?thesis using inv by (simp add: run_inv_off_upd yield_def)
next
  case (sleep c cur ch t)
  then show ?thesis using inv by (auto simp: run_inv_off_upd sleep_def)
next
  case (tidy c cur)
  then have "running s' = running s" "cpu_proc s' = cpu_proc s" by (simp_all add: sleep_tidy_def)
  then show ?thesis using inv run_inv_keep by blast
next
  case (wakeup ch)
  then have "running s' = running s" "cpu_proc s' = cpu_proc s" by (simp_all add: wakeup_def)
  then show ?thesis using inv run_inv_keep by blast
next
  case (kill pd r)
  note kill = view_kill(1,3) [OF kill(2), of "\<lambda>p. state p = RUNNING"]
  show ?thesis using inv kill run_inv_keep by simp
next
  case (sendsig g)
  then have "running s' = running s" "cpu_proc s' = cpu_proc s"
    using k by (simp_all add: view_sendsig)
  then show ?thesis using inv run_inv_keep by blast
next
  case (timer c)
  then have "running s' = running s" "cpu_proc s' = cpu_proc s" by (simp_all add: view_timer)
  then show ?thesis using inv run_inv_keep by blast
next
  case (signal c cur h r)
  then have "running s' = running s" "cpu_proc s' = cpu_proc s"
    by (auto simp: sys_signal_def split: option.splits)
  then show ?thesis using inv run_inv_keep by blast
next
  case (deliver c cur ok)
  then have "running s' = running s" "cpu_proc s' = cpu_proc s"
    by (simp_all add: deliver_signal_def Let_def)
  then show ?thesis using inv run_inv_keep by blast
next
  case (round c)
  then show ?thesis using inv by (simp add: run_inv_round)
qed

lemma run_inv_boot:
  assumes "booted T s"
  shows "run_inv s"
  using assms
proof (rule boot_shape)
  fix p
  assume p: "procs s = (replicate NPROC zero_proc)[0 := p]" "state p = RUNNABLE"
    and c: "cpu_proc s = (\<lambda>c. None)"
  have "state q \<noteq> RUNNING" if "q \<in> set (procs s)" for q
    using that set_list_update_subset [of "replicate NPROC zero_proc" 0 p] p
    by (auto simp: zero_proc_def)
  then show ?thesis using p(1) c by (auto simp: run_inv_def view_def intro!: cpus_okI)
qed

lemma run_inv_run:
  "krun T Q s ops s' \<Longrightarrow> K_sendsig 2 \<notin> set ops \<Longrightarrow> K_sendsig 3 \<notin> set ops \<Longrightarrow> run_inv s \<Longrightarrow> run_inv s'"
  by (induction rule: krun.induct) (auto intro: run_inv_step)

text \<open>
  In every state a booted kernel reaches, by any operations in any order, two slots that hold
  a process have different process ids.
\<close>

theorem pids_distinct:
  assumes "booted T s0" and "kreach T s0 ops s"
  shows "length (procs s) = NPROC \<and>
         (\<forall>i < NPROC. \<forall>j < NPROC. i \<noteq> j \<longrightarrow> pid (proc_at s i) = pid (proc_at s j) \<longrightarrow>
            pid (proc_at s i) = 0) \<and>
         (\<forall>i < NPROC. pid (proc_at s i) < nextpid s)"
  using pid_inv_run [OF assms(2) pid_inv_boot [OF assms(1)]] by (auto simp: pid_inv_def)

text \<open>
  C3: as long as nobody sends SIGBG (2) or SIGFG (3), a process is RUNNING exactly when one CPU
  has it as its current process, and no process is current on two CPUs.
\<close>

theorem one_cpu_per_running:
  assumes "booted T s0" and "kreach T s0 ops s"
    and "K_sendsig 2 \<notin> set ops" and "K_sendsig 3 \<notin> set ops"
  shows "(\<forall>i < NPROC. state (proc_at s i) = RUNNING \<longleftrightarrow> (\<exists>c < NCPU. cpu_proc s c = Some i)) \<and>
         (\<forall>c < NCPU. \<forall>d < NCPU. \<forall>i. cpu_proc s c = Some i \<and> cpu_proc s d = Some i \<longrightarrow> c = d)"
proof -
  have inv: "run_inv s" using assms run_inv_run run_inv_boot by blast
  note ok = cpus_okD [OF inv [unfolded run_inv_def]]
  show ?thesis
    using ok(4,5) cur_running [OF inv] run_inv_length [OF inv]
    by (fastforce simp: view_def)
qed

end
