(* ===== verification/Xv6_Fair.thy ===== *)
theory Xv6_Fair
  imports Xv6_Kinv
begin

text \<open>
  Bounded waiting: the aging of \<open>scheduler()\<close> lets a ready process lose only boundedly many
  rounds.  The measure is the number of rounds until the process has out-waited the advantage
  of the CPU time it has used, plus the number of processes that have waited about as long.
\<close>

section \<open>Accounting\<close>

definition acct :: "proc \<Rightarrow> int \<times> int \<times> int" where
  "acct p = (waiting_time p, total_ticks p, initial_priority p)"

definition acct_ok :: "tunables \<Rightarrow> ptable \<Rightarrow> bool" where
  "acct_ok T s \<longleftrightarrow> length (procs s) = NPROC \<and>
     (\<forall>i < NPROC. 0 \<le> waiting_time (proc_at s i) \<and> 0 \<le> total_ticks (proc_at s i) \<and>
        initial_priority (proc_at s i) \<le> INIT_PRIORITY T)"

text \<open>What an operation other than a round does to the accounts, seen from a ready slot \<open>x\<close>.\<close>

definition acct_step :: "tunables \<Rightarrow> nat \<Rightarrow> ptable \<Rightarrow> ptable \<Rightarrow> bool" where
  "acct_step T x s s' \<longleftrightarrow> acct_ok T s' \<and>
     (\<forall>i < NPROC. waiting_time (proc_at s' i) \<le> waiting_time (proc_at s i)) \<and>
     (x < NPROC \<and> state (proc_at s x) = RUNNABLE \<longrightarrow> acct (proc_at s' x) = acct (proc_at s x))"

lemma acct_step_keep:
  assumes v: "view acct s' = view acct s" and ok: "acct_ok T s"
  shows "acct_step T x s s'"
proof -
  have l: "length (procs s') = NPROC" using view_length [OF v] ok by (simp add: acct_ok_def)
  have "acct (proc_at s' i) = acct (proc_at s i)" if "i < NPROC" for i
    using view_nth [OF v, of i] that ok by (simp add: acct_ok_def)
  then show ?thesis using ok l by (simp add: acct_step_def acct_ok_def acct_def)
qed

lemma acct_step_slot:
  assumes p: "procs s' = (procs s)[i := p]" and ok: "acct_ok T s"
    and "waiting_time p \<le> waiting_time (procs s ! i)" "0 \<le> waiting_time p" "0 \<le> total_ticks p"
      "initial_priority p \<le> INIT_PRIORITY T"
    and "state (procs s ! i) \<noteq> RUNNABLE"
  shows "acct_step T x s s'"
  using assms by (auto simp: acct_step_def acct_ok_def nth_update)

lemma acct_step_fresh:
  assumes "fresh_slot T s s'" and ok: "acct_ok T s"
  shows "acct_step T x s s'"
proof -
  consider "procs s' = procs s"
    | i p where "i < length (procs s)" "procs s' = (procs s)[i := p]" "state (procs s ! i) = UNUSED"
      "waiting_time p = waiting_time (procs s ! i) \<and> total_ticks p = total_ticks (procs s ! i) \<and>
         initial_priority p = initial_priority (procs s ! i) \<or>
       waiting_time p = 0 \<and> total_ticks p = 0 \<and> initial_priority p = INIT_PRIORITY T"
    using assms unfolding fresh_slot_def by blast
  then show ?thesis
  proof cases
    case 1
    then show ?thesis using ok by (simp add: acct_step_keep view_def)
  next
    case (2 i p)
    have i: "0 \<le> waiting_time (procs s ! i)" "0 \<le> total_ticks (procs s ! i)"
      "initial_priority (procs s ! i) \<le> INIT_PRIORITY T"
      using ok 2(1) by (simp_all add: acct_ok_def)
    show ?thesis by (rule acct_step_slot [OF 2(2) ok]) (use 2(3,4) i in auto)
  qed
qed

lemma acct_step_timer:
  assumes ok: "acct_ok T s"
  shows "acct_step T x s (timer_tick c s)"
proof -
  define t where "t = (if c = 0 then wakeup (Some Ch_ticks) (s\<lparr>ticks := ticks s + 1\<rparr>) else s)"
  have vt: "view acct t = view acct s" by (simp add: t_def wakeup_def acct_def)
  have okt: "acct_ok T t" using acct_step_keep [OF vt ok, of 0] by (simp add: acct_step_def)
  have st: "state (proc_at s j) = RUNNABLE \<longrightarrow> state (proc_at t j) = RUNNABLE" if "j < NPROC" for j
    using that ok by (simp add: t_def wakeup_def wakeup1_nth acct_ok_def Let_def)
  have "acct_step T x t (timer_tick c s)"
  proof (cases "\<exists>i. cpu_proc t c = Some i \<and> state (proc_at t i) = RUNNING \<and> suspended (proc_at t i) = 0")
    case False
    then have "timer_tick c s = t"
      by (auto simp: timer_tick_def t_def [symmetric] Let_def split: option.split)
    then show ?thesis using okt acct_step_keep by simp
  next
    case True
    then obtain i where i: "cpu_proc t c = Some i" "state (proc_at t i) = RUNNING"
      "suspended (proc_at t i) = 0" by blast
    define u where "u = upd_proc i (\<lambda>p. p\<lparr>total_ticks := total_ticks p + 1\<rparr>) t"
    have "timer_tick c s = u \<or>
        timer_tick c s = upd_proc i (\<lambda>p. p\<lparr>end_time := ticks_int u, killed := 1\<rparr>) u"
      using i by (simp add: timer_tick_def t_def [symmetric] u_def [symmetric] Let_def)
    then have v: "view acct (timer_tick c s) = view acct u" by (auto simp: acct_def)
    have p: "procs u = (procs t)[i := (proc_at t i)\<lparr>total_ticks := total_ticks (proc_at t i) + 1\<rparr>]"
      by (simp add: u_def)
    have u: "acct_step T x t u"
    proof (cases "i < NPROC")
      case True
      then show ?thesis using okt i(2) acct_step_slot [OF p okt] by (auto simp: acct_ok_def)
    next
      case False
      then have "procs u = procs t" using p okt by (simp add: acct_ok_def list_update_beyond)
      then show ?thesis using okt by (simp add: acct_step_keep view_def)
    qed
    then have "acct_ok T u" by (simp add: acct_step_def)
    then have "acct_step T x u (timer_tick c s)" by (rule acct_step_keep [OF v])
    moreover have "acct (proc_at (timer_tick c s) j) = acct (proc_at u j)" if "j < NPROC" for j
      using view_nth [OF v, of j] that okt by (simp add: u_def acct_ok_def)
    ultimately show ?thesis using u by (simp add: acct_step_def acct_def)
  qed
  moreover have "acct (proc_at t j) = acct (proc_at s j)" if "j < NPROC" for j
    using view_nth [OF vt, of j] that ok by (simp add: acct_ok_def)
  ultimately show ?thesis using st by (auto simp: acct_step_def acct_def)
qed

lemma acct_step_op:
  assumes "kstep T k s s'" and ok: "acct_ok T s" and k: "k \<noteq> K_round"
  shows "acct_step T x s s'"
  using assms(1)
proof cases
  case (fork c cur kst pgd r)
  then show ?thesis using ok fork_fresh acct_step_fresh by blast
next
  case (custom_fork c cur kst pgd later etime r)
  then show ?thesis using ok custom_fork_fresh acct_step_fresh by blast
next
  case (start c cur r)
  then have "s' = snd (sys_scheduler_start s)" by simp
  then have "view acct s' = view acct s" by (simp add: sys_scheduler_start_def view_def acct_def)
  then show ?thesis using ok acct_step_keep by blast
next
  case (growproc c cur al de n r)
  then have "view acct s' = view acct s" by (auto simp: acct_def growproc_def Let_def split: if_splits)
  then show ?thesis using ok acct_step_keep by blast
next
  case (exit c cur t)
  obtain u where "view acct u = view acct s" "t = upd_proc cur (\<lambda>p. p\<lparr>state := ZOMBIE\<rparr>) u"
    by (rule exit_mid [OF exit(5), of acct]) (auto simp: acct_def)
  then have "view acct s' = view acct s" by (simp add: exit(2) acct_def)
  then show ?thesis using ok acct_step_keep by blast
next
  case (wait c cur r)
  from wait(4) show ?thesis
  proof (cases rule: wait_round_reap)
    case (reap i p)
    then show ?thesis using ok acct_step_slot [OF reap(5) ok] by (simp add: acct_ok_def)
  qed (use ok in \<open>simp_all add: acct_step_keep\<close>)
next
  case (wait_sleep c cur t)
  from wait_sleep(5) have "t = upd_proc cur (\<lambda>p. p\<lparr>chan := Some (Ch_proc cur), state := SLEEPING\<rparr>) s"
    by (cases rule: wait_round_reap) auto
  then have "view acct s' = view acct s" by (simp add: wait_sleep(2) acct_def)
  then show ?thesis using ok acct_step_keep by blast
next
  case (sleep c cur ch t)
  then have "view acct s' = view acct s" by (auto simp: acct_def sleep_def)
  then show ?thesis using ok acct_step_keep by blast
next
  case (kill pd r)
  have "view acct s' = view acct s" by (rule view_kill(1) [OF kill(2)]) (simp_all add: acct_def)
  then show ?thesis using ok acct_step_keep by blast
next
  case (sendsig g)
  then have "view acct s' = view acct s" by (simp add: view_sendsig_state acct_def)
  then show ?thesis using ok acct_step_keep by blast
next
  case (timer c)
  then show ?thesis using acct_step_timer ok by blast
next
  case (signal c cur h r)
  then have "view acct s' = view acct s" by (auto simp: acct_def sys_signal_def split: option.splits)
  then show ?thesis using ok acct_step_keep by blast
next
  case (yield c cur)
  then have "view acct s' = view acct s" by (simp add: acct_def yield_def)
  then show ?thesis using ok acct_step_keep by blast
next
  case (tidy c cur)
  then have "view acct s' = view acct s" by (simp add: acct_def sleep_tidy_def)
  then show ?thesis using ok acct_step_keep by blast
next
  case (wakeup ch)
  then have "view acct s' = view acct s" by (simp add: acct_def wakeup_def)
  then show ?thesis using ok acct_step_keep by blast
next
  case (deliver c cur ok')
  then have "view acct s' = view acct s" by (simp add: acct_def deliver_signal_def Let_def)
  then show ?thesis using ok acct_step_keep by blast
qed (use k in simp)

section \<open>A round\<close>

text \<open>A slot whose process may be chosen now.\<close>

definition ready :: "nat \<Rightarrow> ptable \<Rightarrow> bool" where
  "ready x s \<longleftrightarrow> x < NPROC \<and> eligible (proc_at s x)"

lemma dispatch_nth:
  assumes "i < length (procs t)"
  shows "waiting_time (proc_at (dispatch c i t) j) = (if j = i then 0 else waiting_time (proc_at t j))"
    and "total_ticks (proc_at (dispatch c i t) j) = total_ticks (proc_at t j)"
    and "initial_priority (proc_at (dispatch c i t) j) = initial_priority (proc_at t j)"
    and "state (proc_at (dispatch c i t) j) = (if j = i then RUNNING else state (proc_at t j))"
  using assms by (auto simp: dispatch_def Let_def nth_update split: option.split)

lemma waiting_aged:
  "waiting_time (expire now (age T p)) =
     waiting_time p + (if state p = RUNNABLE \<and> suspended p = 0 then 1 else 0)"
  by (simp add: expire_def age_def)

lemma aged_same:
  "total_ticks (expire now (age T p)) = total_ticks p"
  "initial_priority (expire now (age T p)) = initial_priority p"
  by (simp_all add: expire_def age_def)

lemma aged_dynamic:
  "eligible (expire now (age T p)) \<Longrightarrow> dynamic_priority (expire now (age T p)) =
     initial_priority p - ALPHA T * total_ticks p + BETA T * (waiting_time p + 1)"
  "eligible (expire now (age T p)) \<Longrightarrow> waiting_time (expire now (age T p)) = waiting_time p + 1"
  by (auto simp: eligible_expire) (auto simp: expire_def age_def eligible_def expired_def split: if_splits)

text \<open>
  The round of a ready process \<open>x\<close> that is not chosen: \<open>x\<close> gains a round of waiting, some
  other slot that had waited about as long is put back to zero.
\<close>

lemma round_loses:
  assumes ok: "acct_ok T s" and x: "ready x s" "ready x (scheduler_round T c s)"
    and top: "initial_priority (proc_at s x) = INIT_PRIORITY T"
    and pos: "0 < BETA T" "0 \<le> ALPHA T"
  obtains i where "i < NPROC" "i \<noteq> x"
    "waiting_time (proc_at s x) - waiting_time (proc_at s i)
       \<le> ALPHA T * total_ticks (proc_at s x) div BETA T"
    "waiting_time (proc_at (scheduler_round T c s) i) = 0"
    "\<And>j. j < NPROC \<Longrightarrow> waiting_time (proc_at (scheduler_round T c s) j) \<le> waiting_time (proc_at s j) + 1"
    "acct (proc_at (scheduler_round T c s) x) = (waiting_time (proc_at s x) + 1,
       total_ticks (proc_at s x), initial_priority (proc_at s x))"
    "acct_ok T (scheduler_round T c s)"
proof -
  let ?s' = "scheduler_round T c s"
  have xp: "x < NPROC" "eligible (proc_at s x)" using x(1) by (simp_all add: ready_def)
  have len: "length (procs s) = NPROC" using ok by (simp add: acct_ok_def)
  have el: "eligible (expire now (age T p)) \<longleftrightarrow> eligible p" for now p
    by (simp add: eligible_expire) (simp add: eligible_def age_def expired_def)
  show thesis
  proof (cases rule: round_cases [of T s c])
    case (idle t)
    then have "eligible (proc_at t x)" "x < length (procs t)"
      using pick_selD(1) [OF idle(1)] xp len by (simp_all add: el)
    then show thesis using pick_None [OF idle(1)] by blast
  next
    case (run t i)
    note t = pick_selD(1) [OF run(1)]
    have lt: "length (procs t) = NPROC" by (simp add: t len)
    have i: "i < NPROC" "eligible (proc_at t i)" using pick_Some(1,2) [OF run(1)] lt by simp_all
    have ix: "i \<noteq> x"
      using x(2) run(2) dispatch_nth(4) [of i t c x] i lt by (auto simp: ready_def eligible_def)
    have xt: "eligible (proc_at t x)" using xp len by (simp add: t el)
    have "\<not> beats (proc_at t x) (proc_at t i)" using pick_Some(3) [OF run(1)] xt xp lt by simp
    then have "dynamic_priority (proc_at t x) \<le> dynamic_priority (proc_at t i)"
      by (auto simp: beats_def)
    then have "INIT_PRIORITY T - ALPHA T * total_ticks (proc_at s x) + BETA T * (waiting_time (proc_at s x) + 1)
        \<le> initial_priority (proc_at s i) - ALPHA T * total_ticks (proc_at s i)
            + BETA T * (waiting_time (proc_at s i) + 1)"
      using xt i xp len top by (simp add: t aged_dynamic)
    moreover have "initial_priority (proc_at s i) \<le> INIT_PRIORITY T" "0 \<le> ALPHA T * total_ticks (proc_at s i)"
      using ok i pos by (simp_all add: acct_ok_def)
    ultimately have "BETA T * (waiting_time (proc_at s x) - waiting_time (proc_at s i))
        \<le> ALPHA T * total_ticks (proc_at s x)"
      by (simp add: algebra_simps)
    then have lag: "waiting_time (proc_at s x) - waiting_time (proc_at s i)
        \<le> ALPHA T * total_ticks (proc_at s x) div BETA T"
      using pos(1) by (metis mult.commute pos_zdiv_mult_2 zdiv_mono1 nonzero_mult_div_cancel_right order_less_irrefl)
    have w: "waiting_time (proc_at t j) =
        waiting_time (proc_at s j) + (if state (proc_at s j) = RUNNABLE \<and> suspended (proc_at s j) = 0 then 1 else 0)"
      "total_ticks (proc_at t j) = total_ticks (proc_at s j)"
      "initial_priority (proc_at t j) = initial_priority (proc_at s j)" if "j < NPROC" for j
      using that len by (simp_all add: t waiting_aged aged_same)
    have il: "i < length (procs t)" using i lt by simp
    note d = dispatch_nth [OF il, of c]
    show thesis
    proof (rule that [OF i(1) ix lag])
      show "waiting_time (proc_at ?s' i) = 0" by (simp add: run(2) d)
      show "waiting_time (proc_at ?s' j) \<le> waiting_time (proc_at s j) + 1" if "j < NPROC" for j
        using that ok by (simp add: run(2) d w acct_ok_def)
      show "acct (proc_at ?s' x) = (waiting_time (proc_at s x) + 1,
          total_ticks (proc_at s x), initial_priority (proc_at s x))"
        using xp ix by (simp add: run(2) d w acct_def eligible_def)
      show "acct_ok T ?s'"
        using ok lt by (simp add: run(2) d w acct_ok_def)
    qed
  qed
qed

lemma acct_ok_round:
  assumes ok: "acct_ok T s"
  shows "acct_ok T (scheduler_round T c s)"
proof -
  have len: "length (procs s) = NPROC" using ok by (simp add: acct_ok_def)
  show ?thesis
  proof (cases rule: round_cases [of T s c])
    case (idle t)
    then show ?thesis
      using ok len pick_selD(1) [OF idle(1)] by (simp add: acct_ok_def waiting_aged aged_same)
  next
    case (run t i)
    note t = pick_selD(1) [OF run(1)]
    have i: "i < length (procs t)" using pick_Some(1) [OF run(1)] .
    show ?thesis
      using ok len run(2) t dispatch_nth [OF i, of c]
      by (simp add: acct_ok_def waiting_aged aged_same)
  qed
qed

lemma acct_ok_step: "kstep T k s s' \<Longrightarrow> acct_ok T s \<Longrightarrow> acct_ok T s'"
proof (cases "k = K_round")
  case True
  assume "kstep T k s s'" "acct_ok T s"
  then show ?thesis using True by (auto elim!: kstep.cases simp: acct_ok_round)
next
  case False
  assume "kstep T k s s'" "acct_ok T s"
  then show ?thesis using False acct_step_op [of T k s s' 0] by (simp add: acct_step_def)
qed

lemma acct_ok_run: "krun T Q s ops s' \<Longrightarrow> acct_ok T s \<Longrightarrow> acct_ok T s'"
  by (induction rule: krun.induct) (auto intro: acct_ok_step)

lemma acct_ok_boot: "booted T s \<Longrightarrow> 0 \<le> INIT_PRIORITY T \<Longrightarrow> acct_ok T s"
  by (erule boot_shape) (auto simp: acct_ok_def nth_update zero_proc_def NPROC_def)

section \<open>The measure\<close>

definition rivals :: "int \<Rightarrow> nat \<Rightarrow> ptable \<Rightarrow> nat set" where
  "rivals D x s =
     {i. i < NPROC \<and> i \<noteq> x \<and> waiting_time (proc_at s x) - waiting_time (proc_at s i) \<le> D}"

definition lag :: "int \<Rightarrow> nat \<Rightarrow> ptable \<Rightarrow> nat" where
  "lag D x s = nat (D - waiting_time (proc_at s x)) + card (rivals D x s)"

lemma rivals_finite [simp]: "finite (rivals D x s)"
  by (simp add: rivals_def)

lemma lag_bound:
  assumes "x < NPROC" "0 \<le> waiting_time (proc_at s x)"
  shows "lag D x s \<le> nat D + (NPROC - 1)"
proof -
  have "rivals D x s \<subseteq> {..<NPROC} - {x}" by (auto simp: rivals_def)
  then have "card (rivals D x s) \<le> card ({..<NPROC} - {x})" by (intro card_mono) auto
  also have "\<dots> = NPROC - 1" using assms(1) by (simp add: card_Diff_singleton)
  finally show ?thesis using assms(2) by (simp add: lag_def)
qed

lemma lag_op:
  assumes "acct_step T x s s'" "ready x s"
  shows "lag D x s' \<le> lag D x s"
proof -
  have w: "waiting_time (proc_at s' x) = waiting_time (proc_at s x)"
    using assms by (simp add: acct_step_def ready_def eligible_def acct_def)
  have "rivals D x s' \<subseteq> rivals D x s"
  proof
    fix i assume "i \<in> rivals D x s'"
    moreover then have "waiting_time (proc_at s' i) \<le> waiting_time (proc_at s i)"
      using assms(1) by (simp add: rivals_def acct_step_def)
    ultimately show "i \<in> rivals D x s" by (auto simp: rivals_def w)
  qed
  then show ?thesis using w by (simp add: lag_def card_mono)
qed

lemma lag_round:
  assumes i: "i < NPROC" "i \<noteq> x" "waiting_time (proc_at s x) - waiting_time (proc_at s i) \<le> D"
    and w: "waiting_time (proc_at s' i) = 0"
      "\<And>j. j < NPROC \<Longrightarrow> waiting_time (proc_at s' j) \<le> waiting_time (proc_at s j) + 1"
      "waiting_time (proc_at s' x) = waiting_time (proc_at s x) + 1"
  shows "lag D x s' < lag D x s"
proof -
  have sub: "rivals D x s' \<subseteq> rivals D x s"
  proof
    fix j assume j: "j \<in> rivals D x s'"
    then have "waiting_time (proc_at s' j) \<le> waiting_time (proc_at s j) + 1"
      using w(2) by (simp add: rivals_def)
    then show "j \<in> rivals D x s" using j w(3) by (auto simp: rivals_def)
  qed
  then have le: "card (rivals D x s') \<le> card (rivals D x s)" by (simp add: card_mono)
  show ?thesis
  proof (cases "waiting_time (proc_at s x) < D")
    case True
    then show ?thesis using le w(3) by (simp add: lag_def)
  next
    case False
    then have "i \<in> rivals D x s" "i \<notin> rivals D x s'" using i w by (auto simp: rivals_def)
    then have "card (rivals D x s') < card (rivals D x s)"
      using sub by (intro psubset_card_mono) auto
    then show ?thesis using w(3) False by (simp add: lag_def)
  qed
qed

definition rounds :: "kop list \<Rightarrow> nat" where
  "rounds ops = length (filter (\<lambda>k. k = K_round) ops)"

lemma lag_run:
  assumes "krun T (ready x) s0 ops s" and "acct_ok T s0"
    and "initial_priority (proc_at s0 x) = INIT_PRIORITY T" and pos: "0 < BETA T" "0 \<le> ALPHA T"
    and D: "D = ALPHA T * total_ticks (proc_at s0 x) div BETA T"
  shows "acct_ok T s \<and> ready x s \<and> initial_priority (proc_at s x) = INIT_PRIORITY T \<and>
    total_ticks (proc_at s x) = total_ticks (proc_at s0 x) \<and> rounds ops + lag D x s \<le> lag D x s0"
  using assms(1-3) D
proof (induction rule: krun.induct)
  case (nil s)
  then show ?case by (simp add: rounds_def)
next
  case (snoc s ops t k u)
  then have t: "acct_ok T t" "ready x t" "initial_priority (proc_at t x) = INIT_PRIORITY T"
    "total_ticks (proc_at t x) = total_ticks (proc_at s x)" "rounds ops + lag D x t \<le> lag D x s"
    by simp_all
  show ?case
  proof (cases "k = K_round")
    case False
    then have st: "acct_step T x t u" using acct_step_op snoc.hyps(2) t(1) by blast
    then have "acct (proc_at u x) = acct (proc_at t x)" "acct_ok T u"
      using t(2) by (auto simp: acct_step_def ready_def eligible_def)
    then show ?thesis
      using lag_op [OF st t(2), of D] t snoc.hyps(3) False by (simp add: acct_def rounds_def)
  next
    case True
    then obtain c where u: "u = scheduler_round T c t"
      using snoc.hyps(2) by (auto elim: kstep.cases)
    obtain i where i: "i < NPROC" "i \<noteq> x"
      "waiting_time (proc_at t x) - waiting_time (proc_at t i)
         \<le> ALPHA T * total_ticks (proc_at t x) div BETA T"
      "waiting_time (proc_at u i) = 0"
      "\<And>j. j < NPROC \<Longrightarrow> waiting_time (proc_at u j) \<le> waiting_time (proc_at t j) + 1"
      "acct (proc_at u x) = (waiting_time (proc_at t x) + 1, total_ticks (proc_at t x),
         initial_priority (proc_at t x))" "acct_ok T u"
      using round_loses [OF t(1,2) _ t(3) pos, of c] snoc.hyps(3) unfolding u by blast
    have "lag D x u < lag D x t"
      by (rule lag_round [OF i(1,2) _ i(4,5)]) (use i(3,6) t(4) snoc.prems in \<open>simp_all add: acct_def\<close>)
    then show ?thesis using i(6,7) t snoc.hyps(3) True by (simp add: acct_def rounds_def)
  qed
qed

text \<open>
  C2: no starvation.  While a process stays ready (runnable, not suspended, not past its time
  limit), the CPUs together can go through at most \<open>ALPHA * total_ticks div BETA + 63\<close> rounds of
  the scheduler without choosing it, whatever the other processes and the kernel do meanwhile.
\<close>

theorem no_starvation:
  assumes "booted T b" and "kreach T b before s0"
    and "0 < BETA T" and "0 \<le> ALPHA T" and "0 \<le> INIT_PRIORITY T"
    and "initial_priority (proc_at s0 x) = INIT_PRIORITY T"
    and "krun T (ready x) s0 ops s"
  shows "rounds ops \<le> nat (ALPHA T * total_ticks (proc_at s0 x) div BETA T) + (NPROC - 1)"
proof -
  let ?D = "ALPHA T * total_ticks (proc_at s0 x) div BETA T"
  have ok: "acct_ok T s0" using assms acct_ok_boot acct_ok_run by blast
  have "ready x s0" using assms(7) by (induction rule: krun.induct) auto
  then have "x < NPROC" "0 \<le> waiting_time (proc_at s0 x)" using ok by (simp_all add: ready_def acct_ok_def)
  then have "lag ?D x s0 \<le> nat ?D + (NPROC - 1)" by (rule lag_bound)
  then show ?thesis using lag_run [OF assms(7) ok assms(6,3,4) refl] by simp
qed

section \<open>Expiry in the scheduler\<close>

text \<open>
  A process whose time limit is over while it waits in the run queue is made a zombie by the
  scheduler itself: its files stay open, its children keep it as parent, and nobody is woken, so a
  parent asleep in \<open>wait\<close> stays asleep.
\<close>

theorem expiry_skips_exit:
  assumes "i < length (procs s)" and "state (proc_at s i) = RUNNABLE" and "suspended (proc_at s i) = 0"
    and "expired (proc_at s i)" and "pick T s = (t, r)"
  shows "state (proc_at t i) = ZOMBIE \<and> ofile (proc_at t i) = ofile (proc_at s i) \<and>
     cwd (proc_at t i) = cwd (proc_at s i) \<and> calls t = calls s \<and>
     (\<forall>q < length (procs s). parent (proc_at t q) = parent (proc_at s q) \<and>
        (state (proc_at s q) = SLEEPING \<longrightarrow> state (proc_at t q) = SLEEPING))"
  using assms pick_selD(1) [OF assms(5)] pick_sel(6) [of T s]
  by (simp add: expire_def age_def expired_def)

theorem expiry_skips_exit_witness:
  "state (proc_at (fst (pick make_tunables (boot_table\<lparr>procs :=
      [zero_proc\<lparr>pid := 3, state := SLEEPING, chan := Some (Ch_proc 0)\<rparr>,
       zero_proc\<lparr>pid := 4, parent := Some 0, state := RUNNABLE, exec_time := 5, total_ticks := 5\<rparr>]\<rparr>))) 0)
   = SLEEPING"
proof -
  let ?s = "boot_table\<lparr>procs :=
      [zero_proc\<lparr>pid := 3, state := SLEEPING, chan := Some (Ch_proc 0)\<rparr>,
       zero_proc\<lparr>pid := 4, parent := Some 0, state := RUNNABLE, exec_time := 5, total_ticks := 5\<rparr>]\<rparr>"
  show ?thesis
    using expiry_skips_exit [of 1 ?s make_tunables "fst (pick make_tunables ?s)" "snd (pick make_tunables ?s)"]
    by (simp add: expired_def zero_proc_def)
qed

section \<open>A concrete run\<close>

text \<open>
  Boot, a round of CPU 0, two forks by init, and a round of CPU 1: the first child is dispatched
  there and the second one waits.
\<close>

definition demo0 :: ptable where
  "demo0 = (case userinit make_tunables 4096 8192 None boot_table of Val s \<Rightarrow> s | _ \<Rightarrow> boot_table)"

definition demo1 :: ptable where
  "demo1 = scheduler_round make_tunables 0 demo0"

definition demo2 :: ptable where
  "demo2 = snd (fork make_tunables 4096 8192 0 demo1)"

definition demo3 :: ptable where
  "demo3 = snd (fork make_tunables 4096 8192 0 demo2)"

definition demo4 :: ptable where
  "demo4 = scheduler_round make_tunables 1 demo3"

lemma demo_booted: "booted make_tunables demo0"
proof -
  have "returns (userinit make_tunables 4096 8192 None boot_table)" by code_simp
  then obtain s where "userinit make_tunables 4096 8192 None boot_table = Val s"
    by (auto simp: returns_iff)
  then show ?thesis unfolding booted_def demo0_def by (intro exI [of _ 4096] exI [of _ 8192] exI [of _ None]) simp
qed

text \<open>A fork that does not fail fills the first free slot with a fresh runnable process.\<close>

lemma fork_slot:
  assumes "scan (\<lambda>p. state p = UNUSED) (procs s) = Some i" "kst \<noteq> 0" "pgd \<noteq> 0"
  shows "\<exists>p. procs (snd (fork T kst pgd cur s)) = (procs s)[i := p] \<and> state p = RUNNABLE \<and>
      pid p = nextpid s \<and> suspended p = 0 \<and> exec_time p = - 1 \<and> total_ticks p = 0 \<and>
      waiting_time p = 0 \<and> initial_priority p = INIT_PRIORITY T"
    and "nextpid (snd (fork T kst pgd cur s)) = nextpid s + 1"
    and "cpu_proc (snd (fork T kst pgd cur s)) = cpu_proc s"
  using assms scan_SomeD(1) [OF assms(1)]
  by (auto simp: fork_def allocproc_def dup_files_def Let_def)

lemma demo0_slots:
  "length (procs demo0) = 64" "eligible (proc_at demo0 0)" "pid (proc_at demo0 0) = 1"
  "0 < j \<Longrightarrow> j < 64 \<Longrightarrow> state (proc_at demo0 j) = UNUSED" "cpu_proc demo0 = (\<lambda>c. None)"
  "nextpid demo0 = 2"
proof -
  obtain p where p: "procs demo0 = (replicate NPROC zero_proc)[0 := p]" "pid p = 1" "nextpid demo0 = 2"
    "state p = RUNNABLE" "cpu_proc demo0 = (\<lambda>c. None)" "suspended p = 0" "exec_time p = - 1"
    using boot_shape [OF demo_booted] by metis
  show "length (procs demo0) = 64" "eligible (proc_at demo0 0)" "pid (proc_at demo0 0) = 1"
    "cpu_proc demo0 = (\<lambda>c. None)" "nextpid demo0 = 2"
    using p by (simp_all add: NPROC_def eligible_def expired_def)
  show "state (proc_at demo0 j) = UNUSED" if "0 < j" "j < 64"
    using that p(1) by (simp add: NPROC_def zero_proc_def)
qed

text \<open>If slot \<open>i\<close> is the only eligible one, a round dispatches it.\<close>

lemma eligible_aged: "eligible (expire now (age T p)) \<longleftrightarrow> eligible p"
  by (simp add: eligible_expire) (simp add: eligible_def age_def expired_def)

lemma state_aged: "\<not> expired p \<Longrightarrow> state (expire now (age T p)) = state p"
  by (simp add: expire_def age_def expired_def)

lemma round_dispatches:
  assumes i: "i < length (procs s)" "eligible (proc_at s i)"
    and best: "\<And>j. j < length (procs s) \<Longrightarrow> eligible (proc_at s j) \<Longrightarrow> j \<noteq> i \<Longrightarrow>
       beats (expire (ticks_int s) (age T (proc_at s i))) (expire (ticks_int s) (age T (proc_at s j)))"
  obtains t where "pick T s = (t, Some i)" "scheduler_round T c s = dispatch c i t"
proof (cases rule: round_cases [of T s c])
  case (idle t)
  then show thesis using pick_None [OF idle(1), of i] pick_selD(1) [OF idle(1)] i
    by (simp add: eligible_aged)
next
  case (run t j)
  note t = pick_selD(1) [OF run(1)] and p = pick_Some [OF run(1)]
  have "j = i"
  proof (rule ccontr)
    assume "j \<noteq> i"
    then show False using best [of j] p(1,2) p(3) [of i] i by (simp add: t eligible_aged)
  qed
  then show thesis using run that by blast
qed

lemma demo1_slots:
  "length (procs demo1) = 64" "state (proc_at demo1 0) = RUNNING" "pid (proc_at demo1 0) = 1"
  "0 < j \<Longrightarrow> j < 64 \<Longrightarrow> state (proc_at demo1 j) = UNUSED" "cpu_proc demo1 = (\<lambda>c. None)(0 := Some 0)"
  "nextpid demo1 = 2"
proof -
  have only: "j = 0" if "j < length (procs demo0)" "eligible (proc_at demo0 j)" for j
    using that demo0_slots(1) demo0_slots(4) [of j] by (cases "j = 0") (auto simp: eligible_def)
  obtain t where t: "pick make_tunables demo0 = (t, Some 0)" "demo1 = dispatch 0 0 t"
    unfolding demo1_def
    by (rule round_dispatches [where i = 0 and s = demo0 and T = make_tunables and c = 0]) (use only demo0_slots(1,2) in auto)
  note pt = pick_selD [OF t(1)]
  have v: "view pid demo1 = view pid demo0" unfolding demo1_def by (rule view_round) auto
  show len: "length (procs demo1) = 64" using view_length [OF v] demo0_slots by simp
  show "pid (proc_at demo1 0) = 1" using view_nth [OF v, of 0] demo0_slots by simp
  show "cpu_proc demo1 = (\<lambda>c. None)(0 := Some 0)" "nextpid demo1 = 2"
    using pt demo0_slots by (simp_all add: t(2))
  have l: "0 < length (procs t)" using pt(1) demo0_slots by simp
  show "state (proc_at demo1 0) = RUNNING" by (simp add: t(2) dispatch_nth [OF l])
  show "state (proc_at demo1 j) = UNUSED" if "0 < j" "j < 64"
    using that demo0_slots(1,4) pt(1) by (simp add: t(2) dispatch_nth [OF l] expire_def age_def)
qed

lemma demo3_slots:
  "length (procs demo3) = 64" "cpu_proc demo3 = (\<lambda>c. None)(0 := Some 0)"
  "cpu_proc demo2 = (\<lambda>c. None)(0 := Some 0)" "state (proc_at demo3 0) = RUNNING"
  "pid (proc_at demo3 1) = 2" "pid (proc_at demo3 2) = 3"
  "j = 1 \<or> j = 2 \<Longrightarrow> eligible (proc_at demo3 j) \<and> total_ticks (proc_at demo3 j) = 0 \<and>
     waiting_time (proc_at demo3 j) = 0 \<and> initial_priority (proc_at demo3 j) = 10"
  "2 < j \<Longrightarrow> j < 64 \<Longrightarrow> state (proc_at demo3 j) = UNUSED"
proof -
  have s1: "scan (\<lambda>p. state p = UNUSED) (procs demo1) = Some 1"
    using demo1_slots by (simp add: scan_Some)
  note f1 = fork_slot [OF s1, of 4096 8192 make_tunables 0, simplified, folded demo2_def]
  obtain p where p: "procs demo2 = (procs demo1)[1 := p]" "state p = RUNNABLE" "pid p = 2"
      "suspended p = 0" "exec_time p = - 1" "total_ticks p = 0" "waiting_time p = 0"
      "initial_priority p = 10" "nextpid demo2 = 3" "cpu_proc demo2 = cpu_proc demo1"
    using f1 demo1_slots(6) by (auto simp: make_tunables_def)
  have s2: "scan (\<lambda>p. state p = UNUSED) (procs demo2) = Some 2"
    using demo1_slots p(1,2) by (auto simp: scan_Some less_Suc_eq numeral_2_eq_2 nth_list_update)
  note f2 = fork_slot [OF s2, of 4096 8192 make_tunables 0, simplified, folded demo3_def]
  obtain q where q: "procs demo3 = (procs demo2)[2 := q]" "state q = RUNNABLE" "pid q = 3"
      "suspended q = 0" "exec_time q = - 1" "total_ticks q = 0" "waiting_time q = 0"
      "initial_priority q = 10" "cpu_proc demo3 = cpu_proc demo2"
    using f2 p(9) by (auto simp: make_tunables_def)
  show "length (procs demo3) = 64" "cpu_proc demo3 = (\<lambda>c. None)(0 := Some 0)"
    "cpu_proc demo2 = (\<lambda>c. None)(0 := Some 0)" "state (proc_at demo3 0) = RUNNING"
    "pid (proc_at demo3 1) = 2" "pid (proc_at demo3 2) = 3"
    using p q demo1_slots by (simp_all add: nth_list_update)
  show "eligible (proc_at demo3 j) \<and> total_ticks (proc_at demo3 j) = 0 \<and>
     waiting_time (proc_at demo3 j) = 0 \<and> initial_priority (proc_at demo3 j) = 10" if "j = 1 \<or> j = 2"
    using that p q demo1_slots(1) by (auto simp: nth_list_update eligible_def expired_def)
  show "state (proc_at demo3 j) = UNUSED" if "2 < j" "j < 64"
    using that p(1) q(1) demo1_slots(1,4) by (simp add: nth_list_update)
qed

lemma demo_reach3: "kreach make_tunables demo0 ((([] @ [K_round]) @ [K_fork]) @ [K_fork]) demo3"
proof -
  have c: "0 < NCPU" by (simp add: NCPU_def)
  have "kstep make_tunables K_round demo0 demo1"
    unfolding demo1_def by (rule kstep.round) (use c demo0_slots in auto)
  moreover have "kstep make_tunables K_fork demo1 demo2"
    by (rule kstep.fork [of 0 _ 0 _ 4096 8192 "fst (fork make_tunables 4096 8192 0 demo1)"])
      (use c demo1_slots in \<open>auto simp: demo2_def\<close>)
  moreover have "kstep make_tunables K_fork demo2 demo3"
    by (rule kstep.fork [of 0 _ 0 _ 4096 8192 "fst (fork make_tunables 4096 8192 0 demo2)"])
      (use c demo3_slots in \<open>auto simp: demo3_def\<close>)
  moreover have "kreach make_tunables demo0 [] demo0" by (rule krun.nil) simp
  ultimately show ?thesis by (intro krun.snoc) auto
qed

lemma demo4_ready: "ready 2 demo3" "ready 2 demo4"
proof -
  show "ready 2 demo3" using demo3_slots(7) [of 2] by (simp add: ready_def NPROC_def)
  have el: "j = 1 \<or> j = 2" if "j < 64" "eligible (proc_at demo3 j)" for j
    using that demo3_slots(4) demo3_slots(8) [of j] by (cases "j = 0"; cases "2 < j") (auto simp: eligible_def)
  have b: "beats (expire now (age make_tunables (proc_at demo3 1)))
             (expire now (age make_tunables (proc_at demo3 2)))" for now
  proof -
    have e: "eligible (expire now (age make_tunables (proc_at demo3 j)))" if "j = 1 \<or> j = 2" for j
      using demo3_slots(7) [OF that] by (simp add: eligible_aged)
    have "pid (expire now (age T p)) = pid p" for T p by (simp add: expire_def age_def)
    then show ?thesis
      using aged_dynamic(1) [OF e [of 1]] aged_dynamic(1) [OF e [of 2]] demo3_slots(5,6)
        demo3_slots(7) [of 1] demo3_slots(7) [of 2]
      by (simp add: beats_def)
  qed
  obtain t where t: "pick make_tunables demo3 = (t, Some 1)" "demo4 = dispatch 1 1 t"
    unfolding demo4_def
    by (rule round_dispatches [where i = 1 and s = demo3 and T = make_tunables and c = 1])
      (use el b demo3_slots(1) demo3_slots(7) [of 1] in auto)
  have l: "1 < length (procs t)" using pick_selD(1) [OF t(1)] demo3_slots(1) by simp
  have "eligible (proc_at t 2)"
    using pick_selD(1) [OF t(1)] demo3_slots(1) demo3_slots(7) [of 2] by (simp add: eligible_aged)
  moreover have "procs demo4 ! 2 = procs t ! 2 \<or> eligible (procs demo4 ! 2) = eligible (procs t ! 2)"
    using l by (auto simp: t(2) dispatch_def Let_def nth_update eligible_def expired_def split: option.split)
  ultimately show "ready 2 demo4" by (auto simp: ready_def NPROC_def)
qed

lemma demo_waits: "krun make_tunables (ready 2) demo3 ([] @ [K_round]) demo4"
  by (rule krun.snoc, rule krun.nil)
    (use demo4_ready demo3_slots in \<open>auto simp: demo4_def NCPU_def intro!: kstep.round\<close>)

theorem no_starvation_witness:
  "rounds [K_round] \<le> nat (ALPHA make_tunables * total_ticks (proc_at demo3 2) div BETA make_tunables) + (NPROC - 1)
   \<and> krun make_tunables (ready 2) demo3 [K_round] demo4"
  using no_starvation [OF demo_booted demo_reach3 _ _ _ _ demo_waits] demo_waits demo3_slots(7) [of 2]
  by (simp add: make_tunables_def)

theorem pids_distinct_witness:
  "length (procs demo3) = NPROC \<and> pid (proc_at demo3 1) < nextpid demo3"
  using pids_distinct [OF demo_booted demo_reach3] by (simp add: NPROC_def)

theorem one_cpu_per_running_witness:
  "state (proc_at demo3 0) = RUNNING \<longleftrightarrow> (\<exists>c < NCPU. cpu_proc demo3 c = Some 0)"
  using one_cpu_per_running [OF demo_booted demo_reach3] by (simp add: NPROC_def)

theorem scheduler_picks_best_witness:
  "\<exists>t i. pick make_tunables demo3 = (t, Some i) \<and> state (proc_at demo3 i) = RUNNABLE \<and> suspended (proc_at demo3 i) = 0"
proof -
  obtain t r where p: "pick make_tunables demo3 = (t, r)" by fastforce
  have "state (proc_at demo3 1) = RUNNABLE \<and> suspended (proc_at demo3 1) = 0 \<and> 1 < length (procs demo3) \<and>
      \<not> (0 < exec_time (proc_at demo3 1) \<and> exec_time (proc_at demo3 1) \<le> total_ticks (proc_at demo3 1))"
    using demo3_slots(1) demo3_slots(7) [of 1] by (auto simp: eligible_def expired_def)
  then show ?thesis using scheduler_picks_best [OF p] p by (cases r) (auto simp: Let_def)
qed

end
