(* ===== verification/Xv6_Exit.thy ===== *)
theory Xv6_Exit
  imports Xv6_Proc
begin

text \<open>
  The life of one process: what a child gets from \<open>fork\<close>, the exit/wait handshake, and three
  places where the signal, kill and expiry code leave the protocol.
\<close>

section \<open>fork\<close>

text \<open>
  Fork.  When a slot, a kernel stack and an address space are there, the first free slot
  becomes a runnable child with a new pid, the parent's size, name, directory and open files, a
  trapframe that differs from the parent's only in \<open>eax = 0\<close>, and the caller gets the child's pid;
  every shared file and the directory get one more reference, and no other slot changes.
\<close>

theorem fork_child:
  assumes "scan (\<lambda>p. state p = UNUSED) (procs s) = Some i" and "kst \<noteq> 0" and "pgd \<noteq> 0"
    and "cur < length (procs s)" and "cur \<noteq> i"
    and "length (ofile (proc_at s cur)) = 16" and "ofile (proc_at s i) = replicate 16 None"
    and "fork T kst pgd cur s = (r, s')"
  shows "let par = proc_at s cur; ch = proc_at s' i in
     r = nextpid s \<and> nextpid s' = nextpid s + 1 \<and> procs s' = (procs s)[i := ch] \<and>
     state ch = RUNNABLE \<and> pid ch = r \<and> parent ch = Some cur \<and> kstack ch = kst \<and> pgdir ch = pgd \<and>
     sz ch = sz par \<and> tf ch = (tf par)\<lparr>tf_eax := 0\<rparr> \<and> ofile ch = ofile par \<and> cwd ch = cwd par \<and>
     pname ch = safestrcpy (pname (proc_at s i)) (pname par) 16 \<and>
     calls s' = calls s @ map Filedup (map the (filter (\<lambda>f. f \<noteq> None) (ofile par))) @ [Idup (cwd par)]"
proof -
  have i: "i < length (procs s)" using assms(1) by (simp add: scan_Some)
  have z: "map (\<lambda>(f, g). if f \<noteq> None then f else g) (zip fs (replicate 16 None)) = fs"
    if "length fs = 16" for fs :: "nat option list"
    using that by (intro nth_equalityI) auto
  show ?thesis
    using assms i z [OF assms(6)]
    by (auto simp: fork_def allocproc_def dup_files_def Let_def)
qed

section \<open>exit and wait\<close>

lemma reparent_nth:
  assumes "i < length (procs s)" "k < length (procs s)"
  shows "parent (proc_at (reparent_step cur s k) i) =
      (if i = k \<and> parent (proc_at s i) = Some cur then initproc s else parent (proc_at s i))"
    and "pid (proc_at (reparent_step cur s k) i) = pid (proc_at s i)"
    and "kstack (proc_at (reparent_step cur s k) i) = kstack (proc_at s i)"
    and "pgdir (proc_at (reparent_step cur s k) i) = pgdir (proc_at s i)"
    and "state (proc_at s i) \<noteq> SLEEPING \<Longrightarrow> state (proc_at (reparent_step cur s k) i) = state (proc_at s i)"
proof -
  let ?w = "\<lambda>c p. if state p = SLEEPING \<and> chan p = c then p\<lparr>state := RUNNABLE\<rparr> else p"
  let ?p = "if i = k then (proc_at s i)\<lparr>parent := initproc s\<rparr> else proc_at s i"
  have "parent (proc_at s k) = Some cur \<Longrightarrow> proc_at (reparent_step cur s k) i = ?p \<or>
      (\<exists>c. proc_at (reparent_step cur s k) i = ?w c ?p)"
    using assms by (auto simp: reparent_step_def Let_def wakeup1_nth nth_list_update)
  moreover have "parent (proc_at s k) \<noteq> Some cur \<Longrightarrow> reparent_step cur s k = s"
    by (simp add: reparent_step_def)
  ultimately consider "parent (proc_at s k) \<noteq> Some cur" "reparent_step cur s k = s"
    | c where "parent (proc_at s k) = Some cur" "proc_at (reparent_step cur s k) i = ?p \<or>
        proc_at (reparent_step cur s k) i = ?w c ?p"
    by blast
  then show "parent (proc_at (reparent_step cur s k) i) =
      (if i = k \<and> parent (proc_at s i) = Some cur then initproc s else parent (proc_at s i))"
    "pid (proc_at (reparent_step cur s k) i) = pid (proc_at s i)"
    "kstack (proc_at (reparent_step cur s k) i) = kstack (proc_at s i)"
    "pgdir (proc_at (reparent_step cur s k) i) = pgdir (proc_at s i)"
    "state (proc_at s i) \<noteq> SLEEPING \<Longrightarrow> state (proc_at (reparent_step cur s k) i) = state (proc_at s i)"
    by (cases; auto)+
qed

lemma reparent_keeps [simp]:
  "initproc (reparent_step cur s k) = initproc s" "calls (reparent_step cur s k) = calls s"
  by (simp_all add: reparent_step_def Let_def)

lemma reparent_foldl:
  assumes "initproc s \<noteq> Some cur" "k \<le> length (procs s)" "i < length (procs s)"
  shows "let t = foldl (reparent_step cur) s [0..<k] in
     length (procs t) = length (procs s) \<and> initproc t = initproc s \<and>
     parent (proc_at t i) = (if i < k \<and> parent (proc_at s i) = Some cur then initproc s else parent (proc_at s i)) \<and>
     pid (proc_at t i) = pid (proc_at s i) \<and> kstack (proc_at t i) = kstack (proc_at s i) \<and>
     pgdir (proc_at t i) = pgdir (proc_at s i) \<and> calls t = calls s \<and>
     (state (proc_at s i) \<noteq> SLEEPING \<longrightarrow> state (proc_at t i) = state (proc_at s i))"
  using assms(2)
proof (induction k)
  case 0
  then show ?case by simp
next
  case (Suc k)
  let ?t = "foldl (reparent_step cur) s [0..<k]"
  have t: "length (procs ?t) = length (procs s)" "initproc ?t = initproc s"
    "parent (proc_at ?t i) = (if i < k \<and> parent (proc_at s i) = Some cur then initproc s else parent (proc_at s i))"
    "pid (proc_at ?t i) = pid (proc_at s i)" "kstack (proc_at ?t i) = kstack (proc_at s i)"
    "pgdir (proc_at ?t i) = pgdir (proc_at s i)" "calls ?t = calls s"
    "state (proc_at s i) \<noteq> SLEEPING \<longrightarrow> state (proc_at ?t i) = state (proc_at s i)"
    using Suc by (simp_all add: Let_def)
  have "k < length (procs ?t)" "i < length (procs ?t)" using Suc(2) t(1) assms(3) by simp_all
  then show ?case
    using t assms(1) by (simp add: reparent_nth less_Suc_eq) blast
qed

text \<open>
  C18: the exit/wait handshake.  A process that exits becomes a zombie that keeps its pid and its
  parent; a parent that sleeps in \<open>wait\<close> is made runnable; every child of the exiting process is
  handed to init; and the parent's next round of \<open>wait\<close> does not sleep: it returns the pid of a
  zombie child (of this one when it is the only one), frees its stack and page table and its slot.
\<close>

theorem exit_wait_handshake:
  assumes "exit cur s = Val s'"
    and "cur < length (procs s)" and "q < length (procs s)" and "q \<noteq> cur"
    and "parent (proc_at s cur) = Some q"
  shows "state (proc_at s' cur) = ZOMBIE \<and> pid (proc_at s' cur) = pid (proc_at s cur) \<and>
     parent (proc_at s' cur) = Some q \<and>
     (state (proc_at s q) = SLEEPING \<and> chan (proc_at s q) = Some (Ch_proc q) \<longrightarrow>
        state (proc_at s' q) = RUNNABLE) \<and>
     (\<forall>i < length (procs s). parent (proc_at s i) = Some cur \<longrightarrow> parent (proc_at s' i) = initproc s) \<and>
     (\<exists>z t. wait_round q s' = (Wait_returns (pid (proc_at s' z)), t) \<and> z < length (procs s') \<and>
        state (proc_at s' z) = ZOMBIE \<and> parent (proc_at s' z) = Some q \<and> state (proc_at t z) = UNUSED \<and>
        calls t = calls s' @ [Kfree (kstack (proc_at s' z)), Freevm (pgdir (proc_at s' z))] \<and>
        ((\<forall>i < length (procs s). i \<noteq> cur \<and> parent (proc_at s' i) = Some q \<longrightarrow>
            state (proc_at s' i) \<noteq> ZOMBIE) \<longrightarrow> z = cur))"
proof -
  define a where "a = close_files cur s"
  define b where "b = upd_proc cur (\<lambda>p. p\<lparr>cwd := None\<rparr>)
                        (call [Begin_op, Iput (cwd (proc_at a cur)), End_op] a)"
  define d where "d = upd_proc cur (\<lambda>p. p\<lparr>end_time := ticks_int b\<rparr>) b"
  define e where "e = call (exit_report (proc_at d cur)) d"
  define u where "u = wakeup1 (map_option Ch_proc (parent (proc_at d cur))) e"
  define t where "t = foldl (reparent_step cur) u [0..<length (procs u)]"
  have init: "initproc s \<noteq> Some cur" using assms(1) by (auto simp: exit_def split: if_splits)
  have s': "s' = upd_proc cur (\<lambda>p. p\<lparr>state := ZOMBIE\<rparr>) t"
    using assms(1) unfolding exit_def Let_def a_def b_def d_def e_def u_def t_def
    by (simp split: if_splits del: upd_proc_sel)
  have len: "length (procs e) = length (procs s)" "initproc e = initproc s"
    by (simp_all add: a_def b_def d_def e_def close_files_def)
  have eq: "parent (proc_at e i) = parent (proc_at s i)" "pid (proc_at e i) = pid (proc_at s i)"
      "state (proc_at e i) = state (proc_at s i)" "chan (proc_at e i) = chan (proc_at s i)"
    if "i < length (procs s)" for i
    using that assms(2) by (auto simp: a_def b_def d_def e_def close_files_def nth_list_update)
  have d: "parent (proc_at d cur) = Some q" using assms(2,5) eq(1) [of cur] by (simp add: e_def)
  have ulen: "length (procs u) = length (procs s)" "initproc u = initproc s"
    using len by (simp_all add: u_def)
  have uq: "state (proc_at s q) = SLEEPING \<and> chan (proc_at s q) = Some (Ch_proc q) \<longrightarrow>
      state (proc_at u q) = RUNNABLE"
    using eq(3,4) [OF assms(3)] len assms(3) d by (simp add: u_def wakeup1_nth Let_def)
  have ue: "parent (proc_at u i) = parent (proc_at s i)" "pid (proc_at u i) = pid (proc_at s i)"
    if "i < length (procs s)" for i
    using that eq(1,2) [OF that] len by (simp_all add: u_def wakeup1_nth Let_def)
  have t: "length (procs t) = length (procs s)"
    "parent (proc_at t i) = (if parent (proc_at s i) = Some cur then initproc s else parent (proc_at s i))"
    "pid (proc_at t i) = pid (proc_at s i)"
    "state (proc_at u i) \<noteq> SLEEPING \<longrightarrow> state (proc_at t i) = state (proc_at u i)"
    if "i < length (procs s)" for i
    using reparent_foldl [of u cur "length (procs u)" i] init ulen ue that
    by (simp_all add: t_def Let_def)
  note tl = t(1) [OF assms(2)]
  have cur: "state (proc_at s' cur) = ZOMBIE" "pid (proc_at s' cur) = pid (proc_at s cur)"
    "parent (proc_at s' cur) = Some q" "cur < length (procs s')" "length (procs s') = length (procs s)"
    using t [OF assms(2)] assms(2,4,5) by (simp_all add: s')
  have q: "state (proc_at s q) = SLEEPING \<and> chan (proc_at s q) = Some (Ch_proc q) \<longrightarrow>
      state (proc_at s' q) = RUNNABLE"
    using uq t(4) [OF assms(3)] assms(4) by (simp add: s')
  have ch: "parent (proc_at s' i) = initproc s" if "i < length (procs s)" "parent (proc_at s i) = Some cur" for i
    using t(2) [OF that(1)] that tl by (cases "i = cur") (simp_all add: s')
  obtain z where z: "scan (\<lambda>p. parent p = Some q \<and> state p = ZOMBIE) (procs s') = Some z"
    using scan_exists [OF cur(4), of "\<lambda>p. parent p = Some q \<and> state p = ZOMBIE"] cur by blast
  note zz = scan_SomeD(1,2) [OF z]
  obtain w where w: "wait_round q s' = (Wait_returns (pid (proc_at s' z)), w)"
    "state (proc_at w z) = UNUSED"
    "calls w = calls s' @ [Kfree (kstack (proc_at s' z)), Freevm (pgdir (proc_at s' z))]"
    using z zz by (simp add: wait_round_def Let_def)
  have "z = cur" if "\<forall>i < length (procs s). i \<noteq> cur \<and> parent (proc_at s' i) = Some q \<longrightarrow>
            state (proc_at s' i) \<noteq> ZOMBIE"
    using that zz cur(5) by metis
  then show ?thesis using cur q ch w zz by blast
qed

text \<open>The hypotheses of the two theorems hold in a table of two processes.\<close>

definition ex_proc :: proc where
  "ex_proc = \<lparr>sz = 4096, pgdir = 7, kstack = 9, state = RUNNING, pid = 3, parent = None,
     tf = zero_tf, at_forkret = False, chan = None, killed = 0, ofile = replicate 16 None,
     cwd = None, pname = ''sh'' @ replicate 14 NUL, suspended = 0, sighandler = 0, sig_pending = 0,
     start_later = 0, exec_time = - 1, creation_time = 0, start_time = 0, end_time = 0,
     total_ticks = 0, waiting_time = 0, context_switches = 0, first_scheduled = 1,
     response_time = 0, initial_priority = 10, dynamic_priority = 10\<rparr>"

definition ex_table :: "proc list \<Rightarrow> ptable" where
  "ex_table ps = \<lparr>procs = ps, nextpid = 9, initproc = Some 7, ticks = 0,
     cpu_proc = (\<lambda>c. None)(0 := Some 0), prev_proc = (\<lambda>c. None), calls = []\<rparr>"

theorem fork_child_witness:
  "\<exists>r s'. fork make_tunables 5 6 0 (ex_table [ex_proc, ex_proc\<lparr>state := UNUSED, pid := 0\<rparr>]) = (r, s') \<and>
     r = 9 \<and> state (proc_at s' 1) = RUNNABLE \<and> tf_eax (tf (proc_at s' 1)) = 0"
proof -
  let ?s = "ex_table [ex_proc, ex_proc\<lparr>state := UNUSED, pid := 0\<rparr>]"
  obtain r s' where f: "fork make_tunables 5 6 0 ?s = (r, s')" by fastforce
  have "r = 9 \<and> state (proc_at s' 1) = RUNNABLE \<and> tf_eax (tf (proc_at s' 1)) = 0"
    using fork_child [of ?s 1 5 6 0 make_tunables r s'] f
    by (simp add: ex_table_def ex_proc_def Let_def)
  with f show ?thesis by blast
qed

theorem exit_wait_handshake_witness:
  "\<exists>s'. exit 1 (ex_table [ex_proc\<lparr>state := SLEEPING, chan := Some (Ch_proc 0)\<rparr>,
                       ex_proc\<lparr>pid := 4, parent := Some 0\<rparr>]) = Val s' \<and>
        state (proc_at s' 0) = RUNNABLE \<and> state (proc_at s' 1) = ZOMBIE"
proof -
  let ?s = "ex_table [ex_proc\<lparr>state := SLEEPING, chan := Some (Ch_proc 0)\<rparr>,
                       ex_proc\<lparr>pid := 4, parent := Some 0\<rparr>]"
  obtain s' where e: "exit 1 ?s = Val s'" by (simp add: exit_def ex_table_def Let_def)
  have "state (proc_at s' 0) = RUNNABLE \<and> state (proc_at s' 1) = ZOMBIE"
    using exit_wait_handshake [OF e, of 0] by (simp add: ex_table_def ex_proc_def)
  with e show ?thesis by blast
qed

section \<open>Departures\<close>

lemma sigbg_nth:
  assumes "i < length (procs s)" "2 < pid (proc_at s i)"
  shows "state (proc_at (sigbg_step s k) i) = state (proc_at s i)"
    and "pid (proc_at (sigbg_step s k) i) = pid (proc_at s i)"
    and "suspended (proc_at (sigbg_step s k) i) = (if i = k then 1 else suspended (proc_at s i))"
    and "cpu_proc (sigbg_step s k) = cpu_proc s"
proof -
  have "i \<noteq> k \<Longrightarrow> proc_at (sigbg_step s k) i = proc_at s i"
    by (simp add: sigbg_step_def Let_def split: option.split)
  moreover have "proc_at (sigbg_step s i) i = (proc_at s i)\<lparr>suspended := 1\<rparr> \<or>
      proc_at (sigbg_step s i) i = (proc_at s i)\<lparr>parent := Some 0, suspended := 1\<rparr>"
    using assms by (auto simp: sigbg_step_def Let_def split: option.split)
  ultimately show "state (proc_at (sigbg_step s k) i) = state (proc_at s i)"
    "pid (proc_at (sigbg_step s k) i) = pid (proc_at s i)"
    "suspended (proc_at (sigbg_step s k) i) = (if i = k then 1 else suspended (proc_at s i))"
    by (cases "i = k"; auto)+
  show "cpu_proc (sigbg_step s k) = cpu_proc s"
    by (simp add: sigbg_step_def Let_def split: option.split)
qed

lemma sigbg_foldl:
  assumes "k \<le> length (procs s)" "i < length (procs s)" "2 < pid (proc_at s i)"
  shows "let t = foldl sigbg_step s [0..<k] in
     length (procs t) = length (procs s) \<and> cpu_proc t = cpu_proc s \<and>
     state (proc_at t i) = state (proc_at s i) \<and> pid (proc_at t i) = pid (proc_at s i) \<and>
     (i < k \<longrightarrow> suspended (proc_at t i) = 1)"
  using assms(1)
proof (induction k)
  case 0
  then show ?case by simp
next
  case (Suc k)
  let ?t = "foldl sigbg_step s [0..<k]"
  have t: "length (procs ?t) = length (procs s)" "cpu_proc ?t = cpu_proc s"
    "state (proc_at ?t i) = state (proc_at s i)" "pid (proc_at ?t i) = pid (proc_at s i)"
    "i < k \<longrightarrow> suspended (proc_at ?t i) = 1"
    using Suc by (simp_all add: Let_def)
  show ?case
    using sigbg_nth [of i ?t k] t assms(2,3) by (auto simp: less_Suc_eq)
qed

text \<open>
  C21: SIGFG runs a process twice.  Ctrl-B suspends every process above the shell where it is,
  RUNNING ones included, and Ctrl-F then marks them RUNNABLE although their CPU is still executing
  them.  The next CPU whose round picks such a process dispatches it: two CPUs have the same
  process, on one kernel stack.
\<close>

theorem sigfg_double_dispatch:
  assumes "i < length (procs s)" and "2 < pid (proc_at s i)" and "state (proc_at s i) = RUNNING"
    and "cpu_proc s c = Some i" and "d \<noteq> c"
    and "pick T (sendsig 3 (sendsig 2 s)) = (t, Some i)"
  shows "state (proc_at (sendsig 3 (sendsig 2 s)) i) = RUNNABLE \<and>
     cpu_proc (scheduler_round T d (sendsig 3 (sendsig 2 s))) c = Some i \<and>
     cpu_proc (scheduler_round T d (sendsig 3 (sendsig 2 s))) d = Some i"
proof -
  let ?b = "sendsig 2 s" and ?f = "sendsig 3 (sendsig 2 s)"
  have b: "length (procs ?b) = length (procs s)" "cpu_proc ?b = cpu_proc s"
    "state (proc_at ?b i) = RUNNING" "suspended (proc_at ?b i) = 1"
    using sigbg_foldl [of "length (procs s)" s i] assms(1-3) by (simp_all add: sendsig_def Let_def)
  have f: "state (proc_at ?f i) = RUNNABLE" "cpu_proc ?f = cpu_proc s"
    using b assms(1) by (simp_all add: sendsig_def [of 3] sigfg_proc_def)
  have t: "cpu_proc t = cpu_proc s"
    using assms(6) f(2) by (auto simp: pick_def split: prod.splits)
  have "cpu_proc (dispatch d i t) = (cpu_proc t)(d := Some i)"
    by (simp add: dispatch_def Let_def split: option.split)
  then show ?thesis using f assms(4,5,6) t by (simp add: scheduler_round_def)
qed

theorem sigfg_double_dispatch_witness:
  "cpu_proc (scheduler_round make_tunables 1 (sendsig 3 (sendsig 2 (ex_table [ex_proc])))) 0 = Some 0 \<and>
   cpu_proc (scheduler_round make_tunables 1 (sendsig 3 (sendsig 2 (ex_table [ex_proc])))) 1 = Some 0"
proof -
  let ?s = "ex_table [ex_proc]"
  have "snd (pick make_tunables (sendsig 3 (sendsig 2 ?s))) = Some 0" by code_simp
  then have "pick make_tunables (sendsig 3 (sendsig 2 ?s)) =
      (fst (pick make_tunables (sendsig 3 (sendsig 2 ?s))), Some 0)"
    by (metis prod.collapse)
  then show ?thesis
    using sigfg_double_dispatch [of 0 ?s 0 1] by (simp add: ex_table_def ex_proc_def)
qed

text \<open>
  A free slot can be killed.  \<open>kill(0)\<close> finds a free slot (its pid is 0), reports success and
  sets \<open>killed\<close> there; neither \<open>allocproc\<close> nor \<open>fork\<close> clears it, so the child that gets the slot
  starts out killed and dies at its first return to user space.
\<close>

theorem kill_zero_hits_next_child:
  assumes "scan (\<lambda>p. pid p = 0) (procs s) = Some i"
    and "scan (\<lambda>p. state p = UNUSED) (procs s) = Some i"
    and "kst \<noteq> 0" and "pgd \<noteq> 0" and "cur < length (procs s)" and "cur \<noteq> i"
    and "kill 0 s = (r, t)" and "fork T kst pgd cur t = (child, u)"
  shows "r = 0 \<and> 0 \<le> child - nextpid s \<and> state (proc_at u i) = RUNNABLE \<and> killed (proc_at u i) = 1 \<and>
         trap_check_killed 27 (Some i) u = Trap_exit"
proof -
  note i = scan_SomeD [OF assms(2)]
  have t: "r = 0" "t = upd_proc i (\<lambda>p. p\<lparr>killed := 1,
             state := (if state p = SLEEPING then RUNNABLE else state p)\<rparr>) s"
    using assms(1,7) by (auto simp: kill_def)
  have "scan (\<lambda>p. state p = UNUSED) (procs t) = Some i"
    using i by (auto simp: scan_Some t(2) nth_list_update)
  then have "child = nextpid s \<and> state (proc_at u i) = RUNNABLE \<and> killed (proc_at u i) = 1"
    using assms(3-6,8) i(1) t(2) by (auto simp: fork_def allocproc_def dup_files_def Let_def)
  then show ?thesis using t(1) by (simp add: trap_check_killed_def user_mode_def)
qed

theorem kill_zero_hits_next_child_witness:
  "killed (proc_at (snd (fork make_tunables 5 6 0 (snd (kill 0
     (ex_table [ex_proc, ex_proc\<lparr>state := UNUSED, pid := 0\<rparr>]))))) 1) = 1"
proof -
  let ?s = "ex_table [ex_proc, ex_proc\<lparr>state := UNUSED, pid := 0\<rparr>]"
  show ?thesis
    using kill_zero_hits_next_child [of ?s 1 5 6 0 "fst (kill 0 ?s)" "snd (kill 0 ?s)" make_tunables
        "fst (fork make_tunables 5 6 0 (snd (kill 0 ?s)))" "snd (fork make_tunables 5 6 0 (snd (kill 0 ?s)))"]
    by (simp add: ex_table_def ex_proc_def)
qed

end
