(* ===== verification/Xv6_Bio.thy ===== *)
theory Xv6_Bio
  imports Xv6_Prelude
begin

text \<open>
  The buffer cache (\<open>bio.c\<close>), the sleep locks of the buffers (\<open>sleeplock.c\<close>) and the disk as
  \<open>iderw\<close> (\<open>ide.c\<close>) presents it: a synchronous store of 512-byte blocks, with every block write
  recorded in order so that a crash can be placed between any two of them.

  A \<open>struct buf *\<close> is an index; the doubly linked MRU list through \<open>prev\<close>/\<open>next\<close> is the list
  \<open>mru\<close> of indices, \<open>head.next\<close> first.  The state belongs to the view of one process, \<open>me\<close>; a
  buffer locked by another process makes \<open>acquiresleep\<close> sleep.
\<close>

section \<open>State\<close>

definition BSIZE :: nat where "BSIZE = 512"
definition NBUF :: nat where "NBUF = 30"
definition FSSIZE :: nat where "FSSIZE = 1000"

record buf =
  b_valid :: bool
  b_dirty :: bool
  b_dev :: uint
  b_blockno :: uint
  b_holder :: "int option"
  b_refcnt :: nat
  b_data :: "byte list"

type_synonym blockid = "uint \<times> uint"

record bcache =
  bufs :: "buf list"
  mru :: "nat list"
  disk :: "blockid \<Rightarrow> byte list"
  written :: "(blockid \<times> byte list) list"
  havedisk1 :: bool
  me :: int

abbreviation buf_at :: "'a bcache_scheme \<Rightarrow> nat \<Rightarrow> buf" where
  "buf_at s i \<equiv> bufs s ! i"

definition upd_buf :: "nat \<Rightarrow> (buf \<Rightarrow> buf) \<Rightarrow> 'a bcache_scheme \<Rightarrow> 'a bcache_scheme" where
  "upd_buf i f s = s\<lparr>bufs := (bufs s)[i := f (bufs s ! i)]\<rparr>"

text \<open>\<open>binit\<close> puts each buffer at the head of the list in turn; static storage is zero.\<close>

definition zero_buf :: buf where
  "zero_buf = \<lparr>b_valid = False, b_dirty = False, b_dev = 0, b_blockno = 0, b_holder = None,
              b_refcnt = 0, b_data = replicate BSIZE 0\<rparr>"

definition binit :: "'a bcache_scheme \<Rightarrow> 'a bcache_scheme" where
  "binit s = s\<lparr>mru := foldl (\<lambda>l b. b # l) [] [0..<NBUF]\<rparr>"

section \<open>Sleep locks\<close>

definition acquiresleep :: "nat \<Rightarrow> 'a bcache_scheme \<Rightarrow> 'a bcache_scheme outcome" where
  "acquiresleep i s =
     (if b_holder (buf_at s i) \<noteq> None then Asleep
      else Val (upd_buf i (\<lambda>b. b\<lparr>b_holder := Some (me s)\<rparr>) s))"

definition releasesleep :: "nat \<Rightarrow> 'a bcache_scheme \<Rightarrow> 'a bcache_scheme" where
  "releasesleep i s = upd_buf i (\<lambda>b. b\<lparr>b_holder := None\<rparr>) s"

definition holdingsleep :: "nat \<Rightarrow> 'a bcache_scheme \<Rightarrow> bool" where
  "holdingsleep i s \<longleftrightarrow> b_holder (buf_at s i) = Some (me s)"

section \<open>The disk\<close>

text \<open>The drive is selected by the low bit of \<open>dev\<close>; there is one sector per block.\<close>

definition disk_key :: "buf \<Rightarrow> blockid" where
  "disk_key b = (and (b_dev b) 1, b_blockno b)"

definition iderw :: "nat \<Rightarrow> 'a bcache_scheme \<Rightarrow> 'a bcache_scheme outcome" where
  "iderw i s =
     (let b = buf_at s i in
      if \<not> holdingsleep i s then Panic ''iderw: buf not locked''
      else if b_valid b \<and> \<not> b_dirty b then Panic ''iderw: nothing to do''
      else if b_dev b \<noteq> 0 \<and> \<not> havedisk1 s then Panic ''iderw: ide disk 1 not present''
      else if FSSIZE \<le> unat (b_blockno b) then Panic ''incorrect blockno''
      else if b_dirty b then
        Val (upd_buf i (\<lambda>b. b\<lparr>b_valid := True, b_dirty := False\<rparr>)
          (s\<lparr>disk := (disk s)(disk_key b := b_data b),
             written := written s @ [(disk_key b, b_data b)]\<rparr>))
      else
        Val (upd_buf i (\<lambda>b. b\<lparr>b_data := disk s (disk_key b), b_valid := True, b_dirty := False\<rparr>) s))"

section \<open>The cache\<close>

definition bget :: "uint \<Rightarrow> uint \<Rightarrow> 'a bcache_scheme \<Rightarrow> (nat \<times> 'a bcache_scheme) outcome" where
  "bget dev blockno s =
     (case find (\<lambda>i. b_dev (buf_at s i) = dev \<and> b_blockno (buf_at s i) = blockno) (mru s) of
        Some i \<Rightarrow>
          andthen (acquiresleep i (upd_buf i (\<lambda>b. b\<lparr>b_refcnt := b_refcnt b + 1\<rparr>) s)) (\<lambda>s. Val (i, s))
      | None \<Rightarrow>
          (case find (\<lambda>i. b_refcnt (buf_at s i) = 0 \<and> \<not> b_dirty (buf_at s i)) (rev (mru s)) of
             Some i \<Rightarrow>
               andthen (acquiresleep i (upd_buf i
                 (\<lambda>b. b\<lparr>b_dev := dev, b_blockno := blockno, b_valid := False, b_dirty := False,
                        b_refcnt := 1\<rparr>) s)) (\<lambda>s. Val (i, s))
           | None \<Rightarrow> Panic ''bget: no buffers''))"

definition bread :: "uint \<Rightarrow> uint \<Rightarrow> 'a bcache_scheme \<Rightarrow> (nat \<times> 'a bcache_scheme) outcome" where
  "bread dev blockno s =
     andthen (bget dev blockno s)
       (\<lambda>(i, s). if b_valid (buf_at s i) then Val (i, s) else andthen (iderw i s) (\<lambda>s. Val (i, s)))"

definition bwrite :: "nat \<Rightarrow> 'a bcache_scheme \<Rightarrow> 'a bcache_scheme outcome" where
  "bwrite i s =
     (if \<not> holdingsleep i s then Panic ''bwrite''
      else iderw i (upd_buf i (\<lambda>b. b\<lparr>b_dirty := True\<rparr>) s))"

definition brelse :: "nat \<Rightarrow> 'a bcache_scheme \<Rightarrow> 'a bcache_scheme outcome" where
  "brelse i s =
     (if \<not> holdingsleep i s then Panic ''brelse''
      else
        let s = releasesleep i s;
            s = upd_buf i (\<lambda>b. b\<lparr>b_refcnt := b_refcnt b - 1\<rparr>) s in
        Val (if b_refcnt (buf_at s i) = 0 then s\<lparr>mru := i # remove1 i (mru s)\<rparr> else s))"

text \<open>The holder of a buffer changes its data.\<close>

definition set_data :: "nat \<Rightarrow> byte list \<Rightarrow> 'a bcache_scheme \<Rightarrow> 'a bcache_scheme" where
  "set_data i d s = upd_buf i (\<lambda>b. b\<lparr>b_data := d\<rparr>) s"

section \<open>Consistency\<close>

lemma upd_buf_sel [simp]:
  "bufs (upd_buf i f s) = (bufs s)[i := f (bufs s ! i)]" "mru (upd_buf i f s) = mru s"
  "disk (upd_buf i f s) = disk s" "written (upd_buf i f s) = written s"
  "havedisk1 (upd_buf i f s) = havedisk1 s" "me (upd_buf i f s) = me s"
  "bcache.more (upd_buf i f s) = bcache.more s"
  by (simp_all add: upd_buf_def)

text \<open>
  A cache is consistent when the MRU list holds every buffer once, a block of disk 1 is in at most
  one buffer, and a buffer that is valid and not dirty is a copy of its block.  Nobody waits for
  a buffer, so the reference count says whether it is locked.
\<close>

definition bc_ok :: "'a bcache_scheme \<Rightarrow> bool" where
  "bc_ok s \<longleftrightarrow> length (bufs s) = NBUF \<and> distinct (mru s) \<and> set (mru s) = {..<NBUF} \<and> havedisk1 s \<and>
     (\<forall>i < NBUF. let b = buf_at s i in
        (b_dev b = 0 \<or> b_dev b = 1) \<and> (b_dirty b \<longrightarrow> b_valid b \<and> b_dev b = 1) \<and>
        (b_valid b \<and> \<not> b_dirty b \<longrightarrow> b_data b = disk s (disk_key b)) \<and>
        b_refcnt b = (if b_holder b = None then 0 else 1)) \<and>
     (\<forall>i < NBUF. \<forall>j < NBUF. b_dev (buf_at s i) = 1 \<and> b_dev (buf_at s j) = 1 \<and>
        b_blockno (buf_at s i) = b_blockno (buf_at s j) \<longrightarrow> i = j)"

text \<open>The data of a dirty buffer is what the file system sees of its block; otherwise the disk.\<close>

definition pinned :: "'a bcache_scheme \<Rightarrow> uint \<Rightarrow> byte list option" where
  "pinned s bn =
     map_option (\<lambda>i. b_data (buf_at s i))
       (find (\<lambda>i. b_dirty (buf_at s i) \<and> b_blockno (buf_at s i) = bn) [0..<NBUF])"

definition content :: "'a bcache_scheme \<Rightarrow> uint \<Rightarrow> byte list" where
  "content s bn = (case pinned s bn of Some d \<Rightarrow> d | None \<Rightarrow> disk s (1, bn))"

definition locks :: "'a bcache_scheme \<Rightarrow> nat set" where
  "locks s = {i. i < NBUF \<and> b_holder (buf_at s i) \<noteq> None}"

definition dirties :: "'a bcache_scheme \<Rightarrow> nat set" where
  "dirties s = {i. i < NBUF \<and> b_dirty (buf_at s i)}"

lemma find_upt_Some: "find P [0..<n] = Some i \<Longrightarrow> i < n \<and> P i"
  by (auto simp: find_Some_iff)

lemma find_upt_None: "find P [0..<n] = None \<longleftrightarrow> (\<forall>i < n. \<not> P i)"
  by (auto simp: find_None_iff)

lemma pinned_dirty:
  assumes ok: "bc_ok s" and i: "i < NBUF" "b_dirty (buf_at s i)"
  shows "pinned s (b_blockno (buf_at s i)) = Some (b_data (buf_at s i))"
proof -
  let ?P = "\<lambda>j. b_dirty (buf_at s j) \<and> b_blockno (buf_at s j) = b_blockno (buf_at s i)"
  have "find ?P [0..<NBUF] \<noteq> None" using i by (auto simp: find_None_iff)
  then obtain j where j: "find ?P [0..<NBUF] = Some j" by blast
  then have "j < NBUF \<and> ?P j" by (rule find_upt_Some)
  then have "j = i" using ok i unfolding bc_ok_def Let_def by metis
  with j show ?thesis by (simp add: pinned_def)
qed

lemma pinned_Some:
  "pinned s bn = Some d \<Longrightarrow> \<exists>i < NBUF. b_dirty (buf_at s i) \<and> b_blockno (buf_at s i) = bn \<and> b_data (buf_at s i) = d"
  unfolding pinned_def using find_upt_Some by fastforce

lemma pinned_None: "pinned s bn = None \<longleftrightarrow> (\<forall>i < NBUF. b_dirty (buf_at s i) \<longrightarrow> b_blockno (buf_at s i) \<noteq> bn)"
  by (auto simp: pinned_def find_upt_None)

lemma pinned_clean:
  assumes ok: "bc_ok s" and i: "i < NBUF" "b_dev (buf_at s i) = 1" "\<not> b_dirty (buf_at s i)"
  shows "pinned s (b_blockno (buf_at s i)) = None"
  using assms unfolding bc_ok_def Let_def pinned_None by metis

text \<open>Two caches whose dirty buffers agree pin the same data.\<close>

lemma pinned_cong:
  assumes "\<And>i. i < NBUF \<Longrightarrow> b_dirty (buf_at s i) = b_dirty (buf_at t i)"
    "\<And>i. i < NBUF \<Longrightarrow> b_dirty (buf_at t i) \<Longrightarrow>
       b_blockno (buf_at s i) = b_blockno (buf_at t i) \<and> b_data (buf_at s i) = b_data (buf_at t i)"
  shows "pinned s = pinned t"
proof
  fix bn
  have "find (\<lambda>i. b_dirty (buf_at s i) \<and> b_blockno (buf_at s i) = bn) [0..<NBUF] =
        find (\<lambda>i. b_dirty (buf_at t i) \<and> b_blockno (buf_at t i) = bn) [0..<NBUF]"
    by (rule find_cong) (use assms in auto)
  moreover have "i < NBUF \<and> b_dirty (buf_at t i)"
    if "find (\<lambda>i. b_dirty (buf_at t i) \<and> b_blockno (buf_at t i) = bn) [0..<NBUF] = Some i" for i
    using find_upt_Some [OF that] by blast
  ultimately show "pinned s bn = pinned t bn"
    using assms(2) by (cases "find (\<lambda>i. b_dirty (buf_at t i) \<and> b_blockno (buf_at t i) = bn) [0..<NBUF]")
      (auto simp: pinned_def)
qed

section \<open>What the operations do\<close>

lemma bc_okD:
  assumes "bc_ok s"
  shows "length (bufs s) = NBUF" "distinct (mru s)" "set (mru s) = {..<NBUF}" "havedisk1 s"
    "i < NBUF \<Longrightarrow> b_dev (buf_at s i) = 0 \<or> b_dev (buf_at s i) = 1"
    "i < NBUF \<Longrightarrow> b_dirty (buf_at s i) \<Longrightarrow> b_valid (buf_at s i)"
    "i < NBUF \<Longrightarrow> b_dirty (buf_at s i) \<Longrightarrow> b_dev (buf_at s i) = 1"
    "i < NBUF \<Longrightarrow> b_valid (buf_at s i) \<Longrightarrow> \<not> b_dirty (buf_at s i) \<Longrightarrow>
       b_data (buf_at s i) = disk s (disk_key (buf_at s i))"
    "i < NBUF \<Longrightarrow> b_refcnt (buf_at s i) = (if b_holder (buf_at s i) = None then 0 else 1)"
    "i < NBUF \<Longrightarrow> j < NBUF \<Longrightarrow> b_dev (buf_at s i) = 1 \<Longrightarrow> b_dev (buf_at s j) = 1 \<Longrightarrow>
       b_blockno (buf_at s i) = b_blockno (buf_at s j) \<Longrightarrow> i = j"
  using assms unfolding bc_ok_def Let_def by blast+

lemma bc_okI:
  assumes "length (bufs s) = NBUF" "distinct (mru s)" "set (mru s) = {..<NBUF}" "havedisk1 s"
    "\<And>i. i < NBUF \<Longrightarrow> b_dev (buf_at s i) = 0 \<or> b_dev (buf_at s i) = 1"
    "\<And>i. i < NBUF \<Longrightarrow> b_dirty (buf_at s i) \<Longrightarrow> b_valid (buf_at s i) \<and> b_dev (buf_at s i) = 1"
    "\<And>i. i < NBUF \<Longrightarrow> b_valid (buf_at s i) \<Longrightarrow> \<not> b_dirty (buf_at s i) \<Longrightarrow>
       b_data (buf_at s i) = disk s (disk_key (buf_at s i))"
    "\<And>i. i < NBUF \<Longrightarrow> b_refcnt (buf_at s i) = (if b_holder (buf_at s i) = None then 0 else 1)"
    "\<And>i j. i < NBUF \<Longrightarrow> j < NBUF \<Longrightarrow> b_dev (buf_at s i) = 1 \<Longrightarrow> b_dev (buf_at s j) = 1 \<Longrightarrow>
       b_blockno (buf_at s i) = b_blockno (buf_at s j) \<Longrightarrow> i = j"
  shows "bc_ok s"
  using assms unfolding bc_ok_def Let_def by blast

lemma disk_key_1 [simp]: "b_dev b = 1 \<Longrightarrow> disk_key b = (1, b_blockno b)"
  by (simp add: disk_key_def)

text \<open>One buffer changed, its key and the mutable flags within the rules.\<close>

lemma bc_ok_upd:
  assumes ok: "bc_ok s" and i: "i < NBUF"
    and t: "bufs t = (bufs s)[i := b]" "disk t = disk s" "havedisk1 t = havedisk1 s"
      "distinct (mru t)" "set (mru t) = {..<NBUF}"
    and b: "b_dev b = 0 \<or> b_dev b = 1" "b_dirty b \<Longrightarrow> b_valid b \<and> b_dev b = 1"
      "b_valid b \<Longrightarrow> \<not> b_dirty b \<Longrightarrow> b_data b = disk s (disk_key b)"
      "b_refcnt b = (if b_holder b = None then 0 else 1)"
      "\<And>j. j < NBUF \<Longrightarrow> j \<noteq> i \<Longrightarrow> b_dev b = 1 \<Longrightarrow> b_dev (buf_at s j) = 1 \<Longrightarrow>
         b_blockno (buf_at s j) \<noteq> b_blockno b"
  shows "bc_ok t"
proof -
  have nth: "buf_at t j = (if j = i then b else buf_at s j)" if "j < NBUF" for j
    using that i bc_okD(1) [OF ok] by (auto simp: t nth_list_update)
  show ?thesis
  proof (rule bc_okI)
    show "length (bufs t) = NBUF" "distinct (mru t)" "set (mru t) = {..<NBUF}" "havedisk1 t"
      using t bc_okD(1,4) [OF ok] by simp_all
  next
    fix j assume j: "j < NBUF"
    note o = bc_okD(5-9) [OF ok j]
    show "b_dev (buf_at t j) = 0 \<or> b_dev (buf_at t j) = 1"
      using o(1) b(1) by (cases "j = i") (simp_all add: nth i j)
    show "b_valid (buf_at t j) \<and> b_dev (buf_at t j) = 1" if "b_dirty (buf_at t j)"
      using o(2,3) b(2) that by (cases "j = i") (simp_all add: nth i j)
    show "b_data (buf_at t j) = disk t (disk_key (buf_at t j))"
      if "b_valid (buf_at t j)" "\<not> b_dirty (buf_at t j)"
      using o(4) b(3) that by (cases "j = i") (simp_all add: nth i j t(2))
    show "b_refcnt (buf_at t j) = (if b_holder (buf_at t j) = None then 0 else 1)"
      using o(5) b(4) by (cases "j = i") (simp_all add: nth i j)
  next
    fix j k assume j: "j < NBUF" "k < NBUF" "b_dev (buf_at t j) = 1" "b_dev (buf_at t k) = 1"
      "b_blockno (buf_at t j) = b_blockno (buf_at t k)"
    consider "j = i" "k = i" | "j = i" "k \<noteq> i" | "j \<noteq> i" "k = i" | "j \<noteq> i" "k \<noteq> i" by blast
    then show "j = k"
    proof cases
      case 2
      then show ?thesis using b(5) [OF j(2)] j(3-5) by (simp add: nth i j(1,2))
    next
      case 3
      then show ?thesis using b(5) [OF j(1)] j(3-5) by (simp add: nth i j(1,2))
    next
      case 4
      then show ?thesis using bc_okD(10) [OF ok j(1,2)] j(3-5) by (simp add: nth i j(1,2))
    qed simp
  qed
qed

lemma set_after_upd:
  assumes "length (bufs s) = NBUF" "i < NBUF" "bufs t = (bufs s)[i := b]"
  shows "locks t = (if b_holder b = None then locks s - {i} else insert i (locks s))"
    "dirties t = (if b_dirty b then insert i (dirties s) else dirties s - {i})"
  using assms by (auto simp: locks_def dirties_def nth_list_update split: if_splits)

lemma pinned_upd_same:
  assumes "length (bufs s) = NBUF" "i < NBUF" "bufs t = (bufs s)[i := b]"
    "b_dirty b = b_dirty (buf_at s i)"
    "b_dirty b \<Longrightarrow> b_blockno b = b_blockno (buf_at s i) \<and> b_data b = b_data (buf_at s i)"
  shows "pinned t = pinned s"
  by (rule pinned_cong) (use assms in \<open>auto simp: nth_list_update split: if_splits\<close>)

lemma find_mru:
  assumes "bc_ok s" "i < NBUF" "P i" "\<And>j. j < NBUF \<Longrightarrow> P j \<Longrightarrow> j = i"
  shows "find P (mru s) = Some i"
proof -
  have m: "set (mru s) = {..<NBUF}" using bc_okD(3) [OF assms(1)] .
  then have "find P (mru s) \<noteq> None" using assms(2,3) by (auto simp: find_None_iff)
  then obtain j where j: "find P (mru s) = Some j" by blast
  then have "j \<in> set (mru s) \<and> P j" by (auto simp: find_Some_iff in_set_conv_nth)
  then have "j < NBUF" "P j" using m by auto
  with assms(4) j show ?thesis by blast
qed

lemma find_mru_D:
  assumes "find P xs = Some i"
  shows "i \<in> set xs" "P i"
  using assms by (auto simp: find_Some_iff)

text \<open>What it means that a read returned buffer \<open>i\<close> in state \<open>t\<close>.\<close>

definition read_into :: "'a bcache_scheme \<Rightarrow> uint \<Rightarrow> nat \<Rightarrow> 'a bcache_scheme \<Rightarrow> bool" where
  "read_into s bn i t \<longleftrightarrow> i < NBUF \<and> i \<notin> locks s \<and> bc_ok t \<and> disk t = disk s \<and> written t = written s \<and>
     me t = me s \<and> bcache.more t = bcache.more s \<and> b_dev (buf_at t i) = 1 \<and> b_blockno (buf_at t i) = bn \<and>
     b_valid (buf_at t i) \<and> b_holder (buf_at t i) = Some (me s) \<and> b_data (buf_at t i) = content s bn \<and>
     dirties t = dirties s \<and> pinned t = pinned s \<and> locks t = insert i (locks s) \<and>
     (\<forall>j. j \<noteq> i \<longrightarrow> buf_at t j = buf_at s j)"

lemma read_intoI:
  assumes ok: "bc_ok s" and i: "i < NBUF" "b_holder (buf_at s i) = None"
    and t: "bufs t = (bufs s)[i := c]" "disk t = disk s" "written t = written s" "me t = me s"
      "bcache.more t = bcache.more s" "mru t = mru s" "havedisk1 t = havedisk1 s"
    and c: "b_dev c = 1" "b_blockno c = bn" "b_valid c" "b_holder c = Some (me s)"
      "b_data c = content s bn" "b_refcnt c = 1" "b_dirty c = b_dirty (buf_at s i)"
      "b_dirty c \<Longrightarrow> b_blockno (buf_at s i) = bn \<and> b_data c = b_data (buf_at s i)"
      "\<not> b_dirty c \<Longrightarrow> content s bn = disk s (1, bn)"
    and u: "\<And>j. j < NBUF \<Longrightarrow> b_dev (buf_at s j) = 1 \<Longrightarrow> b_blockno (buf_at s j) = bn \<Longrightarrow> j = i"
  shows "read_into s bn i t"
proof -
  note len = bc_okD(1) [OF ok]
  have "bc_ok t"
  proof (rule bc_ok_upd [OF ok i(1) t(1,2,7)])
    show "b_blockno (buf_at s j) \<noteq> b_blockno c"
      if "j < NBUF" "j \<noteq> i" "b_dev c = 1" "b_dev (buf_at s j) = 1" for j
      using u that c(2) by blast
  qed (use c t(6) bc_okD(2,3) [OF ok] in simp_all)
  moreover have "dirties t = dirties s"
    using set_after_upd(2) [OF len i(1) t(1)] c(7) i(1) by (auto simp: dirties_def)
  moreover have "locks t = insert i (locks s)"
    using set_after_upd(1) [OF len i(1) t(1)] c(4) by simp
  moreover have "pinned t = pinned s"
    by (rule pinned_upd_same [OF len i(1) t(1)]) (use c in auto)
  moreover have "i \<notin> locks s" using i by (simp add: locks_def)
  moreover have "buf_at t i = c" using i(1) len by (simp add: t(1))
  moreover have "\<forall>j. j \<noteq> i \<longrightarrow> buf_at t j = buf_at s j" by (simp add: t(1))
  ultimately show ?thesis using i(1) c t unfolding read_into_def by simp
qed

lemma bget_hit:
  assumes ok: "bc_ok s" and i: "i < NBUF" "b_dev (buf_at s i) = 1" "b_blockno (buf_at s i) = bn"
    and h: "b_holder (buf_at s i) = None"
  shows "bget 1 bn s = Val (i, upd_buf i (\<lambda>c. c\<lparr>b_holder := Some (me s)\<rparr>)
                        (upd_buf i (\<lambda>c. c\<lparr>b_refcnt := b_refcnt c + 1\<rparr>) s))"
proof -
  have "find (\<lambda>j. b_dev (buf_at s j) = 1 \<and> b_blockno (buf_at s j) = bn) (mru s) = Some i"
    by (rule find_mru [OF ok i(1)]) (use i bc_okD(10) [OF ok] in auto)
  then show ?thesis using h i(1) bc_okD(1) [OF ok] by (simp add: bget_def acquiresleep_def)
qed

lemma bget_miss:
  assumes ok: "bc_ok s" and no: "\<And>i. i < NBUF \<Longrightarrow> b_dev (buf_at s i) = 1 \<Longrightarrow> b_blockno (buf_at s i) \<noteq> bn"
    and room: "card (dirties s \<union> locks s) < NBUF"
  obtains i where "i < NBUF" "b_refcnt (buf_at s i) = 0" "\<not> b_dirty (buf_at s i)"
    "b_holder (buf_at s i) = None"
    "bget 1 bn s = Val (i, upd_buf i (\<lambda>c. c\<lparr>b_holder := Some (me s)\<rparr>)
       (upd_buf i (\<lambda>b. b\<lparr>b_dev := 1, b_blockno := bn, b_valid := False, b_dirty := False, b_refcnt := 1\<rparr>) s))"
proof -
  have mem: "i < NBUF" if "i \<in> set (mru s)" for i using that bc_okD(3) [OF ok] by simp
  have fh: "find (\<lambda>j. b_dev (buf_at s j) = 1 \<and> b_blockno (buf_at s j) = bn) (mru s) = None"
    unfolding find_None_iff using no mem by blast
  have sub: "dirties s \<union> locks s \<subseteq> {..<NBUF}" unfolding dirties_def locks_def by blast
  have "\<not> {..<NBUF} \<subseteq> dirties s \<union> locks s"
  proof
    assume "{..<NBUF} \<subseteq> dirties s \<union> locks s"
    with sub have "dirties s \<union> locks s = {..<NBUF}" by (rule subset_antisym)
    with room show False by simp
  qed
  then obtain j where j: "j < NBUF" "j \<notin> dirties s" "j \<notin> locks s" by blast
  have jr: "b_refcnt (buf_at s j) = 0 \<and> \<not> b_dirty (buf_at s j)" "j \<in> set (rev (mru s))"
    using j bc_okD(9) [OF ok j(1)] bc_okD(3) [OF ok] by (simp_all add: dirties_def locks_def)
  have "find (\<lambda>i. b_refcnt (buf_at s i) = 0 \<and> \<not> b_dirty (buf_at s i)) (rev (mru s)) \<noteq> None"
    unfolding find_None_iff using jr by blast
  then obtain i where f: "find (\<lambda>i. b_refcnt (buf_at s i) = 0 \<and> \<not> b_dirty (buf_at s i)) (rev (mru s)) = Some i"
    by blast
  have "i \<in> {..<NBUF}" using find_mru_D(1) [OF f] bc_okD(3) [OF ok] by simp
  then have i: "i < NBUF" "b_refcnt (buf_at s i) = 0" "\<not> b_dirty (buf_at s i)"
    using find_mru_D(2) [OF f] by simp_all
  have h: "b_holder (buf_at s i) = None" using bc_okD(9) [OF ok i(1)] i(2) by (simp split: if_splits)
  have "bget 1 bn s = Val (i, upd_buf i (\<lambda>c. c\<lparr>b_holder := Some (me s)\<rparr>)
       (upd_buf i (\<lambda>b. b\<lparr>b_dev := 1, b_blockno := bn, b_valid := False, b_dirty := False, b_refcnt := 1\<rparr>) s))"
    using fh f h i(1) bc_okD(1) [OF ok] by (simp add: bget_def acquiresleep_def)
  then show thesis using that i h by blast
qed

text \<open>
  A read of a block that no other process holds locks the one buffer of the block and gives what
  the file system sees of it; the disk and the pinned data stay.
\<close>

lemma bread_spec:
  assumes ok: "bc_ok s" and bn: "unat bn < FSSIZE"
    and unlocked: "\<And>j. j \<in> locks s \<Longrightarrow> b_dev (buf_at s j) = 1 \<Longrightarrow> b_blockno (buf_at s j) \<noteq> bn"
    and room: "pinned s bn \<noteq> None \<or> card (dirties s \<union> locks s) < NBUF"
  obtains i t where "bread 1 bn s = Val (i, t)" "read_into s bn i t"
proof (cases "\<exists>i < NBUF. b_dev (buf_at s i) = 1 \<and> b_blockno (buf_at s i) = bn")
  case True
  then obtain i where i: "i < NBUF" "b_dev (buf_at s i) = 1" "b_blockno (buf_at s i) = bn" by blast
  have h: "b_holder (buf_at s i) = None"
    using unlocked [of i] i by (cases "b_holder (buf_at s i)") (auto simp: locks_def)
  have len: "i < length (bufs s)" using i(1) bc_okD(1) [OF ok] by simp
  have u: "j = i" if "j < NBUF" "b_dev (buf_at s j) = 1" "b_blockno (buf_at s j) = bn" for j
    using bc_okD(10) [OF ok that(1) i(1)] that i by simp
  define b where "b = (buf_at s i)\<lparr>b_refcnt := 1, b_holder := Some (me s)\<rparr>"
  have r0: "b_refcnt (buf_at s i) = 0" using bc_okD(9) [OF ok i(1)] h by simp
  define g where "g = upd_buf i (\<lambda>c. c\<lparr>b_holder := Some (me s)\<rparr>)
                        (upd_buf i (\<lambda>c. c\<lparr>b_refcnt := b_refcnt c + 1\<rparr>) s)"
  have g: "bget 1 bn s = Val (i, g)" unfolding g_def by (rule bget_hit [OF ok i h])
  have gb: "bufs g = (bufs s)[i := b]" using len r0 by (simp add: g_def b_def)
  have gi: "buf_at g i = b" using len by (simp add: gb)
  show thesis
  proof (cases "b_valid (buf_at s i)")
    case True
    have "read_into s bn i g"
    proof (rule read_intoI [OF ok i(1) h gb _ _ _ _ _ _ _ _ _ _ _ _ _ _ _ u])
      show "b_data b = content s bn"
        using pinned_dirty [OF ok i(1)] pinned_clean [OF ok i(1,2)] bc_okD(8) [OF ok i(1) True] i
        by (cases "b_dirty (buf_at s i)") (simp_all add: content_def b_def)
      show "content s bn = disk s (1, bn)" if "\<not> b_dirty b"
        using pinned_clean [OF ok i(1,2)] that i by (simp add: content_def b_def)
    qed (use True i in \<open>simp_all add: g_def b_def\<close>)
    moreover have "bread 1 bn s = Val (i, g)" using g gi True by (simp add: bread_def b_def)
    ultimately show thesis using that by blast
  next
    case False
    have nd: "\<not> b_dirty (buf_at s i)" using bc_okD(6) [OF ok i(1)] False by blast
    define c where "c = b\<lparr>b_data := disk s (1, bn), b_valid := True, b_dirty := False\<rparr>"
    define t where "t = upd_buf i (\<lambda>c. c\<lparr>b_data := disk s (1, bn), b_valid := True, b_dirty := False\<rparr>) g"
    have h1: "havedisk1 g" using bc_okD(4) [OF ok] by (simp add: g_def)
    have dg: "disk g = disk s" "me g = me s" by (simp_all add: g_def)
    have "iderw i g = Val t"
      using gi nd False i bn h1 dg unfolding iderw_def holdingsleep_def t_def by (simp add: b_def Let_def)
    then have rd: "bread 1 bn s = Val (i, t)"
      using g gi False by (simp add: bread_def b_def)
    have tb: "bufs t = (bufs s)[i := c]" using len by (simp add: t_def gb c_def)
    have ct: "content s bn = disk s (1, bn)"
      using pinned_clean [OF ok i(1,2) nd] i by (simp add: content_def)
    have "read_into s bn i t"
      by (rule read_intoI [OF ok i(1) h tb _ _ _ _ _ _ _ _ _ _ _ _ _ _ _ u])
        (use i nd ct in \<open>simp_all add: t_def g_def c_def b_def\<close>)
    with rd show thesis using that by blast
  qed
next
  case False
  then have no: "b_blockno (buf_at s i) \<noteq> bn" if "i < NBUF" "b_dev (buf_at s i) = 1" for i
    using that by blast
  then have p: "pinned s bn = None" using bc_okD(7) [OF ok] by (auto simp: pinned_None)
  obtain i where i: "i < NBUF" "b_refcnt (buf_at s i) = 0" "\<not> b_dirty (buf_at s i)"
      "b_holder (buf_at s i) = None"
    and g0: "bget 1 bn s = Val (i, upd_buf i (\<lambda>c. c\<lparr>b_holder := Some (me s)\<rparr>)
       (upd_buf i (\<lambda>b. b\<lparr>b_dev := 1, b_blockno := bn, b_valid := False, b_dirty := False, b_refcnt := 1\<rparr>) s))"
    using bget_miss [OF ok no] room p by metis
  have len: "i < length (bufs s)" using i(1) bc_okD(1) [OF ok] by simp
  define c where "c = (buf_at s i)\<lparr>b_dev := 1, b_blockno := bn, b_refcnt := 1,
       b_holder := Some (me s), b_data := disk s (1, bn), b_valid := True, b_dirty := False\<rparr>"
  define g where "g = upd_buf i (\<lambda>c. c\<lparr>b_holder := Some (me s)\<rparr>)
       (upd_buf i (\<lambda>b. b\<lparr>b_dev := 1, b_blockno := bn, b_valid := False, b_dirty := False, b_refcnt := 1\<rparr>) s)"
  define t where "t = upd_buf i (\<lambda>c. c\<lparr>b_data := disk s (1, bn), b_valid := True, b_dirty := False\<rparr>) g"
  have gi: "buf_at g i = (buf_at s i)\<lparr>b_dev := 1, b_blockno := bn, b_refcnt := 1,
       b_holder := Some (me s), b_valid := False, b_dirty := False\<rparr>"
    using len by (simp add: g_def)
  have h1: "havedisk1 g" using bc_okD(4) [OF ok] by (simp add: g_def)
  have dg: "disk g = disk s" "me g = me s" by (simp_all add: g_def)
  have "iderw i g = Val t"
    using gi bn h1 dg unfolding iderw_def holdingsleep_def t_def by (simp add: Let_def)
  then have rd: "bread 1 bn s = Val (i, t)" using g0 [folded g_def] gi by (simp add: bread_def)
  have tb: "bufs t = (bufs s)[i := c]" using len by (simp add: t_def g_def c_def)
  have "read_into s bn i t"
    by (rule read_intoI [OF ok i(1,4) tb])
      (use i p no in \<open>simp_all add: t_def g_def c_def content_def\<close>)
  with rd show thesis using that by blast
qed

text \<open>Releasing a buffer changes nothing but its lock and its place in the MRU list.\<close>

lemma brelse_spec:
  assumes ok: "bc_ok s" and i: "i < NBUF" "b_holder (buf_at s i) = Some (me s)"
  obtains t where "brelse i s = Val t" "bc_ok t" "disk t = disk s" "written t = written s" "me t = me s"
    "bcache.more t = bcache.more s" "dirties t = dirties s" "pinned t = pinned s"
    "locks t = locks s - {i}" "\<And>j. j \<noteq> i \<Longrightarrow> buf_at t j = buf_at s j"
proof -
  note len = bc_okD(1) [OF ok]
  define b where "b = (buf_at s i)\<lparr>b_holder := None, b_refcnt := 0\<rparr>"
  define g where "g = upd_buf i (\<lambda>b. b\<lparr>b_refcnt := b_refcnt b - 1\<rparr>) (upd_buf i (\<lambda>b. b\<lparr>b_holder := None\<rparr>) s)"
  define t where "t = g\<lparr>mru := i # remove1 i (mru s)\<rparr>"
  have r1: "b_refcnt (buf_at s i) = 1" using bc_okD(9) [OF ok i(1)] i(2) by simp
  have gb: "bufs g = (bufs s)[i := b]" using i(1) len r1 by (simp add: g_def b_def)
  have rel: "brelse i s = Val t"
    using i len r1 by (simp add: brelse_def holdingsleep_def releasesleep_def g_def t_def Let_def)
  have tb: "bufs t = (bufs s)[i := b]" by (simp add: t_def gb)
  have tsel: "disk t = disk s" "havedisk1 t = havedisk1 s" "written t = written s" "me t = me s"
    "bcache.more t = bcache.more s"
    by (simp_all add: t_def g_def)
  have m: "distinct (mru t)" "set (mru t) = {..<NBUF}"
    using bc_okD(2,3) [OF ok] i(1) by (auto simp: t_def)
  have "bc_ok t"
  proof (rule bc_ok_upd [OF ok i(1) tb tsel(1,2) m])
    show "b_blockno (buf_at s j) \<noteq> b_blockno b"
      if "j < NBUF" "j \<noteq> i" "b_dev b = 1" "b_dev (buf_at s j) = 1" for j
      using bc_okD(10) [OF ok that(1) i(1)] that by (auto simp: b_def)
  qed (use bc_okD(5-8) [OF ok i(1)] in \<open>simp_all add: b_def disk_key_def\<close>)
  moreover have "dirties t = dirties s"
    using set_after_upd(2) [OF len i(1) tb] i(1) by (auto simp: dirties_def b_def)
  moreover have "locks t = locks s - {i}" using set_after_upd(1) [OF len i(1) tb] by (simp add: b_def)
  moreover have "pinned t = pinned s"
    by (rule pinned_upd_same [OF len i(1) tb]) (simp_all add: b_def)
  moreover have "buf_at t j = buf_at s j" if "j \<noteq> i" for j using that by (simp add: tb)
  ultimately show thesis using that rel tsel by blast
qed

text \<open>Writing new data of a locked buffer to its block unpins the block and records the write.\<close>

lemma bwrite_spec:
  assumes ok: "bc_ok s" and i: "i < NBUF" "b_holder (buf_at s i) = Some (me s)"
    and b: "b_dev (buf_at s i) = 1" "b_blockno (buf_at s i) = bn" "b_valid (buf_at s i)"
    and bn: "unat bn < FSSIZE"
  obtains t where "bwrite i (set_data i d s) = Val t" "bc_ok t" "disk t = (disk s)((1, bn) := d)"
    "written t = written s @ [((1, bn), d)]" "me t = me s" "bcache.more t = bcache.more s"
    "dirties t = dirties s - {i}" "pinned t = (pinned s)(bn := None)"
    "locks t = locks s" "\<And>j. j \<noteq> i \<Longrightarrow> buf_at t j = buf_at s j"
    "b_holder (buf_at t i) = Some (me s)"
proof -
  note len = bc_okD(1) [OF ok]
  define c where "c = (buf_at s i)\<lparr>b_data := d, b_valid := True, b_dirty := False\<rparr>"
  define g where "g = upd_buf i (\<lambda>b. b\<lparr>b_dirty := True\<rparr>) (upd_buf i (\<lambda>b. b\<lparr>b_data := d\<rparr>) s)"
  define t where "t = upd_buf i (\<lambda>b. b\<lparr>b_valid := True, b_dirty := False\<rparr>)
          (g\<lparr>disk := (disk s)((1, bn) := d), written := written s @ [((1, bn), d)]\<rparr>)"
  have gi: "buf_at g i = (buf_at s i)\<lparr>b_data := d, b_dirty := True\<rparr>" using i(1) len by (simp add: g_def)
  have gs: "disk g = disk s" "written g = written s" "havedisk1 g" "me g = me s"
    using bc_okD(4) [OF ok] by (simp_all add: g_def)
  have "iderw i g = Val t"
    using gi gs i b bn unfolding iderw_def holdingsleep_def t_def by (simp add: Let_def)
  moreover have "holdingsleep i (set_data i d s)"
    using i len by (simp add: holdingsleep_def set_data_def)
  ultimately have w: "bwrite i (set_data i d s) = Val t" by (simp add: bwrite_def set_data_def g_def)
  have tb: "bufs t = (bufs s)[i := c]" using i(1) len b by (simp add: t_def g_def c_def)
  have nth: "buf_at t j = (if j = i then c else buf_at s j)" if "j < NBUF" for j
    using that len by (simp add: tb nth_list_update)
  have tsel: "disk t = (disk s)((1, bn) := d)" "written t = written s @ [((1, bn), d)]" "me t = me s"
    "bcache.more t = bcache.more s" "havedisk1 t" "mru t = mru s"
    using bc_okD(4) [OF ok] by (simp_all add: t_def g_def)
  have other: "disk_key (buf_at s j) \<noteq> (1, bn)" if "j < NBUF" "j \<noteq> i" for j
    using bc_okD(5) [OF ok that(1)] bc_okD(10) [OF ok that(1) i(1)] that b
    by (auto simp: disk_key_def)
  have "bc_ok t"
  proof (rule bc_okI)
    show "length (bufs t) = NBUF" "distinct (mru t)" "set (mru t) = {..<NBUF}" "havedisk1 t"
      using tsel bc_okD(1-3) [OF ok] by (simp_all add: tb)
  next
    fix j assume j: "j < NBUF"
    note o = bc_okD(5-9) [OF ok j]
    show "b_dev (buf_at t j) = 0 \<or> b_dev (buf_at t j) = 1"
      using o(1) b by (cases "j = i") (simp_all add: nth i j c_def)
    show "b_valid (buf_at t j) \<and> b_dev (buf_at t j) = 1" if "b_dirty (buf_at t j)"
      using o(2,3) that by (cases "j = i") (simp_all add: nth i j c_def)
    show "b_data (buf_at t j) = disk t (disk_key (buf_at t j))"
      if "b_valid (buf_at t j)" "\<not> b_dirty (buf_at t j)"
      using o(4) that b other [OF j] by (cases "j = i") (simp_all add: nth i j c_def tsel)
    show "b_refcnt (buf_at t j) = (if b_holder (buf_at t j) = None then 0 else 1)"
      using o(5) by (cases "j = i") (simp_all add: nth i j c_def)
  next
    fix j k assume j: "j < NBUF" "k < NBUF" "b_dev (buf_at t j) = 1" "b_dev (buf_at t k) = 1"
      "b_blockno (buf_at t j) = b_blockno (buf_at t k)"
    have "b_dev (buf_at t l) = b_dev (buf_at s l) \<and> b_blockno (buf_at t l) = b_blockno (buf_at s l)"
      if "l < NBUF" for l
      using that by (simp add: nth c_def)
    then show "j = k" using bc_okD(10) [OF ok j(1,2)] j by simp
  qed
  moreover have "dirties t = dirties s - {i}"
    using set_after_upd(2) [OF len i(1) tb] by (simp add: c_def)
  moreover have "locks t = locks s"
    using set_after_upd(1) [OF len i(1) tb] i by (auto simp: c_def locks_def)
  moreover have "pinned t = (pinned s)(bn := None)"
  proof
    fix x
    show "pinned t x = ((pinned s)(bn := None)) x"
    proof (cases "x = bn")
      case True
      have "b_blockno (buf_at t j) \<noteq> bn" if "j < NBUF" "b_dirty (buf_at t j)" for j
      proof (cases "j = i")
        case True
        then show ?thesis using that by (simp add: nth c_def)
      next
        case False
        then show ?thesis
          using that other [OF that(1) False] bc_okD(7) [OF ok that(1)] by (auto simp: nth disk_key_def)
      qed
      then show ?thesis using True by (simp add: pinned_None)
    next
      case False
      have "find (\<lambda>j. b_dirty (buf_at t j) \<and> b_blockno (buf_at t j) = x) [0..<NBUF] =
            find (\<lambda>j. b_dirty (buf_at s j) \<and> b_blockno (buf_at s j) = x) [0..<NBUF]"
        by (rule find_cong) (use b False in \<open>auto simp: nth c_def\<close>)
      moreover have "k < NBUF \<and> k \<noteq> i"
        if "find (\<lambda>j. b_dirty (buf_at s j) \<and> b_blockno (buf_at s j) = x) [0..<NBUF] = Some k" for k
        using find_upt_Some [OF that] b False by auto
      ultimately show ?thesis
        using False by (cases "find (\<lambda>j. b_dirty (buf_at s j) \<and> b_blockno (buf_at s j) = x) [0..<NBUF]")
          (auto simp: pinned_def nth)
    qed
  qed
  moreover have "buf_at t j = buf_at s j" if "j \<noteq> i" for j using that by (simp add: tb)
  moreover have "b_holder (buf_at t i) = Some (me s)" using i by (simp add: nth c_def)
  ultimately show thesis using that w tsel by blast
qed

end
