(* ===== verification/Xv6_Log.thy ===== *)
theory Xv6_Log
  imports Xv6_Bio
begin

text \<open>
  The write-ahead log (\<open>log.c\<close>) on top of the buffer cache, and its crash safety: \<open>commit\<close> and
  \<open>recover_from_log\<close> are run on the cache model, the block writes they issue are shown to be
  exactly the protocol's writes in the protocol's order, and a crash between any two of them,
  followed by a boot, leaves the file system as before the transaction or as after it.
\<close>

section \<open>State\<close>

definition MAXOPBLOCKS :: int where "MAXOPBLOCKS = 10"
definition LOGSIZE :: nat where "LOGSIZE = 30"

text \<open>\<open>mkfs\<close> makes the log \<open>nlog = LOGSIZE\<close> blocks long, its header included.\<close>

definition LOGDATA :: nat where "LOGDATA = LOGSIZE - 1"

text \<open>\<open>struct log\<close>; \<open>lh_n\<close> and \<open>lh_block\<close> are the in-memory \<open>struct logheader\<close>.\<close>

record logsys = bcache +
  log_start :: uint
  log_size :: int
  outstanding :: int
  committing :: bool
  log_dev :: uint
  lh_n :: int
  lh_block :: "uint list"

section \<open>Integers in a block\<close>

text \<open>The header is a C struct laid over the block's bytes: little-endian 32-bit words.\<close>

definition le32 :: "uint \<Rightarrow> byte list" where
  "le32 w = [ucast w, ucast (drop_bit 8 w), ucast (drop_bit 16 w), ucast (drop_bit 24 w)]"

definition get32 :: "nat \<Rightarrow> byte list \<Rightarrow> uint" where
  "get32 off bs =
     or (ucast (bs ! off)) (or (push_bit 8 (ucast (bs ! (off + 1))))
       (or (push_bit 16 (ucast (bs ! (off + 2)))) (push_bit 24 (ucast (bs ! (off + 3))))))"

definition put32 :: "nat \<Rightarrow> uint \<Rightarrow> byte list \<Rightarrow> byte list" where
  "put32 off w bs = take off bs @ le32 w @ drop (off + 4) bs"

section \<open>The log\<close>

definition install_step :: "nat \<Rightarrow> 'a logsys_scheme \<Rightarrow> 'a logsys_scheme outcome" where
  "install_step tail s =
     andthen (bread (log_dev s) (log_start s + of_nat tail + 1) s) (\<lambda>(lbuf, s).
     andthen (bread (log_dev s) (lh_block s ! tail) s) (\<lambda>(dbuf, s).
     andthen (bwrite dbuf (set_data dbuf (b_data (buf_at s lbuf)) s)) (\<lambda>s.
     andthen (brelse lbuf s) (brelse dbuf))))"

definition install_trans :: "'a logsys_scheme \<Rightarrow> 'a logsys_scheme outcome" where
  "install_trans s = each install_step [0..<nat (lh_n s)] s"

text \<open>
  \<open>log.lh.block\<close> has \<open>LOGSIZE\<close> entries; a header with a larger count overruns it, which C leaves
  undefined.
\<close>

definition read_head :: "'a logsys_scheme \<Rightarrow> 'a logsys_scheme outcome" where
  "read_head s =
     andthen (bread (log_dev s) (log_start s) s) (\<lambda>(buf, s).
       let d = b_data (buf_at s buf);
           s = s\<lparr>lh_n := sint (get32 0 d)\<rparr> in
       if int LOGSIZE < lh_n s then Panic ''out of bounds''
       else
         let s = s\<lparr>lh_block := foldl (\<lambda>bl i. bl[i := get32 (4 + 4 * i) d]) (lh_block s) [0..<nat (lh_n s)]\<rparr>
         in brelse buf s)"

definition head_data :: "int \<Rightarrow> uint list \<Rightarrow> byte list \<Rightarrow> byte list" where
  "head_data n bl d = foldl (\<lambda>d i. put32 (4 + 4 * i) (bl ! i) d) (put32 0 (word_of_int n) d) [0..<nat n]"

definition write_head :: "'a logsys_scheme \<Rightarrow> 'a logsys_scheme outcome" where
  "write_head s =
     andthen (bread (log_dev s) (log_start s) s) (\<lambda>(buf, s).
     andthen (bwrite buf (set_data buf (head_data (lh_n s) (lh_block s) (b_data (buf_at s buf))) s))
       (brelse buf))"

definition recover_from_log :: "'a logsys_scheme \<Rightarrow> 'a logsys_scheme outcome" where
  "recover_from_log s =
     andthen (read_head s) (\<lambda>s. andthen (install_trans s) (\<lambda>s. write_head (s\<lparr>lh_n := 0\<rparr>)))"

text \<open>\<open>initlog\<close>: the superblock's \<open>logstart\<close> and \<open>nlog\<close> are arguments; the header fits a block.\<close>

definition initlog :: "uint \<Rightarrow> uint \<Rightarrow> uint \<Rightarrow> 'a logsys_scheme \<Rightarrow> 'a logsys_scheme outcome" where
  "initlog dev sb_logstart sb_nlog s =
     (if BSIZE \<le> 4 + 4 * LOGSIZE then Panic ''initlog: too big logheader''
      else recover_from_log
        (s\<lparr>log_start := sb_logstart, log_size := sint sb_nlog, log_dev := dev\<rparr>))"

definition begin_op :: "'a logsys_scheme \<Rightarrow> 'a logsys_scheme outcome" where
  "begin_op s =
     (if committing s then Asleep
      else if int LOGSIZE < lh_n s + (outstanding s + 1) * MAXOPBLOCKS then Asleep
      else Val (s\<lparr>outstanding := outstanding s + 1\<rparr>))"

definition write_log_step :: "nat \<Rightarrow> 'a logsys_scheme \<Rightarrow> 'a logsys_scheme outcome" where
  "write_log_step tail s =
     andthen (bread (log_dev s) (log_start s + of_nat tail + 1) s) (\<lambda>(to, s).
     andthen (bread (log_dev s) (lh_block s ! tail) s) (\<lambda>(from, s).
     andthen (bwrite to (set_data to (b_data (buf_at s from)) s)) (\<lambda>s.
     andthen (brelse from s) (brelse to))))"

definition write_log :: "'a logsys_scheme \<Rightarrow> 'a logsys_scheme outcome" where
  "write_log s = each write_log_step [0..<nat (lh_n s)] s"

definition commit :: "'a logsys_scheme \<Rightarrow> 'a logsys_scheme outcome" where
  "commit s =
     (if 0 < lh_n s then
        andthen (write_log s) (\<lambda>s. andthen (write_head s) (\<lambda>s.
        andthen (install_trans s) (\<lambda>s. write_head (s\<lparr>lh_n := 0\<rparr>))))
      else Val s)"

definition end_op :: "'a logsys_scheme \<Rightarrow> 'a logsys_scheme outcome" where
  "end_op s =
     (let s = s\<lparr>outstanding := outstanding s - 1\<rparr> in
      if committing s then Panic ''log.committing''
      else if outstanding s = 0 then
        andthen (commit (s\<lparr>committing := True\<rparr>)) (\<lambda>s. Val (s\<lparr>committing := False\<rparr>))
      else Val s)"

definition log_write :: "nat \<Rightarrow> 'a logsys_scheme \<Rightarrow> 'a logsys_scheme outcome" where
  "log_write b s =
     (if int LOGSIZE \<le> lh_n s \<or> log_size s - 1 \<le> lh_n s then Panic ''too big a transaction''
      else if outstanding s < 1 then Panic ''log_write outside of trans''
      else
        let n = nat (lh_n s);
            bn = b_blockno (buf_at s b);
            i = (case scan (\<lambda>x. x = bn) (take n (lh_block s)) of Some i \<Rightarrow> i | None \<Rightarrow> n);
            s = s\<lparr>lh_block := (lh_block s)[i := bn]\<rparr>;
            s = (if i = n then s\<lparr>lh_n := lh_n s + 1\<rparr> else s)
        in Val (upd_buf b (\<lambda>b. b\<lparr>b_dirty := True\<rparr>) s))"

section \<open>Writes\<close>

type_synonym dwrite = "blockid \<times> byte list"

definition apply_writes :: "(blockid \<Rightarrow> byte list) \<Rightarrow> dwrite list \<Rightarrow> blockid \<Rightarrow> byte list" where
  "apply_writes d ws = foldl (\<lambda>d (k, v). d(k := v)) d ws"

lemma apply_writes_simps [simp]:
  "apply_writes d [] = d" "apply_writes d ((k, v) # ws) = apply_writes (d(k := v)) ws"
  "apply_writes d (ws @ vs) = apply_writes (apply_writes d ws) vs"
  by (simp_all add: apply_writes_def)

lemma apply_writes_other: "k \<notin> fst ` set ws \<Longrightarrow> apply_writes d ws k = d k"
  by (induction ws arbitrary: d) auto

lemma apply_writes_last:
  "distinct (map fst ws) \<Longrightarrow> (k, v) \<in> set ws \<Longrightarrow> apply_writes d ws k = v"
proof (induction ws arbitrary: d)
  case Nil
  then show ?case by simp
next
  case (Cons w ws)
  show ?case
  proof (cases "(k, v) = w")
    case True
    then have "k \<notin> fst ` set ws" using Cons.prems(1) by (simp flip: True)
    then show ?thesis using True [symmetric] by (simp add: apply_writes_other)
  next
    case False
    then have "(k, v) \<in> set ws" using Cons.prems(2) by simp
    then show ?thesis using Cons.IH Cons.prems(1) by (cases w) simp
  qed
qed

text \<open>
  A piece of the log code that ran with no buffer locked before or after it: it wrote \<open>ws\<close>, left
  the pinned data \<open>p\<close>, and did not touch the log's own fields.
\<close>

definition moved :: "'a logsys_scheme \<Rightarrow> dwrite list \<Rightarrow> (uint \<Rightarrow> byte list option) \<Rightarrow> 'a logsys_scheme \<Rightarrow> bool" where
  "moved s ws p t \<longleftrightarrow> bc_ok t \<and> locks t = {} \<and> disk t = apply_writes (disk s) ws \<and>
     written t = written s @ ws \<and> pinned t = p \<and> dirties t \<subseteq> dirties s \<and> me t = me s \<and>
     bcache.more t = bcache.more s"

lemma moved_refl: "bc_ok s \<Longrightarrow> locks s = {} \<Longrightarrow> moved s [] (pinned s) s"
  by (simp add: moved_def)

lemma moved_trans: "moved s ws p t \<Longrightarrow> moved t vs q u \<Longrightarrow> moved s (ws @ vs) q u"
  by (auto simp: moved_def)

lemma finite_dirties [simp]: "finite (dirties s)"
  by (simp add: dirties_def)

lemma log_fields:
  "bcache.more t = bcache.more s \<Longrightarrow> log_start t = log_start s \<and> log_size t = log_size s \<and>
     outstanding t = outstanding s \<and> committing t = committing s \<and> log_dev t = log_dev s \<and>
     lh_n t = lh_n s \<and> lh_block t = lh_block s"
  by (cases s; cases t; simp)

lemma moved_fields:
  "moved s ws p t \<Longrightarrow> log_start t = log_start s \<and> log_dev t = log_dev s \<and> lh_n t = lh_n s \<and>
     lh_block t = lh_block s \<and> log_size t = log_size s \<and> outstanding t = outstanding s"
  using log_fields unfolding moved_def by blast

section \<open>One copy\<close>

text \<open>
  Copying block \<open>src\<close> to block \<open>dst\<close> through two buffers, whichever of the two is read first.
\<close>

lemma copy_spec:
  assumes ok: "bc_ok s" "locks s = {}" and ne: "src \<noteq> dst"
    and sz: "unat src < FSSIZE" "unat dst < FSSIZE"
    and a: "a = src \<and> b = dst \<or> a = dst \<and> b = src"
    and room: "card (dirties s) < NBUF" "pinned s b \<noteq> None \<or> card (dirties s) + 1 < NBUF"
  obtains i s1 j s2 s3 s4 s5 where "bread 1 a s = Val (i, s1)" "bread 1 b s1 = Val (j, s2)"
    "bcache.more s1 = bcache.more s"
    "bwrite (if a = dst then i else j) (set_data (if a = dst then i else j)
       (b_data (buf_at s2 (if a = src then i else j))) s2) = Val s3"
    "brelse (if a = src then i else j) s3 = Val s4" "brelse (if a = dst then i else j) s4 = Val s5"
    "moved s [((1, dst), content s src)] ((pinned s)(dst := None)) s5"
proof -
  have sza: "unat a < FSSIZE" "unat b < FSSIZE" "a \<noteq> b" using a sz ne by auto
  obtain i s1 where r1: "bread 1 a s = Val (i, s1)" and i1: "read_into s a i s1"
    using bread_spec [OF ok(1) sza(1)] ok(2) room(1) by auto
  note i1 = i1 [unfolded read_into_def, simplified ok(2)]
  have ok1: "bc_ok s1" and l1: "locks s1 = {i}" using i1 by auto
  have room1: "pinned s1 b \<noteq> None \<or> card (dirties s1 \<union> locks s1) < NBUF"
    using room i1 card_Un_le [of "dirties s" "{i}"] by auto
  obtain j s2 where r2: "bread 1 b s1 = Val (j, s2)" and j2: "read_into s1 b j s2"
    using bread_spec [OF ok1 sza(2) _ room1] l1 i1 sza(3) by auto
  note j2 = j2 [unfolded read_into_def, simplified l1]
  have ij: "i \<noteq> j" using j2 by auto
  have bi: "buf_at s2 i = buf_at s1 i" using j2 ij by auto
  have hi: "b_holder (buf_at s2 i) = Some (me s2)" "b_dev (buf_at s2 i) = 1" "b_blockno (buf_at s2 i) = a"
    "b_valid (buf_at s2 i)" "b_data (buf_at s2 i) = content s a" "i < NBUF"
    using i1 j2 bi by auto
  have d1: "disk s1 = disk s" "pinned s1 = pinned s" using i1 by blast+
  have c1: "content s1 x = content s x" for x by (simp only: content_def d1)
  have hj: "b_holder (buf_at s2 j) = Some (me s2)" "b_dev (buf_at s2 j) = 1" "b_blockno (buf_at s2 j) = b"
    "b_valid (buf_at s2 j)" "b_data (buf_at s2 j) = content s b" "j < NBUF"
    using j2 c1 by auto
  define w where "w = (if a = dst then i else j)"
  define r where "r = (if a = src then i else j)"
  have wr: "w \<noteq> r" "w < NBUF" "r < NBUF" "{w, r} = {i, j}" using a ne ij hi(6) hj(6) by (auto simp: w_def r_def)
  have hw: "b_holder (buf_at s2 w) = Some (me s2)" "b_dev (buf_at s2 w) = 1" "b_blockno (buf_at s2 w) = dst"
    "b_valid (buf_at s2 w)"
    using hi hj a by (auto simp: w_def)
  have hr: "b_holder (buf_at s2 r) = Some (me s2)" "b_data (buf_at s2 r) = content s src"
    using hi hj a ne by (auto simp: r_def)
  have ok2: "bc_ok s2" using j2 by blast
  obtain s3 where s3: "bwrite w (set_data w (content s src) s2) = Val s3" "bc_ok s3"
      "disk s3 = (disk s2)((1, dst) := content s src)" "written s3 = written s2 @ [((1, dst), content s src)]"
      "me s3 = me s2" "bcache.more s3 = bcache.more s2" "dirties s3 = dirties s2 - {w}"
      "pinned s3 = (pinned s2)(dst := None)" "locks s3 = locks s2"
      "\<And>j. j \<noteq> w \<Longrightarrow> buf_at s3 j = buf_at s2 j" "b_holder (buf_at s3 w) = Some (me s2)"
    by (rule bwrite_spec [OF ok2 wr(2) hw sz(2)]) blast
  have h3: "b_holder (buf_at s3 r) = Some (me s3)" using s3(10) [of r] wr hr s3(5) by simp
  obtain s4 where s4: "brelse r s3 = Val s4" "bc_ok s4" "disk s4 = disk s3" "written s4 = written s3" "me s4 = me s3"
    "bcache.more s4 = bcache.more s3" "dirties s4 = dirties s3" "pinned s4 = pinned s3"
    "locks s4 = locks s3 - {r}" "\<And>j. j \<noteq> r \<Longrightarrow> buf_at s4 j = buf_at s3 j"
    by (rule brelse_spec [OF s3(2) wr(3) h3]) blast
  have h4: "b_holder (buf_at s4 w) = Some (me s4)" using s4(10) [of w] s4(5) s3(5,11) wr by simp
  obtain s5 where s5: "brelse w s4 = Val s5" "bc_ok s5" "disk s5 = disk s4" "written s5 = written s4" "me s5 = me s4"
    "bcache.more s5 = bcache.more s4" "dirties s5 = dirties s4" "pinned s5 = pinned s4"
    "locks s5 = locks s4 - {w}"
    by (rule brelse_spec [OF s4(2) wr(2) h4]) blast
  have "locks s5 = {i, j} - {r} - {w}" using s5(9) s4(9) s3(9) j2 by auto
  then have "locks s5 = {}" using wr by auto
  moreover have "disk s2 = disk s" "written s2 = written s" "me s2 = me s" "bcache.more s2 = bcache.more s"
    "dirties s2 = dirties s" "pinned s2 = pinned s"
    using i1 j2 by auto
  ultimately have "moved s [((1, dst), content s src)] ((pinned s)(dst := None)) s5"
    using s3 s4 s5 by (auto simp: moved_def)
  moreover have "bcache.more s1 = bcache.more s" using i1 by blast
  ultimately show thesis
    by (intro that [OF r1 r2]) (use s3(1) s4(1) s5(1) hr(2) in \<open>simp_all add: w_def r_def\<close>)
qed

section \<open>The steps and loops of the log code\<close>

text \<open>
  The layout: the log occupies \<open>log_start\<close> to \<open>log_start + LOGDATA\<close> on disk 1, inside the disk, and
  the blocks named in the header lie outside it.
\<close>

definition log_blk :: "uint \<Rightarrow> nat \<Rightarrow> uint" where
  "log_blk start t = start + of_nat t + 1"

definition outside :: "uint \<Rightarrow> uint \<Rightarrow> bool" where
  "outside start b \<longleftrightarrow> unat b < FSSIZE \<and> (unat b < unat start \<or> unat start + LOGDATA < unat b)"

definition log_shape :: "'a logsys_scheme \<Rightarrow> bool" where
  "log_shape s \<longleftrightarrow> log_dev s = 1 \<and> 0 \<le> lh_n s \<and> lh_n s \<le> int LOGDATA \<and> length (lh_block s) = LOGSIZE \<and>
     unat (log_start s) + LOGDATA < FSSIZE \<and> (\<forall>t < nat (lh_n s). outside (log_start s) (lh_block s ! t))"

lemma unat_log_blk:
  assumes "unat start + LOGDATA < FSSIZE" "t < LOGDATA"
  shows "unat (log_blk start t) = unat start + t + 1"
proof -
  have "unat (of_nat t + 1 :: uint) = t + 1"
    using assms(2) by (simp add: LOGDATA_def LOGSIZE_def unat_word_ariths unat_of_nat)
  then show ?thesis using assms
    by (simp add: log_blk_def add.assoc unat_add_uint LOGDATA_def LOGSIZE_def FSSIZE_def)
qed

lemma log_blk_facts:
  assumes "unat start + LOGDATA < FSSIZE" "t < LOGDATA"
  shows "unat (log_blk start t) < FSSIZE" "log_blk start t \<noteq> start"
    "outside start b \<Longrightarrow> log_blk start t \<noteq> b" "u < LOGDATA \<Longrightarrow> log_blk start t = log_blk start u \<Longrightarrow> t = u"
proof -
  note l = unat_log_blk [OF assms]
  show "unat (log_blk start t) < FSSIZE" unfolding l using assms by linarith
  show "log_blk start t \<noteq> start"
  proof
    assume "log_blk start t = start"
    then have "unat (log_blk start t) = unat start" by (rule arg_cong)
    with l show False by simp
  qed
  show "log_blk start t \<noteq> b" if o: "outside start b"
  proof
    assume "log_blk start t = b"
    then have "unat b = unat start + t + 1" using l by simp
    with o assms(2) show False by (simp add: outside_def)
  qed
  show "t = u" if "u < LOGDATA" "log_blk start t = log_blk start u"
  proof -
    have "unat (log_blk start t) = unat (log_blk start u)" by (rule arg_cong [OF that(2)])
    then show ?thesis unfolding l unat_log_blk [OF assms(1) that(1)] by linarith
  qed
qed

lemma moved_cong: "moved s ws p t \<Longrightarrow> p = q \<Longrightarrow> moved s ws q t"
  by simp

lemma install_step_spec:
  assumes ok: "bc_ok s" "locks s = {}" and sh: "log_dev s = 1" "unat (log_blk (log_start s) t) < FSSIZE"
    "unat (lh_block s ! t) < FSSIZE" "log_blk (log_start s) t \<noteq> lh_block s ! t"
    and room: "card (dirties s) < NBUF" "pinned s (lh_block s ! t) \<noteq> None \<or> card (dirties s) + 1 < NBUF"
  obtains u where "install_step t s = Val u"
    "moved s [((1, lh_block s ! t), content s (log_blk (log_start s) t))] ((pinned s)(lh_block s ! t := None)) u"
proof -
  let ?src = "log_blk (log_start s) t" and ?dst = "lh_block s ! t"
  obtain i s1 j s2 s3 s4 s5 where r0: "bread 1 ?src s = Val (i, s1)" "bread 1 ?dst s1 = Val (j, s2)"
    "bcache.more s1 = bcache.more s"
    "bwrite (if ?src = ?dst then i else j) (set_data (if ?src = ?dst then i else j)
       (b_data (buf_at s2 (if ?src = ?src then i else j))) s2) = Val s3"
    "brelse (if ?src = ?src then i else j) s3 = Val s4" "brelse (if ?src = ?dst then i else j) s4 = Val s5"
    "moved s [((1, ?dst), content s ?src)] ((pinned s)(?dst := None)) s5"
    by (rule copy_spec [OF ok sh(4,2,3) disjI1 [OF conjI [OF refl refl]] room])
  note r = r0 [simplified sh(4), simplified]
  have "install_step t s = Val s5"
    using r(1,2,4-6) sh(1) log_fields [OF r(3)] by (simp add: install_step_def log_blk_def)
  then show thesis using that r(7) by blast
qed

lemma write_log_step_spec:
  assumes ok: "bc_ok s" "locks s = {}" and sh: "log_dev s = 1" "unat (log_blk (log_start s) t) < FSSIZE"
    "unat (lh_block s ! t) < FSSIZE" "log_blk (log_start s) t \<noteq> lh_block s ! t"
    and room: "card (dirties s) < NBUF" "pinned s (lh_block s ! t) \<noteq> None"
  obtains u where "write_log_step t s = Val u"
    "moved s [((1, log_blk (log_start s) t), content s (lh_block s ! t))]
       ((pinned s)(log_blk (log_start s) t := None)) u"
proof -
  let ?src = "lh_block s ! t" and ?dst = "log_blk (log_start s) t"
  have ne: "?dst \<noteq> ?src" "?src \<noteq> ?dst" using sh(4) by auto
  obtain i s1 j s2 s3 s4 s5 where r0: "bread 1 ?dst s = Val (i, s1)" "bread 1 ?src s1 = Val (j, s2)"
    "bcache.more s1 = bcache.more s"
    "bwrite (if ?dst = ?dst then i else j) (set_data (if ?dst = ?dst then i else j)
       (b_data (buf_at s2 (if ?dst = ?src then i else j))) s2) = Val s3"
    "brelse (if ?dst = ?src then i else j) s3 = Val s4" "brelse (if ?dst = ?dst then i else j) s4 = Val s5"
    "moved s [((1, ?dst), content s ?src)] ((pinned s)(?dst := None)) s5"
    by (rule copy_spec [OF ok ne(2) sh(3,2) disjI2 [OF conjI [OF refl refl]] room(1) disjI1 [OF room(2)]])
  note r = r0 [simplified ne, simplified]
  have "write_log_step t s = Val s5"
    using r(1,2,4-6) sh(1) log_fields [OF r(3)] by (simp add: write_log_step_def log_blk_def)
  then show thesis using that r(7) by blast
qed

lemma write_head_spec:
  assumes ok: "bc_ok s" "locks s = {}" and sh: "log_dev s = 1" "unat (log_start s) < FSSIZE"
    and room: "card (dirties s) < NBUF"
  obtains u where "write_head s = Val u"
    "moved s [((1, log_start s), head_data (lh_n s) (lh_block s) (content s (log_start s)))]
       ((pinned s)(log_start s := None)) u"
proof -
  let ?d = "head_data (lh_n s) (lh_block s) (content s (log_start s))"
  obtain i t where r: "bread 1 (log_start s) s = Val (i, t)" and rt: "read_into s (log_start s) i t"
    using bread_spec [OF ok(1) sh(2)] ok(2) room by auto
  note rt = rt [unfolded read_into_def, simplified ok(2)]
  have ft: "lh_n t = lh_n s" "lh_block t = lh_block s" using log_fields [of t s] rt by auto
  have t: "bc_ok t" "i < NBUF" "b_holder (buf_at t i) = Some (me t)" "b_dev (buf_at t i) = 1"
    "b_blockno (buf_at t i) = log_start s" "b_valid (buf_at t i)"
    using rt by simp_all
  obtain w where w: "bwrite i (set_data i ?d t) = Val w" "bc_ok w" "disk w = (disk t)((1, log_start s) := ?d)"
    "written w = written t @ [((1, log_start s), ?d)]" "me w = me t" "bcache.more w = bcache.more t"
    "dirties w = dirties t - {i}" "pinned w = (pinned t)(log_start s := None)" "locks w = locks t"
    "b_holder (buf_at w i) = Some (me t)"
    by (rule bwrite_spec [OF t sh(2)]) blast
  have hw: "b_holder (buf_at w i) = Some (me w)" using w(5,10) by simp
  obtain u where u: "brelse i w = Val u" "bc_ok u" "disk u = disk w" "written u = written w" "me u = me w"
    "bcache.more u = bcache.more w" "dirties u = dirties w" "pinned u = pinned w" "locks u = locks w - {i}"
    by (rule brelse_spec [OF w(2) t(2) hw]) blast
  have "write_head s = Val u"
    using r w(1) u(1) sh(1) ft rt by (simp add: write_head_def)
  moreover have "moved s [((1, log_start s), ?d)] ((pinned s)(log_start s := None)) u"
    using u(2-9) w(3-9) rt by (auto simp: moved_def)
  ultimately show thesis using that by blast
qed

text \<open>The two loops, with their invariants.\<close>

lemma write_log_loop:
  assumes ok: "bc_ok s" "locks s = {}" and sh: "log_shape s" and k: "k \<le> nat (lh_n s)"
    and room: "card (dirties s) < NBUF" and pin: "\<forall>t < nat (lh_n s). pinned s (lh_block s ! t) \<noteq> None"
    and nolog: "\<forall>t < nat (lh_n s). pinned s (log_blk (log_start s) t) = None"
  shows "\<exists>u. each write_log_step [0..<k] s = Val u \<and>
     moved s (map (\<lambda>t. ((1, log_blk (log_start s) t), content s (lh_block s ! t))) [0..<k]) (pinned s) u"
  using k
proof (induction k)
  case 0
  then show ?case using moved_refl [OF ok] by simp
next
  case (Suc k)
  let ?ws = "map (\<lambda>t. ((1, log_blk (log_start s) t), content s (lh_block s ! t))) [0..<k]"
  obtain u where u: "each write_log_step [0..<k] s = Val u" "moved s ?ws (pinned s) u"
    using Suc by auto
  note fu = moved_fields [OF u(2)]
  have kn: "k < nat (lh_n s)" "k < LOGDATA" using Suc(2) sh by (auto simp: log_shape_def LOGDATA_def)
  have st: "unat (log_start s) + LOGDATA < FSSIZE" and out: "outside (log_start s) (lh_block s ! k)"
    using sh kn by (auto simp: log_shape_def)
  note lb = log_blk_facts [OF st kn(2)]
  have cu: "content u (lh_block s ! k) = content s (lh_block s ! k)"
    using u(2) pin kn by (auto simp: moved_def content_def)
  have sub: "dirties u \<subseteq> dirties s" using u(2) by (simp add: moved_def)
  have room': "card (dirties u) < NBUF" using room card_mono [OF finite_dirties sub] by simp
  obtain v where v: "write_log_step k u = Val v"
    "moved u [((1, log_blk (log_start s) k), content s (lh_block s ! k))]
       ((pinned u)(log_blk (log_start s) k := None)) v"
  proof (rule write_log_step_spec [of u k])
    show "bc_ok u" "locks u = {}" using u(2) by (simp_all add: moved_def)
    show "log_dev u = 1" "unat (log_blk (log_start u) k) < FSSIZE" "unat (lh_block u ! k) < FSSIZE"
      "log_blk (log_start u) k \<noteq> lh_block u ! k"
      using fu sh lb(1) lb(3) [OF out] out by (simp_all add: log_shape_def outside_def)
    show "card (dirties u) < NBUF" using room' .
    show "pinned u (lh_block u ! k) \<noteq> None" using u(2) fu pin kn by (simp add: moved_def)
  qed (use that fu cu in \<open>simp add: cu\<close>)
  have "(pinned u)(log_blk (log_start s) k := None) = pinned s"
    using u(2) nolog kn by (auto simp: moved_def)
  then have "moved s (?ws @ [((1, log_blk (log_start s) k), content s (lh_block s ! k))]) (pinned s) v"
    using moved_trans [OF u(2)] v(2) by simp
  then show ?case using each_snocI [OF u(1) v(1)] by auto
qed

lemma install_loop:
  assumes ok: "bc_ok s" "locks s = {}" and sh: "log_shape s" and k: "k \<le> nat (lh_n s)"
    and room: "card (dirties s) < NBUF"
      "card (dirties s) + 1 < NBUF \<or>
         distinct (take (nat (lh_n s)) (lh_block s)) \<and> (\<forall>t < nat (lh_n s). pinned s (lh_block s ! t) \<noteq> None)"
    and nolog: "\<forall>t < nat (lh_n s). pinned s (log_blk (log_start s) t) = None"
  shows "\<exists>u. each install_step [0..<k] s = Val u \<and>
     moved s (map (\<lambda>t. ((1, lh_block s ! t), disk s (1, log_blk (log_start s) t))) [0..<k])
       (\<lambda>b. if b \<in> set (take k (lh_block s)) then None else pinned s b) u"
  using k
proof (induction k)
  case 0
  then show ?case using moved_refl [OF ok] by simp
next
  case (Suc k)
  let ?ws = "map (\<lambda>t. ((1, lh_block s ! t), disk s (1, log_blk (log_start s) t))) [0..<k]"
  let ?p = "\<lambda>b. if b \<in> set (take k (lh_block s)) then None else pinned s b"
  obtain u where u: "each install_step [0..<k] s = Val u" "moved s ?ws ?p u"
    using Suc by auto
  note fu = moved_fields [OF u(2)]
  have kn: "k < nat (lh_n s)" "k < LOGDATA" "k < length (lh_block s)" "nat (lh_n s) \<le> length (lh_block s)"
    using Suc(2) sh by (auto simp: log_shape_def LOGDATA_def)
  have st: "unat (log_start s) + LOGDATA < FSSIZE" and out: "outside (log_start s) (lh_block s ! k)"
    and outs: "\<And>t. t < nat (lh_n s) \<Longrightarrow> outside (log_start s) (lh_block s ! t)"
    using sh kn by (auto simp: log_shape_def)
  note lb = log_blk_facts [OF st kn(2)]
  have notin: "(1, log_blk (log_start s) k) \<notin> fst ` set ?ws"
  proof -
    have "log_blk (log_start s) k \<noteq> lh_block s ! t" if "t < k" for t
      using lb(3) [OF outs] that kn(1) by simp
    moreover have "\<exists>t < k. log_blk (log_start s) k = lh_block s ! t"
      if "(1, log_blk (log_start s) k) \<in> fst ` set ?ws"
      using that by auto
    ultimately show ?thesis by blast
  qed
  have "pinned u (log_blk (log_start s) k) = None" using u(2) nolog kn(1) by (simp add: moved_def)
  then have cu: "content u (log_blk (log_start s) k) = disk s (1, log_blk (log_start s) k)"
    using u(2) apply_writes_other [OF notin] by (simp add: content_def moved_def)
  have sub: "dirties u \<subseteq> dirties s" using u(2) by (simp add: moved_def)
  have cs: "card (dirties u) \<le> card (dirties s)" using card_mono [OF finite_dirties sub] .
  have room': "pinned u (lh_block u ! k) \<noteq> None \<or> card (dirties u) + 1 < NBUF"
  proof (cases "card (dirties s) + 1 < NBUF")
    case True
    then show ?thesis using cs by simp
  next
    case False
    then have d: "distinct (take (nat (lh_n s)) (lh_block s))" "pinned s (lh_block s ! k) \<noteq> None"
      using room(2) kn(1) by blast+
    have "lh_block s ! k \<notin> set (take k (lh_block s))"
    proof
      assume "lh_block s ! k \<in> set (take k (lh_block s))"
      then obtain t where t: "t < k" "lh_block s ! t = lh_block s ! k"
        using kn(3) by (auto simp: in_set_conv_nth)
      then have "t = k"
        using nth_eq_iff_index_eq [OF d(1), of t k] kn by simp
      with t show False by simp
    qed
    then show ?thesis using u(2) fu d(2) by (simp add: moved_def)
  qed
  obtain v where v: "install_step k u = Val v"
    "moved u [((1, lh_block s ! k), disk s (1, log_blk (log_start s) k))]
       ((pinned u)(lh_block s ! k := None)) v"
  proof (rule install_step_spec [of u k])
    show "bc_ok u" "locks u = {}" using u(2) by (simp_all add: moved_def)
    show "log_dev u = 1" "unat (log_blk (log_start u) k) < FSSIZE" "unat (lh_block u ! k) < FSSIZE"
      "log_blk (log_start u) k \<noteq> lh_block u ! k"
      using fu sh lb(1) lb(3) [OF out] out by (simp_all add: log_shape_def outside_def)
    show "card (dirties u) < NBUF" using room(1) cs by simp
    show "pinned u (lh_block u ! k) \<noteq> None \<or> card (dirties u) + 1 < NBUF" by (rule room')
  qed (use that fu cu in \<open>simp add: cu\<close>)
  have "(pinned u)(lh_block s ! k := None) = (\<lambda>b. if b \<in> set (take (Suc k) (lh_block s)) then None else pinned s b)"
    using u(2) kn(3) by (auto simp: moved_def take_Suc_conv_app_nth)
  then have "moved s (?ws @ [((1, lh_block s ! k), disk s (1, log_blk (log_start s) k))])
      (\<lambda>b. if b \<in> set (take (Suc k) (lh_block s)) then None else pinned s b) v"
    using moved_trans [OF u(2)] v(2) by simp
  then show ?case using each_snocI [OF u(1) v(1)] by auto
qed

section \<open>commit\<close>

lemma lh_n_base [simp]:
  "bufs (s\<lparr>lh_n := n\<rparr>) = bufs s" "mru (s\<lparr>lh_n := n\<rparr>) = mru s" "disk (s\<lparr>lh_n := n\<rparr>) = disk s"
  "written (s\<lparr>lh_n := n\<rparr>) = written s" "havedisk1 (s\<lparr>lh_n := n\<rparr>) = havedisk1 s"
  by (cases s; simp)+

lemma lh_n_upd [simp]:
  "bc_ok (s\<lparr>lh_n := n\<rparr>) = bc_ok s" "locks (s\<lparr>lh_n := n\<rparr>) = locks s" "dirties (s\<lparr>lh_n := n\<rparr>) = dirties s"
  "pinned (s\<lparr>lh_n := n\<rparr>) = pinned s"
  by (simp_all add: bc_ok_def locks_def dirties_def pinned_def fun_eq_iff)

lemma lh_n_content [simp]: "content (s\<lparr>lh_n := n\<rparr>) = content s"
  by (rule ext) (simp add: content_def split: option.split)

text \<open>When \<open>end_op\<close> calls \<open>commit\<close>: exactly the blocks of the transaction are pinned, none of the log.\<close>

definition commit_ready :: "'a logsys_scheme \<Rightarrow> bool" where
  "commit_ready s \<longleftrightarrow> bc_ok s \<and> locks s = {} \<and> log_shape s \<and> 0 < lh_n s \<and> card (dirties s) < NBUF \<and>
     distinct (take (nat (lh_n s)) (lh_block s)) \<and>
     (\<forall>b. pinned s b \<noteq> None \<longleftrightarrow> b \<in> set (take (nat (lh_n s)) (lh_block s)))"

text \<open>The writes of a commit, in order: the log blocks, the header, the home blocks, the header.\<close>

definition commit_writes :: "uint \<Rightarrow> nat \<Rightarrow> uint list \<Rightarrow> (uint \<Rightarrow> byte list) \<Rightarrow> byte list \<Rightarrow> dwrite list" where
  "commit_writes start n bl new h =
     map (\<lambda>t. ((1, log_blk start t), new (bl ! t))) [0..<n] @
     [((1, start), head_data (int n) bl h)] @
     map (\<lambda>t. ((1, bl ! t), new (bl ! t))) [0..<n] @
     [((1, start), head_data 0 bl (head_data (int n) bl h))]"

lemma commit_spec:
  assumes rdy: "commit_ready s"
  obtains u where "commit s = Val u" "bc_ok u" "locks u = {}" "pinned u = (\<lambda>b. None)" "lh_n u = 0"
    "log_start u = log_start s" "outstanding u = outstanding s"
    "written u = written s @ commit_writes (log_start s) (nat (lh_n s)) (lh_block s) (content s)
       (disk s (1, log_start s))"
    "disk u = apply_writes (disk s) (commit_writes (log_start s) (nat (lh_n s)) (lh_block s) (content s)
       (disk s (1, log_start s)))"
proof -
  let ?n = "nat (lh_n s)" and ?st = "log_start s" and ?bl = "lh_block s"
  have r: "bc_ok s" "locks s = {}" "log_shape s" "0 < lh_n s" "card (dirties s) < NBUF" "distinct (take ?n ?bl)"
    "\<And>b. pinned s b \<noteq> None \<longleftrightarrow> b \<in> set (take ?n ?bl)"
    using rdy unfolding commit_ready_def by blast+
  have n: "?n \<le> LOGDATA" "?n \<le> length ?bl" "int ?n = lh_n s" using r(3) by (auto simp: log_shape_def LOGDATA_def)
  have st: "unat ?st + LOGDATA < FSSIZE" and out: "\<And>t. t < ?n \<Longrightarrow> outside ?st (?bl ! t)"
    using r(3) by (auto simp: log_shape_def)
  have inset: "?bl ! t \<in> set (take ?n ?bl)" if "t < ?n" for t
    using that n(2) by (auto simp: in_set_conv_nth)
  have outset: "outside ?st b" if "b \<in> set (take ?n ?bl)" for b
    using that out n(2) by (auto simp: in_set_conv_nth)
  have lb: "unat (log_blk ?st t) < FSSIZE" "log_blk ?st t \<noteq> ?st" "outside ?st b \<Longrightarrow> log_blk ?st t \<noteq> b"
    if "t < ?n" for t b
    using log_blk_facts(1-3) [OF st, of t] that n(1) by simp_all
  have nolog: "pinned s (log_blk ?st t) = None" if "t < ?n" for t
    using r(7) lb(3) [OF that outset] by (metis option.exhaust)
  have "?st \<notin> set (take ?n ?bl)" using outset [of ?st] by (auto simp: outside_def)
  then have nost: "pinned s ?st = None" using r(7) [of ?st] by (cases "pinned s ?st") simp_all
  have pin: "pinned s (?bl ! t) \<noteq> None" if "t < ?n" for t using r(7) inset [OF that] by blast
  let ?w1 = "map (\<lambda>t. ((1, log_blk ?st t), content s (?bl ! t))) [0..<?n]"
  obtain a where a: "write_log s = Val a" "moved s ?w1 (pinned s) a"
    using write_log_loop [OF r(1-3) order_refl r(5)] pin nolog by (auto simp: write_log_def)
  note fa = moved_fields [OF a(2)]
  have oka: "bc_ok a" "locks a = {}" "dirties a \<subseteq> dirties s" using a(2) by (auto simp: moved_def)
  have ra: "card (dirties a) < NBUF" using card_mono [OF finite_dirties oka(3)] r(5) by simp
  have shn: "?st \<notin> (\<lambda>t. log_blk ?st t) ` {..<?n}"
  proof
    assume "?st \<in> (\<lambda>t. log_blk ?st t) ` {..<?n}"
    then obtain t where "t < ?n" "?st = log_blk ?st t" by blast
    with lb(2) [of t] show False by metis
  qed
  have da: "disk a (1, ?st) = disk s (1, ?st)"
    using a(2) shn by (simp add: moved_def) (rule apply_writes_other, auto)
  have ca: "content a ?st = disk s (1, ?st)"
    using a(2) da nost by (simp add: content_def moved_def)
  let ?h1 = "head_data (lh_n s) ?bl (disk s (1, ?st))"
  obtain b where b: "write_head a = Val b" "moved a [((1, ?st), ?h1)] ((pinned a)(?st := None)) b"
    using write_head_spec [OF oka(1,2) _ _ ra] fa st r(3) ca by (auto simp: log_shape_def)
  have pb: "(pinned a)(?st := None) = pinned s" using a(2) nost by (auto simp: moved_def)
  note fb = moved_fields [OF b(2)]
  have okb: "bc_ok b" "locks b = {}" "dirties b \<subseteq> dirties a" using b(2) by (auto simp: moved_def)
  have rb: "card (dirties b) < NBUF" using card_mono [OF finite_dirties okb(3)] ra by simp
  have shb: "log_shape b" using r(3) fa fb by (simp add: log_shape_def)
  have pinb: "pinned b = pinned s" using b(2) pb by (simp add: moved_def)
  have sb: "moved s (?w1 @ [((1, ?st), ?h1)]) (pinned s) b" using moved_trans [OF a(2)] b(2) pb by simp
  have dist: "distinct (map fst (?w1 @ [((1, ?st), ?h1)]))"
  proof -
    have "inj_on (log_blk ?st) {..<?n}"
      using log_blk_facts(4) [OF st] n(1) by (intro inj_onI) auto
    then show ?thesis using shn by (auto simp: distinct_map comp_def inj_on_def)
  qed
  have db: "disk b (1, log_blk ?st t) = content s (?bl ! t)" if "t < ?n" for t
  proof -
    have "((1, log_blk ?st t), content s (?bl ! t)) \<in> set (?w1 @ [((1, ?st), ?h1)])" using that by auto
    from apply_writes_last [OF dist this] show ?thesis using sb by (simp add: moved_def)
  qed
  have roomb: "card (dirties b) + 1 < NBUF \<or> distinct (take (nat (lh_n b)) (lh_block b)) \<and>
      (\<forall>t < nat (lh_n b). pinned b (lh_block b ! t) \<noteq> None)"
    using r(6) pin pinb fa fb by simp
  let ?w3 = "map (\<lambda>t. ((1, ?bl ! t), disk b (1, log_blk ?st t))) [0..<?n]"
  obtain c where c: "install_trans b = Val c"
    "moved b ?w3 (\<lambda>x. if x \<in> set (take ?n ?bl) then None else pinned b x) c"
    using install_loop [OF okb(1,2) shb order_refl rb roomb] pinb nolog fa fb
    by (auto simp: install_trans_def)
  have w3: "?w3 = map (\<lambda>t. ((1, ?bl ! t), content s (?bl ! t))) [0..<?n]" using db by auto
  have pc: "(\<lambda>x. if x \<in> set (take ?n ?bl) then None else pinned b x) = (\<lambda>x. None)"
  proof
    fix x
    show "(if x \<in> set (take ?n ?bl) then None else pinned b x) = None"
      using r(7) [of x] by (cases "pinned s x") (simp_all add: pinb)
  qed
  have sc: "moved s ((?w1 @ [((1, ?st), ?h1)]) @ ?w3) (\<lambda>x. None) c" using moved_trans [OF sb c(2)] pc by simp
  note fc = moved_fields [OF c(2)]
  define e where "e = c\<lparr>lh_n := 0\<rparr>"
  have oke: "bc_ok e" "locks e = {}" "pinned e = (\<lambda>x. None)" using c(2) pc by (auto simp: moved_def e_def)
  have "dirties e \<subseteq> dirties b" using c(2) by (auto simp: moved_def e_def)
  then have re: "card (dirties e) < NBUF" using card_mono [OF finite_dirties] rb by (metis le_less_trans)
  have nw: "(1, ?st) \<notin> fst ` set ?w3"
  proof
    assume "(1, ?st) \<in> fst ` set ?w3"
    then obtain t where "t < ?n" "?st = ?bl ! t" by auto
    with out [of t] show False by (simp add: outside_def)
  qed
  have "disk c (1, ?st) = disk b (1, ?st)" using c(2) apply_writes_other [OF nw] by (simp add: moved_def)
  also have "\<dots> = ?h1" using b(2) by (simp add: moved_def)
  finally have ce: "content e ?st = ?h1" using oke(3) by (simp add: content_def e_def)
  obtain u where u: "write_head e = Val u" "moved e [((1, ?st), head_data 0 ?bl ?h1)] (\<lambda>x. None) u"
    using write_head_spec [OF oke(1,2) _ _ re] fa fb fc st r(3) ce oke(3)
    by (auto simp: log_shape_def e_def fun_upd_idem)
  have cm: "commit s = Val u" using r(4) a(1) b(1) c(1) u(1) by (simp add: commit_def e_def)
  have ws: "((?w1 @ [((1, ?st), ?h1)]) @ ?w3) @ [((1, ?st), head_data 0 ?bl ?h1)] =
      commit_writes ?st ?n ?bl (content s) (disk s (1, ?st))"
    unfolding w3 commit_writes_def n(3) by simp
  have "disk u = apply_writes (disk c) [((1, ?st), head_data 0 ?bl ?h1)]"
    "written u = written c @ [((1, ?st), head_data 0 ?bl ?h1)]"
    using u(2) by (simp_all add: moved_def e_def)
  moreover have "disk c = apply_writes (disk s) ((?w1 @ [((1, ?st), ?h1)]) @ ?w3)"
    "written c = written s @ ((?w1 @ [((1, ?st), ?h1)]) @ ?w3)"
    using sc by (simp_all only: moved_def)
  ultimately have fin: "disk u = apply_writes (disk s) (((?w1 @ [((1, ?st), ?h1)]) @ ?w3) @ [((1, ?st), head_data 0 ?bl ?h1)])"
    "written u = written s @ (((?w1 @ [((1, ?st), ?h1)]) @ ?w3) @ [((1, ?st), head_data 0 ?bl ?h1)])"
    by (simp_all only: apply_writes_simps append_assoc)
  show thesis
  proof (rule that [OF cm])
    show "bc_ok u" "locks u = {}" "pinned u = (\<lambda>b. None)" using u(2) by (simp_all add: moved_def)
    show "lh_n u = 0" "log_start u = ?st" "outstanding u = outstanding s" using moved_fields [OF u(2)] fa fb fc by (simp_all add: e_def)
  qed (use fin in \<open>simp_all only: ws\<close>)
qed

end
