(* ===== verification/Xv6_Crash.thy ===== *)
theory Xv6_Crash
  imports Xv6_Log
begin

text \<open>
  Crash safety of the log: the header's encoding, what recovery does to a disk, and the theorem
  that a crash anywhere in a commit, followed by any number of interrupted recoveries and a
  complete one, gives the file system before the transaction or after it.
\<close>

section \<open>The header's encoding\<close>

lemma le32_length [simp]: "length (le32 w) = 4"
  by (simp add: le32_def)

lemma put32_length: "off + 4 \<le> length bs \<Longrightarrow> length (put32 off w bs) = length bs"
  by (simp add: put32_def)

lemma join_bytes:
  fixes w :: uint
  shows "or (ucast (ucast w :: byte)) (or (push_bit 8 (ucast (ucast (drop_bit 8 w) :: byte)))
     (or (push_bit 16 (ucast (ucast (drop_bit 16 w) :: byte)))
         (push_bit 24 (ucast (ucast (drop_bit 24 w) :: byte))))) = w" (is "?l = w")
proof (rule bit_word_eqI)
  fix n assume n: "n < LENGTH(32)"
  then consider "n < 8" | "8 \<le> n" "n < 16" | "16 \<le> n" "n < 24" | "24 \<le> n" "n < 32" by fastforce
  then show "bit ?l n = bit w n"
    by cases (use n in \<open>auto simp: bit_simps\<close>)
qed

lemma put32_nth:
  assumes "off + 4 \<le> length bs" "i < length bs"
  shows "put32 off w bs ! i = (if off \<le> i \<and> i < off + 4 then le32 w ! (i - off) else bs ! i)"
  using assms by (auto simp: put32_def nth_append min_def)

lemma get32_put32_same: "off + 4 \<le> length bs \<Longrightarrow> get32 off (put32 off w bs) = w"
  by (simp add: get32_def put32_nth le32_def join_bytes)

lemma get32_put32_other:
  "off + 4 \<le> length bs \<Longrightarrow> pos + 4 \<le> length bs \<Longrightarrow> pos + 4 \<le> off \<or> off + 4 \<le> pos \<Longrightarrow>
   get32 pos (put32 off w bs) = get32 pos bs"
proof -
  assume a: "off + 4 \<le> length bs" "pos + 4 \<le> length bs" "pos + 4 \<le> off \<or> off + 4 \<le> pos"
  have n: "put32 off w bs ! (pos + k) = bs ! (pos + k)" if "k < 4" for k
  proof -
    have p: "pos + k < length bs" "\<not> (off \<le> pos + k \<and> pos + k < off + 4)" using a that by linarith+
    show ?thesis unfolding put32_nth [OF a(1) p(1)] by (rule if_not_P [OF p(2)])
  qed
  show ?thesis using n [of 0] n [of 1] n [of 2] n [of 3] by (simp add: get32_def)
qed

lemma head_data_props:
  assumes "length d = BSIZE" "n \<le> int LOGSIZE"
  shows "length (head_data n bl d) = BSIZE" "get32 0 (head_data n bl d) = word_of_int n"
    "i < nat n \<Longrightarrow> get32 (4 + 4 * i) (head_data n bl d) = bl ! i"
proof -
  have step: "k \<le> LOGSIZE \<Longrightarrow> length e = BSIZE \<Longrightarrow>
      length (foldl (\<lambda>d i. put32 (4 + 4 * i) (bl ! i) d) e [0..<k]) = BSIZE \<and>
      get32 0 (foldl (\<lambda>d i. put32 (4 + 4 * i) (bl ! i) d) e [0..<k]) = get32 0 e \<and>
      (\<forall>i < k. get32 (4 + 4 * i) (foldl (\<lambda>d i. put32 (4 + 4 * i) (bl ! i) d) e [0..<k]) = bl ! i)" for k e
  proof (induction k)
    case 0
    then show ?case by simp
  next
    case (Suc k)
    then show ?case
      by (simp add: BSIZE_def LOGSIZE_def put32_length get32_put32_same get32_put32_other less_Suc_eq)
  qed
  have l: "length (put32 0 (word_of_int n) d) = BSIZE" using assms(1) by (simp add: put32_length BSIZE_def)
  have n: "nat n \<le> LOGSIZE" using assms(2) by simp
  note s = step [OF n l]
  show "length (head_data n bl d) = BSIZE" "get32 0 (head_data n bl d) = word_of_int n"
    "i < nat n \<Longrightarrow> get32 (4 + 4 * i) (head_data n bl d) = bl ! i"
    using s assms(1) by (simp_all add: head_data_def get32_put32_same BSIZE_def)
qed

section \<open>Recovery\<close>

text \<open>The log header on a disk: its count, and the block numbers it names.\<close>

definition hdr_n :: "uint \<Rightarrow> (blockid \<Rightarrow> byte list) \<Rightarrow> int" where
  "hdr_n start d = sint (get32 0 (d (1, start)))"

definition hdr_blk :: "uint \<Rightarrow> (blockid \<Rightarrow> byte list) \<Rightarrow> nat \<Rightarrow> uint" where
  "hdr_blk start d t = get32 (4 + 4 * t) (d (1, start))"

definition recover_writes :: "uint \<Rightarrow> (blockid \<Rightarrow> byte list) \<Rightarrow> dwrite list" where
  "recover_writes start d =
     map (\<lambda>t. ((1, hdr_blk start d t), d (1, log_blk start t))) [0..<nat (hdr_n start d)] @
     [((1, start), put32 0 0 (d (1, start)))]"

text \<open>A disk whose log recovery can read: the count is in range and the blocks lie outside the log.\<close>

definition disk_ok :: "uint \<Rightarrow> (blockid \<Rightarrow> byte list) \<Rightarrow> bool" where
  "disk_ok start d \<longleftrightarrow> unat start + LOGDATA < FSSIZE \<and> length (d (1, start)) = BSIZE \<and>
     0 \<le> hdr_n start d \<and> hdr_n start d \<le> int LOGDATA \<and>
     (\<forall>t < nat (hdr_n start d). outside start (hdr_blk start d t))"

text \<open>The machine after a reboot: an empty cache, zeroed log state, \<open>initlog\<close>'s fields filled in.\<close>

definition boot_log :: "uint \<Rightarrow> int \<Rightarrow> (blockid \<Rightarrow> byte list) \<Rightarrow> logsys" where
  "boot_log start nlog d = binit
     \<lparr>bufs = replicate NBUF zero_buf, mru = [], disk = d, written = [], havedisk1 = True, me = 1,
      log_start = start, log_size = nlog, outstanding = 0, committing = False, log_dev = 1,
      lh_n = 0, lh_block = replicate LOGSIZE 0\<rparr>"

lemma boot_log_sel [simp]:
  "bufs (boot_log start nlog d) = replicate NBUF zero_buf" "disk (boot_log start nlog d) = d"
  "written (boot_log start nlog d) = []" "havedisk1 (boot_log start nlog d)"
  "mru (boot_log start nlog d) = rev [0..<NBUF]" "log_start (boot_log start nlog d) = start"
  "log_dev (boot_log start nlog d) = 1" "log_size (boot_log start nlog d) = nlog" "lh_n (boot_log start nlog d) = 0"
  "lh_block (boot_log start nlog d) = replicate LOGSIZE 0"
proof -
  have "foldl (\<lambda>l b. b # l) acc xs = rev xs @ acc" for acc xs :: "nat list"
    by (induction xs arbitrary: acc) simp_all
  then show "mru (boot_log start nlog d) = rev [0..<NBUF]" by (simp add: boot_log_def binit_def)
qed (simp_all add: boot_log_def binit_def)

lemma boot_log_ok:
  "bc_ok (boot_log start nlog d)" "locks (boot_log start nlog d) = {}"
  "dirties (boot_log start nlog d) = {}" "pinned (boot_log start nlog d) = (\<lambda>b. None)"
proof -
  show "bc_ok (boot_log start nlog d)" by (rule bc_okI) (auto simp: zero_buf_def)
  show "locks (boot_log start nlog d) = {}" "dirties (boot_log start nlog d) = {}"
    by (auto simp: locks_def dirties_def zero_buf_def)
  show "pinned (boot_log start nlog d) = (\<lambda>b. None)"
    by (auto simp: fun_eq_iff pinned_None zero_buf_def)
qed

lemma foldl_update:
  "k \<le> length bl \<Longrightarrow> length (foldl (\<lambda>bl i. bl[i := f i]) bl [0..<k]) = length bl \<and>
     (\<forall>i < k. foldl (\<lambda>bl i. bl[i := f i]) bl [0..<k] ! i = f i)"
  by (induction k) (auto simp: nth_list_update less_Suc_eq)

lemma lh_base [simp]:
  "bufs (s\<lparr>lh_n := n, lh_block := bl\<rparr>) = bufs s" "mru (s\<lparr>lh_n := n, lh_block := bl\<rparr>) = mru s"
  "disk (s\<lparr>lh_n := n, lh_block := bl\<rparr>) = disk s" "written (s\<lparr>lh_n := n, lh_block := bl\<rparr>) = written s"
  "havedisk1 (s\<lparr>lh_n := n, lh_block := bl\<rparr>) = havedisk1 s" "me (s\<lparr>lh_n := n, lh_block := bl\<rparr>) = me s"
  by (cases s; simp)+

lemma lh_upd [simp]:
  "bc_ok (s\<lparr>lh_n := n, lh_block := bl\<rparr>) = bc_ok s" "locks (s\<lparr>lh_n := n, lh_block := bl\<rparr>) = locks s"
  "dirties (s\<lparr>lh_n := n, lh_block := bl\<rparr>) = dirties s" "pinned (s\<lparr>lh_n := n, lh_block := bl\<rparr>) = pinned s"
  by (simp_all add: bc_ok_def locks_def dirties_def pinned_def fun_eq_iff)

lemma read_head_spec:
  assumes ok: "bc_ok s" "locks s = {}" "card (dirties s) < NBUF" and p: "pinned s = (\<lambda>b. None)"
    and sh: "log_dev s = 1" "length (lh_block s) = LOGSIZE" "disk_ok (log_start s) (disk s)"
  obtains u where "read_head s = Val u" "bc_ok u" "locks u = {}" "dirties u = dirties s" "pinned u = (\<lambda>b. None)"
    "disk u = disk s" "written u = written s" "log_start u = log_start s" "log_dev u = 1"
    "lh_n u = hdr_n (log_start s) (disk s)" "length (lh_block u) = LOGSIZE"
    "\<And>t. t < nat (lh_n u) \<Longrightarrow> lh_block u ! t = hdr_blk (log_start s) (disk s) t"
proof -
  let ?st = "log_start s"
  have st: "unat ?st < FSSIZE" using sh(3) by (simp add: disk_ok_def)
  obtain i t where r: "bread 1 ?st s = Val (i, t)" and rt: "read_into s ?st i t"
    using bread_spec [OF ok(1) st] ok(2,3) by auto
  note rt = rt [unfolded read_into_def, simplified ok(2)]
  let ?d = "disk s (1, ?st)"
  have c: "content s ?st = ?d" using p by (simp add: content_def)
  have d: "b_data (buf_at t i) = ?d" using rt c by simp
  let ?n = "hdr_n ?st (disk s)"
  let ?bl = "foldl (\<lambda>bl i. bl[i := get32 (4 + 4 * i) ?d]) (lh_block t) [0..<nat ?n]"
  define v where "v = t\<lparr>lh_n := ?n, lh_block := ?bl\<rparr>"
  have n: "?n \<le> int LOGSIZE" "0 \<le> ?n" using sh(3) by (simp_all add: disk_ok_def LOGDATA_def LOGSIZE_def)
  have ft: "lh_block t = lh_block s" "log_start t = ?st" "log_dev t = 1"
    using log_fields [of t s] rt sh(1) by auto
  have bl: "length ?bl = LOGSIZE" "\<forall>t < nat ?n. ?bl ! t = hdr_blk ?st (disk s) t"
    using foldl_update [of "nat ?n" "lh_block t"] n sh(2) ft(1) by (simp_all add: hdr_blk_def)
  have v: "bc_ok v" "i < NBUF" "b_holder (buf_at v i) = Some (me v)" using rt by (simp_all add: v_def)
  obtain u where u: "brelse i v = Val u" "bc_ok u" "disk u = disk v" "written u = written v"
    "me u = me v" "bcache.more u = bcache.more v" "dirties u = dirties v" "pinned u = pinned v" "locks u = locks v - {i}"
    by (rule brelse_spec [OF v]) blast
  have fu: "lh_n u = ?n" "lh_block u = ?bl" "log_start u = ?st" "log_dev u = 1"
    using log_fields [OF u(6)] ft by (simp_all add: v_def)
  have "read_head s = Val u"
    using r u(1) sh(1) d n by (simp add: read_head_def v_def hdr_n_def Let_def)
  then show thesis
  proof (rule that)
    show "bc_ok u" "disk u = disk s" "written u = written s" "dirties u = dirties s" "pinned u = (\<lambda>b. None)"
      "locks u = {}"
      using u rt p by (auto simp: v_def)
  qed (use fu bl in simp_all)
qed

text \<open>
  Recovery as a function on disks: on a quiet cache it issues exactly \<open>recover_writes\<close>.
\<close>

lemma recover_spec:
  assumes ok: "bc_ok s" "locks s = {}" "dirties s = {}" and p: "pinned s = (\<lambda>b. None)"
    and sh: "log_dev s = 1" "length (lh_block s) = LOGSIZE" "disk_ok (log_start s) (disk s)"
  obtains u where "recover_from_log s = Val u" "disk u = apply_writes (disk s) (recover_writes (log_start s) (disk s))"
    "written u = written s @ recover_writes (log_start s) (disk s)" "bc_ok u" "locks u = {}"
    "pinned u = (\<lambda>b. None)" "lh_n u = 0"
proof -
  let ?st = "log_start s" and ?n = "nat (hdr_n (log_start s) (disk s))"
  have c0: "card (dirties s) < NBUF" using ok(3) by (simp add: NBUF_def)
  obtain a where a: "read_head s = Val a" "bc_ok a" "locks a = {}" "dirties a = dirties s" "pinned a = (\<lambda>b. None)"
    "disk a = disk s" "written a = written s" "log_start a = ?st" "log_dev a = 1"
    "lh_n a = hdr_n ?st (disk s)" "length (lh_block a) = LOGSIZE"
    "\<And>t. t < nat (lh_n a) \<Longrightarrow> lh_block a ! t = hdr_blk ?st (disk s) t"
    by (rule read_head_spec [OF ok(1,2) c0 p sh]) blast
  have n: "?n \<le> LOGDATA" "0 \<le> hdr_n ?st (disk s)" and st: "unat ?st + LOGDATA < FSSIZE"
    and out: "\<And>t. t < ?n \<Longrightarrow> outside ?st (hdr_blk ?st (disk s) t)"
    using sh(3) by (auto simp: disk_ok_def)
  have sha: "log_shape a" using a(8-12) n st out sh(3) by (auto simp: log_shape_def disk_ok_def)
  have ra: "card (dirties a) < NBUF" "card (dirties a) + 1 < NBUF" using a(4) ok(3) by (simp_all add: NBUF_def)
  let ?w = "map (\<lambda>t. ((1, lh_block a ! t), disk a (1, log_blk (log_start a) t))) [0..<?n]"
  have pa: "(\<lambda>b. if b \<in> set (take k (lh_block a)) then None else pinned a b) = (\<lambda>x. None)" for k
    by (rule ext) (simp add: a(5))
  obtain b where b: "install_trans a = Val b" "moved a ?w (\<lambda>x. None) b"
    using install_loop [OF a(2,3) sha order_refl ra(1) disjI1 [OF ra(2)]] a(5,10) pa
    by (auto simp: install_trans_def)
  note fb = moved_fields [OF b(2)]
  have w: "?w = map (\<lambda>t. ((1, hdr_blk ?st (disk s) t), disk s (1, log_blk ?st t))) [0..<?n]"
    using a(6,8,10,12) by simp
  define e where "e = b\<lparr>lh_n := 0\<rparr>"
  have e: "bc_ok e" "locks e = {}" "pinned e = (\<lambda>x. None)" "dirties e \<subseteq> dirties a"
    "log_start e = ?st" "log_dev e = 1" "lh_n e = 0" "disk e = apply_writes (disk s) ?w" "written e = written s @ ?w"
    using b(2) fb a(6-9) by (simp_all add: moved_def e_def)
  have "card (dirties e) < NBUF" using e(4) a(4) ok(3) by (simp add: NBUF_def)
  then obtain u where u: "write_head e = Val u"
    "moved e [((1, ?st), head_data 0 (lh_block e) (content e ?st))] ((pinned e)(?st := None)) u"
    using write_head_spec [OF e(1,2,6)] e(5,7) st by auto
  have nw: "(1, ?st) \<notin> fst ` set ?w"
  proof
    assume "(1, ?st) \<in> fst ` set ?w"
    then obtain t where "t < ?n" "?st = hdr_blk ?st (disk s) t" using w by auto
    with out [of t] show False by (simp add: outside_def)
  qed
  have "content e ?st = disk s (1, ?st)"
    using e(3,8) apply_writes_other [OF nw] by (simp add: content_def)
  then have h: "head_data 0 (lh_block e) (content e ?st) = put32 0 0 (disk s (1, ?st))"
    by (simp add: head_data_def)
  have ws: "?w @ [((1, ?st), put32 0 0 (disk s (1, ?st)))] = recover_writes ?st (disk s)"
    unfolding w by (simp add: recover_writes_def)
  have "recover_from_log s = Val u" using a(1) b(1) u(1) by (simp add: recover_from_log_def e_def)
  moreover have "disk u = apply_writes (disk s) (?w @ [((1, ?st), put32 0 0 (disk s (1, ?st)))])"
    using u(2) e(8) h by (simp add: moved_def)
  moreover have "written u = written s @ (?w @ [((1, ?st), put32 0 0 (disk s (1, ?st)))])"
    using u(2) e(9) h by (simp add: moved_def)
  ultimately show thesis
    using u(2) e(3,7) moved_fields [OF u(2)] that unfolding ws by (simp add: moved_def)
qed

lemma recover_boot:
  assumes "disk_ok start d"
  obtains u where "recover_from_log (boot_log start nlog d) = Val u"
    "disk u = apply_writes d (recover_writes start d)" "written u = recover_writes start d"
    "bc_ok u" "locks u = {}" "pinned u = (\<lambda>b. None)" "lh_n u = 0"
  by (rule recover_spec [OF boot_log_ok [of start nlog d]])
    (use assms that in \<open>simp_all\<close>)

section \<open>Crashes\<close>

text \<open>The disk of a machine that keeps crashing while it recovers.\<close>

inductive reboots :: "uint \<Rightarrow> int \<Rightarrow> (blockid \<Rightarrow> byte list) \<Rightarrow> (blockid \<Rightarrow> byte list) \<Rightarrow> bool"
  for start nlog d where
  none: "reboots start nlog d d"
| crash: "reboots start nlog d e \<Longrightarrow> recover_from_log (boot_log start nlog e) = Val u \<Longrightarrow>
    reboots start nlog d (apply_writes e (take j (written u)))"

text \<open>A disk with an empty log that holds \<open>c\<close>, and one with a committed transaction still to install.\<close>

definition clean :: "uint \<Rightarrow> (uint \<Rightarrow> byte list) \<Rightarrow> (blockid \<Rightarrow> byte list) \<Rightarrow> bool" where
  "clean start c d \<longleftrightarrow> disk_ok start d \<and> hdr_n start d = 0 \<and> (\<forall>b. outside start b \<longrightarrow> d (1, b) = c b)"

definition pending :: "uint \<Rightarrow> uint list \<Rightarrow> (uint \<Rightarrow> byte list) \<Rightarrow> (blockid \<Rightarrow> byte list) \<Rightarrow> bool" where
  "pending start bs c d \<longleftrightarrow> disk_ok start d \<and> hdr_n start d = int (length bs) \<and>
     (\<forall>t < length bs. hdr_blk start d t = bs ! t \<and> d (1, log_blk start t) = c (bs ! t)) \<and>
     (\<forall>b. outside start b \<longrightarrow> b \<notin> set bs \<longrightarrow> d (1, b) = c b)"

lemma disk_ok_cong:
  "disk_ok start d \<Longrightarrow> e (1, start) = d (1, start) \<Longrightarrow> disk_ok start e"
  "e (1, start) = d (1, start) \<Longrightarrow> hdr_n start e = hdr_n start d"
  "e (1, start) = d (1, start) \<Longrightarrow> hdr_blk start e = hdr_blk start d"
  by (simp_all add: disk_ok_def hdr_n_def hdr_blk_def fun_eq_iff)

lemma disk_ok_zero:
  assumes "disk_ok start d" "length h = BSIZE" "get32 0 h = 0"
  shows "disk_ok start (d((1, start) := h))" "hdr_n start (d((1, start) := h)) = 0"
  using assms by (simp_all add: disk_ok_def hdr_n_def)

lemma outside_start: "outside start b \<Longrightarrow> b \<noteq> start"
  by (auto simp: outside_def)

lemma zero_head:
  assumes "disk_ok start d"
  shows "length (put32 0 0 (d (1, start))) = BSIZE" "get32 0 (put32 0 0 (d (1, start))) = 0"
  using assms by (simp_all add: disk_ok_def put32_length get32_put32_same BSIZE_def)

lemma clean_recover:
  assumes "clean start c d"
  shows "clean start c (apply_writes d (take j (recover_writes start d)))"
proof -
  have d: "disk_ok start d" "hdr_n start d = 0" using assms by (simp_all add: clean_def)
  have w: "recover_writes start d = [((1, start), put32 0 0 (d (1, start)))]"
    using d(2) by (simp add: recover_writes_def)
  have "clean start c (d((1, start) := put32 0 0 (d (1, start))))"
    using assms disk_ok_zero [OF d(1) zero_head [OF d(1)]] by (auto simp: clean_def dest: outside_start)
  then show ?thesis using assms by (cases j) (simp_all add: w)
qed

text \<open>The disk after some installs: writes to named blocks of what they are to hold.\<close>

lemma pending_install:
  assumes p: "pending start bs c d" and k: "k \<le> length bs"
  shows "pending start bs c (apply_writes d (map (\<lambda>t. ((1, bs ! t), c (bs ! t))) [0..<k]))"
    "\<And>b. b \<in> set (take k bs) \<Longrightarrow>
       apply_writes d (map (\<lambda>t. ((1, bs ! t), c (bs ! t))) [0..<k]) (1, b) = c b"
proof -
  let ?w = "map (\<lambda>t. ((1, bs ! t), c (bs ! t))) [0..<k]"
  let ?e = "apply_writes d ?w"
  have ok: "disk_ok start d" "hdr_n start d = int (length bs)"
    "\<And>t. t < length bs \<Longrightarrow> hdr_blk start d t = bs ! t" "\<And>t. t < length bs \<Longrightarrow> d (1, log_blk start t) = c (bs ! t)"
    using p by (simp_all add: pending_def)
  have st: "unat start + LOGDATA < FSSIZE" and n: "length bs \<le> LOGDATA"
    and out: "\<And>t. t < length bs \<Longrightarrow> outside start (bs ! t)"
    using ok(1-3) by (auto simp: disk_ok_def)
  have nin: "(1, b) \<notin> fst ` set ?w" if "\<forall>t < length bs. bs ! t \<noteq> b" for b
  proof
    assume "(1, b) \<in> fst ` set ?w"
    then obtain t where "t < k" "b = bs ! t" by auto
    with that k show False by (metis less_le_trans)
  qed
  have hd: "?e (1, start) = d (1, start)"
    by (rule apply_writes_other, rule nin) (use out outside_start in blast)
  have lg: "?e (1, log_blk start t) = d (1, log_blk start t)" if "t < length bs" for t
    by (rule apply_writes_other, rule nin)
      (use log_blk_facts(3) [OF st, of t] out that n in \<open>metis less_le_trans\<close>)
  have other: "?e (1, b) = d (1, b)" if "b \<notin> set bs" for b
    by (rule apply_writes_other, rule nin) (use that in \<open>metis nth_mem\<close>)
  show "pending start bs c ?e"
    using p lg other disk_ok_cong [where d = d and e = ?e and start = start] hd by (simp add: pending_def)
  have val: "apply_writes d ws (1, b) = c b"
    if "(1, b) \<in> fst ` set ws" "\<And>k v. (k, v) \<in> set ws \<Longrightarrow> v = c (snd k)" for b ws
    using that
  proof (induction ws rule: rev_induct)
    case Nil
    then show ?case by simp
  next
    case (snoc w ws)
    obtain k v where w: "w = (k, v)" by fastforce
    have v: "v = c (snd k)" using snoc.prems(2) [of k v] w by simp
    show ?case
    proof (cases "k = (1, b)")
      case True
      then show ?thesis using w v by simp
    next
      case False
      then have "(1, b) \<in> fst ` set ws" using snoc.prems(1) w by auto
      then show ?thesis using snoc.IH snoc.prems(2) w False by simp
    qed
  qed
  show "?e (1, b) = c b" if b: "b \<in> set (take k bs)" for b
  proof (rule val)
    obtain t where "t < k" "bs ! t = b" using b k by (auto simp: in_set_conv_nth)
    then show "(1, b) \<in> fst ` set ?w" by force
  qed auto
qed

lemma pending_recover:
  assumes p: "pending start bs c d"
  shows "pending start bs c (apply_writes d (take j (recover_writes start d))) \<or>
         clean start c (apply_writes d (take j (recover_writes start d)))"
    and "clean start c (apply_writes d (recover_writes start d))"
proof -
  let ?w = "map (\<lambda>t. ((1, bs ! t), c (bs ! t))) [0..<length bs]"
  have w: "recover_writes start d = ?w @ [((1, start), put32 0 0 (d (1, start)))]"
    using p by (simp add: recover_writes_def pending_def)
  note a = pending_install [OF p order_refl]
  let ?e = "apply_writes d ?w"
  have e: "disk_ok start ?e" using a(1) by (simp add: pending_def)
  have hd: "?e (1, start) = d (1, start)"
  proof (rule apply_writes_other)
    have "bs ! t \<noteq> start" if "t < length bs" for t
    proof -
      have "t < nat (hdr_n start d)" "hdr_blk start d t = bs ! t" "disk_ok start d"
        using p that by (simp_all add: pending_def)
      then have "outside start (bs ! t)" unfolding disk_ok_def by metis
      then show ?thesis by (rule outside_start)
    qed
    then show "(1, start) \<notin> fst ` set ?w" by force
  qed
  show full: "clean start c (apply_writes d (recover_writes start d))"
  proof -
    have "?e (1, b) = c b" if "outside start b" for b
      using a that by (cases "b \<in> set bs") (auto simp: pending_def)
    then show ?thesis
      using disk_ok_zero [OF e, of "put32 0 0 (d (1, start))"] zero_head [OF e] hd
      by (auto simp: clean_def w dest: outside_start)
  qed
  show "pending start bs c (apply_writes d (take j (recover_writes start d))) \<or>
         clean start c (apply_writes d (take j (recover_writes start d)))"
  proof (cases "j \<le> length bs")
    case True
    then have "take j (recover_writes start d) = map (\<lambda>t. ((1, bs ! t), c (bs ! t))) [0..<j]"
      by (simp add: w take_map)
    then show ?thesis using pending_install(1) [OF p True] by simp
  next
    case False
    then have "take j (recover_writes start d) = recover_writes start d" by (simp add: w)
    then show ?thesis using full by simp
  qed
qed

section \<open>The theorem\<close>

lemma clean_reboots: "reboots start nlog d e \<Longrightarrow> clean start c d \<Longrightarrow> clean start c e"
proof (induction rule: reboots.induct)
  case none
  then show ?case by simp
next
  case (crash e u j)
  then have e: "clean start c e" by simp
  then have "disk_ok start e" by (simp add: clean_def)
  then have "written u = recover_writes start e"
    using recover_boot [of start e nlog] crash.hyps(2) by (metis outcome.inject(2))
  then show ?case using clean_recover [OF e] by simp
qed

lemma pending_reboots:
  "reboots start nlog d e \<Longrightarrow> pending start bs c d \<Longrightarrow> pending start bs c e \<or> clean start c e"
proof (induction rule: reboots.induct)
  case none
  then show ?case by simp
next
  case (crash e u j)
  then have e: "pending start bs c e \<or> clean start c e" by simp
  then have "disk_ok start e" by (auto simp: clean_def pending_def)
  then have "written u = recover_writes start e"
    using recover_boot [of start e nlog] crash.hyps(2) by (metis outcome.inject(2))
  then show ?case using clean_recover [of start c e j] pending_recover(1) [of start bs c e j] e by auto
qed

text \<open>The disk after the first \<open>k\<close> writes of a commit.\<close>

lemma commit_prefix:
  assumes rdy: "commit_ready s" and d0: "disk_ok (log_start s) (disk s)" "hdr_n (log_start s) (disk s) = 0"
  defines "ws \<equiv> commit_writes (log_start s) (nat (lh_n s)) (lh_block s) (content s) (disk s (1, log_start s))"
  shows "k \<le> nat (lh_n s) \<Longrightarrow> clean (log_start s) (\<lambda>b. disk s (1, b)) (apply_writes (disk s) (take k ws))"
    and "nat (lh_n s) < k \<Longrightarrow> pending (log_start s) (take (nat (lh_n s)) (lh_block s)) (content s)
             (apply_writes (disk s) (take k ws)) \<or>
           clean (log_start s) (content s) (apply_writes (disk s) (take k ws))"
proof -
  let ?n = "nat (lh_n s)" and ?st = "log_start s" and ?bs = "take (nat (lh_n s)) (lh_block s)"
  have sh: "log_shape s" and n0: "0 < lh_n s" and pin: "\<And>b. pinned s b \<noteq> None \<longleftrightarrow> b \<in> set ?bs"
    using rdy unfolding commit_ready_def by blast+
  have n: "?n \<le> LOGDATA" "length ?bs = ?n" "?n \<le> length (lh_block s)" "int ?n = lh_n s"
    using sh n0 by (auto simp: log_shape_def LOGDATA_def LOGSIZE_def)
  have bs: "?bs ! t = lh_block s ! t" if "t < ?n" for t using that by simp
  have st: "unat ?st + LOGDATA < FSSIZE" and out: "\<And>t. t < ?n \<Longrightarrow> outside ?st (lh_block s ! t)"
    using sh by (auto simp: log_shape_def)
  let ?w = "map (\<lambda>t. ((1, log_blk ?st t), content s (lh_block s ! t))) [0..<?n]"
  have nin: "b \<notin> (\<lambda>t. log_blk ?st t) ` {..<?n}" if "outside ?st b \<or> b = ?st" for b
  proof
    assume "b \<in> (\<lambda>t. log_blk ?st t) ` {..<?n}"
    then obtain t where t: "t < ?n" "b = log_blk ?st t" by blast
    then have "t < LOGDATA" using n(1) by simp
    from log_blk_facts(2,3) [OF st this] t that show False by blast
  qed
  have keep: "apply_writes (disk s) (take j ?w) (1, b) = disk s (1, b)" if "outside ?st b \<or> b = ?st" for j b
  proof (rule apply_writes_other)
    show "(1, b) \<notin> fst ` set (take j ?w)" using nin [OF that] set_take_subset [of j ?w] by auto
  qed
  show "clean ?st (\<lambda>b. disk s (1, b)) (apply_writes (disk s) (take k ws))" if "k \<le> ?n"
  proof -
    have "take k ws = take k ?w" using that by (simp add: ws_def commit_writes_def)
    then show ?thesis
      using keep [of _ k] d0 disk_ok_cong(1,2) [where start = ?st and d = "disk s" and e = "apply_writes (disk s) (take k ?w)"]
      by (simp add: clean_def)
  qed
  let ?h = "head_data (lh_n s) (lh_block s) (disk s (1, ?st))"
  let ?e = "apply_writes (disk s) (?w @ [((1, ?st), ?h)])"
  have len: "length (disk s (1, ?st)) = BSIZE" using d0(1) by (simp add: disk_ok_def)
  have h: "length ?h = BSIZE" "get32 0 ?h = word_of_int (lh_n s)" "\<And>i. i < ?n \<Longrightarrow> get32 (4 + 4 * i) ?h = lh_block s ! i"
    using head_data_props [OF len, of "lh_n s"] sh by (auto simp: log_shape_def LOGDATA_def)
  have eh: "?e (1, ?st) = ?h" by simp
  have "sint (word_of_int (lh_n s) :: uint) = lh_n s"
    using sh by (simp add: log_shape_def LOGDATA_def LOGSIZE_def sint_uint32 uint_word_of_int)
  then have hn: "hdr_n ?st ?e = lh_n s" by (simp add: hdr_n_def eh h(2))
  have hb: "hdr_blk ?st ?e t = lh_block s ! t" if "t < ?n" for t
    using h(3) [OF that] by (simp add: hdr_blk_def eh)
  have ok: "disk_ok ?st ?e"
    using st h(1) eh hn hb out sh by (simp add: disk_ok_def log_shape_def)
  have dist: "distinct (map fst ?w)"
  proof -
    have "inj_on (log_blk ?st) {..<?n}"
      using log_blk_facts(4) [OF st] n(1) by (intro inj_onI) auto
    then show ?thesis by (auto simp: distinct_map comp_def inj_on_def)
  qed
  have lg: "?e (1, log_blk ?st t) = content s (lh_block s ! t)" if "t < ?n" for t
  proof -
    have "((1, log_blk ?st t), content s (lh_block s ! t)) \<in> set ?w" using that by auto
    moreover have "log_blk ?st t \<noteq> ?st" using log_blk_facts(2) [OF st, of t] that n(1) by simp
    ultimately show ?thesis using apply_writes_last [OF dist] by simp
  qed
  have oth: "?e (1, b) = content s b" if "outside ?st b" "b \<notin> set ?bs" for b
    using keep [of b "length ?w"] that pin [of b] outside_start [OF that(1)]
    by (cases "pinned s b") (simp_all add: content_def)
  have pe: "pending ?st ?bs (content s) ?e"
    unfolding pending_def using ok hn hb lg oth n bs by simp
  have ws: "ws = (?w @ [((1, ?st), ?h)]) @ map (\<lambda>t. ((1, ?bs ! t), content s (?bs ! t))) [0..<?n] @
      [((1, ?st), head_data 0 (lh_block s) ?h)]"
    using n(4) by (simp add: ws_def commit_writes_def)
  show "pending ?st ?bs (content s) (apply_writes (disk s) (take k ws)) \<or>
        clean ?st (content s) (apply_writes (disk s) (take k ws))" if k: "?n < k"
  proof (cases "k \<le> 2 * ?n + 1")
    case True
    define j where "j = k - (?n + 1)"
    have "take k ws = (?w @ [((1, ?st), ?h)]) @ map (\<lambda>t. ((1, ?bs ! t), content s (?bs ! t))) [0..<j]"
    proof -
      have kk: "k = length (?w @ [((1, ?st), ?h)]) + j" and j: "j \<le> ?n"
        using k True by (simp_all add: j_def)
      have gen: "take (length A + j) (A @ B) = A @ take j B" for A B :: "dwrite list" by simp
      show ?thesis by (subst kk, subst ws, subst gen) (use j in \<open>simp add: take_map\<close>)
    qed
    moreover have "j \<le> length ?bs" using True k n(2) by (simp add: j_def)
    ultimately show ?thesis using pending_install(1) [OF pe] by simp
  next
    case False
    then have tk: "take k ws = ws" by (simp add: ws)
    let ?f = "apply_writes ?e (map (\<lambda>t. ((1, ?bs ! t), content s (?bs ! t))) [0..<length ?bs])"
    note pf = pending_install [OF pe order_refl]
    have fin: "apply_writes (disk s) ws = ?f((1, ?st) := put32 0 0 ?h)"
      using n(2) by (simp add: ws head_data_def)
    have fc: "?f (1, b) = content s b" if "outside ?st b" for b
    proof (cases "b \<in> set ?bs")
      case True
      then have "b \<in> set (take (length ?bs) ?bs)" by (simp only: take_all order_refl)
      then show ?thesis by (rule pf(2))
    next
      case False
      then show ?thesis using pf(1) that unfolding pending_def by blast
    qed
    have fo: "disk_ok ?st ?f" using pf(1) by (simp add: pending_def)
    have "length (put32 0 0 ?h) = BSIZE" "get32 0 (put32 0 0 ?h) = 0"
      using h(1) by (simp_all add: put32_length get32_put32_same BSIZE_def)
    then have "clean ?st (content s) (?f((1, ?st) := put32 0 0 ?h))"
      using disk_ok_zero [OF fo] fc by (auto simp: clean_def dest: outside_start)
    then show ?thesis using tk fin by simp
  qed
qed

text \<open>
  C1: crash safety of the log.  Take a commit of the transaction in the cache and stop the machine
  after any number \<open>k\<close> of its block writes; reboot, crash any number of times anywhere inside the
  recovery, and finally let a recovery complete.  It does complete, and every block outside the log
  is as before the transaction when the crash came before the header was written, and as the
  transaction left it when the crash came after.
\<close>

theorem commit_crash_safe:
  assumes "commit_ready s" and "disk_ok (log_start s) (disk s)" and "hdr_n (log_start s) (disk s) = 0"
    and "commit s = Val t"
    and "reboots (log_start s) nlog
           (apply_writes (disk s) (take k (drop (length (written s)) (written t)))) d"
  shows "\<exists>u. recover_from_log (boot_log (log_start s) nlog d) = Val u \<and>
     hdr_n (log_start s) (disk u) = 0 \<and>
     (\<forall>b. outside (log_start s) b \<longrightarrow>
        disk u (1, b) = (if k \<le> nat (lh_n s) then disk s (1, b) else content s b))"
proof -
  let ?st = "log_start s"
  let ?ws = "commit_writes ?st (nat (lh_n s)) (lh_block s) (content s) (disk s (1, ?st))"
  let ?c = "\<lambda>b. if k \<le> nat (lh_n s) then disk s (1, b) else content s b"
  have "written t = written s @ ?ws"
    using commit_spec [OF assms(1)] assms(4) by (metis outcome.inject(2))
  then have r: "reboots ?st nlog (apply_writes (disk s) (take k ?ws)) d" using assms(5) by simp
  note p = commit_prefix [OF assms(1-3), of k]
  have dis: "pending ?st (take (nat (lh_n s)) (lh_block s)) ?c d \<or> clean ?st ?c d"
  proof (cases "k \<le> nat (lh_n s)")
    case True
    then show ?thesis using clean_reboots [OF r p(1)] by simp
  next
    case False
    then have c: "?c = content s" and k: "nat (lh_n s) < k" by auto
    show ?thesis unfolding c using p(2) [OF k] clean_reboots [OF r] pending_reboots [OF r] by blast
  qed
  then have d1: "disk_ok ?st d" unfolding clean_def pending_def by blast
  have d2: "clean ?st ?c (apply_writes d (recover_writes ?st d))"
    using dis
  proof
    assume "clean ?st ?c d"
    from clean_recover [OF this, of "length (recover_writes ?st d)"] show ?thesis by simp
  qed (rule pending_recover(2))
  obtain u where "recover_from_log (boot_log ?st nlog d) = Val u" "disk u = apply_writes d (recover_writes ?st d)"
    by (rule recover_boot [OF d1])
  then show ?thesis using d2 by (auto simp: clean_def)
qed

lemma commit_clean:
  assumes "commit_ready s" and "disk_ok (log_start s) (disk s)" and "hdr_n (log_start s) (disk s) = 0"
  shows "clean (log_start s) (content s) (apply_writes (disk s)
     (commit_writes (log_start s) (nat (lh_n s)) (lh_block s) (content s) (disk s (1, log_start s))))"
proof -
  let ?st = "log_start s"
  let ?ws = "commit_writes ?st (nat (lh_n s)) (lh_block s) (content s) (disk s (1, ?st))"
  let ?d = "apply_writes (disk s) ?ws"
  have "nat (lh_n s) < length ?ws + 1" by (simp add: commit_writes_def)
  then have "pending ?st (take (nat (lh_n s)) (lh_block s)) (content s) ?d \<or> clean ?st (content s) ?d"
    using commit_prefix(2) [OF assms, of "length ?ws + 1"] by simp
  moreover have "hdr_n ?st ?d = 0"
  proof -
    let ?h = "head_data (int (nat (lh_n s))) (lh_block s) (disk s (1, ?st))"
    have n: "int (nat (lh_n s)) \<le> int LOGSIZE" "length (disk s (1, ?st)) = BSIZE"
      using assms by (auto simp: commit_ready_def log_shape_def disk_ok_def LOGDATA_def LOGSIZE_def)
    have "?d (1, ?st) = head_data 0 (lh_block s) ?h" by (simp add: commit_writes_def)
    then show ?thesis
      using head_data_props(2) [OF head_data_props(1) [OF n(2,1)], of 0] by (simp add: hdr_n_def)
  qed
  moreover have "lh_n s > 0 \<and> length (take (nat (lh_n s)) (lh_block s)) = nat (lh_n s)"
    using assms(1) by (auto simp: commit_ready_def log_shape_def LOGDATA_def LOGSIZE_def)
  ultimately show ?thesis by (auto simp: pending_def)
qed

text \<open>What the code of a commit leaves alone, whatever the cache does.\<close>

lemma more_bread: "bread dev b s = Val (i, t) \<Longrightarrow> bcache.more t = bcache.more s"
  by (auto simp: bread_def bget_def acquiresleep_def iderw_def Let_def split: option.splits if_splits)

section \<open>A transaction of one block\<close>

text \<open>Block 100 rewritten with sevens, on an empty disk whose log starts at block 2.\<close>

definition ex_buf :: buf where
  "ex_buf = \<lparr>b_valid = True, b_dirty = True, b_dev = 1, b_blockno = 100, b_holder = None,
             b_refcnt = 0, b_data = replicate BSIZE 7\<rparr>"

definition ex_log :: logsys where
  "ex_log = (boot_log 2 30 (\<lambda>k. replicate BSIZE 0))\<lparr>bufs := (replicate NBUF zero_buf)[0 := ex_buf],
     committing := True, lh_n := 1, lh_block := (replicate LOGSIZE 0)[0 := 100]\<rparr>"

lemma ex_log_sel [simp]:
  "bufs ex_log = (replicate NBUF zero_buf)[0 := ex_buf]" "mru ex_log = mru (boot_log 2 30 (\<lambda>k. replicate BSIZE 0))"
  "disk ex_log = (\<lambda>k. replicate BSIZE 0)" "havedisk1 ex_log" "log_start ex_log = 2" "log_size ex_log = 30"
  "log_dev ex_log = 1" "lh_n ex_log = 1" "lh_block ex_log = (replicate LOGSIZE 0)[0 := 100]"
  "written ex_log = []" "outstanding ex_log = 0"
  by (simp_all add: ex_log_def boot_log_def binit_def)

lemma ex_buf_at: "i < NBUF \<Longrightarrow> buf_at ex_log i = (if i = 0 then ex_buf else zero_buf)"
  by (simp add: nth_list_update)

lemma ex_bufs:
  assumes "i < NBUF"
  shows "b_valid (buf_at ex_log i) = (i = 0)" "b_dirty (buf_at ex_log i) = (i = 0)"
    "b_dev (buf_at ex_log i) = (if i = 0 then 1 else 0)" "b_blockno (buf_at ex_log i) = (if i = 0 then 100 else 0)"
    "b_holder (buf_at ex_log i) = None" "b_refcnt (buf_at ex_log i) = 0"
  using ex_buf_at [OF assms] by (simp_all add: ex_buf_def zero_buf_def)

lemma ex_pinned: "pinned ex_log b = (if b = 100 then Some (replicate BSIZE 7) else None)"
proof (cases "b = 100")
  case True
  have "find (\<lambda>i. b_dirty (buf_at ex_log i) \<and> b_blockno (buf_at ex_log i) = 100) [0..<NBUF] = Some 0"
    by (simp add: NBUF_def upt_rec ex_buf_def)
  then show ?thesis using True by (simp add: pinned_def ex_buf_def NBUF_def)
next
  case False
  then show ?thesis using ex_bufs by (simp add: pinned_None del: ex_log_sel(1))
qed

lemma ex_take: "take (nat (lh_n ex_log)) (lh_block ex_log) = [100]"
proof -
  have "take 1 ((replicate LOGSIZE 0)[0 := 100]) = [100 :: uint]" by code_simp
  then show ?thesis by simp
qed

lemma ex_bc_ok: "bc_ok ex_log"
proof (rule bc_okI)
  show "distinct (mru ex_log)" "set (mru ex_log) = {..<NBUF}" by auto
qed (simp_all add: ex_bufs del: ex_log_sel(1) split: if_splits, simp_all?)

lemma ex_locks: "locks ex_log = {}"
  using ex_bufs(5) by (simp add: locks_def del: ex_log_sel(1))

lemma ex_log_shape: "log_shape ex_log"
  by (simp add: log_shape_def outside_def LOGDATA_def LOGSIZE_def FSSIZE_def)

lemma ex_commit_ready: "commit_ready ex_log"
proof -
  have "dirties ex_log \<subseteq> {0}" using ex_bufs(2) by (auto simp: dirties_def simp del: ex_log_sel(1))
  then have "card (dirties ex_log) \<le> 1" using card_mono [of "{0}" "dirties ex_log"] by simp
  then have "card (dirties ex_log) < NBUF" by (simp add: NBUF_def)
  then show ?thesis
    using ex_bc_ok ex_locks ex_log_shape ex_take by (simp add: commit_ready_def ex_pinned)
qed

lemma ex_disk_ok: "disk_ok (log_start ex_log) (disk ex_log)" "hdr_n (log_start ex_log) (disk ex_log) = 0"
  by (simp_all add: disk_ok_def hdr_n_def get32_def BSIZE_def LOGDATA_def LOGSIZE_def FSSIZE_def)

text \<open>The crash after the thirtieth of its writes (it has four) shows the new data.\<close>

lemma commit_crash_safe_witness:
  "\<exists>t u. commit ex_log = Val t \<and>
     recover_from_log (boot_log 2 30 (apply_writes (disk ex_log) (take 30 (written t)))) = Val u \<and>
     disk u (1, 100) = replicate BSIZE 7"
proof -
  obtain t where t: "commit ex_log = Val t" by (rule commit_spec [OF ex_commit_ready])
  have o: "outside 2 100" by (simp add: outside_def LOGDATA_def LOGSIZE_def FSSIZE_def)
  show ?thesis
    using commit_crash_safe [OF ex_commit_ready ex_disk_ok t reboots.none, of 30 30] t o
    by (auto simp: content_def ex_pinned)
qed

end
