(* ===== verification/Xv6_Txn.thy ===== *)
theory Xv6_Txn
  imports Xv6_Crash
begin

text \<open>
  Transactions: \<open>log_write\<close> keeps the invariant that the pinned blocks are exactly the blocks of
  the in-memory header, so that at the last \<open>end_op\<close> the cache is ready to commit; and the
  reservation of \<open>begin_op\<close> keeps the header from overflowing.
\<close>

section \<open>What a transaction keeps\<close>

abbreviation logged :: "'a logsys_scheme \<Rightarrow> uint list" where
  "logged s \<equiv> take (nat (lh_n s)) (lh_block s)"

definition txn_ok :: "'a logsys_scheme \<Rightarrow> bool" where
  "txn_ok s \<longleftrightarrow> bc_ok s \<and> log_shape s \<and> log_size s = int LOGSIZE \<and> distinct (logged s) \<and>
     (\<forall>b. pinned s b \<noteq> None \<longleftrightarrow> b \<in> set (logged s))"

lemma read_into_txn:
  assumes "read_into s bn i t" and "txn_ok s"
  shows "txn_ok t"
proof -
  have f: "bcache.more t = bcache.more s" "bc_ok t" "pinned t = pinned s"
    using assms(1) unfolding read_into_def by blast+
  note l = log_fields [OF f(1)]
  show ?thesis using assms(2) f(2,3) l by (simp add: txn_ok_def log_shape_def)
qed

lemma brelse_txn:
  assumes "txn_ok s" "i < NBUF" "b_holder (buf_at s i) = Some (me s)"
  obtains t where "brelse i s = Val t" "txn_ok t" "pinned t = pinned s" "disk t = disk s"
    "locks t = locks s - {i}"
proof -
  have ok: "bc_ok s" using assms(1) by (simp add: txn_ok_def)
  obtain t where t: "brelse i s = Val t" "bc_ok t" "disk t = disk s" "bcache.more t = bcache.more s"
    "pinned t = pinned s" "locks t = locks s - {i}"
    by (rule brelse_spec [OF ok assms(2,3)]) blast
  have "txn_ok t" using assms(1) t log_fields [OF t(4)] by (simp add: txn_ok_def log_shape_def)
  then show thesis using that t by blast
qed

lemma lh_block_base [simp]:
  "bufs (s\<lparr>lh_block := bl\<rparr>) = bufs s" "mru (s\<lparr>lh_block := bl\<rparr>) = mru s" "disk (s\<lparr>lh_block := bl\<rparr>) = disk s"
  "written (s\<lparr>lh_block := bl\<rparr>) = written s" "havedisk1 (s\<lparr>lh_block := bl\<rparr>) = havedisk1 s" "me (s\<lparr>lh_block := bl\<rparr>) = me s"
  by (cases s; simp)+

lemma lh_n_me [simp]: "me (s\<lparr>lh_n := n\<rparr>) = me s"
  by (cases s) simp

lemma upd_buf_log [simp]:
  "lh_n (upd_buf i f s) = lh_n s" "lh_block (upd_buf i f s) = lh_block s" "log_start (upd_buf i f s) = log_start s"
  "log_dev (upd_buf i f s) = log_dev s" "outstanding (upd_buf i f s) = outstanding s"
  "log_size (upd_buf i f s) = log_size s" "committing (upd_buf i f s) = committing s"
  by (simp_all add: upd_buf_def)

text \<open>Making a clean or dirty buffer dirty with new data pins that data.\<close>

lemma dirty_upd:
  assumes ok: "bc_ok s" and i: "i < NBUF" and b: "b_dev (buf_at s i) = 1" "b_blockno (buf_at s i) = bn"
      "b_valid (buf_at s i)"
    and t: "bufs t = (bufs s)[i := (buf_at s i)\<lparr>b_data := d, b_dirty := True\<rparr>]" "disk t = disk s" "mru t = mru s"
      "havedisk1 t = havedisk1 s"
  shows "bc_ok t" "pinned t = (pinned s)(bn := Some d)" "locks t = locks s"
proof -
  note len = bc_okD(1) [OF ok]
  let ?b = "(buf_at s i)\<lparr>b_data := d, b_dirty := True\<rparr>"
  show okt: "bc_ok t"
  proof (rule bc_ok_upd [OF ok i t(1,2,4)])
    show "b_blockno (buf_at s j) \<noteq> b_blockno ?b"
      if "j < NBUF" "j \<noteq> i" "b_dev ?b = 1" "b_dev (buf_at s j) = 1" for j
      using bc_okD(10) [OF ok that(1) i] that by auto
  qed (use b bc_okD(2,3) [OF ok] bc_okD(9) [OF ok i] t(3) in simp_all)
  have nth: "buf_at t j = (if j = i then ?b else buf_at s j)" if "j < NBUF" for j
    using that len by (simp add: t(1) nth_list_update)
  show "locks t = locks s"
    using set_after_upd(1) [OF len i t(1)] i by (auto simp: locks_def)
  show "pinned t = (pinned s)(bn := Some d)"
  proof
    fix x
    show "pinned t x = ((pinned s)(bn := Some d)) x"
    proof (cases "x = bn")
      case True
      then show ?thesis using pinned_dirty [OF okt i] b by (simp add: nth i)
    next
      case False
      have "find (\<lambda>j. b_dirty (buf_at t j) \<and> b_blockno (buf_at t j) = x) [0..<NBUF] =
            find (\<lambda>j. b_dirty (buf_at s j) \<and> b_blockno (buf_at s j) = x) [0..<NBUF]"
        by (rule find_cong) (use b False in \<open>auto simp: nth\<close>)
      moreover have "k < NBUF \<and> k \<noteq> i"
        if "find (\<lambda>j. b_dirty (buf_at s j) \<and> b_blockno (buf_at s j) = x) [0..<NBUF] = Some k" for k
        using find_upt_Some [OF that] b False by auto
      ultimately show ?thesis
        using False by (cases "find (\<lambda>j. b_dirty (buf_at s j) \<and> b_blockno (buf_at s j) = x) [0..<NBUF]")
          (auto simp: pinned_def nth)
    qed
  qed
qed

text \<open>Log absorption: the header's list after the search loop of \<open>log_write\<close>.\<close>

definition absorb_at :: "nat \<Rightarrow> uint list \<Rightarrow> uint \<Rightarrow> nat" where
  "absorb_at n bl bn = (case scan (\<lambda>x. x = bn) (take n bl) of Some i \<Rightarrow> i | None \<Rightarrow> n)"

lemma absorb_new:
  assumes "n < length bl" "bn \<notin> set (take n bl)"
  shows "absorb_at n bl bn = n" "take (Suc n) (bl[n := bn]) = take n bl @ [bn]"
proof -
  have "scan (\<lambda>x. x = bn) (take n bl) = None" using assms(2) by (auto simp: scan_None)
  then show "absorb_at n bl bn = n" by (simp add: absorb_at_def)
  show "take (Suc n) (bl[n := bn]) = take n bl @ [bn]"
    using assms(1) by (simp add: take_Suc_conv_app_nth)
qed

lemma absorb_old:
  assumes "n < length bl" "bn \<in> set (take n bl)"
  shows "absorb_at n bl bn < n" "bl[absorb_at n bl bn := bn] = bl"
proof -
  have "scan (\<lambda>x. x = bn) (take n bl) \<noteq> None" using assms(2) by (auto simp: scan_None)
  then obtain i where i: "scan (\<lambda>x. x = bn) (take n bl) = Some i" by blast
  then have k: "absorb_at n bl bn = i" by (simp add: absorb_at_def)
  have "i < n" "take n bl ! i = bn" using scan_SomeD(1,2) [OF i] assms(1) by simp_all
  then show "absorb_at n bl bn < n" "bl[absorb_at n bl bn := bn] = bl"
    by (auto simp: k)
qed

lemma log_write_Val:
  assumes "log_write i s = Val t"
  shows "lh_n s < int LOGSIZE" "lh_n s < log_size s - 1" "0 < outstanding s"
    "t = (let n = nat (lh_n s); bn = b_blockno (buf_at s i); k = absorb_at n (lh_block s) bn in
       upd_buf i (\<lambda>b. b\<lparr>b_dirty := True\<rparr>)
         (s\<lparr>lh_block := (lh_block s)[k := bn], lh_n := (if k = n then lh_n s + 1 else lh_n s)\<rparr>))"
proof -
  show c1: "lh_n s < int LOGSIZE" "lh_n s < log_size s - 1" "0 < outstanding s"
    using assms by (simp_all add: log_write_def Let_def split: if_splits)
  define u where "u = s\<lparr>lh_block := (lh_block s)
     [absorb_at (nat (lh_n s)) (lh_block s) (b_blockno (buf_at s i)) := b_blockno (buf_at s i)]\<rparr>"
  have u: "u\<lparr>lh_n := lh_n s\<rparr> = u" "lh_n u = lh_n s" by (simp_all add: u_def)
  have "log_write i s = Val (upd_buf i (\<lambda>b. b\<lparr>b_dirty := True\<rparr>)
      (if absorb_at (nat (lh_n s)) (lh_block s) (b_blockno (buf_at s i)) = nat (lh_n s)
       then u\<lparr>lh_n := lh_n u + 1\<rparr> else u))"
    using c1 by (simp add: log_write_def Let_def absorb_at_def u_def)
  with assms u show "t = (let n = nat (lh_n s); bn = b_blockno (buf_at s i); k = absorb_at n (lh_block s) bn in
       upd_buf i (\<lambda>b. b\<lparr>b_dirty := True\<rparr>)
         (s\<lparr>lh_block := (lh_block s)[k := bn], lh_n := (if k = n then lh_n s + 1 else lh_n s)\<rparr>))"
    by (simp add: Let_def u_def split: if_splits)
qed

text \<open>The logged blocks by index.\<close>

lemma logged_nth:
  assumes "j < nat (lh_n t)" "lh_n t \<le> int LOGDATA" "length (lh_block t) = LOGSIZE"
  shows "lh_block t ! j \<in> set (logged t)"
proof -
  have "j < length (logged t)" "logged t ! j = lh_block t ! j"
    using assms by (simp_all add: LOGDATA_def)
  then show ?thesis by (metis nth_mem)
qed

lemma log_shape_outside: "log_shape s \<Longrightarrow> x \<in> set (logged s) \<Longrightarrow> outside (log_start s) x"
  by (auto simp: log_shape_def in_set_conv_nth)

text \<open>
  C5: \<open>log_write\<close>.  A process that holds the buffer of a file-system block, changes its data to
  \<open>d\<close> and calls \<open>log_write\<close> changes what everybody sees of that block to \<open>d\<close> and of no other
  block; nothing reaches the disk; and the transaction invariant is kept: the pinned blocks are
  the ones in the header, each once (a block written twice is absorbed).
\<close>

theorem log_write_records:
  assumes "txn_ok s" and "i < NBUF" and "b_dev (buf_at s i) = 1" and "b_valid (buf_at s i)"
    and "outside (log_start s) (b_blockno (buf_at s i))"
    and "log_write i (set_data i d s) = Val t"
  shows "txn_ok t \<and> content t = (content s)(b_blockno (buf_at s i) := d) \<and> disk t = disk s \<and>
     written t = written s \<and> set (logged t) = insert (b_blockno (buf_at s i)) (set (logged s)) \<and>
     (lh_n t = lh_n s \<or> lh_n t = lh_n s + 1)"
proof -
  let ?bn = "b_blockno (buf_at s i)" and ?n = "nat (lh_n s)" and ?s = "set_data i d s"
  have ok: "bc_ok s" and sh: "log_shape s" and di: "distinct (logged s)"
    and pin: "\<And>b. pinned s b \<noteq> None \<longleftrightarrow> b \<in> set (logged s)" and lsz: "log_size s = int LOGSIZE"
    using assms(1) unfolding txn_ok_def by blast+
  note len = bc_okD(1) [OF ok]
  have ss: "lh_n ?s = lh_n s" "lh_block ?s = lh_block s" "log_size ?s = log_size s" "log_start ?s = log_start s"
    "log_dev ?s = log_dev s"
    by (simp_all add: set_data_def)
  have bn: "b_blockno (buf_at ?s i) = ?bn" using assms(2) len by (simp add: set_data_def)
  note lw = log_write_Val [OF assms(6), unfolded ss bn]
  have room: "lh_n s < int LOGDATA" using lw(2) lsz by (simp add: LOGDATA_def LOGSIZE_def)
  have n: "?n < LOGDATA" "?n < length (lh_block s)" "0 \<le> lh_n s" "length (lh_block s) = LOGSIZE"
    using sh room by (auto simp: log_shape_def LOGDATA_def)
  define k where "k = absorb_at ?n (lh_block s) ?bn"
  define v where "v = ?s\<lparr>lh_block := (lh_block s)[k := ?bn], lh_n := (if k = ?n then lh_n s + 1 else lh_n s)\<rparr>"
  have t: "t = upd_buf i (\<lambda>b. b\<lparr>b_dirty := True\<rparr>) v"
    using lw(4) by (simp only: Let_def v_def k_def)
  have bu: "bufs v = bufs ?s" "disk v = disk s" "written v = written s" "mru v = mru s" "havedisk1 v = havedisk1 s"
    by (simp_all add: v_def set_data_def)
  have tb: "bufs t = (bufs s)[i := (buf_at s i)\<lparr>b_data := d, b_dirty := True\<rparr>]"
    using assms(2) len by (simp add: t bu(1) set_data_def)
  have ts: "disk t = disk s" "mru t = mru s" "havedisk1 t = havedisk1 s" "written t = written s"
    by (simp_all add: t bu)
  have ft: "lh_n t = (if k = ?n then lh_n s + 1 else lh_n s)" "lh_block t = (lh_block s)[k := ?bn]"
    "log_start t = log_start s" "log_dev t = log_dev s" "log_size t = log_size s"
    by (simp_all add: t v_def ss)
  note du = dirty_upd [OF ok assms(2,3) refl assms(4) tb ts(1-3)]
  have lg: "logged t = (if ?bn \<in> set (logged s) then logged s else logged s @ [?bn])"
    "lh_n t = lh_n s \<or> lh_n t = lh_n s + 1"
  proof -
    have "nat (lh_n s + 1) = Suc ?n" using n(3) by simp
    then show "logged t = (if ?bn \<in> set (logged s) then logged s else logged s @ [?bn])"
      using absorb_new [OF n(2), of ?bn] absorb_old [OF n(2), of ?bn]
      by (cases "?bn \<in> set (logged s)") (simp_all add: ft k_def)
  qed (simp add: ft)
  have set: "set (logged t) = insert ?bn (set (logged s))" using lg(1) by (auto split: if_splits)
  have ln: "lh_n t \<le> int LOGDATA" "0 \<le> lh_n t" using lg(2) room n(3) by auto
  have nb: "length (lh_block t) = LOGSIZE" using n(4) by (simp add: ft(2))
  have out: "outside (log_start t) x" if "x \<in> set (logged t)" for x
    using that log_shape_outside [OF sh] assms(5) by (auto simp: set ft(3))
  have "log_shape t"
    using sh ln nb out logged_nth [of _ t] by (simp add: log_shape_def ft(3,4))
  moreover have "distinct (logged t)" using lg(1) di by (simp split: if_splits)
  moreover have "pinned t b \<noteq> None \<longleftrightarrow> b \<in> set (logged t)" for b
    using pin [of b] set du(2) by (cases "b = ?bn") auto
  ultimately have "txn_ok t" using du(1) lsz by (simp add: txn_ok_def ft(5))
  moreover have "content t = (content s)(?bn := d)"
    by (rule ext) (simp add: content_def du(2) ts(1) split: option.split)
  ultimately show ?thesis using ts set lg(2) by blast
qed

section \<open>The end of a transaction\<close>

lemma dirties_bound:
  assumes "txn_ok s"
  shows "card (dirties s) \<le> nat (lh_n s)"
proof -
  have ok: "bc_ok s" and pin: "\<And>b. pinned s b \<noteq> None \<longleftrightarrow> b \<in> set (logged s)"
    and n: "length (logged s) \<le> nat (lh_n s)"
    using assms by (auto simp: txn_ok_def)
  have "inj_on (\<lambda>i. b_blockno (buf_at s i)) (dirties s)"
    using bc_okD(7,10) [OF ok] by (intro inj_onI) (auto simp: dirties_def)
  moreover have "(\<lambda>i. b_blockno (buf_at s i)) ` dirties s \<subseteq> set (logged s)"
    using pinned_dirty [OF ok] pin by (force simp: dirties_def)
  ultimately have "card (dirties s) \<le> card (set (logged s))" by (intro card_inj_on_le) auto
  also have "\<dots> \<le> nat (lh_n s)" using card_length [of "logged s"] n by linarith
  finally show ?thesis .
qed

lemma txn_commit_ready:
  assumes "txn_ok s" "locks s = {}" "0 < lh_n s"
  shows "commit_ready s"
proof -
  have "nat (lh_n s) \<le> LOGDATA" using assms(1) by (auto simp: txn_ok_def log_shape_def)
  then have "card (dirties s) < NBUF"
    using dirties_bound [OF assms(1)] by (simp add: LOGDATA_def LOGSIZE_def NBUF_def)
  then show ?thesis using assms by (simp add: txn_ok_def commit_ready_def)
qed

lemma log_flags_base [simp]:
  "bufs (s\<lparr>outstanding := n\<rparr>) = bufs s" "mru (s\<lparr>outstanding := n\<rparr>) = mru s" "disk (s\<lparr>outstanding := n\<rparr>) = disk s"
  "written (s\<lparr>outstanding := n\<rparr>) = written s" "havedisk1 (s\<lparr>outstanding := n\<rparr>) = havedisk1 s"
  "bufs (s\<lparr>committing := c\<rparr>) = bufs s" "mru (s\<lparr>committing := c\<rparr>) = mru s" "disk (s\<lparr>committing := c\<rparr>) = disk s"
  "written (s\<lparr>committing := c\<rparr>) = written s" "havedisk1 (s\<lparr>committing := c\<rparr>) = havedisk1 s"
  by (cases s; simp)+

lemma log_flags_upd [simp]:
  "txn_ok (s\<lparr>outstanding := n\<rparr>) = txn_ok s" "txn_ok (s\<lparr>committing := c\<rparr>) = txn_ok s"
  "locks (s\<lparr>outstanding := n\<rparr>) = locks s" "locks (s\<lparr>committing := c\<rparr>) = locks s"
  "pinned (s\<lparr>outstanding := n\<rparr>) = pinned s" "pinned (s\<lparr>committing := c\<rparr>) = pinned s"
  by (simp_all add: txn_ok_def bc_ok_def log_shape_def pinned_def locks_def fun_eq_iff)

lemma log_flags_content [simp]:
  "content (s\<lparr>outstanding := n\<rparr>) = content s" "content (s\<lparr>committing := c\<rparr>) = content s"
  by (rule ext; simp add: content_def split: option.split)+

text \<open>
  C4: the last \<open>end_op\<close>.  When the last operation of a transaction ends with every buffer
  released, \<open>end_op\<close> commits and returns: the log is empty again, no operation is outstanding, and
  every block of the disk outside the log holds what the cache showed of it, so nothing the
  transaction wrote is lost and nothing else changed.
\<close>

theorem end_op_commits:
  assumes "txn_ok s" and "locks s = {}" and "outstanding s = 1" and "\<not> committing s"
    and "disk_ok (log_start s) (disk s)" and "hdr_n (log_start s) (disk s) = 0"
  shows "\<exists>t. end_op s = Val t \<and> outstanding t = 0 \<and> \<not> committing t \<and> lh_n t = 0 \<and>
     pinned t = (\<lambda>b. None) \<and> locks t = {} \<and>
     (\<forall>b. outside (log_start s) b \<longrightarrow> disk t (1, b) = content s b \<and> content t b = content s b)"
proof -
  let ?s = "s\<lparr>outstanding := 0, committing := True\<rparr>"
  have ok: "txn_ok ?s" "locks ?s = {}" using assms(1,2) by simp_all
  have e: "end_op s = andthen (commit ?s) (\<lambda>s. Val (s\<lparr>committing := False\<rparr>))"
    using assms(3,4) by (simp add: end_op_def Let_def)
  have n: "0 \<le> lh_n s" using assms(1) by (simp add: txn_ok_def log_shape_def)
  show ?thesis
  proof (cases "0 < lh_n s")
    case False
    then have n0: "lh_n s = 0" using n by simp
    have "pinned s b = None" for b
      using assms(1) n0 by (cases "pinned s b") (auto simp: txn_ok_def)
    then have p: "pinned s = (\<lambda>b. None)" by blast
    have "end_op s = Val (?s\<lparr>committing := False\<rparr>)" using e n0 by (simp add: commit_def)
    then show ?thesis using n0 p assms(2) by (simp add: content_def)
  next
    case True
    have rdy: "commit_ready ?s" using txn_commit_ready [OF ok] True by simp
    let ?ws = "commit_writes (log_start ?s) (nat (lh_n ?s)) (lh_block ?s) (content ?s) (disk ?s (1, log_start ?s))"
    obtain t where t: "commit ?s = Val t" "bc_ok t" "locks t = {}" "pinned t = (\<lambda>b. None)" "lh_n t = 0"
      "outstanding t = outstanding ?s" "disk t = apply_writes (disk ?s) ?ws"
      by (rule commit_spec [OF rdy]) blast
    have c: "clean (log_start ?s) (content ?s) (apply_writes (disk ?s) ?ws)"
      by (rule commit_clean [OF rdy]) (use assms(5,6) in simp_all)
    have out: "outstanding t = 0" using t(6) by simp
    have "end_op s = Val (t\<lparr>committing := False\<rparr>)" using e t(1) by simp
    then show ?thesis using t out c by (auto simp: clean_def content_def)
  qed
qed

section \<open>The transaction of one block, open\<close>

abbreviation ex_tx :: logsys where
  "ex_tx \<equiv> ex_log\<lparr>outstanding := 1, committing := False\<rparr>"

lemma ex_txn_ok: "txn_ok ex_log"
  using ex_bc_ok ex_log_shape ex_take by (simp add: txn_ok_def ex_pinned LOGSIZE_def)

lemma ex_content: "content ex_log b = (if b = 100 then replicate BSIZE 7 else replicate BSIZE 0)"
  by (simp add: content_def ex_pinned)

lemma log_write_records_witness:
  "\<exists>t. log_write 0 (set_data 0 (replicate BSIZE 9) ex_tx) = Val t \<and> content t 100 = replicate BSIZE 9 \<and>
     content t 101 = replicate BSIZE 0 \<and> disk t = disk ex_log \<and> set (logged t) = {100}"
proof -
  have e: "txn_ok ex_tx" "0 < NBUF" "b_dev (buf_at ex_tx 0) = 1" "b_valid (buf_at ex_tx 0)"
    "outside (log_start ex_tx) (b_blockno (buf_at ex_tx 0))"
    using ex_txn_ok by (simp_all add: NBUF_def ex_buf_def outside_def LOGDATA_def LOGSIZE_def FSSIZE_def)
  obtain t where t: "log_write 0 (set_data 0 (replicate BSIZE 9) ex_tx) = Val t"
    by (simp add: log_write_def set_data_def LOGSIZE_def Let_def)
  have "b_blockno (buf_at ex_tx 0) = 100" by (simp add: NBUF_def ex_buf_def)
  then show ?thesis
    using log_write_records [OF e t] t ex_take by (simp add: ex_content)
qed

lemma end_op_commits_witness:
  "\<exists>t. end_op ex_tx = Val t \<and> lh_n t = 0 \<and> disk t (1, 100) = replicate BSIZE 7 \<and>
     disk t (1, 101) = replicate BSIZE 0"
proof -
  have e: "txn_ok ex_tx" "locks ex_tx = {}" "outstanding ex_tx = 1" "\<not> committing ex_tx"
    "disk_ok (log_start ex_tx) (disk ex_tx)" "hdr_n (log_start ex_tx) (disk ex_tx) = 0"
    using ex_txn_ok ex_locks ex_disk_ok by simp_all
  have "outside (log_start ex_tx) 100" "outside (log_start ex_tx) 101"
    by (simp_all add: outside_def LOGDATA_def LOGSIZE_def FSSIZE_def)
  then show ?thesis using end_op_commits [OF e] by (auto simp: ex_content)
qed

end
