(* ===== verification/Xv6_Reserve.thy ===== *)
theory Xv6_Reserve
  imports Xv6_Txn
begin

text \<open>
  The reservation of log space: \<open>begin_op\<close> lets an operation in only when the log can hold
  \<open>MAXOPBLOCKS\<close> more blocks for it and for every operation in progress, so that \<open>log_write\<close> need
  not wait.  The bound \<open>log_write\<close> itself checks is the size of the log on disk, which counts the
  header, so nine blocks for each operation are safe and ten are not.
\<close>

section \<open>Interleaved operations\<close>

text \<open>
  \<open>logrun B sz s rem\<close>: the log can be in state \<open>s\<close> with one entry of \<open>rem\<close> for each operation in
  progress, the number of its \<open>B\<close> blocks that it has not used.  Logging a block that the transaction
  has already uses none.  The cache moves freely in between.
\<close>

inductive logrun :: "nat \<Rightarrow> int \<Rightarrow> logsys \<Rightarrow> nat list \<Rightarrow> bool" for B :: nat and sz :: int where
  start: "outstanding s = 0 \<Longrightarrow> lh_n s = 0 \<Longrightarrow> \<not> committing s \<Longrightarrow> log_size s = sz \<Longrightarrow>
     length (lh_block s) = LOGSIZE \<Longrightarrow> logrun B sz s []"
| cache: "logrun B sz s rem \<Longrightarrow> bcache.more t = bcache.more s \<Longrightarrow> logrun B sz t rem"
| op_begin: "logrun B sz s rem \<Longrightarrow> begin_op s = Val t \<Longrightarrow> logrun B sz t (B # rem)"
| op_write: "logrun B sz s rem \<Longrightarrow> j < length rem \<Longrightarrow>
     0 < rem ! j \<or> b_blockno (buf_at s i) \<in> set (logged s) \<Longrightarrow> log_write i s = Val t \<Longrightarrow>
     logrun B sz t (rem[j := rem ! j - nat (lh_n t - lh_n s)])"
| op_end: "logrun B sz s rem \<Longrightarrow> j < length rem \<Longrightarrow> end_op s = Val t \<Longrightarrow>
     logrun B sz t (take j rem @ drop (Suc j) rem)"

definition reserved :: "nat \<Rightarrow> int \<Rightarrow> logsys \<Rightarrow> nat list \<Rightarrow> bool" where
  "reserved B sz s rem \<longleftrightarrow> outstanding s = int (length rem) \<and> \<not> committing s \<and> log_size s = sz \<and>
     length (lh_block s) = LOGSIZE \<and> (\<forall>r \<in> set rem. r \<le> B) \<and> 0 \<le> lh_n s \<and> (rem = [] \<longrightarrow> lh_n s = 0) \<and>
     lh_n s + int (sum_list rem) \<le> MAXOPBLOCKS + 2 * int B"

text \<open>What the parts of a commit leave alone.\<close>

lemma more_iderw: "iderw i s = Val t \<Longrightarrow> bcache.more t = bcache.more s"
  by (auto simp: iderw_def Let_def split: if_splits)

lemma more_bwrite: "bwrite i s = Val t \<Longrightarrow> bcache.more t = bcache.more s"
  by (auto simp: bwrite_def dest!: more_iderw split: if_splits)

lemma more_brelse: "brelse i s = Val t \<Longrightarrow> bcache.more t = bcache.more s"
  by (auto simp: brelse_def releasesleep_def Let_def split: if_splits)

lemma more_set_data [simp]: "bcache.more (set_data i d s) = bcache.more s"
  by (simp add: set_data_def)

lemmas more_ops = more_bread more_bwrite more_brelse

lemma more_write_log_step: "write_log_step t s = Val u \<Longrightarrow> bcache.more u = bcache.more s"
  by (auto simp: write_log_step_def dest!: more_ops)

lemma more_install_step: "install_step t s = Val u \<Longrightarrow> bcache.more u = bcache.more s"
  by (auto simp: install_step_def dest!: more_ops)

lemma more_write_head: "write_head s = Val u \<Longrightarrow> bcache.more u = bcache.more s"
  by (auto simp: write_head_def dest!: more_ops)

lemma more_each:
  assumes "\<And>x s t. f x s = Val t \<Longrightarrow> bcache.more t = bcache.more s"
  shows "each f xs s = Val t \<Longrightarrow> bcache.more t = bcache.more s"
  by (induction xs arbitrary: s) (auto dest!: assms)

lemma commit_empties:
  assumes "commit s = Val t" "0 \<le> lh_n s"
  shows "lh_n t = 0" "outstanding t = outstanding s" "log_size t = log_size s" "lh_block t = lh_block s"
proof -
  have "lh_n t = 0 \<and> outstanding t = outstanding s \<and> log_size t = log_size s \<and> lh_block t = lh_block s"
  proof (cases "0 < lh_n s")
    case False
    then show ?thesis using assms by (simp add: commit_def)
  next
    case True
    then obtain a b c where a: "write_log s = Val a" "write_head a = Val b" "install_trans b = Val c"
      "write_head (c\<lparr>lh_n := 0\<rparr>) = Val t"
      using assms(1) by (auto simp: commit_def)
    have m: "bcache.more a = bcache.more s" "bcache.more b = bcache.more a" "bcache.more c = bcache.more b"
      "bcache.more t = bcache.more (c\<lparr>lh_n := 0\<rparr>)"
      using more_each [OF more_write_log_step] more_each [OF more_install_step] more_write_head a
      by (auto simp: write_log_def install_trans_def)
    show ?thesis
      using log_fields [OF m(1)] log_fields [OF m(2)] log_fields [OF m(3)] log_fields [OF m(4)] by simp
  qed
  then show "lh_n t = 0" "outstanding t = outstanding s" "log_size t = log_size s" "lh_block t = lh_block s" by blast+
qed

lemma end_op_cases:
  assumes "end_op s = Val t" "0 \<le> lh_n s"
  shows "outstanding t = outstanding s - 1" "log_size t = log_size s" "\<not> committing s" "\<not> committing t"
    "lh_n t = (if outstanding s = 1 then 0 else lh_n s)" "lh_block t = lh_block s"
proof -
  show c: "\<not> committing s" using assms(1) by (auto simp: end_op_def Let_def)
  let ?s = "s\<lparr>outstanding := outstanding s - 1\<rparr>"
  have "outstanding t = outstanding s - 1 \<and> log_size t = log_size s \<and> \<not> committing t \<and>
      lh_n t = (if outstanding s = 1 then 0 else lh_n s) \<and> lh_block t = lh_block s"
  proof (cases "outstanding s = 1")
    case True
    then obtain u where u: "commit (?s\<lparr>committing := True\<rparr>) = Val u" "t = u\<lparr>committing := False\<rparr>"
      using assms(1) c by (auto simp: end_op_def Let_def)
    show ?thesis using commit_empties [OF u(1)] u(2) True assms(2) by simp
  next
    case False
    then show ?thesis using assms(1) c by (auto simp: end_op_def Let_def)
  qed
  then show "outstanding t = outstanding s - 1" "log_size t = log_size s" "\<not> committing t"
    "lh_n t = (if outstanding s = 1 then 0 else lh_n s)" "lh_block t = lh_block s" by blast+
qed

section \<open>The reservation\<close>

lemma sum_list_le: "\<forall>r \<in> set xs. r \<le> B \<Longrightarrow> sum_list xs \<le> B * length (xs :: nat list)"
  by (induction xs) auto

lemma sum_list_dec:
  "j < length xs \<Longrightarrow> k \<le> xs ! j \<Longrightarrow> sum_list (xs[j := xs ! j - k]) + k = (sum_list xs :: nat)"
proof (induction xs arbitrary: j)
  case (Cons a xs)
  then show ?case by (cases j) auto
qed simp

lemma sum_list_drop1:
  "j < length xs \<Longrightarrow> sum_list (take j xs @ drop (Suc j) xs) \<le> (sum_list xs :: nat)"
  by (subst (3) id_take_nth_drop [of j xs]) auto

lemma log_write_fields:
  assumes "log_write i s = Val t" "length (lh_block s) = LOGSIZE" "0 \<le> lh_n s"
  shows "outstanding t = outstanding s" "log_size t = log_size s" "committing t = committing s"
    "length (lh_block t) = LOGSIZE"
    "lh_n t = (if b_blockno (buf_at s i) \<in> set (logged s) then lh_n s else lh_n s + 1)"
proof -
  note L = log_write_Val [OF assms(1)]
  show "outstanding t = outstanding s" "log_size t = log_size s" "committing t = committing s"
    "length (lh_block t) = LOGSIZE"
    using L(4) assms(2) by (simp_all add: Let_def)
  have n: "nat (lh_n s) < length (lh_block s)" using L(1) assms(2,3) by linarith
  show "lh_n t = (if b_blockno (buf_at s i) \<in> set (logged s) then lh_n s else lh_n s + 1)"
    using L(4) absorb_new(1) [OF n, of "b_blockno (buf_at s i)"] absorb_old(1) [OF n, of "b_blockno (buf_at s i)"]
    by (cases "b_blockno (buf_at s i) \<in> set (logged s)") (simp_all add: Let_def)
qed

lemma logrun_reserved: "logrun B sz s rem \<Longrightarrow> int B \<le> MAXOPBLOCKS \<Longrightarrow> reserved B sz s rem"
proof (induction rule: logrun.induct)
  case (cache s rem t)
  then show ?case using log_fields [of t s] by (simp add: reserved_def)
next
  case (op_begin s rem t)
  then have t: "t = s\<lparr>outstanding := outstanding s + 1\<rparr>"
      "lh_n s + (outstanding s + 1) * 10 \<le> int LOGSIZE" and r: "reserved B sz s rem" and B: "B \<le> 10"
    by (auto simp: begin_op_def MAXOPBLOCKS_def split: if_splits)
  have s: "sum_list rem \<le> B * length rem" using r by (intro sum_list_le) (simp add: reserved_def)
  have "lh_n s + int (length rem + 1) * 10 \<le> 30" "0 \<le> lh_n s" using t(2) r by (simp_all add: reserved_def LOGSIZE_def MAXOPBLOCKS_def)
  moreover from this have "int (length rem) < 3" by simp
  then have "length rem = 0 \<or> length rem = 1 \<or> length rem = 2" by linarith
  ultimately have "length rem = 0 \<and> lh_n s = 0 \<or> length rem = 1 \<and> lh_n s \<le> 10 \<or> length rem = 2 \<and> lh_n s \<le> 0"
    using r by (elim disjE) (simp_all add: reserved_def)
  then have "lh_n s + int (B + sum_list rem) \<le> MAXOPBLOCKS + 2 * int B"
    using s B by (auto simp: MAXOPBLOCKS_def)
  then show ?case using t(1) r by (simp add: reserved_def)
next
  case (op_write s rem j i t)
  then have r: "reserved B sz s rem" by simp
  note f = log_write_fields [OF op_write(4)]
  obtain k where k: "k = nat (lh_n t - lh_n s)" "k \<le> rem ! j" "lh_n t = lh_n s + int k"
    using f(5) r op_write(3) by (auto simp: reserved_def split: if_splits)
  have "rem ! j \<le> B" using r op_write(2) by (simp add: reserved_def)
  then have "\<forall>x \<in> set (rem[j := rem ! j - k]). x \<le> B" using r
    by (auto simp: reserved_def dest!: set_update_subset_insert [THEN subsetD])
  then show ?case
    using r f(1-4) k(3) sum_list_dec [OF op_write(2) k(2)] op_write(2) unfolding k(1) [symmetric]
    by (auto simp: reserved_def)
next
  case (op_end s rem j t)
  then have r: "reserved B sz s rem" by simp
  have "set (take j rem @ drop (Suc j) rem) \<subseteq> set rem" using set_take_subset set_drop_subset by fastforce
  moreover have "length (take j rem @ drop (Suc j) rem) = length rem - 1" using op_end(2) by simp
  moreover have "take j rem @ drop (Suc j) rem = [] \<longleftrightarrow> length rem = 1" using op_end(2) by (cases rem) auto
  ultimately show ?case
    using r op_end(2) end_op_cases [OF op_end(3)] sum_list_drop1 [OF op_end(2)]
    by (auto simp: reserved_def of_nat_diff)
qed (simp add: reserved_def MAXOPBLOCKS_def)


section \<open>Three full operations\<close>

lemma boot_log_flags [simp]: "outstanding (boot_log st n d) = 0" "committing (boot_log st n d) = False"
  by (simp_all add: boot_log_def binit_def)

lemma logrun_boot: "logrun B sz (boot_log 2 sz d) []"
  by (rule logrun.start) simp_all

lemma begin_op_room:
  "lh_n s = 0 \<Longrightarrow> \<not> committing s \<Longrightarrow> outstanding s < 3 \<Longrightarrow>
     begin_op s = Val (s\<lparr>outstanding := outstanding s + 1\<rparr>)"
  by (simp add: begin_op_def LOGSIZE_def MAXOPBLOCKS_def)

lemma uint_inj_small:
  assumes "a < 1000" "b < 1000"
  shows "of_nat a = (of_nat b :: uint) \<longleftrightarrow> a = b"
proof -
  have "unat (of_nat a :: uint) = a" "unat (of_nat b :: uint) = b"
    using assms by (simp_all add: unat_of_nat take_bit_nat_eq_self)
  then show ?thesis by metis
qed

text \<open>Three operations writing the blocks 0, 1, 2, \<dots> one after the other.\<close>

lemma logrun_fill:
  assumes "k \<le> 29"
  shows "\<exists>s rem. logrun 10 30 s rem \<and> lh_n s = int k \<and> sum_list rem + k = 30 \<and> log_size s = 30 \<and>
     0 < outstanding s \<and> set (logged s) \<subseteq> of_nat ` {..<k} \<and> length (lh_block s) = LOGSIZE"
  using assms
proof (induction k)
  case 0
  let ?o = "\<lambda>k. (boot_log 2 30 (\<lambda>k. []))\<lparr>outstanding := k\<rparr>"
  have "logrun 10 30 (?o 1) [10]"
    using logrun.op_begin [OF logrun_boot begin_op_room, of 30 "\<lambda>k. []" 10] by (simp add: MAXOPBLOCKS_def)
  then have "logrun 10 30 (?o 2) [10, 10]"
    using logrun.op_begin [OF _ begin_op_room, of 10 30 "?o 1"] by (simp add: MAXOPBLOCKS_def)
  then have "logrun 10 30 (?o 3) [10, 10, 10]"
    using logrun.op_begin [OF _ begin_op_room, of 10 30 "?o 2"] by (simp add: MAXOPBLOCKS_def)
  then show ?case by (intro exI [of _ "?o 3"] exI [of _ "[10, 10, 10]"]) simp
next
  case (Suc k)
  then obtain s rem where s: "logrun 10 30 s rem" "lh_n s = int k" "sum_list rem + k = 30" "log_size s = 30"
    "0 < outstanding s" "set (logged s) \<subseteq> of_nat ` {..<k}" "length (lh_block s) = LOGSIZE" by auto
  have "sum_list rem \<noteq> 0" using s(3) Suc(2) by linarith
  then obtain r where "r \<in> set rem" "r \<noteq> 0" by (metis sum_list_eq_0_iff)
  then obtain j where j: "j < length rem" "0 < rem ! j" by (auto simp: in_set_conv_nth)
  define t where "t = s\<lparr>bufs := [zero_buf\<lparr>b_blockno := of_nat k\<rparr>]\<rparr>"
  have more: "bcache.more t = bcache.more s" by (simp add: t_def)
  note f = log_fields [OF more]
  have t: "logrun 10 30 t rem" using logrun.cache [OF s(1) more] .
  have bn: "b_blockno (buf_at t 0) = of_nat k" by (simp add: t_def)
  obtain u where u: "log_write 0 t = Val u"
    using f s Suc(2) by (simp add: log_write_def LOGSIZE_def Let_def)
  have "of_nat k \<noteq> (of_nat b :: uint)" if "b < k" for b
    using uint_inj_small [of k b] Suc(2) that by simp
  then have "of_nat k \<notin> set (logged s)" using s(6) by auto
  moreover have "k < length (lh_block s)" using s(7) Suc(2) by (simp add: LOGSIZE_def)
  ultimately have a: "absorb_at k (lh_block s) (of_nat k) = k"
      "take (Suc k) ((lh_block s)[k := of_nat k]) = logged s @ [of_nat k]"
    using absorb_new [of k "lh_block s" "of_nat k"] by (simp_all add: s(2))
  have uf: "lh_n u = int (Suc k)" "lh_block u = (lh_block s)[k := of_nat k]" "log_size u = 30"
    "outstanding u = outstanding s"
    using log_write_Val(4) [OF u] f bn a(1) s(2,4) by (simp_all add: Let_def)
  have "sum_list (rem[j := rem ! j - 1]) + Suc k = 30" using sum_list_dec [OF j(1), of 1] j(2) s(3) by simp
  moreover have "logged u = logged s @ [of_nat k]" by (simp only: uf(1,2) nat_int a(2))
  then have "set (logged u) \<subseteq> of_nat ` {..<Suc k}" using s(6) by (auto simp: lessThan_Suc)
  ultimately show ?case
    using logrun.op_write [OF t j(1) disjI1 [OF j(2)] u] f uf s(2,5,7) by (intro exI [of _ u] exI [of _ "rem[j := rem ! j - 1]"]) simp
qed

text \<open>
  The reservation does not fit the log that \<open>mkfs\<close> makes.  Its log is \<open>LOGSIZE\<close> blocks long
  with the header, so \<open>log_write\<close> panics at the thirtieth block, although \<open>begin_op\<close> admitted
  three operations of ten blocks each and none of them has used up its ten.
\<close>

theorem reservation_gap:
  "\<exists>s rem j. logrun (nat MAXOPBLOCKS) (int LOGSIZE) s rem \<and> j < length rem \<and> 0 < rem ! j \<and>
     (\<forall>i. log_write i s = Panic ''too big a transaction'')"
proof -
  obtain s rem where s: "logrun 10 30 s rem" "lh_n s = 29" "sum_list rem + 29 = 30" "log_size s = 30"
    using logrun_fill [of 29] by auto
  have "sum_list rem \<noteq> 0" using s(3) by linarith
  then obtain r where "r \<in> set rem" "r \<noteq> 0" by (metis sum_list_eq_0_iff)
  then obtain j where "j < length rem" "0 < rem ! j" by (auto simp: in_set_conv_nth)
  then show ?thesis using s by (auto simp: log_write_def LOGSIZE_def MAXOPBLOCKS_def intro!: exI [of _ s] exI [of _ rem])
qed


end
