(* ===== verification/Xv6_Grep.thy ===== *)
theory Xv6_Grep
  imports Xv6_String
begin

text \<open>
  The \<open>grep\<close> program (\<open>grep.c\<close>): the regular-expression matcher of Kernighan and Pike, proved
  equivalent to the language of the expression, and the loop that cuts its input into lines
  through a buffer of 1024 characters.  Strings have no terminating NUL in the lists here.
\<close>

section \<open>The matcher\<close>

lemma at0_star: "at0 re = CHR ''*'' \<Longrightarrow> re \<noteq> []"
  by (cases re) auto

function (sequential) matchhere :: "string \<Rightarrow> string \<Rightarrow> bool"
  and matchstar :: "char \<Rightarrow> string \<Rightarrow> string \<Rightarrow> bool" where
  "matchhere [] s = True"
| "matchhere (r # re) s =
     (if at0 re = CHR ''*'' then matchstar r (tl re) s
      else if r = CHR ''$'' \<and> re = [] then s = []
      else if s \<noteq> [] \<and> (r = CHR ''.'' \<or> r = hd s) then matchhere re (tl s)
      else False)"
| "matchstar c re s =
     (if matchhere re s then True
      else if s \<noteq> [] \<and> (hd s = c \<or> c = CHR ''.'') then matchstar c re (tl s)
      else False)"
  by pat_completeness auto

termination
  by (relation "inv_image (less_than <*lex*> less_than)
        (case_sum (\<lambda>(re, s). (length re, 0)) (\<lambda>(c, re, s). (length re, Suc (length s))))")
    (auto dest: at0_star)

fun match_from :: "string \<Rightarrow> string \<Rightarrow> bool" where
  "match_from re [] = matchhere re []"
| "match_from re (c # s) = (if matchhere re (c # s) then True else match_from re s)"

definition match :: "string \<Rightarrow> string \<Rightarrow> bool" where
  "match re s = (if at0 re = CHR ''^'' then matchhere (tl re) s else match_from re s)"

section \<open>The language of an expression\<close>

text \<open>
  An expression is a sequence of items, a character (\<open>.\<close> standing for any) with or without a star
  after it, and perhaps a \<open>$\<close> at its end.
\<close>

fun items :: "string \<Rightarrow> (char \<times> bool) list" where
  "items [] = []"
| "items [c] = (if c = CHR ''$'' then [] else [(c, False)])"
| "items (c # d # re) = (if d = CHR ''*'' then (c, True) # items re else (c, False) # items (d # re))"

fun at_end :: "string \<Rightarrow> bool" where
  "at_end [] = False"
| "at_end [c] = (c = CHR ''$'')"
| "at_end (c # d # re) = (if d = CHR ''*'' then at_end re else at_end (d # re))"

definition fits :: "char \<Rightarrow> char \<Rightarrow> bool" where
  "fits c x \<longleftrightarrow> c = CHR ''.'' \<or> x = c"

inductive denotes :: "(char \<times> bool) list \<Rightarrow> string \<Rightarrow> bool" where
  empty: "denotes [] []"
| one: "fits c x \<Longrightarrow> denotes its w \<Longrightarrow> denotes ((c, False) # its) (x # w)"
| star: "\<forall>x \<in> set u. fits c x \<Longrightarrow> denotes its w \<Longrightarrow> denotes ((c, True) # its) (u @ w)"

inductive_simps denotes_simps [simp]: "denotes [] w" "denotes ((c, False) # its) w"

inductive_cases denotes_star: "denotes ((c, True) # its) w"

text \<open>A prefix of the text is in the language, the whole s when there is a \<open>$\<close>.\<close>

definition here :: "string \<Rightarrow> string \<Rightarrow> bool" where
  "here re s \<longleftrightarrow> (\<exists>w v. s = w @ v \<and> denotes (items re) w \<and> (at_end re \<longrightarrow> v = []))"

lemma here_Nil [simp]: "here [] s"
  by (simp add: here_def)

lemma here_dollar [simp]: "here [CHR ''$''] s \<longleftrightarrow> s = []"
  by (simp add: here_def)

text \<open>An unstarred item takes one character.\<close>

lemma here_one:
  assumes "at0 re \<noteq> CHR ''*''" "\<not> (c = CHR ''$'' \<and> re = [])"
  shows "here (c # re) s \<longleftrightarrow> s \<noteq> [] \<and> fits c (hd s) \<and> here re (tl s)"
proof -
  have i: "items (c # re) = (c, False) # items re" "at_end (c # re) = at_end re"
    using assms by (cases re; simp)+
  show ?thesis
    by (cases s) (auto simp: here_def i Cons_eq_append_conv)
qed

text \<open>A starred item takes none or one and starts again.\<close>

lemma star_parts: "here (c # CHR ''*'' # re) s \<longleftrightarrow>
    (\<exists>u v. s = u @ v \<and> (\<forall>x \<in> set u. fits c x) \<and> here re v)"
proof
  assume "here (c # CHR ''*'' # re) s"
  then obtain w v where w: "s = w @ v" "denotes ((c, True) # items re) w" "at_end re \<longrightarrow> v = []"
    by (auto simp: here_def)
  from w(2) obtain u y where "w = u @ y" "\<forall>x \<in> set u. fits c x" "denotes (items re) y"
    by (auto elim: denotes_star)
  then show "\<exists>u v. s = u @ v \<and> (\<forall>x \<in> set u. fits c x) \<and> here re v"
    using w by (auto simp: here_def)
next
  assume "\<exists>u v. s = u @ v \<and> (\<forall>x \<in> set u. fits c x) \<and> here re v"
  then obtain u w v where "s = u @ w @ v" "\<forall>x \<in> set u. fits c x" "denotes (items re) w" "at_end re \<longrightarrow> v = []"
    by (auto simp: here_def)
  then show "here (c # CHR ''*'' # re) s"
    unfolding here_def by (intro exI [of _ "u @ w"] exI [of _ v]) (auto intro: denotes.star)
qed

lemma here_star:
  "here (c # CHR ''*'' # re) s \<longleftrightarrow>
     here re s \<or> (s \<noteq> [] \<and> fits c (hd s) \<and> here (c # CHR ''*'' # re) (tl s))"
  unfolding star_parts
proof
  assume "\<exists>u v. s = u @ v \<and> (\<forall>x \<in> set u. fits c x) \<and> here re v"
  then obtain u v where u: "s = u @ v" "\<forall>x \<in> set u. fits c x" "here re v" by blast
  then show "here re s \<or> (s \<noteq> [] \<and> fits c (hd s) \<and>
      (\<exists>u v. tl s = u @ v \<and> (\<forall>x \<in> set u. fits c x) \<and> here re v))"
    by (cases u) auto
next
  assume "here re s \<or> (s \<noteq> [] \<and> fits c (hd s) \<and>
      (\<exists>u v. tl s = u @ v \<and> (\<forall>x \<in> set u. fits c x) \<and> here re v))"
  then show "\<exists>u v. s = u @ v \<and> (\<forall>x \<in> set u. fits c x) \<and> here re v"
  proof
    assume "here re s"
    then show ?thesis by (intro exI [of _ "[]"] exI [of _ s]) simp
  next
    assume "s \<noteq> [] \<and> fits c (hd s) \<and> (\<exists>u v. tl s = u @ v \<and> (\<forall>x \<in> set u. fits c x) \<and> here re v)"
    then obtain u v where "s = (hd s # u) @ v" "\<forall>x \<in> set (hd s # u). fits c x" "here re v"
      by (metis append_Cons list.collapse set_ConsD)
    then show ?thesis by blast
  qed
qed

lemma matchhere_here:
  "matchhere re s \<longleftrightarrow> here re s"
  "matchstar c re s \<longleftrightarrow> here (c # CHR ''*'' # re) s"
proof (induction re s and c re s rule: matchhere_matchstar.induct)
  case (2 r re s)
  show ?case
  proof (cases "at0 re = CHR ''*''")
    case True
    then have "re = CHR ''*'' # tl re" by (cases re) auto
    then show ?thesis using 2(1) [OF True] True by (metis matchhere.simps(2))
  next
    case False
    then show ?thesis
      using 2(2) [OF False] here_one [OF False, of r s]
      by (cases "r = CHR ''$'' \<and> re = []") (auto simp: fits_def)
  qed
next
  case (3 c re s)
  then show ?case using here_star [of c re s] by (auto simp: fits_def)
qed simp

lemma match_from_suffix: "match_from re s \<longleftrightarrow> (\<exists>u v. s = u @ v \<and> here re v)"
proof (induction s)
  case Nil
  show ?case by (simp add: matchhere_here(1))
next
  case (Cons c s)
  then show ?case by (auto simp: matchhere_here(1) Cons_eq_append_conv)
qed

text \<open>
  C24: the matcher decides the language.  \<open>match re s\<close> holds exactly when some part of \<open>s\<close>
  is in the language of the items of \<open>re\<close>: at the start of the text when \<open>re\<close> begins with \<open>^\<close>,
  at its end when \<open>re\<close> ends with \<open>$\<close>.  The backtracking terminates on every input.
\<close>

theorem match_language:
  "match re s \<longleftrightarrow>
     (\<exists>u w v. s = u @ w @ v \<and>
        denotes (items (if at0 re = CHR ''^'' then tl re else re)) w \<and>
        (at0 re = CHR ''^'' \<longrightarrow> u = []) \<and>
        (at_end (if at0 re = CHR ''^'' then tl re else re) \<longrightarrow> v = []))"
  by (auto simp: match_def matchhere_here(1) match_from_suffix here_def)

text \<open>Any one character before the last letter: \<open>^a.*b$\<close> takes \<open>axxb\<close> and not \<open>axxbc\<close>.\<close>

lemma match_language_witness:
  "(\<exists>u w v. ''axxb'' = u @ w @ v \<and> denotes [(CHR ''a'', False), (CHR ''.'', True), (CHR ''b'', False)] w \<and>
      u = [] \<and> v = []) \<and> \<not> match ''^a.*b$'' ''axxbc''"
proof -
  have "match ''^a.*b$'' ''axxb''" "\<not> match ''^a.*b$'' ''axxbc''" by code_simp+
  then show ?thesis using match_language [of "''^a.*b$''" "''axxb''"] by simp
qed

section \<open>The input loop\<close>

abbreviation NL :: char where
  "NL \<equiv> CHR 0x0A"

lemma strchr_shorter: "strchr p c = Some q \<Longrightarrow> length (tl q) < length p"
  by (induction p) (auto split: if_splits)

text \<open>The inner loop over the lines in the buffer: what is left of it, and what is written.\<close>

function grep_scan :: "string \<Rightarrow> string \<Rightarrow> string \<times> string" where
  "grep_scan pat p =
     (case strchr p NL of
        None \<Rightarrow> (p, [])
      | Some q \<Rightarrow>
          let l = take (length p - length q) p;
              r = grep_scan pat (tl q)
          in (fst r, (if match pat l then l @ [NL] else []) @ snd r))"
  by pat_completeness auto

termination
  by (relation "measure (\<lambda>(pat, p). length p)") (simp_all del: length_tl add: strchr_shorter)

declare grep_scan.simps [simp del]

text \<open>
  The outer loop: each \<open>read\<close> asks for the free part of the buffer and gets at most what the file
  has at hand, the next entry of \<open>ks\<close>; a read of nothing ends the loop.  A buffer without any
  newline is dropped.
\<close>

fun grep_loop :: "string \<Rightarrow> nat list \<Rightarrow> string \<Rightarrow> string \<Rightarrow> string" where
  "grep_loop pat [] buf inp = []"
| "grep_loop pat (k # ks) buf inp =
     (let r = take (min k (1024 - length buf - 1)) inp in
      if r = [] then []
      else
        let b = buf @ r; (p, out) = grep_scan pat b;
            buf' = (if length p = length b then [] else p)
        in out @ grep_loop pat ks buf' (drop (length r) inp))"

definition grep :: "string \<Rightarrow> nat list \<Rightarrow> string \<Rightarrow> string" where
  "grep pat ks inp = grep_loop pat ks [] inp"

text \<open>The complete lines of a text, and what follows the last newline.\<close>

fun split_nl :: "string \<Rightarrow> string list \<times> string" where
  "split_nl [] = ([], [])"
| "split_nl (c # s) =
     (if c = NL then ([] # fst (split_nl s), snd (split_nl s))
      else case fst (split_nl s) of [] \<Rightarrow> ([], c # snd (split_nl s))
           | l # ls \<Rightarrow> ((c # l) # ls, snd (split_nl s)))"

abbreviation lines :: "string \<Rightarrow> string list" where
  "lines s \<equiv> fst (split_nl s)"

definition hits :: "string \<Rightarrow> string list \<Rightarrow> string" where
  "hits pat ls = concat (map (\<lambda>l. if match pat l then l @ [NL] else []) ls)"

lemma hits_simps [simp]:
  "hits pat [] = []" "hits pat (l # ls) = (if match pat l then l @ [NL] else []) @ hits pat ls"
  "hits pat (ls @ ks) = hits pat ls @ hits pat ks"
  by (simp_all add: hits_def)

lemma split_nl_none: "NL \<notin> set s \<Longrightarrow> split_nl s = ([], s)"
  by (induction s) auto

lemma lines_Nil_iff: "lines s = [] \<longleftrightarrow> NL \<notin> set s"
  by (induction s) (auto split: list.splits)

lemma split_nl_line: "NL \<notin> set l \<Longrightarrow> split_nl (l @ NL # s) = (l # lines s, snd (split_nl s))"
  by (induction l) auto

lemma split_nl_append:
  "lines (a @ b) = lines a @ lines (snd (split_nl a) @ b) \<and>
   snd (split_nl (a @ b)) = snd (split_nl (snd (split_nl a) @ b))"
proof (induction a)
  case (Cons c a)
  show ?case
  proof (cases "c \<noteq> NL \<and> lines a = []")
    case True
    then have "split_nl (c # a) = ([], c # a)" using split_nl_none [of "c # a"] by (auto simp: lines_Nil_iff)
    then show ?thesis by simp
  next
    case False
    then show ?thesis using Cons by (cases "lines a") auto
  qed
qed simp

lemma rest_length: "NL \<in> set s \<Longrightarrow> length (snd (split_nl s)) < length s"
proof (induction s)
  case (Cons c s)
  show ?case
  proof (cases "NL \<in> set s")
    case True
    then show ?thesis using Cons(1) by (auto split: list.split)
  next
    case False
    then show ?thesis using Cons(2) by (auto simp: split_nl_none)
  qed
qed simp

lemma rest_no_NL: "NL \<notin> set (snd (split_nl s))"
  by (induction s) (auto split: list.splits simp: lines_Nil_iff)

lemma rest_subset: "set (snd (split_nl s)) \<subseteq> set s"
  by (induction s) (auto split: list.splits)

lemma grep_scan_lines: "NUL \<notin> set p \<Longrightarrow> grep_scan pat p = (snd (split_nl p), hits pat (lines p))"
proof (induction pat p rule: grep_scan.induct)
  case (1 pat p)
  show ?case
  proof (cases "strchr p NL")
    case None
    then have "NL \<notin> set p" using 1(2) by (simp add: strchr_None cstr_id)
    then show ?thesis using None by (simp add: grep_scan.simps split_nl_none)
  next
    case (Some q)
    obtain l t where p: "p = l @ q" "q = NL # t" "NL \<notin> set l"
      using strchr_Some [OF Some] by (cases q) auto
    then show ?thesis
      using 1(1) [OF Some refl] 1(2) Some by (subst grep_scan.simps) (simp add: split_nl_line)
  qed
qed

text \<open>The lines a suffix adds, when the first line is short.\<close>

lemma grep_loop_lines:
  assumes "\<forall>k \<in> set ks. 1023 \<le> k" and "length inp < length ks" and "NUL \<notin> set (buf @ inp)"
    and "NL \<notin> set buf" and "length buf < 1023" and "\<forall>l \<in> set (lines (buf @ inp)). length l < 1023"
  shows "grep_loop pat ks buf inp = hits pat (lines (buf @ inp))"
  using assms
proof (induction ks arbitrary: buf inp)
  case (Cons k ks)
  define r where "r = take (min k (1024 - length buf - 1)) inp"
  define w where "w = drop (length r) inp"
  have inp: "inp = r @ w" "length r = min (1023 - length buf) (length inp)"
    using Cons(2,6) by (auto simp: r_def w_def min_def)
  show ?case
  proof (cases "inp = []")
    case True
    then show ?thesis using Cons(5) by (simp add: r_def split_nl_none)
  next
    case False
    then have r0: "r \<noteq> []" using inp(2) False Cons(6) by (auto simp: min_def split: if_splits)
    define b where "b = buf @ r"
    have nul: "NUL \<notin> set b" using Cons(4) inp(1) by (simp add: b_def)
    note gs = grep_scan_lines [OF nul, of pat]
    have bw: "buf @ inp = b @ w" using inp(1) by (simp add: b_def)
    note ap = split_nl_append [of b w]
    have step: "grep_loop pat (k # ks) buf inp = hits pat (lines b) @
        grep_loop pat ks (if length (snd (split_nl b)) = length b then [] else snd (split_nl b)) w"
      unfolding grep_loop.simps Let_def r_def [symmetric] b_def [symmetric] w_def [symmetric]
      using r0 gs by simp
    have lw: "length w < length ks" using Cons(3) r0 inp(1) by (cases r) auto
    show ?thesis
    proof (cases "NL \<in> set b")
      case True
      have "length b \<le> 1023" using inp(2) Cons(6) by (simp add: b_def)
      then have "length (snd (split_nl b)) < 1023" using rest_length [OF True] by simp
      then have "grep_loop pat ks (snd (split_nl b)) w = hits pat (lines (snd (split_nl b) @ w))"
        using Cons(1) [of w "snd (split_nl b)"] Cons(2,4,7) lw rest_no_NL [of b] rest_subset [of b] ap nul
        by (auto simp: bw)
      then show ?thesis using step rest_length [OF True] ap by (simp add: bw)
    next
      case False
      have "NL \<notin> set w"
      proof
        assume "NL \<in> set w"
        then obtain u v where w: "w = u @ NL # v" "NL \<notin> set u" by (meson split_list_first)
        have "split_nl (b @ w) = ((b @ u) # lines v, snd (split_nl v))"
          using split_nl_line [of "b @ u" v] False w by simp
        moreover have "1023 \<le> length b"
          using inp w by (cases "1023 - length buf \<le> length inp") (simp_all add: b_def)
        ultimately show False using Cons(7) by (simp add: bw)
      qed
      then have "split_nl w = ([], w)" "split_nl (b @ w) = ([], b @ w)" "split_nl b = ([], b)"
        using False split_nl_none by auto
      moreover have "grep_loop pat ks [] w = hits pat (lines w)"
        using Cons(1) [of w "[]"] Cons(2,4) lw \<open>split_nl w = ([], w)\<close> by (simp add: bw inp(1))
      ultimately show ?thesis using step by (simp add: bw)
    qed
  qed
qed simp



text \<open>
  A line that arrives in two reads, as from a pipe or the console, loses its beginning: the
  first read without a newline empties the buffer.
\<close>

theorem grep_drops_split_line:
  assumes "NL \<notin> set a" and "a \<noteq> []" and "length a < 1024" and "NUL \<notin> set a"
  shows "grep pat (length a # ks) (a @ inp) = grep pat ks inp"
proof -
  have "grep_scan pat a = (a, [])" using grep_scan_lines [OF assms(4)] assms(1) by (simp add: split_nl_none)
  then show ?thesis using assms by (simp add: grep_def Let_def min_def)
qed

lemma grep_drops_split_line_witness:
  "grep ''^he'' [2, 100] ''hello\<newline>'' = [] \<and> grep ''^he'' [100, 100] ''hello\<newline>'' = ''hello\<newline>''"
proof -
  have "grep ''^he'' [100] ''llo\<newline>'' = []" "grep ''^he'' [100, 100] ''hello\<newline>'' = ''hello\<newline>''"
    by code_simp+
  then show ?thesis using grep_drops_split_line [of "''he''" "''^he''" "[100]" "''llo\<newline>''"] by (simp add: numeral_2_eq_2)
qed

end
