(* ===== verification/Xv6_Console.thy ===== *)
theory Xv6_Console
  imports Xv6_Prelude
begin

text \<open>
  The console (\<open>console.c\<close>, \<open>kbd.c\<close>): the keyboard's scan codes, the line editing of
  \<open>consoleintr\<close> on a ring with three free-running 32-bit counters, \<open>consoleread\<close>, and the text
  screen.  The specification of the input side is a line discipline on two lists, the characters
  handed over to readers and the line that is still edited; the ring refines it.
\<close>

section \<open>Input\<close>

definition INPUT_BUF :: nat where "INPUT_BUF = 128"

definition BACKSPACE :: int where "BACKSPACE = 256"

text \<open>\<open>echo\<close> is what was passed to \<open>consputc\<close>, in order.\<close>

record console =
  ibuf :: "byte list"
  cr :: uint
  cw :: uint
  ce :: uint
  echo :: "int list"

definition slot :: "uint \<Rightarrow> nat" where
  "slot i = unat (i mod of_nat INPUT_BUF)"

definition consputc :: "int \<Rightarrow> console \<Rightarrow> console" where
  "consputc c s = s\<lparr>echo := echo s @ [c]\<rparr>"

lemma unat_pred:
  assumes "(a :: uint) \<noteq> b"
  shows "unat (a - 1 - b) = unat (a - b) - 1" "0 < unat (a - b)"
proof -
  have "a - b \<noteq> 0" using assms by simp
  then show p: "0 < unat (a - b)" by (simp add: unat_gt_0)
  have e: "a - 1 - b = a - b - 1" by simp
  show "unat (a - 1 - b) = unat (a - b) - 1" unfolding e using p unat_sub_uint [of "a - b" 1] by simp
qed

text \<open>Control-U: the loop runs while there is an edited character other than a newline.\<close>

function kill_line :: "console \<Rightarrow> console" where
  "kill_line s =
     (if ce s \<noteq> cw s \<and> ibuf s ! slot (ce s - 1) \<noteq> 10
      then kill_line (consputc BACKSPACE (s\<lparr>ce := ce s - 1\<rparr>)) else s)"
  by pat_completeness auto

termination
proof (relation "measure (\<lambda>s. unat (ce s - cw s))")
  fix s :: console
  assume "ce s \<noteq> cw s \<and> ibuf s ! slot (ce s - 1) \<noteq> 10"
  then show "(consputc BACKSPACE (s\<lparr>ce := ce s - 1\<rparr>), s) \<in> measure (\<lambda>s. unat (ce s - cw s))"
    using unat_pred [of "ce s" "cw s"] by (simp add: consputc_def diff_diff_eq)
qed simp

declare kill_line.simps [simp del]

text \<open>One character from \<open>getc\<close>.\<close>

definition console_key :: "int \<Rightarrow> console \<Rightarrow> console" where
  "console_key c s =
     (if c = 16 then s
      else if c = 21 then kill_line s
      else if c = 8 \<or> c = 127 then
        (if ce s \<noteq> cw s then consputc BACKSPACE (s\<lparr>ce := ce s - 1\<rparr>) else s)
      else if c \<noteq> 0 \<and> unat (ce s - cr s) < INPUT_BUF then
        let c = (if c = 13 then 10 else c);
            s = s\<lparr>ibuf := (ibuf s)[slot (ce s) := word_of_int c], ce := ce s + 1\<rparr>;
            s = consputc c s
        in if c = 10 \<or> c = 4 \<or> ce s = cr s + of_nat INPUT_BUF then s\<lparr>cw := ce s\<rparr> else s
      else s)"

text \<open>The characters \<open>getc\<close> gives until it is negative; the flag asks for a process listing.\<close>

definition consoleintr :: "int list \<Rightarrow> console \<Rightarrow> console \<times> bool" where
  "consoleintr cs s =
     (let cs = takeWhile (\<lambda>c. 0 \<le> c) cs in (fold console_key cs s, 16 \<in> set cs))"

datatype read_end = Finished | Killed | Waits nat

text \<open>\<open>consoleread\<close> with \<open>n\<close> of \<open>target\<close> characters still wanted; a reader that waits resumes so.\<close>

fun cread :: "bool \<Rightarrow> nat \<Rightarrow> nat \<Rightarrow> console \<Rightarrow> byte list \<times> console \<times> read_end" where
  "cread killed target 0 s = ([], s, Finished)"
| "cread killed target (Suc n) s =
     (if cr s = cw s then ([], s, if killed then Killed else Waits (Suc n))
      else
        let c = ibuf s ! slot (cr s); s = s\<lparr>cr := cr s + 1\<rparr> in
        if c = 4 then ([], if Suc n < target then s\<lparr>cr := cr s - 1\<rparr> else s, Finished)
        else if c = 10 then ([c], s, Finished)
        else (let (cs, t, e) = cread killed target n s in (c # cs, t, e)))"

definition consoleread :: "bool \<Rightarrow> nat \<Rightarrow> console \<Rightarrow> byte list \<times> console \<times> read_end" where
  "consoleread killed n s = cread killed n n s"

definition consolewrite :: "byte list \<Rightarrow> console \<Rightarrow> console" where
  "consolewrite bs s = fold (\<lambda>b. consputc (uint b)) bs s"

section \<open>The line discipline\<close>

type_synonym ldisc = "byte list \<times> byte list"

text \<open>The characters ready for readers, and the line in the editor.\<close>

fun ld_key :: "int \<Rightarrow> ldisc \<Rightarrow> ldisc" where
  "ld_key c (ready, line) =
     (if c = 16 \<or> c = 0 then (ready, line)
      else if c = 21 then (ready, [])
      else if c = 8 \<or> c = 127 then (ready, butlast line)
      else if length ready + length line < INPUT_BUF then
        let b = word_of_int (if c = 13 then 10 else c) in
        if b = 10 \<or> b = 4 \<or> length ready + length line + 1 = INPUT_BUF
        then (ready @ line @ [b], []) else (ready, line @ [b])
      else (ready, line))"

fun ld_read :: "bool \<Rightarrow> nat \<Rightarrow> nat \<Rightarrow> byte list \<Rightarrow> byte list \<times> byte list \<times> read_end" where
  "ld_read killed target 0 ready = ([], ready, Finished)"
| "ld_read killed target (Suc n) [] = ([], [], if killed then Killed else Waits (Suc n))"
| "ld_read killed target (Suc n) (c # ready) =
     (if c = 4 then ([], if Suc n < target then c # ready else ready, Finished)
      else if c = 10 then ([c], ready, Finished)
      else (let (cs, r, e) = ld_read killed target n ready in (c # cs, r, e)))"

text \<open>The ring's view: \<open>n\<close> characters from counter \<open>i\<close> on.\<close>

definition slice :: "byte list \<Rightarrow> uint \<Rightarrow> nat \<Rightarrow> byte list" where
  "slice b i n = map (\<lambda>k. b ! slot (i + of_nat k)) [0..<n]"

definition ready_of :: "console \<Rightarrow> byte list" where
  "ready_of s = slice (ibuf s) (cr s) (unat (cw s - cr s))"

definition line_of :: "console \<Rightarrow> byte list" where
  "line_of s = slice (ibuf s) (cw s) (unat (ce s - cw s))"

definition con_ok :: "console \<Rightarrow> bool" where
  "con_ok s \<longleftrightarrow> length (ibuf s) = INPUT_BUF \<and>
     unat (cw s - cr s) + unat (ce s - cw s) \<le> INPUT_BUF \<and> 10 \<notin> set (line_of s)"

lemma slot_bound [simp]: "slot i < INPUT_BUF"
  by (simp add: slot_def INPUT_BUF_def unat_mod)

lemma slot_dvd: "(128 :: nat) dvd 4294967296"
  by simp

lemma slot_add: "slot (i + of_nat k) = (unat i + k) mod INPUT_BUF"
proof -
  have "unat (i + of_nat k) mod 128 = (unat i + unat (of_nat k :: uint)) mod 4294967296 mod 128"
    by (simp only: unat_add_uint)
  also have "\<dots> = (unat i + k mod 4294967296) mod 128" by (simp add: unat_of_nat mod_mod_cancel)
  also have "\<dots> = (unat i + k) mod 128" by (metis mod_add_right_eq mod_mod_cancel [of 128 4294967296 k] slot_dvd)
  finally show ?thesis by (simp add: slot_def INPUT_BUF_def unat_mod)
qed

lemma slot_neq: "j < n \<Longrightarrow> n < INPUT_BUF \<Longrightarrow> slot (i + of_nat n) \<noteq> slot (i + of_nat j)"
  using mod_window [of j INPUT_BUF n "unat i"] by (auto simp: slot_add)

lemma length_slice [simp]: "length (slice b i n) = n"
  by (simp add: slice_def)

lemma slice_Suc: "slice b i (Suc n) = slice b i n @ [b ! slot (i + of_nat n)]"
  by (simp add: slice_def)

lemma slice_0 [simp]: "slice b i 0 = []"
  by (simp add: slice_def)

lemma slice_append: "slice b i (m + n) = slice b i m @ slice b (i + of_nat m) n"
  by (induction n) (simp_all add: slice_Suc add.assoc)

lemma slice_Cons: "slice b i (Suc n) = b ! slot i # slice b (i + 1) n"
  using slice_append [of b i 1 n] by (simp add: slice_Suc)

lemma slice_put:
  assumes "length b = INPUT_BUF" "n < INPUT_BUF" "m \<le> n"
  shows "slice (b[slot (i + of_nat n) := x]) i m = slice b i m"
proof -
  have "(b[slot (i + of_nat n) := x]) ! slot (i + of_nat k) = b ! slot (i + of_nat k)" if "k < m" for k
    using slot_neq [of k n i] that assms(2,3) by simp
  then show ?thesis by (simp add: slice_def)
qed

section \<open>The ring refines it\<close>

lemma con_counts:
  assumes "con_ok s"
  shows "unat (ce s - cr s) = length (ready_of s) + length (line_of s)"
proof -
  have "ce s - cr s = (cw s - cr s) + (ce s - cw s)" by simp
  then have "unat (ce s - cr s) = (unat (cw s - cr s) + unat (ce s - cw s)) mod 4294967296"
    by (metis unat_add_uint)
  then show ?thesis using assms by (simp add: con_ok_def ready_of_def line_of_def INPUT_BUF_def)
qed

text \<open>The ready characters and the line in one slice, by the counter \<open>r\<close>.\<close>

lemma con_slices:
  assumes "con_ok s"
  shows "slice (ibuf s) (cr s) (unat (ce s - cr s)) = ready_of s @ line_of s"
proof -
  have "cr s + (cw s - cr s) = cw s" by simp
  then show ?thesis
    using con_counts [OF assms] slice_append [of "ibuf s" "cr s" "unat (cw s - cr s)" "unat (ce s - cw s)"]
    by (simp add: ready_of_def line_of_def)
qed

text \<open>Taking the last character of the line back.\<close>

lemma line_back:
  assumes "ce s \<noteq> cw s"
  shows "slice (ibuf s) (cw s) (unat (ce s - 1 - cw s)) = butlast (line_of s)"
    "last (line_of s) = ibuf s ! slot (ce s - 1)" "line_of s \<noteq> []"
proof -
  obtain n where n: "unat (ce s - cw s) = Suc n" "unat (ce s - 1 - cw s) = n"
    using unat_pred [OF assms] by (cases "unat (ce s - cw s)") auto
  have "of_nat n = ce s - 1 - cw s" by (simp add: n(2) [symmetric])
  then have "cw s + of_nat n = ce s - 1" by simp
  then show "slice (ibuf s) (cw s) (unat (ce s - 1 - cw s)) = butlast (line_of s)"
    "last (line_of s) = ibuf s ! slot (ce s - 1)" "line_of s \<noteq> []"
    using n by (simp_all add: line_of_def slice_Suc)
qed

lemma back_ok:
  assumes "con_ok s" "ce s \<noteq> cw s" and t: "t = consputc c (s\<lparr>ce := ce s - 1\<rparr>)"
  shows "con_ok t" "ready_of t = ready_of s" "line_of t = butlast (line_of s)"
proof -
  have f: "ibuf t = ibuf s" "cr t = cr s" "cw t = cw s" "ce t = ce s - 1" by (simp_all add: t consputc_def)
  show r: "ready_of t = ready_of s" by (simp add: ready_of_def f)
  show l: "line_of t = butlast (line_of s)" using line_back(1) [OF assms(2)] by (simp add: line_of_def f)
  have "unat (ce s - 1 - cw s) \<le> unat (ce s - cw s)" using unat_pred [OF assms(2)] by simp
  then show "con_ok t"
    using assms(1) l in_set_butlastD [of 10 "line_of s"] by (auto simp: con_ok_def f)
qed

lemma kill_line_ok:
  "con_ok s \<Longrightarrow> con_ok (kill_line s) \<and> ready_of (kill_line s) = ready_of s \<and> line_of (kill_line s) = []"
proof (induction s rule: kill_line.induct)
  case (1 s)
  show ?case
  proof (cases "ce s = cw s")
    case True
    then show ?thesis using 1(2) by (subst kill_line.simps) (simp add: kill_line.simps line_of_def)
  next
    case False
    then have "ibuf s ! slot (ce s - 1) \<in> set (line_of s)"
      using line_back(2,3) [OF False] by (metis last_in_set)
    then have c: "ce s \<noteq> cw s \<and> ibuf s ! slot (ce s - 1) \<noteq> 10" using False 1(2) by (auto simp: con_ok_def)
    show ?thesis
      using 1(1) [OF c] back_ok [OF 1(2) False refl, of BACKSPACE] c
      by (subst (1 2 3) kill_line.simps) simp
  qed
qed

text \<open>A character typed into a ring that is not full.\<close>

lemma type_slices:
  assumes ok: "con_ok s" and room: "length (ready_of s) + length (line_of s) < INPUT_BUF"
    and t: "ibuf t = (ibuf s)[slot (ce s) := b]" "ce t = ce s + 1" "cw t = cw s" "cr t = cr s"
  shows "ready_of t = ready_of s" "line_of t = line_of s @ [b]"
    "unat (ce t - cw t) = unat (ce s - cw s) + 1" "length (ibuf t) = INPUT_BUF"
proof -
  let ?m = "unat (cw s - cr s)" and ?n = "unat (ce s - cw s)"
  have len: "length (ibuf s) = INPUT_BUF" and mn: "?m + ?n < INPUT_BUF"
    using ok room by (simp_all add: con_ok_def ready_of_def line_of_def)
  have e: "slot (ce s) = slot (cw s + of_nat ?n)" "slot (ce s) = slot (cr s + of_nat (?m + ?n))"
    by simp_all
  have "unat (ce s - cw s + 1) = ?n + 1" using mn by (simp add: unat_add_uint INPUT_BUF_def)
  moreover have "ce s + 1 - cw s = ce s - cw s + 1" by simp
  ultimately show c: "unat (ce t - cw t) = ?n + 1" by (simp only: t)
  have "slice (ibuf t) (cw s) ?n = slice (ibuf s) (cw s) ?n"
    unfolding t(1) e(1) by (rule slice_put) (use len mn in simp_all)
  moreover have "ibuf t ! slot (cw s + of_nat ?n) = b" using len by (simp add: t(1))
  ultimately show "line_of t = line_of s @ [b]" by (simp add: line_of_def c [unfolded t(3)] t(3) slice_Suc)
  have "slice (ibuf t) (cr s) ?m = slice (ibuf s) (cr s) ?m"
    unfolding t(1) e(2) by (rule slice_put) (use len mn in simp_all)
  then show "ready_of t = ready_of s" by (simp add: ready_of_def t(3,4))
  show "length (ibuf t) = INPUT_BUF" using len by (simp add: t(1))
qed

lemma commit_ok:
  assumes l: "length (ibuf t) = INPUT_BUF" and c: "unat (cw t - cr t) + unat (ce t - cw t) \<le> INPUT_BUF"
  shows "con_ok (t\<lparr>cw := ce t\<rparr>)" "ready_of (t\<lparr>cw := ce t\<rparr>) = ready_of t @ line_of t"
    "line_of (t\<lparr>cw := ce t\<rparr>) = []"
proof -
  have "ce t - cr t = (cw t - cr t) + (ce t - cw t)" by simp
  then have n: "unat (ce t - cr t) = unat (cw t - cr t) + unat (ce t - cw t)"
    using unat_add_uint [of "cw t - cr t" "ce t - cw t"] c by (simp add: INPUT_BUF_def)
  have "cr t + (cw t - cr t) = cw t" by simp
  then show r: "ready_of (t\<lparr>cw := ce t\<rparr>) = ready_of t @ line_of t"
    using slice_append [of "ibuf t" "cr t" "unat (cw t - cr t)" "unat (ce t - cw t)"]
    by (simp add: ready_of_def line_of_def n)
  show e: "line_of (t\<lparr>cw := ce t\<rparr>) = []" by (simp add: line_of_def)
  show "con_ok (t\<lparr>cw := ce t\<rparr>)" using l c n by (simp add: con_ok_def e)
qed

lemma full_iff:
  assumes "unat (ce t - cr t) \<le> INPUT_BUF"
  shows "ce t = cr t + of_nat INPUT_BUF \<longleftrightarrow> unat (ce t - cr t) = INPUT_BUF"
proof -
  have "ce t = cr t + of_nat INPUT_BUF \<longleftrightarrow> ce t - cr t = of_nat INPUT_BUF"
    by (auto simp: algebra_simps)
  also have "\<dots> \<longleftrightarrow> unat (ce t - cr t) = INPUT_BUF" by (simp add: INPUT_BUF_def word_unat_eq_iff)
  finally show ?thesis .
qed

lemma key_byte: "0 \<le> c \<Longrightarrow> c < 256 \<Longrightarrow> (word_of_int c :: byte) = word_of_int d \<longleftrightarrow> c = d mod 256"
  by (simp add: word_uint_eq_iff uint_word_of_int)

lemma console_key_ok:
  assumes ok: "con_ok s" and c: "0 \<le> c" "c < 256"
  shows "con_ok (console_key c s) \<and> (ready_of (console_key c s), line_of (console_key c s)) =
      ld_key c (ready_of s, line_of s)"
proof -
  have none: "line_of s = []" if "ce s = cw s" using that by (simp add: line_of_def)
  consider "c = 16" | "c = 21" | "c = 8 \<or> c = 127" | "c = 0"
    | "c \<noteq> 0 \<and> c \<noteq> 16 \<and> c \<noteq> 21 \<and> c \<noteq> 8 \<and> c \<noteq> 127" by blast
  then show ?thesis
  proof cases
    case 2
    then show ?thesis using kill_line_ok [OF ok] by (simp add: console_key_def)
  next
    case 3
    then show ?thesis using back_ok [OF ok _ refl, of BACKSPACE] none ok
      by (cases "ce s = cw s") (auto simp: console_key_def)
  next
    case 5
    note n = con_counts [OF ok]
    define d where "d = (if c = 13 then 10 else c)"
    have d: "0 < d" "d < 256" using c 5 by (auto simp: d_def)
    define t where "t = consputc d (s\<lparr>ibuf := (ibuf s)[slot (ce s) := word_of_int d], ce := ce s + 1\<rparr>)"
    have t: "ibuf t = (ibuf s)[slot (ce s) := word_of_int d]" "ce t = ce s + 1" "cw t = cw s" "cr t = cr s"
      by (simp_all add: t_def consputc_def)
    show ?thesis
    proof (cases "unat (ce s - cr s) < INPUT_BUF")
      case False
      then show ?thesis using 5 ok n by (simp add: console_key_def)
    next
      case True
      then have room: "length (ready_of s) + length (line_of s) < INPUT_BUF" using n by simp
      note ts = type_slices [OF ok room t]
      have cnt: "unat (cw t - cr t) + unat (ce t - cw t) = length (ready_of s) + length (line_of s) + 1"
        using ts(3) by (simp add: ready_of_def line_of_def t(3,4))
      note cm = commit_ok [OF ts(4)]
      have key: "console_key c s = (if d = 10 \<or> d = 4 \<or> ce t = cr t + of_nat INPUT_BUF then t\<lparr>cw := ce t\<rparr> else t)"
        using 5 True by (simp add: console_key_def Let_def d_def t_def consputc_def)
      have ce: "unat (ce t - cr t) = length (ready_of s) + length (line_of s) + 1"
      proof -
        have "ce t - cr t = ce s - cr s + 1" by (simp add: t)
        then show ?thesis using n True unat_add_uint [of "ce s - cr s" 1] by (simp add: INPUT_BUF_def)
      qed
      have full: "ce t = cr t + of_nat INPUT_BUF \<longleftrightarrow> length (ready_of s) + length (line_of s) + 1 = INPUT_BUF"
        using full_iff [of t] ce room by simp
      have b: "(word_of_int d :: byte) = 10 \<longleftrightarrow> d = 10" "(word_of_int d :: byte) = 4 \<longleftrightarrow> d = 4"
        using key_byte [of d 10] key_byte [of d 4] d by simp_all
      have ld: "ld_key c (ready_of s, line_of s) =
          (if d = 10 \<or> d = 4 \<or> length (ready_of s) + length (line_of s) + 1 = INPUT_BUF
           then (ready_of s @ line_of s @ [word_of_int d], []) else (ready_of s, line_of s @ [word_of_int d]))"
        using 5 room b by (simp add: Let_def d_def)
      show ?thesis
      proof (cases "d = 10 \<or> d = 4 \<or> ce t = cr t + of_nat INPUT_BUF")
        case True
        then show ?thesis using cm cnt room ts(1,2) full by (simp add: key ld del: ld_key.simps)
      next
        case False
        have "con_ok t" using ok ts cnt room False b by (auto simp: con_ok_def)
        then show ?thesis using False ts(1,2) full by (simp add: key ld del: ld_key.simps)
      qed
    qed
  qed (simp_all add: console_key_def ok)
qed

lemma read_one:
  assumes "con_ok s" "cr s \<noteq> cw s"
  shows "ready_of s = ibuf s ! slot (cr s) # ready_of (s\<lparr>cr := cr s + 1\<rparr>)"
    "con_ok (s\<lparr>cr := cr s + 1\<rparr>)" "line_of (s\<lparr>cr := cr s + 1\<rparr>) = line_of s"
proof -
  have "0 < unat (cw s - cr s)" using assms(2) by (simp add: unat_gt_0)
  then obtain m where m: "unat (cw s - cr s) = Suc m" by (cases "unat (cw s - cr s)") auto
  have e: "cw s - (cr s + 1) = cw s - cr s - 1" by simp
  have m': "unat (cw s - (cr s + 1)) = m" unfolding e using m unat_sub_uint [of "cw s - cr s" 1] by simp
  show "ready_of s = ibuf s ! slot (cr s) # ready_of (s\<lparr>cr := cr s + 1\<rparr>)"
    by (simp add: ready_of_def m m' slice_Cons)
  show l: "line_of (s\<lparr>cr := cr s + 1\<rparr>) = line_of s" by (simp add: line_of_def)
  show "con_ok (s\<lparr>cr := cr s + 1\<rparr>)" using assms(1) m m' l by (simp add: con_ok_def)
qed

lemma cread_ok:
  assumes "con_ok s"
  shows "\<exists>cs t e. cread killed target n s = (cs, t, e) \<and> ld_read killed target n (ready_of s) = (cs, ready_of t, e) \<and>
     con_ok t \<and> line_of t = line_of s"
  using assms
proof (induction n arbitrary: s)
  case (Suc n)
  show ?case
  proof (cases "cr s = cw s")
    case True
    then have "ready_of s = []" by (simp add: ready_of_def)
    then show ?thesis using Suc(2) True by auto
  next
    case False
    note r = read_one [OF Suc(2) False]
    have restore: "s\<lparr>cr := cr s\<rparr> = s" by simp
    show ?thesis
      using Suc(1) [OF r(2)] Suc(2) False r by (auto simp: Let_def restore split: prod.splits)
  qed
qed simp

section \<open>Typing and reading\<close>

datatype con_event = Key int | Read bool nat

text \<open>A keystroke, or a read with what it returned and how it ended.\<close>

fun con_run :: "con_event list \<Rightarrow> console \<Rightarrow> (byte list \<times> read_end) list" where
  "con_run [] s = []"
| "con_run (Key c # es) s = con_run es (console_key c s)"
| "con_run (Read killed n # es) s =
     (let (cs, t, e) = consoleread killed n s in (cs, e) # con_run es t)"

fun ld_run :: "con_event list \<Rightarrow> ldisc \<Rightarrow> (byte list \<times> read_end) list" where
  "ld_run [] d = []"
| "ld_run (Key c # es) d = ld_run es (ld_key c d)"
| "ld_run (Read killed n # es) (ready, line) =
     (let (cs, r, e) = ld_read killed n n ready in (cs, e) # ld_run es (r, line))"

text \<open>Static storage: everything is zero.\<close>

definition con_init :: console where
  "con_init = \<lparr>ibuf = replicate INPUT_BUF 0, cr = 0, cw = 0, ce = 0, echo = []\<rparr>"

lemma con_init_ok: "con_ok con_init" "ready_of con_init = []" "line_of con_init = []"
  by (simp_all add: con_init_def con_ok_def ready_of_def line_of_def)

text \<open>
  C26: the console is a line editor.  Over any interleaving of keystrokes and reads, every read
  of the ring of 128 characters returns what the line discipline on lists returns: edited lines
  only, at most one line each, with backspace, line kill, end of file and a full buffer as
  specified, whatever the 32-bit counters are when they wrap.
\<close>

theorem console_line_editor:
  assumes "con_ok s" and "\<forall>c. Key c \<in> set es \<longrightarrow> 0 \<le> c \<and> c < 256"
  shows "con_run es s = ld_run es (ready_of s, line_of s)"
  using assms
proof (induction es arbitrary: s)
  case (Cons e es)
  show ?case
  proof (cases e)
    case (Key c)
    then have "0 \<le> c" "c < 256" using Cons(3) by auto
    note k = console_key_ok [OF Cons(2) this]
    then have "con_run es (console_key c s) = ld_run es (ready_of (console_key c s), line_of (console_key c s))"
      using Cons(1) [of "console_key c s"] Cons(3) by auto
    then show ?thesis using k Key by (simp del: ld_key.simps)
  next
    case (Read killed n)
    obtain cs t e' where t: "cread killed n n s = (cs, t, e')" "ld_read killed n n (ready_of s) = (cs, ready_of t, e')"
      "con_ok t" "line_of t = line_of s"
      using cread_ok [OF Cons(2)] by blast
    then show ?thesis using Cons(1) [OF t(3)] Cons(3) Read by (simp add: consoleread_def)
  qed
qed simp

text \<open>\<open>ls\<close> typed with a slip, and read in two parts.\<close>

lemma console_line_editor_witness:
  "con_run [Key 108, Key 120, Key 8, Key 115, Read False 5, Key 13, Read False 2, Read False 5] con_init =
     [([], Waits 5), ([108, 115], Finished), ([10], Finished)]"
proof -
  let ?es = "[Key 108, Key 120, Key 8, Key 115, Read False 5, Key 13, Read False 2, Read False 5]"
  have "ld_run ?es ([], []) = [([], Waits 5), ([108, 115], Finished), ([10], Finished)]" by code_simp
  then show ?thesis using console_line_editor [OF con_init_ok(1), of ?es] con_init_ok by simp
qed

end
