(* ===== verification/Xv6_Screen.thy ===== *)
theory Xv6_Screen
  imports Xv6_Prelude
begin

unbundle bit_operations_syntax

text \<open>
  The text screen (\<open>cgaputc\<close> of \<open>console.c\<close>) and the keyboard (\<open>kbd.c\<close>, \<open>kbd.h\<close>).  The CGA memory
  is the list of its 25 rows of 80 cells; the cursor register is part of the state.
\<close>

section \<open>The screen\<close>

type_synonym cell = "16 word"

record screen =
  crt :: "cell list"
  cursor :: int

definition blank :: cell where "blank = 0x720"

text \<open>\<open>(c&0xff) | 0x0700\<close>: the character, black on white.\<close>

definition glyph :: "int \<Rightarrow> cell" where
  "glyph c = (word_of_int c AND 0xFF) OR 0x700"

text \<open>Scrolling: \<open>memmove\<close> of 23 rows and \<open>memset\<close> of the rest of the 24 rows.\<close>

definition scroll :: "cell list \<Rightarrow> int \<Rightarrow> cell list" where
  "scroll cs pos = take (nat pos) (take (23 * 80) (drop 80 cs) @ drop (23 * 80) cs) @
     replicate (24 * 80 - nat pos) 0 @ drop (24 * 80) cs"

definition cgaputc :: "int \<Rightarrow> screen \<Rightarrow> screen outcome" where
  "cgaputc c s =
     (let pos = cursor s;
          (cs, pos) =
            (if c = 10 then (crt s, pos + (80 - pos mod 80))
             else if c = 256 then (crt s, if pos > 0 then pos - 1 else pos)
             else ((crt s)[nat pos := glyph c], pos + 1)) in
      if pos < 0 \<or> pos > 25 * 80 then Panic ''pos under/overflow''
      else
        let (cs, pos) = (if pos div 80 \<ge> 24 then (scroll cs (pos - 80), pos - 80) else (cs, pos))
        in Val \<lparr>crt = cs[nat pos := blank], cursor = pos\<rparr>)"

definition screen_ok :: "screen \<Rightarrow> bool" where
  "screen_ok s \<longleftrightarrow> length (crt s) = 25 * 80 \<and> 0 \<le> cursor s \<and> cursor s < 24 * 80"

lemma length_scroll: "length cs = 2000 \<Longrightarrow> 0 \<le> pos \<Longrightarrow> pos \<le> 1920 \<Longrightarrow> length (scroll cs pos) = 2000"
  by (simp add: scroll_def)

lemma nth_scroll:
  assumes "length cs = 2000" "0 \<le> pos" "pos < 1920" "i < 1920"
  shows "scroll cs pos ! i = (if int i < pos then (if i < 1840 then cs ! (i + 80) else cs ! i) else 0)"
  using assms by (auto simp: scroll_def nth_append add.commute)

text \<open>Where the cursor goes before any scrolling, and the cells with the character written.\<close>

definition next_pos :: "int \<Rightarrow> screen \<Rightarrow> int" where
  "next_pos c s =
     (if c = 10 then 80 * (cursor s div 80 + 1)
      else if c = 256 then max 0 (cursor s - 1) else cursor s + 1)"

definition typed :: "int \<Rightarrow> screen \<Rightarrow> cell list" where
  "typed c s = (if c = 10 \<or> c = 256 then crt s else (crt s)[nat (cursor s) := glyph c])"

lemma cgaputc_run:
  assumes "screen_ok s"
  shows "cgaputc c s =
     (if next_pos c s = 1920 then Val \<lparr>crt = (scroll (typed c s) 1840)[1840 := blank], cursor = 1840\<rparr>
      else Val \<lparr>crt = (typed c s)[nat (next_pos c s) := blank], cursor = next_pos c s\<rparr>)"
    "0 \<le> next_pos c s" "next_pos c s \<le> 1920"
proof -
  have s: "0 \<le> cursor s" "cursor s < 1920" using assms by (simp_all add: screen_ok_def)
  show p: "0 \<le> next_pos c s" "next_pos c s \<le> 1920" using s by (auto simp: next_pos_def)
  have nl: "cursor s + (80 - cursor s mod 80) = 80 * (cursor s div 80 + 1)"
    by (simp add: minus_mod_eq_mult_div [symmetric] algebra_simps)
  have "(if c = 10 then (crt s, cursor s + (80 - cursor s mod 80))
         else if c = 256 then (crt s, if cursor s > 0 then cursor s - 1 else cursor s)
         else ((crt s)[nat (cursor s) := glyph c], cursor s + 1)) = (typed c s, next_pos c s)"
    using s by (simp add: next_pos_def typed_def nl)
  then have "cgaputc c s = (let (cs, pos) = (if next_pos c s div 80 \<ge> 24
          then (scroll (typed c s) (next_pos c s - 80), next_pos c s - 80) else (typed c s, next_pos c s))
        in Val \<lparr>crt = cs[nat pos := blank], cursor = pos\<rparr>)"
    using p by (simp add: cgaputc_def)
  moreover have "next_pos c s div 80 \<ge> 24 \<longleftrightarrow> next_pos c s = 1920" using p(2) by auto
  ultimately show "cgaputc c s =
     (if next_pos c s = 1920 then Val \<lparr>crt = (scroll (typed c s) 1840)[1840 := blank], cursor = 1840\<rparr>
      else Val \<lparr>crt = (typed c s)[nat (next_pos c s) := blank], cursor = next_pos c s\<rparr>)" by simp
qed

text \<open>
  The screen.  From a cursor on rows 0 to 23 \<open>cgaputc\<close> never panics, leaves the cursor there
  and a blank under it; a character goes to the cell the cursor was on, and when the cursor runs
  past row 23 every row moves up by one.
\<close>

theorem cgaputc_screen:
  assumes "screen_ok s"
  shows "\<exists>t. cgaputc c s = Val t \<and> screen_ok t \<and> crt t ! nat (cursor t) = blank \<and>
     cursor t = (if next_pos c s = 1920 then 1840 else next_pos c s) \<and>
     (\<forall>i < nat (cursor t). crt t ! i = typed c s ! (if next_pos c s = 1920 then i + 80 else i))"
proof -
  have l: "length (typed c s) = 2000" using assms by (simp add: typed_def screen_ok_def)
  note run = cgaputc_run [OF assms, of c]
  show ?thesis
  proof (cases "next_pos c s = 1920")
    case True
    have "(scroll (typed c s) 1840)[1840 := blank] ! i = typed c s ! (i + 80)" if "i < 1840" for i
      using nth_scroll [of "typed c s" 1840 i] l that by simp
    then show ?thesis
      using run(1) True length_scroll [of "typed c s" 1840] l by (simp add: screen_ok_def)
  next
    case False
    then have "next_pos c s < 1920" "0 \<le> next_pos c s" using run(2,3) by simp_all
    then show ?thesis using run(1) False l by (simp add: screen_ok_def)
  qed
qed

lemma cgaputc_screen_witness:
  "\<exists>t. cgaputc 65 \<lparr>crt = replicate 2000 blank, cursor = 1919\<rparr> = Val t \<and> cursor t = 1840 \<and>
     crt t ! 1839 = glyph 65"
proof -
  let ?s = "\<lparr>crt = replicate 2000 blank, cursor = 1919\<rparr>"
  have "screen_ok ?s" by (simp add: screen_ok_def)
  from cgaputc_screen [OF this, of 65] show ?thesis by (auto simp: next_pos_def typed_def)
qed

section \<open>The keyboard\<close>

text \<open>The modifier bits of \<open>shift\<close>.\<close>

definition SHIFT :: uint where "SHIFT = 1"
definition CTL :: uint where "CTL = 2"
definition ALT :: uint where "ALT = 4"
definition CAPSLOCK :: uint where "CAPSLOCK = 8"
definition NUMLOCK :: uint where "NUMLOCK = 16"
definition SCROLLLOCK :: uint where "SCROLLLOCK = 32"
definition E0ESC :: uint where "E0ESC = 64"

definition shiftcode :: "nat \<Rightarrow> uint" where
  "shiftcode d =
     (if d = 0x1D \<or> d = 0x9D then CTL else if d = 0x2A \<or> d = 0x36 then SHIFT
      else if d = 0x38 \<or> d = 0xB8 then ALT else 0)"

definition togglecode :: "nat \<Rightarrow> uint" where
  "togglecode d =
     (if d = 0x3A then CAPSLOCK else if d = 0x45 then NUMLOCK else if d = 0x46 then SCROLLLOCK else 0)"

text \<open>The key maps: rows of eight, then the keys with an \<open>E0\<close> prefix.\<close>

definition ctl_of :: "char \<Rightarrow> nat" where
  "ctl_of x = nat ((int (of_char x) - 64) mod 256)"

definition chr :: "string \<Rightarrow> nat list" where
  "chr = map of_char"

definition e0_keys :: "(nat \<times> nat) list" where
  "e0_keys = [(0xC8, 0xE2), (0xD0, 0xE3), (0xC9, 0xE6), (0xD1, 0xE7), (0xCB, 0xE4), (0xCD, 0xE5),
     (0x97, 0xE0), (0xCF, 0xE1), (0xD2, 0xE8), (0xD3, 0xE9)]"

definition keymap :: "nat list \<Rightarrow> (nat \<times> nat) list \<Rightarrow> nat \<Rightarrow> nat" where
  "keymap rows ext d =
     (if d < length rows then rows ! d else case map_of (ext @ e0_keys) d of Some c \<Rightarrow> c | None \<Rightarrow> 0)"

definition normalmap :: "nat \<Rightarrow> nat" where
  "normalmap = keymap
     ([0, 0x1B] @ chr ''1234567890-='' @ [8, 9] @ chr ''qwertyuiop[]'' @ [10, 0] @ chr ''asdfghjkl;'' @
      [39, 96, 0, 92] @ chr ''zxcvbnm,./'' @ [0, 42, 0, 32, 0, 0, 0, 0, 0, 0, 0, 0, 0, 0, 0, 0, 0] @
      chr ''789-456+1230.'' @ [0, 0, 0, 0])
     [(0x9C, 10), (0xB5, 47)]"

definition shiftmap :: "nat \<Rightarrow> nat" where
  "shiftmap = keymap
     ([0, 27] @ chr ''!@#$%^&*()_+'' @ [8, 9] @ chr ''QWERTYUIOP{}'' @ [10, 0] @ chr ''ASDFGHJKL:'' @
      [34, 126, 0, 124] @ chr ''ZXCVBNM<>?'' @ [0, 42, 0, 32, 0, 0, 0, 0, 0, 0, 0, 0, 0, 0, 0, 0, 0] @
      chr ''789-456+1230.'' @ [0, 0, 0, 0])
     [(0x9C, 10), (0xB5, 47)]"

definition ctlmap :: "nat \<Rightarrow> nat" where
  "ctlmap = keymap
     (replicate 16 0 @ map ctl_of ''QWERTYUIOP'' @ [0, 0, 13, 0] @ map ctl_of ''ASDFGHJKL'' @ [0, 0, 0, 0, 28] @
      map ctl_of ''ZXCVBNM'' @ [0, 0, 239, 0, 0])
     [(0x9C, 13), (0xB5, 239)]"

text \<open>\<open>charcode[shift & (CTL | SHIFT)][data]\<close>, with the case swapped under caps lock.\<close>

definition swap_case :: "nat \<Rightarrow> nat" where
  "swap_case c =
     (if 97 \<le> c \<and> c \<le> 122 then c - 32 else if 65 \<le> c \<and> c \<le> 90 then c + 32 else c)"

definition key_char :: "bool \<Rightarrow> bool \<Rightarrow> bool \<Rightarrow> nat \<Rightarrow> nat" where
  "key_char ctl sh caps data =
     (let c = (if ctl then ctlmap data else if sh then shiftmap data else normalmap data)
      in if caps then swap_case c else c)"

text \<open>
  \<open>kbdgetc\<close> with the controller's status and data bytes; it gives the new \<open>shift\<close> and the result.
\<close>

definition kbdgetc :: "nat \<Rightarrow> nat \<Rightarrow> uint \<Rightarrow> uint \<times> int" where
  "kbdgetc st data shift =
     (if even st then (shift, - 1)
      else if data = 0xE0 then (shift OR E0ESC, 0)
      else if 0x80 \<le> data then
        let data = (if shift AND E0ESC \<noteq> 0 then data else data - 0x80)
        in (shift AND NOT (shiftcode data OR E0ESC), 0)
      else
        let (data, shift) = (if shift AND E0ESC \<noteq> 0 then (data + 0x80, shift AND NOT E0ESC) else (data, shift));
            shift = (shift OR shiftcode data) XOR togglecode data
        in (shift, int (key_char (shift AND CTL \<noteq> 0) (shift AND SHIFT \<noteq> 0) (shift AND CAPSLOCK \<noteq> 0) data)))"

section \<open>Modifiers\<close>

text \<open>The driver after a whole sequence of scan codes, with the characters it produced.\<close>

definition kbd_feed :: "nat list \<Rightarrow> uint \<Rightarrow> uint \<times> int list" where
  "kbd_feed ds shift =
     fold (\<lambda>d (shift, cs). let (shift, c) = kbdgetc 1 d shift in (shift, if 0 < c then cs @ [c] else cs)) ds (shift, [])"

lemma mod_bits [simp]:
  "w AND SHIFT = 0 \<longleftrightarrow> \<not> bit w 0" "w AND CTL = 0 \<longleftrightarrow> \<not> bit w 1"
  "w AND CAPSLOCK = 0 \<longleftrightarrow> \<not> bit w 3" "w AND E0ESC = 0 \<longleftrightarrow> \<not> bit w 6"
  using and_exp_eq_0_iff_not_bit [of w 0] and_exp_eq_0_iff_not_bit [of w 1]
    and_exp_eq_0_iff_not_bit [of w 3] and_exp_eq_0_iff_not_bit [of w 6]
  by (simp_all add: SHIFT_def CTL_def CAPSLOCK_def E0ESC_def)

lemma bit_codes [simp]:
  "bit SHIFT n \<longleftrightarrow> n = 0" "bit CTL n \<longleftrightarrow> n = 1" "bit CAPSLOCK n \<longleftrightarrow> n = 3" "bit E0ESC n \<longleftrightarrow> n = 6"
proof -
  have "bit (2 ^ k :: uint) n \<longleftrightarrow> n = k" if "k < 32" for k using that by (auto simp: bit_exp_iff)
  from this [of 0] this [of 1] this [of 3] this [of 6]
  show "bit SHIFT n \<longleftrightarrow> n = 0" "bit CTL n \<longleftrightarrow> n = 1" "bit CAPSLOCK n \<longleftrightarrow> n = 3" "bit E0ESC n \<longleftrightarrow> n = 6"
    by (simp_all add: SHIFT_def CTL_def CAPSLOCK_def E0ESC_def)
qed

abbreviation letter_key :: "nat \<Rightarrow> bool" where
  "letter_key k \<equiv> k < 128 \<and> 97 \<le> normalmap k \<and> normalmap k \<le> 122"

lemma letter_keys:
  assumes "letter_key k"
  shows "shiftmap k = normalmap k - 32" "shiftcode k = 0" "togglecode k = 0" "k \<noteq> 0xE0" "k < 0x80"
proof -
  have "\<forall>k \<in> set [0..<128]. 97 \<le> normalmap k \<and> normalmap k \<le> 122 \<longrightarrow>
     shiftmap k = normalmap k - 32 \<and> shiftcode k = 0 \<and> togglecode k = 0"
    by code_simp
  then show "shiftmap k = normalmap k - 32" "shiftcode k = 0" "togglecode k = 0" "k \<noteq> 0xE0" "k < 0x80"
    using assms by auto
qed

lemma shift_codes:
  "shiftcode 0x2A = SHIFT" "togglecode 0x2A = 0" "shiftcode 0x3A = 0" "togglecode 0x3A = CAPSLOCK"
  by (simp_all add: shiftcode_def togglecode_def)

lemma shift_down_up:
  "\<not> bit s 6 \<Longrightarrow> (s OR SHIFT) AND NOT (SHIFT OR E0ESC) = s AND NOT SHIFT"
  "\<not> bit s 6 \<Longrightarrow> (s XOR CAPSLOCK) AND NOT E0ESC = s XOR CAPSLOCK"
  by (rule bit_eqI; auto simp: bit_simps)+

lemma key_char_letter:
  "letter_key k \<Longrightarrow> key_char False sh caps k = (if sh = caps then normalmap k else normalmap k - 32)"
  using letter_keys [of k] by (auto simp: key_char_def swap_case_def Let_def)

lemma kbd_letter:
  assumes "letter_key k" "\<not> bit s 1" "\<not> bit s 6"
  shows "kbdgetc 1 k s = (s, int (if bit s 0 = bit s 3 then normalmap k else normalmap k - 32))"
  using assms(2,3) letter_keys [OF assms(1)] key_char_letter [OF assms(1)]
  by (simp add: kbdgetc_def Let_def)

lemma kbd_specials:
  "\<not> bit s 6 \<Longrightarrow> kbdgetc 1 0x2A s = (s OR SHIFT, 0)"
  "\<not> bit s 6 \<Longrightarrow> kbdgetc 1 0xAA s = (s AND NOT (SHIFT OR E0ESC), 0)"
  "\<not> bit s 6 \<Longrightarrow> kbdgetc 1 0x3A s = (s XOR CAPSLOCK, 0)"
  "\<not> bit s 6 \<Longrightarrow> kbdgetc 1 0xBA s = (s AND NOT E0ESC, 0)"
proof -
  have "normalmap 0x2A = 0" "shiftmap 0x2A = 0" "ctlmap 0x2A = 0" "normalmap 0x3A = 0" "shiftmap 0x3A = 0" "ctlmap 0x3A = 0"
    by code_simp+
  then have k: "key_char a b c 0x2A = 0" "key_char a b c 0x3A = 0" for a b c
    by (simp_all add: key_char_def swap_case_def)
  show "\<not> bit s 6 \<Longrightarrow> kbdgetc 1 0x2A s = (s OR SHIFT, 0)"
    "\<not> bit s 6 \<Longrightarrow> kbdgetc 1 0xAA s = (s AND NOT (SHIFT OR E0ESC), 0)"
    "\<not> bit s 6 \<Longrightarrow> kbdgetc 1 0x3A s = (s XOR CAPSLOCK, 0)"
    "\<not> bit s 6 \<Longrightarrow> kbdgetc 1 0xBA s = (s AND NOT E0ESC, 0)"
    by (simp_all add: kbdgetc_def k shift_codes)
qed

text \<open>
  Letters.  With control up and no escape pending, a letter key gives its capital exactly
  when one of shift and caps lock is on; pressing shift, a letter and releasing them types the
  letter's other case and leaves only the shift bit down; caps lock flips its bit alone.
\<close>

theorem kbd_letter_case:
  assumes "letter_key k" and "\<not> bit s 1" and "\<not> bit s 6"
  shows "kbd_feed [k] s = (s, [int (if bit s 0 = bit s 3 then normalmap k else normalmap k - 32)]) \<and>
     kbd_feed [0x2A, k, 0xAA] s = (s AND NOT SHIFT, [int (if bit s 3 then normalmap k else normalmap k - 32)]) \<and>
     kbd_feed [0x3A, 0xBA] s = (s XOR CAPSLOCK, [])"
proof -
  have b: "\<not> bit (s OR SHIFT) 1" "\<not> bit (s OR SHIFT) 6" "bit (s OR SHIFT) 0" "bit (s OR SHIFT) 3 = bit s 3"
    "\<not> bit (s XOR CAPSLOCK) 6"
    using assms(2,3) by (simp_all add: bit_simps)
  show ?thesis
    using assms(1) kbd_letter [OF assms] kbd_letter [OF assms(1) b(1,2)] kbd_specials [OF assms(3)]
      kbd_specials [OF b(2)] kbd_specials [OF b(5)] shift_down_up [OF assms(3)] b(3,4)
    by (auto simp: kbd_feed_def)
qed

lemma kbd_letter_case_witness:
  "kbd_feed [0x1E] 0 = (0, [97]) \<and> kbd_feed [0x2A, 0x1E, 0xAA] 0 = (0, [65])"
proof -
  have "normalmap 0x1E = 97" by code_simp
  then show ?thesis using kbd_letter_case [of "0x1E" 0] by simp
qed

end
