(* ===== verification/Xv6_Shell.thy ===== *)
theory Xv6_Shell
  imports Xv6_String
begin

text \<open>
  The shell's parser (\<open>sh.c\<close>): the tokenizer, the recursive-descent parser, and the pass that
  cuts the words out of the line.  A pointer into the line is the list of characters from it to
  the line's end, so the text between two pointers \<open>q\<close> and \<open>eq\<close> is what \<open>q\<close> has more than \<open>eq\<close>.

  The parser runs on fuel, one unit per call or loop round, and \<open>None\<close> means that it ran out;
  \<open>parsecmd\<close> is given four units per character, which is proved to be enough on every input.
\<close>

section \<open>Commands\<close>

definition MAXARGS :: nat where "MAXARGS = 10"

text \<open>\<open>'w\<close> is a word: a pair of pointers as the parser leaves it, or its text.\<close>

datatype 'w cmd =
  EXEC "'w list" | REDIR "'w cmd" 'w int int | PIPE "'w cmd" "'w cmd" | LIST "'w cmd" "'w cmd" | BACK "'w cmd"

type_synonym ptrs = "string \<times> string"

definition word_text :: "ptrs \<Rightarrow> string" where
  "word_text w = take (length (fst w) - length (snd w)) (fst w)"

section \<open>Tokens\<close>

definition whitespace :: string where
  "whitespace = [CHR '' '', CHR 0x09, CHR 0x0D, CHR 0x0A, CHR 0x0B]"

definition symbols :: string where
  "symbols = ''<|>&;()''"

definition is_ws :: "char \<Rightarrow> bool" where "is_ws c \<longleftrightarrow> c \<in> set whitespace"

definition is_sym :: "char \<Rightarrow> bool" where "is_sym c \<longleftrightarrow> c \<in> set symbols"

definition skip :: "string \<Rightarrow> string" where
  "skip s = dropWhile is_ws s"

text \<open>The token at the first character that is not white space: its kind and its end.\<close>

definition token_at :: "string \<Rightarrow> char \<times> string" where
  "token_at s =
     (if at0 s = NUL then (NUL, s)
      else if hd s \<in> set ''|();&<'' then (hd s, tl s)
      else if hd s = CHR ''>'' then
        (if at0 (tl s) = CHR ''>'' then (CHR ''+'', tl (tl s)) else (CHR ''>'', tl s))
      else (CHR ''a'', dropWhile (\<lambda>c. \<not> is_ws c \<and> \<not> is_sym c) s))"

text \<open>The token's kind, its two ends, and the input after it.\<close>

definition gettoken :: "string \<Rightarrow> char \<times> ptrs \<times> string" where
  "gettoken s = (let s = skip s; (ret, e) = token_at s in (ret, (s, e), skip e))"

text \<open>\<open>peek\<close> also moves the input past white space.\<close>

definition peek :: "string \<Rightarrow> string \<Rightarrow> bool" where
  "peek s toks \<longleftrightarrow> skip s \<noteq> [] \<and> hd (skip s) \<in> set toks"

section \<open>The parser\<close>

definition pthen :: "'a outcome option \<Rightarrow> ('a \<Rightarrow> 'b outcome option) \<Rightarrow> 'b outcome option" where
  "pthen r f =
     (case r of None \<Rightarrow> None | Some (Val x) \<Rightarrow> f x | Some (Panic e) \<Rightarrow> Some (Panic e) | Some Asleep \<Rightarrow> Some Asleep)"

abbreviation done_with :: "'a \<Rightarrow> 'a outcome option" where
  "done_with x \<equiv> Some (Val x)"

type_synonym redir = "ptrs \<times> int \<times> int"

definition O_RDONLY :: int where "O_RDONLY = 0"
definition O_WRONLY :: int where "O_WRONLY = 1"
definition O_CREATE :: int where "O_CREATE = 0x200"

text \<open>
  \<open>parseredirs\<close> wraps redirections around a command, the first one innermost.  \<open>parseexec\<close> goes on
  adding words to the command inside the wrappers, so here the loop gives the wrappers as a list.
\<close>

definition wrap :: "'w cmd \<Rightarrow> ('w \<times> int \<times> int) list \<Rightarrow> 'w cmd" where
  "wrap c rs = foldl (\<lambda>c (w, mode, fd). REDIR c w mode fd) c rs"

definition redir_of :: "char \<Rightarrow> 'w \<Rightarrow> 'w \<times> int \<times> int" where
  "redir_of tok w = (if tok = CHR ''<'' then (w, O_RDONLY, 0) else (w, O_WRONLY + O_CREATE, 1))"

fun parseredirs :: "nat \<Rightarrow> string \<Rightarrow> (redir list \<times> string) outcome option" where
  "parseredirs 0 s = None"
| "parseredirs (Suc n) s =
     (if peek s ''<>'' then
        let (tok, _, s) = gettoken s; (tok2, w, s) = gettoken s in
        if tok2 \<noteq> CHR ''a'' then Some (Panic ''missing file for redirection'')
        else pthen (parseredirs n s) (\<lambda>(rs, s). done_with (redir_of tok w # rs, s))
      else done_with ([], skip s))"

fun parseargs :: "nat \<Rightarrow> ptrs list \<Rightarrow> redir list \<Rightarrow> string \<Rightarrow> (ptrs cmd \<times> string) outcome option" where
  "parseargs 0 args rs s = None"
| "parseargs (Suc n) args rs s =
     (if peek s ''|)&;'' then done_with (wrap (EXEC args) rs, skip s)
      else
        let (tok, w, s) = gettoken s in
        if tok = NUL then done_with (wrap (EXEC args) rs, s)
        else if tok \<noteq> CHR ''a'' then Some (Panic ''syntax'')
        else if MAXARGS \<le> length args + 1 then Some (Panic ''too many args'')
        else pthen (parseredirs n s) (\<lambda>(rs', s). parseargs n (args @ [w]) (rs @ rs') s))"

fun parsebacks :: "nat \<Rightarrow> ptrs cmd \<Rightarrow> string \<Rightarrow> (ptrs cmd \<times> string) outcome option" where
  "parsebacks 0 c s = None"
| "parsebacks (Suc n) c s =
     (if peek s ''&'' then parsebacks n (BACK c) (snd (snd (gettoken s))) else done_with (c, skip s))"

fun parseline :: "nat \<Rightarrow> string \<Rightarrow> (ptrs cmd \<times> string) outcome option"
  and parsepipe :: "nat \<Rightarrow> string \<Rightarrow> (ptrs cmd \<times> string) outcome option"
  and parseexec :: "nat \<Rightarrow> string \<Rightarrow> (ptrs cmd \<times> string) outcome option"
  and parseblock :: "nat \<Rightarrow> string \<Rightarrow> (ptrs cmd \<times> string) outcome option" where
  "parseline 0 s = None"
| "parseline (Suc n) s =
     pthen (parsepipe n s) (\<lambda>(c, s). pthen (parsebacks n c s) (\<lambda>(c, s).
       if peek s '';'' then pthen (parseline n (snd (snd (gettoken s)))) (\<lambda>(d, s). done_with (LIST c d, s))
       else done_with (c, skip s)))"
| "parsepipe 0 s = None"
| "parsepipe (Suc n) s =
     pthen (parseexec n s) (\<lambda>(c, s).
       if peek s ''|'' then pthen (parsepipe n (snd (snd (gettoken s)))) (\<lambda>(d, s). done_with (PIPE c d, s))
       else done_with (c, skip s))"
| "parseexec 0 s = None"
| "parseexec (Suc n) s =
     (if peek s ''('' then parseblock n s
      else pthen (parseredirs n (skip s)) (\<lambda>(rs, s). parseargs n [] rs s))"
| "parseblock 0 s = None"
| "parseblock (Suc n) s =
     (if \<not> peek s ''('' then Some (Panic ''parseblock'')
      else pthen (parseline n (snd (snd (gettoken s)))) (\<lambda>(c, s).
        if \<not> peek s '')'' then Some (Panic ''syntax - missing )'')
        else pthen (parseredirs n (snd (snd (gettoken s)))) (\<lambda>(rs, s). done_with (wrap c rs, s))))"

definition parsecmd_fuel :: "string \<Rightarrow> nat" where
  "parsecmd_fuel s = 4 * length s + 4"

text \<open>\<open>s\<close> is the line up to its NUL; the result is the tree before \<open>nulterminate\<close>.\<close>

definition parsecmd :: "string \<Rightarrow> ptrs cmd outcome option" where
  "parsecmd s =
     pthen (parseline (parsecmd_fuel s) s)
       (\<lambda>(c, s). if skip s \<noteq> [] then Some (Panic ''syntax'') else done_with c)"

section \<open>Cutting the words out of the line\<close>

definition cut :: "ptrs \<Rightarrow> string \<Rightarrow> string" where
  "cut w buf = buf[length buf - 1 - length (snd w) := NUL]"

text \<open>\<open>buf\<close> is the line with its NUL.\<close>

fun nulterminate :: "ptrs cmd \<Rightarrow> string \<Rightarrow> string" where
  "nulterminate (EXEC ws) buf = foldl (\<lambda>buf w. cut w buf) buf ws"
| "nulterminate (REDIR c w m fd) buf = cut w (nulterminate c buf)"
| "nulterminate (PIPE c d) buf = nulterminate d (nulterminate c buf)"
| "nulterminate (LIST c d) buf = nulterminate d (nulterminate c buf)"
| "nulterminate (BACK c) buf = nulterminate c buf"

section \<open>Termination\<close>

lemma pthen_Val [simp]: "pthen r f = Some (Val y) \<longleftrightarrow> (\<exists>x. r = Some (Val x) \<and> f x = Some (Val y))"
  by (auto simp: pthen_def split: option.splits outcome.splits)

lemma pthen_total: "r \<noteq> None \<Longrightarrow> (\<And>x. r = Some (Val x) \<Longrightarrow> f x \<noteq> None) \<Longrightarrow> pthen r f \<noteq> None"
  by (auto simp: pthen_def split: option.splits outcome.splits)

lemma length_skip: "length (skip s) \<le> length s"
  by (simp add: skip_def length_dropWhile_le)

lemma gettoken_sel:
  "fst (gettoken s) = fst (token_at (skip s))" "snd (snd (gettoken s)) = skip (snd (token_at (skip s)))"
  by (simp_all add: gettoken_def Let_def split_beta)

lemma skip_hd: "skip s = c # r \<Longrightarrow> \<not> is_ws c"
  using hd_dropWhile [of is_ws s] by (simp add: skip_def)

lemma token_at_NUL: "fst (token_at s) = NUL \<longleftrightarrow> at0 s = NUL"
  by (cases s) (auto simp: token_at_def)

lemma token_at_shrinks:
  assumes "s = c # r" "c \<noteq> NUL" "\<not> is_ws c"
  shows "length (snd (token_at s)) \<le> length r"
proof -
  have sym: "is_sym c \<Longrightarrow> c \<in> set ''|();&<'' \<or> c = CHR ''>''" by (auto simp: is_sym_def symbols_def)
  have "length (dropWhile P r) \<le> length r" for P by (rule length_dropWhile_le)
  then show ?thesis using assms sym by (auto simp: token_at_def)
qed

lemma gettoken_eats:
  assumes "fst (gettoken s) \<noteq> NUL"
  shows "length (snd (snd (gettoken s))) < length s"
proof -
  obtain c r where s: "skip s = c # r" "c \<noteq> NUL"
    using assms by (cases "skip s") (auto simp: gettoken_sel token_at_NUL)
  have "length (snd (snd (gettoken s))) \<le> length r"
    using length_skip token_at_shrinks [OF s skip_hd [OF s(1)]] by (metis gettoken_sel(2) le_trans s(1))
  then show ?thesis using length_skip [of s] s(1) by simp
qed

lemma gettoken_shrinks: "length (snd (snd (gettoken s))) \<le> length s"
proof (cases "fst (gettoken s) = NUL")
  case True
  then have "at0 (skip s) = NUL" by (simp only: gettoken_sel token_at_NUL)
  then have "token_at (skip s) = (NUL, skip s)" by (simp add: token_at_def)
  then show ?thesis using length_skip [of s] length_skip [of "skip s"] by (simp add: gettoken_sel)
qed (use gettoken_eats [of s] in simp)

lemma peek_token: "peek s toks \<Longrightarrow> NUL \<notin> set toks \<Longrightarrow> fst (gettoken s) \<noteq> NUL"
  by (cases "skip s") (auto simp: peek_def gettoken_sel token_at_NUL)

lemma peek_eats: "peek s toks \<Longrightarrow> NUL \<notin> set toks \<Longrightarrow> length (snd (snd (gettoken s))) < length s"
  using gettoken_eats peek_token by blast

lemma parseredirs_shrinks: "parseredirs n s = Some (Val (rs, s')) \<Longrightarrow> length s' \<le> length s"
proof (induction n arbitrary: s rs)
  case (Suc n)
  show ?case
  proof (cases "peek s ''<>''")
    case False
    then show ?thesis using Suc(2) length_skip [of s] by auto
  next
    case True
    obtain tok w r tok2 w2 r2 where g: "gettoken s = (tok, w, r)" "gettoken r = (tok2, w2, r2)"
      by (metis prod_cases3)
    obtain rs2 where "parseredirs n r2 = Some (Val (rs2, s'))"
      using Suc(2) True g by (auto split: if_splits)
    then show ?thesis using Suc(1) gettoken_shrinks [of s] gettoken_shrinks [of r] g by fastforce
  qed
qed simp

lemma parseredirs_total: "length s < n \<Longrightarrow> parseredirs n s \<noteq> None"
proof (induction n arbitrary: s)
  case (Suc n)
  show ?case
  proof (cases "peek s ''<>''")
    case True
    obtain tok w r tok2 w2 r2 where g: "gettoken s = (tok, w, r)" "gettoken r = (tok2, w2, r2)"
      by (metis prod_cases3)
    have "length r2 < length s" using peek_eats [OF True] gettoken_shrinks [of r] g by simp
    then have "parseredirs n r2 \<noteq> None" using Suc by simp
    then show ?thesis using True g by (auto simp: pthen_def split: option.splits outcome.splits)
  qed simp
qed simp

lemma parseargs_shrinks: "parseargs n args rs s = Some (Val (c, s')) \<Longrightarrow> length s' \<le> length s"
proof (induction n arbitrary: args rs s)
  case (Suc n)
  obtain tok w r where g: "gettoken s = (tok, w, r)" by (metis prod_cases3)
  have r: "length r \<le> length s" using gettoken_shrinks [of s] g by simp
  have "length s' \<le> length r"
    if "pthen (parseredirs n r) (\<lambda>(rs', s). parseargs n (args @ [w]) (rs @ rs') s) = Some (Val (c, s'))"
    using that parseredirs_shrinks [of n r] Suc(1) le_trans by fastforce
  then show ?case using Suc(2) g r length_skip [of s] by (auto split: if_splits)
qed simp

lemma parseargs_total: "length s < n \<Longrightarrow> parseargs n args rs s \<noteq> None"
proof (induction n arbitrary: args rs s)
  case (Suc n)
  obtain tok w r where g: "gettoken s = (tok, w, r)" by (metis prod_cases3)
  have "pthen (parseredirs n r) (\<lambda>(rs', s). parseargs n (args @ [w]) (rs @ rs') s) \<noteq> None" if "tok \<noteq> NUL"
  proof (rule pthen_total)
    have r: "length r < length s" using gettoken_eats [of s] g that by simp
    then show "parseredirs n r \<noteq> None" using parseredirs_total Suc(2) by simp
    fix x
    assume "parseredirs n r = Some (Val x)"
    then have "length (snd x) < n" using parseredirs_shrinks [of n r "fst x" "snd x"] r Suc(2) by simp
    then show "(case x of (rs', s) \<Rightarrow> parseargs n (args @ [w]) (rs @ rs') s) \<noteq> None"
      using Suc(1) by (simp add: split_beta)
  qed
  then show ?case using g by auto
qed simp

lemma parsebacks_shrinks: "parsebacks n c s = Some (Val (d, s')) \<Longrightarrow> length s' \<le> length s"
proof (induction n arbitrary: c s)
  case (Suc n)
  show ?case
  proof (cases "peek s ''&''")
    case True
    then show ?thesis using Suc(1) [of "BACK c" "snd (snd (gettoken s))"] Suc(2) gettoken_shrinks [of s] by simp
  qed (use Suc(2) length_skip [of s] in auto)
qed simp

lemma parsebacks_total: "length s < n \<Longrightarrow> parsebacks n c s \<noteq> None"
proof (induction n arbitrary: c s)
  case (Suc n)
  show ?case
  proof (cases "peek s ''&''")
    case True
    then show ?thesis using Suc(1) [of "snd (snd (gettoken s))" "BACK c"] Suc(2) peek_eats [OF True] by simp
  qed simp
qed simp

lemma parse_shrinks:
  "parseline n s = Some (Val (c, s')) \<Longrightarrow> length s' \<le> length s"
  "parsepipe n s = Some (Val (c, s')) \<Longrightarrow> length s' \<le> length s"
  "parseexec n s = Some (Val (c, s')) \<Longrightarrow> length s' \<le> length s"
  "parseblock n s = Some (Val (c, s')) \<Longrightarrow> length s' \<le> length s"
proof (induction n arbitrary: s c s')
  case (Suc n)
  note tok = gettoken_shrinks length_skip
  {
    case 1
    then show ?case
      using Suc.IH(1,2) parsebacks_shrinks [of n] tok
      by (auto split: if_splits) (meson le_trans)+
  next
    case 2
    then show ?case
      using Suc.IH(2,3) tok by (auto split: if_splits) (meson le_trans)+
  next
    case 3
    then show ?case
      using Suc.IH(4) parseredirs_shrinks [of n] parseargs_shrinks [of n] tok
      by (auto split: if_splits) (meson le_trans)+
  next
    case 4
    then show ?case
      using Suc.IH(1) parseredirs_shrinks [of n] tok
      by (auto split: if_splits) (meson le_trans)+
  }
qed simp_all

lemma parse_total:
  "4 * length s + 4 \<le> n \<Longrightarrow> parseline n s \<noteq> None"
  "4 * length s + 3 \<le> n \<Longrightarrow> parsepipe n s \<noteq> None"
  "4 * length s + 2 \<le> n \<Longrightarrow> parseexec n s \<noteq> None"
  "4 * length s + 1 \<le> n \<Longrightarrow> parseblock n s \<noteq> None"
proof (induction n arbitrary: s)
  case (Suc n)
  {
    case 1
    show ?case
      unfolding parseline.simps(2)
    proof (rule pthen_total)
      show "parsepipe n s \<noteq> None" using Suc.IH(2) 1 by simp
    next
      fix x assume "parsepipe n s = Some (Val x)"
      then have x: "length (snd x) \<le> length s" using parse_shrinks(2) [of n s "fst x" "snd x"] by simp
      have b: "parsebacks n (fst x) (snd x) \<noteq> None" using parsebacks_total [of "snd x" n] x 1 by simp
      have "(if peek (snd y) '';'' then pthen (parseline n (snd (snd (gettoken (snd y))))) (\<lambda>(d, s). done_with (LIST (fst y) d, s))
             else done_with (fst y, skip (snd y))) \<noteq> None"
        if "parsebacks n (fst x) (snd x) = Some (Val y)" for y
      proof (cases "peek (snd y) '';''")
        case True
        have "length (snd (snd (gettoken (snd y)))) < length s"
          using peek_eats [OF True] parsebacks_shrinks [of n _ _ "fst y" "snd y"] that x by fastforce
        then have "parseline n (snd (snd (gettoken (snd y)))) \<noteq> None" using Suc.IH(1) 1 by simp
        then show ?thesis unfolding if_P [OF True] by (rule pthen_total) (simp add: split_beta)
      qed simp
      then show "(case x of (c, s) \<Rightarrow> pthen (parsebacks n c s) (\<lambda>(c, s).
          if peek s '';'' then pthen (parseline n (snd (snd (gettoken s)))) (\<lambda>(d, s). done_with (LIST c d, s))
          else done_with (c, skip s))) \<noteq> None"
        unfolding split_beta by (rule pthen_total [OF b])
    qed
  next
    case 2
    show ?case
      unfolding parsepipe.simps(2)
    proof (rule pthen_total)
      show "parseexec n s \<noteq> None" using Suc.IH(3) 2 by simp
    next
      fix x assume "parseexec n s = Some (Val x)"
      then have x: "length (snd x) \<le> length s" using parse_shrinks(3) [of n s "fst x" "snd x"] by simp
      show "(case x of (c, s) \<Rightarrow> if peek s ''|'' then pthen (parsepipe n (snd (snd (gettoken s)))) (\<lambda>(d, s). done_with (PIPE c d, s))
          else done_with (c, skip s)) \<noteq> None"
      proof (cases "peek (snd x) ''|''")
        case True
        have "length (snd (snd (gettoken (snd x)))) < length s" using peek_eats [OF True] x by simp
        then have "parsepipe n (snd (snd (gettoken (snd x)))) \<noteq> None" using Suc.IH(2) 2 by simp
        then show ?thesis unfolding split_beta if_P [OF True] by (rule pthen_total) (simp add: split_beta)
      qed (simp add: split_beta)
    qed
  next
    case 3
    show ?case
    proof (cases "peek s ''(''")
      case True
      then show ?thesis using Suc.IH(4) 3 by simp
    next
      case False
      have "pthen (parseredirs n (skip s)) (\<lambda>(rs, s). parseargs n [] rs s) \<noteq> None"
      proof (rule pthen_total)
        show "parseredirs n (skip s) \<noteq> None" using parseredirs_total length_skip [of s] 3 by simp
        fix x assume "parseredirs n (skip s) = Some (Val x)"
        then have "length (snd x) \<le> length s"
          using parseredirs_shrinks [of n "skip s" "fst x" "snd x"] length_skip [of s] by simp
        then show "(case x of (rs, s) \<Rightarrow> parseargs n [] rs s) \<noteq> None"
          using parseargs_total 3 by (simp add: split_beta)
      qed
      then show ?thesis using False by simp
    qed
  next
    case 4
    show ?case
    proof (cases "peek s ''(''")
      case True
      have s: "length (snd (snd (gettoken s))) < length s" using peek_eats [OF True] by simp
      have a: "parseline n (snd (snd (gettoken s))) \<noteq> None" using Suc.IH(1) s 4 by simp
      have "pthen (parseline n (snd (snd (gettoken s)))) (\<lambda>(c, s).
          if \<not> peek s '')'' then Some (Panic ''syntax - missing )'')
          else pthen (parseredirs n (snd (snd (gettoken s)))) (\<lambda>(rs, s). done_with (wrap c rs, s))) \<noteq> None"
      proof (rule pthen_total [OF a])
        fix x assume "parseline n (snd (snd (gettoken s))) = Some (Val x)"
        then have "length (snd (snd (gettoken (snd x)))) < n"
          using parse_shrinks(1) [of n _ "fst x" "snd x"] gettoken_shrinks [of "snd x"] s 4 by fastforce
        then have r: "parseredirs n (snd (snd (gettoken (snd x)))) \<noteq> None" by (rule parseredirs_total)
        have "pthen (parseredirs n (snd (snd (gettoken (snd x))))) (\<lambda>(rs, s). done_with (wrap (fst x) rs, s)) \<noteq> None"
          by (rule pthen_total [OF r]) (simp add: split_beta)
        then show "(case x of (c, s) \<Rightarrow> if \<not> peek s '')'' then Some (Panic ''syntax - missing )'')
          else pthen (parseredirs n (snd (snd (gettoken s)))) (\<lambda>(rs, s). done_with (wrap c rs, s))) \<noteq> None"
          by (simp add: split_beta)
      qed
      then show ?thesis using True by simp
    qed simp
  }
qed simp_all

text \<open>
  C27: the parser terminates.  On every line \<open>parsecmd\<close> returns a tree or reports a syntax error:
  the recursion and its loops always consume input, four calls per character at most.
\<close>

theorem parsecmd_terminates: "\<exists>r. parsecmd s = Some r"
proof -
  have "parsecmd s \<noteq> None"
    unfolding parsecmd_def using parse_total(1) [of s "parsecmd_fuel s"]
    by (intro pthen_total) (auto simp: parsecmd_fuel_def)
  then show ?thesis by blast
qed

end
