(* ===== verification/Xv6_Shellround.thy ===== *)
theory Xv6_Shellround
  imports Xv6_Shell
begin

text \<open>
  The parser against a printer: every command tree, printed with parentheses where the grammar
  needs them, is parsed back.
\<close>

section \<open>The printer\<close>

definition paren :: "bool \<Rightarrow> string \<Rightarrow> string" where
  "paren b s = (if b then ''('' @ s @ '')'' else s)"

definition show_redir :: "string \<times> int \<times> int \<Rightarrow> string" where
  "show_redir r = (if snd (snd r) = 0 then ''<'' else ''>'') @ fst r @ '' ''"

definition show_words :: "string list \<Rightarrow> string" where
  "show_words ws = concat (map (\<lambda>w. w @ '' '') ws)"

text \<open>Level 0 is what \<open>parseexec\<close> reads, 1 \<open>parsepipe\<close>, 2 that with ampersands, 3 \<open>parseline\<close>.\<close>

fun show_cmd :: "nat \<Rightarrow> string cmd \<Rightarrow> string" where
  "show_cmd k (EXEC ws) = show_words ws"
| "show_cmd k (REDIR c f mode fd) = show_cmd 0 c @ show_redir (f, mode, fd)"
| "show_cmd k (PIPE c d) = paren (k < 1) (show_cmd 0 c @ ''|'' @ show_cmd 1 d)"
| "show_cmd k (BACK c) = paren (k < 2) (show_cmd 2 c @ ''&'')"
| "show_cmd k (LIST c d) = paren (k < 3) (show_cmd 2 c @ '';'' @ show_cmd 3 d)"

definition word_ok :: "string \<Rightarrow> bool" where
  "word_ok w \<longleftrightarrow> w \<noteq> [] \<and> (\<forall>c \<in> set w. \<not> is_ws c \<and> \<not> is_sym c \<and> c \<noteq> NUL)"

definition redir_ok :: "string \<times> int \<times> int \<Rightarrow> bool" where
  "redir_ok r \<longleftrightarrow> word_ok (fst r) \<and> (snd r = (O_RDONLY, 0) \<or> snd r = (O_WRONLY + O_CREATE, 1))"

text \<open>At most nine words, none empty or with a separator; the redirections of the grammar.\<close>

fun cmd_ok :: "string cmd \<Rightarrow> bool" where
  "cmd_ok (EXEC ws) \<longleftrightarrow> length ws < MAXARGS \<and> (\<forall>w \<in> set ws. word_ok w)"
| "cmd_ok (REDIR c f mode fd) \<longleftrightarrow> cmd_ok c \<and> redir_ok (f, mode, fd)"
| "cmd_ok (PIPE c d) \<longleftrightarrow> cmd_ok c \<and> cmd_ok d"
| "cmd_ok (BACK c) \<longleftrightarrow> cmd_ok c"
| "cmd_ok (LIST c d) \<longleftrightarrow> cmd_ok c \<and> cmd_ok d"

abbreviation text_cmd :: "ptrs cmd \<Rightarrow> string cmd" where
  "text_cmd \<equiv> map_cmd word_text"

definition text_redir :: "redir \<Rightarrow> string \<times> int \<times> int" where
  "text_redir r = (word_text (fst r), snd r)"

section \<open>Tokens of printed text\<close>

lemma skip_simps [simp]:
  "skip [] = []" "\<not> is_ws c \<Longrightarrow> skip (c # s) = c # s" "skip ('' '' @ s) = skip s" "skip (CHR '' '' # s) = skip s"
  by (simp_all add: skip_def is_ws_def whitespace_def)

lemma skip_skip [simp]: "skip (skip s) = skip s"
  by (induction s) (auto simp: skip_def)

lemma peek_skip [simp]: "peek (skip s) toks = peek s toks"
  by (simp add: peek_def)

lemma gettoken_skip [simp]: "gettoken (skip s) = gettoken s"
  by (simp add: gettoken_def)

lemma sym_not_ws: "is_sym c \<Longrightarrow> \<not> is_ws c"
  by (auto simp: is_sym_def symbols_def is_ws_def whitespace_def)

lemma gettoken_sym:
  assumes "c \<in> set ''|();&<''"
  shows "fst (gettoken (c # s)) = c" "snd (snd (gettoken (c # s))) = skip s"
proof -
  have "\<not> is_ws c" "c \<noteq> NUL" using assms by (auto simp: is_ws_def whitespace_def)
  then have "skip (c # s) = c # s" "token_at (c # s) = (c, s)" using assms by (simp_all add: token_at_def)
  then show "fst (gettoken (c # s)) = c" "snd (snd (gettoken (c # s))) = skip s" by (simp_all only: gettoken_sel fst_conv snd_conv)
qed

lemma peek_sym: "\<not> is_ws c \<Longrightarrow> peek (c # s) toks \<longleftrightarrow> c \<in> set toks"
  by (simp add: peek_def)

lemma gettoken_word:
  assumes "word_ok w"
  shows "fst (gettoken (w @ CHR '' '' # s)) = CHR ''a''" "word_text (fst (snd (gettoken (w @ CHR '' '' # s)))) = w"
    "snd (snd (gettoken (w @ CHR '' '' # s))) = skip s"
proof -
  obtain c r where w: "w = c # r" "\<not> is_ws c" "\<not> is_sym c" "c \<noteq> NUL" "\<forall>c \<in> set w. \<not> is_ws c \<and> \<not> is_sym c"
    using assms by (cases w) (auto simp: word_ok_def)
  have "dropWhile (\<lambda>c. \<not> is_ws c \<and> \<not> is_sym c) (w @ CHR '' '' # s) = CHR '' '' # s"
    using w(5) by (simp add: is_ws_def whitespace_def)
  then have t: "token_at (w @ CHR '' '' # s) = (CHR ''a'', CHR '' '' # s)"
    using w(1,3,4) by (auto simp: token_at_def is_sym_def symbols_def)
  have "skip (w @ CHR '' '' # s) = w @ CHR '' '' # s" using w(1,2) by simp
  then show "fst (gettoken (w @ CHR '' '' # s)) = CHR ''a''" "word_text (fst (snd (gettoken (w @ CHR '' '' # s)))) = w"
    "snd (snd (gettoken (w @ CHR '' '' # s))) = skip s"
    by (simp_all add: gettoken_def t word_text_def)
qed

lemma gettoken_gt:
  "word_ok w \<Longrightarrow> fst (gettoken (CHR ''>'' # w @ s)) = CHR ''>'' \<and> snd (snd (gettoken (CHR ''>'' # w @ s))) = w @ s"
  by (cases w) (auto simp: gettoken_sel token_at_def is_ws_def whitespace_def word_ok_def is_sym_def symbols_def)

lemma peek_word: "word_ok w \<Longrightarrow> peek (w @ s) toks \<longleftrightarrow> hd w \<in> set toks"
  by (cases w) (auto simp: peek_def word_ok_def)

lemma word_hd: "word_ok w \<Longrightarrow> hd w \<notin> set ''<|>&;()''"
  by (cases w) (auto simp: word_ok_def is_sym_def symbols_def)

section \<open>Reading it back\<close>

text \<open>The result, if the fuel does not run out.\<close>

definition yields :: "'a outcome option \<Rightarrow> ('a \<Rightarrow> bool) \<Rightarrow> bool" where
  "yields r P \<longleftrightarrow> (case r of None \<Rightarrow> True | Some (Val x) \<Rightarrow> P x | _ \<Rightarrow> False)"

lemma yields_simps [simp]: "yields None P" "yields (Some (Val x)) P \<longleftrightarrow> P x"
  by (simp_all add: yields_def)

lemma yields_pthen:
  assumes "yields r P" "\<And>x. P x \<Longrightarrow> yields (f x) Q"
  shows "yields (pthen r f) Q"
proof (cases r)
  case (Some y)
  then show ?thesis using assms by (cases y) (simp_all add: yields_def pthen_def)
qed (simp add: pthen_def)

lemma redirs_read:
  assumes "\<forall>r \<in> set rs. redir_ok r" "\<not> peek rest ''<>''"
  shows "yields (parseredirs n (concat (map show_redir rs) @ rest))
           (\<lambda>(rs', s). map text_redir rs' = rs \<and> s = skip rest)"
  using assms(1)
proof (induction rs arbitrary: n)
  case Nil
  then show ?case using assms(2) by (cases n) simp_all
next
  case (Cons r rs)
  let ?s = "concat (map show_redir rs) @ rest" and ?c = "if snd (snd r) = 0 then CHR ''<'' else CHR ''>''"
  have w: "word_ok (fst r)" and r: "snd r = (O_RDONLY, 0) \<or> snd r = (O_WRONLY + O_CREATE, 1)"
    using Cons(2) by (auto simp: redir_ok_def)
  have s: "concat (map show_redir (r # rs)) @ rest = ?c # fst r @ CHR '' '' # ?s"
    by (simp add: show_redir_def)
  have p: "peek (?c # fst r @ CHR '' '' # ?s) ''<>''" by (auto simp: peek_sym is_ws_def whitespace_def)
  have sk: "skip (fst r @ x) = fst r @ x" for x using w by (cases "fst r") (auto simp: word_ok_def)
  obtain q where g: "gettoken (?c # fst r @ CHR '' '' # ?s) = (?c, q, fst r @ CHR '' '' # ?s)"
    using gettoken_sym [of ?c "fst r @ CHR '' '' # ?s"] gettoken_gt [OF w, of "CHR '' '' # ?s"] sk
    by (cases "gettoken (?c # fst r @ CHR '' '' # ?s)") (auto split: if_splits)
  obtain v where h: "gettoken (fst r @ CHR '' '' # ?s) = (CHR ''a'', v, skip ?s)" "word_text v = fst r"
    using gettoken_word [OF w, of ?s] by (cases "gettoken (fst r @ CHR '' '' # ?s)") auto
  have t: "text_redir (redir_of ?c v) = r"
    using r h(2) by (cases r) (auto simp: redir_of_def text_redir_def)
  show ?case
  proof (cases n)
    case (Suc m)
    have e: "parseredirs n (?c # fst r @ CHR '' '' # ?s) =
        pthen (parseredirs m (skip ?s)) (\<lambda>(rs, s). done_with (redir_of ?c v # rs, s))"
      using p g h(1) by (simp add: Suc)
    have sk: "parseredirs m (skip ?s) = parseredirs m ?s" by (cases m) simp_all
    have "yields (pthen (parseredirs m ?s) (\<lambda>(rs, s). done_with (redir_of ?c v # rs, s)))
        (\<lambda>(rs', s). map text_redir rs' = r # rs \<and> s = skip rest)"
      by (rule yields_pthen [OF Cons(1)]) (use Cons(2) t in auto)
    then show ?thesis by (simp only: s e sk)
  qed simp
qed

lemma parse_skip [simp]:
  "parseredirs n (skip s) = parseredirs n s" "parseargs n args rs (skip s) = parseargs n args rs s"
  "parsebacks n c (skip s) = parsebacks n c s" "parseblock n (skip s) = parseblock n s"
  by (cases n; simp only: parseredirs.simps parseargs.simps parsebacks.simps parseblock.simps
      peek_skip gettoken_skip skip_skip)+

lemma parse_skip2 [simp]: "parseexec n (skip s) = parseexec n s"
  by (cases n) (simp_all only: parseexec.simps peek_skip parse_skip skip_skip)

lemma parse_skip3 [simp]: "parsepipe n (skip s) = parsepipe n s"
  by (cases n) (simp_all only: parsepipe.simps parse_skip2)

lemma parse_skip4 [simp]: "parseline n (skip s) = parseline n s"
  by (cases n) (simp_all only: parseline.simps parse_skip3)

text \<open>What may come after a phrase.\<close>

definition follows :: "string \<Rightarrow> string \<Rightarrow> bool" where
  "follows toks rest \<longleftrightarrow> skip rest = [] \<or> peek rest toks"

lemma follows_skip [simp]: "follows toks (skip rest) = follows toks rest"
  by (simp add: follows_def)

lemma follows_not:
  assumes "follows toks rest" "set toks \<inter> set cs = {}"
  shows "\<not> peek rest cs"
  using assms unfolding follows_def peek_def by blast

lemma follows_mono: "follows toks rest \<Longrightarrow> set toks \<subseteq> set cs \<Longrightarrow> follows cs rest"
  unfolding follows_def peek_def by blast

lemma text_wrap: "text_cmd (wrap c rs) = wrap (text_cmd c) (map text_redir rs)"
  by (induction rs arbitrary: c) (auto simp: wrap_def text_redir_def)

lemma args_read:
  assumes "\<forall>w \<in> set ws. word_ok w" "\<forall>r \<in> set rs. redir_ok r" "length args + length ws < MAXARGS"
    "follows ''|)&;'' rest" "ws = [] \<Longrightarrow> rs = []"
  shows "yields (parseargs n args rs0 (show_words ws @ concat (map show_redir rs) @ rest))
     (\<lambda>(c, s). text_cmd c = wrap (EXEC (map word_text args @ ws)) (map text_redir rs0 @ rs) \<and> s = skip rest)"
  using assms
proof (induction ws arbitrary: n args rs0 rs rest)
  case Nil
  show ?case
  proof (cases n)
    case (Suc m)
    show ?thesis
    proof (cases "peek rest ''|)&;''")
      case True
      then show ?thesis using Nil(5) by (simp add: Suc show_words_def text_wrap)
    next
      case False
      then have sk: "skip rest = []" using Nil(4) unfolding follows_def by blast
      then have "gettoken rest = (NUL, ([], []), [])" by (simp add: gettoken_def token_at_def)
      then show ?thesis using False Nil(5) sk by (simp add: Suc show_words_def text_wrap)
    qed
  qed simp
next
  case (Cons w ws)
  let ?x = "show_words ws @ concat (map show_redir rs) @ rest"
  let ?Q = "\<lambda>(c, s). text_cmd c = wrap (EXEC (map word_text args @ w # ws)) (map text_redir rs0 @ rs) \<and> s = skip rest"
  have w: "word_ok w" using Cons(2) by simp
  have s: "show_words (w # ws) @ concat (map show_redir rs) @ rest = w @ CHR '' '' # ?x"
    by (simp add: show_words_def)
  obtain v where g: "gettoken (w @ CHR '' '' # ?x) = (CHR ''a'', v, skip ?x)" "word_text v = w"
    using gettoken_word [OF w, of ?x] by (metis prod.collapse)
  have "hd w \<notin> set ''|)&;''" using word_hd [OF w] by simp
  then have p: "\<not> peek (w @ CHR '' '' # ?x) ''|)&;''" using peek_word [OF w] by blast
  have nr: "\<not> peek rest ''<>''" by (rule follows_not [OF Cons(5)]) simp
  show ?case
  proof (cases n)
    case (Suc m)
    have room: "\<not> MAXARGS \<le> length args + 1" "length (args @ [v]) + length ws < MAXARGS" using Cons(4) by simp_all
    have e: "parseargs n args rs0 (w @ CHR '' '' # ?x) =
        pthen (parseredirs m ?x) (\<lambda>(rs', s). parseargs m (args @ [v]) (rs0 @ rs') s)"
      unfolding Suc parseargs.simps if_not_P [OF p] g(1) using room(1) by simp
    have "yields (pthen (parseredirs m ?x) (\<lambda>(rs', s). parseargs m (args @ [v]) (rs0 @ rs') s)) ?Q"
    proof (cases "ws = []")
      case True
      then have x: "?x = concat (map show_redir rs) @ rest" by (simp add: show_words_def)
      show ?thesis
        unfolding x
      proof (rule yields_pthen [OF redirs_read [OF Cons(3) nr]])
        fix y assume y: "case y of (rs', s) \<Rightarrow> map text_redir rs' = rs \<and> s = skip rest"
        have "yields (parseargs m (args @ [v]) (rs0 @ fst y) (show_words ws @ concat (map show_redir []) @ rest))
          (\<lambda>(c, s). text_cmd c = wrap (EXEC (map word_text (args @ [v]) @ ws)) (map text_redir (rs0 @ fst y) @ []) \<and>
             s = skip rest)"
          by (rule Cons(1)) (use Cons(2,5) room(2) in simp_all)
        then show "yields (case y of (rs', s) \<Rightarrow> parseargs m (args @ [v]) (rs0 @ rs') s) ?Q"
          using y g(2) True by (simp add: show_words_def split_beta)
      qed
    next
      case False
      then obtain w2 ws2 where w2: "ws = w2 # ws2" "word_ok w2" using Cons(2) by (cases ws) auto
      then have x: "?x = w2 @ (CHR '' '' # show_words ws2 @ concat (map show_redir rs) @ rest)"
        by (simp add: show_words_def)
      have "hd w2 \<notin> set ''<>''" using word_hd [OF w2(2)] by simp
      then have "\<not> peek ?x ''<>''" unfolding x using peek_word [OF w2(2)] by blast
      then have r: "yields (parseredirs m ?x) (\<lambda>(rs', s). rs' = [] \<and> s = skip ?x)"
        using redirs_read [of "[]" ?x m] by simp
      show ?thesis
      proof (rule yields_pthen [OF r])
        fix y :: "redir list \<times> string" assume y: "case y of (rs', s) \<Rightarrow> rs' = [] \<and> s = skip ?x"
        have "yields (parseargs m (args @ [v]) rs0 ?x)
          (\<lambda>(c, s). text_cmd c = wrap (EXEC (map word_text (args @ [v]) @ ws)) (map text_redir rs0 @ rs) \<and> s = skip rest)"
          by (rule Cons(1)) (use Cons(2,3,5) room(2) False in simp_all)
        then show "yields (case y of (rs', s) \<Rightarrow> parseargs m (args @ [v]) (rs0 @ rs') s) ?Q"
          using y g(2) by (simp add: split_beta)
      qed
    qed
    then show ?thesis by (simp only: s e)
  qed simp
qed

section \<open>The levels of the grammar\<close>

definition reads0 :: "string cmd \<Rightarrow> bool" where
  "reads0 t \<longleftrightarrow> (\<forall>n rest. follows ''|)&;'' rest \<longrightarrow>
     yields (parseexec n (show_cmd 0 t @ rest)) (\<lambda>(c, s). text_cmd c = t \<and> s = skip rest))"

definition reads1 :: "string cmd \<Rightarrow> bool" where
  "reads1 t \<longleftrightarrow> (\<forall>n rest. follows '')&;'' rest \<longrightarrow>
     yields (parsepipe n (show_cmd 1 t @ rest)) (\<lambda>(c, s). text_cmd c = t \<and> s = skip rest))"

text \<open>Level 2: the loop over ampersands gets to the end of the phrase with the phrase's tree.\<close>

definition backs_to :: "string cmd \<Rightarrow> string \<Rightarrow> ptrs cmd \<Rightarrow> string \<Rightarrow> bool" where
  "backs_to t rest c s \<longleftrightarrow> (\<forall>m. parsebacks m c s = None \<or>
     (\<exists>m' c'. parsebacks m c s = parsebacks m' c' rest \<and> text_cmd c' = t))"

definition reads2 :: "string cmd \<Rightarrow> bool" where
  "reads2 t \<longleftrightarrow> (\<forall>n rest. follows '')&;'' rest \<longrightarrow>
     yields (parsepipe n (show_cmd 2 t @ rest)) (\<lambda>(c, s). backs_to t rest c s))"

definition reads3 :: "string cmd \<Rightarrow> bool" where
  "reads3 t \<longleftrightarrow> (\<forall>n rest. follows '')'' rest \<longrightarrow>
     yields (parseline n (show_cmd 3 t @ rest)) (\<lambda>(c, s). text_cmd c = t \<and> s = skip rest))"

text \<open>From one level to the next.\<close>

lemma reads1_up:
  assumes "reads0 t" "show_cmd 1 t = show_cmd 0 t"
  shows "reads1 t"
  unfolding reads1_def
proof (intro allI impI)
  fix n rest assume f: "follows '')&;'' rest"
  have np: "\<not> peek rest ''|''" by (rule follows_not [OF f]) simp
  have f0: "follows ''|)&;'' rest" by (rule follows_mono [OF f]) simp
  show "yields (parsepipe n (show_cmd 1 t @ rest)) (\<lambda>(c, s). text_cmd c = t \<and> s = skip rest)"
  proof (cases n)
    case (Suc m)
    have "yields (parseexec m (show_cmd 0 t @ rest)) (\<lambda>(c, s). text_cmd c = t \<and> s = skip rest)"
      using assms(1) f0 unfolding reads0_def by blast
    then show ?thesis
      unfolding Suc parsepipe.simps assms(2) by (rule yields_pthen) (use np in auto)
  qed simp
qed

lemma reads2_up:
  assumes "reads1 t" "show_cmd 2 t = show_cmd 1 t"
  shows "reads2 t"
  unfolding reads2_def
proof (intro allI impI)
  fix n rest assume f: "follows '')&;'' rest"
  have "yields (parsepipe n (show_cmd 1 t @ rest)) (\<lambda>(c, s). text_cmd c = t \<and> s = skip rest)"
    using assms(1) f unfolding reads1_def by blast
  moreover have "backs_to t rest c (skip rest)" if "text_cmd c = t" for c
    using that unfolding backs_to_def by (metis parse_skip(3))
  ultimately show "yields (parsepipe n (show_cmd 2 t @ rest)) (\<lambda>(c, s). backs_to t rest c s)"
    unfolding assms(2) yields_def by (auto split: option.splits outcome.splits)
qed

text \<open>The end of the loop of \<open>parseline\<close>.\<close>

lemma backs_end:
  assumes "backs_to t rest c s" "\<not> peek rest ''&''"
  shows "yields (parsebacks n c s) (\<lambda>(c, s). text_cmd c = t \<and> s = skip rest)"
proof (cases "parsebacks n c s = None")
  case False
  then obtain m d where "parsebacks n c s = parsebacks m d rest" "text_cmd d = t"
    using spec [OF assms(1) [unfolded backs_to_def], of n] by auto
  then show ?thesis using assms(2) by (cases m) simp_all
qed simp

lemma reads3_up:
  assumes "reads2 t" "show_cmd 3 t = show_cmd 2 t"
  shows "reads3 t"
  unfolding reads3_def
proof (intro allI impI)
  fix n rest assume f: "follows '')'' rest"
  have np: "\<not> peek rest ''&''" "\<not> peek rest '';''" by (rule follows_not [OF f]; simp)+
  have f2: "follows '')&;'' rest" by (rule follows_mono [OF f]) simp
  show "yields (parseline n (show_cmd 3 t @ rest)) (\<lambda>(c, s). text_cmd c = t \<and> s = skip rest)"
  proof (cases n)
    case (Suc m)
    have "yields (parsepipe m (show_cmd 2 t @ rest)) (\<lambda>(c, s). backs_to t rest c s)"
      using assms(1) f2 unfolding reads2_def by blast
    then show ?thesis
      unfolding Suc parseline.simps assms(2)
    proof (rule yields_pthen)
      fix x assume "case x of (c, s) \<Rightarrow> backs_to t rest c s"
      then have "yields (parsebacks m (fst x) (snd x)) (\<lambda>(c, s). text_cmd c = t \<and> s = skip rest)"
        using backs_end [OF _ np(1)] by (simp add: split_beta)
      then have "yields (pthen (parsebacks m (fst x) (snd x)) (\<lambda>(c, s).
         if peek s '';'' then pthen (parseline m (snd (snd (gettoken s)))) (\<lambda>(d, s). done_with (LIST c d, s))
         else done_with (c, skip s))) (\<lambda>(c, s). text_cmd c = t \<and> s = skip rest)"
        by (rule yields_pthen) (use np(2) in auto)
      then show "yields (case x of (c, s) \<Rightarrow> pthen (parsebacks m c s) (\<lambda>(c, s).
         if peek s '';'' then pthen (parseline m (snd (snd (gettoken s)))) (\<lambda>(d, s). done_with (LIST c d, s))
         else done_with (c, skip s))) (\<lambda>(c, s). text_cmd c = t \<and> s = skip rest)"
        by (simp add: split_beta)
    qed
  qed simp
qed

text \<open>A phrase in parentheses with redirections after it.\<close>

lemma block_reads:
  assumes b: "reads3 b" and rs: "\<forall>r \<in> set rs. redir_ok r" and f: "follows ''|)&;'' rest"
  shows "yields (parseexec n (''('' @ show_cmd 3 b @ '')'' @ concat (map show_redir rs) @ rest))
    (\<lambda>(c, s). text_cmd c = wrap b rs \<and> s = skip rest)"
proof (cases "n < 2")
  case True
  have p: "peek (CHR ''('' # x) ''(''" for x by (simp add: peek_sym is_ws_def whitespace_def)
  from True consider "n = 0" | "n = Suc 0" by linarith
  then show ?thesis by cases (simp_all add: p)
next
  case False
  define m where "m = n - 2"
  have n: "n = Suc (Suc m)" using False by (simp add: m_def)
  let ?z = "concat (map show_redir rs) @ rest"
  let ?y = "show_cmd 3 b @ CHR '')'' # ?z"
  have nr: "\<not> peek rest ''<>''" by (rule follows_not [OF f]) simp
  have po: "peek (CHR ''('' # ?y) ''(''" and pc: "peek (CHR '')'' # ?z) '')''" and fc: "follows '')'' (CHR '')'' # ?z)"
    by (simp_all add: peek_sym follows_def is_ws_def whitespace_def)
  have go: "snd (snd (gettoken (CHR ''('' # ?y))) = skip ?y" "snd (snd (gettoken (CHR '')'' # ?z))) = skip ?z"
    by (rule gettoken_sym; simp)+
  have l: "yields (parseline m ?y) (\<lambda>(c, s). text_cmd c = b \<and> s = skip (CHR '')'' # ?z))"
    using b fc unfolding reads3_def by blast
  have "yields (pthen (parseline m ?y) (\<lambda>(c, s).
        if \<not> peek s '')'' then Some (Panic ''syntax - missing )'')
        else pthen (parseredirs m (snd (snd (gettoken s)))) (\<lambda>(rs, s). done_with (wrap c rs, s))))
     (\<lambda>(c, s). text_cmd c = wrap b rs \<and> s = skip rest)"
  proof (rule yields_pthen [OF l])
    fix x assume x: "case x of (c, s) \<Rightarrow> text_cmd c = b \<and> s = skip (CHR '')'' # ?z)"
    have "yields (pthen (parseredirs m ?z) (\<lambda>(rs, s). done_with (wrap (fst x) rs, s)))
       (\<lambda>(c, s). text_cmd c = wrap b rs \<and> s = skip rest)"
      by (rule yields_pthen [OF redirs_read [OF rs nr]]) (use x in \<open>auto simp: text_wrap\<close>)
    then show "yields (case x of (c, s) \<Rightarrow>
        if \<not> peek s '')'' then Some (Panic ''syntax - missing )'')
        else pthen (parseredirs m (snd (snd (gettoken s)))) (\<lambda>(rs, s). done_with (wrap c rs, s)))
     (\<lambda>(c, s). text_cmd c = wrap b rs \<and> s = skip rest)"
      using x pc go(2) by (auto simp: split_beta)
  qed
  then have "yields (parseexec n (CHR ''('' # ?y)) (\<lambda>(c, s). text_cmd c = wrap b rs \<and> s = skip rest)"
    unfolding n parseexec.simps parseblock.simps if_P [OF po] using po go(1) by simp
  then show ?thesis by simp
qed

lemma wrap_simps [simp]: "wrap c [] = c" "wrap c (rs @ [(w, m, fd)]) = REDIR (wrap c rs) w m fd"
  by (simp_all add: wrap_def)

lemma redir_chain:
  "\<exists>b rs. t = wrap b rs \<and> (\<forall>c f m fd. b \<noteq> REDIR c f m fd) \<and>
     show_cmd 0 t = show_cmd 0 b @ concat (map show_redir rs) \<and>
     (cmd_ok t \<longrightarrow> cmd_ok b \<and> (\<forall>r \<in> set rs. redir_ok r)) \<and> (rs = [] \<or> size b < size t)"
proof (induction t)
  case (REDIR c f m fd)
  then obtain b rs where b: "c = wrap b rs" "\<forall>c f m fd. b \<noteq> REDIR c f m fd"
    "show_cmd 0 c = show_cmd 0 b @ concat (map show_redir rs)"
    "cmd_ok c \<longrightarrow> cmd_ok b \<and> (\<forall>r \<in> set rs. redir_ok r)" "rs = [] \<or> size b < size c" by blast
  show ?case by (intro exI [of _ b] exI [of _ "rs @ [(f, m, fd)]"]) (use b in auto)
next
  case (EXEC ws)
  show ?case by (intro exI [of _ "EXEC ws"] exI [of _ "[]"]) simp
next
  case (PIPE c d)
  show ?case by (intro exI [of _ "PIPE c d"] exI [of _ "[]"]) simp
next
  case (LIST c d)
  show ?case by (intro exI [of _ "LIST c d"] exI [of _ "[]"]) simp
next
  case (BACK c)
  show ?case by (intro exI [of _ "BACK c"] exI [of _ "[]"]) simp
qed

lemma exec_reads:
  assumes ws: "length ws < MAXARGS" "\<forall>w \<in> set ws. word_ok w" and rs: "\<forall>r \<in> set rs. redir_ok r"
    and f: "follows ''|)&;'' rest"
  shows "yields (parseexec n (show_words ws @ concat (map show_redir rs) @ rest))
    (\<lambda>(c, s). text_cmd c = wrap (EXEC ws) rs \<and> s = skip rest)"
proof (cases n)
  case (Suc m)
  let ?x = "show_words ws @ concat (map show_redir rs) @ rest"
  have nr: "\<not> peek rest ''<>''" and no: "\<not> peek rest ''(''" by (rule follows_not [OF f]; simp)+
  have np: "\<not> peek ?x ''(''"
  proof (cases ws)
    case Nil
    show ?thesis
    proof (cases rs)
      case (Cons r rs')
      then show ?thesis by (simp add: Nil show_words_def show_redir_def peek_sym is_ws_def whitespace_def)
    qed (simp add: Nil show_words_def no)
  next
    case (Cons w ws')
    then have w: "word_ok w" using ws(2) by simp
    then have "hd w \<notin> set ''(''" using word_hd [OF w] by simp
    then show ?thesis using peek_word [OF w] by (simp add: Cons show_words_def)
  qed
  have "yields (pthen (parseredirs m ?x) (\<lambda>(rs, s). parseargs m [] rs s))
    (\<lambda>(c, s). text_cmd c = wrap (EXEC ws) rs \<and> s = skip rest)"
  proof (cases ws)
    case Nil
    then have x: "?x = concat (map show_redir rs) @ rest" by (simp add: show_words_def)
    show ?thesis
      unfolding x
    proof (rule yields_pthen [OF redirs_read [OF rs nr]])
      fix y assume y: "case y of (rs', s) \<Rightarrow> map text_redir rs' = rs \<and> s = skip rest"
      have "yields (parseargs m [] (fst y) (show_words [] @ concat (map show_redir []) @ rest))
        (\<lambda>(c, s). text_cmd c = wrap (EXEC (map word_text [] @ [])) (map text_redir (fst y) @ []) \<and> s = skip rest)"
        by (rule args_read) (use f in \<open>simp_all add: MAXARGS_def\<close>)
      then show "yields (case y of (rs, s) \<Rightarrow> parseargs m [] rs s)
        (\<lambda>(c, s). text_cmd c = wrap (EXEC ws) rs \<and> s = skip rest)"
        using y Nil by (simp add: show_words_def split_beta)
    qed
  next
    case (Cons w ws')
    then have w: "word_ok w" using ws(2) by simp
    then have "hd w \<notin> set ''<>''" using word_hd [OF w] by simp
    then have "\<not> peek ?x ''<>''" using peek_word [OF w] by (simp add: Cons show_words_def)
    then have r: "yields (parseredirs m ?x) (\<lambda>(rs', s). map text_redir rs' = [] \<and> s = skip ?x)"
      using redirs_read [of "[]" ?x m] by simp
    show ?thesis
    proof (rule yields_pthen [OF r])
      fix y assume y: "case y of (rs', s) \<Rightarrow> map text_redir rs' = [] \<and> s = skip ?x"
      have "yields (parseargs m [] [] ?x)
        (\<lambda>(c, s). text_cmd c = wrap (EXEC (map word_text [] @ ws)) (map text_redir [] @ rs) \<and> s = skip rest)"
        by (rule args_read) (use ws rs f Cons in simp_all)
      then show "yields (case y of (rs, s) \<Rightarrow> parseargs m [] rs s)
        (\<lambda>(c, s). text_cmd c = wrap (EXEC ws) rs \<and> s = skip rest)"
        using y by (simp add: split_beta)
    qed
  qed
  then show ?thesis unfolding Suc parseexec.simps if_not_P [OF np] by simp
qed simp

text \<open>All levels at once.\<close>

lemma reads_pipe: "reads0 c \<Longrightarrow> reads1 d \<Longrightarrow> reads1 (PIPE c d)"
  unfolding reads1_def
proof (intro allI impI)
  fix n rest assume c: "reads0 c" and d: "\<forall>n rest. follows '')&;'' rest \<longrightarrow>
     yields (parsepipe n (show_cmd 1 d @ rest)) (\<lambda>(c, s). text_cmd c = d \<and> s = skip rest)"
    and f: "follows '')&;'' rest"
  let ?y = "show_cmd 1 d @ rest"
  have s: "show_cmd 1 (PIPE c d) @ rest = show_cmd 0 c @ CHR ''|'' # ?y" by (simp add: paren_def)
  have p: "peek (CHR ''|'' # ?y) ''|''" "follows ''|)&;'' (CHR ''|'' # ?y)"
    by (simp_all add: peek_sym follows_def is_ws_def whitespace_def)
  have g: "snd (snd (gettoken (CHR ''|'' # ?y))) = skip ?y" by (rule gettoken_sym) simp
  show "yields (parsepipe n (show_cmd 1 (PIPE c d) @ rest)) (\<lambda>(e, s). text_cmd e = PIPE c d \<and> s = skip rest)"
  proof (cases n)
    case (Suc m)
    have "yields (parseexec m (show_cmd 0 c @ CHR ''|'' # ?y)) (\<lambda>(e, s). text_cmd e = c \<and> s = skip (CHR ''|'' # ?y))"
      using c p(2) unfolding reads0_def by blast
    then show ?thesis
      unfolding Suc s parsepipe.simps
    proof (rule yields_pthen)
      fix x assume x: "case x of (e, s) \<Rightarrow> text_cmd e = c \<and> s = skip (CHR ''|'' # ?y)"
      have "yields (parsepipe m ?y) (\<lambda>(e, s). text_cmd e = d \<and> s = skip rest)" using d f by blast
      then have "yields (pthen (parsepipe m ?y) (\<lambda>(d, s). done_with (PIPE (fst x) d, s)))
        (\<lambda>(e, s). text_cmd e = PIPE c d \<and> s = skip rest)"
        by (rule yields_pthen) (use x in auto)
      then show "yields (case x of (c, s) \<Rightarrow>
         if peek s ''|'' then pthen (parsepipe m (snd (snd (gettoken s)))) (\<lambda>(d, s). done_with (PIPE c d, s))
         else done_with (c, skip s)) (\<lambda>(e, s). text_cmd e = PIPE c d \<and> s = skip rest)"
        using x p(1) g by (simp add: split_beta)
    qed
  qed simp
qed

lemma reads_back:
  assumes "reads2 c"
  shows "reads2 (BACK c)"
  unfolding reads2_def
proof (intro allI impI)
  fix n rest assume f: "follows '')&;'' rest"
  have s: "show_cmd 2 (BACK c) @ rest = show_cmd 2 c @ CHR ''&'' # rest" by (simp add: paren_def)
  have p: "peek (CHR ''&'' # rest) ''&''" "follows '')&;'' (CHR ''&'' # rest)"
    by (simp_all add: peek_sym follows_def is_ws_def whitespace_def)
  have g: "snd (snd (gettoken (CHR ''&'' # rest))) = skip rest" by (rule gettoken_sym) simp
  have step: "backs_to (BACK c) rest d s" if b: "backs_to c (CHR ''&'' # rest) d s" for d s
    unfolding backs_to_def
  proof (intro allI)
    fix m
    from b have "parsebacks m d s = None \<or>
        (\<exists>m' c'. parsebacks m d s = parsebacks m' c' (CHR ''&'' # rest) \<and> text_cmd c' = c)"
      unfolding backs_to_def by simp
    then show "parsebacks m d s = None \<or>
        (\<exists>m' c'. parsebacks m d s = parsebacks m' c' rest \<and> text_cmd c' = BACK c)"
    proof (elim disjE exE conjE)
      fix k e assume e: "parsebacks m d s = parsebacks k e (CHR ''&'' # rest)" "text_cmd e = c"
      show ?thesis
      proof (cases k)
        case (Suc i)
        then have "parsebacks m d s = parsebacks i (BACK e) rest" using e(1) p(1) g by simp
        then show ?thesis using e(2) by (intro disjI2 exI [of _ i] exI [of _ "BACK e"]) simp
      qed (use e(1) in simp)
    qed simp
  qed
  have "yields (parsepipe n (show_cmd 2 c @ CHR ''&'' # rest)) (\<lambda>(d, s). backs_to c (CHR ''&'' # rest) d s)"
    using assms p(2) unfolding reads2_def by blast
  then show "yields (parsepipe n (show_cmd 2 (BACK c) @ rest)) (\<lambda>(d, s). backs_to (BACK c) rest d s)"
    unfolding s yields_def using step by (auto split: option.splits outcome.splits)
qed

lemma reads_list:
  assumes "reads2 c" "reads3 d"
  shows "reads3 (LIST c d)"
  unfolding reads3_def
proof (intro allI impI)
  fix n rest assume f: "follows '')'' rest"
  let ?y = "show_cmd 3 d @ rest"
  have s: "show_cmd 3 (LIST c d) @ rest = show_cmd 2 c @ CHR '';'' # ?y" by (simp add: paren_def)
  have p: "peek (CHR '';'' # ?y) '';''" "\<not> peek (CHR '';'' # ?y) ''&''" "follows '')&;'' (CHR '';'' # ?y)"
    by (simp_all add: peek_sym follows_def is_ws_def whitespace_def)
  have g: "snd (snd (gettoken (CHR '';'' # ?y))) = skip ?y" by (rule gettoken_sym) simp
  show "yields (parseline n (show_cmd 3 (LIST c d) @ rest)) (\<lambda>(e, s). text_cmd e = LIST c d \<and> s = skip rest)"
  proof (cases n)
    case (Suc m)
    let ?k = "\<lambda>(c, s). if peek s '';'' then pthen (parseline m (snd (snd (gettoken s)))) (\<lambda>(d, s). done_with (LIST c d, s))
         else done_with (c, skip s)"
    have l: "yields (parseline m ?y) (\<lambda>(e, s). text_cmd e = d \<and> s = skip rest)"
      using assms(2) f unfolding reads3_def by blast
    have k: "yields (?k (e, skip (CHR '';'' # ?y))) (\<lambda>(e, s). text_cmd e = LIST c d \<and> s = skip rest)"
      if "text_cmd e = c" for e
    proof -
      have "yields (pthen (parseline m ?y) (\<lambda>(d, s). done_with (LIST e d, s)))
        (\<lambda>(e, s). text_cmd e = LIST c d \<and> s = skip rest)"
        by (rule yields_pthen [OF l]) (use that in auto)
      then show ?thesis using p(1) g by simp
    qed
    have "yields (parsepipe m (show_cmd 2 c @ CHR '';'' # ?y)) (\<lambda>(e, s). backs_to c (CHR '';'' # ?y) e s)"
      using assms(1) p(3) unfolding reads2_def by blast
    then show ?thesis
      unfolding Suc s parseline.simps
    proof (rule yields_pthen)
      fix x assume "case x of (e, s) \<Rightarrow> backs_to c (CHR '';'' # ?y) e s"
      then have "yields (parsebacks m (fst x) (snd x)) (\<lambda>(e, s). text_cmd e = c \<and> s = skip (CHR '';'' # ?y))"
        using backs_end [OF _ p(2)] by (simp add: split_beta)
      then have "yields (pthen (parsebacks m (fst x) (snd x)) ?k) (\<lambda>(e, s). text_cmd e = LIST c d \<and> s = skip rest)"
        by (rule yields_pthen) (use k in auto)
      then show "yields (case x of (c, s) \<Rightarrow> pthen (parsebacks m c s) ?k) (\<lambda>(e, s). text_cmd e = LIST c d \<and> s = skip rest)"
        by (simp add: split_beta)
    qed
  qed simp
qed

lemma reads_all: "cmd_ok t \<Longrightarrow> reads0 t \<and> reads1 t \<and> reads2 t \<and> reads3 t"
proof (induction t rule: measure_induct_rule [of size])
  case (less t)
  have up0: "reads0 t" if "reads3 t" "show_cmd 0 t = ''('' @ show_cmd 3 t @ '')''"
    unfolding reads0_def using block_reads [OF that(1), of "[]"] that(2) by simp
  show ?case
  proof (cases t)
    case (PIPE c d)
    then have 1: "reads1 t" using less reads_pipe by simp
    have 2: "reads2 t" by (rule reads2_up [OF 1]) (simp add: PIPE paren_def)
    have 3: "reads3 t" by (rule reads3_up [OF 2]) (simp add: PIPE paren_def)
    have "reads0 t" by (rule up0 [OF 3]) (simp add: PIPE paren_def)
    with 1 2 3 show ?thesis by blast
  next
    case (BACK c)
    then have 2: "reads2 t" using less reads_back by simp
    have 3: "reads3 t" by (rule reads3_up [OF 2]) (simp add: BACK paren_def)
    have 0: "reads0 t" by (rule up0 [OF 3]) (simp add: BACK paren_def)
    have "reads1 t" by (rule reads1_up [OF 0]) (simp add: BACK paren_def)
    with 0 2 3 show ?thesis by blast
  next
    case (LIST c d)
    then have 3: "reads3 t" using less reads_list by simp
    have 0: "reads0 t" by (rule up0 [OF 3]) (simp add: LIST paren_def)
    have 1: "reads1 t" by (rule reads1_up [OF 0]) (simp add: LIST paren_def)
    have "reads2 t" by (rule reads2_up [OF 1]) (simp add: LIST paren_def)
    with 0 1 3 show ?thesis by blast
  next
    case leaf: (EXEC ws)
    have 0: "reads0 t"
      unfolding reads0_def leaf using exec_reads [of ws "[]"] less(2) leaf by simp
    have 1: "reads1 t" by (rule reads1_up [OF 0]) (simp add: leaf)
    have 2: "reads2 t" by (rule reads2_up [OF 1]) (simp add: leaf)
    have "reads3 t" by (rule reads3_up [OF 2]) (simp add: leaf)
    with 0 1 2 show ?thesis by blast
  next
    case red: (REDIR c f m fd)
    obtain b rs where b: "t = wrap b rs" "\<forall>c f m fd. b \<noteq> REDIR c f m fd"
      "show_cmd 0 t = show_cmd 0 b @ concat (map show_redir rs)" "cmd_ok b" "\<forall>r \<in> set rs. redir_ok r"
      "rs = [] \<or> size b < size t"
      using redir_chain [of t] less(2) by blast
    have "rs \<noteq> []" using b(1,2) red by auto
    then have sz: "size b < size t" using b(6) by simp
    have 0: "reads0 t"
    proof (cases "\<exists>ws. b = EXEC ws")
      case True
      then show ?thesis unfolding reads0_def b(3) using exec_reads [OF _ _ b(5)] b(1,4) by auto
    next
      case False
      then have "show_cmd 0 b = ''('' @ show_cmd 3 b @ '')''"
        using b(2) by (cases b) (auto simp: paren_def)
      then show ?thesis
        unfolding reads0_def b(3) using block_reads [OF _ b(5)] less(1) [OF sz b(4)] b(1) by simp
    qed
    have 1: "reads1 t" by (rule reads1_up [OF 0]) (simp add: red)
    have 2: "reads2 t" by (rule reads2_up [OF 1]) (simp add: red)
    have "reads3 t" by (rule reads3_up [OF 2]) (simp add: red)
    with 0 1 2 show ?thesis by blast
  qed
qed

text \<open>
  Print, then parse.  Every command tree with at most nine proper words per command comes back
  from its printed form, with pipelines, lists, background commands, redirections and
  parentheses nested in any way.
\<close>

theorem parse_show:
  assumes "cmd_ok t"
  shows "\<exists>c. parsecmd (show_cmd 3 t) = Some (Val c) \<and> map_cmd word_text c = t"
proof -
  let ?s = "show_cmd 3 t"
  have f: "follows '')'' []" by (simp add: follows_def)
  have "reads3 t" using reads_all [OF assms] by simp
  then have y: "yields (parseline (parsecmd_fuel ?s) (?s @ [])) (\<lambda>(c, s). text_cmd c = t \<and> s = skip [])"
    using f unfolding reads3_def by blast
  have "parseline (parsecmd_fuel ?s) ?s \<noteq> None"
    by (rule parse_total(1)) (simp add: parsecmd_fuel_def)
  then obtain c where "parseline (parsecmd_fuel ?s) ?s = Some (Val (c, []))" "text_cmd c = t"
    using y by (auto simp: yields_def split: option.splits outcome.splits)
  then show ?thesis by (simp add: parsecmd_def)
qed

lemma parse_show_witness:
  "show_cmd 3 (PIPE (EXEC [''cat'', ''a'']) (BACK (REDIR (EXEC [''wc'']) ''f'' 0x201 1))) = ''cat a |(wc >f &)'' \<and>
   (\<exists>c. parsecmd ''cat a |(wc >f &)'' = Some (Val c) \<and>
      map_cmd word_text c = PIPE (EXEC [''cat'', ''a'']) (BACK (REDIR (EXEC [''wc'']) ''f'' 0x201 1)))"
proof -
  let ?t = "PIPE (EXEC [''cat'', ''a'']) (BACK (REDIR (EXEC [''wc'']) ''f'' 0x201 1))"
  have s: "show_cmd 3 ?t = ''cat a |(wc >f &)''" by (simp add: paren_def show_words_def show_redir_def)
  have "cmd_ok ?t"
    by (simp add: MAXARGS_def word_ok_def redir_ok_def is_ws_def is_sym_def whitespace_def symbols_def
        O_WRONLY_def O_CREATE_def)
  from parse_show [OF this] show ?thesis by (simp only: s)
qed

end
