(* ===== verification/Xv6_Shellwords.thy ===== *)
theory Xv6_Shellwords
  imports Xv6_Shellround "HOL-Library.Sublist"
begin

text \<open>
  The words the parser of the shell hands to \<open>exec\<close> and \<open>open\<close> are pointers into the line;
  \<open>nulterminate\<close> cuts the line so that each of them is a C string of its own.
\<close>

section \<open>The words in the line\<close>

text \<open>A word of the line \<open>s\<close>: its characters are proper, and the one after it is not.\<close>

definition word_in :: "string \<Rightarrow> ptrs \<Rightarrow> bool" where
  "word_in s w \<longleftrightarrow> suffix (fst w) s \<and> suffix (snd w) (fst w) \<and> word_ok (word_text w) \<and>
     (snd w = [] \<or> is_ws (hd (snd w)) \<or> is_sym (hd (snd w)))"

lemma word_in_suffix: "word_in r w \<Longrightarrow> suffix r s \<Longrightarrow> word_in s w"
  by (auto simp: word_in_def intro: suffix_order.trans)

lemma suffix_skip: "suffix (skip s) s"
  by (simp add: skip_def suffix_dropWhile)

lemma token_at_suffix: "suffix (snd (token_at s)) s"
  by (simp add: token_at_def suffix_dropWhile suffix_tl suffix_order.trans [OF suffix_tl suffix_tl])

lemma gettoken_suffix: "suffix (snd (snd (gettoken s))) s"
  unfolding gettoken_sel
  using suffix_skip token_at_suffix by (metis suffix_order.trans)

lemma gettoken_word_in:
  assumes "fst (gettoken s) = CHR ''a''" "NUL \<notin> set s"
  shows "word_in s (fst (snd (gettoken s)))"
proof -
  let ?P = "\<lambda>c. \<not> is_ws c \<and> \<not> is_sym c"
  obtain c r where c: "skip s = c # r" "c \<noteq> NUL" "c \<notin> set ''|();&<''" "c \<noteq> CHR ''>''"
    using assms(1) by (cases "skip s") (auto simp: gettoken_sel token_at_def split: if_splits)
  have P: "?P c" using skip_hd [OF c(1)] c(3,4) by (auto simp: is_sym_def symbols_def)
  have g: "fst (snd (gettoken s)) = (c # r, dropWhile ?P (c # r))"
    using c by (simp add: gettoken_def token_at_def Let_def)
  have t: "word_text (c # r, dropWhile ?P (c # r)) = takeWhile ?P (c # r)"
  proof -
    have "takeWhile ?P (c # r) = take (length (takeWhile ?P (c # r))) (c # r)" by (rule takeWhile_eq_take)
    moreover have "length (c # r) - length (dropWhile ?P (c # r)) = length (takeWhile ?P (c # r))"
      by (metis add_diff_cancel_right' length_append takeWhile_dropWhile_id)
    ultimately show ?thesis by (simp only: word_text_def fst_conv snd_conv)
  qed
  have sub: "set (c # r) \<subseteq> set s" using suffix_skip [of s] set_mono_suffix c(1) by metis
  have "takeWhile ?P (c # r) \<noteq> []" using P by simp
  moreover have "?P x \<and> x \<noteq> NUL" if "x \<in> set (takeWhile ?P (c # r))" for x
    using set_takeWhileD [OF that] sub assms(2) by auto
  ultimately have ok: "word_ok (takeWhile ?P (c # r))" unfolding word_ok_def by blast
  have "dropWhile ?P (c # r) = [] \<or> \<not> ?P (hd (dropWhile ?P (c # r)))" using hd_dropWhile by blast
  then show ?thesis
    unfolding g word_in_def fst_conv snd_conv t using ok suffix_skip [of s] c(1) suffix_dropWhile by metis
qed

lemma redirs_words:
  "parseredirs n s = Some (Val (rs, s')) \<Longrightarrow> NUL \<notin> set s \<Longrightarrow>
     suffix s' s \<and> (\<forall>r \<in> set rs. word_in s (fst r))"
proof (induction n arbitrary: s rs)
  case (Suc n)
  show ?case
  proof (cases "peek s ''<>''")
    case False
    then show ?thesis using Suc(2) suffix_skip by auto
  next
    case True
    obtain tok w r tok2 v r2 where g: "gettoken s = (tok, w, r)" "gettoken r = (tok2, v, r2)"
      by (metis prod_cases3)
    obtain rs2 where p: "parseredirs n r2 = Some (Val (rs2, s'))" "rs = redir_of tok v # rs2" "tok2 = CHR ''a''"
      using Suc(2) True g by (auto split: if_splits)
    have sf: "suffix r s" "suffix r2 s"
      using gettoken_suffix [of s] gettoken_suffix [of r] g by (auto intro: suffix_order.trans)
    then have nn: "NUL \<notin> set r" "NUL \<notin> set r2" using Suc(3) set_mono_suffix by blast+
    have "word_in r v" using gettoken_word_in [of r] g(2) p(3) nn(1) by simp
    then have "word_in s v" using word_in_suffix sf(1) by blast
    moreover have "suffix s' r2 \<and> (\<forall>r \<in> set rs2. word_in r2 (fst r))" using Suc(1) [OF p(1) nn(2)] .
    ultimately show ?thesis
      using p(2) sf(2) word_in_suffix by (auto simp: redir_of_def intro: suffix_order.trans)
  qed
qed simp

lemma set_wrap: "set_cmd (wrap c rs) = set_cmd c \<union> fst ` set rs"
proof (induction rs rule: rev_induct)
  case (snoc r rs)
  then show ?case by (cases r) auto
qed simp

lemma args_words:
  "parseargs n args rs s = Some (Val (c, s')) \<Longrightarrow> NUL \<notin> set s \<Longrightarrow>
     suffix s' s \<and> (\<forall>w \<in> set_cmd c. w \<in> set args \<or> w \<in> fst ` set rs \<or> word_in s w)"
proof (induction n arbitrary: s args rs)
  case (Suc n)
  obtain tok w r where g: "gettoken s = (tok, w, r)" by (metis prod_cases3)
  have sf: "suffix r s" using gettoken_suffix [of s] g by simp
  consider "c = wrap (EXEC args) rs" "suffix s' s"
    | rs2 r2 where "tok = CHR ''a''" "parseredirs n r = Some (Val (rs2, r2))"
      "parseargs n (args @ [w]) (rs @ rs2) r2 = Some (Val (c, s'))"
    using Suc(2) g sf suffix_skip [of s] by (auto split: if_splits)
  then show ?case
  proof cases
    case 1
    then show ?thesis by (auto simp: set_wrap)
  next
    case 2
    have nr: "NUL \<notin> set r" using Suc(3) set_mono_suffix [OF sf] by blast
    have w: "word_in s w" using gettoken_word_in [of s] g 2(1) Suc(3) by simp
    have r: "suffix r2 r" "\<forall>r' \<in> set rs2. word_in r (fst r')" using redirs_words [OF 2(2) nr] by blast+
    have s2: "suffix r2 s" using r(1) sf by (rule suffix_order.trans)
    have n2: "NUL \<notin> set r2" using Suc(3) set_mono_suffix [OF s2] by blast
    have "suffix s' r2" "\<forall>v \<in> set_cmd c. v \<in> set (args @ [w]) \<or> v \<in> fst ` set (rs @ rs2) \<or> word_in r2 v"
      using Suc(1) [OF 2(3) n2] by blast+
    moreover have "\<forall>v \<in> fst ` set rs2. word_in s v" using r(2) sf word_in_suffix by blast
    ultimately have "v \<in> set args \<or> v \<in> fst ` set rs \<or> word_in s v" if "v \<in> set_cmd c" for v
      using that w word_in_suffix [OF _ s2, of v] unfolding set_append image_Un by fastforce
    then show ?thesis using \<open>suffix s' r2\<close> s2 suffix_order.trans by blast
  qed
qed simp

lemma backs_words:
  "parsebacks n c s = Some (Val (d, s')) \<Longrightarrow> suffix s' s \<and> set_cmd d = set_cmd c"
proof (induction n arbitrary: s c)
  case (Suc n)
  show ?case
  proof (cases "peek s ''&''")
    case True
    then have "suffix s' (snd (snd (gettoken s))) \<and> set_cmd d = set_cmd (BACK c)"
      using Suc(1) [of "BACK c" "snd (snd (gettoken s))"] Suc(2) by simp
    then show ?thesis using gettoken_suffix [of s] suffix_order.trans by auto
  qed (use Suc(2) suffix_skip [of s] in auto)
qed simp

text \<open>What every part of the parser promises: the rest of the input, and words of the input.\<close>

definition words_of :: "string \<Rightarrow> ptrs cmd \<Rightarrow> string \<Rightarrow> bool" where
  "words_of s c s' \<longleftrightarrow> suffix s' s \<and> (\<forall>w \<in> set_cmd c. word_in s w)"

lemma words_of_later: "words_of r c s' \<Longrightarrow> suffix r s \<Longrightarrow> words_of s c s'"
  by (auto simp: words_of_def intro: suffix_order.trans word_in_suffix)

lemma no_NUL_suffix: "suffix r s \<Longrightarrow> NUL \<notin> set s \<Longrightarrow> NUL \<notin> set r"
  using set_mono_suffix by blast

lemma words_tok: "suffix (snd (snd (gettoken (skip s)))) s" "suffix (snd (snd (gettoken s))) s"
  using gettoken_suffix [of s] by simp_all

lemma parse_words:
  "parseline n s = Some (Val (c, s')) \<Longrightarrow> NUL \<notin> set s \<Longrightarrow> words_of s c s'"
  "parsepipe n s = Some (Val (c, s')) \<Longrightarrow> NUL \<notin> set s \<Longrightarrow> words_of s c s'"
  "parseexec n s = Some (Val (c, s')) \<Longrightarrow> NUL \<notin> set s \<Longrightarrow> words_of s c s'"
  "parseblock n s = Some (Val (c, s')) \<Longrightarrow> NUL \<notin> set s \<Longrightarrow> words_of s c s'"
proof (induction n arbitrary: s c s')
  case (Suc n)
  {
    case 1
    then obtain c1 s1 c2 s2 where p: "parsepipe n s = Some (Val (c1, s1))" "parsebacks n c1 s1 = Some (Val (c2, s2))"
      "(if peek s2 '';'' then pthen (parseline n (snd (snd (gettoken s2)))) (\<lambda>(d, s). done_with (LIST c2 d, s))
        else done_with (c2, skip s2)) = Some (Val (c, s'))" by auto
    have w1: "words_of s c1 s1" using Suc.IH(2) p(1) 1(2) by blast
    have w2: "words_of s c2 s2" using w1 backs_words [OF p(2)] by (auto simp: words_of_def intro: suffix_order.trans)
    show ?case
    proof (cases "peek s2 '';''")
      case True
      then obtain d where d: "parseline n (snd (snd (gettoken s2))) = Some (Val (d, s'))" "c = LIST c2 d"
        using p(3) by auto
      have sf: "suffix (snd (snd (gettoken s2))) s"
        using words_tok(2) w2 unfolding words_of_def by (blast intro: suffix_order.trans)
      have "words_of s d s'" using words_of_later [OF Suc.IH(1) [OF d(1) no_NUL_suffix [OF sf 1(2)]] sf] .
      then show ?thesis using w2 d(2) by (auto simp: words_of_def)
    next
      case False
      then show ?thesis using p(3) w2 suffix_skip [of s2] by (auto simp: words_of_def intro: suffix_order.trans)
    qed
  next
    case 2
    then obtain c1 s1 where p: "parseexec n s = Some (Val (c1, s1))"
      "(if peek s1 ''|'' then pthen (parsepipe n (snd (snd (gettoken s1)))) (\<lambda>(d, s). done_with (PIPE c1 d, s))
        else done_with (c1, skip s1)) = Some (Val (c, s'))" by auto
    have w1: "words_of s c1 s1" using Suc.IH(3) p(1) 2(2) by blast
    show ?case
    proof (cases "peek s1 ''|''")
      case True
      then obtain d where d: "parsepipe n (snd (snd (gettoken s1))) = Some (Val (d, s'))" "c = PIPE c1 d"
        using p(2) by auto
      have sf: "suffix (snd (snd (gettoken s1))) s"
        using words_tok(2) w1 unfolding words_of_def by (blast intro: suffix_order.trans)
      have "words_of s d s'" using words_of_later [OF Suc.IH(2) [OF d(1) no_NUL_suffix [OF sf 2(2)]] sf] .
      then show ?thesis using w1 d(2) by (auto simp: words_of_def)
    next
      case False
      then show ?thesis using p(2) w1 suffix_skip [of s1] by (auto simp: words_of_def intro: suffix_order.trans)
    qed
  next
    case 3
    show ?case
    proof (cases "peek s ''(''")
      case True
      then show ?thesis using Suc.IH(4) 3 by simp
    next
      case False
      then obtain rs s1 where p: "parseredirs n s = Some (Val (rs, s1))" "parseargs n [] rs s1 = Some (Val (c, s'))"
        using 3(1) by auto
      have r: "suffix s1 s" "\<forall>r \<in> set rs. word_in s (fst r)" using redirs_words [OF p(1) 3(2)] by blast+
      have a: "suffix s' s1" "\<forall>w \<in> set_cmd c. w \<in> fst ` set rs \<or> word_in s1 w"
        using args_words [OF p(2) no_NUL_suffix [OF r(1) 3(2)]] by auto
      have "word_in s w" if "w \<in> set_cmd c" for w
        using a(2) [rule_format, OF that] r word_in_suffix by blast
      then show ?thesis using r(1) a(1) suffix_order.trans unfolding words_of_def by blast
    qed
  next
    case 4
    then obtain c1 s1 rs where p: "parseline n (snd (snd (gettoken s))) = Some (Val (c1, s1))"
      "parseredirs n (snd (snd (gettoken s1))) = Some (Val (rs, s'))" "c = wrap c1 rs"
      by (auto split: if_splits)
    have sf: "suffix (snd (snd (gettoken s))) s" by (rule words_tok)
    have w1: "words_of s c1 s1" using words_of_later [OF Suc.IH(1) [OF p(1) no_NUL_suffix [OF sf 4(2)]] sf] .
    have sf2: "suffix (snd (snd (gettoken s1))) s"
      using words_tok(2) w1 unfolding words_of_def by (blast intro: suffix_order.trans)
    note r = redirs_words [OF p(2) no_NUL_suffix [OF sf2 4(2)]]
    have "word_in s (fst x)" if "x \<in> set rs" for x using r that word_in_suffix sf2 by blast
    moreover have "suffix s' s" using r sf2 suffix_order.trans by blast
    ultimately show ?case using w1 unfolding p(3) words_of_def set_wrap by blast
  }
qed simp_all

text \<open>The characters after the cuts.\<close>

lemma cut_nth:
  "i < length buf \<Longrightarrow> cut w buf ! i = (if i = length buf - 1 - length (snd w) then NUL else buf ! i)"
  by (simp add: cut_def nth_list_update)

lemma length_cut [simp]: "length (cut w buf) = length buf"
  by (simp add: cut_def)

lemma cuts_nth:
  "length (foldl (\<lambda>buf w. cut w buf) buf ws) = length buf \<and>
   (\<forall>i < length buf. foldl (\<lambda>buf w. cut w buf) buf ws ! i =
      (if \<exists>w \<in> set ws. i = length buf - 1 - length (snd w) then NUL else buf ! i))"
proof (induction ws arbitrary: buf)
  case (Cons w ws)
  show ?case using Cons [of "cut w buf"] by (auto simp: cut_nth)
qed simp

lemma nulterminate_nth:
  "length (nulterminate c buf) = length buf \<and>
   (\<forall>i < length buf. nulterminate c buf ! i =
      (if \<exists>w \<in> set_cmd c. i = length buf - 1 - length (snd w) then NUL else buf ! i))"
proof (induction c arbitrary: buf)
  case (EXEC ws)
  then show ?case using cuts_nth [of buf ws] by simp
next
  case (REDIR c w m fd)
  then show ?case by (auto simp: cut_nth)
next
  case (PIPE c d)
  then show ?case by auto
next
  case (LIST c d)
  then show ?case by auto
next
  case (BACK c)
  then show ?case by simp
qed

text \<open>
  The words are C strings.  After \<open>nulterminate\<close> the C string at the pointer of any word of the
  tree, an argument or a file name, is the text of that word: every cut falls on a separator, so
  none falls inside another word.
\<close>

theorem nulterminate_words:
  assumes "NUL \<notin> set s" and "parsecmd s = Some (Val c)" and "w \<in> set_cmd c"
  shows "cstr (drop (length s - length (fst w)) (nulterminate c (s @ [NUL]))) = word_text w"
proof -
  obtain s' where "parseline (parsecmd_fuel s) s = Some (Val (c, s'))"
    using assms(2) by (auto simp: parsecmd_def split: if_splits)
  then have win: "word_in s v" if "v \<in> set_cmd c" for v
    using parse_words(1) assms(1) that unfolding words_of_def by blast
  note ww = win [OF assms(3), unfolded word_in_def]
  obtain a where a: "s = a @ fst w" using ww by (auto simp: suffix_def)
  obtain t where t: "fst w = t @ snd w" using ww by (auto simp: suffix_def)
  have wt: "word_text w = t" by (simp add: word_text_def t)
  have ok: "\<not> is_ws x" "\<not> is_sym x" "x \<noteq> NUL" if "x \<in> set t" for x
    using ww wt that by (auto simp: word_ok_def)
  let ?b = "nulterminate c (s @ [NUL])"
  note nn = nulterminate_nth [of c "s @ [NUL]"]
  have at_cut: "?b ! (length a + length t) = NUL"
  proof -
    have "length a + length t = length (s @ [NUL]) - 1 - length (snd w)" "length a + length t < length (s @ [NUL])"
      using a t by simp_all
    then show ?thesis using nn assms(3) by (metis (no_types, lifting))
  qed
  have keep: "?b ! (length a + i) = t ! i" if i: "i < length t" for i
  proof -
    have si: "s ! (length a + i) = t ! i" "length a + i < length s" using a t i by (simp_all add: nth_append)
    have "length a + i \<noteq> length (s @ [NUL]) - 1 - length (snd v)" if v: "v \<in> set_cmd c" for v
    proof
      assume e: "length a + i = length (s @ [NUL]) - 1 - length (snd v)"
      have vv: "suffix (snd v) s" "snd v = [] \<or> is_ws (hd (snd v)) \<or> is_sym (hd (snd v))"
        using win [OF v] by (auto simp: word_in_def intro: suffix_order.trans)
      then obtain b where b: "s = b @ snd v" by (auto simp: suffix_def)
      then have "snd v \<noteq> []" "s ! (length a + i) = hd (snd v)"
        using e si(2) by (auto simp: nth_append hd_conv_nth)
      moreover have "t ! i \<in> set t" using i by simp
      ultimately show False using vv(2) ok [of "t ! i"] si(1) by auto
    qed
    then have "?b ! (length a + i) = (s @ [NUL]) ! (length a + i)" using nn si(2) by auto
    then show ?thesis using si by (simp add: nth_append)
  qed
  have lb: "length ?b = length s + 1" using nn by simp
  have "drop (length a) ?b = t @ NUL # drop (length a + length t + 1) ?b"
  proof (rule nth_equalityI)
    show "length (drop (length a) ?b) = length (t @ NUL # drop (length a + length t + 1) ?b)"
      using lb a t by simp
    fix i assume "i < length (drop (length a) ?b)"
    then have "length a + i < length ?b" by simp
    then show "drop (length a) ?b ! i = (t @ NUL # drop (length a + length t + 1) ?b) ! i"
      using keep [of i] at_cut lb a t
      by (cases "i < length t"; cases "i = length t") (auto simp: nth_append nth_Cons' add.assoc)
  qed
  then have "cstr (drop (length a) ?b) = t" using ok(3) cstr_append_NUL by metis
  moreover have "length s - length (fst w) = length a" using a by simp
  ultimately show ?thesis using wt by simp
qed

lemma nulterminate_words_witness:
  "\<exists>c w. parsecmd ''wc<f'' = Some (Val c) \<and> w \<in> set_cmd c \<and>
     cstr (drop (length ''wc<f'' - length (fst w)) (nulterminate c (''wc<f'' @ [NUL]))) = ''f''"
proof -
  let ?w = "(''f'', []) :: ptrs" and ?v = "(''wc<f'', ''<f'') :: ptrs"
  have p: "parsecmd ''wc<f'' = Some (Val (REDIR (EXEC [?v]) ?w 0 0))" by code_simp
  have "NUL \<notin> set ''wc<f''" "?w \<in> set_cmd (REDIR (EXEC [?v]) ?w 0 0)" by simp_all
  from nulterminate_words [OF this(1) p this(2)] show ?thesis
    using p by (intro exI [of _ "REDIR (EXEC [?v]) ?w 0 0"] exI [of _ ?w]) (simp add: word_text_def)
qed

end
