(* ===== verification/Xv6_Login.thy ===== *)
theory Xv6_Login
  imports Xv6_String
begin

text \<open>
  The login of the enhanced shell kernel (\<open>init.c\<close>), and the arguments of system calls: the
  checks of \<open>syscall.c\<close> on addresses that come from user space.
\<close>

section \<open>Login\<close>

definition MAX_ATTEMPTS :: nat where "MAX_ATTEMPTS = 3"

text \<open>A line of at most \<open>sz - 1\<close> characters, its newline removed, and the input left.\<close>

definition get_input :: "nat \<Rightarrow> string \<Rightarrow> string \<times> string" where
  "get_input sz inp =
     (let (buf, rest) = gets sz inp; len = strlen buf in
      (if 0 < len \<and> buf ! (len - 1) = CHR 0x0A then buf[len - 1 := NUL] else buf, rest))"

text \<open>
  The loop of \<open>login\<close>; the result is the input left when it returns.  \<open>None\<close> is the endless loop
  after the last attempt.  The name and the password are given to the compiler by the \<open>Makefile\<close>.
\<close>

fun login_loop :: "string \<Rightarrow> string \<Rightarrow> nat \<Rightarrow> string \<Rightarrow> string option" where
  "login_loop USERNAME PASSWORD 0 inp = None"
| "login_loop USERNAME PASSWORD (Suc attempts) inp =
     (let (uname, inp) = get_input 20 inp in
      if strcmp uname USERNAME \<noteq> 0 then login_loop USERNAME PASSWORD attempts inp
      else let (pass, inp) = get_input 20 inp in
        if strcmp pass PASSWORD = 0 then Some inp
        else login_loop USERNAME PASSWORD attempts inp)"

definition login :: "string \<Rightarrow> string \<Rightarrow> string \<Rightarrow> string option" where
  "login USERNAME PASSWORD inp = login_loop USERNAME PASSWORD MAX_ATTEMPTS inp"

lemma cstr_at_last: "b = w @ [NUL] \<Longrightarrow> NUL \<notin> set w \<Longrightarrow> cstr b = w"
  using cstr_append_NUL [of w "[]"] by simp

text \<open>What was typed for what \<open>get_input\<close> gives.\<close>

lemma get_input_split:
  assumes "get_input sz inp = (b, rest)" "NUL \<notin> set inp"
  shows "\<exists>s. inp = cstr b @ s @ rest \<and> (s = [] \<or> s = [CHR 0x0A])"
proof -
  obtain c where c: "gets sz inp = (c, rest)" using assms(1) by (auto simp: get_input_def Let_def split: prod.splits)
  have g: "inp = butlast c @ rest" "last c = NUL"
    using gets_loop_split c unfolding gets_def by blast+
  have ne: "c \<noteq> []"
  proof -
    have "fst (gets_loop k i) \<noteq> []" for k i by (induction k i rule: gets_loop.induct) (auto split: prod.splits)
    then show ?thesis using c unfolding gets_def by (metis fst_conv)
  qed
  have cw: "c = butlast c @ [NUL]" using ne g(2) by (metis append_butlast_last_id)
  have nn: "NUL \<notin> set (butlast c)" using g(1) assms(2) by auto
  have cc: "cstr c = butlast c" using cstr_at_last [OF cw nn] .
  have len: "strlen c = length (butlast c)" by (simp add: strlen_cstr cc)
  have b: "b = (if 0 < strlen c \<and> c ! (strlen c - 1) = CHR 0x0A then c[strlen c - 1 := NUL] else c)"
    using assms(1) c by (simp add: get_input_def Let_def)
  show ?thesis
  proof (cases "0 < strlen c \<and> c ! (strlen c - 1) = CHR 0x0A")
    case False
    then show ?thesis using b cc g(1) by auto
  next
    case True
    have l1: "butlast c \<noteq> []" using True len by (metis length_greater_0_conv)
    then have "last (butlast c) = butlast c ! (strlen c - 1)" using len by (simp add: last_conv_nth)
    moreover have "strlen c - 1 < length (butlast c)" using True len by linarith
    ultimately have l: "butlast c \<noteq> []" "last (butlast c) = CHR 0x0A"
      using l1 True by (simp_all add: nth_butlast)
    define w where "w = butlast (butlast c)"
    have w: "butlast c = w @ [CHR 0x0A]" using l unfolding w_def by (metis append_butlast_last_id)
    have "c = w @ [CHR 0x0A, NUL]" using cw w by simp
    moreover have "strlen c - 1 = length w" using len w by simp
    ultimately have "b = w @ [NUL, NUL]" using b True by (metis list_update_length)
    moreover have "NUL \<notin> set w" using nn w by auto
    ultimately have "cstr b = w" using cstr_append_NUL [of w "[NUL]"] by simp
    then show ?thesis using g(1) w by auto
  qed
qed

lemma get_input_line:
  assumes "NUL \<notin> set w" "CHR 0x0A \<notin> set w" "CHR 0x0D \<notin> set w" "length w < sz - 1"
  shows "snd (get_input sz (w @ CHR 0x0A # rest)) = rest" "cstr (fst (get_input sz (w @ CHR 0x0A # rest))) = w"
proof -
  have "gets_loop k (w @ CHR 0x0A # rest) = (w @ [CHR 0x0A, NUL], rest)" if "length w < k" for k
    using that assms(2,3)
  proof (induction w arbitrary: k)
    case Nil
    then show ?case by (cases k) auto
  next
    case (Cons c w)
    then show ?case by (cases k) auto
  qed
  then have g: "gets sz (w @ CHR 0x0A # rest) = (w @ [CHR 0x0A, NUL], rest)" using assms(4) by (simp add: gets_def)
  have "cstr (w @ [CHR 0x0A, NUL]) = w @ [CHR 0x0A]"
    using cstr_append_NUL [of "w @ [CHR 0x0A]" "[]"] assms(1) by simp
  then have "strlen (w @ [CHR 0x0A, NUL]) = length w + 1" by (simp add: strlen_cstr)
  then have "get_input sz (w @ CHR 0x0A # rest) = (w @ [NUL, NUL], rest)"
    using g by (simp add: get_input_def nth_append)
  then show "snd (get_input sz (w @ CHR 0x0A # rest)) = rest" "cstr (fst (get_input sz (w @ CHR 0x0A # rest))) = w"
    using cstr_append_NUL [of w "[NUL]"] assms(1) by simp_all
qed

lemma login_loop_sound:
  assumes "login_loop u p n inp = Some rest" "NUL \<notin> set inp" "NUL \<notin> set u" "NUL \<notin> set p"
  shows "\<exists>pre s t. inp = pre @ u @ s @ p @ t @ rest \<and> s \<in> {[], [CHR 0x0A]} \<and> t \<in> {[], [CHR 0x0A]}"
  using assms(1,2)
proof (induction n arbitrary: inp)
  case (Suc n)
  obtain b r where b: "get_input 20 inp = (b, r)" by fastforce
  obtain s where s: "inp = cstr b @ s @ r" "s \<in> {[], [CHR 0x0A]}" using get_input_split [OF b Suc(3)] by auto
  have nr: "NUL \<notin> set r" using s(1) Suc(3) by auto
  show ?case
  proof (cases "strcmp b u = 0")
    case False
    then have "login_loop u p n r = Some rest" using Suc(2) b by simp
    then obtain pre s' t where "r = pre @ u @ s' @ p @ t @ rest" "s' \<in> {[], [CHR 0x0A]}" "t \<in> {[], [CHR 0x0A]}"
      using Suc(1) nr by blast
    then show ?thesis using s(1) by (intro exI [of _ "cstr b @ s @ pre"] exI [of _ s'] exI [of _ t]) simp
  next
    case True
    then have cb: "cstr b = u" using assms(3) by (simp add: strcmp_zero_iff cstr_id)
    obtain d q where d: "get_input 20 r = (d, q)" by fastforce
    obtain t where t: "r = cstr d @ t @ q" "t \<in> {[], [CHR 0x0A]}" using get_input_split [OF d nr] by auto
    show ?thesis
    proof (cases "strcmp d p = 0")
      case False
      have "NUL \<notin> set q" using t(1) nr by auto
      moreover have "login_loop u p n q = Some rest" using Suc(2) b d True False by simp
      ultimately obtain pre s' t' where "q = pre @ u @ s' @ p @ t' @ rest" "s' \<in> {[], [CHR 0x0A]}" "t' \<in> {[], [CHR 0x0A]}"
        using Suc(1) by blast
      then show ?thesis using s(1) t(1)
        by (intro exI [of _ "cstr b @ s @ cstr d @ t @ pre"] exI [of _ s'] exI [of _ t']) simp
    next
      case True2: True
      then have "cstr d = p" using assms(4) by (simp add: strcmp_zero_iff cstr_id)
      moreover have "q = rest" using Suc(2) b d True True2 by simp
      ultimately show ?thesis
        using s t cb by (intro exI [of _ "[]"] exI [of _ s] exI [of _ t]) simp
    qed
  qed
qed simp

text \<open>
  C28: the login gate.  \<open>login\<close> returns only after the user name and, right after it, the password
  were typed; and typing both, each on a line of its own, opens it.
\<close>

theorem login_gate:
  assumes "NUL \<notin> set inp" and "\<forall>w \<in> {u, p}. NUL \<notin> set w \<and> CHR 0x0A \<notin> set w \<and> CHR 0x0D \<notin> set w \<and> length w < 19"
  shows "(login u p inp = Some rest \<longrightarrow>
            (\<exists>pre s t. inp = pre @ u @ s @ p @ t @ rest \<and> s \<in> {[], [CHR 0x0A]} \<and> t \<in> {[], [CHR 0x0A]})) \<and>
         login u p (u @ CHR 0x0A # p @ CHR 0x0A # inp) = Some inp"
proof
  show "login u p inp = Some rest \<longrightarrow>
      (\<exists>pre s t. inp = pre @ u @ s @ p @ t @ rest \<and> s \<in> {[], [CHR 0x0A]} \<and> t \<in> {[], [CHR 0x0A]})"
  proof
    assume "login u p inp = Some rest"
    moreover have "NUL \<notin> set u" "NUL \<notin> set p" using assms(2) by simp_all
    ultimately show "\<exists>pre s t. inp = pre @ u @ s @ p @ t @ rest \<and> s \<in> {[], [CHR 0x0A]} \<and> t \<in> {[], [CHR 0x0A]}"
      using login_loop_sound [OF _ assms(1)] unfolding login_def by blast
  qed
  have u: "snd (get_input 20 (u @ CHR 0x0A # x)) = x" "cstr (fst (get_input 20 (u @ CHR 0x0A # x))) = u"
    "snd (get_input 20 (p @ CHR 0x0A # x)) = x" "cstr (fst (get_input 20 (p @ CHR 0x0A # x))) = p" for x
    using assms(2) get_input_line [of u 20 x] get_input_line [of p 20 x] by simp_all
  have c: "cstr u = u" "cstr p = p" using assms(2) by (simp_all add: cstr_id)
  show "login u p (u @ CHR 0x0A # p @ CHR 0x0A # inp) = Some inp"
    using u c by (simp add: login_def MAX_ATTEMPTS_def numeral_3_eq_3 split_beta strcmp_zero_iff)
qed

lemma login_gate_witness:
  "login ''root'' ''pw'' (''root'' @ CHR 0x0A # ''pw'' @ CHR 0x0A # ''ls'') = Some ''ls'' \<and>
   login ''root'' ''pw'' ''ls'' = None"
proof -
  have n: "NUL \<notin> set ''ls''" and
    w: "\<forall>w \<in> {''root'', ''pw''}. NUL \<notin> set w \<and> CHR 0x0A \<notin> set w \<and> CHR 0x0D \<notin> set w \<and> length w < 19"
    by simp_all
  have "login ''root'' ''pw'' ''ls'' = None" by code_simp
  then show ?thesis using login_gate [OF n w, THEN conjunct2] by simp
qed

section \<open>System call arguments\<close>

text \<open>
  The process is described by its size, its memory and the saved stack pointer; \<open>None\<close> is the
  result \<open>-1\<close>.  All address arithmetic is on 32-bit words.
\<close>

record uproc =
  sz :: uint
  umem :: "uint \<Rightarrow> byte"
  esp :: uint

definition word_at :: "(uint \<Rightarrow> byte) \<Rightarrow> uint \<Rightarrow> uint" where
  "word_at m a = ucast (m a) + ucast (m (a + 1)) * 256 + ucast (m (a + 2)) * 65536 + ucast (m (a + 3)) * 16777216"

definition fetchint :: "uproc \<Rightarrow> uint \<Rightarrow> uint option" where
  "fetchint p addr = (if sz p \<le> addr \<or> sz p < addr + 4 then None else Some (word_at (umem p) addr))"

text \<open>The scan of \<open>fetchstr\<close>, \<open>k\<close> bytes before the end of the process.\<close>

fun str_scan :: "(uint \<Rightarrow> byte) \<Rightarrow> uint \<Rightarrow> nat \<Rightarrow> nat option" where
  "str_scan m s 0 = None"
| "str_scan m s (Suc k) = (if m s = 0 then Some 0 else map_option Suc (str_scan m (s + 1) k))"

definition fetchstr :: "uproc \<Rightarrow> uint \<Rightarrow> (uint \<times> nat) option" where
  "fetchstr p addr =
     (if sz p \<le> addr then None
      else map_option (\<lambda>n. (addr, n)) (str_scan (umem p) addr (unat (sz p) - unat addr)))"

definition argint :: "uproc \<Rightarrow> int \<Rightarrow> uint option" where
  "argint p n = fetchint p (esp p + 4 + 4 * word_of_int n)"

definition argptr :: "uproc \<Rightarrow> int \<Rightarrow> int \<Rightarrow> uint option" where
  "argptr p n len =
     (case argint p n of None \<Rightarrow> None
      | Some i \<Rightarrow> if len < 0 \<or> sz p \<le> i \<or> sz p < i + word_of_int len then None else Some i)"

definition argstr :: "uproc \<Rightarrow> int \<Rightarrow> (uint \<times> nat) option" where
  "argstr p n = (case argint p n of None \<Rightarrow> None | Some addr \<Rightarrow> fetchstr p addr)"


lemma str_scan_Some:
  assumes "str_scan m s k = Some n" "unat s + k \<le> 4294967295"
  shows "n < k \<and> m (s + of_nat n) = 0 \<and> (\<forall>j < n. m (s + of_nat j) \<noteq> 0)"
  using assms
proof (induction k arbitrary: s n)
  case (Suc k)
  show ?case
  proof (cases "m s = 0")
    case False
    then obtain i where i: "str_scan m (s + 1) k = Some i" "n = Suc i" using Suc(2) by auto
    have "unat (s + 1) = unat s + 1" using Suc(3) by (simp add: unat_add_uint)
    then have r: "i < k" "m (s + 1 + of_nat i) = 0" "\<forall>j < i. m (s + 1 + of_nat j) \<noteq> 0"
      using Suc(1) [OF i(1)] Suc(3) by simp_all
    have "m (s + of_nat j) \<noteq> 0" if "j < n" for j
      using that False r(3) i(2) by (cases j) (auto simp: ac_simps)
    then show ?thesis using r(1,2) i(2) by (simp add: ac_simps)
  qed (use Suc(2) in auto)
qed simp

text \<open>
  Pointers from user space stay there.  For a process below \<open>KERNBASE\<close>, a buffer that \<open>argptr\<close>
  accepts lies inside the process, to its last byte, and so does a string that \<open>argstr\<close> accepts,
  its NUL included; no 32-bit wrap-around gets past the checks.
\<close>

theorem args_inside:
  assumes "sz p \<le> KERNBASE"
  shows "(argptr p n len = Some a \<and> len < 2147483648 \<longrightarrow> 0 \<le> len \<and> unat a + nat len \<le> unat (sz p)) \<and>
     (argstr p n = Some (a, k) \<longrightarrow> unat a + k < unat (sz p) \<and> umem p (a + of_nat k) = 0 \<and>
        (\<forall>j < k. umem p (a + of_nat j) \<noteq> 0))"
proof (intro conjI impI)
  have kb: "unat (sz p) \<le> 2147483648" using assms by (simp add: KERNBASE_def word_le_nat_alt)
  assume a: "argptr p n len = Some a \<and> len < 2147483648"
  then have b: "0 \<le> len" "\<not> sz p \<le> a" "\<not> sz p < a + word_of_int len"
    by (auto simp: argptr_def split: option.splits if_splits)
  show "0 \<le> len" by (rule b(1))
  have u: "unat (word_of_int len :: uint) = nat len"
    using b(1) a by (simp add: unat_eq_nat_uint uint_word_of_int)
  have "unat a < unat (sz p)" using b(2) by (simp add: word_le_nat_alt)
  moreover have "nat len < 2147483648" using a b(1) by (simp add: nat_less_iff)
  ultimately have "unat (a + word_of_int len) = unat a + nat len"
    using kb u unat_add_uint [of a "word_of_int len"] by simp
  then show "unat a + nat len \<le> unat (sz p)" using b(3) by (simp add: word_less_nat_alt)
next
  have kb: "unat (sz p) \<le> 2147483648" using assms by (simp add: KERNBASE_def word_le_nat_alt)
  assume "argstr p n = Some (a, k)"
  then have f: "\<not> sz p \<le> a" "str_scan (umem p) a (unat (sz p) - unat a) = Some k"
    by (auto simp: argstr_def fetchstr_def split: option.splits if_splits)
  have l: "unat a < unat (sz p)" using f(1) by (simp add: word_le_nat_alt)
  then have "k < unat (sz p) - unat a \<and> umem p (a + of_nat k) = 0 \<and> (\<forall>j < k. umem p (a + of_nat j) \<noteq> 0)"
    using str_scan_Some [OF f(2)] kb by simp
  then show "unat a + k < unat (sz p)" "umem p (a + of_nat k) = 0" "\<forall>j < k. umem p (a + of_nat j) \<noteq> 0"
    using l by auto
qed

lemma args_inside_witness:
  "\<exists>a. argptr \<lparr>sz = 4096, umem = (\<lambda>a. if a = 4004 then 8 else 0), esp = 4000\<rparr> 0 4088 = Some a \<and>
     unat a + nat 4088 \<le> 4096"
proof -
  let ?p = "\<lparr>sz = 4096, umem = (\<lambda>a :: uint. if a = 4004 then 8 else (0 :: byte)), esp = 4000\<rparr>"
  have "argptr ?p 0 4088 = Some 8" by code_simp
  moreover have "sz ?p \<le> KERNBASE" by code_simp
  ultimately show ?thesis using args_inside [of ?p 0 4088 8] by auto
qed

end
