(* ===== verification/Xv6_Block.thy ===== *)
theory Xv6_Block
  imports Xv6_String
begin

text \<open>
  System call blocking and the command history of the enhanced shell kernel: \<open>syscall\<close> of
  \<open>syscall.c\<close>, \<open>sys_block\<close>, \<open>sys_unblock\<close> and \<open>sys_gethistory\<close> of \<open>sysproc.c\<close>, and what \<open>allocproc\<close>,
  \<open>fork\<close> and \<open>exit\<close> of \<open>proc.c\<close> do with the two.  Processes are slots of the process table; the
  rest of these functions is the process model of the scheduler kernel.
\<close>

section \<open>State\<close>

definition NSYSCALLS :: nat where "NSYSCALLS = 64"
definition MAX_HISTORY :: nat where "MAX_HISTORY = 64"
definition SYS_fork :: int where "SYS_fork = 1"
definition SYS_exit :: int where "SYS_exit = 2"
definition SYS_exec :: int where "SYS_exec = 7"

text \<open>\<open>NELEM(syscalls)\<close>: every number from 1 to 25 has a handler.\<close>

definition NELEM_syscalls :: int where "NELEM_syscalls = 26"

record eproc =
  e_pid :: int
  e_parent :: "nat option"
  e_name :: string
  e_sz :: uint
  e_unused :: bool
  e_blocked :: "bool list"

type_synonym hist_entry = "int \<times> string \<times> uint"

record ekernel =
  eprocs :: "eproc list"
  enextpid :: int
  hist :: "hist_entry list"

definition upd_eproc :: "nat \<Rightarrow> (eproc \<Rightarrow> eproc) \<Rightarrow> ekernel \<Rightarrow> ekernel" where
  "upd_eproc i f s = s\<lparr>eprocs := (eprocs s)[i := f (eprocs s ! i)]\<rparr>"

section \<open>Dispatch\<close>

datatype sysres = Blocked | Unknown | Dispatched int

definition syscall :: "nat \<Rightarrow> int \<Rightarrow> ekernel \<Rightarrow> sysres" where
  "syscall cur num s =
     (if 0 < num \<and> num < NELEM_syscalls then
        if num = 7 then
          (case e_parent (eprocs s ! cur) of
             None \<Rightarrow> Dispatched num
           | Some q \<Rightarrow>
               (case e_parent (eprocs s ! q) of
                  None \<Rightarrow> Dispatched num
                | Some r \<Rightarrow> if e_blocked (eprocs s ! r) ! nat num then Blocked else Dispatched num))
        else
          (case e_parent (eprocs s ! cur) of
             None \<Rightarrow> Dispatched num
           | Some q \<Rightarrow> if e_blocked (eprocs s ! q) ! nat num then Blocked else Dispatched num)
      else Unknown)"

text \<open>The value of \<open>argint\<close> is \<open>scid\<close>; an index outside of \<open>blocked[NSYSCALLS]\<close> is a stray write.\<close>

definition set_blocked :: "nat \<Rightarrow> int \<Rightarrow> bool \<Rightarrow> ekernel \<Rightarrow> (ekernel \<times> int) outcome" where
  "set_blocked cur scid b s =
     (if scid < 0 \<or> int NSYSCALLS \<le> scid then Panic ''out of bounds''
      else Val (upd_eproc cur (\<lambda>p. p\<lparr>e_blocked := (e_blocked p)[nat scid := b]\<rparr>) s, 0))"

definition sys_block :: "nat \<Rightarrow> int option \<Rightarrow> ekernel \<Rightarrow> (ekernel \<times> int) outcome" where
  "sys_block cur arg s =
     (case arg of None \<Rightarrow> Val (s, - 1)
      | Some scid \<Rightarrow> if scid = SYS_fork \<or> scid = SYS_exit then Val (s, - 1) else set_blocked cur scid True s)"

definition sys_unblock :: "nat \<Rightarrow> int option \<Rightarrow> ekernel \<Rightarrow> (ekernel \<times> int) outcome" where
  "sys_unblock cur arg s =
     (case arg of None \<Rightarrow> Val (s, - 1) | Some scid \<Rightarrow> set_blocked cur scid False s)"

section \<open>Processes\<close>

definition e_allocproc :: "bool \<Rightarrow> ekernel \<Rightarrow> (nat \<times> ekernel) option \<times> ekernel" where
  "e_allocproc kstack_ok s =
     (case scan e_unused (eprocs s) of
        None \<Rightarrow> (None, s)
      | Some i \<Rightarrow>
          let t = (upd_eproc i (\<lambda>p. p\<lparr>e_unused := False, e_pid := enextpid s,
                     e_blocked := replicate NSYSCALLS False\<rparr>) s)\<lparr>enextpid := enextpid s + 1\<rparr> in
          if kstack_ok then (Some (i, t), t)
          else (None, upd_eproc i (\<lambda>p. p\<lparr>e_unused := True\<rparr>) t))"

text \<open>\<open>fork\<close>: the flags say whether the kernel stack and \<open>copyuvm\<close> succeed.\<close>

definition e_fork :: "nat \<Rightarrow> bool \<Rightarrow> bool \<Rightarrow> ekernel \<Rightarrow> ekernel \<times> int" where
  "e_fork cur kstack_ok copy_ok s =
     (case e_allocproc kstack_ok s of
        (None, t) \<Rightarrow> (t, - 1)
      | (Some (i, _), t) \<Rightarrow>
          if \<not> copy_ok then (upd_eproc i (\<lambda>p. p\<lparr>e_unused := True\<rparr>) t, - 1)
          else
            let c = eprocs t ! cur;
                t = upd_eproc i (\<lambda>p. p\<lparr>e_sz := e_sz c, e_parent := Some cur,
                      e_blocked := foldl (\<lambda>b k. b[k := e_blocked c ! k]) (e_blocked p) [0..<NSYSCALLS],
                      e_name := safestrcpy (e_name p) (e_name c) 16\<rparr>) t
            in (t, e_pid (eprocs t ! i)))"

text \<open>What \<open>exit\<close> records of the process.\<close>

definition exit_log :: "eproc \<Rightarrow> hist_entry list \<Rightarrow> hist_entry list" where
  "exit_log p h =
     (if length h < MAX_HISTORY \<and> my_strcmp (e_name p) ''sh'' \<noteq> 0
      then h @ [(e_pid p, safestrcpy (replicate 16 NUL) (e_name p) 16, e_sz p)] else h)"

definition log_exit :: "nat \<Rightarrow> ekernel \<Rightarrow> ekernel" where
  "log_exit cur s = s\<lparr>hist := exit_log (eprocs s ! cur) (hist s)\<rparr>"

text \<open>The lines \<open>sys_gethistory\<close> prints: pid, name and size, in the order of recording.\<close>

definition sys_gethistory :: "ekernel \<Rightarrow> (int \<times> string \<times> int) list" where
  "sys_gethistory s = map (\<lambda>i. case hist s ! i of (pid, name, m) \<Rightarrow> (pid, cstr name, sint m)) [0..<length (hist s)]"

section \<open>Blocking\<close>

definition eproc_ok :: "ekernel \<Rightarrow> bool" where
  "eproc_ok s \<longleftrightarrow> (\<forall>i < length (eprocs s). length (e_blocked (eprocs s ! i)) = NSYSCALLS \<and>
     (case e_parent (eprocs s ! i) of None \<Rightarrow> True | Some q \<Rightarrow> q < length (eprocs s)))"

lemma upd_eproc_nth:
  "i < length (eprocs s) \<Longrightarrow> j < length (eprocs s) \<Longrightarrow>
     eprocs (upd_eproc i f s) ! j = (if j = i then f (eprocs s ! i) else eprocs s ! j)"
  by (simp add: upd_eproc_def nth_list_update)

text \<open>Who is asked about a system call of a process: its parent, for \<open>exec\<close> its grandparent.\<close>

definition guard_of :: "nat \<Rightarrow> int \<Rightarrow> ekernel \<Rightarrow> nat option" where
  "guard_of j num s =
     (if num = SYS_exec then Option.bind (e_parent (eprocs s ! j)) (\<lambda>q. e_parent (eprocs s ! q))
      else e_parent (eprocs s ! j))"

lemma syscall_guard:
  "syscall j num s =
     (if 0 < num \<and> num < NELEM_syscalls then
        case guard_of j num s of None \<Rightarrow> Dispatched num
        | Some g \<Rightarrow> if e_blocked (eprocs s ! g) ! nat num then Blocked else Dispatched num
      else Unknown)"
  by (auto simp: syscall_def guard_of_def SYS_exec_def split: option.split)


text \<open>
  An unchecked index.  \<open>block\<close> and \<open>unblock\<close> index the array of 64 flags with any number that
  user space passes, so from 64 on, and below 0, they write outside of it.
\<close>

theorem block_unchecked:
  "(\<exists>m. sys_block i (Some num) s = Panic m) \<longleftrightarrow> num < 0 \<or> 64 \<le> num"
  by (auto simp: sys_block_def set_blocked_def SYS_fork_def SYS_exit_def NSYSCALLS_def)

text \<open>A child starts with its parent's flags.\<close>

lemma copy_flags:
  "n \<le> length b \<Longrightarrow> length b \<le> length c \<Longrightarrow>
     foldl (\<lambda>b k. b[k := c ! k]) b [0..<n] = take n c @ drop n b"
proof (induction n)
  case (Suc n)
  then have "foldl (\<lambda>b k. b[k := c ! k]) b [0..<n] = take n c @ drop n b" by simp
  then show ?case
    using Suc(2,3) by (simp add: list_update_append take_Suc_conv_app_nth Cons_nth_drop_Suc [symmetric])
qed simp

text \<open>
  Children inherit the flags.  After a successful \<open>fork\<close> the new process, in a slot that was
  free, has the flags of its parent and the parent as its parent, every other process is as
  before, and the system calls of the parent are dispatched as before.
\<close>

theorem fork_inherits_blocks:
  assumes "eproc_ok s" and "cur < length (eprocs s)" and "\<not> e_unused (eprocs s ! cur)"
    and "e_fork cur True True s = (t, pid)" and "pid \<noteq> - 1"
  shows "\<exists>i < length (eprocs s). e_unused (eprocs s ! i) \<and> e_pid (eprocs t ! i) = pid \<and>
     e_blocked (eprocs t ! i) = e_blocked (eprocs s ! cur) \<and> e_parent (eprocs t ! i) = Some cur \<and>
     (\<forall>j < length (eprocs s). j \<noteq> i \<longrightarrow> eprocs t ! j = eprocs s ! j)"
proof -
  obtain i where i: "scan e_unused (eprocs s) = Some i"
    using assms(4,5) by (auto simp: e_fork_def e_allocproc_def split: option.splits)
  have il: "i < length (eprocs s)" "e_unused (eprocs s ! i)" using scan_SomeD [OF i] by simp_all
  then have ic: "i \<noteq> cur" using assms(3) by auto
  define u where "u = (upd_eproc i (\<lambda>p. p\<lparr>e_unused := False, e_pid := enextpid s,
      e_blocked := replicate NSYSCALLS False\<rparr>) s)\<lparr>enextpid := enextpid s + 1\<rparr>"
  have un: "length (eprocs u) = length (eprocs s)" "eprocs u ! j = (if j = i then (eprocs s ! i)\<lparr>e_unused := False,
      e_pid := enextpid s, e_blocked := replicate NSYSCALLS False\<rparr> else eprocs s ! j)" if "j < length (eprocs s)" for j
    using il that by (simp_all add: u_def upd_eproc_def nth_list_update)
  have lc: "length (e_blocked (eprocs s ! cur)) = 64" using assms(1,2) by (simp add: eproc_ok_def NSYSCALLS_def)
  have cp: "foldl (\<lambda>b k. b[k := e_blocked (eprocs s ! cur) ! k]) (replicate NSYSCALLS False) [0..<NSYSCALLS] =
      e_blocked (eprocs s ! cur)"
    using copy_flags [of 64 "replicate 64 False" "e_blocked (eprocs s ! cur)"] lc by (simp add: NSYSCALLS_def)
  have t: "t = upd_eproc i (\<lambda>p. p\<lparr>e_sz := e_sz (eprocs s ! cur), e_parent := Some cur,
      e_blocked := foldl (\<lambda>b k. b[k := e_blocked (eprocs s ! cur) ! k]) (e_blocked p) [0..<NSYSCALLS],
      e_name := safestrcpy (e_name p) (e_name (eprocs s ! cur)) 16\<rparr>) u" "pid = e_pid (eprocs t ! i)"
    using assms(4) i un(2) [OF assms(2)] ic
    by (auto simp: e_fork_def e_allocproc_def u_def Let_def)
  have nth: "eprocs t ! j = (if j = i then (eprocs u ! i)\<lparr>e_sz := e_sz (eprocs s ! cur), e_parent := Some cur,
      e_blocked := foldl (\<lambda>b k. b[k := e_blocked (eprocs s ! cur) ! k]) (e_blocked (eprocs u ! i)) [0..<NSYSCALLS],
      e_name := safestrcpy (e_name (eprocs u ! i)) (e_name (eprocs s ! cur)) 16\<rparr> else eprocs s ! j)"
    if "j < length (eprocs s)" for j
    unfolding t(1) using upd_eproc_nth [of i u j] il un that by simp
  have "e_blocked (eprocs t ! i) = e_blocked (eprocs s ! cur)"
    using nth [OF il(1)] un(2) [OF il(1)] cp by simp
  then show ?thesis using il nth t(2) by (intro exI [of _ i]) simp
qed

section \<open>History\<close>

definition entry_of :: "eproc \<Rightarrow> hist_entry" where
  "entry_of p = (e_pid p, safestrcpy (replicate 16 NUL) (e_name p) 16, e_sz p)"

text \<open>
  The history.  Whatever processes exit, the log holds the first 64 of them that are not
  called \<open>sh\<close>, in the order of their exits, and later ones are not recorded; the index never
  leaves the array.  The recorded name is the process's, cut to 15 characters.
\<close>

theorem history_first_exits:
  "foldl (\<lambda>h p. exit_log p h) [] ps =
     take MAX_HISTORY (map entry_of (filter (\<lambda>p. cstr (e_name p) \<noteq> ''sh'') ps)) \<and>
   (\<forall>p. cstr (fst (snd (entry_of p))) = take 15 (cstr (e_name p)))"
proof
  show "foldl (\<lambda>h p. exit_log p h) [] ps =
      take MAX_HISTORY (map entry_of (filter (\<lambda>p. cstr (e_name p) \<noteq> ''sh'') ps))"
  proof (induction ps rule: rev_induct)
    case (snoc p ps)
    have "my_strcmp (e_name p) ''sh'' = 0 \<longleftrightarrow> cstr (e_name p) = ''sh''"
      by (simp add: my_strcmp_zero_iff)
    then show ?case using snoc by (auto simp: exit_log_def entry_of_def)
  qed simp
  show "\<forall>p. cstr (fst (snd (entry_of p))) = take 15 (cstr (e_name p))"
    using safestrcpy_spec(2) [of 16 "replicate 16 NUL"] by (simp add: entry_of_def)
qed

section \<open>A small table\<close>

definition ex_eproc :: "nat option \<Rightarrow> eproc" where
  "ex_eproc q = \<lparr>e_pid = 1, e_parent = q, e_name = ''sh'', e_sz = 0, e_unused = False,
     e_blocked = replicate 64 False\<rparr>"

definition ex_ekernel :: ekernel where
  "ex_ekernel = \<lparr>eprocs = [ex_eproc None, ex_eproc (Some 0), ex_eproc (Some 1), (ex_eproc None)\<lparr>e_unused := True\<rparr>],
     enextpid = 5, hist = []\<rparr>"


lemma fork_inherits_blocks_witness:
  "\<exists>t. e_fork 1 True True ex_ekernel = (t, 5) \<and>
     (\<exists>i < 4. e_unused (eprocs ex_ekernel ! i) \<and> e_parent (eprocs t ! i) = Some 1)"
proof -
  have ok: "eproc_ok ex_ekernel" "1 < length (eprocs ex_ekernel)" "\<not> e_unused (eprocs ex_ekernel ! 1)"
    "length (eprocs ex_ekernel) = 4"
    by code_simp+
  have p: "snd (e_fork 1 True True ex_ekernel) = 5" by code_simp
  obtain t where t: "e_fork 1 True True ex_ekernel = (t, 5)" using p by (metis prod.collapse)
  show ?thesis using fork_inherits_blocks [OF ok(1-3) t] t ok(4) by auto
qed

end
