(* ===== verification/Xv6_Kalloc.thy ===== *)
theory Xv6_Kalloc
  imports Xv6_String
begin

text \<open>
  Physical memory and its page allocator (\<open>kalloc.c\<close>, the same in the Enhanced-Shell and the
  Signal-Scheduler kernels).  Physical memory is a function from physical addresses to bytes; the
  free list is threaded through the free pages themselves, as \<open>struct run\<close> has it.
\<close>

unbundle bit_operations_syntax

section \<open>Addresses\<close>

definition PHYSTOP :: uint where "PHYSTOP = 0xE000000"
definition PGSIZE :: nat where "PGSIZE = 4096"

definition V2P :: "uint \<Rightarrow> uint" where "V2P a = a - KERNBASE"
definition P2V :: "uint \<Rightarrow> uint" where "P2V a = a + KERNBASE"

definition PGROUNDUP :: "uint \<Rightarrow> uint" where "PGROUNDUP a = (a + 4095) AND NOT 4095"
definition PGROUNDDOWN :: "uint \<Rightarrow> uint" where "PGROUNDDOWN a = a AND NOT 4095"

text \<open>The kernel reads and writes physical memory through its window at \<open>KERNBASE\<close>.\<close>

definition phys :: "uint \<Rightarrow> nat" where "phys v = unat (V2P v)"

definition ld32 :: "memory \<Rightarrow> nat \<Rightarrow> uint" where
  "ld32 m a =
     or (ucast (m a)) (or (push_bit 8 (ucast (m (a + 1))))
       (or (push_bit 16 (ucast (m (a + 2)))) (push_bit 24 (ucast (m (a + 3))))))"

definition st32 :: "nat \<Rightarrow> uint \<Rightarrow> memory \<Rightarrow> memory" where
  "st32 a w m = m(a := ucast w, a + 1 := ucast (drop_bit 8 w), a + 2 := ucast (drop_bit 16 w),
     a + 3 := ucast (drop_bit 24 w))"

lemma word_bytes:
  fixes w :: uint
  shows "or (ucast (ucast w :: byte)) (or (push_bit 8 (ucast (ucast (drop_bit 8 w) :: byte)))
     (or (push_bit 16 (ucast (ucast (drop_bit 16 w) :: byte)))
         (push_bit 24 (ucast (ucast (drop_bit 24 w) :: byte))))) = w" (is "?l = w")
proof (rule bit_word_eqI)
  fix n assume n: "n < LENGTH(32)"
  then consider "n < 8" | "8 \<le> n" "n < 16" | "16 \<le> n" "n < 24" | "24 \<le> n" "n < 32" by fastforce
  then show "bit ?l n = bit w n"
    by cases (use n in \<open>auto simp: bit_simps\<close>)
qed

lemma ld32_st32 [simp]: "ld32 (st32 a w m) a = w"
  by (simp add: ld32_def st32_def word_bytes)

lemma ld32_st32_other: "b + 4 \<le> a \<or> a + 4 \<le> b \<Longrightarrow> ld32 (st32 a w m) b = ld32 m b"
  by (auto simp: ld32_def st32_def)

lemma ld32_st32_slot:
  "ld32 (st32 (a + 4 * j) w m) (a + 4 * k) = (if k = j then w else ld32 m (a + 4 * k))"
  by (cases "k = j") (auto intro!: ld32_st32_other)

lemma st32_other: "b < a \<or> a + 4 \<le> b \<Longrightarrow> st32 a w m b = m b"
  by (auto simp: st32_def)

lemma ld32_cong: "(\<And>k. k < 4 \<Longrightarrow> m (a + k) = m' (a + k)) \<Longrightarrow> ld32 m a = ld32 m' a"
proof -
  assume e: "\<And>k. k < 4 \<Longrightarrow> m (a + k) = m' (a + k)"
  show ?thesis using e [of 0] e [of 1] e [of 2] e [of 3] by (simp add: ld32_def)
qed

section \<open>The allocator\<close>

text \<open>\<open>kend\<close> is the linker's symbol \<open>end\<close>, the first address after the kernel.\<close>

record kstate =
  pm :: memory
  freelist :: uint
  kend :: uint

definition kfree :: "uint \<Rightarrow> 'a kstate_scheme \<Rightarrow> 'a kstate_scheme outcome" where
  "kfree v s =
     (if unat v mod PGSIZE \<noteq> 0 \<or> v < kend s \<or> PHYSTOP \<le> V2P v then Panic ''kfree''
      else Val (s\<lparr>pm := st32 (phys v) (freelist s) (memset (pm s) (phys v) 1 PGSIZE), freelist := v\<rparr>))"

text \<open>The null pointer is 0.\<close>

definition kalloc :: "'a kstate_scheme \<Rightarrow> uint \<times> 'a kstate_scheme" where
  "kalloc s = (freelist s, if freelist s \<noteq> 0 then s\<lparr>freelist := ld32 (pm s) (phys (freelist s))\<rparr> else s)"

text \<open>\<open>freerange\<close>: the loop runs at most once for every page of memory.\<close>

function freerange_loop :: "uint \<Rightarrow> uint \<Rightarrow> 'a kstate_scheme \<Rightarrow> 'a kstate_scheme outcome" where
  "freerange_loop p vend s =
     (if unat p + PGSIZE \<le> unat vend then andthen (kfree p s) (freerange_loop (p + of_nat PGSIZE) vend) else Val s)"
  by pat_completeness auto
termination
proof (relation "measure (\<lambda>(p, vend, s). unat vend - unat p)")
  fix p vend :: uint and s t :: "'a kstate_scheme"
  assume "unat p + PGSIZE \<le> unat vend"
  moreover from this have "unat p + 4096 < 4294967296" using unat_lt_32 [of vend] unfolding PGSIZE_def by linarith
  ultimately show "((p + of_nat PGSIZE, vend, t), p, vend, s) \<in> measure (\<lambda>(p, vend, s). unat vend - unat p)"
    by (simp add: PGSIZE_def unat_add_uint)
qed simp

declare freerange_loop.simps [simp del]

definition freerange :: "uint \<Rightarrow> uint \<Rightarrow> 'a kstate_scheme \<Rightarrow> 'a kstate_scheme outcome" where
  "freerange vstart vend s = freerange_loop (PGROUNDUP vstart) vend s"

section \<open>The contract\<close>

text \<open>
  What users of an allocator rely on: \<open>ok s vs\<close> says that \<open>vs\<close> are the pages it can still hand out.
\<close>

locale page_pool =
  fixes ok :: "'s \<Rightarrow> 'p list \<Rightarrow> bool"
    and alloc :: "'s \<Rightarrow> 'p option \<times> 's"
    and free :: "'p \<Rightarrow> 's \<Rightarrow> 's outcome"
    and valid :: "'s \<Rightarrow> 'p \<Rightarrow> bool"
  assumes distinct_pages: "ok s vs \<Longrightarrow> distinct vs"
    and alloc_empty: "ok s [] \<Longrightarrow> alloc s = (None, s)"
    and alloc_page: "ok s (v # vs) \<Longrightarrow> \<exists>t. alloc s = (Some v, t) \<and> ok t vs \<and> valid t = valid s"
    and free_page: "ok s vs \<Longrightarrow> valid s v \<Longrightarrow> v \<notin> set vs \<Longrightarrow> \<exists>t. free v s = Val t \<and> ok t (v # vs) \<and> valid t = valid s"
begin

lemma free_then_alloc:
  assumes "ok s vs" "valid s v" "v \<notin> set vs"
  shows "\<exists>t u. free v s = Val t \<and> alloc t = (Some v, u) \<and> ok u vs"
  using free_page [OF assms] alloc_page by blast

lemma alloc_fresh: "ok s vs \<Longrightarrow> alloc s = (Some v, t) \<Longrightarrow> v \<notin> set (tl vs) \<and> ok t (tl vs)"
proof -
  assume a: "ok s vs" "alloc s = (Some v, t)"
  then obtain w ws where vs: "vs = w # ws" using alloc_empty by (cases vs) auto
  then show ?thesis using a alloc_page [of s w ws] distinct_pages [OF a(1)] by auto
qed

lemma frees:
  assumes "ok s vs" "distinct ps" "\<forall>p \<in> set ps. valid s p" "set ps \<inter> set vs = {}"
  shows "\<exists>t. each free ps s = Val t \<and> ok t (rev ps @ vs) \<and> valid t = valid s"
  using assms
proof (induction ps arbitrary: s vs)
  case (Cons p ps)
  then obtain t where t: "free p s = Val t" "ok t (p # vs)" "valid t = valid s"
    using free_page [of s vs p] by auto
  then obtain u where "each free ps t = Val u \<and> ok u (rev ps @ p # vs) \<and> valid u = valid t"
    using Cons(1) [OF t(2)] Cons(3-5) by auto
  then show ?case using t by auto
qed auto

end

section \<open>The free list implements it\<close>

fun chain :: "memory \<Rightarrow> uint \<Rightarrow> uint list \<Rightarrow> bool" where
  "chain m h [] \<longleftrightarrow> h = 0"
| "chain m h (v # vs) \<longleftrightarrow> h = v \<and> v \<noteq> 0 \<and> chain m (ld32 m (phys v)) vs"

text \<open>A page the allocator may own: aligned, between the kernel's end and \<open>PHYSTOP\<close>.\<close>

definition page_ok :: "uint \<Rightarrow> uint \<Rightarrow> bool" where
  "page_ok e v \<longleftrightarrow> unat v mod PGSIZE = 0 \<and> KERNBASE \<le> v \<and> e \<le> v \<and> unat v < unat KERNBASE + unat PHYSTOP"

definition free_ok :: "'a kstate_scheme \<Rightarrow> uint list \<Rightarrow> bool" where
  "free_ok s vs \<longleftrightarrow> KERNBASE \<le> kend s \<and> chain (pm s) (freelist s) vs \<and> distinct vs \<and> (\<forall>v \<in> set vs. page_ok (kend s) v)"

abbreviation valid_page :: "'a kstate_scheme \<Rightarrow> uint \<Rightarrow> bool" where
  "valid_page s \<equiv> page_ok (kend s)"

definition kalloc_opt :: "'a kstate_scheme \<Rightarrow> uint option \<times> 'a kstate_scheme" where
  "kalloc_opt s = (case kalloc s of (v, t) \<Rightarrow> (if v = 0 then None else Some v, t))"

lemma page_ok_phys:
  assumes "page_ok e v"
  shows "phys v = unat v - 2147483648" "phys v mod PGSIZE = 0" "phys v + PGSIZE \<le> 234881024" "\<not> PHYSTOP \<le> V2P v" "v \<noteq> 0"
proof -
  have v: "2147483648 \<le> unat v" "unat v < 2147483648 + 234881024" "unat v mod 4096 = 0"
    using assms by (simp_all add: page_ok_def KERNBASE_def PHYSTOP_def PGSIZE_def word_le_nat_alt)
  then show p: "phys v = unat v - 2147483648"
    by (simp add: phys_def V2P_def KERNBASE_def unat_sub_uint)
  obtain q where q: "unat v = 4096 * q" using v(3) by (meson mod_0_imp_dvd dvdE)
  have d: "phys v = 4096 * (q - 524288)" using p q by (simp add: diff_mult_distrib2)
  then show "phys v mod PGSIZE = 0" by (simp add: PGSIZE_def)
  have "q < 581632" using q v(2) by simp
  then show "phys v + PGSIZE \<le> 234881024" using d by (simp add: PGSIZE_def)
  show "\<not> PHYSTOP \<le> V2P v" using p v(1,2) by (simp add: phys_def PHYSTOP_def word_le_nat_alt)
  show "v \<noteq> 0" using v(1) by auto
qed

text \<open>Different pages do not overlap.\<close>

lemma pages_apart:
  assumes "page_ok e v" "page_ok e w" "v \<noteq> w"
  shows "phys v + PGSIZE \<le> phys w \<or> phys w + PGSIZE \<le> phys v"
proof -
  note a = page_ok_phys [OF assms(1)] and b = page_ok_phys [OF assms(2)]
  have "unat v \<noteq> unat w" using assms(3) by (metis word_unat_eq_iff)
  moreover have "2147483648 \<le> unat v" "2147483648 \<le> unat w"
    using assms by (simp_all add: page_ok_def KERNBASE_def word_le_nat_alt)
  ultimately have ne: "phys v \<noteq> phys w" using a(1) b(1) by simp
  obtain p q where "phys v = 4096 * p" "phys w = 4096 * q"
    using a(2) b(2) by (metis PGSIZE_def mod_0_imp_dvd dvdE)
  moreover from this ne have "p < q \<or> q < p" by auto
  ultimately show ?thesis unfolding PGSIZE_def by auto
qed

lemma chain_cong:
  "chain m h vs \<Longrightarrow> (\<And>v. v \<in> set vs \<Longrightarrow> ld32 m' (phys v) = ld32 m (phys v)) \<Longrightarrow> chain m' h vs"
  by (induction vs arbitrary: h) auto

text \<open>Writes that keep off the free pages keep the list.\<close>

lemma free_ok_mem:
  assumes "free_ok s vs" "\<And>v k. v \<in> set vs \<Longrightarrow> k < PGSIZE \<Longrightarrow> m (phys v + k) = pm s (phys v + k)"
  shows "free_ok (s\<lparr>pm := m\<rparr>) vs"
proof -
  have "ld32 m (phys v) = ld32 (pm s) (phys v)" if "v \<in> set vs" for v
    by (rule ld32_cong) (use assms(2) [OF that] in \<open>simp add: PGSIZE_def\<close>)
  then show ?thesis using assms(1) chain_cong [of "pm s" "freelist s" vs m] by (simp add: free_ok_def)
qed

lemma kfree_ok:
  assumes ok: "free_ok s vs" and v: "page_ok (kend s) v" "v \<notin> set vs"
  obtains t where "kfree v s = Val t" "free_ok t (v # vs)" "kend t = kend s"
    "\<And>a. a < phys v \<or> phys v + PGSIZE \<le> a \<Longrightarrow> pm t a = pm s a"
proof -
  let ?m = "st32 (phys v) (freelist s) (memset (pm s) (phys v) 1 PGSIZE)"
  have off: "?m a = pm s a" if "a < phys v \<or> phys v + PGSIZE \<le> a" for a
    using that by (auto simp: st32_def memset_eq filled_def PGSIZE_def)
  have "\<not> (unat v mod PGSIZE \<noteq> 0 \<or> v < kend s \<or> PHYSTOP \<le> V2P v)"
    using v(1) page_ok_phys(4) [OF v(1)] by (auto simp: page_ok_def)
  then have f: "kfree v s = Val (s\<lparr>pm := ?m, freelist := v\<rparr>)" unfolding kfree_def by (rule if_not_P)
  have ne: "w \<noteq> v" if "w \<in> set vs" for w using that v(2) by auto
  have "ld32 ?m (phys w) = ld32 (pm s) (phys w)" if "w \<in> set vs" for w
  proof (rule ld32_cong)
    fix k :: nat assume "k < 4"
    then show "?m (phys w + k) = pm s (phys w + k)"
      using pages_apart [OF v(1), of w] ok that ne [OF that]
      by (intro off) (auto simp: free_ok_def PGSIZE_def)
  qed
  then have "chain ?m (freelist s) vs" using ok chain_cong unfolding free_ok_def by blast
  then have "free_ok (s\<lparr>pm := ?m, freelist := v\<rparr>) (v # vs)"
    using ok v page_ok_phys(5) [OF v(1)] by (simp add: free_ok_def)
  then show thesis using that f off by simp
qed

lemma kalloc_ok:
  assumes "free_ok s (v # vs)"
  shows "kalloc s = (v, s\<lparr>freelist := ld32 (pm s) (phys v)\<rparr>)" "free_ok (s\<lparr>freelist := ld32 (pm s) (phys v)\<rparr>) vs"
    "v \<noteq> 0"
  using assms by (simp_all add: free_ok_def kalloc_def)

lemma kalloc_empty: "free_ok s [] \<Longrightarrow> kalloc s = (0, s)"
  by (simp add: free_ok_def kalloc_def)

interpretation kpages: page_pool free_ok kalloc_opt kfree valid_page
proof
  show "free_ok s vs \<Longrightarrow> distinct vs" for s :: "'a kstate_scheme" and vs by (simp add: free_ok_def)
  show "free_ok s [] \<Longrightarrow> kalloc_opt s = (None, s)" for s :: "'a kstate_scheme"
    by (simp add: kalloc_opt_def kalloc_empty)
  show "free_ok s (v # vs) \<Longrightarrow> \<exists>t. kalloc_opt s = (Some v, t) \<and> free_ok t vs \<and> valid_page t = valid_page s"
    for s :: "'a kstate_scheme" and v vs
    using kalloc_ok [of s v vs] by (simp add: kalloc_opt_def)
  show "free_ok s vs \<Longrightarrow> valid_page s v \<Longrightarrow> v \<notin> set vs \<Longrightarrow>
      \<exists>t. kfree v s = Val t \<and> free_ok t (v # vs) \<and> valid_page t = valid_page s"
    for s :: "'a kstate_scheme" and v vs
    using kfree_ok by metis
qed

section \<open>Filling the pool\<close>

lemma round_down_shift: "(a :: uint) AND NOT 4095 = push_bit 12 (drop_bit 12 a)"
proof -
  have m: "(4095 :: uint) = mask 12" by (simp add: mask_eq_exp_minus_1)
  show ?thesis unfolding m by (rule bit_word_eqI) (auto simp: bit_simps)
qed

lemma unat_shift12: "unat (push_bit 12 (drop_bit 12 a) :: uint) = take_bit 32 (push_bit 12 (drop_bit 12 (unat a)))"
  by (simp only: unsigned_push_bit_eq unat_drop_bit_eq) simp

lemma take_shift12: "take_bit 32 (push_bit 12 (drop_bit 12 (n :: nat))) = n div 4096 * 4096 mod 4294967296"
  by (simp add: push_bit_eq_mult drop_bit_eq_div take_bit_eq_mod)

lemma unat_round_down: "unat (a AND NOT 4095 :: uint) = unat a div 4096 * 4096"
  unfolding round_down_shift unat_shift12 take_shift12
  by (rule mod_less, rule le_less_trans, rule div_times_less_eq_dividend, rule unat_lt_32)

lemma PGROUNDUP_props:
  assumes "unat a + 4095 < 4294967296"
  shows "unat (PGROUNDUP a) mod 4096 = 0" "unat a \<le> unat (PGROUNDUP a)" "unat (PGROUNDUP a) < unat a + 4096"
proof -
  have "unat (a + 4095) = unat a + 4095" using assms by (simp add: unat_add_uint)
  then have r: "unat (PGROUNDUP a) = (unat a + 4095) div 4096 * 4096" by (simp only: PGROUNDUP_def unat_round_down)
  show "unat (PGROUNDUP a) mod 4096 = 0" by (simp add: r)
  have "(unat a + 4095) div 4096 * 4096 + (unat a + 4095) mod 4096 = unat a + 4095" "(unat a + 4095) mod 4096 < 4096"
    by simp_all
  then show "unat a \<le> unat (PGROUNDUP a)" "unat (PGROUNDUP a) < unat a + 4096" unfolding r by linarith+
qed

text \<open>The whole pages between two addresses.\<close>

definition pages_between :: "uint \<Rightarrow> uint \<Rightarrow> uint list" where
  "pages_between p vend = map (\<lambda>i. p + of_nat (4096 * i)) [0..<(unat vend - unat p) div 4096]"

lemma pages_between_step:
  assumes "unat p + 4096 \<le> unat vend"
  shows "pages_between p vend = p # pages_between (p + 4096) vend"
proof -
  have p1: "unat (p + 4096) = unat p + 4096"
    using assms unat_lt_32 [of vend] by (simp add: unat_add_uint del: unat_lt_32)
  have "unat vend - unat p = 4096 + (unat vend - (unat p + 4096))" using assms by simp
  then have "(unat vend - unat p) div 4096 = Suc ((unat vend - (unat p + 4096)) div 4096)"
    by (simp only:)
  then show ?thesis
    unfolding pages_between_def p1
    by (simp add: upt_conv_Cons map_Suc_upt [symmetric] comp_def algebra_simps del: upt_Suc)
qed

lemma freerange_each: "freerange_loop p vend s = each kfree (pages_between p vend) s"
proof (induction p vend s rule: freerange_loop.induct)
  case (1 p vend s)
  show ?case
  proof (cases "unat p + PGSIZE \<le> unat vend")
    case True
    have "andthen (kfree p s) (freerange_loop (p + of_nat PGSIZE) vend) =
        andthen (kfree p s) (each kfree (pages_between (p + 4096) vend))"
      using 1 True by (cases "kfree p s") (simp_all add: PGSIZE_def)
    then show ?thesis
      using True by (subst freerange_loop.simps) (simp add: pages_between_step PGSIZE_def)
  next
    case False
    then show ?thesis by (subst freerange_loop.simps) (simp add: pages_between_def PGSIZE_def)
  qed
qed

lemma pages_between_nth:
  assumes "v \<in> set (pages_between p vend)"
  shows "unat p \<le> unat v" "unat v + 4096 \<le> unat vend" "unat v mod 4096 = unat p mod 4096"
proof -
  obtain i where i: "i < (unat vend - unat p) div 4096" "v = p + of_nat (4096 * i)"
    using assms by (auto simp: pages_between_def)
  have "4096 * Suc i \<le> 4096 * ((unat vend - unat p) div 4096)" using i(1) by simp
  also have "\<dots> \<le> unat vend - unat p" by simp
  finally have b: "unat p + 4096 * i + 4096 \<le> unat vend" by simp
  have "unat v = unat p + 4096 * i"
    using b unat_lt_32 [of vend] i(2) by (simp add: unat_add_uint unat_of_nat del: unat_lt_32 of_nat_mult)
  then show "unat p \<le> unat v" "unat v + 4096 \<le> unat vend" "unat v mod 4096 = unat p mod 4096" using b by simp_all
qed

lemma distinct_pages_between: "distinct (pages_between p vend)"
proof -
  have "i = j" if "i < (unat vend - unat p) div 4096" "j < (unat vend - unat p) div 4096"
    "p + of_nat (4096 * i) = p + of_nat (4096 * j)" for i j
  proof -
    have "4096 * ((unat vend - unat p) div 4096) \<le> unat vend - unat p" by simp
    then have "4096 * ((unat vend - unat p) div 4096) \<le> 4294967296"
      using unat_lt_32 [of vend] by linarith
    then have b: "4096 * i < 4294967296" "4096 * j < 4294967296" using that(1,2) by linarith+
    have "(of_nat (4096 * i) :: uint) = of_nat (4096 * j)" using that(3) by simp
    then have "unat (of_nat (4096 * i) :: uint) = unat (of_nat (4096 * j) :: uint)" by (rule arg_cong)
    then show ?thesis using b by (simp add: unat_of_nat take_bit_nat_eq_self del: of_nat_mult)
  qed
  then show ?thesis by (auto simp: pages_between_def distinct_map inj_on_def)
qed

text \<open>
  The boot of \<open>kinit\<close>.  \<open>freerange\<close> gives the allocator exactly the whole pages between the two addresses,
  each once, and what was free before stays free.
\<close>

theorem freerange_frees:
  assumes "free_ok s vs" and "kend s \<le> vstart" and "unat vstart + 4095 < 4294967296"
    and "unat vend \<le> unat KERNBASE + unat PHYSTOP"
    and "\<forall>v \<in> set vs. unat v + 4096 \<le> unat vstart \<or> unat vend \<le> unat v"
  shows "\<exists>t. freerange vstart vend s = Val t \<and> free_ok t (rev (pages_between (PGROUNDUP vstart) vend) @ vs)"
proof -
  note r = PGROUNDUP_props [OF assms(3)]
  let ?ps = "pages_between (PGROUNDUP vstart) vend"
  have "KERNBASE \<le> kend s" using assms(1) by (simp add: free_ok_def)
  then have k: "unat KERNBASE \<le> unat (kend s)" "unat (kend s) \<le> unat vstart"
    using assms(2) by (simp_all add: word_le_nat_alt)
  have v: "valid_page s p" if "p \<in> set ?ps" for p
    using pages_between_nth [OF that] r assms(4) k by (auto simp: page_ok_def word_le_nat_alt PGSIZE_def)
  have "p \<notin> set vs" if "p \<in> set ?ps" for p
    using pages_between_nth [OF that] r(2) assms(5) by fastforce
  then have "set ?ps \<inter> set vs = {}" by blast
  then show ?thesis
    using kpages.frees [OF assms(1) distinct_pages_between _ , of "PGROUNDUP vstart" vend] v
    unfolding freerange_def freerange_each by blast
qed

text \<open>
  C30: the allocator.  Whatever the pages are that it holds, \<open>kalloc\<close> takes one of them out of the
  pool and leaves memory alone, or returns 0 when there is none; \<open>kfree\<close> of a page that is not in
  the pool puts it in, writing into that page only, so that the next \<open>kalloc\<close> returns it.
\<close>

theorem kalloc_kfree:
  assumes "free_ok s vs"
  shows "(case vs of [] \<Rightarrow> kalloc s = (0, s)
      | v # ws \<Rightarrow> \<exists>t. kalloc s = (v, t) \<and> v \<noteq> 0 \<and> v \<notin> set ws \<and> free_ok t ws \<and> pm t = pm s) \<and>
    (page_ok (kend s) v \<and> v \<notin> set vs \<longrightarrow>
      (\<exists>t u. kfree v s = Val t \<and> free_ok t (v # vs) \<and> kalloc t = (v, u) \<and>
         (\<forall>a. a < phys v \<or> phys v + PGSIZE \<le> a \<longrightarrow> pm t a = pm s a)))"
proof
  show "case vs of [] \<Rightarrow> kalloc s = (0, s)
      | v # ws \<Rightarrow> \<exists>t. kalloc s = (v, t) \<and> v \<noteq> 0 \<and> v \<notin> set ws \<and> free_ok t ws \<and> pm t = pm s"
  proof (cases vs)
    case (Cons v ws)
    then show ?thesis
      using kalloc_ok [of s v ws] assms kpages.distinct_pages [OF assms] by simp
  qed (use assms kalloc_empty in simp)
  show "page_ok (kend s) v \<and> v \<notin> set vs \<longrightarrow>
      (\<exists>t u. kfree v s = Val t \<and> free_ok t (v # vs) \<and> kalloc t = (v, u) \<and>
         (\<forall>a. a < phys v \<or> phys v + PGSIZE \<le> a \<longrightarrow> pm t a = pm s a))"
  proof
    assume a: "page_ok (kend s) v \<and> v \<notin> set vs"
    obtain t where t: "kfree v s = Val t" "free_ok t (v # vs)"
      "\<And>a. a < phys v \<or> phys v + PGSIZE \<le> a \<Longrightarrow> pm t a = pm s a"
      by (rule kfree_ok [OF assms, of v]) (use a in auto)
    then show "\<exists>t u. kfree v s = Val t \<and> free_ok t (v # vs) \<and> kalloc t = (v, u) \<and>
         (\<forall>a. a < phys v \<or> phys v + PGSIZE \<le> a \<longrightarrow> pm t a = pm s a)"
      using kalloc_ok(1) [OF t(2)] by blast
  qed
qed

section \<open>A pool of two pages\<close>

definition ex_kstate :: kstate where
  "ex_kstate = \<lparr>pm = (\<lambda>a. 0), freelist = 0, kend = 0x80100000\<rparr>"

lemma ex_kstate_ok: "free_ok ex_kstate []"
  by (simp add: free_ok_def ex_kstate_def KERNBASE_def)

lemma freerange_frees_witness:
  "\<exists>t. freerange 0x80100001 0x80103FFF ex_kstate = Val t \<and> free_ok t [0x80102000, 0x80101000]"
proof -
  have "PGROUNDUP 0x80100001 = 0x80101000" by (simp add: PGROUNDUP_def)
  then have p: "pages_between (PGROUNDUP 0x80100001) 0x80103FFF = [0x80101000, 0x80102000]"
    by (simp add: pages_between_step) (simp add: pages_between_def)
  have "kend ex_kstate \<le> 0x80100001" "unat (0x80103FFF :: uint) \<le> unat KERNBASE + unat PHYSTOP"
    by (simp_all add: ex_kstate_def KERNBASE_def PHYSTOP_def)
  then show ?thesis
    using freerange_frees [OF ex_kstate_ok, of "0x80100001" "0x80103FFF"] by (simp add: p)
qed

lemma kalloc_kfree_witness:
  "kalloc ex_kstate = (0, ex_kstate) \<and> (\<exists>t u. kfree 0x80101000 ex_kstate = Val t \<and> kalloc t = (0x80101000, u))"
proof -
  have "page_ok (kend ex_kstate) 0x80101000"
    by (simp add: page_ok_def ex_kstate_def PGSIZE_def KERNBASE_def PHYSTOP_def)
  then show ?thesis using kalloc_kfree [OF ex_kstate_ok, of "0x80101000"] by auto
qed

end
