(* ===== verification/Xv6_Vm.thy ===== *)
theory Xv6_Vm
  imports Xv6_Kalloc
begin

text \<open>
  Virtual memory (\<open>vm.c\<close>, the same in the Enhanced-Shell and the Signal-Scheduler kernels), on the
  byte-level memory of the page allocator: directories and tables are pages whose words the
  hardware reads.  A pointer is the kernel address that the code computes; \<open>*p\<close> is \<open>rd32 p\<close>.
\<close>

unbundle bit_operations_syntax

section \<open>Entries and addresses\<close>

definition PTE_P :: uint where "PTE_P = 1"
definition PTE_W :: uint where "PTE_W = 2"
definition PTE_U :: uint where "PTE_U = 4"

definition PTE_ADDR :: "uint \<Rightarrow> uint" where "PTE_ADDR pte = pte AND NOT 0xFFF"
definition PTE_FLAGS :: "uint \<Rightarrow> uint" where "PTE_FLAGS pte = pte AND 0xFFF"

definition PDX :: "uint \<Rightarrow> uint" where "PDX va = drop_bit 22 va AND 0x3FF"
definition PTX :: "uint \<Rightarrow> uint" where "PTX va = drop_bit 12 va AND 0x3FF"

definition PGADDR :: "uint \<Rightarrow> uint \<Rightarrow> uint \<Rightarrow> uint" where
  "PGADDR d t off = push_bit 22 d OR push_bit 12 t OR off"

definition EXTMEM :: uint where "EXTMEM = 0x100000"
definition DEVSPACE :: uint where "DEVSPACE = 0xFE000000"
definition KERNLINK :: uint where "KERNLINK = KERNBASE + EXTMEM"

definition rd32 :: "uint \<Rightarrow> 'a kstate_scheme \<Rightarrow> uint" where
  "rd32 v s = ld32 (pm s) (phys v)"

definition wr32 :: "uint \<Rightarrow> uint \<Rightarrow> 'a kstate_scheme \<Rightarrow> 'a kstate_scheme" where
  "wr32 v w s = s\<lparr>pm := st32 (phys v) w (pm s)\<rparr>"

definition zero_page :: "uint \<Rightarrow> 'a kstate_scheme \<Rightarrow> 'a kstate_scheme" where
  "zero_page v s = s\<lparr>pm := memset (pm s) (phys v) 0 PGSIZE\<rparr>"

section \<open>Page tables\<close>

text \<open>A pointer result is the address, 0 for the null pointer.\<close>

definition walkpgdir :: "uint \<Rightarrow> uint \<Rightarrow> bool \<Rightarrow> 'a kstate_scheme \<Rightarrow> uint \<times> 'a kstate_scheme" where
  "walkpgdir pgdir va alloc s =
     (let pde = pgdir + 4 * PDX va
      in if rd32 pde s AND PTE_P \<noteq> 0
         then (P2V (PTE_ADDR (rd32 pde s)) + 4 * PTX va, s)
         else if \<not> alloc then (0, s)
         else case kalloc s of (pgtab, s1) \<Rightarrow>
           if pgtab = 0 then (0, s1)
           else (pgtab + 4 * PTX va,
                 wr32 pde (V2P pgtab OR PTE_P OR PTE_W OR PTE_U) (zero_page pgtab s1)))"

text \<open>
  The first argument bounds the number of rounds; \<open>Asleep\<close> stands for a loop that has not returned
  within it.  \<open>mappages\<close> passes the number of pages, which is enough since both addresses are aligned.
\<close>

fun mappages_loop :: "nat \<Rightarrow> uint \<Rightarrow> uint \<Rightarrow> uint \<Rightarrow> uint \<Rightarrow> uint \<Rightarrow> 'a kstate_scheme
    \<Rightarrow> (int \<times> 'a kstate_scheme) outcome" where
  "mappages_loop 0 pgdir a lastp pa perm s = Asleep"
| "mappages_loop (Suc n) pgdir a lastp pa perm s =
     (case walkpgdir pgdir a True s of (pte, s1) \<Rightarrow>
        if pte = 0 then Val (- 1, s1)
        else if rd32 pte s1 AND PTE_P \<noteq> 0 then Panic ''remap''
        else let s2 = wr32 pte (pa OR perm OR PTE_P) s1
             in if a = lastp then Val (0, s2)
                else mappages_loop n pgdir (a + of_nat PGSIZE) lastp (pa + of_nat PGSIZE) perm s2)"

definition mappages :: "uint \<Rightarrow> uint \<Rightarrow> uint \<Rightarrow> uint \<Rightarrow> uint \<Rightarrow> 'a kstate_scheme
    \<Rightarrow> (int \<times> 'a kstate_scheme) outcome" where
  "mappages pgdir va sz pa perm s =
     (let a = PGROUNDDOWN va; lastp = PGROUNDDOWN (va + sz - 1)
      in mappages_loop (Suc (unat (lastp - a) div PGSIZE)) pgdir a lastp pa perm s)"

section \<open>User memory\<close>

text \<open>A missing table is skipped: the next round starts at the first page of the next one.\<close>

fun deallocuvm_loop :: "nat \<Rightarrow> uint \<Rightarrow> uint \<Rightarrow> uint \<Rightarrow> 'a kstate_scheme \<Rightarrow> 'a kstate_scheme outcome" where
  "deallocuvm_loop n pgdir a oldsz s =
     (if \<not> a < oldsz then Val s
      else case n of 0 \<Rightarrow> Asleep | Suc k \<Rightarrow>
        (case walkpgdir pgdir a False s of (pte, s1) \<Rightarrow>
           if pte = 0
           then deallocuvm_loop k pgdir (PGADDR (PDX a + 1) 0 0 - of_nat PGSIZE + of_nat PGSIZE) oldsz s1
           else if rd32 pte s1 AND PTE_P \<noteq> 0
           then if PTE_ADDR (rd32 pte s1) = 0 then Panic ''kfree''
                else andthen (kfree (P2V (PTE_ADDR (rd32 pte s1))) s1)
                  (\<lambda>s2. deallocuvm_loop k pgdir (a + of_nat PGSIZE) oldsz (wr32 pte 0 s2))
           else deallocuvm_loop k pgdir (a + of_nat PGSIZE) oldsz s1))"

declare deallocuvm_loop.simps [simp del]

definition deallocuvm :: "uint \<Rightarrow> uint \<Rightarrow> uint \<Rightarrow> 'a kstate_scheme \<Rightarrow> (uint \<times> 'a kstate_scheme) outcome" where
  "deallocuvm pgdir oldsz newsz s =
     (if oldsz \<le> newsz then Val (oldsz, s)
      else andthen (deallocuvm_loop 1048576 pgdir (PGROUNDUP newsz) oldsz s) (\<lambda>t. Val (newsz, t)))"

text \<open>The pages of the tables themselves, entry \<open>i\<close> and on.\<close>

definition freevm_step :: "uint \<Rightarrow> nat \<Rightarrow> 'a kstate_scheme \<Rightarrow> 'a kstate_scheme outcome" where
  "freevm_step pgdir i s =
     (let pde = rd32 (pgdir + 4 * of_nat i) s
      in if pde AND PTE_P \<noteq> 0 then kfree (P2V (PTE_ADDR pde)) s else Val s)"

definition freevm :: "uint \<Rightarrow> 'a kstate_scheme \<Rightarrow> 'a kstate_scheme outcome" where
  "freevm pgdir s =
     (if pgdir = 0 then Panic ''freevm: no pgdir''
      else andthen (deallocuvm pgdir KERNBASE 0 s) (\<lambda>(_, s1).
           andthen (each (freevm_step pgdir) [0..<1024] s1) (kfree pgdir)))"

text \<open>\<open>kdata\<close> is the linker's symbol \<open>data\<close>.\<close>

definition kmap :: "uint \<Rightarrow> (uint \<times> uint \<times> uint \<times> uint) list" where
  "kmap kdata =
     [(KERNBASE, 0, EXTMEM, PTE_W),
      (KERNLINK, V2P KERNLINK, V2P kdata, 0),
      (kdata, V2P kdata, PHYSTOP, PTE_W),
      (DEVSPACE, DEVSPACE, 0, PTE_W)]"

fun setupkvm_loop :: "(uint \<times> uint \<times> uint \<times> uint) list \<Rightarrow> uint \<Rightarrow> 'a kstate_scheme
    \<Rightarrow> (uint \<times> 'a kstate_scheme) outcome" where
  "setupkvm_loop [] pgdir s = Val (pgdir, s)"
| "setupkvm_loop ((virt, phys_start, phys_end, perm) # ks) pgdir s =
     andthen (mappages pgdir virt (phys_end - phys_start) phys_start perm s) (\<lambda>(r, s1).
       if r < 0 then andthen (freevm pgdir s1) (\<lambda>s2. Val (0, s2)) else setupkvm_loop ks pgdir s1)"

definition setupkvm :: "uint \<Rightarrow> 'a kstate_scheme \<Rightarrow> (uint \<times> 'a kstate_scheme) outcome" where
  "setupkvm kdata s =
     (case kalloc s of (pgdir, s1) \<Rightarrow>
        if pgdir = 0 then Val (0, s1)
        else let s2 = zero_page pgdir s1
             in if DEVSPACE < P2V PHYSTOP then Panic ''PHYSTOP too high''
                else setupkvm_loop (kmap kdata) pgdir s2)"

text \<open>\<open>init\<close> is the address of the initial program in the kernel image.\<close>

definition inituvm :: "uint \<Rightarrow> uint \<Rightarrow> uint \<Rightarrow> 'a kstate_scheme \<Rightarrow> 'a kstate_scheme outcome" where
  "inituvm pgdir init sz s =
     (if PGSIZE \<le> unat sz then Panic ''inituvm: more than a page''
      else case kalloc s of (mem, s1) \<Rightarrow>
        andthen (mappages pgdir 0 (of_nat PGSIZE) (V2P mem) (PTE_W OR PTE_U) (zero_page mem s1)) (\<lambda>(_, s2).
          Val (s2\<lparr>pm := memmove (pm s2) (phys mem) (phys init) (unat sz)\<rparr>)))"

fun allocuvm_loop :: "nat \<Rightarrow> uint \<Rightarrow> uint \<Rightarrow> uint \<Rightarrow> uint \<Rightarrow> 'a kstate_scheme
    \<Rightarrow> (uint \<times> 'a kstate_scheme) outcome" where
  "allocuvm_loop n pgdir oldsz newsz a s =
     (if \<not> a < newsz then Val (newsz, s)
      else case n of 0 \<Rightarrow> Asleep | Suc k \<Rightarrow>
        (case kalloc s of (mem, s1) \<Rightarrow>
           if mem = 0 then andthen (deallocuvm pgdir newsz oldsz s1) (\<lambda>(_, s2). Val (0, s2))
           else andthen (mappages pgdir a (of_nat PGSIZE) (V2P mem) (PTE_W OR PTE_U) (zero_page mem s1)) (\<lambda>(r, s2).
             if r < 0
             then andthen (deallocuvm pgdir newsz oldsz s2) (\<lambda>(_, s3).
                  andthen (kfree mem s3) (\<lambda>s4. Val (0, s4)))
             else allocuvm_loop k pgdir oldsz newsz (a + of_nat PGSIZE) s2)))"

declare allocuvm_loop.simps [simp del]

definition allocuvm :: "uint \<Rightarrow> uint \<Rightarrow> uint \<Rightarrow> 'a kstate_scheme \<Rightarrow> (uint \<times> 'a kstate_scheme) outcome" where
  "allocuvm pgdir oldsz newsz s =
     (if KERNBASE \<le> newsz then Val (0, s)
      else if newsz < oldsz then Val (oldsz, s)
      else allocuvm_loop 1048576 pgdir oldsz newsz (PGROUNDUP oldsz) s)"

definition clearpteu :: "uint \<Rightarrow> uint \<Rightarrow> 'a kstate_scheme \<Rightarrow> 'a kstate_scheme outcome" where
  "clearpteu pgdir uva s =
     (case walkpgdir pgdir uva False s of (pte, s1) \<Rightarrow>
        if pte = 0 then Panic ''clearpteu'' else Val (wr32 pte (rd32 pte s1 AND NOT PTE_U) s1))"

fun copyuvm_loop :: "nat \<Rightarrow> uint \<Rightarrow> uint \<Rightarrow> uint \<Rightarrow> uint \<Rightarrow> 'a kstate_scheme
    \<Rightarrow> (uint \<times> 'a kstate_scheme) outcome" where
  "copyuvm_loop n pgdir d i sz s =
     (if \<not> i < sz then Val (d, s)
      else case n of 0 \<Rightarrow> Asleep | Suc k \<Rightarrow>
        (case walkpgdir pgdir i False s of (pte, s1) \<Rightarrow>
           if pte = 0 then Panic ''copyuvm: pte should exist''
           else if rd32 pte s1 AND PTE_P = 0 then Panic ''copyuvm: page not present''
           else let pa = PTE_ADDR (rd32 pte s1); flags = PTE_FLAGS (rd32 pte s1)
             in case kalloc s1 of (mem, s2) \<Rightarrow>
               if mem = 0 then andthen (freevm d s2) (\<lambda>s3. Val (0, s3))
               else let s3 = s2\<lparr>pm := memmove (pm s2) (phys mem) (phys (P2V pa)) PGSIZE\<rparr>
                 in andthen (mappages d i (of_nat PGSIZE) (V2P mem) flags s3) (\<lambda>(r, s4).
                   if r < 0 then andthen (kfree mem s4) (\<lambda>s5. andthen (freevm d s5) (\<lambda>s6. Val (0, s6)))
                   else copyuvm_loop k pgdir d (i + of_nat PGSIZE) sz s4)))"

declare copyuvm_loop.simps [simp del]

definition copyuvm :: "uint \<Rightarrow> uint \<Rightarrow> uint \<Rightarrow> 'a kstate_scheme \<Rightarrow> (uint \<times> 'a kstate_scheme) outcome" where
  "copyuvm kdata pgdir sz s =
     andthen (setupkvm kdata s) (\<lambda>(d, s1).
       if d = 0 then Val (0, s1) else copyuvm_loop 1048576 pgdir d 0 sz s1)"

section \<open>Copying to a user address\<close>

text \<open>
  \<open>uva2ka\<close> reads the entry without looking at the pointer: without a table it reads address 0,
  which is not memory of the kernel.
\<close>

definition uva2ka :: "uint \<Rightarrow> uint \<Rightarrow> 'a kstate_scheme \<Rightarrow> uint outcome" where
  "uva2ka pgdir uva s =
     (case walkpgdir pgdir uva False s of (pte, s1) \<Rightarrow>
        if pte = 0 then Panic ''page fault''
        else if rd32 pte s1 AND PTE_P = 0 then Val 0
        else if rd32 pte s1 AND PTE_U = 0 then Val 0
        else Val (P2V (PTE_ADDR (rd32 pte s1))))"

definition copyout_n :: "uint \<Rightarrow> uint \<Rightarrow> uint" where
  "copyout_n va len =
     (let n = of_nat PGSIZE - (va - PGROUNDDOWN va) in if len < n then len else n)"

lemma off_page: "unat (va - PGROUNDDOWN va) = unat va mod 4096"
proof -
  have r: "unat (PGROUNDDOWN va) = unat va div 4096 * 4096" by (simp only: PGROUNDDOWN_def unat_round_down)
  have "unat va div 4096 * 4096 + unat va mod 4096 = unat va" by simp
  moreover have "unat va div 4096 * 4096 \<le> unat va" by simp
  ultimately have "unat va - unat va div 4096 * 4096 = unat va mod 4096" by linarith
  then show ?thesis unfolding unat_sub_uint r by simp
qed

lemma unat_copyout_n: "unat (copyout_n va len) = min (4096 - unat va mod 4096) (unat len)"
proof -
  have "unat (of_nat PGSIZE - (va - PGROUNDDOWN va)) = 4096 - unat va mod 4096"
  proof -
    have "unat va mod 4096 < 4096" "unat (of_nat PGSIZE :: uint) = 4096" by (simp_all add: PGSIZE_def)
    then show ?thesis unfolding unat_sub_uint [of _ "va - PGROUNDDOWN va"] off_page by simp
  qed
  then show ?thesis by (simp add: copyout_n_def Let_def word_less_nat_alt min_def)
qed

lemma copyout_less:
  assumes "0 < len"
  shows "unat (len - copyout_n va len) < unat len"
proof -
  have "0 < unat len" using assms by (simp add: word_less_nat_alt)
  moreover have "unat va mod 4096 < 4096" by simp
  ultimately have "0 < unat (copyout_n va len)" "unat (copyout_n va len) \<le> unat len"
    unfolding unat_copyout_n by (auto simp: min_def)
  then show ?thesis by (simp add: unat_sub_uint)
qed

function copyout :: "uint \<Rightarrow> uint \<Rightarrow> uint \<Rightarrow> uint \<Rightarrow> 'a kstate_scheme \<Rightarrow> (int \<times> 'a kstate_scheme) outcome" where
  "copyout pgdir va buf len s =
     (if \<not> 0 < len then Val (0, s)
      else let va0 = PGROUNDDOWN va; n = copyout_n va len
        in andthen (uva2ka pgdir va0 s) (\<lambda>pa0.
          if pa0 = 0 then Val (- 1, s)
          else copyout pgdir (va0 + of_nat PGSIZE) (buf + n) (len - n)
            (s\<lparr>pm := memmove (pm s) (phys (pa0 + (va - va0))) (phys buf) (unat n)\<rparr>)))"
  by pat_completeness auto
termination
proof (relation "measure (\<lambda>(pgdir, va, buf, len, s). unat len)")
  fix va len :: uint
  assume "\<not> \<not> 0 < len"
  then have "unat (len - copyout_n va len) < unat len" by (intro copyout_less) simp
  then show "((pgdir, w, b, len - n, t), pgdir', va, b', len, t')
      \<in> measure (\<lambda>(pgdir, va, buf, len, s). unat len)" if "n = copyout_n va len"
    for pgdir w b n t pgdir' b' t'
    using that by simp
qed simp

declare copyout.simps [simp del]

text \<open>\<open>growproc\<close> on the process's directory and size; 0 on success, with the new size.\<close>

definition growproc_vm :: "uint \<Rightarrow> uint \<Rightarrow> int \<Rightarrow> 'a kstate_scheme \<Rightarrow> (int \<times> uint \<times> 'a kstate_scheme) outcome" where
  "growproc_vm pgdir sz n s =
     (if 0 < n
      then andthen (allocuvm pgdir sz (sz + of_int n) s) (\<lambda>(sz', s1).
        if sz' = 0 then Val (- 1, sz, s1) else Val (0, sz', s1))
      else if n < 0
      then andthen (deallocuvm pgdir sz (sz + of_int n) s) (\<lambda>(sz', s1).
        if sz' = 0 then Val (- 1, sz, s1) else Val (0, sz', s1))
      else Val (0, sz, s))"

end
