(* ===== verification/Xv6_Pagemap.thy ===== *)
theory Xv6_Pagemap
  imports Xv6_Vm
begin

text \<open>
  A page directory read as a map from page numbers to entries, the pages that hold it, and what
  \<open>walkpgdir\<close> and \<open>mappages\<close> do to that map.
\<close>

unbundle bit_operations_syntax

section \<open>Words\<close>

lemma unat_PTX: "unat (PTX va) = unat va div 4096 mod 1024"
proof -
  have "PTX va = take_bit 10 (drop_bit 12 va)"
    unfolding PTX_def take_bit_eq_mask by (simp add: mask_eq_exp_minus_1)
  then have "unat (PTX va) = take_bit 10 (drop_bit 12 (unat va))"
    by (simp only: unsigned_take_bit_eq unat_drop_bit_eq; simp)
  then show ?thesis by (simp only: drop_bit_eq_div take_bit_eq_mod; simp)
qed

lemma unat_PDX: "unat (PDX va) = unat va div 4096 div 1024"
proof -
  have "PDX va = take_bit 10 (drop_bit 22 va)"
    unfolding PDX_def take_bit_eq_mask by (simp add: mask_eq_exp_minus_1)
  then have "unat (PDX va) = take_bit 10 (drop_bit 22 (unat va))"
    by (simp only: unsigned_take_bit_eq unat_drop_bit_eq; simp)
  then have "unat (PDX va) = unat va div 4194304 mod 1024"
    by (simp only: drop_bit_eq_div take_bit_eq_mod; simp)
  moreover have "unat va div 4194304 < 1024" using unat_lt_32 [of va] by (simp add: div_less_iff_less_mult)
  ultimately show ?thesis by (simp add: div_mult2_eq [symmetric])
qed

lemma page_number_less: "unat (va :: uint) div 4096 < 1048576"
  using unat_lt_32 [of va] by (simp add: div_less_iff_less_mult)

lemma P2V_V2P [simp]: "P2V (V2P a) = a" and V2P_P2V [simp]: "V2P (P2V a) = a"
  by (simp_all add: P2V_def V2P_def)

lemma aligned_shift:
  fixes v :: uint
  assumes "unat v mod 4096 = 0"
  shows "v = push_bit 12 (drop_bit 12 v)" "v AND NOT 0xFFF = v"
proof -
  have "unat (v AND NOT 4095) = unat v" using assms by (simp only: unat_round_down) auto
  then show a: "v AND NOT 0xFFF = v" by (simp add: word_unat_eq_iff)
  show "v = push_bit 12 (drop_bit 12 v)" using a by (simp only: round_down_shift)
qed

lemma PTE_ADDR_or:
  assumes "unat v mod 4096 = 0" "f AND NOT 0xFFF = 0"
  shows "PTE_ADDR (v OR f) = v"
  using assms(2) aligned_shift(2) [OF assms(1)] by (simp add: PTE_ADDR_def bit.conj_disj_distrib2)

lemma present_or [simp]: "(v OR f OR PTE_P) AND PTE_P \<noteq> 0" "(v OR PTE_P OR f) AND PTE_P \<noteq> 0"
proof -
  have "bit ((v OR f OR PTE_P) AND PTE_P) 0" "bit ((v OR PTE_P OR f) AND PTE_P) 0"
    by (simp_all add: PTE_P_def bit_simps)
  then show "(v OR f OR PTE_P) AND PTE_P \<noteq> 0" "(v OR PTE_P OR f) AND PTE_P \<noteq> 0" by (metis bit_0_eq bot_apply bot_bool_def)+
qed

lemma page_V2P_aligned: "page_ok e t \<Longrightarrow> unat (V2P t) mod 4096 = 0"
  using page_ok_phys(2) [of e t] by (simp add: phys_def PGSIZE_def)

lemma phys_offset:
  assumes "page_ok e d" "unat k < 4096"
  shows "phys (d + k) = phys d + unat k" "d + k \<noteq> 0"
proof -
  have le: "phys d + 4096 \<le> 234881024" using page_ok_phys(3) [OF assms(1)] by (simp add: PGSIZE_def)
  have "V2P (d + k) = V2P d + k" by (simp add: V2P_def)
  then show p: "phys (d + k) = phys d + unat k"
    using le assms(2) unfolding phys_def by (simp add: unat_add_uint)
  have "phys 0 = 2147483648" by (simp add: phys_def V2P_def KERNBASE_def)
  then show "d + k \<noteq> 0" using p le assms(2) by auto
qed

lemma unat_4_mult: "unat (k :: uint) < 1024 \<Longrightarrow> unat (4 * k) = 4 * unat k"
  by (simp add: unat_word_ariths)

section \<open>The map\<close>

definition pde :: "'a kstate_scheme \<Rightarrow> uint \<Rightarrow> nat \<Rightarrow> uint" where
  "pde s d i = ld32 (pm s) (phys d + 4 * i)"

definition has_tab :: "'a kstate_scheme \<Rightarrow> uint \<Rightarrow> nat \<Rightarrow> bool" where
  "has_tab s d i \<longleftrightarrow> pde s d i AND PTE_P \<noteq> 0"

definition tab :: "'a kstate_scheme \<Rightarrow> uint \<Rightarrow> nat \<Rightarrow> uint" where
  "tab s d i = P2V (PTE_ADDR (pde s d i))"

definition entry :: "'a kstate_scheme \<Rightarrow> uint \<Rightarrow> nat \<Rightarrow> uint" where
  "entry s d n =
     (if has_tab s d (n div 1024) then ld32 (pm s) (phys (tab s d (n div 1024)) + 4 * (n mod 1024)) else 0)"

text \<open>The pages a directory occupies, and its well-formedness beside a pool of free pages.\<close>

definition own :: "'a kstate_scheme \<Rightarrow> uint \<Rightarrow> uint set" where
  "own s d = insert d {tab s d i | i. i < 1024 \<and> has_tab s d i}"

definition dir_ok :: "'a kstate_scheme \<Rightarrow> uint list \<Rightarrow> uint \<Rightarrow> bool" where
  "dir_ok s vs d \<longleftrightarrow>
     free_ok s vs \<and> KERNBASE < kend s \<and> (\<forall>p \<in> own s d. page_ok (kend s) p \<and> p \<notin> set vs) \<and>
     (\<forall>i < 1024. has_tab s d i \<longrightarrow> tab s d i \<noteq> d) \<and>
     (\<forall>i < 1024. \<forall>j < 1024. has_tab s d i \<and> has_tab s d j \<and> tab s d i = tab s d j \<longrightarrow> i = j)"

definition page_eq :: "'a kstate_scheme \<Rightarrow> 'a kstate_scheme \<Rightarrow> uint \<Rightarrow> bool" where
  "page_eq s t p \<longleftrightarrow> (\<forall>k < 4096. pm t (phys p + k) = pm s (phys p + k))"

lemma page_eq_refl [simp]: "page_eq s s p"
  by (simp add: page_eq_def)

lemma page_eq_trans: "page_eq s t p \<Longrightarrow> page_eq t u p \<Longrightarrow> page_eq s u p"
  by (simp add: page_eq_def)

lemma page_eq_ld32: "page_eq s t p \<Longrightarrow> j < 1024 \<Longrightarrow> ld32 (pm t) (phys p + 4 * j) = ld32 (pm s) (phys p + 4 * j)"
  by (rule ld32_cong) (simp add: page_eq_def add.assoc)

text \<open>The directory depends on its own pages only.\<close>

lemma own_frame:
  assumes "\<forall>p \<in> own s d. page_eq s t p"
  shows "i < 1024 \<Longrightarrow> pde t d i = pde s d i" "i < 1024 \<Longrightarrow> has_tab t d i = has_tab s d i"
    "i < 1024 \<Longrightarrow> tab t d i = tab s d i" "own t d = own s d" "n < 1048576 \<Longrightarrow> entry t d n = entry s d n"
proof -
  have d: "page_eq s t d" using assms by (simp add: own_def)
  have p: "pde t d i = pde s d i" if "i < 1024" for i
    unfolding pde_def by (rule page_eq_ld32 [OF d that])
  have h: "has_tab t d i = has_tab s d i" and g: "tab t d i = tab s d i" if "i < 1024" for i
    using p [OF that] by (simp_all add: has_tab_def tab_def)
  show "own t d = own s d" unfolding own_def using h g by (metis (no_types, lifting))
  show "entry t d n = entry s d n" if n: "n < 1048576"
  proof -
    have i: "n div 1024 < 1024" using n by (simp add: div_less_iff_less_mult)
    show ?thesis
    proof (cases "has_tab s d (n div 1024)")
      case True
      then have "tab s d (n div 1024) \<in> own s d" using i by (auto simp: own_def)
      then have "page_eq s t (tab s d (n div 1024))" using assms by blast
      then show ?thesis using True h [OF i] g [OF i] by (simp add: entry_def page_eq_ld32)
    qed (simp add: entry_def h [OF i])
  qed
  show "i < 1024 \<Longrightarrow> pde t d i = pde s d i" "i < 1024 \<Longrightarrow> has_tab t d i = has_tab s d i"
    "i < 1024 \<Longrightarrow> tab t d i = tab s d i"
    by (fact p h g)+
qed

lemma dir_frame:
  assumes "dir_ok s vs d" "\<forall>p \<in> own s d. page_eq s t p" "free_ok t ws" "kend t = kend s"
    "own s d \<inter> set ws = {}"
  shows "dir_ok t ws d"
  using assms own_frame [OF assms(2)] unfolding dir_ok_def by (simp add: disjoint_iff)

lemma dir_okD:
  assumes "dir_ok s vs d"
  shows "free_ok s vs" "page_ok (kend s) d" "d \<notin> set vs" "KERNBASE < kend s"
    "i < 1024 \<Longrightarrow> has_tab s d i \<Longrightarrow> page_ok (kend s) (tab s d i) \<and> tab s d i \<notin> set vs \<and> tab s d i \<noteq> d"
  using assms by (auto simp: dir_ok_def own_def)

text \<open>A write of one word into a page changes no other page.\<close>

lemma st32_page_eq:
  assumes "page_ok e p" "page_ok e q" "p \<noteq> q" "j < 1024" "pm t = st32 (phys p + 4 * j) w (pm s)"
  shows "page_eq s t q"
  using pages_apart [OF assms(1-3)] assms(4,5)
  by (auto simp: page_eq_def PGSIZE_def intro!: st32_other)

section \<open>Changing one entry\<close>

lemma div1024_less: "n < 1048576 \<Longrightarrow> n div 1024 < (1024 :: nat)"
  by (simp add: div_less_iff_less_mult)

lemma div_mod_1024_eq: "m div 1024 = n div 1024 \<Longrightarrow> m mod 1024 = n mod (1024 :: nat) \<Longrightarrow> m = n"
  by (metis div_mult_mod_eq)

lemma own_tab: "i < 1024 \<Longrightarrow> has_tab s d i \<Longrightarrow> tab s d i \<in> own s d"
  by (auto simp: own_def)

lemma set_entry:
  assumes ok: "dir_ok s vs d" and n: "n < 1048576" and h: "has_tab s d (n div 1024)"
    and t: "t = s\<lparr>pm := st32 (phys (tab s d (n div 1024)) + 4 * (n mod 1024)) w (pm s)\<rparr>"
  shows "dir_ok t vs d" "own t d = own s d"
    "\<And>m. m < 1048576 \<Longrightarrow> entry t d m = (if m = n then w else entry s d m)"
    "\<And>p. page_ok (kend s) p \<Longrightarrow> p \<notin> own s d \<Longrightarrow> page_eq s t p" "kend t = kend s"
    "\<And>i. i < 1024 \<Longrightarrow> has_tab t d i = has_tab s d i \<and> tab t d i = tab s d i"
proof -
  let ?g = "tab s d (n div 1024)"
  have i: "n div 1024 < 1024" using n by (rule div1024_less)
  have g: "page_ok (kend s) ?g" "?g \<noteq> d" "?g \<notin> set vs" using dir_okD(5) [OF ok i h] by auto
  have eq: "page_eq s t p" if "page_ok (kend s) p" "p \<noteq> ?g" for p
    by (rule st32_page_eq [OF g(1) that(1), of "n mod 1024" t w]) (use that t in auto)
  have d: "page_eq s t d" using eq dir_okD(2) [OF ok] g(2) by auto
  have p: "pde t d i = pde s d i" if "i < 1024" for i
    unfolding pde_def by (rule page_eq_ld32 [OF d that])
  then show tb: "has_tab t d i = has_tab s d i \<and> tab t d i = tab s d i" if "i < 1024" for i
    using that by (simp add: has_tab_def tab_def)
  then show o: "own t d = own s d" unfolding own_def by (metis (no_types, lifting))
  show k: "kend t = kend s" using t by simp
  show "page_eq s t p" if "page_ok (kend s) p" "p \<notin> own s d" for p
    using that eq own_tab [OF i h] by metis
  have "free_ok (s\<lparr>pm := pm t\<rparr>) vs"
  proof (rule free_ok_mem [OF dir_okD(1) [OF ok]])
    fix v k assume v: "v \<in> set vs" "k < PGSIZE"
    then have "page_ok (kend s) v" "v \<noteq> ?g" using dir_okD(1) [OF ok] g(3) by (auto simp: free_ok_def)
    then show "pm t (phys v + k) = pm s (phys v + k)" using eq v(2) by (simp add: page_eq_def PGSIZE_def)
  qed
  then have "free_ok t vs" using t by simp
  then show "dir_ok t vs d" using ok tb o k unfolding dir_ok_def by simp
  show "entry t d m = (if m = n then w else entry s d m)" if m: "m < 1048576" for m
  proof (cases "has_tab s d (m div 1024)")
    case True
    have mi: "m div 1024 < 1024" using m by (rule div1024_less)
    show ?thesis
    proof (cases "m div 1024 = n div 1024")
      case True
      then show ?thesis
        using h tb [OF i] div_mod_1024_eq [OF True] by (auto simp: entry_def t ld32_st32_slot)
    next
      case False
      then have "tab s d (m div 1024) \<noteq> ?g" using ok True h mi i unfolding dir_ok_def by blast
      then have "page_eq s t (tab s d (m div 1024))" using eq dir_okD(5) [OF ok mi True] by blast
      then show ?thesis using False True tb [OF mi] by (auto simp: entry_def page_eq_ld32)
    qed
  next
    case False
    then show ?thesis using h tb [OF div1024_less [OF m]] by (auto simp: entry_def)
  qed
qed

section \<open>Adding a table\<close>

lemma filled_zero_ld32: "j < 1024 \<Longrightarrow> ld32 (filled m a 0 4096) (a + 4 * j) = 0"
  by (simp add: ld32_def filled_def)

lemma zero_page_eq:
  assumes "page_ok e v" "page_ok e p" "p \<noteq> v" "pm t = pm (zero_page v s)"
  shows "page_eq s t p"
  using pages_apart [OF assms(1,2)] assms(3,4)
  by (auto simp: page_eq_def zero_page_def memset_eq filled_def PGSIZE_def)

lemma page_eq_freelist: "pm t = pm s \<Longrightarrow> page_eq s t p"
  by (simp add: page_eq_def)

text \<open>The tail of the pool survives \<open>kalloc\<close> and writes off the pages of the tail.\<close>

lemma free_ok_eq:
  assumes "free_ok s vs" "\<And>v. v \<in> set vs \<Longrightarrow> page_eq s t v" "freelist t = freelist s" "kend t = kend s"
  shows "free_ok t vs"
proof -
  have "free_ok (s\<lparr>pm := pm t\<rparr>) vs"
    by (rule free_ok_mem [OF assms(1)]) (use assms(2) in \<open>simp add: page_eq_def PGSIZE_def\<close>)
  then show ?thesis using assms(3,4) by (simp add: free_ok_def)
qed

lemma taken_page:
  assumes "free_ok s (v # vs)"
  shows "kalloc s = (v, s\<lparr>freelist := ld32 (pm s) (phys v)\<rparr>)" "v \<noteq> 0" "page_ok (kend s) v" "v \<notin> set vs"
    "free_ok (s\<lparr>freelist := ld32 (pm s) (phys v)\<rparr>) vs" "\<And>w. w \<in> set vs \<Longrightarrow> page_ok (kend s) w \<and> w \<noteq> v"
  using kalloc_ok [OF assms] assms by (auto simp: free_ok_def)

lemma zeroed_page:
  assumes "free_ok s (v # vs)" "s1 = s\<lparr>freelist := ld32 (pm s) (phys v)\<rparr>"
  shows "free_ok (zero_page v s1) vs" "\<And>j. j < 1024 \<Longrightarrow> ld32 (pm (zero_page v s1)) (phys v + 4 * j) = 0"
    "\<And>k. k < 4096 \<Longrightarrow> pm (zero_page v s1) (phys v + k) = 0"
    "\<And>p. page_ok (kend s) p \<Longrightarrow> p \<noteq> v \<Longrightarrow> page_eq s (zero_page v s1) p" "kend (zero_page v s1) = kend s"
proof -
  note v = taken_page [OF assms(1)]
  show eq: "page_eq s (zero_page v s1) p" if "page_ok (kend s) p" "p \<noteq> v" for p
    by (rule zero_page_eq [OF v(3) that]) (simp add: assms(2) zero_page_def)
  show "free_ok (zero_page v s1) vs"
  proof (rule free_ok_eq)
    show "free_ok s1 vs" using v(5) assms(2) by simp
    show "page_eq s1 (zero_page v s1) w" if "w \<in> set vs" for w
      using eq [of w] v(6) [OF that] assms(2) by (simp add: page_eq_def)
  qed (simp_all add: zero_page_def)
  show "ld32 (pm (zero_page v s1)) (phys v + 4 * j) = 0" if "j < 1024" for j
    using that by (simp add: zero_page_def memset_eq PGSIZE_def filled_zero_ld32)
  show "pm (zero_page v s1) (phys v + k) = 0" if "k < 4096" for k
    using that by (simp add: zero_page_def memset_eq PGSIZE_def filled_def)
  show "kend (zero_page v s1) = kend s" by (simp add: assms(2) zero_page_def)
qed

lemma tab_flags: "(PTE_P OR PTE_W OR PTE_U) AND NOT 0xFFF = (0 :: uint)"
  by (simp add: PTE_P_def PTE_W_def PTE_U_def)

lemma tab_value:
  assumes "page_ok e v"
  shows "P2V (PTE_ADDR (V2P v OR PTE_P OR PTE_W OR PTE_U)) = v"
  using PTE_ADDR_or [OF page_V2P_aligned [OF assms] tab_flags] by (simp add: or.assoc)

lemma add_tab:
  assumes ok: "dir_ok s (v # vs) d" and i: "i < 1024" and no: "\<not> has_tab s d i"
    and z: "z = zero_page v (s\<lparr>freelist := ld32 (pm s) (phys v)\<rparr>)"
    and t: "t = z\<lparr>pm := st32 (phys d + 4 * i) (V2P v OR PTE_P OR PTE_W OR PTE_U) (pm z)\<rparr>"
  shows "dir_ok t vs d" "own t d = insert v (own s d)" "has_tab t d i" "tab t d i = v"
    "\<And>m. m < 1048576 \<Longrightarrow> entry t d m = entry s d m"
    "\<And>p. page_ok (kend s) p \<Longrightarrow> p \<noteq> d \<Longrightarrow> p \<noteq> v \<Longrightarrow> page_eq s t p" "kend t = kend s"
    "\<And>j. j < 1024 \<Longrightarrow> has_tab t d j \<longleftrightarrow> has_tab s d j \<or> j = i"
proof -
  note D = dir_okD [OF ok]
  note zp = zeroed_page [OF D(1) refl, folded z] and tk = taken_page [OF D(1)]
  have dv: "d \<noteq> v" using D(3) by auto
  have zt: "page_eq z t p" if "page_ok (kend s) p" "p \<noteq> d" for p
    by (rule st32_page_eq [OF D(2) that(1), of i]) (use that i t in auto)
  show eq: "page_eq s t p" if "page_ok (kend s) p" "p \<noteq> d" "p \<noteq> v" for p
    using zp(4) [OF that(1,3)] zt [OF that(1,2)] by (rule page_eq_trans)
  show k: "kend t = kend s" using t zp(5) by simp
  have zd: "page_eq s z d" using zp(4) [OF D(2) dv] .
  have pd: "pde t d j = (if j = i then V2P v OR PTE_P OR PTE_W OR PTE_U else pde s d j)" if "j < 1024" for j
    using page_eq_ld32 [OF zd that] by (simp add: pde_def t ld32_st32_slot)
  show hi: "has_tab t d i" using pd [OF i] by (simp add: has_tab_def)
  show ti: "tab t d i = v" using pd [OF i] tab_value [OF tk(3)] by (simp add: tab_def)
  have oth: "has_tab t d j = has_tab s d j" "tab t d j = tab s d j" if "j < 1024" "j \<noteq> i" for j
    using pd [OF that(1)] that(2) by (simp_all add: has_tab_def tab_def)
  show "has_tab t d j \<longleftrightarrow> has_tab s d j \<or> j = i" if "j < 1024" for j using oth(1) [OF that] hi by (cases "j = i") auto
  have new: "tab s d j \<noteq> v" if "j < 1024" "has_tab s d j" for j using D(5) [OF that] by auto
  show own: "own t d = insert v (own s d)"
  proof -
    have "{tab t d j | j. j < 1024 \<and> has_tab t d j} = insert v {tab s d j | j. j < 1024 \<and> has_tab s d j}"
      using hi ti oth i no by (auto, metis+)
    then show ?thesis by (simp add: own_def insert_commute)
  qed
  have "free_ok t vs"
  proof (rule free_ok_eq [OF zp(1)])
    show "page_eq z t w" if "w \<in> set vs" for w using zt tk(6) [OF that] D(3) that by auto
  qed (simp_all add: t)
  moreover have "\<forall>p \<in> own t d. page_ok (kend t) p \<and> p \<notin> set vs"
    using ok tk(3,4) unfolding own k by (auto simp: dir_ok_def)
  moreover have "tab t d j \<noteq> d" if "j < 1024" "has_tab t d j" for j
    using that oth [of j] D(5) [of j] ti dv by (cases "j = i") auto
  moreover have "j = l" if "j < 1024" "l < 1024" "has_tab t d j" "has_tab t d l" "tab t d j = tab t d l" for j l
  proof (cases "j = i \<or> l = i")
    case True
    then show ?thesis using that oth ti new by metis
  next
    case False
    then show ?thesis using that oth ok unfolding dir_ok_def by (metis (full_types))
  qed
  ultimately show "dir_ok t vs d" using D(4) k unfolding dir_ok_def by simp
  show "entry t d m = entry s d m" if m: "m < 1048576" for m
  proof (cases "m div 1024 = i")
    case True
    have "page_eq z t v" using zt [OF tk(3)] dv by auto
    then have "ld32 (pm t) (phys v + 4 * (m mod 1024)) = 0" by (simp add: page_eq_ld32 zp(2))
    then show ?thesis using True hi ti no by (simp add: entry_def)
  next
    case False
    note j = div1024_less [OF m]
    show ?thesis
    proof (cases "has_tab s d (m div 1024)")
      case True
      then have "page_eq s t (tab s d (m div 1024))" using eq D(5) [OF j True] new [OF j True] by auto
      then show ?thesis using oth [OF j False] by (simp add: entry_def page_eq_ld32)
    qed (simp add: entry_def oth [OF j False])
  qed
qed

section \<open>walkpgdir\<close>

definition vpn :: "uint \<Rightarrow> nat" where "vpn va = unat va div 4096"

lemma vpn_less [simp]: "vpn va < 1048576"
  by (simp add: vpn_def page_number_less)

lemma PDX_vpn: "unat (PDX va) = vpn va div 1024" and PTX_vpn: "unat (PTX va) = vpn va mod 1024"
  by (simp_all add: vpn_def unat_PDX unat_PTX)

lemma vpn_idx [simp]: "vpn va div 1024 < 1024"
  by (simp add: div1024_less)

text \<open>The address of a slot of a table or directory page.\<close>

lemma slot_addr:
  assumes "page_ok e p" "unat k < 1024"
  shows "phys (p + 4 * k) = phys p + 4 * unat k" "p + 4 * k \<noteq> 0"
  using phys_offset [OF assms(1), of "4 * k"] unat_4_mult [OF assms(2)] assms(2) by simp_all

lemma walk_present:
  assumes "page_ok e d" "has_tab s d (vpn va div 1024)"
  shows "walkpgdir d va al s = (tab s d (vpn va div 1024) + 4 * PTX va, s)"
  using assms slot_addr(1) [OF assms(1), of "PDX va"]
  by (simp add: walkpgdir_def rd32_def Let_def PDX_vpn has_tab_def tab_def pde_def)

lemma walk_absent:
  assumes "page_ok e d" "\<not> has_tab s d (vpn va div 1024)"
  shows "walkpgdir d va False s = (0, s)"
  using assms slot_addr(1) [OF assms(1), of "PDX va"]
  by (simp add: walkpgdir_def rd32_def Let_def PDX_vpn has_tab_def pde_def)

text \<open>The slot that \<open>walkpgdir\<close> points to holds the entry of the page.\<close>

lemma entry_slot:
  assumes "dir_ok s vs d" "has_tab s d (vpn va div 1024)"
  shows "phys (tab s d (vpn va div 1024) + 4 * PTX va) = phys (tab s d (vpn va div 1024)) + 4 * (vpn va mod 1024)"
    "tab s d (vpn va div 1024) + 4 * PTX va \<noteq> 0"
    "rd32 (tab s d (vpn va div 1024) + 4 * PTX va) s = entry s d (vpn va)"
  using slot_addr [of "kend s" "tab s d (vpn va div 1024)" "PTX va"] dir_okD(5) [OF assms(1) vpn_idx assms(2)] assms(2)
  by (simp_all add: PTX_vpn rd32_def entry_def)

text \<open>What holds between two states when only pages of \<open>d\<close> and of the pool have been used.\<close>

definition grown :: "'a kstate_scheme \<Rightarrow> uint list \<Rightarrow> 'a kstate_scheme \<Rightarrow> uint list \<Rightarrow> uint \<Rightarrow> bool" where
  "grown s vs t ws d \<longleftrightarrow>
     dir_ok t ws d \<and> kend t = kend s \<and> (\<exists>ts. vs = ts @ ws \<and> own t d = own s d \<union> set ts) \<and>
     (\<forall>p. page_ok (kend s) p \<and> p \<notin> own s d \<and> p \<notin> set vs \<longrightarrow> page_eq s t p)"

lemma grown_refl: "dir_ok s vs d \<Longrightarrow> grown s vs s vs d"
  by (simp add: grown_def)

lemma grown_trans: "grown s vs t ws d \<Longrightarrow> grown t ws u xs d \<Longrightarrow> grown s vs u xs d"
  unfolding grown_def by (auto intro: page_eq_trans)

lemma walk_alloc:
  assumes ok: "dir_ok s vs d"
  shows "walkpgdir d va True s = (0, s) \<and> vs = [] \<and> \<not> has_tab s d (vpn va div 1024) \<or>
    (\<exists>t ws. walkpgdir d va True s = (tab t d (vpn va div 1024) + 4 * PTX va, t) \<and> grown s vs t ws d \<and>
       has_tab t d (vpn va div 1024) \<and> (\<forall>n < 1048576. entry t d n = entry s d n) \<and> length vs \<le> Suc (length ws))"
proof (cases "has_tab s d (vpn va div 1024)")
  case True
  then show ?thesis using walk_present [OF dir_okD(2) [OF ok] True, of True] grown_refl [OF ok] by (metis le_Suc_eq order_refl)
next
  case no: False
  note slot = slot_addr(1) [OF dir_okD(2) [OF ok], of "PDX va"]
  show ?thesis
  proof (cases vs)
    case Nil
    then show ?thesis
      using no slot kalloc_empty [of s] dir_okD(1) [OF ok]
      by (simp add: walkpgdir_def rd32_def Let_def PDX_vpn has_tab_def pde_def)
  next
    case (Cons v ws)
    define z where "z = zero_page v (s\<lparr>freelist := ld32 (pm s) (phys v)\<rparr>)"
    define t where "t = z\<lparr>pm := st32 (phys d + 4 * (vpn va div 1024)) (V2P v OR PTE_P OR PTE_W OR PTE_U) (pm z)\<rparr>"
    note a = add_tab [OF ok [unfolded Cons] vpn_idx no z_def t_def]
    have "walkpgdir d va True s = (v + 4 * PTX va, t)"
      using no slot taken_page(1,2) [OF dir_okD(1) [OF ok [unfolded Cons]]]
      by (simp add: walkpgdir_def rd32_def wr32_def Let_def PDX_vpn has_tab_def pde_def t_def z_def)
    moreover have "grown s vs t ws d"
      using a(1,2,6,7) Cons unfolding grown_def
      by (auto intro!: exI [of _ "[v]"] simp: own_def)
    ultimately show ?thesis using a(3-5) Cons by auto
  qed
qed

lemma write_entry:
  assumes "dir_ok s vs d" "has_tab s d (vpn va div 1024)"
  shows "grown s vs (wr32 (tab s d (vpn va div 1024) + 4 * PTX va) w s) vs d"
    "m < 1048576 \<Longrightarrow> entry (wr32 (tab s d (vpn va div 1024) + 4 * PTX va) w s) d m = (if m = vpn va then w else entry s d m)"
    "dir_ok (wr32 (tab s d (vpn va div 1024) + 4 * PTX va) w s) vs d"
    "own (wr32 (tab s d (vpn va div 1024) + 4 * PTX va) w s) d = own s d"
    "page_ok (kend s) p \<Longrightarrow> p \<notin> own s d \<Longrightarrow> page_eq s (wr32 (tab s d (vpn va div 1024) + 4 * PTX va) w s) p"
proof -
  note e = set_entry [OF assms(1) vpn_less assms(2) refl, where w = w]
  have "wr32 (tab s d (vpn va div 1024) + 4 * PTX va) w s =
      s\<lparr>pm := st32 (phys (tab s d (vpn va div 1024)) + 4 * (vpn va mod 1024)) w (pm s)\<rparr>"
    by (simp add: wr32_def entry_slot(1) [OF assms])
  then show "grown s vs (wr32 (tab s d (vpn va div 1024) + 4 * PTX va) w s) vs d"
    "m < 1048576 \<Longrightarrow> entry (wr32 (tab s d (vpn va div 1024) + 4 * PTX va) w s) d m = (if m = vpn va then w else entry s d m)"
    "dir_ok (wr32 (tab s d (vpn va div 1024) + 4 * PTX va) w s) vs d"
    "own (wr32 (tab s d (vpn va div 1024) + 4 * PTX va) w s) d = own s d"
    "page_ok (kend s) p \<Longrightarrow> p \<notin> own s d \<Longrightarrow> page_eq s (wr32 (tab s d (vpn va div 1024) + 4 * PTX va) w s) p"
    using e(1-5) by (auto simp: grown_def)
qed

section \<open>mappages\<close>

text \<open>The map with \<open>j\<close> pages from number \<open>n\<close> on sent to the physical addresses from \<open>pa\<close> on.\<close>

definition map_range :: "(nat \<Rightarrow> uint) \<Rightarrow> nat \<Rightarrow> nat \<Rightarrow> uint \<Rightarrow> uint \<Rightarrow> nat \<Rightarrow> uint" where
  "map_range f n j pa perm m =
     (if n \<le> m \<and> m < n + j then (pa + 4096 * of_nat (m - n)) OR perm OR PTE_P else f m)"

lemma map_range_0 [simp]: "map_range f n 0 pa perm = f"
  by (rule ext) (auto simp: map_range_def)

lemma map_range_Suc:
  "map_range (f(n := pa OR perm OR PTE_P)) (Suc n) j (pa + 4096) perm = map_range f n (Suc j) pa perm"
proof
  fix m
  consider "m < n" | "m = n" | "n < m" by linarith
  then show "map_range (f(n := pa OR perm OR PTE_P)) (Suc n) j (pa + 4096) perm m = map_range f n (Suc j) pa perm m"
  proof cases
    case 3
    then obtain k where "m = Suc (n + k)" using less_imp_Suc_add by blast
    then show ?thesis by (simp add: map_range_def algebra_simps)
  qed (simp_all add: map_range_def)
qed

text \<open>Outcome of mapping \<open>j\<close> pages: all of them, or as many as the tables that fit the pool allow.\<close>

definition mapped :: "'a kstate_scheme \<Rightarrow> uint list \<Rightarrow> uint \<Rightarrow> nat \<Rightarrow> nat \<Rightarrow> uint \<Rightarrow> uint
    \<Rightarrow> int \<Rightarrow> 'a kstate_scheme \<Rightarrow> bool" where
  "mapped s vs d n k pa perm r t \<longleftrightarrow>
     (\<exists>ws j. grown s vs t ws d \<and> length vs \<le> length ws + j \<and> (r = 0 \<and> j = k \<or> r = - 1 \<and> j < k \<and> ws = []) \<and>
        (\<forall>m < 1048576. entry t d m = map_range (entry s d) n j pa perm m))"

lemma vpn_next: "unat a + 4096 < 4294967296 \<Longrightarrow> vpn (a + 4096) = Suc (vpn a)"
  by (simp add: vpn_def unat_add_uint)

lemma mappages_loop_maps:
  assumes "dir_ok s vs d" "unat lastp = unat a + 4096 * k"
    and "\<And>m. vpn a \<le> m \<Longrightarrow> m \<le> vpn a + k \<Longrightarrow> entry s d m AND PTE_P = 0"
  shows "\<exists>r t. mappages_loop (Suc k) d a lastp pa perm s = Val (r, t) \<and> mapped s vs d (vpn a) (Suc k) pa perm r t"
  using assms
proof (induction k arbitrary: a pa s vs)
  have step: "\<exists>t ws. grown s vs t ws d \<and> length vs \<le> Suc (length ws) \<and>
        (\<forall>m < 1048576. entry t d m = ((entry s d)(vpn a := pa OR perm OR PTE_P)) m) \<and>
        mappages_loop (Suc n) d a lastp pa perm s =
          (if a = lastp then Val (0, t) else mappages_loop n d (a + of_nat PGSIZE) lastp (pa + of_nat PGSIZE) perm t)
      \<or> vs = [] \<and> mappages_loop (Suc n) d a lastp pa perm s = Val (- 1, s)"
    if ok: "dir_ok s vs d" and z: "entry s d (vpn a) AND PTE_P = 0" for s :: "'a kstate_scheme" and vs a pa n
  proof -
    consider "walkpgdir d a True s = (0, s)" "vs = []"
      | t ws where "walkpgdir d a True s = (tab t d (vpn a div 1024) + 4 * PTX a, t)" "grown s vs t ws d"
         "has_tab t d (vpn a div 1024)" "\<forall>n < 1048576. entry t d n = entry s d n" "length vs \<le> Suc (length ws)"
      using walk_alloc [OF ok] by blast
    then show ?thesis
    proof cases
      case (2 t ws)
      let ?p = "tab t d (vpn a div 1024) + 4 * PTX a"
      have t: "dir_ok t ws d" using 2(2) by (simp add: grown_def)
      note e = entry_slot(2,3) [OF t 2(3)] and w = write_entry [OF t 2(3), where w = "pa OR perm OR PTE_P"]
      have "grown s vs (wr32 ?p (pa OR perm OR PTE_P) t) ws d" using grown_trans [OF 2(2) w(1)] .
      moreover have "mappages_loop (Suc n) d a lastp pa perm s =
          (if a = lastp then Val (0, wr32 ?p (pa OR perm OR PTE_P) t)
           else mappages_loop n d (a + of_nat PGSIZE) lastp (pa + of_nat PGSIZE) perm (wr32 ?p (pa OR perm OR PTE_P) t))"
        using 2 e z by (simp add: Let_def)
      moreover have "\<forall>m < 1048576. entry (wr32 ?p (pa OR perm OR PTE_P) t) d m =
          ((entry s d)(vpn a := pa OR perm OR PTE_P)) m"
        using w(2) 2(4) by simp
      ultimately show ?thesis using 2(1,5) e(1) by blast
    qed simp
  qed
  {
    case 0
    then have "a = lastp" by (simp add: word_unat_eq_iff)
    then show ?case
      using step [OF 0(1), of a pa 0] 0(3) grown_refl [OF 0(1)]
      by (fastforce simp: mapped_def map_range_Suc [where j = 0, simplified, symmetric])
  next
    case (Suc k)
    have ne: "a \<noteq> lastp" using Suc(3) by auto
    have "unat a + 4096 \<le> unat lastp" using Suc(3) by simp
    then have b: "unat a + 4096 < 4294967296" using unat_lt_32 [of lastp] by (rule le_less_trans)
    then have a': "unat (a + 4096) = unat a + 4096" by (simp add: unat_add_uint)
    consider "vs = []" "mappages_loop (Suc (Suc k)) d a lastp pa perm s = Val (- 1, s)"
      | t ws where "grown s vs t ws d" "\<forall>m < 1048576. entry t d m = ((entry s d)(vpn a := pa OR perm OR PTE_P)) m"
        "mappages_loop (Suc (Suc k)) d a lastp pa perm s = mappages_loop (Suc k) d (a + 4096) lastp (pa + 4096) perm t"
        "length vs \<le> Suc (length ws)"
      using step [OF Suc(2), of a pa "Suc k"] Suc(4) [of "vpn a"] ne by (auto simp: PGSIZE_def)
    then show ?case
    proof cases
      case 1
      then show ?thesis using grown_refl [OF Suc(2)] by (auto simp: mapped_def intro!: exI [of _ 0])
    next
      case (2 t ws)
      have t: "dir_ok t ws d" using 2(1) by (simp add: grown_def)
      have last_less: "vpn a + Suc k < 1048576"
      proof -
        have "vpn lastp = vpn a + Suc k" unfolding vpn_def Suc(3) by (simp add: mult.commute)
        then show ?thesis using vpn_less [of lastp] by simp
      qed
      have "\<exists>r u. mappages_loop (Suc k) d (a + 4096) lastp (pa + 4096) perm t = Val (r, u) \<and>
          mapped t ws d (vpn (a + 4096)) (Suc k) (pa + 4096) perm r u"
      proof (rule Suc(1) [OF t])
        show "unat lastp = unat (a + 4096) + 4096 * k" using Suc(3) a' by simp
        show "entry t d m AND PTE_P = 0" if "vpn (a + 4096) \<le> m" "m \<le> vpn (a + 4096) + k" for m
          using that 2(2) Suc(4) [of m] last_less by (auto simp: vpn_next [OF b])
      qed
      then obtain r u xs j where u: "mappages_loop (Suc k) d (a + 4096) lastp (pa + 4096) perm t = Val (r, u)"
          "grown t ws u xs d" "r = 0 \<and> j = Suc k \<or> r = - 1 \<and> j < Suc k \<and> xs = []"
          "\<forall>m < 1048576. entry u d m = map_range (entry t d) (Suc (vpn a)) j (pa + 4096) perm m"
          "length ws \<le> length xs + j"
        unfolding mapped_def vpn_next [OF b] by blast
      have "entry u d m = map_range (entry s d) (vpn a) (Suc j) pa perm m" if "m < 1048576" for m
        using that u(4) 2(2) unfolding map_range_Suc [symmetric] by (simp add: map_range_def)
      then show ?thesis
        using 2(3,4) u(1,3,5) grown_trans [OF 2(1) u(2)] unfolding mapped_def
        by (intro exI [of _ r] exI [of _ u] conjI exI [of _ xs] exI [of _ "Suc j"]) auto
    qed
  }
qed

text \<open>The number of pages that \<open>mappages\<close> visits.\<close>

lemma vpn_PGROUNDDOWN: "unat (PGROUNDDOWN a) = 4096 * vpn a" "vpn (PGROUNDDOWN a) = vpn a"
  unfolding vpn_def PGROUNDDOWN_def unat_round_down by simp_all

lemma mappages_maps_lemma:
  assumes ok: "dir_ok s vs d" and le: "vpn va \<le> vpn (va + sz - 1)"
    and free: "\<And>m. vpn va \<le> m \<Longrightarrow> m \<le> vpn (va + sz - 1) \<Longrightarrow> entry s d m AND PTE_P = 0"
  shows "\<exists>r t. mappages d va sz pa perm s = Val (r, t) \<and>
    mapped s vs d (vpn va) (Suc (vpn (va + sz - 1) - vpn va)) pa perm r t"
proof -
  let ?a = "PGROUNDDOWN va" and ?l = "PGROUNDDOWN (va + sz - 1)" and ?k = "vpn (va + sz - 1) - vpn va"
  have l: "unat ?l = unat ?a + 4096 * ?k" using le unfolding vpn_PGROUNDDOWN by (simp add: algebra_simps)
  then have "unat (?l - ?a) = 4096 * ?k" by (simp add: unat_sub_uint)
  then have f: "unat (?l - ?a) div PGSIZE = ?k" by (simp add: PGSIZE_def)
  have "\<exists>r t. mappages_loop (Suc ?k) d ?a ?l pa perm s = Val (r, t) \<and> mapped s vs d (vpn ?a) (Suc ?k) pa perm r t"
    by (rule mappages_loop_maps [OF ok l]) (use free le in \<open>simp add: vpn_PGROUNDDOWN\<close>)
  then show ?thesis unfolding mappages_def Let_def f by (simp add: vpn_PGROUNDDOWN)
qed

text \<open>
  What \<open>mappages\<close> does.  On a well-formed directory with no page of the range mapped it returns: 0 with
  exactly the pages of the range mapped, in order, to consecutive physical pages with the
  permissions asked for; or -1, having mapped a beginning of the range, only when the pool of free
  pages is used up.  The directory stays well-formed, it grows by pages of the pool only, and no
  other page of memory changes.  A first page that is mapped already is the panic.
\<close>

theorem mappages_maps:
  assumes "dir_ok s vs d" and "vpn va \<le> vpn (va + sz - 1)"
  shows "((\<forall>m. vpn va \<le> m \<and> m \<le> vpn (va + sz - 1) \<longrightarrow> entry s d m AND PTE_P = 0) \<longrightarrow>
      (\<exists>r t ws j. mappages d va sz pa perm s = Val (r, t) \<and> dir_ok t ws d \<and>
         (\<exists>ts. vs = ts @ ws \<and> own t d = own s d \<union> set ts) \<and>
         (\<forall>p. page_ok (kend s) p \<and> p \<notin> own s d \<and> p \<notin> set vs \<longrightarrow> page_eq s t p) \<and>
         length vs \<le> length ws + j \<and> (r = 0 \<and> j = Suc (vpn (va + sz - 1) - vpn va) \<or>
            r = - 1 \<and> j < Suc (vpn (va + sz - 1) - vpn va) \<and> ws = []) \<and>
         (\<forall>m < 1048576. entry t d m = map_range (entry s d) (vpn va) j pa perm m))) \<and>
    (entry s d (vpn va) AND PTE_P \<noteq> 0 \<longrightarrow> mappages d va sz pa perm s = Panic ''remap'')"
proof (intro conjI impI)
  assume "\<forall>m. vpn va \<le> m \<and> m \<le> vpn (va + sz - 1) \<longrightarrow> entry s d m AND PTE_P = 0"
  then obtain r t where "mappages d va sz pa perm s = Val (r, t)"
      "mapped s vs d (vpn va) (Suc (vpn (va + sz - 1) - vpn va)) pa perm r t"
    using mappages_maps_lemma [OF assms] by blast
  then show "\<exists>r t ws j. mappages d va sz pa perm s = Val (r, t) \<and> dir_ok t ws d \<and>
         (\<exists>ts. vs = ts @ ws \<and> own t d = own s d \<union> set ts) \<and>
         (\<forall>p. page_ok (kend s) p \<and> p \<notin> own s d \<and> p \<notin> set vs \<longrightarrow> page_eq s t p) \<and>
         length vs \<le> length ws + j \<and> (r = 0 \<and> j = Suc (vpn (va + sz - 1) - vpn va) \<or>
            r = - 1 \<and> j < Suc (vpn (va + sz - 1) - vpn va) \<and> ws = []) \<and>
         (\<forall>m < 1048576. entry t d m = map_range (entry s d) (vpn va) j pa perm m)"
    unfolding mapped_def grown_def by blast
next
  assume p: "entry s d (vpn va) AND PTE_P \<noteq> 0"
  then have h: "has_tab s d (vpn (PGROUNDDOWN va) div 1024)"
    by (cases "has_tab s d (vpn va div 1024)") (simp_all add: entry_def vpn_PGROUNDDOWN)
  show "mappages d va sz pa perm s = Panic ''remap''"
    using walk_present [OF dir_okD(2) [OF assms(1)] h, of True] entry_slot(2,3) [OF assms(1) h] p
    by (simp add: mappages_def Let_def vpn_PGROUNDDOWN)
qed

text \<open>One page.\<close>

lemma page_end:
  assumes "unat a mod 4096 = 0"
  shows "vpn (a + of_nat PGSIZE - 1) = vpn a"
proof -
  have d: "4096 * (unat a div 4096) = unat a" using assms by auto
  have "unat (a + 4095) = unat a + 4095"
  proof -
    have "unat a div 4096 < 1048576" by (rule page_number_less)
    then have "unat a + 4095 < 4294967296" using d by linarith
    then show ?thesis by (simp add: unat_add_uint)
  qed
  moreover have "(4096 * q + 4095) div 4096 = (q :: nat)" for q by simp
  then have "(unat a + 4095) div 4096 = unat a div 4096" using d by metis
  ultimately show ?thesis by (simp add: vpn_def PGSIZE_def add.commute)
qed

lemma mappages_page:
  assumes "dir_ok s vs d" "unat a mod 4096 = 0" "entry s d (vpn a) AND PTE_P = 0"
  shows "\<exists>r t ws. mappages d a (of_nat PGSIZE) pa perm s = Val (r, t) \<and> grown s vs t ws d \<and>
    length vs \<le> Suc (length ws) \<and>
    (r = 0 \<and> (\<forall>m < 1048576. entry t d m = (if m = vpn a then pa OR perm OR PTE_P else entry s d m)) \<or>
     r = - 1 \<and> vs = [] \<and> ws = [] \<and> (\<forall>m < 1048576. entry t d m = entry s d m))"
proof -
  note e = page_end [OF assms(2)]
  obtain r t where "mappages d a (of_nat PGSIZE) pa perm s = Val (r, t)" "mapped s vs d (vpn a) (Suc 0) pa perm r t"
    using mappages_maps_lemma [OF assms(1), of a "of_nat PGSIZE" pa perm] assms(3) unfolding e by fastforce
  moreover from this obtain ws j where "grown s vs t ws d" "r = 0 \<and> j = Suc 0 \<or> r = - 1 \<and> j < Suc 0 \<and> ws = []"
      "\<forall>m < 1048576. entry t d m = map_range (entry s d) (vpn a) j pa perm m" "length vs \<le> length ws + j"
    unfolding mapped_def by blast
  moreover have "map_range (entry s d) (vpn a) (Suc 0) pa perm m = (if m = vpn a then pa OR perm OR PTE_P else entry s d m)"
    for m by (simp add: map_range_def)
  ultimately show ?thesis by (cases "r = 0") auto
qed

section \<open>The tables\<close>

text \<open>Which tables \<open>mappages\<close> adds, whatever its outcome: those of the pages it visits.\<close>

definition new_tabs :: "'a kstate_scheme \<Rightarrow> 'a kstate_scheme \<Rightarrow> uint \<Rightarrow> nat set \<Rightarrow> bool" where
  "new_tabs s t d I \<longleftrightarrow> (\<forall>i < 1024. has_tab t d i \<longrightarrow> has_tab s d i \<or> i \<in> I)"

lemma new_tabs_refl: "new_tabs s s d I"
  by (simp add: new_tabs_def)

lemma new_tabs_trans: "new_tabs s t d I \<Longrightarrow> new_tabs t u d I \<Longrightarrow> new_tabs s u d I"
  unfolding new_tabs_def by blast

lemma new_tabs_mono: "new_tabs s t d I \<Longrightarrow> I \<subseteq> J \<Longrightarrow> new_tabs s t d J"
  unfolding new_tabs_def by blast

lemma walk_tabs:
  assumes ok: "dir_ok s vs d" and w: "walkpgdir d va True s = (p, t)"
  shows "new_tabs s t d {vpn va div 1024}"
proof (cases "has_tab s d (vpn va div 1024)")
  case True
  then show ?thesis using walk_present [OF dir_okD(2) [OF ok] True, of True] w new_tabs_refl by simp
next
  case no: False
  note slot = slot_addr(1) [OF dir_okD(2) [OF ok], of "PDX va"]
  show ?thesis
  proof (cases vs)
    case Nil
    then show ?thesis
      using w no slot kalloc_empty [of s] dir_okD(1) [OF ok] new_tabs_refl
      by (simp add: walkpgdir_def rd32_def Let_def PDX_vpn has_tab_def pde_def)
  next
    case (Cons v ws)
    define z where "z = zero_page v (s\<lparr>freelist := ld32 (pm s) (phys v)\<rparr>)"
    define u where "u = z\<lparr>pm := st32 (phys d + 4 * (vpn va div 1024)) (V2P v OR PTE_P OR PTE_W OR PTE_U) (pm z)\<rparr>"
    note a = add_tab [OF ok [unfolded Cons] vpn_idx no z_def u_def]
    have "walkpgdir d va True s = (v + 4 * PTX va, u)"
      using no slot taken_page(1,2) [OF dir_okD(1) [OF ok [unfolded Cons]]]
      by (simp add: walkpgdir_def rd32_def wr32_def Let_def PDX_vpn has_tab_def pde_def u_def z_def)
    then show ?thesis using a(8) w by (simp add: new_tabs_def)
  qed
qed

lemma write_tabs:
  assumes "dir_ok s vs d" "has_tab s d (vpn va div 1024)"
  shows "new_tabs s (wr32 (tab s d (vpn va div 1024) + 4 * PTX va) w s) d I"
proof -
  have "wr32 (tab s d (vpn va div 1024) + 4 * PTX va) w s =
      s\<lparr>pm := st32 (phys (tab s d (vpn va div 1024)) + 4 * (vpn va mod 1024)) w (pm s)\<rparr>"
    by (simp add: wr32_def entry_slot(1) [OF assms])
  from set_entry(6) [OF assms(1) vpn_less assms(2) this] show ?thesis by (simp add: new_tabs_def)
qed

lemma mappages_loop_tabs:
  assumes "dir_ok s vs d" "unat lastp = unat a + 4096 * k" "mappages_loop n d a lastp pa perm s = Val (r, t)"
    and "\<And>m. vpn a \<le> m \<Longrightarrow> m \<le> vpn lastp \<Longrightarrow> m div 1024 \<in> I"
  shows "new_tabs s t d I"
  using assms
proof (induction n arbitrary: a pa s vs k)
  case (Suc n)
  obtain p t1 where w: "walkpgdir d a True s = (p, t1)" by fastforce
  have la: "vpn lastp = vpn a + k" unfolding vpn_def Suc(3) by (simp add: mult.commute)
  have "vpn a div 1024 \<in> I" using Suc(5) [of "vpn a"] la by simp
  then have n1: "new_tabs s t1 d I" using new_tabs_mono [OF walk_tabs [OF Suc(2) w]] by simp
  show ?case
  proof (cases "p = 0")
    case True
    then show ?thesis using Suc(4) w n1 by simp
  next
    case False
    then obtain ws where g: "p = tab t1 d (vpn a div 1024) + 4 * PTX a" "grown s vs t1 ws d" "has_tab t1 d (vpn a div 1024)"
      using walk_alloc [OF Suc(2), of a] w by auto
    have d1: "dir_ok t1 ws d" using g(2) by (simp add: grown_def)
    define u where "u = wr32 p (pa OR perm OR PTE_P) t1"
    have u: "dir_ok u ws d" "new_tabs t1 u d I"
      using write_entry(3) [OF d1 g(3)] write_tabs [OF d1 g(3)] by (simp_all add: u_def g(1))
    have np: "rd32 p t1 AND PTE_P = 0" using Suc(4) w False by (auto split: if_splits)
    note n2 = new_tabs_trans [OF n1 u(2)]
    show ?thesis
    proof (cases "a = lastp")
      case True
      then show ?thesis using Suc(4) w False np n2 by (simp add: u_def)
    next
      case ne: False
      then obtain k' where k: "k = Suc k'" using Suc(3) by (cases k) (auto simp: word_unat_eq_iff)
      have b: "unat a + 4096 < 4294967296" using Suc(3) k unat_lt_32 [of lastp] by linarith
      have l: "unat lastp = unat (a + of_nat PGSIZE) + 4096 * k'" using Suc(3) k b by (simp add: unat_add_uint PGSIZE_def)
      have vp: "vpn (a + of_nat PGSIZE) = Suc (vpn a)" using vpn_next [OF b] by (simp add: PGSIZE_def)
      have "mappages_loop n d (a + of_nat PGSIZE) lastp (pa + of_nat PGSIZE) perm u = Val (r, t)"
        using Suc(4) w False np ne by (simp add: u_def)
      then show ?thesis using new_tabs_trans [OF n2 Suc(1) [OF u(1) l]] Suc(5) vp by simp
    qed
  qed
qed simp

lemma mappages_tabs:
  assumes "dir_ok s vs d" "vpn va \<le> vpn (va + sz - 1)" "mappages d va sz pa perm s = Val (r, t)"
    and "\<And>m. vpn va \<le> m \<Longrightarrow> m \<le> vpn (va + sz - 1) \<Longrightarrow> m div 1024 \<in> I"
  shows "new_tabs s t d I"
proof -
  let ?k = "vpn (va + sz - 1) - vpn va"
  have l: "unat (PGROUNDDOWN (va + sz - 1)) = unat (PGROUNDDOWN va) + 4096 * ?k"
    using assms(2) unfolding vpn_PGROUNDDOWN by (simp add: algebra_simps)
  show ?thesis
    by (rule mappages_loop_tabs [OF assms(1) l assms(3) [unfolded mappages_def Let_def]])
      (use assms(4) in \<open>simp add: vpn_PGROUNDDOWN\<close>)
qed

lemma mappages_page_tabs:
  assumes "dir_ok s vs d" "unat a mod 4096 = 0" "mappages d a (of_nat PGSIZE) pa perm s = Val (r, t)"
  shows "new_tabs s t d {vpn a div 1024}"
proof -
  have "vpn (a + of_nat PGSIZE - 1) = vpn a" by (rule page_end [OF assms(2)])
  then show ?thesis using mappages_tabs [OF assms(1) _ assms(3), of "{vpn a div 1024}"] by simp
qed

end
