(* ===== verification/Xv6_Uvm.thy ===== *)
theory Xv6_Uvm
  imports Xv6_Pagemap
begin

text \<open>
  Address spaces: a directory whose user entries point to pages of their own.  The operations that
  grow and shrink a process keep this, and so does copying to user memory.
\<close>

unbundle bit_operations_syntax

section \<open>Well-formed address spaces\<close>

definition user :: "'a kstate_scheme \<Rightarrow> uint \<Rightarrow> nat \<Rightarrow> bool" where
  "user s d n \<longleftrightarrow> n < 524288 \<and> entry s d n AND PTE_P \<noteq> 0"

definition frame :: "'a kstate_scheme \<Rightarrow> uint \<Rightarrow> nat \<Rightarrow> uint" where
  "frame s d n = P2V (PTE_ADDR (entry s d n))"

definition frames :: "'a kstate_scheme \<Rightarrow> uint \<Rightarrow> uint set" where
  "frames s d = frame s d ` {n. user s d n}"

text \<open>
  Every user page has a page of memory of its own: not shared with another page number, not one of
  the tables, and not in the pool.
\<close>

definition uvm_ok :: "'a kstate_scheme \<Rightarrow> uint list \<Rightarrow> uint \<Rightarrow> bool" where
  "uvm_ok s vs d \<longleftrightarrow>
     dir_ok s vs d \<and> (\<forall>p \<in> frames s d. page_ok (kend s) p \<and> p \<notin> set vs \<and> p \<notin> own s d) \<and>
     inj_on (frame s d) {n. user s d n}"

lemma uvm_okD:
  assumes "uvm_ok s vs d"
  shows "dir_ok s vs d" "user s d n \<Longrightarrow> page_ok (kend s) (frame s d n)" "user s d n \<Longrightarrow> frame s d n \<notin> set vs"
    "user s d n \<Longrightarrow> frame s d n \<notin> own s d"
    "user s d n \<Longrightarrow> user s d m \<Longrightarrow> frame s d n = frame s d m \<Longrightarrow> n = m"
  using assms by (auto simp: uvm_ok_def frames_def inj_on_def)

lemma user_less: "user s d n \<Longrightarrow> n < 1048576"
  by (simp add: user_def)

text \<open>What an address space is depends on the entries of the map.\<close>

lemma user_cong: "(\<And>n. n < 1048576 \<Longrightarrow> entry t d n = entry s d n) \<Longrightarrow> user t d = user s d"
  by (rule ext) (auto simp: user_def)

lemma uvm_ok_present:
  assumes "uvm_ok s vs d" "dir_ok t ws d" "kend t = kend s" "own t d \<inter> frames s d = {}" "set ws \<inter> frames s d = {}"
    "user t d = user s d" "\<And>n. user s d n \<Longrightarrow> entry t d n = entry s d n"
  shows "uvm_ok t ws d" "frames t d = frames s d"
proof -
  have f: "frame t d n = frame s d n" if "user s d n" for n using assms(7) [OF that] by (simp add: frame_def)
  show fr: "frames t d = frames s d" unfolding frames_def assms(6) using f by auto
  have "inj_on (frame t d) {n. user t d n}" using assms(1) f by (auto simp: assms(6) uvm_ok_def inj_on_def)
  then show "uvm_ok t ws d" using assms fr by (auto simp: uvm_ok_def disjoint_iff)
qed

lemma uvm_ok_user:
  assumes "uvm_ok s vs d" "dir_ok t ws d" "kend t = kend s" "own t d \<inter> frames s d = {}" "set ws \<inter> frames s d = {}"
    "\<And>n. n < 524288 \<Longrightarrow> entry t d n = entry s d n"
  shows "uvm_ok t ws d" "user t d = user s d" "frames t d = frames s d"
proof -
  show u: "user t d = user s d" by (rule ext) (use assms(6) in \<open>auto simp: user_def\<close>)
  show "uvm_ok t ws d" "frames t d = frames s d"
    using uvm_ok_present [OF assms(1-5) u] assms(6) by (simp_all add: user_def)
qed

lemma uvm_ok_same:
  assumes "uvm_ok s vs d" "dir_ok t ws d" "kend t = kend s" "own t d \<inter> frames s d = {}" "set ws \<inter> frames s d = {}"
    "\<And>n. n < 1048576 \<Longrightarrow> entry t d n = entry s d n"
  shows "uvm_ok t ws d" "frames t d = frames s d"
  using uvm_ok_user [OF assms(1-5)] assms(6) by simp_all

section \<open>Unmapping\<close>

text \<open>
  The pages from number \<open>lo\<close> to before \<open>hi\<close> have been unmapped and \<open>fs\<close> put on the free list.
\<close>

definition unmapped :: "'a kstate_scheme \<Rightarrow> uint list \<Rightarrow> uint \<Rightarrow> nat \<Rightarrow> nat \<Rightarrow> uint list \<Rightarrow> 'a kstate_scheme \<Rightarrow> bool" where
  "unmapped s vs d lo hi fs t \<longleftrightarrow>
     uvm_ok t (fs @ vs) d \<and> kend t = kend s \<and> own t d = own s d \<and>
     set fs = frame s d ` {n. lo \<le> n \<and> n < hi \<and> user s d n} \<and>
     (\<forall>n < 1048576. entry t d n = (if lo \<le> n \<and> n < hi \<and> user s d n then 0 else entry s d n)) \<and>
     (\<forall>p. page_ok (kend s) p \<and> p \<notin> own s d \<and> p \<notin> set fs \<longrightarrow> page_eq s t p)"

lemma unmapped_none:
  assumes "uvm_ok s vs d" "\<And>n. lo \<le> n \<Longrightarrow> n < hi \<Longrightarrow> \<not> user s d n"
  shows "unmapped s vs d lo hi [] s"
  using assms by (auto simp: unmapped_def)

lemma unmapped_trans:
  assumes "unmapped s vs d lo mid fs t" "unmapped t (fs @ vs) d mid hi gs u" "lo \<le> mid" "mid \<le> hi"
  shows "unmapped s vs d lo hi (gs @ fs) u"
proof -
  have u: "user t d n \<longleftrightarrow> user s d n" if "mid \<le> n" for n
    using assms(1) that by (cases "n < 1048576") (auto simp: unmapped_def user_def)
  have f: "frame t d n = frame s d n" if "mid \<le> n" "user s d n" for n
    using assms(1) that user_less [OF that(2)] by (auto simp: unmapped_def frame_def)
  have "{n. lo \<le> n \<and> n < hi \<and> user s d n} = {n. lo \<le> n \<and> n < mid \<and> user s d n} \<union> {n. mid \<le> n \<and> n < hi \<and> user s d n}"
    using assms(3,4) by auto
  moreover have "frame t d ` {n. mid \<le> n \<and> n < hi \<and> user t d n} = frame s d ` {n. mid \<le> n \<and> n < hi \<and> user s d n}"
    using u f by (intro image_cong) auto
  ultimately have "set (gs @ fs) = frame s d ` {n. lo \<le> n \<and> n < hi \<and> user s d n}"
    using assms(1,2) by (simp only: unmapped_def set_append image_Un) (simp add: Un_commute)
  moreover have "entry u d n = (if lo \<le> n \<and> n < hi \<and> user s d n then 0 else entry s d n)" if n: "n < 1048576" for n
  proof (cases "mid \<le> n")
    case True
    then show ?thesis using assms n u [OF True] by (auto simp: unmapped_def)
  next
    case False
    then show ?thesis using assms n by (auto simp: unmapped_def)
  qed
  moreover have "page_eq s u p" if "page_ok (kend s) p" "p \<notin> own s d" "p \<notin> set (gs @ fs)" for p
  proof (rule page_eq_trans)
    show "page_eq s t p" "page_eq t u p" using assms(1,2) that unfolding unmapped_def by simp_all
  qed
  ultimately show ?thesis using assms(1,2) by (simp add: unmapped_def)
qed

text \<open>One page.\<close>

lemma user_has_tab: "user s d n \<Longrightarrow> has_tab s d (n div 1024)"
  by (cases "has_tab s d (n div 1024)") (simp_all add: user_def entry_def)

lemma dealloc_page:
  assumes ok: "uvm_ok s vs d" and u: "user s d (vpn a)"
  obtains s2 where "kfree (frame s d (vpn a)) s = Val s2"
    "unmapped s vs d (vpn a) (Suc (vpn a)) [frame s d (vpn a)]
       (wr32 (tab s d (vpn a div 1024) + 4 * PTX a) 0 s2)"
proof -
  let ?f = "frame s d (vpn a)"
  note D = uvm_okD [OF ok]
  note h = user_has_tab [OF u]
  obtain s2 where s2: "kfree ?f s = Val s2" "free_ok s2 (?f # vs)" "kend s2 = kend s"
      "\<And>x. x < phys ?f \<or> phys ?f + PGSIZE \<le> x \<Longrightarrow> pm s2 x = pm s x"
    using kfree_ok [OF dir_okD(1) [OF D(1)] D(2) [OF u] D(3) [OF u]] by metis
  have eq: "page_eq s s2 p" if "page_ok (kend s) p" "p \<noteq> ?f" for p
    using pages_apart [OF D(2) [OF u] that(1)] that(2) by (auto simp: page_eq_def PGSIZE_def intro!: s2(4))
  have own: "\<forall>p \<in> own s d. page_eq s s2 p"
    using eq D(1) D(4) [OF u] by (auto simp: dir_ok_def)
  note fr = own_frame [OF own]
  have d2: "dir_ok s2 (?f # vs) d"
    by (rule dir_frame [OF D(1) own s2(2,3)]) (use D(1) D(4) [OF u] in \<open>auto simp: dir_ok_def\<close>)
  have h2: "has_tab s2 d (vpn a div 1024)" "tab s2 d (vpn a div 1024) = tab s d (vpn a div 1024)"
    using h fr(2,3) by simp_all
  let ?t = "wr32 (tab s d (vpn a div 1024) + 4 * PTX a) 0 s2"
  note w = write_entry [OF d2 h2(1), where w = 0, unfolded h2(2)]
  have dt: "dir_ok ?t (?f # vs) d" and ot: "own ?t d = own s d" and kt: "kend ?t = kend s"
    using w(3,4) s2(3) fr(4) by (simp_all add: wr32_def)
  have e: "entry ?t d n = (if n = vpn a then 0 else entry s d n)" if "n < 1048576" for n
    using w(2) [OF that] fr(5) [OF that] by simp
  have ut: "user ?t d n \<longleftrightarrow> user s d n \<and> n \<noteq> vpn a" for n
    using e [of n] by (cases "n < 1048576") (auto simp: user_def)
  have ft: "frame ?t d n = frame s d n" if "user ?t d n" for n
    using that e [OF user_less [OF that]] by (auto simp: ut frame_def)
  have "page_ok (kend ?t) p \<and> p \<notin> set (?f # vs) \<and> p \<notin> own ?t d" if p: "p \<in> frames ?t d" for p
  proof -
    obtain n where n: "user ?t d n" "p = frame s d n" using p ft unfolding frames_def by blast
    then have "user s d n" "n \<noteq> vpn a" by (simp_all add: ut)
    then show ?thesis using n D(2-4) [of n] D(5) [of n "vpn a"] u kt ot by auto
  qed
  moreover have "inj_on (frame ?t d) {n. user ?t d n}"
    using D(5) ft ut by (auto simp: inj_on_def)
  ultimately have "uvm_ok ?t (?f # vs) d" using dt by (simp add: uvm_ok_def)
  moreover have "page_eq s ?t p" if "page_ok (kend s) p" "p \<notin> own s d" "p \<noteq> ?f" for p
    using eq [OF that(1,3)] w(5) [of p] that s2(3) fr(4) by (auto intro: page_eq_trans)
  moreover have "{n. vpn a \<le> n \<and> n < Suc (vpn a) \<and> user s d n} = {vpn a}" using u by auto
  ultimately have "unmapped s vs d (vpn a) (Suc (vpn a)) [?f] ?t"
    using kt ot e u by (auto simp: unmapped_def)
  then show thesis using that s2(1) by blast
qed

section \<open>deallocuvm\<close>

definition page_up :: "uint \<Rightarrow> nat" where "page_up a = (unat a + 4095) div 4096"

lemma less_page_up:
  assumes "unat a mod 4096 = 0"
  shows "a < b \<longleftrightarrow> vpn a < page_up b"
proof -
  obtain q where q: "unat a = 4096 * q" using assms by (meson mod_0_imp_dvd dvdE)
  have "q < (unat b + 4095) div 4096 \<longleftrightarrow> Suc q * 4096 \<le> unat b + 4095"
    using less_eq_div_iff_mult_less_eq [of 4096 "Suc q" "unat b + 4095"] by (simp add: Suc_le_eq)
  then show ?thesis unfolding word_less_nat_alt vpn_def page_up_def q by auto
qed

lemma unat_aligned: "unat a mod 4096 = 0 \<Longrightarrow> unat a = 4096 * vpn a"
  unfolding vpn_def by auto

lemma page_up_user: "unat b \<le> 2147483648 \<Longrightarrow> page_up b \<le> 524288"
  unfolding page_up_def by (simp add: div_le_mono [where n = "2147487743" and k = 4096, simplified])

text \<open>The step to the next page, and the jump to the first page of the next table.\<close>

lemma next_page:
  assumes "unat a mod 4096 = 0" "vpn a < 524288"
  shows "unat (a + of_nat PGSIZE) mod 4096 = 0" "vpn (a + of_nat PGSIZE) = Suc (vpn a)"
proof -
  have "unat a + 4096 < 4294967296" using unat_aligned [OF assms(1)] assms(2) by simp
  then have "unat (a + of_nat PGSIZE) = 4096 * Suc (vpn a)"
    using unat_aligned [OF assms(1)] by (simp add: unat_add_uint PGSIZE_def)
  then show "unat (a + of_nat PGSIZE) mod 4096 = 0" "vpn (a + of_nat PGSIZE) = Suc (vpn a)"
    by (simp_all add: vpn_def)
qed

lemma next_table:
  assumes "vpn a < 524288"
  shows "unat (PGADDR (PDX a + 1) 0 0) = 4096 * (1024 * Suc (vpn a div 1024))"
proof -
  let ?q = "vpn a div 1024"
  have q: "?q < 512" using assms by (simp add: div_less_iff_less_mult)
  have u: "unat (PDX a + 1) = Suc ?q" using q by (simp add: unat_add_uint PDX_vpn)
  have "unat (PGADDR (PDX a + 1) 0 0) = take_bit 32 (push_bit 22 (unat (PDX a + 1)))"
    by (simp only: PGADDR_def push_bit_of_0 or.right_neutral unsigned_push_bit_eq; simp)
  also have "\<dots> = 4194304 * Suc ?q mod 4294967296"
    unfolding u by (simp only: push_bit_eq_mult take_bit_eq_mod; simp add: mult.commute)
  also have "\<dots> = 4194304 * Suc ?q" using q by (intro mod_less) simp
  finally show ?thesis by simp
qed

lemma jump_page:
  assumes "vpn a < 524288"
  shows "unat (PGADDR (PDX a + 1) 0 0 - of_nat PGSIZE + of_nat PGSIZE) mod 4096 = 0"
    "vpn (PGADDR (PDX a + 1) 0 0 - of_nat PGSIZE + of_nat PGSIZE) = 1024 * Suc (vpn a div 1024)"
  using next_table [OF assms] by (simp_all add: vpn_def)

lemma unmapped_skip:
  assumes "unmapped s vs d mid hi fs t" "lo \<le> mid" "\<And>n. lo \<le> n \<Longrightarrow> n < mid \<Longrightarrow> \<not> user s d n"
  shows "unmapped s vs d lo hi fs t"
proof -
  have "lo \<le> n \<and> n < hi \<and> user s d n \<longleftrightarrow> mid \<le> n \<and> n < hi \<and> user s d n" for n
    using assms(2,3) by (cases "n < mid") auto
  then show ?thesis using assms(1) by (simp add: unmapped_def)
qed

lemma frame_addr:
  assumes "uvm_ok s vs d" "user s d n"
  shows "PTE_ADDR (entry s d n) \<noteq> 0"
proof -
  have "unat (kend s) \<le> unat (frame s d n)" "unat KERNBASE < unat (kend s)"
    using uvm_okD(2) [OF assms] dir_okD(4) [OF uvm_okD(1) [OF assms(1)]]
    by (simp_all add: page_ok_def word_le_nat_alt word_less_nat_alt)
  then have "frame s d n \<noteq> KERNBASE" by auto
  then show ?thesis by (auto simp: frame_def P2V_def)
qed

lemma deallocuvm_loop_unmaps:
  assumes "uvm_ok s vs d" "unat a mod 4096 = 0" "page_up oldsz \<le> 524288" "page_up oldsz - vpn a \<le> n"
  shows "\<exists>fs t. deallocuvm_loop n d a oldsz s = Val t \<and> unmapped s vs d (vpn a) (page_up oldsz) fs t"
  using assms
proof (induction n arbitrary: a s vs rule: less_induct)
  case (less n)
  note D = uvm_okD [OF less(2)] and sl = deallocuvm_loop.simps [of n d a oldsz s]
  let ?hi = "page_up oldsz"
  show ?case
  proof (cases "a < oldsz")
    case False
    then have "\<not> vpn a < ?hi" using less_page_up [OF less(3)] by simp
    then show ?thesis using False sl unmapped_none [OF less(2), of "vpn a" ?hi] by auto
  next
    case True
    then have lt: "vpn a < ?hi" using less_page_up [OF less(3)] by simp
    then have lo: "vpn a < 524288" using less(4) by simp
    obtain k where k: "n = Suc k" using lt less(5) by (cases n) auto
    note np = next_page [OF less(3) lo]
    note IH = less(1) [of k]
    show ?thesis
    proof (cases "has_tab s d (vpn a div 1024)")
      case no: False
      let ?b = "PGADDR (PDX a + 1) 0 0 - of_nat PGSIZE + of_nat PGSIZE"
      note jp = jump_page [OF lo]
      have mid: "vpn a < vpn ?b" unfolding jp(2)
        by (metis div_mult_mod_eq mod_less_divisor mult.commute mult_Suc_right add.commute add_less_cancel_right zero_less_numeral)
      have "page_up oldsz - vpn ?b \<le> k" using less(5) k mid by simp
      then obtain fs t where t: "deallocuvm_loop k d ?b oldsz s = Val t" "unmapped s vs d (vpn ?b) ?hi fs t"
        using IH [OF _ less(2) jp(1) less(4)] k by auto
      have "\<not> user s d m" if "vpn a \<le> m" "m < vpn ?b" for m
      proof -
        have "m div 1024 = vpn a div 1024"
          using that unfolding jp(2) by (metis div_le_mono le_antisym less_Suc_eq_le less_mult_imp_div_less mult.commute)
        then show ?thesis using no user_has_tab by metis
      qed
      then have "unmapped s vs d (vpn a) ?hi fs t" using unmapped_skip [OF t(2)] mid by simp
      then show ?thesis using sl True k walk_absent [OF dir_okD(2) [OF D(1)] no] t(1) by auto
    next
      case h: True
      let ?p = "tab s d (vpn a div 1024) + 4 * PTX a"
      note w = walk_present [OF dir_okD(2) [OF D(1)] h, of False] and e = entry_slot(2,3) [OF D(1) h]
      have f: "page_up oldsz - vpn (a + of_nat PGSIZE) \<le> k" using less(5) k lt np(2) by simp
      show ?thesis
      proof (cases "user s d (vpn a)")
        case u: True
        obtain s2 where s2: "kfree (frame s d (vpn a)) s = Val s2"
            "unmapped s vs d (vpn a) (Suc (vpn a)) [frame s d (vpn a)] (wr32 ?p 0 s2)"
          using dealloc_page [OF less(2) u] by metis
        then have ok: "uvm_ok (wr32 ?p 0 s2) ([frame s d (vpn a)] @ vs) d" by (simp add: unmapped_def)
        obtain fs t where t: "deallocuvm_loop k d (a + of_nat PGSIZE) oldsz (wr32 ?p 0 s2) = Val t"
            "unmapped (wr32 ?p 0 s2) ([frame s d (vpn a)] @ vs) d (Suc (vpn a)) ?hi fs t"
          using IH [OF _ ok np(1) less(4) f] k np(2) by auto
        have "deallocuvm_loop n d a oldsz s = Val t"
          using sl True k w e u s2(1) frame_addr [OF less(2) u] t(1) by (simp add: user_def frame_def)
        then show ?thesis using unmapped_trans [OF s2(2) t(2)] lt by auto
      next
        case u: False
        obtain fs t where t: "deallocuvm_loop k d (a + of_nat PGSIZE) oldsz s = Val t"
            "unmapped s vs d (Suc (vpn a)) ?hi fs t"
          using IH [OF _ less(2) np(1) less(4) f] k np(2) by auto
        have "deallocuvm_loop n d a oldsz s = Val t"
          using sl True k w e u lo t(1) by (simp add: user_def)
        moreover have "unmapped s vs d (vpn a) ?hi fs t"
          by (rule unmapped_skip [OF t(2)]) (use u in \<open>auto simp: less_Suc_eq le_less_Suc_eq\<close>)
        ultimately show ?thesis by blast
      qed
    qed
  qed
qed

lemma deallocuvm_unmaps:
  assumes "uvm_ok s vs d" "newsz < oldsz" "unat oldsz \<le> 2147483648"
  shows "\<exists>fs t. deallocuvm d oldsz newsz s = Val (newsz, t) \<and> unmapped s vs d (page_up newsz) (page_up oldsz) fs t"
proof -
  have b: "unat newsz + 4095 < 4294967296" using assms(2,3) by (simp add: word_less_nat_alt)
  note r = PGROUNDUP_props [OF b]
  have "unat (newsz + 4095) = unat newsz + 4095" using b by (simp add: unat_add_uint)
  then have v: "vpn (PGROUNDUP newsz) = page_up newsz"
    unfolding vpn_def page_up_def PGROUNDUP_def unat_round_down by simp
  have "\<exists>fs t. deallocuvm_loop 1048576 d (PGROUNDUP newsz) oldsz s = Val t \<and>
      unmapped s vs d (vpn (PGROUNDUP newsz)) (page_up oldsz) fs t"
    by (rule deallocuvm_loop_unmaps [OF assms(1) r(1) page_up_user [OF assms(3)]])
      (use page_up_user [OF assms(3)] in simp)
  then show ?thesis using assms(2) v by (auto simp: deallocuvm_def)
qed

section \<open>allocuvm\<close>

text \<open>
  The user pages from number \<open>lo\<close> to before \<open>hi\<close> are new: zeroed pages of the pool, writable and
  for the user.
\<close>

definition new_page :: "'a kstate_scheme \<Rightarrow> uint \<Rightarrow> nat \<Rightarrow> bool" where
  "new_page t d n \<longleftrightarrow> entry t d n = V2P (frame t d n) OR (PTE_W OR PTE_U) OR PTE_P \<and>
     (\<forall>k < 4096. pm t (phys (frame t d n) + k) = 0)"

definition alloced :: "'a kstate_scheme \<Rightarrow> uint list \<Rightarrow> uint \<Rightarrow> nat \<Rightarrow> nat \<Rightarrow> 'a kstate_scheme \<Rightarrow> uint list \<Rightarrow> bool" where
  "alloced s vs d lo hi t ws \<longleftrightarrow>
     uvm_ok t ws d \<and> kend t = kend s \<and> set ws \<subseteq> set vs \<and> own t d \<subseteq> own s d \<union> set vs \<and>
     (\<forall>n. lo \<le> n \<and> n < hi \<longrightarrow> frame t d n \<in> set vs \<and> new_page t d n) \<and>
     (\<forall>n < 1048576. \<not> (lo \<le> n \<and> n < hi) \<longrightarrow> entry t d n = entry s d n) \<and>
     (\<forall>p. page_ok (kend s) p \<and> p \<notin> own s d \<and> p \<notin> set vs \<longrightarrow> page_eq s t p)"

text \<open>An allocation that failed: none of the pages is mapped, all others as before.\<close>

definition kept :: "'a kstate_scheme \<Rightarrow> uint list \<Rightarrow> uint \<Rightarrow> nat \<Rightarrow> nat \<Rightarrow> 'a kstate_scheme \<Rightarrow> uint list \<Rightarrow> bool" where
  "kept s vs d lo hi t ws \<longleftrightarrow>
     uvm_ok t ws d \<and> (\<forall>n. lo \<le> n \<and> n < hi \<longrightarrow> \<not> user t d n) \<and>
     (\<forall>n < 1048576. \<not> (lo \<le> n \<and> n < hi) \<longrightarrow> entry t d n = entry s d n) \<and>
     (\<forall>p. page_ok (kend s) p \<and> p \<notin> own s d \<and> p \<notin> set vs \<longrightarrow> page_eq s t p)"

lemma alloced_none: "uvm_ok s vs d \<Longrightarrow> alloced s vs d lo lo s vs"
  by (auto simp: alloced_def)

lemma new_user: "new_page t d n \<Longrightarrow> n < 524288 \<Longrightarrow> user t d n"
  by (simp add: new_page_def user_def)

text \<open>The first page of the pool is taken, for use outside of the tables, and filled.\<close>

lemma take_filled:
  fixes s z :: "'a kstate_scheme"
  assumes ok: "uvm_ok s (v # vs) d" and z: "freelist z = ld32 (pm s) (phys v)" "kend z = kend s"
    "\<forall>a. a < phys v \<or> phys v + PGSIZE \<le> a \<longrightarrow> pm z a = pm s a"
  shows "uvm_ok z vs d" "own z d = own s d" "frames z d = frames s d" "page_ok (kend s) v" "v \<notin> own s d"
    "v \<notin> frames s d" "v \<notin> set vs" "v \<noteq> 0"
    "\<And>n. n < 1048576 \<Longrightarrow> entry z d n = entry s d n" "\<And>p. page_ok (kend s) p \<Longrightarrow> p \<noteq> v \<Longrightarrow> page_eq s z p"
proof -
  note D = uvm_okD(1) [OF ok]
  note f = dir_okD(1) [OF D]
  show v: "page_ok (kend s) v" "v \<notin> set vs" using f by (simp_all add: free_ok_def)
  show "v \<noteq> 0" using page_ok_phys(5) [OF v(1)] .
  show vo: "v \<notin> own s d" "v \<notin> frames s d" using ok by (auto simp: uvm_ok_def dir_ok_def)
  show eq: "page_eq s z p" if "page_ok (kend s) p" "p \<noteq> v" for p
    using pages_apart [OF v(1) that(1)] that(2) by (auto simp: page_eq_def PGSIZE_def intro!: z(3) [rule_format])
  have own: "\<forall>p \<in> own s d. page_eq s z p" using D eq vo(1) unfolding dir_ok_def by blast
  note fr = own_frame [OF own]
  show oz: "own z d = own s d" and en: "\<And>n. n < 1048576 \<Longrightarrow> entry z d n = entry s d n" by (fact fr(4,5))+
  have "ld32 (pm z) (phys w) = ld32 (pm s) (phys w)" if "w \<in> set vs" for w
  proof -
    have "page_eq s z w" using f that v(2) by (intro eq) (auto simp: free_ok_def)
    then show ?thesis using page_eq_ld32 [of s z w 0] by simp
  qed
  moreover have "chain (pm s) (freelist z) vs" using f z(1) by (simp add: free_ok_def)
  ultimately have "free_ok z vs" using f z(2) chain_cong by (simp add: free_ok_def)
  then have dz: "dir_ok z vs d" by (intro dir_frame [OF D own _ z(2)]) (use D in \<open>auto simp: dir_ok_def\<close>)
  show "uvm_ok z vs d" "frames z d = frames s d"
    using uvm_ok_same [OF ok dz z(2) _ _ en] ok oz by (auto simp: uvm_ok_def)
qed

text \<open>Taking a page out of the pool for use outside of the tables.\<close>

lemma take_page:
  assumes ok: "uvm_ok s (v # vs) d" and z: "z = zero_page v (s\<lparr>freelist := ld32 (pm s) (phys v)\<rparr>)"
  shows "uvm_ok z vs d" "own z d = own s d" "frames z d = frames s d" "page_ok (kend s) v" "v \<notin> own s d"
    "v \<notin> frames s d" "v \<notin> set vs" "kend z = kend s" "v \<noteq> 0"
    "\<And>n. n < 1048576 \<Longrightarrow> entry z d n = entry s d n" "\<And>p. page_ok (kend s) p \<Longrightarrow> p \<noteq> v \<Longrightarrow> page_eq s z p"
    "\<And>k. k < 4096 \<Longrightarrow> pm z (phys v + k) = 0"
    "kalloc s = (v, s\<lparr>freelist := ld32 (pm s) (phys v)\<rparr>)"
proof -
  note f = dir_okD(1) [OF uvm_okD(1) [OF ok]]
  have "\<forall>a. a < phys v \<or> phys v + PGSIZE \<le> a \<longrightarrow> pm z a = pm s a"
    by (auto simp: z zero_page_def memset_eq filled_def)
  then show "uvm_ok z vs d" "own z d = own s d" "frames z d = frames s d" "page_ok (kend s) v" "v \<notin> own s d"
    "v \<notin> frames s d" "v \<notin> set vs" "v \<noteq> 0"
    "\<And>n. n < 1048576 \<Longrightarrow> entry z d n = entry s d n" "\<And>p. page_ok (kend s) p \<Longrightarrow> p \<noteq> v \<Longrightarrow> page_eq s z p"
    using take_filled [OF ok, of z] by (simp_all add: z zero_page_def)
  show "kend z = kend s" "\<And>k. k < 4096 \<Longrightarrow> pm z (phys v + k) = 0"
    "kalloc s = (v, s\<lparr>freelist := ld32 (pm s) (phys v)\<rparr>)"
    using zeroed_page [OF f refl, folded z] taken_page [OF f] by blast+
qed

text \<open>Adding one user page whose memory is taken already.\<close>

lemma uvm_ok_add:
  assumes ok: "uvm_ok s vs d" and g: "grown s vs t ws d" and n: "n < 524288" "\<not> user s d n"
    and v: "page_ok (kend s) v" "v \<notin> own s d" "v \<notin> frames s d" "v \<notin> set vs"
    and e: "\<forall>m < 1048576. entry t d m = (if m = n then x else entry s d m)" and x: "x AND PTE_P \<noteq> 0" "P2V (PTE_ADDR x) = v"
  shows "uvm_ok t ws d" "frame t d n = v" "frames t d = insert v (frames s d)"
proof -
  have ut: "user t d m \<longleftrightarrow> m = n \<or> user s d m" for m
    using e n x by (cases "m < 1048576") (auto simp: user_def)
  show fn: "frame t d n = v" using e n(1) x(2) by (simp add: frame_def)
  have ft: "frame t d m = frame s d m" if "user s d m" for m
    using e user_less [OF that] that n(2) by (auto simp: frame_def)
  have "{m. user t d m} = insert n {m. user s d m}" using ut by auto
  then have "frames t d = insert v (frame t d ` {m. user s d m})" by (simp add: frames_def fn)
  also have "frame t d ` {m. user s d m} = frames s d" unfolding frames_def using ft by (auto intro: image_cong)
  finally show fr: "frames t d = insert v (frames s d)" .
  have "v \<noteq> frame s d m" if "user s d m" for m using v(3) that by (auto simp: frames_def)
  then have "inj_on (frame t d) {m. user t d m}"
    using uvm_okD(5) [OF ok] ft fn ut by (auto simp: inj_on_def) metis+
  moreover have "page_ok (kend t) p \<and> p \<notin> set ws \<and> p \<notin> own t d" if "p \<in> frames t d" for p
    using that ok g v unfolding fr by (auto simp: uvm_ok_def grown_def)
  ultimately show "uvm_ok t ws d" using g by (simp add: uvm_ok_def grown_def)
qed

lemma grown_same:
  assumes "uvm_ok s vs d" "grown s vs t ws d" "\<And>n. n < 1048576 \<Longrightarrow> entry t d n = entry s d n"
  shows "uvm_ok t ws d" "frames t d = frames s d"
proof -
  have "dir_ok t ws d" "kend t = kend s" "own t d \<inter> frames s d = {}" "set ws \<inter> frames s d = {}"
    using assms(1,2) by (auto simp: grown_def uvm_ok_def)
  then show "uvm_ok t ws d" "frames t d = frames s d"
    using uvm_ok_same [OF assms(1)] assms(3) by blast+
qed

lemma new_entry:
  assumes "page_ok e v"
  shows "(V2P v OR (PTE_W OR PTE_U) OR PTE_P) AND PTE_P \<noteq> 0" "P2V (PTE_ADDR (V2P v OR (PTE_W OR PTE_U) OR PTE_P)) = v"
proof -
  show "(V2P v OR (PTE_W OR PTE_U) OR PTE_P) AND PTE_P \<noteq> 0" by (rule present_or)
  have "V2P v OR (PTE_W OR PTE_U) OR PTE_P = V2P v OR PTE_P OR PTE_W OR PTE_U" by (simp add: ac_simps)
  then show "P2V (PTE_ADDR (V2P v OR (PTE_W OR PTE_U) OR PTE_P)) = v" using tab_value [OF assms] by simp
qed

lemma alloc_page:
  assumes ok: "uvm_ok s (v # vs) d" and z: "z = zero_page v (s\<lparr>freelist := ld32 (pm s) (phys v)\<rparr>)"
    and a: "unat a mod 4096 = 0" "vpn a < 524288" "\<not> user s d (vpn a)"
  obtains r t ws where "mappages d a (of_nat PGSIZE) (V2P v) (PTE_W OR PTE_U) z = Val (r, t)"
    "r = 0 \<and> alloced s (v # vs) d (vpn a) (Suc (vpn a)) t ws \<and> length vs \<le> Suc (length ws) \<or>
     r = - 1 \<and> vs = [] \<and> alloced s (v # vs) d (vpn a) (vpn a) t [] \<and> v \<notin> own t d \<and> v \<notin> frames t d"
proof -
  note tp = take_page [OF ok z]
  note D = uvm_okD(1) [OF tp(1)]
  have no: "entry z d (vpn a) AND PTE_P = 0" using a(2,3) tp(10) by (simp add: user_def)
  obtain r t ws where m: "mappages d a (of_nat PGSIZE) (V2P v) (PTE_W OR PTE_U) z = Val (r, t)" "grown z vs t ws d"
    and le: "length vs \<le> Suc (length ws)"
    and c: "r = 0 \<and> (\<forall>m < 1048576. entry t d m = (if m = vpn a then V2P v OR (PTE_W OR PTE_U) OR PTE_P else entry z d m)) \<or>
      r = - 1 \<and> vs = [] \<and> ws = [] \<and> (\<forall>m < 1048576. entry t d m = entry z d m)"
    using mappages_page [OF D a(1) no] by blast
  have k: "kend t = kend s" "set ws \<subseteq> set vs" "own t d \<subseteq> own s d \<union> set vs"
    using m(2) tp(2,8) by (auto simp: grown_def)
  have eq: "page_eq s t p" if "page_ok (kend s) p" "p \<notin> own s d" "p \<notin> set (v # vs)" for p
    using that m(2) tp(2,8) tp(11) [of p] by (auto simp: grown_def intro: page_eq_trans)
  have nz: "\<not> user z d (vpn a)" using no by (simp add: user_def)
  have vt: "page_eq z t v" using m(2) tp(2,4,5,7,8) by (simp add: grown_def)
  from c show thesis
  proof
    assume r: "r = 0 \<and> (\<forall>m < 1048576. entry t d m = (if m = vpn a then V2P v OR (PTE_W OR PTE_U) OR PTE_P else entry z d m))"
    note add = uvm_ok_add [OF tp(1) m(2) a(2) nz, of v "V2P v OR (PTE_W OR PTE_U) OR PTE_P"]
    have ad: "uvm_ok t ws d" "frame t d (vpn a) = v"
      by (rule add(1) add(2); use tp r new_entry [OF tp(4)] in simp)+
    have "pm t (phys v + k) = 0" if "k < 4096" for k using vt tp(12) [OF that] that by (simp add: page_eq_def)
    then have "new_page t d (vpn a)" using r ad(2) by (simp add: new_page_def)
    then have "alloced s (v # vs) d (vpn a) (Suc (vpn a)) t ws"
      using ad k eq r tp(10) unfolding alloced_def by (auto simp: le_less_Suc_eq)
    then show thesis using that m(1) r le by blast
  next
    assume r: "r = - 1 \<and> vs = [] \<and> ws = [] \<and> (\<forall>m < 1048576. entry t d m = entry z d m)"
    note s' = grown_same [OF tp(1) m(2)]
    have "uvm_ok t ws d" "frames t d = frames z d" by (rule s'(1) s'(2); use r in simp)+
    moreover have "v \<notin> own t d" using k(3) tp(5,7) by auto
    moreover have "alloced s (v # vs) d (vpn a) (vpn a) t []"
      using calculation(1) k eq r tp(10) by (auto simp: alloced_def)
    ultimately show thesis using that [OF m(1), of ws] r tp(3,6) by simp
  qed
qed

lemma alloced_trans:
  assumes "alloced s vs d lo mid t us" "alloced t us d mid hi u ws" "lo \<le> mid" "mid \<le> hi" "mid \<le> 524288"
  shows "alloced s vs d lo hi u ws"
proof -
  have same: "entry u d n = entry t d n" if "n < mid" for n
    using assms(2,5) that by (auto simp: alloced_def)
  have old: "frame u d n \<in> set vs \<and> new_page u d n" if n: "lo \<le> n" "n < mid" for n
  proof -
    have t: "frame t d n \<in> set vs" "new_page t d n" using assms(1) n by (auto simp: alloced_def)
    have us: "user t d n" using new_user [OF t(2)] n(2) assms(5) by simp
    have "uvm_ok t us d" using assms(1) by (simp add: alloced_def)
    note D = uvm_okD(2-4) [OF this us]
    have "page_eq t u (frame t d n)" using assms(2) D by (auto simp: alloced_def)
    moreover have "frame u d n = frame t d n" using same [OF n(2)] by (simp add: frame_def)
    ultimately show ?thesis using t same [OF n(2)] by (simp add: new_page_def page_eq_def)
  qed
  have new: "frame u d n \<in> set vs \<and> new_page u d n" if "mid \<le> n" "n < hi" for n
    using assms(1,2) that by (auto simp: alloced_def)
  have "entry u d n = entry s d n" if "n < 1048576" "\<not> (lo \<le> n \<and> n < hi)" for n
    using assms that by (auto simp: alloced_def)
  moreover have "page_eq s u p" if "page_ok (kend s) p" "p \<notin> own s d" "p \<notin> set vs" for p
  proof (rule page_eq_trans)
    show "page_eq s t p" using assms(1) that by (simp add: alloced_def)
    show "page_eq t u p" using assms(1,2) that by (auto simp: alloced_def)
  qed
  moreover have "frame u d n \<in> set vs \<and> new_page u d n" if "lo \<le> n" "n < hi" for n
    using old new that by (cases "n < mid") auto
  ultimately show ?thesis using assms(1,2) unfolding alloced_def by auto
qed

text \<open>Giving up: what has been allocated is unmapped again.\<close>

lemma alloced_undone:
  assumes al: "alloced s vs d lo mid t ws" and un: "unmapped t ws d lo hi fs u" and "mid \<le> hi" "hi \<le> 524288"
    and free: "\<And>n. mid \<le> n \<Longrightarrow> n < hi \<Longrightarrow> \<not> user s d n"
  shows "kept s vs d lo hi u (fs @ ws)" "set fs \<subseteq> frames t d" "own u d = own t d" "frames u d \<subseteq> frames t d"
proof -
  have tu: "user t d n \<longleftrightarrow> n < mid" if "lo \<le> n" "n < hi" for n
  proof (cases "n < mid")
    case True
    then have "new_page t d n" using al that(1) by (simp add: alloced_def)
    then show ?thesis using True new_user that(2) assms(4) by fastforce
  next
    case False
    then have "entry t d n = entry s d n" using al that assms(4) by (simp add: alloced_def)
    then show ?thesis using False free [of n] that by (simp add: user_def)
  qed
  have fs: "set fs \<subseteq> set vs"
  proof
    fix p assume "p \<in> set fs"
    then obtain n where n: "p = frame t d n" "lo \<le> n" "n < hi" "user t d n" using un by (auto simp: unmapped_def)
    then show "p \<in> set vs" using al tu [of n] by (simp add: alloced_def)
  qed
  have "\<not> user u d n" if "lo \<le> n" "n < hi" for n
    using un that assms(4) by (auto simp: unmapped_def user_def)
  moreover have "entry u d n = entry s d n" if "n < 1048576" "\<not> (lo \<le> n \<and> n < hi)" for n
    using un al that assms(3) by (auto simp: unmapped_def alloced_def)
  moreover have "page_eq s u p" if "page_ok (kend s) p" "p \<notin> own s d" "p \<notin> set vs" for p
  proof (rule page_eq_trans)
    show "page_eq s t p" using al that by (simp add: alloced_def)
    have "p \<notin> set fs" "p \<notin> own t d" "page_ok (kend t) p" using al that fs by (auto simp: alloced_def)
    then show "page_eq t u p" using un by (simp add: unmapped_def)
  qed
  ultimately show "kept s vs d lo hi u (fs @ ws)" using un by (simp add: kept_def unmapped_def)
  show "set fs \<subseteq> frames t d" "own u d = own t d" using un by (auto simp: unmapped_def frames_def)
  show "frames u d \<subseteq> frames t d"
  proof
    fix p assume "p \<in> frames u d"
    then obtain n where n: "user u d n" "p = frame u d n" by (auto simp: frames_def)
    then have "user t d n \<and> p = frame t d n"
      using un user_less [OF n(1)] by (auto simp: unmapped_def user_def frame_def split: if_splits)
    then show "p \<in> frames t d" by (auto simp: frames_def)
  qed
qed

text \<open>Putting back a page that nobody uses.\<close>

lemma free_unused:
  assumes "uvm_ok s vs d" "page_ok (kend s) v" "v \<notin> set vs" "v \<notin> own s d" "v \<notin> frames s d"
  obtains t where "kfree v s = Val t" "uvm_ok t (v # vs) d" "own t d = own s d"
    "\<And>n. n < 1048576 \<Longrightarrow> entry t d n = entry s d n"
    "\<And>p. page_ok (kend s) p \<Longrightarrow> p \<noteq> v \<Longrightarrow> page_eq s t p" "kend t = kend s"
proof -
  note D = uvm_okD(1) [OF assms(1)]
  obtain t where t: "kfree v s = Val t" "free_ok t (v # vs)" "kend t = kend s"
      "\<And>x. x < phys v \<or> phys v + PGSIZE \<le> x \<Longrightarrow> pm t x = pm s x"
    using kfree_ok [OF dir_okD(1) [OF D] assms(2,3)] by metis
  have eq: "page_eq s t p" if "page_ok (kend s) p" "p \<noteq> v" for p
    using pages_apart [OF assms(2) that(1)] that(2) by (auto simp: page_eq_def PGSIZE_def intro!: t(4))
  have own: "\<forall>p \<in> own s d. page_eq s t p" using eq D assms(4) unfolding dir_ok_def by blast
  note fr = own_frame [OF own]
  have dt: "dir_ok t (v # vs) d"
    by (rule dir_frame [OF D own t(2,3)]) (use D assms(4) in \<open>auto simp: dir_ok_def\<close>)
  have "uvm_ok t (v # vs) d"
    using uvm_ok_same(1) [OF assms(1) dt t(3) _ _ fr(5)] assms(1,5) fr(4) by (auto simp: uvm_ok_def)
  then show thesis using that t(1,3) fr(4,5) eq by blast
qed

lemma kept_free:
  assumes "kept s vs d lo hi t ws" "uvm_ok u (v # ws) d" "v \<in> set vs"
    "\<And>n. n < 1048576 \<Longrightarrow> entry u d n = entry t d n" "\<And>p. page_ok (kend s) p \<Longrightarrow> p \<noteq> v \<Longrightarrow> page_eq t u p"
  shows "kept s vs d lo hi u (v # ws)"
proof -
  have "user u d = user t d" using assms(4) by (rule user_cong)
  moreover have "page_eq s u p" if "page_ok (kend s) p" "p \<notin> own s d" "p \<notin> set vs" for p
    using assms(1,3) assms(5) [of p] that by (auto simp: kept_def intro: page_eq_trans)
  ultimately show ?thesis using assms(1,2,4) by (simp add: kept_def)
qed

lemma allocuvm_loop_allocs:
  assumes "alloced s0 vs0 d lo (vpn a) s vs" "lo \<le> vpn a" "unat a mod 4096 = 0"
    and "oldsz < newsz" "unat newsz \<le> 2147483648" "page_up oldsz = lo" "page_up newsz - vpn a \<le> n"
    and "\<And>m. vpn a \<le> m \<Longrightarrow> m < page_up newsz \<Longrightarrow> \<not> user s0 d m" "vpn a \<le> page_up newsz"
    and "length vs0 \<le> length vs + 2 * (vpn a - lo)"
  shows "\<exists>r t ws. allocuvm_loop n d oldsz newsz a s = Val (r, t) \<and>
    (r = newsz \<and> alloced s0 vs0 d lo (page_up newsz) t ws \<or>
     r = 0 \<and> kept s0 vs0 d lo (page_up newsz) t ws \<and> length vs0 < 2 * (page_up newsz - lo))"
  using assms
proof (induction n arbitrary: a s vs)
  case 0
  then have "\<not> a < newsz" "vpn a = page_up newsz" using less_page_up by auto
  then show ?case using 0 by (auto simp: allocuvm_loop.simps)
next
  case (Suc n)
  let ?hi = "page_up newsz"
  note sl = allocuvm_loop.simps [of "Suc n" d oldsz newsz a s] and hi = page_up_user [OF Suc(6)]
  have ok: "uvm_ok s vs d" and ks: "kend s = kend s0" and vs: "set vs \<subseteq> set vs0" using Suc(2) by (simp_all add: alloced_def)
  show ?case
  proof (cases "a < newsz")
    case False
    then have "vpn a = ?hi" using less_page_up [OF Suc(4)] Suc(10) by simp
    then show ?thesis using False sl Suc(2) by auto
  next
    case True
    then have lt: "vpn a < ?hi" using less_page_up [OF Suc(4)] by simp
    then have lo: "vpn a < 524288" using hi by simp
    note undo = alloced_undone [OF _ _ _ hi Suc(9)]
    show ?thesis
    proof (cases vs)
      case Nil
      obtain fs t where t: "deallocuvm d newsz oldsz s = Val (oldsz, t)" "unmapped s [] d lo ?hi fs t"
        using deallocuvm_unmaps [OF ok [unfolded Nil] Suc(5,6)] Suc(7) by auto
      have "kept s0 vs0 d lo ?hi t (fs @ [])" using undo(1) [OF Suc(2) [unfolded Nil] t(2)] lt by simp
      moreover have "length vs0 < 2 * (?hi - lo)" using Suc(3,11) lt Nil by auto
      ultimately show ?thesis
        using sl True kalloc_empty [OF dir_okD(1) [OF uvm_okD(1) [OF ok [unfolded Nil]]]] t(1) by auto
    next
      case (Cons v us)
      define z where "z = zero_page v (s\<lparr>freelist := ld32 (pm s) (phys v)\<rparr>)"
      note tp = take_page [OF ok [unfolded Cons] z_def]
      have nu: "\<not> user s d (vpn a)" using Suc(2) Suc(9) [of "vpn a"] lt lo by (auto simp: alloced_def user_def)
      obtain r t ws where m: "mappages d a (of_nat PGSIZE) (V2P v) (PTE_W OR PTE_U) z = Val (r, t)"
        and c: "r = 0 \<and> alloced s (v # us) d (vpn a) (Suc (vpn a)) t ws \<and> length us \<le> Suc (length ws) \<or>
          r = - 1 \<and> us = [] \<and> alloced s (v # us) d (vpn a) (vpn a) t [] \<and> v \<notin> own t d \<and> v \<notin> frames t d"
        using alloc_page [OF ok [unfolded Cons] z_def Suc(4) lo nu] by blast
      have st: "allocuvm_loop (Suc n) d oldsz newsz a s =
          (if r < 0 then andthen (deallocuvm d newsz oldsz t) (\<lambda>(_, s3). andthen (kfree v s3) (\<lambda>s4. Val (0, s4)))
           else allocuvm_loop n d oldsz newsz (a + of_nat PGSIZE) t)"
        using sl True tp(9,13) m by (simp add: z_def)
      from c show ?thesis
      proof
        assume r: "r = 0 \<and> alloced s (v # us) d (vpn a) (Suc (vpn a)) t ws \<and> length us \<le> Suc (length ws)"
        note np = next_page [OF Suc(4) lo]
        have al: "alloced s0 vs0 d lo (vpn (a + of_nat PGSIZE)) t ws"
          using alloced_trans [OF Suc(2) [unfolded Cons], of "Suc (vpn a)" t ws] r Suc(3) lo np(2) by simp
        have "\<exists>r u ws. allocuvm_loop n d oldsz newsz (a + of_nat PGSIZE) t = Val (r, u) \<and>
            (r = newsz \<and> alloced s0 vs0 d lo ?hi u ws \<or>
             r = 0 \<and> kept s0 vs0 d lo ?hi u ws \<and> length vs0 < 2 * (?hi - lo))"
          by (rule Suc(1) [OF al _ np(1) Suc(5,6,7)]) (use Suc(3,8,9,11) lt np(2) r Cons in auto)
        then show ?thesis using st r by auto
      next
        assume r: "r = - 1 \<and> us = [] \<and> alloced s (v # us) d (vpn a) (vpn a) t [] \<and> v \<notin> own t d \<and> v \<notin> frames t d"
        then have "alloced s (v # us) d (vpn a) (vpn a) t []" by blast
        then have al: "alloced s0 vs0 d lo (vpn a) t []"
          using alloced_trans [OF Suc(2) [unfolded Cons]] Suc(3) lo by simp
        have tok: "uvm_ok t [] d" using al by (simp add: alloced_def)
        obtain fs u where u: "deallocuvm d newsz oldsz t = Val (oldsz, u)" "unmapped t [] d lo ?hi fs u"
          using deallocuvm_unmaps [OF tok Suc(5,6)] Suc(7) by auto
        note un = undo [OF al u(2)]
        have k: "kept s0 vs0 d lo ?hi u fs" using un(1) lt by simp
        have "uvm_ok u fs d" "page_ok (kend u) v" "v \<notin> set fs" "v \<notin> own u d" "v \<notin> frames u d"
          using u(2) un(2-4) lt r tp(4) ks al by (auto simp: unmapped_def alloced_def)
        then obtain w where w: "kfree v u = Val w" "uvm_ok w (v # fs) d"
            "\<And>n. n < 1048576 \<Longrightarrow> entry w d n = entry u d n" "\<And>p. page_ok (kend u) p \<Longrightarrow> p \<noteq> v \<Longrightarrow> page_eq u w p"
          using free_unused by metis
        have "kend u = kend s0" using u(2) al by (simp add: unmapped_def alloced_def)
        then have "kept s0 vs0 d lo ?hi w (v # fs)" using kept_free [OF k w(2) _ w(3)] w(4) vs Cons by auto
        moreover have "length vs0 < 2 * (?hi - lo)" using Suc(3,11) lt Cons r by auto
        ultimately show ?thesis using st r u(1) w(1) by auto
      qed
    qed
  qed
qed

lemma vpn_page_up:
  assumes "unat a + 4095 < 4294967296"
  shows "vpn (PGROUNDUP a) = page_up a"
proof -
  have "unat (a + 4095) = unat a + 4095" using assms by (simp add: unat_add_uint)
  then show ?thesis unfolding vpn_def page_up_def PGROUNDUP_def unat_round_down by simp
qed

text \<open>A page of user memory that no operation on the pool touches.\<close>

lemma user_page_kept:
  assumes "uvm_ok s vs d" "user s d n" "\<forall>p. page_ok (kend s) p \<and> p \<notin> own s d \<and> p \<notin> set vs \<longrightarrow> page_eq s t p"
  shows "page_eq s t (frame s d n)"
  using uvm_okD(2-4) [OF assms(1,2)] assms(3) by blast

text \<open>One call of \<open>allocuvm\<close>.\<close>

lemma allocuvm_allocs:
  assumes ok: "uvm_ok s vs d" and sz: "oldsz < newsz" "newsz < KERNBASE"
    and free: "\<forall>m. page_up oldsz \<le> m \<and> m < page_up newsz \<longrightarrow> \<not> user s d m"
  obtains r t ws where "allocuvm d oldsz newsz s = Val (r, t)"
    "r = newsz \<and> alloced s vs d (page_up oldsz) (page_up newsz) t ws \<or>
     r = 0 \<and> kept s vs d (page_up oldsz) (page_up newsz) t ws \<and> length vs < 2 * (page_up newsz - page_up oldsz)"
    "page_up oldsz \<le> page_up newsz" "page_up newsz \<le> 524288"
proof -
  have b: "unat oldsz < unat newsz" "unat newsz < 2147483648" "unat oldsz + 4095 < 4294967296"
    using sz by (simp_all add: word_less_nat_alt KERNBASE_def)
  note r = PGROUNDUP_props(1) [OF b(3)] and v = vpn_page_up [OF b(3)]
  have le: "page_up oldsz \<le> page_up newsz" unfolding page_up_def by (rule div_le_mono) (use b(1) in simp)
  have hi: "page_up newsz \<le> 524288" using page_up_user [of newsz] b(2) by simp
  have "\<exists>r t ws. allocuvm_loop 1048576 d oldsz newsz (PGROUNDUP oldsz) s = Val (r, t) \<and>
      (r = newsz \<and> alloced s vs d (page_up oldsz) (page_up newsz) t ws \<or>
       r = 0 \<and> kept s vs d (page_up oldsz) (page_up newsz) t ws \<and> length vs < 2 * (page_up newsz - page_up oldsz))"
    by (rule allocuvm_loop_allocs [OF alloced_none [OF ok, of "page_up oldsz", folded v] _ r sz(1), unfolded v])
      (use b le hi free in simp_all)
  then obtain r t ws where t: "allocuvm_loop 1048576 d oldsz newsz (PGROUNDUP oldsz) s = Val (r, t)"
      "r = newsz \<and> alloced s vs d (page_up oldsz) (page_up newsz) t ws \<or>
       r = 0 \<and> kept s vs d (page_up oldsz) (page_up newsz) t ws \<and> length vs < 2 * (page_up newsz - page_up oldsz)"
    by blast
  have "allocuvm d oldsz newsz s = Val (r, t)" using t(1) sz by (simp add: allocuvm_def not_le [symmetric] less_imp_le)
  from that [OF this t(2) le hi] show thesis .
qed

text \<open>
  C31: growing a process.  For an address space in which every user page has a page of memory of its
  own, \<open>allocuvm\<close> returns the new size, the pages in between mapped, writable, zeroed and taken from
  the pool, or it returns 0 and none of them is mapped, which happens only when the pool has fewer
  than two pages for each page asked for.  In both cases the result is again such an address space,
  all other entries are as before, and so is every byte of the pages the process had.
\<close>

theorem allocuvm_typed:
  assumes ok: "uvm_ok s vs d" and sz: "oldsz < newsz" "newsz < KERNBASE"
    and free: "\<forall>m. page_up oldsz \<le> m \<and> m < page_up newsz \<longrightarrow> \<not> user s d m"
  shows "\<exists>r t ws. allocuvm d oldsz newsz s = Val (r, t) \<and> uvm_ok t ws d \<and>
    (r = newsz \<and> (\<forall>m. page_up oldsz \<le> m \<and> m < page_up newsz \<longrightarrow> user t d m \<and> frame t d m \<in> set vs \<and> new_page t d m) \<or>
     r = 0 \<and> (\<forall>m. page_up oldsz \<le> m \<and> m < page_up newsz \<longrightarrow> \<not> user t d m) \<and>
       length vs < 2 * (page_up newsz - page_up oldsz)) \<and>
    (\<forall>n < 1048576. \<not> (page_up oldsz \<le> n \<and> n < page_up newsz) \<longrightarrow> entry t d n = entry s d n) \<and>
    (\<forall>n. user s d n \<longrightarrow> page_eq s t (frame s d n))"
proof -
  obtain r t ws where f: "allocuvm d oldsz newsz s = Val (r, t)" and
    t: "r = newsz \<and> alloced s vs d (page_up oldsz) (page_up newsz) t ws \<or>
       r = 0 \<and> kept s vs d (page_up oldsz) (page_up newsz) t ws \<and> length vs < 2 * (page_up newsz - page_up oldsz)" and
    hi: "page_up newsz \<le> 524288"
    by (rule allocuvm_allocs [OF assms]) (rule that)
  have k: "page_eq s t (frame s d n)" if "user s d n" for n
    by (rule user_page_kept [OF ok that]) (use t in \<open>auto simp: alloced_def kept_def\<close>)
  have "user t d m" if "page_up oldsz \<le> m" "m < page_up newsz" "alloced s vs d (page_up oldsz) (page_up newsz) t ws" for m
    using that hi new_user [of t d m] by (simp add: alloced_def)
  then show ?thesis
    using t f k by (intro exI [of _ r] exI [of _ t] exI [of _ ws]) (auto simp: alloced_def kept_def)
qed

text \<open>
  Shrinking a process.  \<open>deallocuvm\<close> unmaps exactly the user pages from the new size, rounded up,
  to the old one and puts their memory, and nothing else, into the pool; what remains is an address
  space with the same contents.
\<close>

theorem deallocuvm_typed:
  assumes "uvm_ok s vs d" and "newsz < oldsz" and "oldsz \<le> KERNBASE"
  shows "\<exists>fs t. deallocuvm d oldsz newsz s = Val (newsz, t) \<and> uvm_ok t (fs @ vs) d \<and>
    set fs = frame s d ` {n. page_up newsz \<le> n \<and> n < page_up oldsz \<and> user s d n} \<and>
    (\<forall>n < 1048576. entry t d n = (if page_up newsz \<le> n \<and> n < page_up oldsz \<and> user s d n then 0 else entry s d n)) \<and>
    (\<forall>n. user t d n \<longrightarrow> user s d n \<and> page_eq s t (frame s d n))"
proof -
  have b: "unat oldsz \<le> 2147483648" using assms(3) by (simp add: word_le_nat_alt KERNBASE_def)
  obtain fs t where t: "deallocuvm d oldsz newsz s = Val (newsz, t)"
      "unmapped s vs d (page_up newsz) (page_up oldsz) fs t"
    using deallocuvm_unmaps [OF assms(1,2) b] by blast
  have "user s d n \<and> page_eq s t (frame s d n)" if u: "user t d n" for n
  proof -
    have un: "user s d n" "\<not> (page_up newsz \<le> n \<and> n < page_up oldsz)"
      using t(2) user_less [OF u] u by (auto simp: unmapped_def user_def split: if_splits)
    then have "frame s d n \<notin> set fs" using t(2) uvm_okD(5) [OF assms(1) un(1)] by (auto simp: unmapped_def)
    then show ?thesis using un(1) uvm_okD(2,4) [OF assms(1) un(1)] t(2) by (simp add: unmapped_def)
  qed
  then show ?thesis using t unfolding unmapped_def by blast
qed

section \<open>An empty directory\<close>

lemma empty_dir_ok: "uvm_ok ex_kstate [] 0x80101000"
proof -
  have p: "page_ok (kend ex_kstate) 0x80101000"
    by (simp add: page_ok_def ex_kstate_def PGSIZE_def KERNBASE_def PHYSTOP_def)
  have "pde ex_kstate 0x80101000 i = 0" for i by (simp add: pde_def ex_kstate_def ld32_def)
  then have h: "\<not> has_tab ex_kstate 0x80101000 i" for i by (simp add: has_tab_def)
  then have o: "own ex_kstate 0x80101000 = {0x80101000}" "\<not> user ex_kstate 0x80101000 n" for n
    by (auto simp: own_def user_def entry_def)
  have "KERNBASE < kend ex_kstate" by (simp add: ex_kstate_def KERNBASE_def)
  then have "dir_ok ex_kstate [] 0x80101000" using ex_kstate_ok p h o(1) by (simp add: dir_ok_def)
  then show ?thesis using o(2) by (simp add: uvm_ok_def frames_def)
qed

text \<open>The same with pages in the pool.\<close>

lemma empty_dir_add:
  fixes s :: "'a kstate_scheme"
  assumes "uvm_ok s vs d" "\<forall>n. \<not> user s d n" "own s d = {d}" "page_ok (kend s) v" "v \<noteq> d" "v \<notin> set vs"
  shows "\<exists>t :: 'a kstate_scheme. uvm_ok t (v # vs) d \<and> (\<forall>n. \<not> user t d n) \<and> own t d = {d} \<and> kend t = kend s"
proof -
  have v: "v \<notin> own s d" "v \<notin> frames s d" using assms by (auto simp: frames_def)
  obtain t where t: "kfree v s = Val t" "uvm_ok t (v # vs) d" "own t d = own s d"
      "\<And>n. n < 1048576 \<Longrightarrow> entry t d n = entry s d n"
      "\<And>p. page_ok (kend s) p \<Longrightarrow> p \<noteq> v \<Longrightarrow> page_eq s t p" "kend t = kend s"
    by (rule free_unused [OF assms(1,4,6) v]) (rule that)
  have "\<forall>n. \<not> user t d n" using assms(2) user_cong [OF t(4)] by simp
  then show ?thesis using t assms(3) by blast
qed

lemma empty_dir_pool:
  "\<exists>s :: kstate. uvm_ok s [0x80103000, 0x80102000] 0x80101000 \<and> (\<forall>n. \<not> user s 0x80101000 n)"
proof -
  let ?d = "0x80101000 :: uint"
  have e: "\<forall>n. \<not> user ex_kstate ?d n" "own ex_kstate ?d = {?d}"
    by (auto simp: user_def entry_def own_def has_tab_def pde_def ex_kstate_def ld32_def)
  have p: "page_ok (kend ex_kstate) 0x80102000" "page_ok (kend ex_kstate) 0x80103000"
    by (simp_all add: page_ok_def ex_kstate_def PGSIZE_def KERNBASE_def PHYSTOP_def)
  obtain s :: kstate where s: "uvm_ok s [0x80102000] ?d" "\<forall>n. \<not> user s ?d n" "own s ?d = {?d}" "kend s = kend ex_kstate"
    using empty_dir_add [OF empty_dir_ok e p(1)] by auto
  show ?thesis using empty_dir_add [OF s(1-3), of "0x80103000"] s(4) p(2) by auto
qed

lemma allocuvm_typed_witness:
  "\<exists>(s :: kstate) t ws. allocuvm 0x80101000 0 4096 s = Val (4096, t) \<and> uvm_ok t ws 0x80101000 \<and> user t 0x80101000 0"
proof -
  obtain s :: kstate where s: "uvm_ok s [0x80103000, 0x80102000] 0x80101000" "\<forall>n. \<not> user s 0x80101000 n"
    using empty_dir_pool by blast
  have "page_up 0 = 0" "page_up 4096 = 1" by (simp_all add: page_up_def)
  then show ?thesis
    using allocuvm_typed [OF s(1), of 0 4096] s(2) by (fastforce simp: KERNBASE_def)
qed

lemma deallocuvm_typed_witness:
  "\<exists>t. deallocuvm 0x80101000 4096 0 ex_kstate = Val (0, t) \<and> uvm_ok t [] 0x80101000"
proof -
  have "\<not> user ex_kstate 0x80101000 n" for n
    by (simp add: user_def entry_def has_tab_def pde_def ex_kstate_def ld32_def)
  then show ?thesis using deallocuvm_typed [OF empty_dir_ok, of 0 4096] by (auto simp: KERNBASE_def)
qed

end
