(* ===== verification/Xv6_Copyout.thy ===== *)
theory Xv6_Copyout
  imports Xv6_Uvm
begin

text \<open>\<open>copyout\<close>: the bytes of a kernel buffer at the addresses of a user's address space.\<close>

unbundle bit_operations_syntax

definition umem :: "'a kstate_scheme \<Rightarrow> uint \<Rightarrow> nat \<Rightarrow> byte" where
  "umem s d x = pm s (phys (frame s d (x div 4096)) + x mod 4096)"

text \<open>The page may be written to on behalf of the user.\<close>

definition accessible :: "'a kstate_scheme \<Rightarrow> uint \<Rightarrow> nat \<Rightarrow> bool" where
  "accessible s d n \<longleftrightarrow> entry s d n AND PTE_P \<noteq> 0 \<and> entry s d n AND PTE_U \<noteq> 0"

lemma uva2ka_stop:
  assumes "uvm_ok s vs d" "\<not> has_tab s d (vpn va div 1024)"
  shows "uva2ka d va s = Panic ''page fault''"
  using walk_absent [OF dir_okD(2) [OF uvm_okD(1) [OF assms(1)]] assms(2)] by (simp add: uva2ka_def)

lemma uva2ka_result:
  assumes "uvm_ok s vs d" "has_tab s d (vpn va div 1024)"
  shows "uva2ka d va s = Val (if accessible s d (vpn va) then frame s d (vpn va) else 0)"
  using walk_present [OF dir_okD(2) [OF uvm_okD(1) [OF assms(1)]] assms(2)]
    entry_slot(2,3) [OF uvm_okD(1) [OF assms(1)] assms(2)]
  by (simp add: uva2ka_def accessible_def frame_def)

text \<open>Writes inside one user page.\<close>

lemma user_write:
  assumes ok: "uvm_ok s vs d" and u: "user s d n"
    and m: "\<forall>x. x < phys (frame s d n) \<or> phys (frame s d n) + PGSIZE \<le> x \<longrightarrow> m x = pm s x"
  shows "uvm_ok (s\<lparr>pm := m\<rparr>) vs d" "\<And>n. n < 1048576 \<Longrightarrow> entry (s\<lparr>pm := m\<rparr>) d n = entry s d n"
    "\<And>p. page_ok (kend s) p \<Longrightarrow> p \<noteq> frame s d n \<Longrightarrow> page_eq s (s\<lparr>pm := m\<rparr>) p"
    "\<And>i. i < 1024 \<Longrightarrow> has_tab (s\<lparr>pm := m\<rparr>) d i = has_tab s d i"
proof -
  note D = uvm_okD [OF ok]
  let ?t = "s\<lparr>pm := m\<rparr>"
  show eq: "page_eq s ?t p" if "page_ok (kend s) p" "p \<noteq> frame s d n" for p
    using pages_apart [OF D(2) [OF u] that(1)] that(2) by (auto simp: page_eq_def PGSIZE_def intro!: m [rule_format])
  have own: "\<forall>p \<in> own s d. page_eq s ?t p" using eq D(1) D(4) [OF u] unfolding dir_ok_def by blast
  note fr = own_frame [OF own]
  show "has_tab ?t d i = has_tab s d i" if "i < 1024" for i using fr(2) [OF that] .
  show en: "entry ?t d n = entry s d n" if "n < 1048576" for n using fr(5) [OF that] .
  have f: "free_ok s vs" "\<And>v. v \<in> set vs \<Longrightarrow> page_ok (kend s) v \<and> v \<noteq> frame s d n"
    using dir_okD(1) [OF D(1)] D(3) [OF u] by (auto simp: free_ok_def)
  have "free_ok ?t vs" by (rule free_ok_eq [OF f(1)]) (use eq f(2) in auto)
  then have dt: "dir_ok ?t vs d" by (intro dir_frame [OF D(1) own]) (use D(1) in \<open>auto simp: dir_ok_def\<close>)
  show "uvm_ok ?t vs d"
    by (rule uvm_ok_same(1) [OF ok dt _ _ _ en]) (use ok fr(4) in \<open>auto simp: uvm_ok_def\<close>)
qed

text \<open>
  One round: \<open>n\<close> bytes, all in the page of \<open>va\<close>.  The buffer as a whole lies in no user page.
\<close>

definition off_user :: "'a kstate_scheme \<Rightarrow> uint \<Rightarrow> nat \<Rightarrow> bool" where
  "off_user s d x \<longleftrightarrow> (\<forall>p \<in> frames s d. x < phys p \<or> phys p + PGSIZE \<le> x)"

lemma same_page:
  fixes a :: nat
  assumes "a mod 4096 + n \<le> 4096" "a \<le> x" "x < a + n"
  shows "x div 4096 = a div 4096"
proof -
  have "4096 * (a div 4096) + a mod 4096 = a" by simp
  then have "4096 * (a div 4096) \<le> x" "x < 4096 * Suc (a div 4096)"
    unfolding mult_Suc_right using assms by linarith+
  then show ?thesis by (intro div_nat_eqI)
qed

lemma write_chunk:
  assumes ok: "uvm_ok s vs d" and u: "user s d (va div 4096)" and n: "va mod 4096 + n \<le> 4096"
    and m: "\<forall>x. m x = (if a \<le> x \<and> x < a + n then g (x - a) else pm s x)"
    and a: "a = phys (frame s d (va div 4096)) + va mod 4096"
  shows "uvm_ok (s\<lparr>pm := m\<rparr>) vs d" "\<And>k. k < 1048576 \<Longrightarrow> entry (s\<lparr>pm := m\<rparr>) d k = entry s d k"
    "\<And>i. i < 1024 \<Longrightarrow> has_tab (s\<lparr>pm := m\<rparr>) d i = has_tab s d i"
    "\<And>x. user s d (x div 4096) \<Longrightarrow>
       umem (s\<lparr>pm := m\<rparr>) d x = (if va \<le> x \<and> x < va + n then g (x - va) else umem s d x)"
    "\<And>x. off_user s d x \<Longrightarrow> m x = pm s x"
proof -
  let ?f = "frame s d (va div 4096)" and ?t = "s\<lparr>pm := m\<rparr>"
  note D = uvm_okD [OF ok]
  have out: "\<forall>x. x < phys ?f \<or> phys ?f + PGSIZE \<le> x \<longrightarrow> m x = pm s x"
    using n by (auto simp: m a PGSIZE_def)
  note w' = user_write [OF ok u out]
  show "uvm_ok ?t vs d" "\<And>k. k < 1048576 \<Longrightarrow> entry ?t d k = entry s d k"
    "\<And>i. i < 1024 \<Longrightarrow> has_tab ?t d i = has_tab s d i" by (rule w'(1) w'(2) w'(4); assumption)+
  show "m x = pm s x" if "off_user s d x" for x
    using that u by (intro out [rule_format]) (auto simp: off_user_def frames_def)
  fix x assume ux: "user s d (x div 4096)"
  have fx: "frame ?t d (x div 4096) = frame s d (x div 4096)"
    using w'(2) [OF user_less [OF ux]] by (simp add: frame_def)
  show "umem ?t d x = (if va \<le> x \<and> x < va + n then g (x - va) else umem s d x)"
  proof (cases "x div 4096 = va div 4096")
    case True
    have va: "va = 4096 * (va div 4096) + va mod 4096" by simp
    have x: "x = 4096 * (va div 4096) + x mod 4096" using True by (metis mult_div_mod_eq)
    then have "va \<le> x \<longleftrightarrow> va mod 4096 \<le> x mod 4096"
      "x < va + n \<longleftrightarrow> x mod 4096 < va mod 4096 + n" "x - va = x mod 4096 - va mod 4096"
      using va by linarith+
    then show ?thesis using fx True by (auto simp: umem_def m a)
  next
    case False
    have "page_eq s ?t (frame s d (x div 4096))"
      using w'(3) [OF D(2) [OF ux]] D(5) [OF ux u] False by blast
    then have "umem ?t d x = umem s d x" by (simp add: umem_def fx page_eq_def)
    moreover have "\<not> (va \<le> x \<and> x < va + n)"
      using same_page [OF n, of x] False by auto
    ultimately show ?thesis by auto
  qed
qed

lemma copyout_chunk:
  assumes ok: "uvm_ok s vs d" and u: "user s d (vpn va)" and n: "unat va mod 4096 + n \<le> 4096"
    and t: "t = s\<lparr>pm := memmove (pm s) (phys (frame s d (vpn va)) + unat va mod 4096) b n\<rparr>"
  shows "uvm_ok t vs d" "\<And>m. m < 1048576 \<Longrightarrow> entry t d m = entry s d m"
    "\<And>i. i < 1024 \<Longrightarrow> has_tab t d i = has_tab s d i"
    "\<And>x. user s d (x div 4096) \<Longrightarrow>
       umem t d x = (if unat va \<le> x \<and> x < unat va + n then pm s (b + (x - unat va)) else umem s d x)"
    "\<And>x. off_user s d x \<Longrightarrow> pm t x = pm s x" "kend t = kend s"
proof -
  let ?a = "phys (frame s d (vpn va)) + unat va mod 4096"
  have m: "\<forall>x. memmove (pm s) ?a b n x = (if ?a \<le> x \<and> x < ?a + n then pm s (b + (x - ?a)) else pm s x)"
    by (simp add: memmove_eq moved_def)
  note w = write_chunk [of s vs d "unat va" n _ ?a "\<lambda>k. pm s (b + k)", OF ok _ n m, folded vpn_def, OF u refl, folded t]
  show "uvm_ok t vs d" "\<And>m. m < 1048576 \<Longrightarrow> entry t d m = entry s d m"
    "\<And>i. i < 1024 \<Longrightarrow> has_tab t d i = has_tab s d i"
    "\<And>x. user s d (x div 4096) \<Longrightarrow>
       umem t d x = (if unat va \<le> x \<and> x < unat va + n then pm s (b + (x - unat va)) else umem s d x)"
    by (rule w; assumption)+
  show "pm t x = pm s x" if "off_user s d x" for x using w(5) [OF that] by (simp add: t)
  show "kend t = kend s" by (simp add: t)
qed

text \<open>
  The whole loop.  What has been copied when the loop stops is a beginning of the buffer; a page
  without a table stops the kernel.
\<close>

lemma phys_add: "phys buf + unat n < 4294967296 \<Longrightarrow> phys (buf + n) = phys buf + unat n"
proof -
  have "V2P (buf + n) = V2P buf + n" by (simp add: V2P_def)
  then show "phys buf + unat n < 4294967296 \<Longrightarrow> phys (buf + n) = phys buf + unat n"
    by (simp add: phys_def unat_add_uint)
qed

definition copied :: "'a kstate_scheme \<Rightarrow> uint \<Rightarrow> nat \<Rightarrow> nat \<Rightarrow> nat \<Rightarrow> 'a kstate_scheme \<Rightarrow> bool" where
  "copied s d va b n t \<longleftrightarrow>
     (\<forall>m < 1048576. entry t d m = entry s d m) \<and>
     (\<forall>x. user s d (x div 4096) \<longrightarrow> umem t d x = (if va \<le> x \<and> x < va + n then pm s (b + (x - va)) else umem s d x)) \<and>
     (\<forall>x. off_user s d x \<longrightarrow> pm t x = pm s x)"

lemma copied_none: "copied s d va b 0 s"
  by (auto simp: copied_def)

lemma off_user_cong:
  assumes "\<forall>m < 1048576. entry t d m = entry s d m"
  shows "off_user t d = off_user s d"
proof -
  have "user t d = user s d" by (rule user_cong) (use assms in simp)
  moreover have "frame t d m = frame s d m" if "user s d m" for m
    using assms user_less [OF that] by (simp add: frame_def)
  ultimately have "frames t d = frames s d" by (auto simp: frames_def)
  then show ?thesis by (simp add: off_user_def fun_eq_iff)
qed

lemma copied_trans:
  assumes c: "copied s d va b n t" "copied t d (va + n) (b + n) m u" and off: "\<And>k. k < n + m \<Longrightarrow> off_user s d (b + k)"
  shows "copied s d va b (n + m) u"
proof -
  have e: "\<forall>m < 1048576. entry t d m = entry s d m" using c(1) by (simp add: copied_def)
  have u: "user t d = user s d" by (rule user_cong) (use e in simp)
  have o: "off_user t d = off_user s d" using e by (rule off_user_cong)
  have "umem u d x = (if va \<le> x \<and> x < va + (n + m) then pm s (b + (x - va)) else umem s d x)"
    if x: "user s d (x div 4096)" for x
  proof -
    have a: "umem t d x = (if va \<le> x \<and> x < va + n then pm s (b + (x - va)) else umem s d x)"
      "umem u d x = (if va + n \<le> x \<and> x < va + n + m then pm t (b + n + (x - (va + n))) else umem t d x)"
      using c x by (simp_all add: copied_def u)
    have "pm t (b + n + (x - (va + n))) = pm s (b + (x - va))" if "va + n \<le> x" "x < va + n + m"
    proof -
      have eq: "b + n + (x - (va + n)) = b + (x - va)" using that by simp
      have "off_user s d (b + (x - va))" using off [of "x - va"] that by simp
      then show ?thesis using c(1) unfolding eq by (simp add: copied_def)
    qed
    then show ?thesis using a by auto
  qed
  then show ?thesis using c by (simp add: copied_def u o)
qed

definition stops :: "'a kstate_scheme \<Rightarrow> uint \<Rightarrow> nat \<Rightarrow> nat \<Rightarrow> nat \<Rightarrow> (int \<times> 'a kstate_scheme) outcome \<Rightarrow> 'a kstate_scheme \<Rightarrow> bool" where
  "stops s d va len n r t \<longleftrightarrow>
     n = len \<and> r = Val (0, t) \<or>
     n < len \<and> \<not> accessible s d ((va + n) div 4096) \<and>
       r = (if has_tab s d ((va + n) div 4096 div 1024) then Val (- 1, t) else Panic ''page fault'')"

lemma stops_same:
  assumes "\<And>m. m < 1048576 \<Longrightarrow> accessible t d m = accessible s d m" "\<And>i. i < 1024 \<Longrightarrow> has_tab t d i = has_tab s d i"
    and "va + n + len \<le> 2147483648" and "stops t d (va + n) len m r u"
  shows "stops s d va (n + len) (n + m) r u"
  using assms(4) assms(1) [of "(va + n + m) div 4096"] assms(2) [of "(va + n + m) div 4096 div 1024"] assms(3)
  by (auto simp: stops_def add.assoc div_less_iff_less_mult)

lemma copyout_copies:
  assumes "uvm_ok s vs d" "unat va + unat len \<le> 2147483648" "phys buf + unat len < 4294967296"
    and "\<forall>k < unat len. off_user s d (phys buf + k)"
  shows "\<exists>t n. uvm_ok t vs d \<and> copied s d (unat va) (phys buf) n t \<and> (\<forall>k < n. accessible s d ((unat va + k) div 4096)) \<and>
    stops s d (unat va) (unat len) n (copyout d va buf len s) t"
  using assms
proof (induction "unat len" arbitrary: va buf len s rule: less_induct)
  case 1: (less len va buf s)
  note sl = copyout.simps [of d va buf len s]
  show ?case
  proof (cases "0 < len")
    case False
    then have "unat len = 0" by (simp add: word_less_nat_alt)
    then show ?thesis using False sl 1(2) copied_none [of s d "unat va" "phys buf"] unfolding stops_def by auto
  next
    case True
    then have l0: "0 < unat len" by (simp add: word_less_nat_alt)
    have va: "unat va = 4096 * vpn va + unat va mod 4096" by (simp add: vpn_def)
    have "unat va mod 4096 < 4096" by simp
    let ?n = "copyout_n va len" and ?va0 = "PGROUNDDOWN va"
    have n: "unat ?n = min (4096 - unat va mod 4096) (unat len)" by (rule unat_copyout_n)
    then have n0: "0 < unat ?n" "unat va mod 4096 + unat ?n \<le> 4096" "unat ?n \<le> unat len"
      using l0 \<open>unat va mod 4096 < 4096\<close> by auto
    have ua: "uva2ka d ?va0 s = Val (if accessible s d (vpn va) then frame s d (vpn va) else 0)"
      if "has_tab s d (vpn va div 1024)"
      using uva2ka_result [OF 1(2), of ?va0] that by (simp add: vpn_PGROUNDDOWN)
    have un: "uva2ka d ?va0 s = Panic ''page fault''" if "\<not> has_tab s d (vpn va div 1024)"
      using uva2ka_stop [OF 1(2), of ?va0] that by (simp add: vpn_PGROUNDDOWN)
    have lo: "vpn va < 524288" using 1(3) l0 va by linarith
    show ?thesis
    proof (cases "accessible s d (vpn va)")
      case False
      have "copyout d va buf len s =
          (if has_tab s d (vpn va div 1024) then Val (- 1, s) else Panic ''page fault'')"
        using sl True ua un False by (simp add: Let_def)
      then have "stops s d (unat va) (unat len) 0 (copyout d va buf len s) s"
        using False l0 by (simp add: stops_def vpn_def)
      then show ?thesis using 1(2) copied_none [of s d "unat va" "phys buf"] by blast
    next
      case acc: True
      then have u: "user s d (vpn va)" using lo by (simp add: accessible_def user_def)
      have h: "has_tab s d (vpn va div 1024)" using user_has_tab [OF u] .
      let ?f = "frame s d (vpn va)"
      have pf: "page_ok (kend s) ?f" by (rule uvm_okD(2) [OF 1(2) u])
      have ph: "phys (?f + (va - ?va0)) = phys ?f + unat va mod 4096"
        using phys_offset(1) [OF pf, of "va - ?va0"] by (simp add: off_page)
      define t where "t = s\<lparr>pm := memmove (pm s) (phys ?f + unat va mod 4096) (phys buf) (unat ?n)\<rparr>"
      have st: "copyout d va buf len s = copyout d (?va0 + of_nat PGSIZE) (buf + ?n) (len - ?n) t"
        using sl True ua [OF h] acc page_ok_phys(5) [OF pf] by (simp add: Let_def ph t_def)
      have off: "\<And>k. k < unat len \<Longrightarrow> off_user s d (phys buf + k)" using 1(5) by blast
      note ch = copyout_chunk [OF 1(2) u n0(2) t_def]
      have cp: "copied s d (unat va) (phys buf) (unat ?n) t"
        using ch(2,4,5) by (simp add: copied_def)
      have ac: "accessible s d ((unat va + k) div 4096)" if "k < unat ?n" for k
        using same_page [OF n0(2), of "unat va + k"] that acc by (simp add: vpn_def)
      show ?thesis
      proof (cases "unat ?n = unat len")
        case True
        then have "len = ?n" by (simp only: word_unat_eq_iff)
        then have "len - ?n = 0" by (metis diff_self)
        then have "copyout d va buf len s = Val (0, t)" using st by (simp add: copyout.simps)
        then have "stops s d (unat va) (unat len) (unat ?n) (copyout d va buf len s) t" using True by (simp add: stops_def)
        then show ?thesis using cp ac ch(1) by blast
      next
        case False
        then have n': "unat ?n = 4096 - unat va mod 4096" using n by (simp add: min_def split: if_splits)
        have lt: "unat ?n < unat len" using False n0(3) by simp
        have v': "unat (?va0 + of_nat PGSIZE) = unat va + unat ?n"
        proof -
          have "4096 * vpn va + 4096 = unat va + unat ?n" using va n' \<open>unat va mod 4096 < 4096\<close> by linarith
          then show ?thesis using 1(3) lt by (simp add: unat_add_uint PGSIZE_def vpn_PGROUNDDOWN)
        qed
        have b': "phys (buf + ?n) = phys buf + unat ?n" using phys_add 1(4) lt by simp
        have l': "unat (len - ?n) = unat len - unat ?n" using lt by (simp add: unat_sub_uint)
        have e: "\<forall>m < 1048576. entry t d m = entry s d m" using ch(2) by blast
        have at: "accessible t d m = accessible s d m" if "m < 1048576" for m using e that by (simp add: accessible_def)
        have small: "(unat va + k) div 4096 < 1048576" if "k < unat len" for k
          using that 1(3) by (simp add: div_less_iff_less_mult)
        have "\<exists>u m. uvm_ok u vs d \<and> copied t d (unat va + unat ?n) (phys buf + unat ?n) m u \<and>
            (\<forall>k < m. accessible t d ((unat va + unat ?n + k) div 4096)) \<and>
            stops t d (unat va + unat ?n) (unat len - unat ?n) m (copyout d (?va0 + of_nat PGSIZE) (buf + ?n) (len - ?n) t) u"
          unfolding v' [symmetric] b' [symmetric] l' [symmetric]
        proof (rule 1(1) [OF _ ch(1)])
          show "unat (len - ?n) < unat len" using lt n0(1) by (simp add: l')
          show "unat (?va0 + of_nat PGSIZE) + unat (len - ?n) \<le> 2147483648" using 1(3) lt by (simp add: v' l')
          show "phys (buf + ?n) + unat (len - ?n) < 4294967296" using 1(4) lt by (simp add: b' l')
          show "\<forall>k < unat (len - ?n). off_user t d (phys (buf + ?n) + k)"
            using off by (simp add: off_user_cong [OF e] l' b' add.assoc)
        qed
        then obtain u m where u: "uvm_ok u vs d" "copied t d (unat va + unat ?n) (phys buf + unat ?n) m u"
            "\<forall>k < m. accessible t d ((unat va + unat ?n + k) div 4096)"
            "stops t d (unat va + unat ?n) (unat len - unat ?n) m (copyout d va buf len s) u"
          unfolding st by blast
        have m: "unat ?n + m \<le> unat len" using lt u(4) by (auto simp: stops_def)
        have "copied s d (unat va) (phys buf) (unat ?n + m) u"
          using copied_trans [OF cp u(2)] off m by simp
        moreover have "accessible s d ((unat va + k) div 4096)" if "k < unat ?n + m" for k
        proof (cases "k < unat ?n")
          case False
          then have eq: "unat va + unat ?n + (k - unat ?n) = unat va + k" and "k - unat ?n < m" using that by auto
          then have "accessible t d ((unat va + unat ?n + (k - unat ?n)) div 4096)" using u(3) by blast
          then show ?thesis using at [OF small [of k]] that m unfolding eq by simp
        qed (rule ac)
        moreover have "stops s d (unat va) (unat len) (unat ?n + m) (copyout d va buf len s) u"
          using stops_same [OF at ch(3) _ u(4)] 1(3) lt by simp
        ultimately show ?thesis using u(1) by blast
      qed
    qed
  qed
qed


section \<open>An address space of one page\<close>

lemma one_page_space:
  "\<exists>(t :: kstate) ws. uvm_ok t ws 0x80101000 \<and> new_page t 0x80101000 0 \<and>
     frames t 0x80101000 \<subseteq> {0x80103000, 0x80102000}"
proof -
  let ?d = "0x80101000 :: uint"
  obtain s :: kstate where s: "uvm_ok s [0x80103000, 0x80102000] ?d" "\<forall>n. \<not> user s ?d n"
    using empty_dir_pool by blast
  define z where "z = zero_page 0x80103000 (s\<lparr>freelist := ld32 (pm s) (phys 0x80103000)\<rparr>)"
  have a: "unat (0 :: uint) mod 4096 = 0" "vpn 0 < 524288" "\<not> user s ?d (vpn 0)" "vpn 0 = 0"
    using s(2) by (simp_all add: vpn_def)
  have "\<exists>t ws. alloced s [0x80103000, 0x80102000] ?d (vpn 0) (Suc (vpn 0)) t ws"
    by (rule alloc_page [OF s(1) z_def a(1-3)]) auto
  then obtain t ws where t: "alloced s [0x80103000, 0x80102000] ?d 0 1 t ws" using a(4) by auto
  have "n = 0" if "user t ?d n" for n
    using t s(2) that user_less [OF that] by (cases "n = 0") (auto simp: alloced_def user_def)
  then have "frames t ?d \<subseteq> {0x80103000, 0x80102000}" using t by (auto simp: frames_def alloced_def)
  then show ?thesis using t by (auto simp: alloced_def)
qed


lemma mappages_maps_witness:
  "\<exists>r t. mappages 0x80101000 0 4096 0 PTE_W ex_kstate = Val (r, t) \<and> dir_ok t [] 0x80101000"
proof -
  have d: "dir_ok ex_kstate [] 0x80101000" using uvm_okD(1) [OF empty_dir_ok] .
  have e: "entry ex_kstate 0x80101000 m = 0" for m
    by (simp add: entry_def has_tab_def pde_def ex_kstate_def ld32_def)
  have v: "vpn 0 = 0" "vpn 4095 = 0" by (simp_all add: vpn_def)
  show ?thesis using mappages_maps [OF d, of 0 4096 0 PTE_W] by (auto simp: v e)
qed

end
