(* ===== verification/Xv6_Ide.thy ===== *)
theory Xv6_Ide
  imports Xv6_Bio
begin

text \<open>
  The disk driver (\<open>ide.c\<close>): the queue of requests and the interrupt handler, and that it implements
  the synchronous disk of the buffer cache.  The drive is outside of the code: it takes one command, its
  sector number and the data of a write, and carries it out before it raises the interrupt; whether the
  status it then shows has an error bit is an argument of the handler.  Waiting for the drive to be
  ready has no effect.
\<close>

section \<open>State\<close>

text \<open>The registers of a command: the drive and sector, and the data when it is a write.\<close>

record command =
  c_block :: blockid
  c_write :: "byte list option"

text \<open>The chain of \<open>qnext\<close> pointers from \<open>idequeue\<close> is a list; \<open>woken\<close> records the calls of \<open>wakeup\<close>.\<close>

record ide = bcache +
  idequeue :: "nat list"
  registers :: "command option"
  woken :: "nat list"

section \<open>Operations\<close>

text \<open>\<open>ideinit\<close>: a second disk is there when one of 1000 readings of its status is not 0.\<close>

definition ideinit :: "(nat \<Rightarrow> byte) \<Rightarrow> 'a ide_scheme \<Rightarrow> 'a ide_scheme" where
  "ideinit status s = (if list_ex (\<lambda>i. status i \<noteq> 0) [0..<1000] then s\<lparr>havedisk1 := True\<rparr> else s)"

text \<open>A block is one sector, and 28 bits of its number are sent.\<close>

definition command_of :: "buf \<Rightarrow> command" where
  "command_of b = \<lparr>c_block = (and (b_dev b) 1, and (b_blockno b) 0xFFFFFFF),
     c_write = (if b_dirty b then Some (b_data b) else None)\<rparr>"

definition idestart :: "nat \<Rightarrow> 'a ide_scheme \<Rightarrow> 'a ide_scheme outcome" where
  "idestart b s =
     (if FSSIZE \<le> unat (b_blockno (buf_at s b)) then Panic ''incorrect blockno''
      else Val (s\<lparr>registers := Some (command_of (buf_at s b))\<rparr>))"

text \<open>\<open>iderw\<close> up to the wait for the buffer: the checks, the append and the start of an idle disk.\<close>

definition iderw_enter :: "nat \<Rightarrow> 'a ide_scheme \<Rightarrow> 'a ide_scheme outcome" where
  "iderw_enter b s =
     (if \<not> holdingsleep b s then Panic ''iderw: buf not locked''
      else if b_valid (buf_at s b) \<and> \<not> b_dirty (buf_at s b) then Panic ''iderw: nothing to do''
      else if b_dev (buf_at s b) \<noteq> 0 \<and> \<not> havedisk1 s then Panic ''iderw: ide disk 1 not present''
      else let t = s\<lparr>idequeue := idequeue s @ [b]\<rparr>
        in if hd (idequeue t) = b then idestart b t else Val t)"

definition iderw_ready :: "nat \<Rightarrow> 'a bcache_scheme \<Rightarrow> bool" where
  "iderw_ready b s \<longleftrightarrow> b_valid (buf_at s b) \<and> \<not> b_dirty (buf_at s b)"

text \<open>The drive carries out its command.\<close>

definition drive :: "'a ide_scheme \<Rightarrow> 'a ide_scheme" where
  "drive s =
     (case registers s of
        None \<Rightarrow> s
      | Some c \<Rightarrow> (case c_write c of
          None \<Rightarrow> s
        | Some d \<Rightarrow> s\<lparr>disk := (disk s)(c_block c := d), written := written s @ [(c_block c, d)]\<rparr>))"

text \<open>What \<open>insl\<close> reads.\<close>

definition sector_data :: "'a ide_scheme \<Rightarrow> byte list" where
  "sector_data s = (case registers s of None \<Rightarrow> [] | Some c \<Rightarrow> disk s (c_block c))"

definition ideintr :: "bool \<Rightarrow> 'a ide_scheme \<Rightarrow> 'a ide_scheme outcome" where
  "ideintr err s =
     (case idequeue s of
        [] \<Rightarrow> Val s
      | b # q \<Rightarrow>
          let s1 = (if \<not> b_dirty (buf_at s b) \<and> \<not> err then upd_buf b (\<lambda>x. x\<lparr>b_data := sector_data s\<rparr>) s else s);
              t = upd_buf b (\<lambda>x. x\<lparr>b_valid := True, b_dirty := False\<rparr>) (s1\<lparr>idequeue := q, woken := woken s @ [b]\<rparr>)
          in (case q of [] \<Rightarrow> Val t | c # _ \<Rightarrow> idestart c t))"

section \<open>The synchronous disk\<close>

text \<open>What the \<open>iderw\<close> of the buffer cache does behind its checks.\<close>

definition transfer :: "nat \<Rightarrow> 'a bcache_scheme \<Rightarrow> 'a bcache_scheme" where
  "transfer b s =
     (let x = buf_at s b
      in if b_dirty x
         then upd_buf b (\<lambda>y. y\<lparr>b_valid := True, b_dirty := False\<rparr>)
           (s\<lparr>disk := (disk s)(disk_key x := b_data x), written := written s @ [(disk_key x, b_data x)]\<rparr>)
         else upd_buf b (\<lambda>y. y\<lparr>b_data := disk s (disk_key x), b_valid := True, b_dirty := False\<rparr>) s)"

lemma iderw_transfer:
  "iderw b s =
     (if \<not> holdingsleep b s then Panic ''iderw: buf not locked''
      else if b_valid (buf_at s b) \<and> \<not> b_dirty (buf_at s b) then Panic ''iderw: nothing to do''
      else if b_dev (buf_at s b) \<noteq> 0 \<and> \<not> havedisk1 s then Panic ''iderw: ide disk 1 not present''
      else if FSSIZE \<le> unat (b_blockno (buf_at s b)) then Panic ''incorrect blockno'' else Val (transfer b s))"
  by (simp add: iderw_def transfer_def Let_def upd_buf_def)

text \<open>What the state comes to when all requests of the queue are carried out in order.\<close>

definition settled :: "ide \<Rightarrow> bcache" where
  "settled s = fold transfer (idequeue s) (bcache.truncate s)"

text \<open>The invariant: requests of different buffers, all on the disk, and the first one commanded.\<close>

definition ide_ok :: "'a ide_scheme \<Rightarrow> bool" where
  "ide_ok s \<longleftrightarrow> distinct (idequeue s) \<and> (\<forall>b \<in> set (idequeue s). unat (b_blockno (buf_at s b)) < FSSIZE) \<and>
     (case idequeue s of [] \<Rightarrow> True | b # _ \<Rightarrow> registers s = Some (command_of (buf_at s b)))"

lemma sector_mask: "unat n < FSSIZE \<Longrightarrow> and n 0xFFFFFFF = (n :: uint)"
proof -
  assume "unat n < FSSIZE"
  then have n: "unat n < 2 ^ 28" by (simp add: FSSIZE_def)
  have m: "(0xFFFFFFF :: uint) = mask 28" by (simp add: mask_eq_exp_minus_1)
  have "take_bit 28 n = n" using n by (simp add: word_unat_eq_iff unsigned_take_bit_eq take_bit_nat_eq_self)
  then show ?thesis unfolding m by (simp add: take_bit_eq_mask)
qed

text \<open>A transfer changes no other buffer.\<close>

lemma transfer_other: "c \<noteq> b \<Longrightarrow> buf_at (transfer b s) c = buf_at s c"
  by (simp add: transfer_def upd_buf_def Let_def)

lemma enter_ok:
  fixes s :: ide
  assumes "ide_ok s" "b \<notin> set (idequeue s)" "iderw_enter b s = Val t" "idequeue s \<noteq> [] \<longrightarrow> unat (b_blockno (buf_at s b)) < FSSIZE"
  shows "ide_ok t \<and> settled t = transfer b (settled s) \<and> idequeue t = idequeue s @ [b] \<and> woken t = woken s"
proof -
  have t: "t = s\<lparr>idequeue := idequeue s @ [b], registers := registers t\<rparr>"
    "idequeue s = [] \<longrightarrow> registers t = Some (command_of (buf_at s b)) \<and> unat (b_blockno (buf_at s b)) < FSSIZE"
    "idequeue s \<noteq> [] \<longrightarrow> registers t = registers s"
    using assms(2,3) by (cases "idequeue s"; auto simp: iderw_enter_def idestart_def Let_def split: if_splits)+
  have q: "idequeue t = idequeue s @ [b]" "woken t = woken s" "bufs t = bufs s" "bcache.truncate t = bcache.truncate s"
    by (subst t(1), simp add: bcache.truncate_def)+
  then have "settled t = transfer b (settled s)" by (simp add: settled_def)
  moreover have "ide_ok t" using assms(1,2,4) t(2,3) q by (cases "idequeue s") (auto simp: ide_ok_def)
  ultimately show ?thesis using q by blast
qed

lemma intr_ok:
  fixes s :: ide
  assumes ok: "ide_ok s" and q: "idequeue s = b # q" and b: "b < length (bufs s)"
  shows "\<exists>t. ideintr False (drive s) = Val t \<and> ide_ok t \<and> settled t = settled s \<and> idequeue t = q \<and>
    woken t = woken s @ [b] \<and> iderw_ready b t"
proof -
  let ?b = "buf_at s b"
  have r: "registers s = Some (command_of ?b)" "b \<notin> set q" "distinct q" "unat (b_blockno ?b) < FSSIZE"
      "\<forall>c \<in> set q. unat (b_blockno (buf_at s c)) < FSSIZE"
    using ok q by (auto simp: ide_ok_def)
  have k: "c_block (command_of ?b) = disk_key ?b" using sector_mask [OF r(4)] by (simp add: command_of_def disk_key_def)
  have w: "c_write (command_of ?b) = (if b_dirty ?b then Some (b_data ?b) else None)" by (simp add: command_of_def)
  define t where "t = transfer b (s\<lparr>idequeue := q, woken := woken s @ [b]\<rparr>)"
  define u where "u = drive s"
  have u: "bufs u = bufs s" "idequeue u = b # q" "woken u = woken s" "registers u = registers s"
    using q by (simp_all add: u_def drive_def split: option.split)
  define t0 where "t0 = upd_buf b (\<lambda>x. x\<lparr>b_valid := True, b_dirty := False\<rparr>)
    ((if \<not> b_dirty ?b then upd_buf b (\<lambda>x. x\<lparr>b_data := sector_data u\<rparr>) u else u)\<lparr>idequeue := q, woken := woken u @ [b]\<rparr>)"
  have "ideintr False u = (case q of [] \<Rightarrow> Val t0 | c # _ \<Rightarrow> idestart c t0)"
    by (cases "b_dirty ?b"; cases q) (simp_all add: ideintr_def u t0_def)
  moreover have "t0 = t"
    using r(1) b by (cases "b_dirty ?b")
      (simp_all add: t0_def u_def drive_def sector_data_def k w t_def transfer_def upd_buf_def Let_def)
  ultimately have run: "ideintr False (drive s) = (case q of [] \<Rightarrow> Val t | c # _ \<Rightarrow> idestart c t)"
    by (simp only: u_def)
  have f: "idequeue t = q" "woken t = woken s @ [b]" "registers t = registers s"
    by (simp_all add: t_def transfer_def Let_def upd_buf_def)
  have bt: "buf_at t c = buf_at s c" if "c \<in> set q" for c
    using transfer_other [of c b "s\<lparr>idequeue := q, woken := woken s @ [b]\<rparr>"] that r(2) by (auto simp: t_def)
  have "bcache.truncate t = transfer b (bcache.truncate s)"
    by (simp add: t_def transfer_def Let_def upd_buf_def bcache.truncate_def)
  then have st: "settled t = settled s" by (simp add: settled_def q f)
  have rd: "iderw_ready b t" using b by (simp add: iderw_ready_def t_def transfer_def Let_def upd_buf_def)
  show ?thesis
  proof (cases q)
    case Nil
    then show ?thesis using run st rd f by (auto simp: ide_ok_def)
  next
    case (Cons c q')
    let ?u = "t\<lparr>registers := Some (command_of (buf_at t c))\<rparr>"
    have "idestart c t = Val ?u" using bt [of c] r(5) Cons by (auto simp: idestart_def)
    moreover have "ide_ok ?u" using r(3,5) bt f Cons by (auto simp: ide_ok_def)
    moreover have "settled ?u = settled s" using st by (simp add: settled_def bcache.truncate_def)
    moreover have "iderw_ready b ?u" using rd by (simp add: iderw_ready_def)
    ultimately show ?thesis using run f Cons by auto
  qed
qed

section \<open>Any interleaving\<close>

text \<open>
  A process that holds a buffer asks for its transfer, or the drive, having carried out its command
  without an error, raises its interrupt.  A process waits for its own request, so no buffer is asked
  for twice at the same time.
\<close>

datatype ide_event = Request int nat | Interrupt

inductive ide_run :: "ide \<Rightarrow> ide_event list \<Rightarrow> ide \<Rightarrow> bool" where
  start: "ide_run s [] s"
| request: "ide_run s evs t \<Longrightarrow> b \<notin> set (idequeue t) \<Longrightarrow> b < length (bufs t) \<Longrightarrow> unat (b_blockno (buf_at t b)) < FSSIZE \<Longrightarrow>
    iderw_enter b (t\<lparr>me := p\<rparr>) = Val u \<Longrightarrow> ide_run s (evs @ [Request p b]) (u\<lparr>me := me t\<rparr>)"
| interrupt: "ide_run s evs t \<Longrightarrow> idequeue t \<noteq> [] \<Longrightarrow> ideintr False (drive t) = Val u \<Longrightarrow>
    ide_run s (evs @ [Interrupt]) u"
| spurious: "ide_run s evs t \<Longrightarrow> idequeue t = [] \<Longrightarrow> ideintr err t = Val u \<Longrightarrow> ide_run s (evs @ [Interrupt]) u"

fun requests :: "ide_event list \<Rightarrow> nat list" where
  "requests [] = []"
| "requests (Request p b # evs) = b # requests evs"
| "requests (Interrupt # evs) = requests evs"

lemma requests_append [simp]: "requests (evs @ evs') = requests evs @ requests evs'"
  by (induction evs rule: requests.induct) simp_all

text \<open>The transfers do not look at the running process.\<close>

lemma transfer_me: "transfer b (s\<lparr>me := p\<rparr>) = (transfer b s)\<lparr>me := p\<rparr>"
  by (simp add: transfer_def Let_def upd_buf_def)

lemma fold_transfer_me: "fold transfer bs (s\<lparr>me := p\<rparr>) = (fold transfer bs s)\<lparr>me := p\<rparr>"
  by (induction bs arbitrary: s) (simp_all add: transfer_me)

lemma transfer_length [simp]: "length (bufs (transfer b s)) = length (bufs s)"
  by (simp add: transfer_def Let_def upd_buf_def)

lemma fold_transfer_length: "length (bufs (fold transfer bs s)) = length (bufs s)"
  by (induction bs arbitrary: s) simp_all

lemma settled_me: "settled (s\<lparr>me := p\<rparr>) = (settled s)\<lparr>me := p\<rparr>"
proof -
  have "bcache.truncate (s\<lparr>me := p\<rparr>) = (bcache.truncate s)\<lparr>me := p\<rparr>" by (simp add: bcache.truncate_def)
  then show ?thesis by (simp add: settled_def fold_transfer_me)
qed

lemma ide_ok_me [simp]: "ide_ok (s\<lparr>me := p\<rparr>) = ide_ok s"
  by (simp add: ide_ok_def split: list.split)

lemma settled_length: "length (bufs (settled s)) = length (bufs s)"
  by (simp add: settled_def fold_transfer_length bcache.truncate_def)

definition in_order :: "ide \<Rightarrow> ide_event list \<Rightarrow> ide \<Rightarrow> bool" where
  "in_order s evs t \<longleftrightarrow> ide_ok t \<and> settled t = fold transfer (requests evs) (settled s) \<and>
     woken t @ idequeue t = woken s @ idequeue s @ requests evs \<and> (\<forall>b \<in> set (idequeue t). b < length (bufs t))"

lemma in_order_request:
  assumes a: "in_order s evs t" and b: "b \<notin> set (idequeue t)" "b < length (bufs t)" "unat (b_blockno (buf_at t b)) < FSSIZE"
    and v: "iderw_enter b (t\<lparr>me := p\<rparr>) = Val u"
  shows "in_order s (evs @ [Request p b]) (u\<lparr>me := me t\<rparr>)"
proof -
  have "ide_ok (t\<lparr>me := p\<rparr>)" using a by (simp add: in_order_def)
  from enter_ok [OF this _ v] b have u: "ide_ok u" "settled u = transfer b (settled (t\<lparr>me := p\<rparr>))"
      "idequeue u = idequeue t @ [b]" "woken u = woken t" by simp_all
  have "settled (u\<lparr>me := me t\<rparr>) = (transfer b (settled t))\<lparr>me := me t\<rparr>"
    by (simp add: settled_me u(2) transfer_me)
  also have "me (transfer b (settled t)) = me t"
  proof -
    have "me (fold transfer bs x) = me x" for bs and x :: bcache
      by (induction bs arbitrary: x) (simp_all add: transfer_def Let_def upd_buf_def)
    then show ?thesis by (simp add: settled_def transfer_def Let_def upd_buf_def bcache.truncate_def)
  qed
  then have "(transfer b (settled t))\<lparr>me := me t\<rparr> = transfer b (settled t)" by simp
  finally have "settled (u\<lparr>me := me t\<rparr>) = transfer b (settled t)" .
  moreover have "length (bufs u) = length (bufs t)"
    using settled_length [of u] settled_length [of t] u(2) by (simp add: settled_me)
  ultimately show ?thesis using a b(2) u by (auto simp: in_order_def)
qed

lemma in_order_interrupt:
  assumes a: "in_order s evs t" and q: "idequeue t = b # q" and v: "ideintr False (drive t) = Val u"
  shows "in_order s (evs @ [Interrupt]) u"
proof -
  obtain u' where "ideintr False (drive t) = Val u'" "ide_ok u'" "settled u' = settled t" "idequeue u' = q"
      "woken u' = woken t @ [b]"
    using intr_ok [OF _ q] a q by (auto simp: in_order_def)
  then show ?thesis using a v q settled_length [of u] settled_length [of t] by (auto simp: in_order_def)
qed

lemma in_order_run:
  assumes "ide_run s evs t" "idequeue s = []"
  shows "in_order s evs t"
  using assms
proof (induction rule: ide_run.induct)
  case (start s)
  then show ?case by (simp add: in_order_def ide_ok_def)
next
  case (request s evs t b p u)
  then show ?case using in_order_request by blast
next
  case (interrupt s evs t u)
  then show ?case using in_order_interrupt by (cases "idequeue t") blast+
next
  case (spurious s evs t err u)
  then show ?case by (simp add: in_order_def ideintr_def)
qed

section \<open>The queue is the synchronous disk\<close>

text \<open>
  C12: The request queue implements the disk of the buffer cache.  However requests and interrupts
  interleave, starting with an idle disk, requests are finished and their processes woken in the order
  in which they were made; the disk and the buffers, once the pending requests are carried out, are those
  of one synchronous transfer after the other; and whenever a request is pending, the next interrupt
  finishes the oldest one, marks its buffer valid and clean and keeps the rest of the queue.
\<close>

theorem ide_queue_fifo:
  assumes "ide_run s evs t" "idequeue s = []" "woken s = []"
  shows "requests evs = woken t @ idequeue t \<and>
    fold transfer (idequeue t) (bcache.truncate t) = fold transfer (requests evs) (bcache.truncate s) \<and>
    (idequeue t \<noteq> [] \<longrightarrow> (\<exists>u. ideintr False (drive t) = Val u \<and> idequeue u = tl (idequeue t) \<and>
           woken u = woken t @ [hd (idequeue t)] \<and> iderw_ready (hd (idequeue t)) u))"
proof (intro conjI)
  have o: "in_order s evs t" using in_order_run [OF assms(1,2)] .
  show "requests evs = woken t @ idequeue t" using o assms(2,3) by (simp add: in_order_def)
  show "fold transfer (idequeue t) (bcache.truncate t) = fold transfer (requests evs) (bcache.truncate s)"
    using o assms(2) by (simp add: in_order_def settled_def)
  show "idequeue t \<noteq> [] \<longrightarrow> (\<exists>u. ideintr False (drive t) = Val u \<and> idequeue u = tl (idequeue t) \<and>
      woken u = woken t @ [hd (idequeue t)] \<and> iderw_ready (hd (idequeue t)) u)"
  proof
    assume "idequeue t \<noteq> []"
    then obtain b q where "idequeue t = b # q" by (cases "idequeue t") auto
    then show "\<exists>u. ideintr False (drive t) = Val u \<and> idequeue u = tl (idequeue t) \<and>
        woken u = woken t @ [hd (idequeue t)] \<and> iderw_ready (hd (idequeue t)) u"
      using intr_ok [of t b q] o by (auto simp: in_order_def)
  qed
qed

text \<open>A write of block 5 and a read of block 7 that queues behind it.\<close>

definition ide_example :: ide where
  "ide_example = \<lparr>bufs = [\<lparr>b_valid = True, b_dirty = True, b_dev = 1, b_blockno = 5, b_holder = Some 3, b_refcnt = 1, b_data = [9]\<rparr>,
       \<lparr>b_valid = False, b_dirty = False, b_dev = 1, b_blockno = 7, b_holder = Some 4, b_refcnt = 1, b_data = [0]\<rparr>],
     mru = [0, 1], disk = (\<lambda>_. [1]), written = [], havedisk1 = True, me = 3,
     idequeue = [], registers = None, woken = []\<rparr>"

theorem ide_queue_fifo_witness:
  "\<exists>t :: ide. woken t = [0] \<and> idequeue t = [1] \<and> disk t (1, 5) = [9] \<and>
     (\<exists>u. ideintr False (drive t) = Val u \<and> idequeue u = tl (idequeue t) \<and>
        woken u = woken t @ [hd (idequeue t)] \<and> iderw_ready (hd (idequeue t)) u)"
proof -
  let ?b = "(bufs ide_example)[0 := (bufs ide_example ! 0)\<lparr>b_dirty := False\<rparr>]"
  let ?t1 = "ide_example\<lparr>idequeue := [0], registers := Some \<lparr>c_block = (1, 5), c_write = Some [9]\<rparr>\<rparr>"
  let ?t2 = "?t1\<lparr>idequeue := [0, 1]\<rparr>"
  let ?t3 = "?t2\<lparr>bufs := ?b, idequeue := [1], registers := Some \<lparr>c_block = (1, 7), c_write = None\<rparr>, woken := [0],
     disk := (disk ide_example)((1, 5) := [9]), written := [((1, 5), [9])]\<rparr>"
  have 1: "ide_run ide_example [Request 3 0] (?t1\<lparr>me := me ide_example\<rparr>)"
    using ide_run.request [OF ide_run.start [of ide_example], of 0 3 ?t1]
    by (simp add: ide_example_def iderw_enter_def idestart_def holdingsleep_def FSSIZE_def command_of_def)
  have 2: "ide_run ide_example [Request 3 0, Request 4 1] ?t2"
    using ide_run.request [OF 1, of 1 4 "?t2\<lparr>me := 4\<rparr>"]
    by (simp add: ide_example_def iderw_enter_def idestart_def holdingsleep_def FSSIZE_def command_of_def)
  have 3: "ide_run ide_example [Request 3 0, Request 4 1, Interrupt] ?t3"
    using ide_run.interrupt [OF 2, of ?t3]
    by (simp add: ide_example_def ideintr_def drive_def idestart_def FSSIZE_def command_of_def upd_buf_def)
  have i: "idequeue ide_example = []" "woken ide_example = []" by (simp_all add: ide_example_def)
  have "\<exists>t. ide_run ide_example [Request 3 0, Request 4 1, Interrupt] t \<and> woken t = [0] \<and> idequeue t = [1] \<and>
      disk t (1, 5) = [9]"
    using 3 by (intro exI [of _ ?t3] conjI) simp_all
  then obtain t where t: "ide_run ide_example [Request 3 0, Request 4 1, Interrupt] t" "woken t = [0]"
      "idequeue t = [1]" "disk t (1, 5) = [9]" by blast
  then show ?thesis using ide_queue_fifo [OF t(1) i] by (intro exI [of _ t]) simp
qed

text \<open>A read that fails is reported as done: the buffer keeps its old bytes and is marked valid.\<close>

lemma read_error_is_valid:
  assumes "idequeue s = b # q" "b < length (bufs s)" "\<not> b_dirty (buf_at s b)" "ideintr True (drive s) = Val t"
  shows "iderw_ready b t \<and> b_data (buf_at t b) = b_data (buf_at s b)"
proof -
  have "bufs (drive s) = bufs s" "idequeue (drive s) = idequeue s" by (simp_all add: drive_def split: option.split)
  then show ?thesis using assms
    by (cases q) (auto simp: ideintr_def idestart_def iderw_ready_def upd_buf_def Let_def split: if_splits)
qed

end
