(* ===== verification/Xv6_Fs.thy ===== *)
theory Xv6_Fs
  imports Xv6_Kalloc Xv6_Bio
begin

text \<open>
  The file system (\<open>fs.c\<close> of the Enhanced-Shell kernel) on the blocks of the disk as a running
  transaction sees them: \<open>bread\<close>, a change of the buffer, \<open>log_write\<close> and \<open>brelse\<close> in sequence
  change what is read of that block from then on, and of no other (the contract of the log).
\<close>

unbundle bit_operations_syntax

section \<open>State\<close>

definition NDIRECT :: nat where "NDIRECT = 12"
definition NINDIRECT :: nat where "NINDIRECT = BSIZE div 4"
definition MAXFILE :: nat where "MAXFILE = NDIRECT + NINDIRECT"
definition IPB :: nat where "IPB = BSIZE div 64"
definition BPB :: nat where "BPB = BSIZE * 8"
definition DIRSIZ :: nat where "DIRSIZ = 14"
definition NINODE :: nat where "NINODE = 50"
definition NDEV :: nat where "NDEV = 10"
definition ROOTDEV :: uint where "ROOTDEV = 1"
definition ROOTINO :: uint where "ROOTINO = 1"

definition T_DIR :: "16 word" where "T_DIR = 1"
definition T_FILE :: "16 word" where "T_FILE = 2"
definition T_DEV :: "16 word" where "T_DEV = 3"

record superblock =
  sb_size :: uint
  sb_nblocks :: uint
  sb_ninodes :: uint
  sb_nlog :: uint
  sb_logstart :: uint
  sb_inodestart :: uint
  sb_bmapstart :: uint

record inode =
  i_dev :: uint
  i_inum :: uint
  i_ref :: int
  i_holder :: "int option"
  i_valid :: bool
  i_type :: "16 word"
  i_major :: "16 word"
  i_minor :: "16 word"
  i_nlink :: "16 word"
  i_size :: uint
  i_addrs :: "uint list"
  i_mode :: uint

text \<open>
  \<open>blk\<close> is the contents of a block, byte by byte; \<open>cur\<close> the running process; the \<open>devsw\<close> entries are
  functions of the amount asked for, or of the bytes written; \<open>outst\<close> counts the operations that
  have called \<open>begin_op\<close> and not yet \<open>end_op\<close>.
\<close>

record fs =
  blk :: "uint \<Rightarrow> uint \<Rightarrow> memory"
  sb :: superblock
  icache :: "inode list"
  cur :: int
  devread :: "nat \<Rightarrow> (uint \<Rightarrow> int \<times> byte list) option"
  devwrite :: "nat \<Rightarrow> (byte list \<Rightarrow> int) option"
  outst :: int

definition wblk :: "uint \<Rightarrow> uint \<Rightarrow> memory \<Rightarrow> 'a fs_scheme \<Rightarrow> 'a fs_scheme" where
  "wblk dev b m s = s\<lparr>blk := (blk s)(dev := (blk s dev)(b := m))\<rparr>"

abbreviation ino :: "'a fs_scheme \<Rightarrow> nat \<Rightarrow> inode" where
  "ino s ip \<equiv> icache s ! ip"

definition upd_ino :: "nat \<Rightarrow> (inode \<Rightarrow> inode) \<Rightarrow> 'a fs_scheme \<Rightarrow> 'a fs_scheme" where
  "upd_ino ip f s = s\<lparr>icache := (icache s)[ip := f (icache s ! ip)]\<rparr>"

definition ld16 :: "memory \<Rightarrow> nat \<Rightarrow> 16 word" where
  "ld16 m a = ucast (m a) OR push_bit 8 (ucast (m (a + 1)))"

definition st16 :: "nat \<Rightarrow> 16 word \<Rightarrow> memory \<Rightarrow> memory" where
  "st16 a w m = m(a := ucast w, a + 1 := ucast (drop_bit 8 w))"

section \<open>Blocks\<close>

definition readsb :: "uint \<Rightarrow> 'a fs_scheme \<Rightarrow> 'a fs_scheme" where
  "readsb dev s =
     (let d = blk s dev 1
      in s\<lparr>sb := \<lparr>sb_size = ld32 d 0, sb_nblocks = ld32 d 4, sb_ninodes = ld32 d 8, sb_nlog = ld32 d 12,
                  sb_logstart = ld32 d 16, sb_inodestart = ld32 d 20, sb_bmapstart = ld32 d 24\<rparr>\<rparr>)"

definition BBLOCK :: "nat \<Rightarrow> 'a fs_scheme \<Rightarrow> uint" where
  "BBLOCK b s = of_nat (b div BPB) + sb_bmapstart (sb s)"

definition bzero :: "uint \<Rightarrow> uint \<Rightarrow> 'a fs_scheme \<Rightarrow> 'a fs_scheme" where
  "bzero dev bno s = wblk dev bno (memset (blk s dev bno) 0 0 BSIZE) s"

definition bit_used :: "memory \<Rightarrow> nat \<Rightarrow> bool" where
  "bit_used d bi \<longleftrightarrow> d (bi div 8) AND push_bit (bi mod 8) 1 \<noteq> 0"

text \<open>The outer loop, from block number \<open>b\<close> on; the inner one is the scan for a free bit.\<close>

function balloc_loop :: "uint \<Rightarrow> nat \<Rightarrow> 'a fs_scheme \<Rightarrow> (uint \<times> 'a fs_scheme) outcome" where
  "balloc_loop dev b s =
     (if \<not> b < unat (sb_size (sb s)) then Panic ''balloc: out of blocks''
      else let d = blk s dev (BBLOCK b s)
        in case scan (\<lambda>bi. \<not> bit_used d bi) [0..<min BPB (unat (sb_size (sb s)) - b)] of
             Some bi \<Rightarrow>
               (let m = d(bi div 8 := d (bi div 8) OR push_bit (bi mod 8) 1)
                in Val (of_nat (b + bi), bzero dev (of_nat (b + bi)) (wblk dev (BBLOCK b s) m s)))
           | None \<Rightarrow> balloc_loop dev (b + BPB) s)"
  by pat_completeness auto
termination
  by (relation "measure (\<lambda>(dev, b, s). unat (sb_size (sb s)) - b)") (auto simp: BPB_def BSIZE_def)

declare balloc_loop.simps [simp del]

definition balloc :: "uint \<Rightarrow> 'a fs_scheme \<Rightarrow> (uint \<times> 'a fs_scheme) outcome" where
  "balloc dev s = balloc_loop dev 0 s"

definition bfree :: "uint \<Rightarrow> uint \<Rightarrow> 'a fs_scheme \<Rightarrow> 'a fs_scheme outcome" where
  "bfree dev b s =
     (let bb = BBLOCK (unat b) s; d = blk s dev bb; bi = unat b mod BPB; m = push_bit (bi mod 8) 1
      in if d (bi div 8) AND m = 0 then Panic ''freeing free block''
         else Val (wblk dev bb (d(bi div 8 := d (bi div 8) AND NOT m)) s))"

section \<open>Inodes\<close>

definition IBLOCK :: "uint \<Rightarrow> 'a fs_scheme \<Rightarrow> uint" where
  "IBLOCK i s = of_nat (unat i div IPB) + sb_inodestart (sb s)"

definition dino_off :: "uint \<Rightarrow> nat" where
  "dino_off i = unat i mod IPB * 64"

text \<open>\<open>iget\<close>: the slot that caches the inode, else the first slot without references.\<close>

definition iget :: "uint \<Rightarrow> uint \<Rightarrow> 'a fs_scheme \<Rightarrow> (nat \<times> 'a fs_scheme) outcome" where
  "iget dev inum s =
     (case scan (\<lambda>ip. 0 < i_ref ip \<and> i_dev ip = dev \<and> i_inum ip = inum) (icache s) of
        Some ip \<Rightarrow> Val (ip, upd_ino ip (\<lambda>i. i\<lparr>i_ref := i_ref i + 1\<rparr>) s)
      | None \<Rightarrow>
          (case scan (\<lambda>ip. i_ref ip = 0) (icache s) of
             None \<Rightarrow> Panic ''iget: no inodes''
           | Some ip \<Rightarrow>
               Val (ip, upd_ino ip (\<lambda>i. i\<lparr>i_dev := dev, i_inum := inum, i_ref := 1, i_valid := False\<rparr>) s)))"

text \<open>\<open>ialloc\<close> from inode number \<open>inum\<close> on.\<close>

function ialloc_loop :: "uint \<Rightarrow> 16 word \<Rightarrow> nat \<Rightarrow> 'a fs_scheme \<Rightarrow> (nat \<times> 'a fs_scheme) outcome" where
  "ialloc_loop dev typ inum s =
     (if \<not> inum < unat (sb_ninodes (sb s)) then Panic ''ialloc: no inodes''
      else let ib = IBLOCK (of_nat inum) s; d = blk s dev ib; a = dino_off (of_nat inum)
        in if ld16 d a = 0
           then iget dev (of_nat inum) (wblk dev ib (st16 a typ (memset d a 0 64)) s)
           else ialloc_loop dev typ (inum + 1) s)"
  by pat_completeness auto
termination
  by (relation "measure (\<lambda>(dev, typ, inum, s). unat (sb_ninodes (sb s)) - inum)") auto

declare ialloc_loop.simps [simp del]

definition ialloc :: "uint \<Rightarrow> 16 word \<Rightarrow> 'a fs_scheme \<Rightarrow> (nat \<times> 'a fs_scheme) outcome" where
  "ialloc dev typ s = ialloc_loop dev typ 1 s"

text \<open>
  The on-disk inode of 64 bytes: three shorts, the 13 bits of the link count and the 3 bits of the
  mode in one 16-bit word, the size and the 13 addresses.
\<close>

definition put_addrs :: "nat \<Rightarrow> uint list \<Rightarrow> memory \<Rightarrow> memory" where
  "put_addrs a ws m = fold (\<lambda>k. st32 (a + 4 * k) (ws ! k)) [0..<Suc NDIRECT] m"

definition get_addrs :: "nat \<Rightarrow> memory \<Rightarrow> uint list" where
  "get_addrs a m = map (\<lambda>k. ld32 m (a + 4 * k)) [0..<Suc NDIRECT]"

definition iupdate :: "nat \<Rightarrow> 'a fs_scheme \<Rightarrow> 'a fs_scheme" where
  "iupdate ip s =
     (let i = ino s ip; ib = IBLOCK (i_inum i) s; a = dino_off (i_inum i)
      in wblk (i_dev i) ib
           (put_addrs (a + 12) (i_addrs i) (st32 (a + 8) (i_size i)
             (st16 (a + 6) ((i_nlink i AND 0x1FFF) OR push_bit 13 (ucast (i_mode i AND 7)))
               (st16 (a + 4) (i_minor i) (st16 (a + 2) (i_major i) (st16 a (i_type i)
                 (blk s (i_dev i) ib))))))) s)"

definition idup :: "nat \<Rightarrow> 'a fs_scheme \<Rightarrow> nat \<times> 'a fs_scheme" where
  "idup ip s = (ip, upd_ino ip (\<lambda>i. i\<lparr>i_ref := i_ref i + 1\<rparr>) s)"

definition ilock :: "nat \<Rightarrow> 'a fs_scheme \<Rightarrow> 'a fs_scheme outcome" where
  "ilock ip s =
     (if i_ref (ino s ip) < 1 then Panic ''ilock''
      else if i_holder (ino s ip) \<noteq> None then Asleep
      else let s = upd_ino ip (\<lambda>i. i\<lparr>i_holder := Some (cur s)\<rparr>) s; i = ino s ip
        in if i_valid i then Val s
           else let d = blk s (i_dev i) (IBLOCK (i_inum i) s); a = dino_off (i_inum i)
             in if ld16 d a = 0 then Panic ''ilock: no type''
                else Val (upd_ino ip (\<lambda>i. i\<lparr>i_type := ld16 d a, i_major := ld16 d (a + 2), i_minor := ld16 d (a + 4),
                  i_nlink := ld16 d (a + 6) AND 0x1FFF, i_size := ld32 d (a + 8),
                  i_mode := ucast (drop_bit 13 (ld16 d (a + 6))), i_addrs := get_addrs (a + 12) d,
                  i_valid := True\<rparr>) s))"

definition iunlock :: "nat \<Rightarrow> 'a fs_scheme \<Rightarrow> 'a fs_scheme outcome" where
  "iunlock ip s =
     (if i_holder (ino s ip) \<noteq> Some (cur s) \<or> i_ref (ino s ip) < 1 then Panic ''iunlock''
      else Val (upd_ino ip (\<lambda>i. i\<lparr>i_holder := None\<rparr>) s))"

section \<open>Inode contents\<close>

text \<open>The indirect block, and entry \<open>k\<close> of the indirect block \<open>indb\<close>; both are allocated when missing.\<close>

definition bmap_ind :: "nat \<Rightarrow> 'a fs_scheme \<Rightarrow> (uint \<times> 'a fs_scheme) outcome" where
  "bmap_ind ip s =
     (if i_addrs (ino s ip) ! NDIRECT \<noteq> 0 then Val (i_addrs (ino s ip) ! NDIRECT, s)
      else andthen (balloc (i_dev (ino s ip)) s) (\<lambda>(addr, s1).
        Val (addr, upd_ino ip (\<lambda>i. i\<lparr>i_addrs := (i_addrs i)[NDIRECT := addr]\<rparr>) s1)))"

definition bmap_listed :: "nat \<Rightarrow> nat \<Rightarrow> uint \<Rightarrow> 'a fs_scheme \<Rightarrow> (uint \<times> 'a fs_scheme) outcome" where
  "bmap_listed ip k indb s =
     (let d = blk s (i_dev (ino s ip)) indb; addr = ld32 d (4 * k)
      in if addr \<noteq> 0 then Val (addr, s)
         else andthen (balloc (i_dev (ino s ip)) s) (\<lambda>(addr, s1).
           Val (addr, wblk (i_dev (ino s1 ip)) indb (st32 (4 * k) addr d) s1)))"

text \<open>Block \<open>bn\<close> of the file, allocated when there is none.\<close>

definition bmap :: "nat \<Rightarrow> nat \<Rightarrow> 'a fs_scheme \<Rightarrow> (uint \<times> 'a fs_scheme) outcome" where
  "bmap ip bn s =
     (if bn < NDIRECT
      then (if i_addrs (ino s ip) ! bn \<noteq> 0 then Val (i_addrs (ino s ip) ! bn, s)
            else andthen (balloc (i_dev (ino s ip)) s) (\<lambda>(addr, s1).
              Val (addr, upd_ino ip (\<lambda>i. i\<lparr>i_addrs := (i_addrs i)[bn := addr]\<rparr>) s1)))
      else if bn - NDIRECT < NINDIRECT
      then andthen (bmap_ind ip s) (\<lambda>(indb, s1). bmap_listed ip (bn - NDIRECT) indb s1)
      else Panic ''bmap: out of range'')"

text \<open>The two loops of \<open>itrunc\<close>: the direct blocks, and the blocks listed in the indirect block.\<close>

definition free_direct :: "nat \<Rightarrow> nat \<Rightarrow> 'a fs_scheme \<Rightarrow> 'a fs_scheme outcome" where
  "free_direct ip k s =
     (let a = i_addrs (ino s ip) ! k
      in if a \<noteq> 0
         then andthen (bfree (i_dev (ino s ip)) a s) (\<lambda>s. Val (upd_ino ip (\<lambda>i. i\<lparr>i_addrs := (i_addrs i)[k := 0]\<rparr>) s))
         else Val s)"

definition free_listed :: "nat \<Rightarrow> memory \<Rightarrow> nat \<Rightarrow> 'a fs_scheme \<Rightarrow> 'a fs_scheme outcome" where
  "free_listed ip d j s =
     (if ld32 d (4 * j) \<noteq> 0 then bfree (i_dev (ino s ip)) (ld32 d (4 * j)) s else Val s)"

definition itrunc :: "nat \<Rightarrow> 'a fs_scheme \<Rightarrow> 'a fs_scheme outcome" where
  "itrunc ip s =
     andthen (each (free_direct ip) [0..<NDIRECT] s) (\<lambda>s1.
     andthen
       (let ind = i_addrs (ino s1 ip) ! NDIRECT
        in if ind \<noteq> 0
           then andthen (each (free_listed ip (blk s1 (i_dev (ino s1 ip)) ind)) [0..<NINDIRECT] s1) (\<lambda>s2.
                andthen (bfree (i_dev (ino s2 ip)) ind s2) (\<lambda>s3.
                  Val (upd_ino ip (\<lambda>i. i\<lparr>i_addrs := (i_addrs i)[NDIRECT := 0]\<rparr>) s3)))
           else Val s1)
       (\<lambda>s4. Val (iupdate ip (upd_ino ip (\<lambda>i. i\<lparr>i_size := 0\<rparr>) s4))))"

definition iput :: "nat \<Rightarrow> 'a fs_scheme \<Rightarrow> 'a fs_scheme outcome" where
  "iput ip s =
     (if i_holder (ino s ip) \<noteq> None then Asleep
      else let s0 = upd_ino ip (\<lambda>i. i\<lparr>i_holder := Some (cur s)\<rparr>) s
        in andthen
          (if i_valid (ino s0 ip) \<and> i_nlink (ino s0 ip) = 0 \<and> i_ref (ino s0 ip) = 1
           then andthen (itrunc ip s0) (\<lambda>s1.
             Val (upd_ino ip (\<lambda>i. i\<lparr>i_valid := False\<rparr>) (iupdate ip (upd_ino ip (\<lambda>i. i\<lparr>i_type := 0\<rparr>) s1))))
           else Val s0)
          (\<lambda>s2. Val (upd_ino ip (\<lambda>i. i\<lparr>i_holder := None, i_ref := i_ref i - 1\<rparr>) s2)))"

definition iunlockput :: "nat \<Rightarrow> 'a fs_scheme \<Rightarrow> 'a fs_scheme outcome" where
  "iunlockput ip s = andthen (iunlock ip s) (iput ip)"

record statbuf =
  st_type :: "16 word"
  st_dev :: uint
  st_ino :: uint
  st_nlink :: "16 word"
  st_size :: uint

definition stati :: "nat \<Rightarrow> 'a fs_scheme \<Rightarrow> statbuf" where
  "stati ip s =
     (let i = ino s ip
      in \<lparr>st_type = i_type i, st_dev = i_dev i, st_ino = i_inum i, st_nlink = i_nlink i, st_size = i_size i\<rparr>)"

text \<open>
  \<open>readi\<close> returns the bytes it stores at \<open>dst\<close>, and a count.  Behind the checks the sum of offset and
  length does not wrap around, so the loops count in natural numbers.
\<close>

definition chunk :: "nat \<Rightarrow> nat \<Rightarrow> nat" where
  "chunk off n = min n (BSIZE - off mod BSIZE)"

lemma chunk_pos: "0 < n \<Longrightarrow> 0 < chunk off n" and chunk_le: "chunk off n \<le> n" "off mod BSIZE + chunk off n \<le> BSIZE"
proof -
  have "off mod BSIZE < BSIZE" by (simp add: BSIZE_def)
  then show "0 < n \<Longrightarrow> 0 < chunk off n" "chunk off n \<le> n" "off mod BSIZE + chunk off n \<le> BSIZE"
    by (auto simp: chunk_def)
qed

function readi_loop :: "nat \<Rightarrow> nat \<Rightarrow> nat \<Rightarrow> 'a fs_scheme \<Rightarrow> (byte list \<times> 'a fs_scheme) outcome" where
  "readi_loop ip off n s =
     (if n = 0 then Val ([], s)
      else let m = chunk off n
        in andthen (bmap ip (off div BSIZE) s) (\<lambda>(addr, s1).
             let d = blk s1 (i_dev (ino s1 ip)) addr
             in andthen (readi_loop ip (off + m) (n - m) s1) (\<lambda>(bs, s2).
                  Val (map (\<lambda>k. d (off mod BSIZE + k)) [0..<m] @ bs, s2))))"
  by pat_completeness auto
termination by (relation "measure (\<lambda>(ip, off, n, s). n)") (auto simp: chunk_pos)

declare readi_loop.simps [simp del]

definition device :: "16 word \<Rightarrow> (nat \<Rightarrow> 'f option) \<Rightarrow> 'f option" where
  "device major devsw = (if sint major < 0 \<or> int NDEV \<le> sint major then None else devsw (nat (sint major)))"

definition readi :: "nat \<Rightarrow> uint \<Rightarrow> uint \<Rightarrow> 'a fs_scheme \<Rightarrow> (int \<times> byte list \<times> 'a fs_scheme) outcome" where
  "readi ip off n s =
     (if i_type (ino s ip) = T_DEV
      then (case device (i_major (ino s ip)) (devread s) of
              None \<Rightarrow> Val (- 1, [], s)
            | Some f \<Rightarrow> (case f n of (r, bs) \<Rightarrow> Val (r, bs, s)))
      else if i_size (ino s ip) < off \<or> off + n < off then Val (- 1, [], s)
      else let n = (if i_size (ino s ip) < off + n then i_size (ino s ip) - off else n)
        in andthen (readi_loop ip (unat off) (unat n) s) (\<lambda>(bs, t). Val (uint n, bs, t)))"

function writei_loop :: "nat \<Rightarrow> nat \<Rightarrow> byte list \<Rightarrow> 'a fs_scheme \<Rightarrow> 'a fs_scheme outcome" where
  "writei_loop ip off src s =
     (if src = [] then Val s
      else let m = chunk off (length src)
        in andthen (bmap ip (off div BSIZE) s) (\<lambda>(addr, s1).
             let dev = i_dev (ino s1 ip); d = blk s1 dev addr
             in writei_loop ip (off + m) (drop m src)
                  (wblk dev addr (\<lambda>x. if off mod BSIZE \<le> x \<and> x < off mod BSIZE + m then src ! (x - off mod BSIZE) else d x) s1)))"
  by pat_completeness auto
termination by (relation "measure (\<lambda>(ip, off, src, s). length src)") (auto simp: chunk_pos)

declare writei_loop.simps [simp del]

text \<open>The count is the length of the source.\<close>

definition writei :: "nat \<Rightarrow> byte list \<Rightarrow> uint \<Rightarrow> 'a fs_scheme \<Rightarrow> (int \<times> 'a fs_scheme) outcome" where
  "writei ip src off s =
     (let n = of_nat (length src)
      in if i_type (ino s ip) = T_DEV
         then (case device (i_major (ino s ip)) (devwrite s) of
                 None \<Rightarrow> Val (- 1, s)
               | Some f \<Rightarrow> Val (f src, s))
         else if i_size (ino s ip) < off \<or> off + n < off then Val (- 1, s)
         else if of_nat (MAXFILE * BSIZE) < off + n then Val (- 1, s)
         else andthen (writei_loop ip (unat off) src s) (\<lambda>t.
           if 0 < n \<and> i_size (ino t ip) < off + n
           then Val (uint n, iupdate ip (upd_ino ip (\<lambda>i. i\<lparr>i_size := off + n\<rparr>) t))
           else Val (uint n, t)))"

end
