(* ===== verification/Xv6_Path.thy ===== *)
theory Xv6_Path
  imports Xv6_Fs
begin

text \<open>Directories and path names (\<open>fs.c\<close>).\<close>

unbundle bit_operations_syntax

section \<open>Directories\<close>

text \<open>A directory entry: 16 bytes, the inode number and a name that fills its field with NULs.\<close>

record dirent =
  d_inum :: "16 word"
  d_name :: string

definition chr_of_byte :: "byte \<Rightarrow> char" where "chr_of_byte b = char_of (unat b)"
definition byte_of_chr :: "char \<Rightarrow> byte" where "byte_of_chr c = of_nat (of_char c)"

definition dirent_of :: "byte list \<Rightarrow> dirent" where
  "dirent_of bs =
     \<lparr>d_inum = ucast (bs ! 0) OR push_bit 8 (ucast (bs ! 1)), d_name = map chr_of_byte (drop 2 bs)\<rparr>"

definition dirent_bytes :: "dirent \<Rightarrow> byte list" where
  "dirent_bytes de = [ucast (d_inum de), ucast (drop_bit 8 (d_inum de))] @ map byte_of_chr (d_name de)"

definition namecmp :: "string \<Rightarrow> string \<Rightarrow> int" where
  "namecmp p q = strncmp p q DIRSIZ"

text \<open>The \<open>readi\<close> of one entry, which panics when it is short.\<close>

definition read_dirent :: "string \<Rightarrow> nat \<Rightarrow> nat \<Rightarrow> 'a fs_scheme \<Rightarrow> (dirent \<times> 'a fs_scheme) outcome" where
  "read_dirent msg dp off s =
     andthen (readi dp (of_nat off) 16 s) (\<lambda>(r, bs, s1).
       if r \<noteq> 16 then Panic msg else Val (dirent_of bs, s1))"

text \<open>The loops go on while the offset is below the size, \<open>sz\<close>.\<close>

function dirlookup_loop :: "nat \<Rightarrow> string \<Rightarrow> nat \<Rightarrow> nat \<Rightarrow> 'a fs_scheme \<Rightarrow> ((nat \<times> nat) option \<times> 'a fs_scheme) outcome" where
  "dirlookup_loop dp name sz off s =
     (if \<not> off < sz then Val (None, s)
      else andthen (read_dirent ''dirlookup read'' dp off s) (\<lambda>(de, s1).
        if d_inum de = 0 then dirlookup_loop dp name sz (off + 16) s1
        else if namecmp name (d_name de) = 0
        then andthen (iget (i_dev (ino s1 dp)) (ucast (d_inum de)) s1) (\<lambda>(ip, s2). Val (Some (ip, off), s2))
        else dirlookup_loop dp name sz (off + 16) s1))"
  by pat_completeness auto
termination by (relation "measure (\<lambda>(dp, name, sz, off, s). sz - off)") auto

declare dirlookup_loop.simps [simp del]

definition dirlookup :: "nat \<Rightarrow> string \<Rightarrow> 'a fs_scheme \<Rightarrow> ((nat \<times> nat) option \<times> 'a fs_scheme) outcome" where
  "dirlookup dp name s =
     (if i_type (ino s dp) \<noteq> T_DIR then Panic ''dirlookup not DIR''
      else dirlookup_loop dp name (unat (i_size (ino s dp))) 0 s)"

function free_dirent :: "nat \<Rightarrow> nat \<Rightarrow> nat \<Rightarrow> 'a fs_scheme \<Rightarrow> (nat \<times> 'a fs_scheme) outcome" where
  "free_dirent dp sz off s =
     (if \<not> off < sz then Val (off, s)
      else andthen (read_dirent ''dirlink read'' dp off s) (\<lambda>(de, s1).
        if d_inum de = 0 then Val (off, s1) else free_dirent dp sz (off + 16) s1))"
  by pat_completeness auto
termination by (relation "measure (\<lambda>(dp, sz, off, s). sz - off)") auto

declare free_dirent.simps [simp del]

definition dirlink :: "nat \<Rightarrow> string \<Rightarrow> uint \<Rightarrow> 'a fs_scheme \<Rightarrow> (int \<times> 'a fs_scheme) outcome" where
  "dirlink dp name inum s =
     andthen (dirlookup dp name s) (\<lambda>(r, s1).
       case r of
         Some (ip, _) \<Rightarrow> andthen (iput ip s1) (\<lambda>s2. Val (- 1, s2))
       | None \<Rightarrow>
           andthen (free_dirent dp (unat (i_size (ino s1 dp))) 0 s1) (\<lambda>(off, s2).
           andthen (writei dp (dirent_bytes \<lparr>d_inum = ucast inum, d_name = strncpy_loop name DIRSIZ\<rparr>) (of_nat off) s2)
             (\<lambda>(n, s3). if n \<noteq> 16 then Panic ''dirlink'' else Val (0, s3))))"

section \<open>Path names\<close>

text \<open>
  The next element of the path, cut to the \<open>DIRSIZ\<close> characters that fit, and the path behind it.
\<close>

definition not_slash :: "char \<Rightarrow> bool" where
  "not_slash c \<longleftrightarrow> c \<noteq> CHR ''/'' \<and> c \<noteq> NUL"

definition skip_slash :: "string \<Rightarrow> string" where
  "skip_slash path = dropWhile (\<lambda>c. c = CHR ''/'') path"

definition skipelem :: "string \<Rightarrow> (string \<times> string) option" where
  "skipelem path =
     (let s = skip_slash path
      in if at0 s = NUL then None
         else Some (take DIRSIZ (takeWhile not_slash s), skip_slash (dropWhile not_slash s)))"

lemma skipelem_shorter: "skipelem path = Some (name, rest) \<Longrightarrow> length rest < length path"
proof -
  assume a: "skipelem path = Some (name, rest)"
  let ?s = "skip_slash path"
  have s: "at0 ?s \<noteq> NUL" and r: "rest = skip_slash (dropWhile not_slash ?s)"
    using a by (auto simp: skipelem_def Let_def split: if_splits)
  then obtain c cs where c: "?s = c # cs" "c \<noteq> NUL" by (cases ?s) auto
  then have "c \<noteq> CHR ''/''" using hd_dropWhile [of "\<lambda>c. c = CHR ''/''" path] by (simp add: skip_slash_def)
  then have "length (dropWhile not_slash ?s) \<le> length cs"
    using c by (simp add: not_slash_def length_dropWhile_le)
  moreover have "length rest \<le> length (dropWhile not_slash ?s)"
    unfolding r skip_slash_def by (rule length_dropWhile_le)
  moreover have "length ?s \<le> length path" unfolding skip_slash_def by (rule length_dropWhile_le)
  ultimately show "length rest < length path" using c by simp
qed

text \<open>The loop of \<open>namex\<close>; the name is the last element taken.\<close>

function namex_loop :: "bool \<Rightarrow> nat \<Rightarrow> string \<Rightarrow> string \<Rightarrow> 'a fs_scheme
    \<Rightarrow> (nat option \<times> string \<times> 'a fs_scheme) outcome" where
  "namex_loop nip ip path name s =
     (case skipelem path of
        None \<Rightarrow>
          if nip then andthen (iput ip s) (\<lambda>s1. Val (None, name, s1)) else Val (Some ip, name, s)
      | Some (name', rest) \<Rightarrow>
          andthen (ilock ip s) (\<lambda>s1.
            if i_type (ino s1 ip) \<noteq> T_DIR
            then andthen (iunlockput ip s1) (\<lambda>s2. Val (None, name', s2))
            else if nip \<and> at0 rest = NUL
            then andthen (iunlock ip s1) (\<lambda>s2. Val (Some ip, name', s2))
            else andthen (dirlookup ip name' s1) (\<lambda>(next, s2).
              case next of
                None \<Rightarrow> andthen (iunlockput ip s2) (\<lambda>s3. Val (None, name', s3))
              | Some (ip', _) \<Rightarrow> andthen (iunlockput ip s2) (namex_loop nip ip' rest name'))))"
  by pat_completeness auto
termination by (relation "measure (\<lambda>(nip, ip, path, name, s). length path)") (auto simp: skipelem_shorter)

declare namex_loop.simps [simp del]

text \<open>\<open>cwd\<close> is the slot of the current directory of the process.\<close>

definition namex :: "string \<Rightarrow> bool \<Rightarrow> nat \<Rightarrow> 'a fs_scheme \<Rightarrow> (nat option \<times> string \<times> 'a fs_scheme) outcome" where
  "namex path nip cwd s =
     (if at0 path = CHR ''/''
      then andthen (iget ROOTDEV ROOTINO s) (\<lambda>(ip, s1). namex_loop nip ip path [] s1)
      else (case idup cwd s of (ip, s1) \<Rightarrow> namex_loop nip ip path [] s1))"

definition namei :: "string \<Rightarrow> nat \<Rightarrow> 'a fs_scheme \<Rightarrow> (nat option \<times> 'a fs_scheme) outcome" where
  "namei path cwd s = andthen (namex path False cwd s) (\<lambda>(ip, _, t). Val (ip, t))"

definition nameiparent :: "string \<Rightarrow> nat \<Rightarrow> 'a fs_scheme \<Rightarrow> (nat option \<times> string \<times> 'a fs_scheme) outcome" where
  "nameiparent path cwd s = namex path True cwd s"

end
