(* ===== verification/Xv6_File.thy ===== *)
theory Xv6_File
  imports Xv6_Path Xv6_Pipe Xv6_Log
begin

text \<open>
  Open files (\<open>file.c\<close>) and the system calls on them (\<open>sysfile.c\<close>, and \<open>sys_chmod\<close> of
  \<open>sysproc.c\<close>).  The arguments of a call are what \<open>argint\<close>, \<open>argptr\<close> and \<open>argstr\<close> deliver; \<open>None\<close> is
  their failure.
\<close>

unbundle bit_operations_syntax

section \<open>State\<close>

definition NFILE :: nat where "NFILE = 100"
definition NOFILE :: nat where "NOFILE = 16"

datatype filetype = FD_NONE | FD_PIPE | FD_INODE

record kfile =
  f_type :: filetype
  f_ref :: int
  f_readable :: bool
  f_writable :: bool
  f_pipe :: nat
  f_ip :: "nat option"
  f_off :: uint

text \<open>
  Pipes are numbered; \<open>ofile\<close> and \<open>cwd\<close> belong to the running process; \<open>woken\<close> and \<open>freed\<close> log the
  wakeups and the freed pages of pipes.  \<open>nullmode\<close> is what the kernel finds where the mode of an
  inode at address 0 would be.
\<close>

record ksys = fs +
  ftable :: "kfile list"
  pipes :: "nat \<Rightarrow> pipe"
  ofile :: "nat option list"
  cwd :: nat
  killed :: bool
  woken :: "(nat \<times> pchan) list"
  freed :: "nat list"
  nullmode :: uint

abbreviation file_at :: "'a ksys_scheme \<Rightarrow> nat \<Rightarrow> kfile" where
  "file_at s f \<equiv> ftable s ! f"

definition upd_file :: "nat \<Rightarrow> (kfile \<Rightarrow> kfile) \<Rightarrow> 'a ksys_scheme \<Rightarrow> 'a ksys_scheme" where
  "upd_file f g s = s\<lparr>ftable := (ftable s)[f := g (ftable s ! f)]\<rparr>"

definition begin_tx :: "'a fs_scheme \<Rightarrow> 'a fs_scheme" where "begin_tx s = s\<lparr>outst := outst s + 1\<rparr>"
definition end_tx :: "'a fs_scheme \<Rightarrow> 'a fs_scheme" where "end_tx s = s\<lparr>outst := outst s - 1\<rparr>"

section \<open>Open files\<close>

definition filealloc :: "'a ksys_scheme \<Rightarrow> nat option \<times> 'a ksys_scheme" where
  "filealloc s =
     (case scan (\<lambda>f. f_ref f = 0) (ftable s) of
        Some f \<Rightarrow> (Some f, upd_file f (\<lambda>g. g\<lparr>f_ref := 1\<rparr>) s)
      | None \<Rightarrow> (None, s))"

definition filedup :: "nat \<Rightarrow> 'a ksys_scheme \<Rightarrow> 'a ksys_scheme outcome" where
  "filedup f s =
     (if f_ref (file_at s f) < 1 then Panic ''filedup''
      else Val (upd_file f (\<lambda>g. g\<lparr>f_ref := f_ref g + 1\<rparr>) s))"

definition close_pipe :: "nat \<Rightarrow> bool \<Rightarrow> 'a ksys_scheme \<Rightarrow> 'a ksys_scheme" where
  "close_pipe p w s =
     (case pipeclose (pipes s p) w of (p', ws, fr) \<Rightarrow>
        s\<lparr>pipes := (pipes s)(p := p'), woken := woken s @ map (Pair p) ws,
          freed := (if fr then freed s @ [p] else freed s)\<rparr>)"

definition fileclose :: "nat \<Rightarrow> 'a ksys_scheme \<Rightarrow> 'a ksys_scheme outcome" where
  "fileclose f s =
     (let ff = file_at s f
      in if f_ref ff < 1 then Panic ''fileclose''
         else if 0 < f_ref ff - 1 then Val (upd_file f (\<lambda>g. g\<lparr>f_ref := f_ref g - 1\<rparr>) s)
         else let s1 = upd_file f (\<lambda>g. g\<lparr>f_ref := 0, f_type := FD_NONE\<rparr>) s
           in case f_type ff of
                FD_PIPE \<Rightarrow> Val (close_pipe (f_pipe ff) (f_writable ff) s1)
              | FD_INODE \<Rightarrow> andthen (iput (the (f_ip ff)) (begin_tx s1)) (\<lambda>s2. Val (end_tx s2))
              | FD_NONE \<Rightarrow> Val s1)"

definition filestat :: "nat \<Rightarrow> 'a ksys_scheme \<Rightarrow> (int \<times> statbuf option \<times> 'a ksys_scheme) outcome" where
  "filestat f s =
     (let ip = the (f_ip (file_at s f))
      in if f_type (file_at s f) = FD_INODE
         then andthen (ilock ip s) (\<lambda>s1. andthen (iunlock ip s1) (\<lambda>s2. Val (0, Some (stati ip s1), s2)))
         else Val (- 1, None, s))"

text \<open>A call that sleeps in a pipe is \<open>Asleep\<close>; how it goes on is in the theory of pipes.\<close>

definition fileread :: "nat \<Rightarrow> int \<Rightarrow> 'a ksys_scheme \<Rightarrow> (int \<times> byte list \<times> 'a ksys_scheme) outcome" where
  "fileread f n s =
     (let ff = file_at s f; ip = the (f_ip ff)
      in if \<not> f_readable ff then Val (- 1, [], s)
         else case f_type ff of
           FD_PIPE \<Rightarrow>
             (case piperead (killed s) (pipes s (f_pipe ff)) n of (p, ws, bs, e) \<Rightarrow>
                (case e of Sleeps c \<Rightarrow> Asleep
                 | Returns r \<Rightarrow> Val (r, bs, s\<lparr>pipes := (pipes s)(f_pipe ff := p), woken := woken s @ map (Pair (f_pipe ff)) ws\<rparr>)))
         | FD_INODE \<Rightarrow>
             andthen (ilock ip s) (\<lambda>s1.
             andthen (readi ip (f_off ff) (of_int n) s1) (\<lambda>(r, bs, s2).
             andthen (iunlock ip (if 0 < r then upd_file f (\<lambda>g. g\<lparr>f_off := f_off g + of_int r\<rparr>) s2 else s2)) (\<lambda>s3.
               Val (r, bs, s3))))
         | FD_NONE \<Rightarrow> Panic ''fileread'')"

text \<open>The most that one transaction writes; the loop over what is left of the source.\<close>

definition max_write :: nat where "max_write = nat ((MAXOPBLOCKS - 1 - 1 - 2) div 2 * 512)"

function filewrite_loop :: "nat \<Rightarrow> byte list \<Rightarrow> 'a ksys_scheme \<Rightarrow> (bool \<times> 'a ksys_scheme) outcome" where
  "filewrite_loop f src s =
     (if src = [] then Val (True, s)
      else let n1 = min (length src) max_write; ip = the (f_ip (file_at s f))
        in andthen (ilock ip (begin_tx s)) (\<lambda>s1.
           andthen (writei ip (take n1 src) (f_off (file_at s1 f)) s1) (\<lambda>(r, s2).
           andthen (iunlock ip (if 0 < r then upd_file f (\<lambda>g. g\<lparr>f_off := f_off g + of_int r\<rparr>) s2 else s2)) (\<lambda>s3.
             if r < 0 then Val (False, end_tx s3)
             else if r \<noteq> int n1 then Panic ''short filewrite''
             else filewrite_loop f (drop n1 src) (end_tx s3)))))"
  by pat_completeness auto
termination
  by (relation "measure (\<lambda>(f, src, s). length src)") (auto simp: max_write_def MAXOPBLOCKS_def)

declare filewrite_loop.simps [simp del]

definition filewrite :: "nat \<Rightarrow> byte list \<Rightarrow> 'a ksys_scheme \<Rightarrow> (int \<times> 'a ksys_scheme) outcome" where
  "filewrite f src s =
     (let ff = file_at s f
      in if \<not> f_writable ff then Val (- 1, s)
         else case f_type ff of
           FD_PIPE \<Rightarrow>
             (case pipewrite (killed s) (pipes s (f_pipe ff)) src (int (length src)) of (p, ws, i, e) \<Rightarrow>
                (case e of Sleeps c \<Rightarrow> Asleep
                 | Returns r \<Rightarrow> Val (r, s\<lparr>pipes := (pipes s)(f_pipe ff := p), woken := woken s @ map (Pair (f_pipe ff)) ws\<rparr>)))
         | FD_INODE \<Rightarrow> andthen (filewrite_loop f src s) (\<lambda>(all, t). Val (if all then int (length src) else - 1, t))
         | FD_NONE \<Rightarrow> Panic ''filewrite'')"

section \<open>Descriptors\<close>

definition argfd :: "int option \<Rightarrow> 'a ksys_scheme \<Rightarrow> (nat \<times> nat) option" where
  "argfd a s =
     (case a of None \<Rightarrow> None
      | Some fd \<Rightarrow>
          if fd < 0 \<or> int NOFILE \<le> fd then None else map_option (Pair (nat fd)) (ofile s ! nat fd))"

definition fdalloc :: "nat \<Rightarrow> 'a ksys_scheme \<Rightarrow> nat option \<times> 'a ksys_scheme" where
  "fdalloc f s =
     (case scan (\<lambda>x. x = None) (ofile s) of
        Some fd \<Rightarrow> (Some fd, s\<lparr>ofile := (ofile s)[fd := Some f]\<rparr>)
      | None \<Rightarrow> (None, s))"

definition sys_dup :: "int option \<Rightarrow> 'a ksys_scheme \<Rightarrow> (int \<times> 'a ksys_scheme) outcome" where
  "sys_dup a s =
     (case argfd a s of None \<Rightarrow> Val (- 1, s)
      | Some (_, f) \<Rightarrow>
          (case fdalloc f s of
             (None, s1) \<Rightarrow> Val (- 1, s1)
           | (Some fd, s1) \<Rightarrow> andthen (filedup f s1) (\<lambda>s2. Val (int fd, s2))))"

text \<open>The mode that \<open>sys_read\<close> and \<open>sys_write\<close> look at, of whatever inode the file points to.\<close>

definition mode_of :: "nat \<Rightarrow> 'a ksys_scheme \<Rightarrow> uint" where
  "mode_of f s = (case f_ip (file_at s f) of None \<Rightarrow> nullmode s | Some ip \<Rightarrow> i_mode (ino s ip))"

definition sys_read :: "int option \<Rightarrow> int option \<Rightarrow> 'a ksys_scheme \<Rightarrow> (int \<times> byte list \<times> 'a ksys_scheme) outcome" where
  "sys_read a n s =
     (case (argfd a s, n) of
        (Some (_, f), Some n) \<Rightarrow> if mode_of f s AND 1 = 0 then Val (- 1, [], s) else fileread f n s
      | _ \<Rightarrow> Val (- 1, [], s))"

text \<open>The buffer of \<open>sys_write\<close> is the list of the \<open>n\<close> bytes at the user's address.\<close>

definition sys_write :: "int option \<Rightarrow> byte list option \<Rightarrow> 'a ksys_scheme \<Rightarrow> (int \<times> 'a ksys_scheme) outcome" where
  "sys_write a src s =
     (case (argfd a s, src) of
        (Some (_, f), Some src) \<Rightarrow> if mode_of f s AND 2 = 0 then Val (- 1, s) else filewrite f src s
      | _ \<Rightarrow> Val (- 1, s))"

definition sys_close :: "int option \<Rightarrow> 'a ksys_scheme \<Rightarrow> (int \<times> 'a ksys_scheme) outcome" where
  "sys_close a s =
     (case argfd a s of None \<Rightarrow> Val (- 1, s)
      | Some (fd, f) \<Rightarrow> andthen (fileclose f (s\<lparr>ofile := (ofile s)[fd := None]\<rparr>)) (\<lambda>s1. Val (0, s1)))"

definition sys_fstat :: "int option \<Rightarrow> bool \<Rightarrow> 'a ksys_scheme \<Rightarrow> (int \<times> statbuf option \<times> 'a ksys_scheme) outcome" where
  "sys_fstat a ptr_ok s =
     (case argfd a s of Some (_, f) \<Rightarrow> if ptr_ok then filestat f s else Val (- 1, None, s) | None \<Rightarrow> Val (- 1, None, s))"

section \<open>Links\<close>

text \<open>The way out of \<open>sys_link\<close> after a failure.\<close>

definition link_bad :: "nat \<Rightarrow> 'a fs_scheme \<Rightarrow> (int \<times> 'a fs_scheme) outcome" where
  "link_bad ip s =
     andthen (ilock ip s) (\<lambda>s1.
     andthen (iunlockput ip (iupdate ip (upd_ino ip (\<lambda>i. i\<lparr>i_nlink := i_nlink i - 1\<rparr>) s1))) (\<lambda>s2.
       Val (- 1, end_tx s2)))"

definition sys_link :: "string option \<Rightarrow> string option \<Rightarrow> 'a ksys_scheme \<Rightarrow> (int \<times> 'a ksys_scheme) outcome" where
  "sys_link old new s =
     (case (old, new) of
        (Some old, Some new) \<Rightarrow>
          andthen (namei old (cwd s) (begin_tx s)) (\<lambda>(r, s1).
            case r of None \<Rightarrow> Val (- 1, end_tx s1)
            | Some ip \<Rightarrow>
              andthen (ilock ip s1) (\<lambda>s2.
                if i_type (ino s2 ip) = T_DIR
                then andthen (iunlockput ip s2) (\<lambda>s3. Val (- 1, end_tx s3))
                else andthen (iunlock ip (iupdate ip (upd_ino ip (\<lambda>i. i\<lparr>i_nlink := i_nlink i + 1\<rparr>) s2))) (\<lambda>s4.
                  andthen (nameiparent new (cwd s) s4) (\<lambda>(p, name, s5).
                    case p of None \<Rightarrow> link_bad ip s5
                    | Some dp \<Rightarrow>
                      andthen (ilock dp s5) (\<lambda>s6.
                      andthen (if i_dev (ino s6 dp) \<noteq> i_dev (ino s6 ip) then Val (- 1, s6)
                               else dirlink dp name (i_inum (ino s6 ip)) s6) (\<lambda>(r, s7).
                        if r < 0 then andthen (iunlockput dp s7) (link_bad ip)
                        else andthen (iunlockput dp s7) (\<lambda>s8. andthen (iput ip s8) (\<lambda>s9. Val (0, end_tx s9)))))))))
      | _ \<Rightarrow> Val (- 1, s))"

text \<open>Is the directory empty except for \<open>.\<close> and \<open>..\<close>?  \<open>sz\<close> is its size.\<close>

function isdirempty_loop :: "nat \<Rightarrow> nat \<Rightarrow> nat \<Rightarrow> 'a fs_scheme \<Rightarrow> (bool \<times> 'a fs_scheme) outcome" where
  "isdirempty_loop dp sz off s =
     (if \<not> off < sz then Val (True, s)
      else andthen (read_dirent ''isdirempty: readi'' dp off s) (\<lambda>(de, s1).
        if d_inum de \<noteq> 0 then Val (False, s1) else isdirempty_loop dp sz (off + 16) s1))"
  by pat_completeness auto
termination by (relation "measure (\<lambda>(dp, sz, off, s). sz - off)") auto

declare isdirempty_loop.simps [simp del]

definition isdirempty :: "nat \<Rightarrow> 'a fs_scheme \<Rightarrow> (bool \<times> 'a fs_scheme) outcome" where
  "isdirempty dp s = isdirempty_loop dp (unat (i_size (ino s dp))) (2 * 16) s"

definition unlink_bad :: "nat \<Rightarrow> 'a fs_scheme \<Rightarrow> (int \<times> 'a fs_scheme) outcome" where
  "unlink_bad dp s = andthen (iunlockput dp s) (\<lambda>s1. Val (- 1, end_tx s1))"

text \<open>After the checks: clear the entry and count the links.\<close>

definition unlink_entry :: "nat \<Rightarrow> nat \<Rightarrow> nat \<Rightarrow> 'a fs_scheme \<Rightarrow> (int \<times> 'a fs_scheme) outcome" where
  "unlink_entry dp ip off s =
     andthen (writei dp (replicate 16 0) (of_nat off) s) (\<lambda>(n, s1).
       if n \<noteq> 16 then Panic ''unlink: writei''
       else let s2 = (if i_type (ino s1 ip) = T_DIR
                      then iupdate dp (upd_ino dp (\<lambda>i. i\<lparr>i_nlink := i_nlink i - 1\<rparr>) s1) else s1)
         in andthen (iunlockput dp s2) (\<lambda>s3.
            andthen (iunlockput ip (iupdate ip (upd_ino ip (\<lambda>i. i\<lparr>i_nlink := i_nlink i - 1\<rparr>) s3))) (\<lambda>s4.
              Val (0, end_tx s4))))"

definition sys_unlink :: "string option \<Rightarrow> 'a ksys_scheme \<Rightarrow> (int \<times> 'a ksys_scheme) outcome" where
  "sys_unlink path s =
     (case path of None \<Rightarrow> Val (- 1, s)
      | Some path \<Rightarrow>
        andthen (nameiparent path (cwd s) (begin_tx s)) (\<lambda>(p, name, s1).
          case p of None \<Rightarrow> Val (- 1, end_tx s1)
          | Some dp \<Rightarrow>
            andthen (ilock dp s1) (\<lambda>s2.
              if namecmp name ''.'' = 0 \<or> namecmp name ''..'' = 0 then unlink_bad dp s2
              else andthen (dirlookup dp name s2) (\<lambda>(r, s3).
                case r of None \<Rightarrow> unlink_bad dp s3
                | Some (ip, off) \<Rightarrow>
                  andthen (ilock ip s3) (\<lambda>s4.
                    if sint (i_nlink (ino s4 ip)) < 1 then Panic ''unlink: nlink < 1''
                    else andthen (if i_type (ino s4 ip) = T_DIR then isdirempty ip s4 else Val (True, s4)) (\<lambda>(e, s5).
                      if \<not> e then andthen (iunlockput ip s5) (unlink_bad dp)
                      else unlink_entry dp ip off s5))))))"

section \<open>Creating and opening\<close>

text \<open>A new inode in the directory \<open>dp\<close>, which is locked.\<close>

definition create_new :: "nat \<Rightarrow> string \<Rightarrow> 16 word \<Rightarrow> 16 word \<Rightarrow> 16 word \<Rightarrow> 'a fs_scheme \<Rightarrow> (nat option \<times> 'a fs_scheme) outcome" where
  "create_new dp name typ major minor s =
     andthen (ialloc (i_dev (ino s dp)) typ s) (\<lambda>(ip, s1).
     andthen (ilock ip s1) (\<lambda>s2.
       let s3 = iupdate ip (upd_ino ip (\<lambda>i. i\<lparr>i_major := major, i_minor := minor, i_nlink := 1, i_mode := 7\<rparr>) s2)
       in andthen
         (if typ = T_DIR
          then let s4 = iupdate dp (upd_ino dp (\<lambda>i. i\<lparr>i_nlink := i_nlink i + 1\<rparr>) s3)
            in andthen (dirlink ip ''.'' (i_inum (ino s4 ip)) s4) (\<lambda>(r, s5).
               if r < 0 then Panic ''create dots''
               else andthen (dirlink ip ''..'' (i_inum (ino s5 dp)) s5) (\<lambda>(r, s6).
                 if r < 0 then Panic ''create dots'' else Val s6))
          else Val s3)
         (\<lambda>s7. andthen (dirlink dp name (i_inum (ino s7 ip)) s7) (\<lambda>(r, s8).
            if r < 0 then Panic ''create: dirlink'' else andthen (iunlockput dp s8) (\<lambda>s9. Val (Some ip, s9))))))"

definition create :: "string \<Rightarrow> 16 word \<Rightarrow> 16 word \<Rightarrow> 16 word \<Rightarrow> nat \<Rightarrow> 'a fs_scheme \<Rightarrow> (nat option \<times> 'a fs_scheme) outcome" where
  "create path typ major minor wd s =
     andthen (nameiparent path wd s) (\<lambda>(p, name, s1).
       case p of None \<Rightarrow> Val (None, s1)
       | Some dp \<Rightarrow>
         andthen (ilock dp s1) (\<lambda>s2.
         andthen (dirlookup dp name s2) (\<lambda>(r, s3).
           case r of
             Some (ip, _) \<Rightarrow>
               andthen (iunlockput dp s3) (\<lambda>s4.
               andthen (ilock ip s4) (\<lambda>s5.
                 if typ = T_FILE \<and> i_type (ino s5 ip) = T_FILE then Val (Some ip, s5)
                 else andthen (iunlockput ip s5) (\<lambda>s6. Val (None, s6))))
           | None \<Rightarrow> create_new dp name typ major minor s3)))"

text \<open>The second half of \<open>sys_open\<close>: a file and a descriptor for the locked inode.\<close>

definition open_inode :: "nat \<Rightarrow> uint \<Rightarrow> 'a ksys_scheme \<Rightarrow> (int \<times> 'a ksys_scheme) outcome" where
  "open_inode ip omode s =
     (case filealloc s of
        (None, s1) \<Rightarrow> andthen (iunlockput ip s1) (\<lambda>s2. Val (- 1, end_tx s2))
      | (Some f, s1) \<Rightarrow>
          (case fdalloc f s1 of
             (None, s2) \<Rightarrow>
               andthen (fileclose f s2) (\<lambda>s3. andthen (iunlockput ip s3) (\<lambda>s4. Val (- 1, end_tx s4)))
           | (Some fd, s2) \<Rightarrow>
               andthen (iunlock ip s2) (\<lambda>s3.
                 Val (int fd, upd_file f (\<lambda>g. g\<lparr>f_type := FD_INODE, f_ip := Some ip, f_off := 0,
                   f_readable := (omode AND 1 = 0), f_writable := (omode AND 1 \<noteq> 0 \<or> omode AND 2 \<noteq> 0)\<rparr>)
                   (end_tx s3)))))"

definition sys_open :: "string option \<Rightarrow> uint option \<Rightarrow> 'a ksys_scheme \<Rightarrow> (int \<times> 'a ksys_scheme) outcome" where
  "sys_open path omode s =
     (case (path, omode) of
        (Some path, Some omode) \<Rightarrow>
          if omode AND 0x200 \<noteq> 0
          then andthen (create path T_FILE 0 0 (cwd s) (begin_tx s)) (\<lambda>(r, s1).
            case r of None \<Rightarrow> Val (- 1, end_tx s1) | Some ip \<Rightarrow> open_inode ip omode s1)
          else andthen (namei path (cwd s) (begin_tx s)) (\<lambda>(r, s1).
            case r of None \<Rightarrow> Val (- 1, end_tx s1)
            | Some ip \<Rightarrow>
              andthen (ilock ip s1) (\<lambda>s2.
                if i_type (ino s2 ip) = T_DIR \<and> omode \<noteq> 0
                then andthen (iunlockput ip s2) (\<lambda>s3. Val (- 1, end_tx s3))
                else open_inode ip omode s2))
      | _ \<Rightarrow> Val (- 1, s))"

definition sys_mkdir :: "string option \<Rightarrow> 'a ksys_scheme \<Rightarrow> (int \<times> 'a ksys_scheme) outcome" where
  "sys_mkdir path s =
     (case path of None \<Rightarrow> Val (- 1, end_tx (begin_tx s))
      | Some path \<Rightarrow>
        andthen (create path T_DIR 0 0 (cwd s) (begin_tx s)) (\<lambda>(r, s1).
          case r of None \<Rightarrow> Val (- 1, end_tx s1)
          | Some ip \<Rightarrow> andthen (iunlockput ip s1) (\<lambda>s2. Val (0, end_tx s2))))"

definition sys_mknod :: "string option \<Rightarrow> int option \<Rightarrow> int option \<Rightarrow> 'a ksys_scheme \<Rightarrow> (int \<times> 'a ksys_scheme) outcome" where
  "sys_mknod path major minor s =
     (case (path, major, minor) of
        (Some path, Some major, Some minor) \<Rightarrow>
          andthen (create path T_DEV (of_int major) (of_int minor) (cwd s) (begin_tx s)) (\<lambda>(r, s1).
            case r of None \<Rightarrow> Val (- 1, end_tx s1)
            | Some ip \<Rightarrow> andthen (iunlockput ip s1) (\<lambda>s2. Val (0, end_tx s2)))
      | _ \<Rightarrow> Val (- 1, end_tx (begin_tx s)))"

definition sys_chdir :: "string option \<Rightarrow> 'a ksys_scheme \<Rightarrow> (int \<times> 'a ksys_scheme) outcome" where
  "sys_chdir path s =
     (case path of None \<Rightarrow> Val (- 1, end_tx (begin_tx s))
      | Some path \<Rightarrow>
        andthen (namei path (cwd s) (begin_tx s)) (\<lambda>(r, s1).
          case r of None \<Rightarrow> Val (- 1, end_tx s1)
          | Some ip \<Rightarrow>
            andthen (ilock ip s1) (\<lambda>s2.
              if i_type (ino s2 ip) \<noteq> T_DIR
              then andthen (iunlockput ip s2) (\<lambda>s3. Val (- 1, end_tx s3))
              else andthen (iunlock ip s2) (\<lambda>s3.
                   andthen (iput (cwd s3) s3) (\<lambda>s4. Val (0, (end_tx s4)\<lparr>cwd := ip\<rparr>))))))"

definition sys_chmod :: "string option \<Rightarrow> uint option \<Rightarrow> 'a ksys_scheme \<Rightarrow> (int \<times> 'a ksys_scheme) outcome" where
  "sys_chmod path mode s =
     (case (path, mode) of
        (Some path, Some mode) \<Rightarrow>
          andthen (namei path (cwd s) (begin_tx s)) (\<lambda>(r, s1).
            case r of None \<Rightarrow> Val (- 1, end_tx s1)
            | Some ip \<Rightarrow>
              andthen (ilock ip s1) (\<lambda>s2.
              andthen (iunlockput ip (iupdate ip (upd_ino ip (\<lambda>i. i\<lparr>i_mode := mode AND 7\<rparr>) s2))) (\<lambda>s3.
                Val (0, end_tx s3))))
      | _ \<Rightarrow> Val (- 1, s))"

section \<open>Pipes\<close>

text \<open>\<open>page\<close> is what \<open>kalloc\<close> gives: the number of the new pipe and what the page holds.\<close>

definition pipealloc :: "(nat \<times> byte list) option \<Rightarrow> 'a ksys_scheme \<Rightarrow> ((nat \<times> nat) option \<times> 'a ksys_scheme) outcome" where
  "pipealloc page s =
     (case filealloc s of
        (None, s1) \<Rightarrow> Val (None, s1)
      | (Some f0, s1) \<Rightarrow>
          (case filealloc s1 of
             (None, s2) \<Rightarrow> andthen (fileclose f0 s2) (\<lambda>s3. Val (None, s3))
           | (Some f1, s2) \<Rightarrow>
               (case page of
                  None \<Rightarrow> andthen (fileclose f0 s2) (\<lambda>s3. andthen (fileclose f1 s3) (\<lambda>s4. Val (None, s4)))
                | Some (p, pg) \<Rightarrow>
                    Val (Some (f0, f1),
                      upd_file f1 (\<lambda>g. g\<lparr>f_type := FD_PIPE, f_readable := False, f_writable := True, f_pipe := p\<rparr>)
                        (upd_file f0 (\<lambda>g. g\<lparr>f_type := FD_PIPE, f_readable := True, f_writable := False, f_pipe := p\<rparr>)
                          (s2\<lparr>pipes := (pipes s2)(p := pipe_init pg)\<rparr>))))))"

text \<open>The result is the pair of descriptors that is stored at the user's address.\<close>

definition sys_pipe :: "bool \<Rightarrow> (nat \<times> byte list) option \<Rightarrow> 'a ksys_scheme \<Rightarrow> (int \<times> (nat \<times> nat) option \<times> 'a ksys_scheme) outcome" where
  "sys_pipe ptr_ok page s =
     (if \<not> ptr_ok then Val (- 1, None, s)
      else andthen (pipealloc page s) (\<lambda>(r, s1).
        case r of None \<Rightarrow> Val (- 1, None, s1)
        | Some (rf, wrf) \<Rightarrow>
          (case fdalloc rf s1 of
             (None, s2) \<Rightarrow> andthen (fileclose rf s2) (\<lambda>s3. andthen (fileclose wrf s3) (\<lambda>s4. Val (- 1, None, s4)))
           | (Some fd0, s2) \<Rightarrow>
               (case fdalloc wrf s2 of
                  (None, s3) \<Rightarrow>
                    andthen (fileclose rf (s3\<lparr>ofile := (ofile s3)[fd0 := None]\<rparr>)) (\<lambda>s4.
                    andthen (fileclose wrf s4) (\<lambda>s5. Val (- 1, None, s5)))
                | (Some fd1, s3) \<Rightarrow> Val (0, Some (fd0, fd1), s3)))))"

end
