(* ===== verification/Xv6_Exec.thy ===== *)
theory Xv6_Exec
  imports Xv6_Path Xv6_Log Xv6_Copyout
begin

text \<open>
  Loading a program: \<open>exec.c\<close> of the Enhanced-Shell kernel, \<open>loaduvm\<close> of \<open>vm.c\<close>, on the file system and
  the memory.  The path and the arguments are the strings that \<open>sys_exec\<close> has checked, without their NUL.
\<close>

unbundle bit_operations_syntax

section \<open>State\<close>

definition MAXARG :: nat where "MAXARG = 32"
definition ELF_MAGIC :: uint where "ELF_MAGIC = 0x464C457F"
definition ELF_PROG_LOAD :: uint where "ELF_PROG_LOAD = 1"

record elfhdr =
  e_magic :: uint
  e_entry :: uint
  e_phoff :: uint
  e_phnum :: nat

record proghdr =
  ph_type :: uint
  ph_off :: uint
  ph_vaddr :: uint
  ph_filesz :: uint
  ph_memsz :: uint

text \<open>The file system, the memory and what \<open>exec\<close> reads and writes of the running process.\<close>

record image =
  xfs :: fs
  xvm :: kstate
  x_cwd :: nat
  x_pgdir :: uint
  x_sz :: uint
  x_name :: string
  x_eip :: uint
  x_esp :: uint
  x_cr3 :: uint

section \<open>The headers\<close>

definition bytes_mem :: "byte list \<Rightarrow> memory" where "bytes_mem bs = (\<lambda>k. bs ! k)"

definition elfhdr_of :: "byte list \<Rightarrow> elfhdr" where
  "elfhdr_of bs =
     (let m = bytes_mem bs
      in \<lparr>e_magic = ld32 m 0, e_entry = ld32 m 24, e_phoff = ld32 m 28, e_phnum = unat (ld16 m 44)\<rparr>)"

definition proghdr_of :: "byte list \<Rightarrow> proghdr" where
  "proghdr_of bs =
     (let m = bytes_mem bs
      in \<lparr>ph_type = ld32 m 0, ph_off = ld32 m 4, ph_vaddr = ld32 m 8, ph_filesz = ld32 m 16, ph_memsz = ld32 m 20\<rparr>)"

section \<open>Segments\<close>

definition put_bytes :: "nat \<Rightarrow> byte list \<Rightarrow> memory \<Rightarrow> memory" where
  "put_bytes a bs m = (\<lambda>x. if a \<le> x \<and> x < a + length bs then bs ! (x - a) else m x)"

text \<open>The loop of \<open>loaduvm\<close>, with a bound on its rounds as in the other loops over pages.\<close>

fun loaduvm_loop :: "nat \<Rightarrow> uint \<Rightarrow> uint \<Rightarrow> nat \<Rightarrow> uint \<Rightarrow> uint \<Rightarrow> uint \<Rightarrow> 'a fs_scheme \<Rightarrow> 'b kstate_scheme
    \<Rightarrow> (int \<times> 'a fs_scheme \<times> 'b kstate_scheme) outcome" where
  "loaduvm_loop n pgdir addr ip offset sz i f v =
     (if \<not> i < sz then Val (0, f, v)
      else case n of 0 \<Rightarrow> Asleep | Suc k \<Rightarrow>
        (case walkpgdir pgdir (addr + i) False v of (pte, v1) \<Rightarrow>
           if pte = 0 then Panic ''loaduvm: address should exist''
           else let pa = PTE_ADDR (rd32 pte v1); m = (if sz - i < of_nat PGSIZE then sz - i else of_nat PGSIZE)
             in andthen (readi ip (offset + i) m f) (\<lambda>(r, bs, f1).
                  let v2 = v1\<lparr>pm := put_bytes (phys (P2V pa)) bs (pm v1)\<rparr>
                  in if of_int r \<noteq> m then Val (- 1, f1, v2)
                     else loaduvm_loop k pgdir addr ip offset sz (i + of_nat PGSIZE) f1 v2)))"

declare loaduvm_loop.simps [simp del]

definition loaduvm :: "uint \<Rightarrow> uint \<Rightarrow> nat \<Rightarrow> uint \<Rightarrow> uint \<Rightarrow> 'a fs_scheme \<Rightarrow> 'b kstate_scheme
    \<Rightarrow> (int \<times> 'a fs_scheme \<times> 'b kstate_scheme) outcome" where
  "loaduvm pgdir addr ip offset sz f v =
     (if unat addr mod PGSIZE \<noteq> 0 then Panic ''loaduvm: addr must be page aligned''
      else loaduvm_loop 1048576 pgdir addr ip offset sz 0 f v)"

text \<open>The program headers, \<open>n\<close> of them left; \<open>None\<close> is the jump to \<open>bad\<close>.\<close>

fun load_segments :: "nat \<Rightarrow> uint \<Rightarrow> nat \<Rightarrow> uint \<Rightarrow> uint \<Rightarrow> 'a fs_scheme \<Rightarrow> 'b kstate_scheme
    \<Rightarrow> (uint option \<times> 'a fs_scheme \<times> 'b kstate_scheme) outcome" where
  "load_segments 0 pgdir ip off sz f v = Val (Some sz, f, v)"
| "load_segments (Suc n) pgdir ip off sz f v =
     andthen (readi ip off 32 f) (\<lambda>(r, bs, f1).
       if r \<noteq> 32 then Val (None, f1, v)
       else let ph = proghdr_of bs
         in if ph_type ph \<noteq> ELF_PROG_LOAD then load_segments n pgdir ip (off + 32) sz f1 v
            else if ph_memsz ph < ph_filesz ph then Val (None, f1, v)
            else if ph_vaddr ph + ph_memsz ph < ph_vaddr ph then Val (None, f1, v)
            else andthen (allocuvm pgdir sz (ph_vaddr ph + ph_memsz ph) v) (\<lambda>(sz', v1).
              if sz' = 0 then Val (None, f1, v1)
              else if unat (ph_vaddr ph) mod PGSIZE \<noteq> 0 then Val (None, f1, v1)
              else andthen (loaduvm pgdir (ph_vaddr ph) ip (ph_off ph) (ph_filesz ph) f1 v1) (\<lambda>(r, f2, v2).
                if r < 0 then Val (None, f2, v2)
                else load_segments n pgdir ip (off + 32) sz' f2 v2)))"

section \<open>The stack\<close>

text \<open>\<open>copyout\<close> of an object of the kernel or of the caller, given by its bytes.\<close>

function copyout_bytes :: "uint \<Rightarrow> uint \<Rightarrow> byte list \<Rightarrow> 'a kstate_scheme \<Rightarrow> (int \<times> 'a kstate_scheme) outcome" where
  "copyout_bytes pgdir va bs s =
     (if bs = [] then Val (0, s)
      else let va0 = PGROUNDDOWN va; n = min (PGSIZE - unat (va - va0)) (length bs)
        in andthen (uva2ka pgdir va0 s) (\<lambda>pa0.
          if pa0 = 0 then Val (- 1, s)
          else copyout_bytes pgdir (va0 + of_nat PGSIZE) (drop n bs)
            (s\<lparr>pm := put_bytes (phys (pa0 + (va - va0))) (take n bs) (pm s)\<rparr>)))"
  by pat_completeness auto
termination
  by (relation "measure (\<lambda>(pgdir, va, bs, s). length bs)") (auto simp: off_page PGSIZE_def)

declare copyout_bytes.simps [simp del]

text \<open>The loop that pushes the strings: the stack pointer below them and their addresses.\<close>

fun push_args :: "uint \<Rightarrow> byte list list \<Rightarrow> nat \<Rightarrow> uint \<Rightarrow> 'a kstate_scheme
    \<Rightarrow> ((uint \<times> uint list) option \<times> 'a kstate_scheme) outcome" where
  "push_args pgdir [] argc sp s = Val (Some (sp, []), s)"
| "push_args pgdir (a # as) argc sp s =
     (if MAXARG \<le> argc then Val (None, s)
      else let sp' = (sp - (of_nat (length a) + 1)) AND NOT 3
        in andthen (copyout_bytes pgdir sp' (a @ [0]) s) (\<lambda>(r, s1).
          if r < 0 then Val (None, s1)
          else andthen (push_args pgdir as (argc + 1) sp' s1) (\<lambda>(res, s2).
            Val (map_option (\<lambda>(e, ps). (e, sp' # ps)) res, s2))))"

definition ustack :: "uint \<Rightarrow> uint list \<Rightarrow> uint list" where
  "ustack sp ps = [0xffffffff, of_nat (length ps), sp - (of_nat (length ps) + 1) * 4] @ ps @ [0]"

text \<open>From the two pages to the end of the stack; the results are the size and the stack pointer.\<close>

definition exec_stack :: "uint \<Rightarrow> byte list list \<Rightarrow> uint \<Rightarrow> 'a kstate_scheme
    \<Rightarrow> ((uint \<times> uint) option \<times> 'a kstate_scheme) outcome" where
  "exec_stack pgdir argv sz s =
     (let sz0 = PGROUNDUP sz
      in andthen (allocuvm pgdir sz0 (sz0 + 2 * of_nat PGSIZE) s) (\<lambda>(sz1, s1).
        if sz1 = 0 then Val (None, s1)
        else andthen (clearpteu pgdir (sz1 - 2 * of_nat PGSIZE) s1) (\<lambda>s2.
          andthen (push_args pgdir argv 0 sz1 s2) (\<lambda>(res, s3).
            case res of
              None \<Rightarrow> Val (None, s3)
            | Some (sp, ps) \<Rightarrow>
                let sp' = sp - (3 + of_nat (length argv) + 1) * 4
                in andthen (copyout_bytes pgdir sp' (concat (map le32 (ustack sp ps))) s3) (\<lambda>(r, s4).
                  if r < 0 then Val (None, s4) else Val (Some (sz1, sp'), s4))))))"

section \<open>exec\<close>

fun last_elem :: "string \<Rightarrow> string \<Rightarrow> string" where
  "last_elem l [] = l"
| "last_elem l (c # cs) = (if c = NUL then l else if c = CHR ''/'' then last_elem cs cs else last_elem l cs)"

text \<open>The label \<open>bad\<close>.\<close>

definition exec_bad :: "uint \<Rightarrow> nat option \<Rightarrow> image \<Rightarrow> (int \<times> image) outcome" where
  "exec_bad pgdir ip x =
     andthen (if pgdir \<noteq> 0 then freevm pgdir (xvm x) else Val (xvm x)) (\<lambda>v.
     andthen (case ip of
         None \<Rightarrow> Val (xfs x)
       | Some i \<Rightarrow> andthen (iunlockput i (xfs x)) (\<lambda>f. Val (f\<lparr>outst := outst f - 1\<rparr>))) (\<lambda>f.
       Val (- 1, x\<lparr>xfs := f, xvm := v\<rparr>)))"

definition exec_commit :: "string \<Rightarrow> uint \<Rightarrow> uint \<Rightarrow> uint \<Rightarrow> uint \<Rightarrow> image \<Rightarrow> (int \<times> image) outcome" where
  "exec_commit path pgdir sz start sp x =
     (let y = x\<lparr>x_name := safestrcpy (x_name x) (last_elem path path) 16, x_pgdir := pgdir, x_sz := sz,
                x_eip := start, x_esp := sp, x_cr3 := V2P pgdir\<rparr>
      in andthen (freevm (x_pgdir x) (xvm y)) (\<lambda>v. Val (0, y\<lparr>xvm := v\<rparr>)))"

definition exec :: "uint \<Rightarrow> string \<Rightarrow> byte list list \<Rightarrow> image \<Rightarrow> (int \<times> image) outcome" where
  "exec kdata path argv x =
     andthen (namei path (x_cwd x) ((xfs x)\<lparr>outst := outst (xfs x) + 1\<rparr>)) (\<lambda>(ip, f).
     case ip of
       None \<Rightarrow> Val (- 1, x\<lparr>xfs := f\<lparr>outst := outst f - 1\<rparr>\<rparr>)
     | Some ip \<Rightarrow>
         andthen (ilock ip f) (\<lambda>f.
         if i_mode (ino f ip) AND 4 = 0 then exec_bad 0 (Some ip) (x\<lparr>xfs := f\<rparr>)
         else andthen (readi ip 0 52 f) (\<lambda>(r, bs, f).
         let elf = elfhdr_of bs
         in if r \<noteq> 52 then exec_bad 0 (Some ip) (x\<lparr>xfs := f\<rparr>)
         else if e_magic elf \<noteq> ELF_MAGIC then exec_bad 0 (Some ip) (x\<lparr>xfs := f\<rparr>)
         else andthen (setupkvm kdata (xvm x)) (\<lambda>(pgdir, v).
         if pgdir = 0 then exec_bad 0 (Some ip) (x\<lparr>xfs := f, xvm := v\<rparr>)
         else andthen (load_segments (e_phnum elf) pgdir ip (e_phoff elf) 0 f v) (\<lambda>(sz, f, v).
         case sz of
           None \<Rightarrow> exec_bad pgdir (Some ip) (x\<lparr>xfs := f, xvm := v\<rparr>)
         | Some sz \<Rightarrow>
             andthen (iunlockput ip f) (\<lambda>f.
             let f = f\<lparr>outst := outst f - 1\<rparr>
             in andthen (exec_stack pgdir argv sz v) (\<lambda>(res, v).
             case res of
               None \<Rightarrow> exec_bad pgdir None (x\<lparr>xfs := f, xvm := v\<rparr>)
             | Some (sz, sp) \<Rightarrow> exec_commit path pgdir sz (e_entry elf) sp (x\<lparr>xfs := f, xvm := v\<rparr>))))))))"

end
