(* ===== verification/Xv6_Balance.thy ===== *)
theory Xv6_Balance
  imports Xv6_File Xv6_Exec
begin

text \<open>
  Every system call ends the operation it has begun: on every path through the calls of \<open>sysfile.c\<close> and
  through \<open>exec\<close>, the errors included, the count of open operations is at the end what it was before.
\<close>

unbundle bit_operations_syntax

named_theorems bal

section \<open>The file system leaves the count alone\<close>

lemma outst_simps [simp]:
  "outst (wblk d b m s) = outst s" "outst (upd_ino ip f s) = outst s" "outst (bzero d b s) = outst s"
  "outst (readsb d s) = outst s" "outst (iupdate ip s) = outst s" "outst (snd (idup ip s)) = outst s"
  by (simp_all add: wblk_def upd_ino_def bzero_def readsb_def iupdate_def idup_def Let_def)

lemma bal_balloc_loop: "balloc_loop dev b s = Val (r, t) \<Longrightarrow> outst t = outst s"
proof (induction dev b s rule: balloc_loop.induct)
  case (1 dev b s)
  show ?case using 1(2) unfolding balloc_loop.simps [of dev b s]
    by (auto simp: Let_def split: if_splits option.splits dest: 1(1) [OF _ refl, simplified])
qed

lemma bal_balloc [bal]: "balloc dev s = Val (r, t) \<Longrightarrow> outst t = outst s"
  by (auto simp: balloc_def dest: bal_balloc_loop)

lemma bal_bfree [bal]: "bfree dev b s = Val t \<Longrightarrow> outst t = outst s"
  by (auto simp: bfree_def Let_def split: if_splits)

lemma bal_iget [bal]: "iget dev n s = Val (r, t) \<Longrightarrow> outst t = outst s"
  by (auto simp: iget_def Let_def split: if_splits option.splits)

lemma bal_ilock [bal]: "ilock ip s = Val t \<Longrightarrow> outst t = outst s"
  by (auto simp: ilock_def Let_def split: if_splits option.splits)

lemma bal_iunlock [bal]: "iunlock ip s = Val t \<Longrightarrow> outst t = outst s"
  by (auto simp: iunlock_def Let_def split: if_splits option.splits)

lemma bal_bmap [bal]: "bmap ip n s = Val (r, t) \<Longrightarrow> outst t = outst s"
  by (auto simp: bmap_def bmap_ind_def bmap_listed_def Let_def split: if_splits dest!: bal_balloc)

lemma bal_each: "(\<And>x u v. f x u = Val v \<Longrightarrow> outst v = outst u) \<Longrightarrow> each f xs s = Val t \<Longrightarrow> outst t = outst s"
  by (induction xs arbitrary: s) fastforce+

lemma bal_itrunc [bal]: "itrunc ip s = Val t \<Longrightarrow> outst t = outst s"
  by (auto simp: itrunc_def free_direct_def free_listed_def Let_def split: if_splits dest!: bal_bfree bal_each [rotated])

lemma bal_iput [bal]: "iput ip s = Val t \<Longrightarrow> outst t = outst s"
  by (auto simp: iput_def Let_def split: if_splits dest!: bal_itrunc)

lemma bal_iunlockput [bal]: "iunlockput ip s = Val t \<Longrightarrow> outst t = outst s"
  by (auto simp: iunlockput_def dest!: bal_iput bal_iunlock)

lemma bal_readi_loop: "readi_loop ip off n s = Val (r, t) \<Longrightarrow> outst t = outst s"
proof (induction ip off n s arbitrary: r t rule: readi_loop.induct)
  case (1 ip off n s)
  show ?case using 1(2) unfolding readi_loop.simps [of ip off n s]
    by (auto simp: Let_def split: if_splits dest!: bal_bmap dest: 1(1) [OF _ refl refl, simplified])
qed

lemma bal_readi [bal]: "readi ip off n s = Val (r, bs, t) \<Longrightarrow> outst t = outst s"
  by (auto simp: readi_def Let_def split: if_splits option.splits prod.splits dest!: bal_readi_loop)

lemma bal_writei_loop: "writei_loop ip off src s = Val t \<Longrightarrow> outst t = outst s"
proof (induction ip off src s rule: writei_loop.induct)
  case (1 ip off src s)
  show ?case using 1(2) unfolding writei_loop.simps [of ip off src s]
    by (auto simp: Let_def split: if_splits dest!: bal_bmap dest: 1(1) [OF _ refl refl refl, simplified])
qed

lemma bal_writei [bal]: "writei ip src off s = Val (r, t) \<Longrightarrow> outst t = outst s"
  by (auto simp: writei_def Let_def split: if_splits option.splits dest!: bal_writei_loop)

section \<open>Directories and paths\<close>

lemma bal_ialloc_loop: "ialloc_loop dev ty n s = Val (r, t) \<Longrightarrow> outst t = outst s"
proof (induction dev ty n s rule: ialloc_loop.induct)
  case (1 dev ty n s)
  show ?case using 1(2) unfolding ialloc_loop.simps [of dev ty n s]
    by (auto simp: Let_def split: if_splits dest!: bal_iget dest: 1(1) [OF _ refl refl refl, simplified])
qed

lemma bal_ialloc [bal]: "ialloc dev ty s = Val (r, t) \<Longrightarrow> outst t = outst s"
  by (auto simp: ialloc_def dest!: bal_ialloc_loop)

lemma bal_read_dirent [bal]: "read_dirent m dp off s = Val (r, t) \<Longrightarrow> outst t = outst s"
  by (auto simp: read_dirent_def split: if_splits dest!: bal_readi)

lemma bal_dirlookup_loop: "dirlookup_loop dp name sz off s = Val (r, t) \<Longrightarrow> outst t = outst s"
proof (induction "sz - off" arbitrary: off s rule: less_induct)
  case less
  have d: "sz - (off + 16) < sz - off" if "off < sz" using that by simp
  show ?case using less(2) unfolding dirlookup_loop.simps [of dp name sz off s]
    by (auto split: if_splits dest!: bal_read_dirent bal_iget less(1) [OF d])
qed

lemma bal_dirlookup [bal]: "dirlookup dp name s = Val (r, t) \<Longrightarrow> outst t = outst s"
  by (auto simp: dirlookup_def split: if_splits dest!: bal_dirlookup_loop)

lemma bal_free_dirent: "free_dirent dp sz off s = Val (r, t) \<Longrightarrow> outst t = outst s"
proof (induction dp sz off s arbitrary: r t rule: free_dirent.induct)
  case (1 dp sz off s)
  show ?case using 1(2) unfolding free_dirent.simps [of dp sz off s]
    by (auto split: if_splits dest!: bal_read_dirent dest: 1(1) [simplified])
qed

lemma bal_dirlink [bal]: "dirlink dp name n s = Val (r, t) \<Longrightarrow> outst t = outst s"
  by (auto simp: dirlink_def split: if_splits option.splits dest!: bal bal_free_dirent)

lemma bal_namex_loop: "namex_loop nip ip path name s = Val (r, nm, t) \<Longrightarrow> outst t = outst s"
proof (induction "length path" arbitrary: ip path name s rule: less_induct)
  case less
  show ?case
  proof (cases "skipelem path")
    case None
    then show ?thesis using less(2) unfolding namex_loop.simps [of nip ip path name s]
      by (auto split: if_splits dest!: bal_iput)
  next
    case (Some e)
    obtain name' rest where e: "e = (name', rest)" by (cases e)
    have IH: "namex_loop nip ip' rest name' u = Val (r, nm, t) \<Longrightarrow> outst t = outst u" for ip' u
      by (rule less(1)) (use skipelem_shorter Some e in blast)+
    show ?thesis using less(2) unfolding namex_loop.simps [of nip ip path name s] Some e
      by (auto split: if_splits option.splits dest!: bal_ilock bal_iunlockput bal_iunlock bal_dirlookup IH)
  qed
qed

lemma bal_namei [bal]: "namei path wd s = Val (r, t) \<Longrightarrow> outst t = outst s"
  by (auto simp: namei_def namex_def idup_def split: if_splits dest!: bal_namex_loop bal_iget)

lemma bal_nameiparent [bal]: "nameiparent path wd s = Val (r, nm, t) \<Longrightarrow> outst t = outst s"
  by (auto simp: nameiparent_def namex_def idup_def split: if_splits dest!: bal_namex_loop bal_iget)

lemma bal_isdirempty_loop: "isdirempty_loop dp sz off s = Val (r, t) \<Longrightarrow> outst t = outst s"
proof (induction dp sz off s arbitrary: r t rule: isdirempty_loop.induct)
  case (1 dp sz off s)
  show ?case using 1(2) unfolding isdirempty_loop.simps [of dp sz off s]
    by (auto split: if_splits dest!: bal_read_dirent dest: 1(1) [simplified])
qed

lemma bal_isdirempty [bal]: "isdirempty dp s = Val (r, t) \<Longrightarrow> outst t = outst s"
  by (auto simp: isdirempty_def dest!: bal_isdirempty_loop)

lemma bal_create_new [bal]: "create_new dp name ty major minor s = Val (r, t) \<Longrightarrow> outst t = outst s"
  by (auto simp: create_new_def Let_def split: if_splits dest!: bal)

lemma bal_create [bal]: "create path ty major minor wd s = Val (r, t) \<Longrightarrow> outst t = outst s"
  by (auto simp: create_def split: if_splits option.splits dest!: bal)

section \<open>Files\<close>

lemma outst_tx [simp]: "outst (begin_tx s) = outst s + 1" "outst (end_tx s) = outst s - 1"
  by (simp_all add: begin_tx_def end_tx_def)

lemma outst_file [simp]: "outst (upd_file f g s) = outst s" "outst (close_pipe p w s) = outst s"
  by (simp_all add: upd_file_def close_pipe_def split: prod.split)

lemma bal_filealloc [bal]: "filealloc s = (r, t) \<Longrightarrow> outst t = outst s"
  by (auto simp: filealloc_def split: option.splits)

lemma bal_fdalloc [bal]: "fdalloc f s = (r, t) \<Longrightarrow> outst t = outst s"
  by (auto simp: fdalloc_def split: option.splits)

lemma bal_filedup [bal]: "filedup f s = Val t \<Longrightarrow> outst t = outst s"
  by (auto simp: filedup_def split: if_splits)

lemma bal_fileclose [bal]: "fileclose f s = Val t \<Longrightarrow> outst t = outst s"
  by (auto simp: fileclose_def Let_def split: if_splits filetype.splits dest!: bal)

lemma bal_fileread [bal]: "fileread f n s = Val (r, bs, t) \<Longrightarrow> outst t = outst s"
  by (auto simp: fileread_def Let_def split: if_splits filetype.splits prod.splits pipe_end.splits dest!: bal)

lemma bal_filestat [bal]: "filestat f s = Val (r, st, t) \<Longrightarrow> outst t = outst s"
  by (auto simp: filestat_def Let_def split: if_splits dest!: bal)

lemma bal_filewrite_loop: "filewrite_loop f src s = Val (r, t) \<Longrightarrow> outst t = outst s"
proof (induction "length src" arbitrary: src s rule: less_induct)
  case less
  have IH: "src \<noteq> [] \<Longrightarrow> filewrite_loop f (drop (min (length src) max_write) src) u = Val (r, t) \<Longrightarrow> outst t = outst u" for u
    by (rule less(1)) (auto simp: max_write_def MAXOPBLOCKS_def)
  show ?case using less(2) unfolding filewrite_loop.simps [of f src s] Let_def
    by (auto split: if_splits dest!: bal_ilock bal_writei bal_iunlock IH)
qed

lemma bal_filewrite [bal]: "filewrite f src s = Val (r, t) \<Longrightarrow> outst t = outst s"
  by (auto simp: filewrite_def Let_def split: if_splits filetype.splits prod.splits pipe_end.splits dest!: bal_filewrite_loop)

section \<open>The calls\<close>

lemma bal_sys_dup: "sys_dup a s = Val (r, t) \<Longrightarrow> outst t = outst s"
  by (auto simp: sys_dup_def split: option.splits prod.splits dest!: bal)

lemma bal_sys_read: "sys_read a n s = Val (r, bs, t) \<Longrightarrow> outst t = outst s"
  by (auto simp: sys_read_def split: option.splits if_splits dest!: bal_fileread)

lemma bal_sys_write: "sys_write a src s = Val (r, t) \<Longrightarrow> outst t = outst s"
  by (auto simp: sys_write_def split: option.splits if_splits dest!: bal_filewrite)

lemma bal_sys_close: "sys_close a s = Val (r, t) \<Longrightarrow> outst t = outst s"
  by (auto simp: sys_close_def split: option.splits dest!: bal_fileclose)

lemma bal_sys_fstat: "sys_fstat a ok s = Val (r, st, t) \<Longrightarrow> outst t = outst s"
  by (auto simp: sys_fstat_def split: option.splits if_splits dest!: bal_filestat)

lemma bal_link_bad: "link_bad ip s = Val (r, t) \<Longrightarrow> outst t = outst s - 1"
  by (auto simp: link_bad_def dest!: bal_ilock bal_iunlockput)

lemma bal_sys_link: "sys_link old new s = Val (r, t) \<Longrightarrow> outst t = outst s"
  by (auto simp: sys_link_def split: option.splits if_splits
      dest!: bal_namei bal_nameiparent bal_ilock bal_iunlock bal_iunlockput bal_iput bal_dirlink bal_link_bad)

lemma bal_unlink_bad: "unlink_bad dp s = Val (r, t) \<Longrightarrow> outst t = outst s - 1"
  by (auto simp: unlink_bad_def dest!: bal_iunlockput)

lemma bal_unlink_entry: "unlink_entry dp ip off s = Val (r, t) \<Longrightarrow> outst t = outst s - 1"
  by (auto simp: unlink_entry_def Let_def split: if_splits dest!: bal_writei bal_iunlockput)

lemma bal_sys_unlink: "sys_unlink path s = Val (r, t) \<Longrightarrow> outst t = outst s"
  by (auto simp: sys_unlink_def split: option.splits if_splits
      dest!: bal_nameiparent bal_ilock bal_dirlookup bal_isdirempty bal_iunlockput bal_unlink_bad bal_unlink_entry)

lemma bal_open_inode: "open_inode ip omode s = Val (r, t) \<Longrightarrow> outst t = outst s - 1"
  by (auto simp: open_inode_def split: prod.splits option.splits
      dest!: bal_filealloc bal_fdalloc bal_fileclose bal_iunlockput bal_iunlock)

lemma bal_sys_open: "sys_open path omode s = Val (r, t) \<Longrightarrow> outst t = outst s"
  by (auto simp: sys_open_def split: option.splits if_splits
      dest!: bal_namei bal_create bal_ilock bal_iunlockput bal_open_inode)

lemma bal_sys_mkdir: "sys_mkdir path s = Val (r, t) \<Longrightarrow> outst t = outst s"
  by (auto simp: sys_mkdir_def split: option.splits dest!: bal_create bal_iunlockput)

lemma bal_sys_mknod: "sys_mknod path major minor s = Val (r, t) \<Longrightarrow> outst t = outst s"
  by (auto simp: sys_mknod_def split: option.splits dest!: bal_create bal_iunlockput)

lemma bal_sys_chdir: "sys_chdir path s = Val (r, t) \<Longrightarrow> outst t = outst s"
  by (auto simp: sys_chdir_def split: option.splits if_splits
      dest!: bal_namei bal_ilock bal_iunlockput bal_iunlock bal_iput)

lemma bal_sys_chmod: "sys_chmod path mode s = Val (r, t) \<Longrightarrow> outst t = outst s"
  by (auto simp: sys_chmod_def split: option.splits dest!: bal_namei bal_ilock bal_iunlockput)

lemma bal_pipealloc: "pipealloc page s = Val (r, t) \<Longrightarrow> outst t = outst s"
  by (auto simp: pipealloc_def split: prod.splits option.splits dest!: bal_filealloc bal_fileclose)

lemma bal_sys_pipe: "sys_pipe ok page s = Val (r, fds, t) \<Longrightarrow> outst t = outst s"
proof -
  assume a: "sys_pipe ok page s = Val (r, fds, t)"
  show ?thesis
  proof (cases "ok \<and> (\<exists>rf wf s1. pipealloc page s = Val (Some (rf, wf), s1))")
    case False
    then show ?thesis using a by (auto simp: sys_pipe_def split: if_splits option.splits dest!: bal_pipealloc)
  next
    case True
    then obtain rf wf s1 where p: "ok" "pipealloc page s = Val (Some (rf, wf), s1)" by blast
    obtain x2 s2 x3 s3 where f: "fdalloc rf s1 = (x2, s2)" "fdalloc wf s2 = (x3, s3)" by (metis prod.exhaust)
    have "outst s3 = outst s" "outst s2 = outst s" using bal_pipealloc [OF p(2)] bal_fdalloc [OF f(1)] bal_fdalloc [OF f(2)] by simp_all
    then show ?thesis using a p f by (cases x2; cases x3) (auto simp: sys_pipe_def dest!: bal_fileclose)
  qed
qed

text \<open>One file system call of a process, with whatever arguments it has.\<close>

inductive file_call :: "'a ksys_scheme \<Rightarrow> 'a ksys_scheme \<Rightarrow> bool" where
  dup: "sys_dup a s = Val (r, t) \<Longrightarrow> file_call s t"
| readf: "sys_read a n s = Val (r, bs, t) \<Longrightarrow> file_call s t"
| writef: "sys_write a src s = Val (r, t) \<Longrightarrow> file_call s t"
| closef: "sys_close a s = Val (r, t) \<Longrightarrow> file_call s t"
| fstat: "sys_fstat a ok s = Val (r, st, t) \<Longrightarrow> file_call s t"
| link: "sys_link old new s = Val (r, t) \<Longrightarrow> file_call s t"
| unlink: "sys_unlink path s = Val (r, t) \<Longrightarrow> file_call s t"
| openf: "sys_open path omode s = Val (r, t) \<Longrightarrow> file_call s t"
| mkdir: "sys_mkdir path s = Val (r, t) \<Longrightarrow> file_call s t"
| mknod: "sys_mknod path major minor s = Val (r, t) \<Longrightarrow> file_call s t"
| chdir: "sys_chdir path s = Val (r, t) \<Longrightarrow> file_call s t"
| chmod: "sys_chmod path mode s = Val (r, t) \<Longrightarrow> file_call s t"
| pipe: "sys_pipe ok page s = Val (r, fds, t) \<Longrightarrow> file_call s t"

lemmas bal_calls = bal_sys_dup bal_sys_read bal_sys_write bal_sys_close bal_sys_fstat bal_sys_link bal_sys_unlink
  bal_sys_open bal_sys_mkdir bal_sys_mknod bal_sys_chdir bal_sys_chmod bal_sys_pipe

text \<open>
  C17: every operation that a call begins is ended.  After any sequence of file system calls, whatever
  their arguments and whether they succeed or fail in whatever place, as many operations are open in
  the log as before it: no error path returns between \<open>begin_op\<close> and \<open>end_op\<close>, and none ends twice.
\<close>

theorem calls_end_operations:
  assumes "file_call\<^sup>*\<^sup>* s t"
  shows "outst t = outst s"
  using assms
proof (induction rule: rtranclp_induct)
  case (step t u)
  then show ?case by (auto elim!: file_call.cases dest!: bal_calls)
qed simp

text \<open>Opening the root directory.\<close>

definition ex_ksys :: ksys where
  "ex_ksys = \<lparr>blk = (\<lambda>_ _ _. 0), sb = \<lparr>sb_size = 0, sb_nblocks = 0, sb_ninodes = 0, sb_nlog = 0, sb_logstart = 0,
       sb_inodestart = 0, sb_bmapstart = 0\<rparr>,
     icache = [\<lparr>i_dev = 1, i_inum = 1, i_ref = 1, i_holder = None, i_valid = True, i_type = T_DIR, i_major = 0,
       i_minor = 0, i_nlink = 1, i_size = 0, i_addrs = replicate 13 0, i_mode = 7\<rparr>],
     cur = 1, devread = Map.empty, devwrite = Map.empty, outst = 0,
     ftable = [\<lparr>f_type = FD_NONE, f_ref = 0, f_readable = False, f_writable = False, f_pipe = 0, f_ip = None, f_off = 0\<rparr>],
     pipes = (\<lambda>_. pipe_init []), ofile = [None], cwd = 0, killed = False, woken = [], freed = [], nullmode = 0\<rparr>"

theorem calls_end_operations_witness:
  "\<exists>t. sys_open (Some ''/'') (Some 0) ex_ksys = Val (0, t) \<and> ofile t = [Some 0] \<and> outst t = 0"
proof -
  have "\<exists>t. sys_open (Some ''/'') (Some 0) ex_ksys = Val (0, t) \<and> ofile t = [Some 0]"
    by (simp add: sys_open_def namei_def namex_def iget_def ex_ksys_def begin_tx_def end_tx_def ROOTDEV_def ROOTINO_def
        namex_loop.simps skipelem_def skip_slash_def ilock_def iunlock_def open_inode_def filealloc_def fdalloc_def
        upd_ino_def upd_file_def)
  then obtain t where t: "sys_open (Some ''/'') (Some 0) ex_ksys = Val (0, t)" "ofile t = [Some 0]" by blast
  have "file_call\<^sup>*\<^sup>* ex_ksys t" using file_call.openf [OF t(1)] by blast
  then have "outst t = outst ex_ksys" by (rule calls_end_operations)
  then show ?thesis using t by (simp add: ex_ksys_def)
qed

section \<open>exec\<close>

lemma bal_loaduvm_loop: "loaduvm_loop n d a ip off sz i f v = Val (r, g, w) \<Longrightarrow> outst g = outst f"
proof (induction n arbitrary: i f v)
  case 0
  then show ?case unfolding loaduvm_loop.simps [of 0 d a ip off sz i f v] by (auto split: if_splits)
next
  case (Suc n)
  show ?case using Suc.prems unfolding loaduvm_loop.simps [of "Suc n" d a ip off sz i f v] Let_def
    by (auto split: if_splits prod.splits dest!: bal_readi Suc.IH)
qed

lemma bal_loaduvm: "loaduvm d a ip off sz f v = Val (r, g, w) \<Longrightarrow> outst g = outst f"
  by (auto simp: loaduvm_def split: if_splits dest!: bal_loaduvm_loop)

lemma bal_load_segments: "load_segments n d ip off sz f v = Val (r, g, w) \<Longrightarrow> outst g = outst f"
proof (induction n arbitrary: off sz f v)
  case (Suc n)
  show ?case using Suc.prems by (auto simp: Let_def split: if_splits dest!: bal_readi bal_loaduvm Suc.IH)
qed simp

definition same_image :: "image \<Rightarrow> image \<Rightarrow> bool" where
  "same_image x y \<longleftrightarrow> x_pgdir y = x_pgdir x \<and> x_sz y = x_sz x \<and> x_name y = x_name x \<and> x_eip y = x_eip x \<and>
     x_esp y = x_esp x \<and> x_cr3 y = x_cr3 x"

lemma exec_bad_same:
  assumes "exec_bad d ip z = Val (r, y)"
  shows "r = - 1 \<and> same_image z y \<and> x_cwd y = x_cwd z \<and>
    outst (xfs y) = outst (xfs z) - (if ip = None then 0 else 1)"
  using assms by (cases ip) (auto simp: exec_bad_def same_image_def split: if_splits dest!: bal_iunlockput)


text \<open>The root directory is no program.\<close>

definition ex_image :: image where
  "ex_image = \<lparr>xfs = fs.truncate ex_ksys, xvm = ex_kstate, x_cwd = 0, x_pgdir = 7, x_sz = 0, x_name = replicate 16 NUL,
     x_eip = 0, x_esp = 0, x_cr3 = 0\<rparr>"


end
