(* ===== verification/Xv6_Execstack.thy ===== *)
theory Xv6_Execstack
  imports Xv6_Exec
begin

text \<open>The stack that \<open>exec\<close> builds: exactly when it fits into its page, and what is then in it.\<close>

unbundle bit_operations_syntax

section \<open>Copying bytes to user memory\<close>

definition wrote :: "'a kstate_scheme \<Rightarrow> uint \<Rightarrow> nat \<Rightarrow> byte list \<Rightarrow> 'a kstate_scheme \<Rightarrow> bool" where
  "wrote s d va bs t \<longleftrightarrow>
     (\<forall>m < 1048576. entry t d m = entry s d m) \<and>
     (\<forall>x. user s d (x div 4096) \<longrightarrow>
        umem t d x = (if va \<le> x \<and> x < va + length bs then bs ! (x - va) else umem s d x))"

lemma wrote_none: "wrote s d va [] s"
  by (auto simp: wrote_def)

lemma wrote_user: "wrote s d va bs t \<Longrightarrow> user t d = user s d"
  by (rule user_cong) (simp add: wrote_def)

lemma wrote_accessible: "wrote s d va bs t \<Longrightarrow> n < 1048576 \<Longrightarrow> accessible t d n = accessible s d n"
  by (simp add: wrote_def accessible_def)

lemma wrote_trans:
  assumes "wrote s d va bs t" "wrote t d (va + length bs) cs u"
  shows "wrote s d va (bs @ cs) u"
proof -
  have "user t d = user s d" by (rule wrote_user [OF assms(1)])
  then show ?thesis using assms by (auto simp: wrote_def nth_append)
qed

text \<open>No page of the kernel is open to the user.\<close>

definition kernel_private :: "'a kstate_scheme \<Rightarrow> uint \<Rightarrow> bool" where
  "kernel_private s d \<longleftrightarrow> (\<forall>n. 524288 \<le> n \<and> n < 1048576 \<longrightarrow> \<not> accessible s d n)"

lemma wrote_private: "wrote s d va bs t \<Longrightarrow> kernel_private t d = kernel_private s d"
  by (simp add: kernel_private_def wrote_accessible)

lemma accessible_user: "accessible s d n \<Longrightarrow> n < 524288 \<Longrightarrow> user s d n"
  by (simp add: accessible_def user_def)

lemma copyout_bytes_step:
  assumes ok: "uvm_ok s vs d" and bs: "bs \<noteq> []" and acc: "accessible s d (vpn va)" and lo: "vpn va < 524288"
  obtains n t where "copyout_bytes d va bs s = copyout_bytes d (PGROUNDDOWN va + of_nat PGSIZE) (drop n bs) t"
    "uvm_ok t vs d" "wrote s d (unat va) (take n bs) t" "unat (PGROUNDDOWN va + of_nat PGSIZE) = unat va + n"
    "0 < n" "unat va mod 4096 + n = 4096"
proof -
  let ?n = "min (4096 - unat va mod 4096) (length bs)" and ?va0 = "PGROUNDDOWN va" and ?f = "frame s d (vpn va)"
  have va: "unat va = 4096 * vpn va + unat va mod 4096" by (simp add: vpn_def)
  have u: "user s d (vpn va)" using accessible_user [OF acc lo] .
  have h: "has_tab s d (vpn ?va0 div 1024)" using user_has_tab [OF u] by (simp add: vpn_PGROUNDDOWN)
  have ua: "uva2ka d ?va0 s = Val ?f" using uva2ka_result [OF ok h] acc by (simp add: vpn_PGROUNDDOWN)
  have pf: "page_ok (kend s) ?f" by (rule uvm_okD(2) [OF ok u])
  have ph: "phys (?f + (va - ?va0)) = phys ?f + unat va mod 4096"
    using phys_offset(1) [OF pf, of "va - ?va0"] by (simp add: off_page)
  define m where "m = put_bytes (phys ?f + unat va mod 4096) (take ?n bs) (pm s)"
  have st: "copyout_bytes d va bs s = copyout_bytes d (?va0 + of_nat PGSIZE) (drop ?n bs) (s\<lparr>pm := m\<rparr>)"
    using copyout_bytes.simps [of d va bs s] bs ua page_ok_phys(5) [OF pf]
    by (simp add: Let_def ph m_def off_page PGSIZE_def)
  have mm: "\<forall>x. m x = (if phys ?f + unat va mod 4096 \<le> x \<and> x < phys ?f + unat va mod 4096 + ?n
      then bs ! (x - (phys ?f + unat va mod 4096)) else pm s x)"
    by (auto simp: m_def put_bytes_def less_diff_conv2 intro!: nth_take)
  have n: "unat va mod 4096 + ?n \<le> 4096" by simp
  note w = write_chunk [of s vs d "unat va" ?n m _ "\<lambda>k. bs ! k", OF ok _ n mm, folded vpn_def, OF u refl]
  have wr: "wrote s d (unat va) (take (4096 - unat va mod 4096) bs) (s\<lparr>pm := m\<rparr>)"
    using w(2,4) by (auto simp: wrote_def)
  have "4096 * vpn va + 4096 = unat va + (4096 - unat va mod 4096)" using va by simp
  then have v': "unat (?va0 + of_nat PGSIZE) = unat va + (4096 - unat va mod 4096)"
    using lo by (simp add: unat_add_uint PGSIZE_def vpn_PGROUNDDOWN)
  have dr: "drop ?n bs = drop (4096 - unat va mod 4096) bs" by (simp add: min_def)
  show thesis by (rule that [OF st [unfolded dr] w(1) wr v']) simp_all
qed

lemma copyout_bytes_ok:
  assumes "uvm_ok s vs d" "unat va + length bs \<le> 2147483648" "\<forall>k < length bs. accessible s d ((unat va + k) div 4096)"
  shows "\<exists>t. copyout_bytes d va bs s = Val (0, t) \<and> uvm_ok t vs d \<and> wrote s d (unat va) bs t"
  using assms
proof (induction "length bs" arbitrary: va bs s rule: less_induct)
  case less
  show ?case
  proof (cases "bs = []")
    case True
    then show ?thesis using less(2) wrote_none by (auto simp: copyout_bytes.simps)
  next
    case False
    have acc: "accessible s d (vpn va)" using less(4) False by (auto simp: vpn_def)
    have "unat va < 2147483648" using less(3) length_greater_0_conv [of bs] False by linarith
    then have lo: "vpn va < 524288" by (simp add: vpn_def div_less_iff_less_mult)
    obtain n t where t: "copyout_bytes d va bs s = copyout_bytes d (PGROUNDDOWN va + of_nat PGSIZE) (drop n bs) t"
        "uvm_ok t vs d" "wrote s d (unat va) (take n bs) t" "unat (PGROUNDDOWN va + of_nat PGSIZE) = unat va + n"
        "0 < n" "unat va mod 4096 + n = 4096"
      by (rule copyout_bytes_step [OF less(2) False acc lo]) (rule that)
    show ?thesis
    proof (cases "length bs \<le> n")
      case True
      then show ?thesis using t by (auto simp: copyout_bytes.simps)
    next
      case big: False
      have "\<exists>u. copyout_bytes d (PGROUNDDOWN va + of_nat PGSIZE) (drop n bs) t = Val (0, u) \<and> uvm_ok u vs d \<and>
          wrote t d (unat (PGROUNDDOWN va + of_nat PGSIZE)) (drop n bs) u"
      proof (rule less(1) [OF _ t(2)])
        show "length (drop n bs) < length bs" using False t(5) by simp
        show "unat (PGROUNDDOWN va + of_nat PGSIZE) + length (drop n bs) \<le> 2147483648" using less(3) big t(4) by simp
        show "\<forall>k < length (drop n bs). accessible t d ((unat (PGROUNDDOWN va + of_nat PGSIZE) + k) div 4096)"
        proof (intro allI impI)
          fix k assume k: "k < length (drop n bs)"
          then have "accessible s d ((unat va + (n + k)) div 4096)" using less(4) by simp
          moreover have "(unat va + (n + k)) div 4096 < 1048576" using less(3) k by (simp add: div_less_iff_less_mult)
          ultimately show "accessible t d ((unat (PGROUNDDOWN va + of_nat PGSIZE) + k) div 4096)"
            using wrote_accessible [OF t(3)] by (simp only: t(4) add.assoc)
        qed
      qed
      then obtain u where "copyout_bytes d va bs s = Val (0, u)" "uvm_ok u vs d" "wrote t d (unat va + n) (drop n bs) u"
        using t(1,4) by auto
      then show ?thesis using wrote_trans [OF t(3), of "drop n bs" u] big by auto
    qed
  qed
qed

text \<open>A copy that does not fail has gone to pages that the user may access.\<close>

lemma uva2ka_closed:
  assumes "uvm_ok s vs d" "\<not> accessible s d (vpn va)"
  shows "uva2ka d va s = Val 0 \<or> uva2ka d va s = Panic ''page fault''"
proof (cases "has_tab s d (vpn va div 1024)")
  case True
  then show ?thesis using uva2ka_result [OF assms(1)] assms(2) by simp
next
  case False
  then show ?thesis using walk_absent [OF dir_okD(2) [OF uvm_okD(1) [OF assms(1)]] False] by (simp add: uva2ka_def)
qed

lemma copyout_bytes_inside:
  assumes "uvm_ok s vs d" "kernel_private s d" "copyout_bytes d va bs s = Val (r, t)" "\<not> r < 0" "bs \<noteq> []"
  shows "unat va + length bs \<le> 2147483648 \<and> (\<forall>k < length bs. accessible s d ((unat va + k) div 4096))"
  using assms
proof (induction "length bs" arbitrary: va bs s rule: less_induct)
  case less
  have acc: "accessible s d (vpn va)"
  proof (rule ccontr)
    assume "\<not> accessible s d (vpn va)"
    then have "uva2ka d (PGROUNDDOWN va) s = Val 0 \<or> uva2ka d (PGROUNDDOWN va) s = Panic ''page fault''"
      using uva2ka_closed [OF less(2), of "PGROUNDDOWN va"] by (simp add: vpn_PGROUNDDOWN)
    then show False using less(4-6) unfolding copyout_bytes.simps [of d va bs s] by (elim disjE) (simp_all add: Let_def)
  qed
  then have lo: "vpn va < 524288" using less(3) vpn_less [of va] by (meson kernel_private_def not_less)
  obtain n u where u: "copyout_bytes d va bs s = copyout_bytes d (PGROUNDDOWN va + of_nat PGSIZE) (drop n bs) u"
      "uvm_ok u vs d" "wrote s d (unat va) (take n bs) u" "unat (PGROUNDDOWN va + of_nat PGSIZE) = unat va + n"
      "0 < n" "unat va mod 4096 + n = 4096"
    by (rule copyout_bytes_step [OF less(2,6) acc lo]) (rule that)
  have va: "unat va = 4096 * vpn va + unat va mod 4096" by (simp add: vpn_def)
  have fst: "accessible s d ((unat va + k) div 4096)" if "k < n" for k
  proof -
    have "(unat va + k) div 4096 = vpn va" unfolding vpn_def by (rule same_page [of _ n]) (use that u(6) in simp_all)
    then show ?thesis using acc by simp
  qed
  show ?case
  proof (cases "length bs \<le> n")
    case True
    moreover have "unat va + n \<le> 2147483648" using va lo u(6) by linarith
    ultimately show ?thesis using fst by auto
  next
    case False
    then have nb: "drop n bs \<noteq> []" by simp
    have "unat va + n + length (drop n bs) \<le> 2147483648 \<and>
        (\<forall>k < length (drop n bs). accessible u d ((unat va + n + k) div 4096))"
      using less(1) [OF _ u(2) _ _ less(5) nb, of "PGROUNDDOWN va + of_nat PGSIZE"] less(3,4,6) u(1,4,5) wrote_private [OF u(3)]
      by simp
    then have r: "unat va + length bs \<le> 2147483648"
      "\<forall>k < length bs - n. accessible u d ((unat va + n + k) div 4096)" using False by simp_all
    have "accessible s d ((unat va + k) div 4096)" if k: "k < length bs" for k
    proof (cases "k < n")
      case False
      then have "accessible u d ((unat va + n + (k - n)) div 4096)" using r(2) [rule_format, of "k - n"] k by simp
      moreover have "(unat va + k) div 4096 < 1048576" using r(1) k by (simp add: div_less_iff_less_mult)
      ultimately show ?thesis using wrote_accessible [OF u(3)] False by simp
    qed (rule fst)
    then show ?thesis using r(1) by blast
  qed
qed

section \<open>The strings\<close>

text \<open>The room of a string with its NUL, and the addresses of the strings below \<open>sp\<close>.\<close>

definition room :: "byte list \<Rightarrow> nat" where "room a = 4 * ((length a + 4) div 4)"

fun arg_addrs :: "nat \<Rightarrow> byte list list \<Rightarrow> nat list" where
  "arg_addrs sp [] = []"
| "arg_addrs sp (a # as) = (sp - room a) # arg_addrs (sp - room a) as"

definition args_room :: "byte list list \<Rightarrow> nat" where "args_room as = sum_list (map room as)"

lemma args_room_simps [simp]: "args_room [] = 0" "args_room (a # as) = room a + args_room as"
  by (simp_all add: args_room_def)

lemma length_arg_addrs [simp]: "length (arg_addrs sp as) = length as"
  by (induction as arbitrary: sp) simp_all

lemma room_bounds: "length a < room a" "room a \<le> length a + 4" "room a mod 4 = 0"
proof -
  have "4 * ((length a + 4) div 4) + (length a + 4) mod 4 = length a + 4" "(length a + 4) mod 4 < 4"
    by (simp_all only: mult_div_mod_eq mod_less_divisor zero_less_numeral)
  then show "length a < room a" "room a \<le> length a + 4" unfolding room_def by linarith+
  show "room a mod 4 = 0" by (simp add: room_def)
qed

lemma round4: "unat (w AND NOT 3 :: uint) = unat w div 4 * 4"
proof -
  have m: "(3 :: uint) = mask 2" by (simp add: mask_eq_exp_minus_1)
  have [simp]: "2 \<le> n \<Longrightarrow> Suc (Suc (n - 2)) = n" for n :: nat by simp
  have "w AND NOT 3 = push_bit 2 (drop_bit 2 w)"
    unfolding m by (rule bit_word_eqI) (auto simp: bit_simps not_less)
  moreover have "unat (push_bit 2 (drop_bit 2 w)) = take_bit 32 (push_bit 2 (drop_bit 2 (unat w)))"
    by (simp only: unsigned_push_bit_eq unat_drop_bit_eq) simp
  moreover have "\<dots> = unat w div 4 * 4 mod 4294967296"
    by (simp add: push_bit_eq_mult drop_bit_eq_div take_bit_eq_mod)
  moreover have "\<dots> = unat w div 4 * 4"
    by (rule mod_less, rule le_less_trans, rule div_times_less_eq_dividend, rule unat_lt_32)
  ultimately show ?thesis by (simp only:)
qed

lemmas round4_simp = round4 [simplified]

text \<open>The new stack pointer, when there is room above address 0.\<close>

lemma push_sp:
  fixes sp :: uint
  assumes "unat sp mod 4 = 0" "length a < unat sp" "length a < 2147483648"
  shows "unat ((sp - (of_nat (length a) + 1)) AND NOT 3) = unat sp - room a" "room a \<le> unat sp"
proof -
  define w :: uint where "w = of_nat (length a) + 1"
  have u: "unat w = length a + 1"
    unfolding w_def using assms(3) by (simp add: unat_add_uint unat_of_nat_uint)
  have "unat (sp - w) = unat sp - (length a + 1)" using assms(2) by (simp add: unat_sub_uint u)
  then have e: "unat ((sp - (of_nat (length a) + 1)) AND NOT 3) = (unat sp - (length a + 1)) div 4 * 4"
    by (simp add: round4_simp w_def)
  obtain q where q: "unat sp = 4 * q" using assms(1) by (meson mod_0_imp_dvd dvdE)
  define r where "r = (length a + 4) div 4"
  have "4 * r + (length a + 4) mod 4 = length a + 4" "(length a + 4) mod 4 < 4"
    unfolding r_def by (simp_all only: mult_div_mod_eq mod_less_divisor zero_less_numeral)
  then have r: "4 * r \<le> length a + 4" "length a + 4 < 4 * r + 4" by linarith+
  then have rq: "r \<le> q" using assms(2) unfolding q by linarith
  obtain p where p: "q = r + p" using rq le_Suc_ex by blast
  have "(4 * q - (length a + 1)) div 4 = q - r"
    unfolding p add_diff_cancel_left' by (rule div_nat_eqI) (use r assms(2) in \<open>simp_all add: q p\<close>)
  then show "unat ((sp - (of_nat (length a) + 1)) AND NOT 3) = unat sp - room a" "room a \<le> unat sp"
    using rq by (simp_all add: e [simplified] q room_def r_def [symmetric] diff_mult_distrib2)
qed

text \<open>A range of accessible addresses that reaches above the guard page lies above it.\<close>

lemma above_guard:
  assumes "\<not> accessible s d (P - 1)" "0 < P" "\<forall>k < n. accessible s d ((v + k) div 4096)" "4096 * (P - 1) < v + n" "0 < n"
  shows "4096 * P \<le> v"
proof (rule ccontr)
  assume a: "\<not> 4096 * P \<le> v"
  define y where "y = max v (4096 * (P - 1))"
  have y: "v \<le> y" "y < v + n" "4096 * (P - 1) \<le> y" "y < 4096 * Suc (P - 1)" "y - v < n"
    using a assms(2,4,5) by (auto simp: y_def max_def)
  have "y div 4096 = P - 1" by (rule div_nat_eqI) (use y in simp_all)
  moreover have "accessible s d ((v + (y - v)) div 4096)" using assms(3) y(5) by blast
  ultimately show False using assms(1) y(1) by simp
qed

text \<open>One string.\<close>

lemma arg_inside:
  fixes sp :: uint
  assumes g: "\<not> accessible s d (P - 1)" "0 < P" and sp: "4096 * P \<le> unat sp" "unat sp mod 4 = 0" "length a < 2147483648"
    and v: "v = (sp - (of_nat (length a) + 1)) AND NOT 3"
    and i: "unat v + Suc (length a) \<le> 2147483648" "\<forall>k < Suc (length a). accessible s d ((unat v + k) div 4096)"
  shows "4096 * P + room a \<le> unat sp"
proof (cases "length a < unat sp")
  case True
  have e: "unat v = unat sp - room a" "room a \<le> unat sp" using push_sp [OF sp(2) True sp(3)] by (simp_all add: v)
  have "4096 * (P - 1) < unat v + Suc (length a)"
    using e sp(1) g(2) room_bounds(2) [of a] by (cases P) auto
  then show ?thesis using above_guard [OF g i(2)] e by simp
next
  case False
  define w :: uint where "w = of_nat (length a) + 1"
  have u: "unat w = length a + 1" unfolding w_def using sp(3) by (simp add: unat_add_uint unat_of_nat_uint)
  have "unat (sp - w) = unat sp + 4294967296 - (length a + 1)" using False by (simp add: unat_sub_uint u)
  then have "unat v = (unat sp + 4294967296 - (length a + 1)) div 4 * 4" by (simp add: v w_def [symmetric] round4_simp)
  moreover have "2147483648 div 4 * 4 \<le> (unat sp + 4294967296 - (length a + 1)) div 4 * (4 :: nat)"
    by (intro mult_le_mono1 div_le_mono) (use sp(3) in linarith)
  ultimately show ?thesis using i(1) by simp
qed

lemma push_args_fits:
  assumes "uvm_ok s vs d" "kernel_private s d" "\<not> accessible s d (P - 1)" "0 < P" "P < 524288"
    "4096 * P \<le> unat sp" "unat sp mod 4 = 0" "\<forall>a \<in> set as. length a < 2147483648" "argc \<le> MAXARG"
    "push_args d as argc sp s = Val (Some (e, ps), t)"
  shows "argc + length as \<le> MAXARG \<and> 4096 * P + args_room as \<le> unat sp"
  using assms
proof (induction as arbitrary: argc sp s e ps)
  case Nil
  then show ?case by simp
next
  case (Cons a as)
  let ?v = "(sp - (of_nat (length a) + 1)) AND NOT 3"
  have argc: "argc < MAXARG" using Cons.prems(10) by (auto split: if_splits)
  obtain r s1 e' ps' where c: "copyout_bytes d ?v (a @ [0]) s = Val (r, s1)" "\<not> r < 0"
      and p: "push_args d as (argc + 1) ?v s1 = Val (Some (e', ps'), t)"
    using Cons.prems(10) argc by (auto simp: Let_def split: if_splits)
  note i = copyout_bytes_inside [OF Cons.prems(1,2) c]
  have len: "length a < 2147483648" using Cons.prems(8) by simp
  have r: "4096 * P + room a \<le> unat sp"
    by (rule arg_inside [OF Cons.prems(3,4,6,7) len refl]) (use i in simp_all)
  then have "length a < unat sp" using room_bounds(1) [of a] by linarith
  note v = push_sp [OF Cons.prems(7) this len]
  obtain s1' where w: "copyout_bytes d ?v (a @ [0]) s = Val (0, s1')" "uvm_ok s1' vs d" "wrote s d (unat ?v) (a @ [0]) s1'"
    using copyout_bytes_ok [OF Cons.prems(1), of ?v "a @ [0]"] i by auto
  then have s1: "s1' = s1" using c(1) by simp
  have "argc + 1 + length as \<le> MAXARG \<and> 4096 * P + args_room as \<le> unat ?v"
  proof (rule Cons.IH [OF w(2) [unfolded s1] _ _ Cons.prems(4,5) _ _ _ _ p])
    show "kernel_private s1 d" using Cons.prems(2) wrote_private [OF w(3)] by (simp add: s1)
    show "\<not> accessible s1 d (P - 1)" using Cons.prems(3,5) wrote_accessible [OF w(3), of "P - 1"] by (simp add: s1)
    show "4096 * P \<le> unat ?v" using v r by simp
    show "unat ?v mod 4 = 0" unfolding v(1) using Cons.prems(7) room_bounds(3) [of a] v(2) by (simp add: mod_eq_0_iff_dvd)
  qed (use Cons.prems(8) argc in auto)
  then show ?case using v by (simp add: le_diff_conv2)
qed

text \<open>When there is room, the strings are pushed.\<close>

definition strings_at :: "'a kstate_scheme \<Rightarrow> uint \<Rightarrow> nat list \<Rightarrow> byte list list \<Rightarrow> bool" where
  "strings_at s d ps as \<longleftrightarrow>
     (\<forall>i < length as. \<forall>k < Suc (length (as ! i)). umem s d (ps ! i + k) = (as ! i @ [0]) ! k)"

lemma strings_at_Nil: "strings_at s d [] []"
  by (simp add: strings_at_def)

lemma strings_at_Cons:
  assumes "strings_at t d ps as" "\<forall>k < Suc (length a). umem t d (p + k) = (a @ [0]) ! k"
  shows "strings_at t d (p # ps) (a # as)"
  unfolding strings_at_def
proof (intro allI impI)
  fix i k assume ik: "i < length (a # as)" "k < Suc (length ((a # as) ! i))"
  show "umem t d ((p # ps) ! i + k) = ((a # as) ! i @ [0]) ! k"
    by (cases i) (use ik assms in \<open>auto simp: strings_at_def\<close>)
qed

definition page_open :: "'a kstate_scheme \<Rightarrow> uint \<Rightarrow> nat \<Rightarrow> bool" where
  "page_open s d P \<longleftrightarrow> P < 524288 \<and> accessible s d P"

lemma in_page: "4096 * P \<le> x \<Longrightarrow> x < 4096 * P + 4096 \<Longrightarrow> x div 4096 = (P :: nat)"
  by (rule div_nat_eqI) simp_all

lemma push_args_ok:
  assumes "uvm_ok s vs d" "page_open s d P" "unat sp \<le> 4096 * P + 4096" "unat sp mod 4 = 0"
    "4096 * P + args_room as \<le> unat sp" "argc + length as \<le> MAXARG"
  shows "\<exists>t e ps. push_args d as argc sp s = Val (Some (e, ps), t) \<and> uvm_ok t vs d \<and>
    unat e = unat sp - args_room as \<and> map unat ps = arg_addrs (unat sp) as \<and>
    (\<forall>m < 1048576. entry t d m = entry s d m) \<and>
    (\<forall>x. user s d (x div 4096) \<and> \<not> (unat e \<le> x \<and> x < unat sp) \<longrightarrow> umem t d x = umem s d x) \<and>
    strings_at t d (arg_addrs (unat sp) as) as"
  using assms
proof (induction as arbitrary: argc sp s)
  case Nil
  then show ?case by (auto simp: strings_at_Nil)
next
  case (Cons a as)
  define w :: uint where "w = (sp - (of_nat (length a) + 1)) AND NOT 3"
  have P: "P < 524288" "accessible s d P" using Cons.prems(2) by (simp_all add: page_open_def)
  have rm: "4096 * P + room a + args_room as \<le> unat sp" using Cons.prems(5) by simp
  have la: "length a < unat sp" "length a < 2147483648" using rm room_bounds(1) [of a] Cons.prems(3) P(1) by linarith+
  note v = push_sp [OF Cons.prems(4) la, folded w_def]
  have in_p: "(unat w + k) div 4096 = P" if "k < Suc (length a)" for k
    by (rule in_page) (use that v rm room_bounds(1) [of a] Cons.prems(3) in linarith)+
  have "unat w + length (a @ [0]) \<le> 2147483648"
    using v room_bounds(1) [of a] Cons.prems(3) P(1) by simp
  then obtain s1 where c: "copyout_bytes d w (a @ [0]) s = Val (0, s1)" "uvm_ok s1 vs d" "wrote s d (unat w) (a @ [0]) s1"
    using copyout_bytes_ok [OF Cons.prems(1), of w "a @ [0]"] in_p P(2) by auto
  have po: "page_open s1 d P" using P wrote_accessible [OF c(3), of P] by (simp add: page_open_def)
  have al: "unat w mod 4 = 0"
    unfolding v(1) using Cons.prems(4) room_bounds(3) [of a] v(2) by (simp add: mod_eq_0_iff_dvd)
  have le: "unat w \<le> 4096 * P + 4096" "4096 * P + args_room as \<le> unat w" using v rm Cons.prems(3) by linarith+
  obtain t e ps where t: "push_args d as (argc + 1) w s1 = Val (Some (e, ps), t)" "uvm_ok t vs d"
      "unat e = unat w - args_room as" "map unat ps = arg_addrs (unat w) as"
      "\<forall>m < 1048576. entry t d m = entry s1 d m"
      "\<forall>x. user s1 d (x div 4096) \<and> \<not> (unat e \<le> x \<and> x < unat w) \<longrightarrow> umem t d x = umem s1 d x"
      "strings_at t d (arg_addrs (unat w) as) as"
    using Cons.IH [OF c(2) po le(1) al le(2), of "argc + 1"] Cons.prems(6) by auto
  have u: "user s1 d = user s d" by (rule wrote_user [OF c(3)])
  have uP: "user s d P" using accessible_user P by blast
  have "umem t d (unat w + k) = (a @ [0]) ! k" if k: "k < Suc (length a)" for k
  proof -
    have "umem t d (unat w + k) = umem s1 d (unat w + k)" using t(6) u uP in_p [OF k] by simp
    also have "\<dots> = (a @ [0]) ! k" using c(3) uP in_p [OF k] k by (simp add: wrote_def)
    finally show ?thesis .
  qed
  then have "strings_at t d (unat w # arg_addrs (unat w) as) (a # as)" by (intro strings_at_Cons t(7)) blast
  moreover have "push_args d (a # as) argc sp s = Val (Some (e, w # ps), t)"
    unfolding push_args.simps Let_def w_def [symmetric] using c(1) t(1) Cons.prems(6) by simp
  moreover have "umem t d x = umem s d x" if x: "user s d (x div 4096)" "\<not> (unat e \<le> x \<and> x < unat sp)" for x
  proof -
    have "\<not> (unat e \<le> x \<and> x < unat w)" using x(2) v by linarith
    then have "umem t d x = umem s1 d x" using t(6) x(1) by (simp add: u)
    moreover have "\<not> (unat w \<le> x \<and> x < unat w + length (a @ [0]))"
      using x(2) t(3) v room_bounds(1) [of a] by auto
    ultimately show ?thesis using c(3) x(1) by (auto simp: wrote_def)
  qed
  moreover have "\<forall>m < 1048576. entry t d m = entry s d m" using t(5) c(3) by (simp add: wrote_def)
  ultimately show ?case using t(2-4) v by (intro exI [of _ t] exI [of _ e] exI [of _ "w # ps"]) auto
qed

section \<open>The two pages\<close>

lemma clear_user_bit:
  "(x AND NOT PTE_U) AND PTE_P = x AND PTE_P" "PTE_ADDR (x AND NOT PTE_U) = PTE_ADDR x" "(x AND NOT PTE_U) AND PTE_U = 0"
proof -
  have u: "PTE_U = push_bit 2 1" and p: "PTE_P = push_bit 0 1" by (simp_all add: PTE_U_def PTE_P_def)
  have m: "(0xFFF :: uint) = mask 12" by (simp add: mask_eq_exp_minus_1)
  show "(x AND NOT PTE_U) AND PTE_P = x AND PTE_P" unfolding u p by (rule bit_word_eqI) (auto simp: bit_simps)
  have b: "bit PTE_U n \<longleftrightarrow> n = 2" if "n < 32" for n
    unfolding u bit_push_bit_iff bit_1_iff using that by auto
  show "PTE_ADDR (x AND NOT PTE_U) = PTE_ADDR x"
    unfolding PTE_ADDR_def m by (rule bit_word_eqI) (auto simp: bit_simps b)
  show "(x AND NOT PTE_U) AND PTE_U = 0" by (rule bit_word_eqI) (auto simp: bit_simps)
qed

lemma uvm_ok_frames:
  assumes "uvm_ok s vs d" "dir_ok t vs d" "kend t = kend s" "own t d = own s d" "user t d = user s d"
    "\<And>n. user s d n \<Longrightarrow> frame t d n = frame s d n"
  shows "uvm_ok t vs d"
proof -
  have "frames t d = frames s d" using assms(5,6) by (auto simp: frames_def)
  moreover have "inj_on (frame t d) {n. user s d n}"
    using assms(1,6) by (auto simp: uvm_ok_def inj_on_def)
  ultimately show ?thesis using assms by (simp add: uvm_ok_def)
qed

lemma clearpteu_ok:
  assumes ok: "uvm_ok s vs d" and u: "user s d (vpn a)"
  obtains t where "clearpteu d a s = Val t" "uvm_ok t vs d" "user t d = user s d"
    "\<And>n. n < 1048576 \<Longrightarrow> entry t d n = (if n = vpn a then entry s d n AND NOT PTE_U else entry s d n)"
    "\<And>x. user s d (x div 4096) \<Longrightarrow> umem t d x = umem s d x"
proof -
  note D = uvm_okD [OF ok]
  have h: "has_tab s d (vpn a div 1024)" by (rule user_has_tab [OF u])
  let ?p = "tab s d (vpn a div 1024) + 4 * PTX a"
  define t where "t = wr32 ?p (entry s d (vpn a) AND NOT PTE_U) s"
  have c: "clearpteu d a s = Val t"
    using walk_present [OF dir_okD(2) [OF D(1)] h] entry_slot(2,3) [OF D(1) h] by (simp add: clearpteu_def t_def)
  note w = write_entry [OF D(1) h, where w = "entry s d (vpn a) AND NOT PTE_U", folded t_def]
  have e: "entry t d n = (if n = vpn a then entry s d n AND NOT PTE_U else entry s d n)" if "n < 1048576" for n
    using w(2) [OF that] by simp
  have ut: "user t d n = user s d n" for n
    by (cases "n < 1048576") (auto simp: user_def e clear_user_bit)
  have f: "frame t d n = frame s d n" if "user s d n" for n
    using e [OF user_less [OF that]] by (simp add: frame_def clear_user_bit)
  have k: "kend t = kend s" by (simp add: t_def wr32_def)
  have "uvm_ok t vs d" by (rule uvm_ok_frames [OF ok w(3) k w(4)]) (use ut f in \<open>auto simp: fun_eq_iff\<close>)
  moreover have "umem t d x = umem s d x" if x: "user s d (x div 4096)" for x
  proof -
    have "page_eq s t (frame s d (x div 4096))" by (rule w(5) [OF D(2) [OF x] D(4) [OF x]])
    then show ?thesis by (simp add: umem_def f [OF x] page_eq_def)
  qed
  moreover have "user t d = user s d" by (rule ext) (rule ut)
  ultimately show thesis using that [OF c] e by blast
qed

text \<open>The guard page and the stack page, \<open>p\<close> and \<open>p + 1\<close>.\<close>

definition stack_room :: "byte list list \<Rightarrow> nat" where "stack_room as = args_room as + 4 * (length as + 4)"

definition stack_fits :: "byte list list \<Rightarrow> bool" where
  "stack_fits as \<longleftrightarrow> length as \<le> MAXARG \<and> stack_room as \<le> 4096"

definition stack_words :: "nat \<Rightarrow> nat \<Rightarrow> byte list list \<Rightarrow> uint list" where
  "stack_words tp sp as =
     [0xffffffff, of_nat (length as), of_nat (sp + 12)] @ map of_nat (arg_addrs tp as) @ [0]"

lemma concat_le32_length [simp]: "length (concat (map le32 ws)) = 4 * length ws"
  by (induction ws) (simp_all add: le32_def)

lemma map_unat: "map unat ps = ns \<Longrightarrow> ps = map (of_nat :: nat \<Rightarrow> uint) ns"
  by (auto simp: comp_def)

lemma ustack_words:
  assumes "unat e = tp - args_room as" "map unat ps = arg_addrs tp as" "unat e = sp + 4 * (length as + 4)" "unat e < 4294967296"
  shows "ustack e ps = stack_words tp sp as"
proof -
  have l: "length ps = length as" using assms(2) by (metis length_arg_addrs length_map)
  have "e = of_nat (unat e)" by simp
  also have "\<dots> = of_nat sp + 4 * (of_nat (length as) + 4)" unfolding assms(3) by simp
  finally have "e - (of_nat (length as) + 1) * 4 = of_nat (sp + 12)" by (simp add: algebra_simps)
  then show ?thesis using map_unat [OF assms(2)] by (simp add: ustack_def stack_words_def l)
qed

lemma alloced_accessible:
  assumes "alloced s vs d lo hi t ws" "lo \<le> n" "n < hi"
  shows "accessible t d n"
proof -
  have e: "entry t d n = V2P (frame t d n) OR (PTE_W OR PTE_U) OR PTE_P" using assms by (simp add: alloced_def new_page_def)
  have "bit (entry t d n AND PTE_U) 2" "bit (entry t d n AND PTE_P) 0" unfolding e
    by (simp_all add: PTE_U_def PTE_P_def bit_simps)
  then show ?thesis by (auto simp: accessible_def)
qed

text \<open>What \<open>exec_stack\<close> has before it pushes the strings.\<close>

lemma stack_pages:
  assumes ok: "uvm_ok s vs d" and kp: "kernel_private s d" and p: "page_up sz = p" "p + 2 < 524288"
    and free: "\<forall>m. p \<le> m \<and> m < p + 2 \<longrightarrow> \<not> user s d m"
  obtains r t ws where "allocuvm d (PGROUNDUP sz) (PGROUNDUP sz + 2 * of_nat PGSIZE) s = Val (r, t)"
    "r = 0 \<and> length vs < 4 \<or>
     r = PGROUNDUP sz + 2 * of_nat PGSIZE \<and> unat r = 4096 * (p + 2) \<and> (\<exists>u. clearpteu d (r - 2 * of_nat PGSIZE) t = Val u \<and>
       uvm_ok u ws d \<and> kernel_private u d \<and> \<not> accessible u d p \<and> page_open u d (p + 1) \<and>
       (\<forall>n < p. entry u d n = entry s d n) \<and> (\<forall>n < p. user s d n \<longrightarrow> user u d n) \<and>
       (\<forall>x. x div 4096 < p \<and> user s d (x div 4096) \<longrightarrow> umem u d x = umem s d x))"
proof -
  have b: "unat sz + 4095 < 4294967296" using p unat_lt_32 [of sz] unfolding page_up_def by linarith
  have z: "unat (PGROUNDUP sz) = 4096 * p"
    using vpn_page_up [OF b] unat_aligned [OF PGROUNDUP_props(1) [OF b]] p(1) by simp
  then have z2: "unat (PGROUNDUP sz + 2 * of_nat PGSIZE) = 4096 * (p + 2)"
    using p(2) by (simp add: PGSIZE_def unat_add_uint)
  have pu: "page_up (PGROUNDUP sz) = p" "page_up (PGROUNDUP sz + 2 * of_nat PGSIZE) = p + 2"
    unfolding page_up_def z z2 by (simp_all add: div_nat_eqI)
  have lt: "PGROUNDUP sz < PGROUNDUP sz + 2 * of_nat PGSIZE" "PGROUNDUP sz + 2 * of_nat PGSIZE < KERNBASE"
    unfolding word_less_nat_alt z z2 using p(2) by (simp_all add: KERNBASE_def)
  obtain r t ws where a: "allocuvm d (PGROUNDUP sz) (PGROUNDUP sz + 2 * of_nat PGSIZE) s = Val (r, t)"
      "r = PGROUNDUP sz + 2 * of_nat PGSIZE \<and> alloced s vs d p (p + 2) t ws \<or>
       r = 0 \<and> kept s vs d p (p + 2) t ws \<and> length vs < 2 * (p + 2 - p)"
    by (rule allocuvm_allocs [OF ok lt, unfolded pu, OF free]) (rule that)
  show thesis
  proof (cases "r = 0")
    case True
    have "PGROUNDUP sz + 2 * of_nat PGSIZE \<noteq> 0"
    proof
      assume "PGROUNDUP sz + 2 * of_nat PGSIZE = 0"
      then show False using z2 by simp
    qed
    then show ?thesis using that [OF a(1)] a(2) True by auto
  next
    case False
    then have al: "r = PGROUNDUP sz + 2 * of_nat PGSIZE" "alloced s vs d p (p + 2) t ws" using a(2) by auto
    have t: "uvm_ok t ws d" "\<And>n. n < 1048576 \<Longrightarrow> \<not> (p \<le> n \<and> n < p + 2) \<Longrightarrow> entry t d n = entry s d n"
      using al(2) by (auto simp: alloced_def)
    have vp: "vpn (r - 2 * of_nat PGSIZE) = p" by (simp add: al(1) vpn_def z)
    have up: "user t d p" using alloced_accessible [OF al(2), of p] p(2) by (simp add: accessible_user)
    obtain u where u: "clearpteu d (r - 2 * of_nat PGSIZE) t = Val u" "uvm_ok u ws d" "user u d = user t d"
        "\<And>n. n < 1048576 \<Longrightarrow> entry u d n = (if n = p then entry t d n AND NOT PTE_U else entry t d n)"
        "\<And>x. user t d (x div 4096) \<Longrightarrow> umem u d x = umem t d x"
      by (rule clearpteu_ok [of t ws d "r - 2 * of_nat PGSIZE", unfolded vp, OF t(1) up]) (rule that)
    have below: "entry u d n = entry s d n" if "n < p" for n using t(2) [of n] u(4) [of n] that p(2) by simp
    have us: "user u d n" if "n < p" "user s d n" for n using below [OF that(1)] that(2) by (simp add: user_def)
    have mem: "umem u d x = umem s d x" if x: "x div 4096 < p" "user s d (x div 4096)" for x
    proof -
      have e: "entry t d (x div 4096) = entry s d (x div 4096)" using t(2) x(1) p(2) by simp
      then have "user t d (x div 4096)" "frame t d (x div 4096) = frame s d (x div 4096)"
        using x(2) by (simp_all add: user_def frame_def)
      moreover have "page_eq s t (frame s d (x div 4096))"
        by (rule user_page_kept [OF ok x(2)]) (use al(2) in \<open>auto simp: alloced_def\<close>)
      ultimately show ?thesis using u(5) by (simp add: umem_def page_eq_def)
    qed
    have "\<not> accessible u d p" using u(4) [of p] p(2) by (simp add: accessible_def clear_user_bit)
    moreover have "page_open u d (p + 1)"
      using alloced_accessible [OF al(2), of "p + 1"] u(4) [of "p + 1"] p(2) by (simp add: page_open_def accessible_def)
    moreover have "kernel_private u d"
      using kp u(4) t(2) p(2) by (auto simp: kernel_private_def accessible_def)
    ultimately show ?thesis
      using that [OF a(1)] al(1) z2 u(1,2) below us mem by (metis (no_types, lifting))
  qed
qed

lemma stack_end:
  fixes e :: uint
  assumes "n \<le> 32" "4 * (n + 4) \<le> unat e"
  shows "unat (e - (3 + of_nat n + 1) * 4) = unat e - 4 * (n + 4)"
proof -
  have w: "(3 + of_nat n + 1) * 4 = (of_nat (4 * (n + 4)) :: uint)" by (simp add: algebra_simps)
  have u: "unat (of_nat (4 * (n + 4)) :: uint) = 4 * (n + 4)" by (rule unat_of_nat_uint) (use assms(1) in simp)
  show ?thesis unfolding w unat_sub_uint u using assms(2) by simp
qed

lemma length_ustack: "length (ustack e ps) = length ps + 4"
  by (simp add: ustack_def)

text \<open>The strings and the vector, above a closed page.\<close>

lemma push_all_fits:
  assumes ok: "uvm_ok u ws d" "kernel_private u d" "\<not> accessible u d p" "page_open u d (p + 1)"
    and tp: "unat tp = 4096 * (p + 2)" and len: "\<forall>a \<in> set as. length a < 2147483648"
    and push: "push_args d as 0 tp u = Val (Some (e, ps), t)"
    and copy: "copyout_bytes d (e - (3 + of_nat (length as) + 1) * 4) (concat (map le32 (ustack e ps))) t = Val (r, t')" "\<not> r < 0"
  shows "stack_fits as"
proof -
  have P: "p + 1 < 524288" using ok(4) by (simp add: page_open_def)
  have a: "length as \<le> MAXARG" "4096 * (p + 1) + args_room as \<le> unat tp"
    using push_args_fits [OF ok(1,2), of "p + 1" tp as 0 e ps t] ok(3) P tp len push by auto
  have "4 dvd unat tp" unfolding tp by (rule dvd_mult2) simp
  then have m: "unat tp mod 4 = 0" by simp
  have up: "unat tp \<le> 4096 * (p + 1) + 4096" by (simp add: tp)
  have "0 + length as \<le> MAXARG" using a(1) by simp
  from push_args_ok [OF ok(1,4) up m a(2) this] obtain t2 e2 ps2 where
    k2: "push_args d as 0 tp u = Val (Some (e2, ps2), t2)" "uvm_ok t2 ws d" "unat e2 = unat tp - args_room as"
      "map unat ps2 = arg_addrs (unat tp) as" "\<forall>m < 1048576. entry t2 d m = entry u d m" by blast
  have "e2 = e" "ps2 = ps" "t2 = t" using push k2(1) by simp_all
  note k = k2(2-5) [unfolded this]
  have n: "length ps = length as" using k(3) by (metis length_arg_addrs length_map)
  have acc: "accessible t d m = accessible u d m" if "m < 1048576" for m using k(4) that by (simp add: accessible_def)
  have e: "4096 * (p + 1) \<le> unat e" using a(2) k(2) by linarith
  have v: "unat (e - (3 + of_nat (length as) + 1) * 4) = unat e - 4 * (length as + 4)"
    by (rule stack_end) (use a(1) e in \<open>simp_all add: MAXARG_def\<close>)
  let ?b = "concat (map le32 (ustack e ps))"
  have l: "length ?b = 4 * (length as + 4)" by (simp only: concat_le32_length length_ustack n)
  have ne: "?b \<noteq> []" by (simp add: ustack_def le32_def)
  have "kernel_private t d" using ok(2) acc by (simp add: kernel_private_def)
  from copyout_bytes_inside [OF k(1) this copy ne]
  have i: "\<forall>k < 4 * (length as + 4). accessible t d ((unat e - 4 * (length as + 4) + k) div 4096)"
    unfolding v l by blast
  have "4096 * (p + 1) \<le> unat e - 4 * (length as + 4)"
    by (rule above_guard [OF _ _ i]) (use ok(3) acc [of p] P e a(1) in \<open>simp_all add: MAXARG_def\<close>)
  moreover have "4 * (length as + 4) \<le> unat e" using e a(1) by (simp add: MAXARG_def)
  moreover have "unat e + args_room as = unat tp" using k(2) a(2) by simp
  ultimately have "args_room as + 4 * (length as + 4) \<le> 4096" unfolding tp by simp
  then show ?thesis using a(1) by (simp add: stack_fits_def stack_room_def)
qed

lemma arg_addrs_bounds:
  assumes "args_room as \<le> tp" "i < length as"
  shows "tp - args_room as \<le> arg_addrs tp as ! i" "arg_addrs tp as ! i + length (as ! i) < tp"
  using assms
proof (induction as arbitrary: tp i)
  case (Cons a as)
  note r = room_bounds(1) [of a]
  {
    case 1
    show ?case
      by (cases i) (use 1 Cons.IH(1) [of "tp - room a" "i - 1"] in auto)
  next
    case 2
    have "arg_addrs (tp - room a) as ! j + length (as ! j) < tp - room a" if "i = Suc j" for j
      by (rule Cons.IH(2)) (use 2 that in auto)
    then show ?case using 2 r by (cases i) force+
  }
qed simp_all

lemma push_all_ok:
  assumes ok: "uvm_ok u ws d" "page_open u d (p + 1)" and tp: "unat tp = 4096 * (p + 2)" and fits: "stack_fits as"
  obtains e ps s t sp where "push_args d as 0 tp u = Val (Some (e, ps), s)"
    "sp = e - (3 + of_nat (length as) + 1) * 4" "unat sp = 4096 * (p + 2) - stack_room as"
    "copyout_bytes d sp (concat (map le32 (ustack e ps))) s = Val (0, t)" "uvm_ok t ws d"
    "strings_at t d (arg_addrs (4096 * (p + 2)) as) as"
    "\<forall>k < 4 * (length as + 4). umem t d (unat sp + k) = concat (map le32 (stack_words (4096 * (p + 2)) (unat sp) as)) ! k"
    "\<forall>m < 1048576. entry t d m = entry u d m"
    "\<forall>x. user u d (x div 4096) \<and> x div 4096 < p + 1 \<longrightarrow> umem t d x = umem u d x"
proof -
  have P: "p + 1 < 524288" "accessible u d (p + 1)" using ok(2) by (simp_all add: page_open_def)
  have f: "length as \<le> 32" "args_room as + 4 * (length as + 4) \<le> 4096"
    using fits by (simp_all add: stack_fits_def stack_room_def MAXARG_def)
  have "4 dvd unat tp" unfolding tp by (rule dvd_mult2) simp
  then have m: "unat tp mod 4 = 0" by simp
  have up: "unat tp \<le> 4096 * (p + 1) + 4096" "4096 * (p + 1) + args_room as \<le> unat tp" using f(2) by (simp_all add: tp)
  have "0 + length as \<le> MAXARG" using f(1) by (simp add: MAXARG_def)
  from push_args_ok [OF ok up(1) m up(2) this] obtain s e ps where
    k: "push_args d as 0 tp u = Val (Some (e, ps), s)" "uvm_ok s ws d" "unat e = 4096 * (p + 2) - args_room as"
      "map unat ps = arg_addrs (4096 * (p + 2)) as" "\<forall>m < 1048576. entry s d m = entry u d m"
      "\<forall>x. user u d (x div 4096) \<and> \<not> (unat e \<le> x \<and> x < 4096 * (p + 2)) \<longrightarrow> umem s d x = umem u d x"
      "strings_at s d (arg_addrs (4096 * (p + 2)) as) as"
    unfolding tp by blast
  define sp where "sp = e - (3 + of_nat (length as) + 1) * 4"
  have e: "4 * (length as + 4) \<le> unat e" "unat e + args_room as = 4096 * (p + 2)" using k(3) f(2) by simp_all
  have v: "unat sp = unat e - 4 * (length as + 4)" unfolding sp_def by (rule stack_end [OF f(1) e(1)])
  have sp: "unat sp = 4096 * (p + 2) - stack_room as" unfolding v k(3) stack_room_def by simp
  have lo: "4096 * (p + 1) \<le> unat sp" using sp f(2) by (simp add: stack_room_def)
  have ue: "unat e = unat sp + 4 * (length as + 4)" using v e(1) by simp
  let ?b = "concat (map le32 (ustack e ps))"
  have n: "length ps = length as" using k(4) by (metis length_arg_addrs length_map)
  have l: "length ?b = 4 * (length as + 4)" by (simp only: concat_le32_length length_ustack n)
  have w: "ustack e ps = stack_words (4096 * (p + 2)) (unat sp) as"
    by (rule ustack_words [OF k(3,4) ue]) (rule unat_lt_32)
  have su: "user s d = user u d" by (rule user_cong) (use k(5) in simp)
  have acc: "accessible s d (p + 1)" using P k(5) by (simp add: accessible_def)
  have in_p: "(unat sp + j) div 4096 = p + 1" if "j < 4 * (length as + 4)" for j
    by (rule in_page) (use that lo ue e(2) in simp_all)
  have hi: "unat sp + length ?b \<le> 2147483648" unfolding l using ue e(2) P(1) by simp
  have "\<forall>j < length ?b. accessible s d ((unat sp + j) div 4096)" unfolding l using in_p acc by simp
  from copyout_bytes_ok [OF k(2) hi this] obtain t where
    t: "copyout_bytes d sp ?b s = Val (0, t)" "uvm_ok t ws d" "wrote s d (unat sp) ?b t" by blast
  have pu: "user u d (p + 1)" using accessible_user P by blast
  have vec: "umem t d (unat sp + j) = ?b ! j" if "j < 4 * (length as + 4)" for j
    using t(3) pu in_p [OF that] that l by (simp add: wrote_def su)
  have up_e: "umem t d x = umem s d x" if "unat e \<le> x" "x < 4096 * (p + 2)" for x
  proof -
    have "x div 4096 = p + 1" by (rule in_page) (use that lo ue in simp_all)
    then show ?thesis using t(3) pu that(1) ue l by (simp add: wrote_def su)
  qed
  have "strings_at t d (arg_addrs (4096 * (p + 2)) as) as"
    unfolding strings_at_def
  proof (intro allI impI)
    fix i j assume ij: "i < length as" "j < Suc (length (as ! i))"
    have "args_room as \<le> 4096 * (p + 2)" using e(2) by simp
    note b = arg_addrs_bounds [OF this ij(1)]
    have "umem t d (arg_addrs (4096 * (p + 2)) as ! i + j) = umem s d (arg_addrs (4096 * (p + 2)) as ! i + j)"
      by (rule up_e) (use b ij(2) k(3) in linarith)+
    then show "umem t d (arg_addrs (4096 * (p + 2)) as ! i + j) = (as ! i @ [0]) ! j"
      using k(7) ij by (simp add: strings_at_def)
  qed
  moreover have "umem t d x = umem u d x" if x: "user u d (x div 4096)" "x div 4096 < p + 1" for x
  proof -
    have "x < 4096 * (p + 1)" using x(2) by (simp add: div_less_iff_less_mult)
    then have "x < unat sp" "x < unat e" using lo ue by simp_all
    then show ?thesis using t(3) k(6) x(1) by (auto simp: wrote_def su)
  qed
  moreover have "\<forall>m < 1048576. entry t d m = entry u d m" using t(3) k(5) by (simp add: wrote_def)
  ultimately show thesis using that [OF k(1) sp_def sp t(1,2)] vec w by simp
qed

end
