(* ===== verification/Xv6_Execargs.thy ===== *)
theory Xv6_Execargs
  imports Xv6_Execstack
begin

text \<open>What a new program finds on its stack.\<close>

unbundle bit_operations_syntax

lemma page_top: "p + 2 < 524288 \<Longrightarrow> unat (r :: uint) = 4096 * (p + 2) \<Longrightarrow> r = of_nat (4096 * (p + 2))"
proof -
  assume a: "p + 2 < 524288" "unat r = 4096 * (p + 2)"
  have "unat (of_nat (4096 * (p + 2)) :: uint) = 4096 * (p + 2)" by (rule unat_of_nat_uint) (use a(1) in simp)
  then show "r = of_nat (4096 * (p + 2))" unfolding word_unat_eq_iff a(2) by (rule sym)
qed

text \<open>
  C13: the stack of a new program.  On an address space in which every user page has a page of memory
  of its own, the kernel's pages are closed to the user and the two pages above the program are free,
  \<open>exec\<close> builds a stack only when there are at most 32 arguments and they fit, with their NULs, the padding
  to words and the argument vector, into one page; and then, with four free pages, it does.  The stack
  pointer is at the word 0xffffffff, followed by \<open>argc\<close>, the address of the vector, the vector and 0; entry \<open>i\<close> of
  the vector points to the bytes of argument \<open>i\<close> and their NUL; the page below the stack is closed; and
  the program and its page table entries are as before.
\<close>

theorem exec_stack_layout:
  assumes ok: "uvm_ok s vs d" and kp: "kernel_private s d" and hi: "page_up sz + 2 < 524288"
    and free: "\<forall>m. page_up sz \<le> m \<and> m < page_up sz + 2 \<longrightarrow> \<not> user s d m"
    and len: "\<forall>a \<in> set args. length a < 2147483648"
  shows "(exec_stack d args sz s = Val (Some r, t0) \<longrightarrow> stack_fits args) \<and>
    (stack_fits args \<and> 4 \<le> length vs \<longrightarrow>
      (\<exists>t ws sp. exec_stack d args sz s = Val (Some (of_nat (4096 * (page_up sz + 2)), sp), t) \<and> uvm_ok t ws d \<and>
        unat sp = 4096 * (page_up sz + 2) - stack_room args \<and>
        strings_at t d (arg_addrs (4096 * (page_up sz + 2)) args) args \<and>
        (\<forall>k < 4 * (length args + 4). umem t d (unat sp + k) =
           concat (map le32 (stack_words (4096 * (page_up sz + 2)) (unat sp) args)) ! k) \<and>
        \<not> accessible t d (page_up sz) \<and> accessible t d (page_up sz + 1) \<and>
        (\<forall>n < page_up sz. entry t d n = entry s d n) \<and>
        (\<forall>x. x div 4096 < page_up sz \<and> user s d (x div 4096) \<longrightarrow> umem t d x = umem s d x)))"
proof -
  let ?p = "page_up sz" and ?n = "PGROUNDUP sz + 2 * of_nat PGSIZE"
  obtain q s1 ws where a: "allocuvm d (PGROUNDUP sz) ?n s = Val (q, s1)"
    "q = 0 \<and> length vs < 4 \<or> q = ?n \<and> unat q = 4096 * (?p + 2) \<and> (\<exists>u. clearpteu d (q - 2 * of_nat PGSIZE) s1 = Val u \<and>
       uvm_ok u ws d \<and> kernel_private u d \<and> \<not> accessible u d ?p \<and> page_open u d (?p + 1) \<and>
       (\<forall>n < ?p. entry u d n = entry s d n) \<and> (\<forall>n < ?p. user s d n \<longrightarrow> user u d n) \<and>
       (\<forall>x. x div 4096 < ?p \<and> user s d (x div 4096) \<longrightarrow> umem u d x = umem s d x))"
    by (rule stack_pages [OF ok kp refl hi free]) (rule that)
  show ?thesis
  proof (cases "q = 0")
    case True
    moreover have "length vs < 4" using a(2) True by (metis mult_is_0 unat_0 zero_neq_numeral add_is_0)
    ultimately show ?thesis using a(1) by (simp add: exec_stack_def Let_def)
  next
    case False
    then obtain u where q: "unat q = 4096 * (?p + 2)" and
      u: "clearpteu d (q - 2 * of_nat PGSIZE) s1 = Val u" "uvm_ok u ws d" "kernel_private u d" "\<not> accessible u d ?p"
        "page_open u d (?p + 1)" "\<forall>n < ?p. entry u d n = entry s d n" "\<forall>n < ?p. user s d n \<longrightarrow> user u d n"
        "\<forall>x. x div 4096 < ?p \<and> user s d (x div 4096) \<longrightarrow> umem u d x = umem s d x"
      using a(2) by blast
    have run: "exec_stack d args sz s = andthen (push_args d args 0 q u) (\<lambda>(res, s3).
        case res of None \<Rightarrow> Val (None, s3)
        | Some (sp, ps) \<Rightarrow>
            andthen (copyout_bytes d (sp - (3 + of_nat (length args) + 1) * 4) (concat (map le32 (ustack sp ps))) s3) (\<lambda>(r, s4).
              if r < 0 then Val (None, s4) else Val (Some (q, sp - (3 + of_nat (length args) + 1) * 4), s4)))"
      unfolding exec_stack_def Let_def a(1) using False u(1) by simp
    have "stack_fits args" if x: "exec_stack d args sz s = Val (Some r, t0)"
    proof -
      obtain res s3 where c: "push_args d args 0 q u = Val (res, s3)" using x unfolding run by auto
      then obtain e ps where res: "res = Some (e, ps)" using x unfolding run by (cases res) auto
      obtain c4 s4 where c4: "copyout_bytes d (e - (3 + of_nat (length args) + 1) * 4) (concat (map le32 (ustack e ps))) s3 = Val (c4, s4)"
          "\<not> c4 < 0"
        using x unfolding run c res by (auto split: if_splits)
      show ?thesis by (rule push_all_fits [OF u(2-5) q len c [unfolded res] c4])
    qed
    moreover have "\<exists>t ws sp. exec_stack d args sz s = Val (Some (of_nat (4096 * (?p + 2)), sp), t) \<and> uvm_ok t ws d \<and>
        unat sp = 4096 * (?p + 2) - stack_room args \<and> strings_at t d (arg_addrs (4096 * (?p + 2)) args) args \<and>
        (\<forall>k < 4 * (length args + 4). umem t d (unat sp + k) =
           concat (map le32 (stack_words (4096 * (?p + 2)) (unat sp) args)) ! k) \<and>
        \<not> accessible t d ?p \<and> accessible t d (?p + 1) \<and> (\<forall>n < ?p. entry t d n = entry s d n) \<and>
        (\<forall>x. x div 4096 < ?p \<and> user s d (x div 4096) \<longrightarrow> umem t d x = umem s d x)" if f: "stack_fits args"
    proof -
      obtain e ps s3 t sp where k: "push_args d args 0 q u = Val (Some (e, ps), s3)"
        "sp = e - (3 + of_nat (length args) + 1) * 4" "unat sp = 4096 * (?p + 2) - stack_room args"
        "copyout_bytes d sp (concat (map le32 (ustack e ps))) s3 = Val (0, t)" "uvm_ok t ws d"
        "strings_at t d (arg_addrs (4096 * (?p + 2)) args) args"
        "\<forall>k < 4 * (length args + 4). umem t d (unat sp + k) = concat (map le32 (stack_words (4096 * (?p + 2)) (unat sp) args)) ! k"
        "\<forall>m < 1048576. entry t d m = entry u d m"
        "\<forall>x. user u d (x div 4096) \<and> x div 4096 < ?p + 1 \<longrightarrow> umem t d x = umem u d x"
        by (rule push_all_ok [OF u(2,5) q f]) (rule that)
      have "exec_stack d args sz s = Val (Some (q, sp), t)" unfolding run using k(1,4) by (simp add: k(2))
      then have x: "exec_stack d args sz s = Val (Some (of_nat (4096 * (?p + 2)), sp), t)" using page_top [OF hi q] by simp
      have acc: "accessible t d m = accessible u d m" if "m < 1048576" for m using k(8) that by (simp add: accessible_def)
      have "\<not> accessible t d ?p" "accessible t d (?p + 1)" using acc u(4,5) hi by (simp_all add: page_open_def)
      moreover have "\<forall>n < ?p. entry t d n = entry s d n" using k(8) u(6) hi by simp
      moreover have "\<forall>x. x div 4096 < ?p \<and> user s d (x div 4096) \<longrightarrow> umem t d x = umem s d x" using k(9) u(7,8) by simp
      ultimately show ?thesis using x k(3,5,6,7) by blast
    qed
    ultimately show ?thesis by blast
  qed
qed

text \<open>An empty address space with four free pages, and the arguments \<open>ls\<close> and \<open>-a\<close>.\<close>

lemma empty_dir_four:
  "\<exists>s :: kstate. uvm_ok s [0x80105000, 0x80104000, 0x80103000, 0x80102000] 0x80101000 \<and> (\<forall>n. \<not> user s 0x80101000 n) \<and>
     kernel_private s 0x80101000"
proof -
  let ?d = "0x80101000 :: uint"
  have e: "\<forall>n. \<not> user ex_kstate ?d n" "own ex_kstate ?d = {?d}"
    by (auto simp: user_def entry_def own_def has_tab_def pde_def ex_kstate_def ld32_def)
  have p: "page_ok (kend ex_kstate) 0x80102000" "page_ok (kend ex_kstate) 0x80103000"
    "page_ok (kend ex_kstate) 0x80104000" "page_ok (kend ex_kstate) 0x80105000"
    by (simp_all add: page_ok_def ex_kstate_def PGSIZE_def KERNBASE_def PHYSTOP_def)
  obtain s :: kstate where s: "uvm_ok s [0x80102000] ?d" "\<forall>n. \<not> user s ?d n" "own s ?d = {?d}" "kend s = kend ex_kstate"
    using empty_dir_add [OF empty_dir_ok e p(1)] by auto
  obtain t :: kstate where t: "uvm_ok t [0x80103000, 0x80102000] ?d" "\<forall>n. \<not> user t ?d n" "own t ?d = {?d}" "kend t = kend s"
    using empty_dir_add [OF s(1-3), of "0x80103000"] s(4) p(2) by auto
  obtain u :: kstate where u: "uvm_ok u [0x80104000, 0x80103000, 0x80102000] ?d" "\<forall>n. \<not> user u ?d n" "own u ?d = {?d}" "kend u = kend t"
    using empty_dir_add [OF t(1-3), of "0x80104000"] s(4) t(4) p(3) by auto
  obtain v :: kstate where v: "uvm_ok v [0x80105000, 0x80104000, 0x80103000, 0x80102000] ?d" "\<forall>n. \<not> user v ?d n" "own v ?d = {?d}"
    using empty_dir_add [OF u(1-3), of "0x80105000"] s(4) t(4) u(4) p(4) by auto
  have "\<not> has_tab v ?d (n div 1024)" if "n < 1048576" for n
    using dir_okD(5) [OF uvm_okD(1) [OF v(1)], of "n div 1024"] own_tab [of "n div 1024" v ?d] v(3) div1024_less [OF that] by auto
  then have "kernel_private v ?d" by (simp add: kernel_private_def accessible_def entry_def)
  then show ?thesis using v(1,2) by blast
qed

theorem exec_stack_layout_witness:
  "\<exists>(s :: kstate) t sp. exec_stack 0x80101000 [[108, 115], [45, 97]] 0 s = Val (Some (8192, sp), t) \<and> unat sp = 8160 \<and>
     umem t 0x80101000 8188 = 108 \<and> umem t 0x80101000 8164 = 2"
proof -
  let ?d = "0x80101000 :: uint" and ?a = "[[108, 115], [45, 97]] :: byte list list"
  obtain s :: kstate where s: "uvm_ok s [0x80105000, 0x80104000, 0x80103000, 0x80102000] ?d" "\<forall>n. \<not> user s ?d n" "kernel_private s ?d"
    using empty_dir_four by blast
  have p: "page_up 0 = 0" by (simp add: page_up_def)
  have f: "stack_room ?a = 32" "stack_fits ?a"
    by (simp_all add: stack_fits_def stack_room_def args_room_def room_def MAXARG_def)
  obtain t sp where t: "exec_stack ?d ?a 0 s = Val (Some (8192, sp), t)" "unat sp = 8160"
      "strings_at t ?d (arg_addrs 8192 ?a) ?a"
      "\<forall>k < 24. umem t ?d (8160 + k) = concat (map le32 (stack_words 8192 8160 ?a)) ! k"
    using exec_stack_layout [OF s(1,3), of 0 ?a] s(2) f p by auto
  have "umem t ?d 8188 = 108" using t(3) by (force simp: strings_at_def room_def)
  moreover have "umem t ?d 8164 = 2" using t(4) [rule_format, of 4] by (simp add: stack_words_def le32_def)
  ultimately show ?thesis using t(1,2) by blast
qed

end
