(* ===== verification/Xv6_Blocks.thy ===== *)
theory Xv6_Blocks
  imports Xv6_Fs
begin

text \<open>The block allocator: the bitmap as a set of used blocks.\<close>

unbundle bit_operations_syntax

lemma BPB_val: "BPB = 4096" and BSIZE_val: "BSIZE = 512"
  by (simp_all add: BPB_def BSIZE_def)

section \<open>One bit\<close>

lemma bit_used_iff: "bit_used d bi \<longleftrightarrow> bit (d (bi div 8)) (bi mod 8)"
proof -
  have "d (bi div 8) AND push_bit (bi mod 8) 1 \<noteq> 0 \<longleftrightarrow> bit (d (bi div 8)) (bi mod 8)"
    by (metis bit_iff_and_push_bit_not_eq_0)
  then show ?thesis by (simp add: bit_used_def)
qed

definition mark_bit :: "memory \<Rightarrow> nat \<Rightarrow> memory" where
  "mark_bit d bi = d(bi div 8 := d (bi div 8) OR push_bit (bi mod 8) 1)"

definition clear_bit :: "memory \<Rightarrow> nat \<Rightarrow> memory" where
  "clear_bit d bi = d(bi div 8 := d (bi div 8) AND NOT (push_bit (bi mod 8) 1))"

lemma div_mod_8: "a div 8 = b div 8 \<Longrightarrow> a mod 8 = b mod 8 \<Longrightarrow> a = (b :: nat)"
  by (metis div_mult_mod_eq)

lemma mark_bit_used: "bit_used (mark_bit d bi) bj \<longleftrightarrow> bj = bi \<or> bit_used d bj"
proof -
  have "bi mod 8 < 8" "bj mod 8 < 8" by simp_all
  then show ?thesis
    using div_mod_8 [of bj bi] by (auto simp: bit_used_iff mark_bit_def bit_simps)
qed

lemma clear_bit_used: "bit_used (clear_bit d bi) bj \<longleftrightarrow> bj \<noteq> bi \<and> bit_used d bj"
proof -
  have "bi mod 8 < 8" "bj mod 8 < 8" by simp_all
  then show ?thesis
    using div_mod_8 [of bj bi] by (auto simp: bit_used_iff clear_bit_def bit_simps)
qed

section \<open>Used blocks\<close>

definition used :: "'a fs_scheme \<Rightarrow> uint \<Rightarrow> nat \<Rightarrow> bool" where
  "used s dev b \<longleftrightarrow> bit_used (blk s dev (BBLOCK b s)) (b mod BPB)"

text \<open>
  The layout of \<open>fs.h\<close>: the data blocks are those from \<open>d\<close> to before the size, the bitmap lies before
  them, and what is before them is not free.
\<close>

definition layout :: "'a fs_scheme \<Rightarrow> uint \<Rightarrow> nat \<Rightarrow> bool" where
  "layout s dev d \<longleftrightarrow> unat (sb_bmapstart (sb s)) + unat (sb_size (sb s)) div BPB < d \<and> d \<le> unat (sb_size (sb s)) \<and>
     (\<forall>b < d. used s dev b)"

lemma unat_add_no_wrap: "unat a + unat b < 4294967296 \<Longrightarrow> unat (a + b :: uint) = unat a + unat b"
  by (simp add: unat_add_uint)

lemma BBLOCK_less:
  assumes "layout s dev d" "b < unat (sb_size (sb s))"
  shows "unat (BBLOCK b s) = unat (sb_bmapstart (sb s)) + b div BPB" "unat (BBLOCK b s) < d"
proof -
  have "b div BPB \<le> unat (sb_size (sb s)) div BPB" using assms(2) by (simp add: div_le_mono)
  then have lt: "unat (sb_bmapstart (sb s)) + b div BPB < d" using assms(1) by (simp add: layout_def)
  also have "d \<le> unat (sb_size (sb s))" using assms(1) by (simp add: layout_def)
  also have "\<dots> < 4294967296" by (rule unat_lt_32)
  finally have w: "unat (sb_bmapstart (sb s)) + b div BPB < 4294967296" .
  then have k: "unat (of_nat (b div BPB) :: uint) = b div BPB" by (intro unat_of_nat_uint) simp
  show e: "unat (BBLOCK b s) = unat (sb_bmapstart (sb s)) + b div BPB"
    unfolding BBLOCK_def using unat_add_no_wrap [of "of_nat (b div BPB)" "sb_bmapstart (sb s)"] w k by simp
  show "unat (BBLOCK b s) < d" using lt unfolding e .
qed

lemma BBLOCK_div: "b div BPB = c div BPB \<Longrightarrow> BBLOCK b s = BBLOCK c s"
  by (simp add: BBLOCK_def)

text \<open>What \<open>balloc\<close> does: the first free block is marked and zeroed.\<close>

definition alloc_block :: "uint \<Rightarrow> nat \<Rightarrow> 'a fs_scheme \<Rightarrow> 'a fs_scheme" where
  "alloc_block dev b s = bzero dev (of_nat b) (wblk dev (BBLOCK b s) (mark_bit (blk s dev (BBLOCK b s)) (b mod BPB)) s)"

lemma balloc_loop_spec:
  assumes "b mod BPB = 0" "\<forall>c < b. used s dev c"
  shows "balloc_loop dev b s =
    (if \<forall>c < unat (sb_size (sb s)). used s dev c then Panic ''balloc: out of blocks''
     else let c = (LEAST c. \<not> used s dev c) in Val (of_nat c, alloc_block dev c s))"
  using assms
proof (induction dev b s rule: balloc_loop.induct)
  case (1 dev b s)
  let ?n = "unat (sb_size (sb s))"
  note sl = balloc_loop.simps [of dev b s]
  show ?case
  proof (cases "b < ?n")
    case False
    then have "\<forall>c < ?n. used s dev c" using 1(3) by auto
    then show ?thesis using False sl by simp
  next
    case lt: True
    let ?d = "blk s dev (BBLOCK b s)" and ?m = "min BPB (?n - b)"
    have u: "used s dev (b + bi) = bit_used ?d bi" if "bi < ?m" for bi
    proof -
      have "(b + bi) mod BPB = bi" using that 1(2) by (simp add: mod_add_eq [symmetric] BPB_val)
      moreover have "(b + bi) div BPB = b div BPB"
      proof -
        obtain q where q: "b = BPB * q" using 1(2) by (auto simp: mod_eq_0_iff_dvd elim: dvdE)
        then show ?thesis using that by (simp add: BPB_val)
      qed
      ultimately show ?thesis unfolding used_def using BBLOCK_div [of "b + bi" b s] by simp
    qed
    show ?thesis
    proof (cases "scan (\<lambda>bi. \<not> bit_used ?d bi) [0..<?m]")
      case None
      have all: "used s dev c" if "c < min (b + BPB) ?n" for c
      proof (cases "c < b")
        case False
        then have "c - b < ?m" "b + (c - b) = c" using that by auto
        then show ?thesis using u [of "c - b"] None by (simp add: scan_None)
      qed (use 1(3) in simp)
      have st: "balloc_loop dev b s = balloc_loop dev (b + BPB) s" using sl lt None by (simp add: Let_def)
      show ?thesis
      proof (cases "b + BPB \<le> ?n")
        case True
        then show ?thesis unfolding st using all 1(2) by (intro 1(1) [OF _ refl None]) (auto simp: lt BPB_val)
      next
        case False
        then have "\<forall>c < ?n. used s dev c" using all by simp
        then show ?thesis unfolding st using False by (simp add: balloc_loop.simps)
      qed
    next
      case (Some bi)
      then have bi: "bi < ?m" "\<not> bit_used ?d bi" "\<And>j. j < bi \<Longrightarrow> bit_used ?d j"
        by (auto simp: scan_Some nth_upt)
      then have nu: "\<not> used s dev (b + bi)" using u by simp
      have le: "used s dev c" if "c < b + bi" for c
      proof (cases "c < b")
        case False
        then have "c - b < bi" "b + (c - b) = c" using that by auto
        then show ?thesis using u [of "c - b"] bi by simp
      qed (use 1(3) in simp)
      have L: "(LEAST c. \<not> used s dev c) = b + bi"
        by (rule Least_equality) (use nu le in \<open>auto simp: not_less [symmetric]\<close>)
      have "(b + bi) div BPB = b div BPB" "(b + bi) mod BPB = bi"
      proof -
        obtain q where q: "b = BPB * q" using 1(2) by (auto simp: mod_eq_0_iff_dvd elim: dvdE)
        then show "(b + bi) div BPB = b div BPB" "(b + bi) mod BPB = bi" using bi(1) by (simp_all add: BPB_val)
      qed
      then have "balloc_loop dev b s = Val (of_nat (b + bi), alloc_block dev (b + bi) s)"
        using sl lt Some BBLOCK_div [of "b + bi" b s] by (simp add: Let_def alloc_block_def mark_bit_def)
      moreover have "\<not> (\<forall>c < ?n. used s dev c)" using nu bi(1) by (auto intro!: exI [of _ "b + bi"])
      ultimately show ?thesis unfolding L Let_def by simp
    qed
  qed
qed

lemma balloc_spec:
  "balloc dev s =
    (if \<forall>c < unat (sb_size (sb s)). used s dev c then Panic ''balloc: out of blocks''
     else let c = (LEAST c. \<not> used s dev c) in Val (of_nat c, alloc_block dev c s))"
  unfolding balloc_def by (rule balloc_loop_spec) simp_all

lemma blk_wblk [simp]: "blk (wblk dev b m s) e c = (if e = dev \<and> c = b then m else blk s e c)"
  by (simp add: wblk_def)

lemma wblk_same [simp]:
  "sb (wblk dev b m s) = sb s" "icache (wblk dev b m s) = icache s" "outst (wblk dev b m s) = outst s"
  "cur (wblk dev b m s) = cur s" "BBLOCK c (wblk dev b m s) = BBLOCK c s"
  by (simp_all add: wblk_def BBLOCK_def)

lemma alloc_block_same [simp]:
  "sb (alloc_block dev b s) = sb s" "icache (alloc_block dev b s) = icache s" "outst (alloc_block dev b s) = outst s"
  "cur (alloc_block dev b s) = cur s" "BBLOCK c (alloc_block dev b s) = BBLOCK c s"
  by (simp_all add: alloc_block_def bzero_def)

lemma BBLOCK_eq:
  assumes "layout s dev d" "b < unat (sb_size (sb s))" "c < unat (sb_size (sb s))" "BBLOCK b s = BBLOCK c s"
  shows "b div BPB = c div BPB"
  using BBLOCK_less(1) [OF assms(1,2)] BBLOCK_less(1) [OF assms(1,3)] assms(4) by simp

lemma div_mod_BPB: "a div BPB = b div BPB \<Longrightarrow> a mod BPB = b mod BPB \<Longrightarrow> a = b"
  by (metis div_mult_mod_eq)

lemma alloc_block_facts:
  assumes L: "layout s dev d" and b: "d \<le> b" "b < unat (sb_size (sb s))"
  shows "\<And>c. c < unat (sb_size (sb s)) \<Longrightarrow> used (alloc_block dev b s) dev c \<longleftrightarrow> c = b \<or> used s dev c"
    "layout (alloc_block dev b s) dev d"
    "\<And>k. k < BSIZE \<Longrightarrow> blk (alloc_block dev b s) dev (of_nat b) k = 0"
    "\<And>e c. \<not> (e = dev \<and> (c = of_nat b \<or> c = BBLOCK b s)) \<Longrightarrow> blk (alloc_block dev b s) e c = blk s e c"
proof -
  let ?t = "alloc_block dev b s"
  have ub: "unat (of_nat b :: uint) = b" using b(2) unat_lt_32 [of "sb_size (sb s)"] by (intro unat_of_nat_uint) linarith
  have ne: "BBLOCK c s \<noteq> of_nat b" if "c < unat (sb_size (sb s))" for c
    using BBLOCK_less(2) [OF L that] b(1) ub by auto
  show u: "used ?t dev c \<longleftrightarrow> c = b \<or> used s dev c" if c: "c < unat (sb_size (sb s))" for c
  proof (cases "BBLOCK c s = BBLOCK b s")
    case True
    then have "blk ?t dev (BBLOCK c s) = mark_bit (blk s dev (BBLOCK c s)) (b mod BPB)"
      using ne [OF b(2)] by (simp add: alloc_block_def bzero_def)
    then show ?thesis
      using BBLOCK_eq [OF L c b(2) True] div_mod_BPB [of c b] by (auto simp: used_def mark_bit_used)
  next
    case False
    then have "blk ?t dev (BBLOCK c s) = blk s dev (BBLOCK c s)" "c \<noteq> b"
      using ne [OF c] by (auto simp: alloc_block_def bzero_def)
    then show ?thesis by (simp add: used_def)
  qed
  show "layout ?t dev d" using L u unfolding layout_def by simp
  show "blk ?t dev (of_nat b) k = 0" if "k < BSIZE" for k
    using that by (simp add: alloc_block_def bzero_def memset_eq filled_def)
  show "blk ?t e c = blk s e c" if "\<not> (e = dev \<and> (c = of_nat b \<or> c = BBLOCK b s))" for e c
    using that by (auto simp: alloc_block_def bzero_def)
qed

lemma bfree_spec:
  "bfree dev b s =
    (if used s dev (unat b)
     then Val (wblk dev (BBLOCK (unat b) s) (clear_bit (blk s dev (BBLOCK (unat b) s)) (unat b mod BPB)) s)
     else Panic ''freeing free block'')"
  by (simp add: bfree_def Let_def used_def bit_used_def clear_bit_def)

lemma bfree_used:
  assumes L: "layout s dev d" and b: "unat b < unat (sb_size (sb s))" and f: "bfree dev b s = Val t"
    and c: "c < unat (sb_size (sb s))"
  shows "used t dev c \<longleftrightarrow> c \<noteq> unat b \<and> used s dev c"
proof -
  have t: "t = wblk dev (BBLOCK (unat b) s) (clear_bit (blk s dev (BBLOCK (unat b) s)) (unat b mod BPB)) s"
    using f by (simp add: bfree_spec split: if_splits)
  show ?thesis
  proof (cases "BBLOCK c s = BBLOCK (unat b) s")
    case True
    then show ?thesis
      using BBLOCK_eq [OF L c b True] div_mod_BPB [of c "unat b"] by (auto simp: used_def t clear_bit_used)
  next
    case False
    then show ?thesis by (auto simp: used_def t)
  qed
qed

text \<open>What an allocation gives, as one fact.\<close>

lemma balloc_Val:
  assumes L: "layout s dev d" and v: "balloc dev s = Val (b, t)"
  shows "d \<le> unat b" "unat b < unat (sb_size (sb s))" "\<not> used s dev (unat b)" "t = alloc_block dev (unat b) s"
    "\<And>c. c < unat b \<Longrightarrow> used s dev c"
proof -
  let ?c = "LEAST c. \<not> used s dev c"
  have ex: "\<exists>c < unat (sb_size (sb s)). \<not> used s dev c" and bt: "b = of_nat ?c" "t = alloc_block dev ?c s"
    using v by (auto simp: balloc_spec Let_def split: if_splits)
  then have n: "\<not> used s dev ?c" by (metis (mono_tags, lifting) LeastI)
  have le: "?c < unat (sb_size (sb s))" using ex by (meson Least_le le_less_trans)
  have u: "unat b = ?c" unfolding bt(1) by (rule unat_of_nat_uint, rule less_trans [OF le unat_lt_32])
  show "unat b < unat (sb_size (sb s))" "\<not> used s dev (unat b)" "t = alloc_block dev (unat b) s"
    using u le n bt(2) by simp_all
  show "used s dev c" if "c < unat b" for c using that not_less_Least [of c "\<lambda>c. \<not> used s dev c"] u by simp
  show "d \<le> unat b" using L n u by (metis layout_def not_le)
qed

text \<open>
  C33: the block allocator.  On a laid-out disk \<open>balloc\<close> panics exactly when every block is used;
  otherwise it takes the first free block, which is a data block, marks it, fills it with zeros and
  changes no other block but the one of the bitmap that holds its bit.  Freeing that block again
  restores the set of used blocks, and freeing a free block panics.
\<close>

theorem balloc_bfree:
  assumes L: "layout s dev d"
  shows "(\<forall>c < unat (sb_size (sb s)). used s dev c) \<and> balloc dev s = Panic ''balloc: out of blocks'' \<or>
    (\<exists>b t u. balloc dev s = Val (b, t) \<and> d \<le> unat b \<and> unat b < unat (sb_size (sb s)) \<and> layout t dev d \<and>
       \<not> used s dev (unat b) \<and> (\<forall>c < unat b. used s dev c) \<and>
       (\<forall>c < unat (sb_size (sb s)). used t dev c \<longleftrightarrow> c = unat b \<or> used s dev c) \<and>
       (\<forall>k < BSIZE. blk t dev b k = 0) \<and>
       (\<forall>e c. \<not> (e = dev \<and> (c = b \<or> c = BBLOCK (unat b) s)) \<longrightarrow> blk t e c = blk s e c) \<and>
       bfree dev b s = Panic ''freeing free block'' \<and>
       bfree dev b t = Val u \<and> (\<forall>c < unat (sb_size (sb s)). used u dev c \<longleftrightarrow> used s dev c))"
proof (cases "\<forall>c < unat (sb_size (sb s)). used s dev c")
  case True
  then show ?thesis by (simp add: balloc_spec)
next
  case False
  then obtain b t where bt: "balloc dev s = Val (b, t)" unfolding balloc_spec Let_def by simp
  note B = balloc_Val [OF L bt]
  note A = alloc_block_facts [OF L B(1,2), folded B(4)]
  have "used t dev (unat b)" using A(1) B(2) by simp
  then obtain u where u: "bfree dev b t = Val u" by (simp add: bfree_spec)
  have st: "sb t = sb s" by (simp add: B(4))
  have "used u dev c \<longleftrightarrow> used s dev c" if "c < unat (sb_size (sb s))" for c
    using bfree_used [OF A(2) _ u, of c] that B(2,3) A(1) [OF that] st by auto
  then show ?thesis
    using bt B A u by (intro disjI2 exI [of _ b] exI [of _ t] exI [of _ u]) (simp add: bfree_spec)
qed

section \<open>A small disk\<close>

text \<open>Eight blocks, the bitmap in block 3, the first five marked, data from block 4 on.\<close>

definition ex_fs :: fs where
  "ex_fs = \<lparr>blk = (\<lambda>e c k. if c = 3 \<and> k = 0 then 31 else 0),
     sb = \<lparr>sb_size = 8, sb_nblocks = 4, sb_ninodes = 8, sb_nlog = 0, sb_logstart = 2, sb_inodestart = 2, sb_bmapstart = 3\<rparr>,
     icache = [], cur = 1, devread = (\<lambda>_. None), devwrite = (\<lambda>_. None), outst = 0\<rparr>"

lemma ex_fs_layout: "layout ex_fs 1 4"
proof -
  have "used ex_fs 1 b" if "b < 5" for b
  proof -
    have "b = 0 \<or> b = 1 \<or> b = 2 \<or> b = 3 \<or> b = 4" using that by auto
    then show ?thesis by (auto simp: used_def bit_used_def BBLOCK_def ex_fs_def BPB_val push_bit_eq_mult)
  qed
  then show ?thesis by (simp add: layout_def ex_fs_def BPB_val)
qed

lemma balloc_bfree_witness: "\<exists>t. balloc 1 ex_fs = Val (5, t) \<and> layout t 1 4"
proof -
  have n: "\<not> used ex_fs 1 5" "unat (sb_size (sb ex_fs)) = 8"
    by (simp_all add: used_def bit_used_def BBLOCK_def ex_fs_def BPB_val push_bit_eq_mult)
  have u: "used ex_fs 1 4" by (simp add: used_def bit_used_def BBLOCK_def ex_fs_def BPB_val push_bit_eq_mult)
  obtain b t where b: "balloc 1 ex_fs = Val (b, t)" "4 \<le> unat b" "layout t 1 4" "\<not> used ex_fs 1 (unat b)"
      "\<forall>c < unat b. used ex_fs 1 c"
    using balloc_bfree [OF ex_fs_layout] n by force
  have "unat b \<noteq> 4" using b(4) u by auto
  moreover have "\<not> 5 < unat b" using b(5) n(1) by auto
  ultimately have "unat b = 5" using b(2) by linarith
  then have "b = 5" by (simp add: word_unat_eq_iff)
  then show ?thesis using b by blast
qed

end
