(* ===== verification/Xv6_Content.thy ===== *)
theory Xv6_Content
  imports Xv6_Blocks
begin

text \<open>
  What a file holds: the inode's block pointers as a map from block numbers, the bytes behind them,
  and what \<open>bmap\<close>, \<open>readi\<close> and \<open>writei\<close> do to them.
\<close>

unbundle bit_operations_syntax

section \<open>Pointers and bytes\<close>

abbreviation fdev :: "'a fs_scheme \<Rightarrow> nat \<Rightarrow> uint" where
  "fdev s ip \<equiv> i_dev (ino s ip)"

abbreviation ind :: "'a fs_scheme \<Rightarrow> nat \<Rightarrow> uint" where
  "ind s ip \<equiv> i_addrs (ino s ip) ! 12"

lemma fs_consts: "NDIRECT = 12" "NINDIRECT = 128" "MAXFILE = 140"
  by (simp_all add: NDIRECT_def NINDIRECT_def MAXFILE_def BSIZE_def)

definition ptr :: "'a fs_scheme \<Rightarrow> nat \<Rightarrow> nat \<Rightarrow> uint" where
  "ptr s ip bn =
     (if bn < 12 then i_addrs (ino s ip) ! bn
      else if ind s ip = 0 then 0 else ld32 (blk s (fdev s ip) (ind s ip)) (4 * (bn - 12)))"

definition fbyte :: "'a fs_scheme \<Rightarrow> nat \<Rightarrow> nat \<Rightarrow> byte" where
  "fbyte s ip x =
     (if ptr s ip (x div 512) = 0 then 0 else blk s (fdev s ip) (ptr s ip (x div 512)) (x mod 512))"

definition fblocks :: "'a fs_scheme \<Rightarrow> nat \<Rightarrow> uint set" where
  "fblocks s ip = {b. b \<noteq> 0 \<and> (b = ind s ip \<or> (\<exists>bn < 140. b = ptr s ip bn))}"

text \<open>A block that may belong to a file: in the data area, and marked.\<close>

definition taken :: "'a fs_scheme \<Rightarrow> uint \<Rightarrow> nat \<Rightarrow> uint \<Rightarrow> bool" where
  "taken s dev d b \<longleftrightarrow> d \<le> unat b \<and> unat b < unat (sb_size (sb s)) \<and> used s dev (unat b)"

text \<open>The blocks of the file are taken and different from each other.\<close>

definition file_ok :: "'a fs_scheme \<Rightarrow> nat \<Rightarrow> nat \<Rightarrow> bool" where
  "file_ok s ip d \<longleftrightarrow>
     layout s (fdev s ip) d \<and> ip < length (icache s) \<and> length (i_addrs (ino s ip)) = 13 \<and>
     (\<forall>b \<in> fblocks s ip. taken s (fdev s ip) d b) \<and>
     (\<forall>bn < 140. ptr s ip bn \<noteq> 0 \<longrightarrow> ptr s ip bn \<noteq> ind s ip) \<and>
     (\<forall>m < 140. \<forall>n < 140. ptr s ip m \<noteq> 0 \<and> ptr s ip m = ptr s ip n \<longrightarrow> m = n)"

text \<open>What may happen to the rest of the system while one file is read or written.\<close>

definition ext :: "'a fs_scheme \<Rightarrow> nat \<Rightarrow> nat \<Rightarrow> 'a fs_scheme \<Rightarrow> bool" where
  "ext s ip d t \<longleftrightarrow>
     sb t = sb s \<and> length (icache t) = length (icache s) \<and> (\<forall>j. j \<noteq> ip \<longrightarrow> ino t j = ino s j) \<and>
     (\<exists>ads. ino t ip = (ino s ip)\<lparr>i_addrs := ads\<rparr>) \<and>
     (\<forall>b. taken s (fdev s ip) d b \<and> b \<notin> fblocks s ip \<longrightarrow>
        taken t (fdev s ip) d b \<and> b \<notin> fblocks t ip \<and> blk t (fdev s ip) b = blk s (fdev s ip) b)"

lemma ext_refl: "ext s ip d s"
proof -
  have "ino s ip = (ino s ip)\<lparr>i_addrs := i_addrs (ino s ip)\<rparr>" by simp
  then show ?thesis unfolding ext_def by blast
qed

lemma ext_dev: "ext s ip d t \<Longrightarrow> fdev t ip = fdev s ip"
  by (auto simp: ext_def)

lemma ext_trans: "ext s ip d t \<Longrightarrow> ext t ip d u \<Longrightarrow> ext s ip d u"
proof -
  assume a: "ext s ip d t" "ext t ip d u"
  have dv: "fdev t ip = fdev s ip" using a(1) by (rule ext_dev)
  obtain ads bds where "ino t ip = (ino s ip)\<lparr>i_addrs := ads\<rparr>" "ino u ip = (ino t ip)\<lparr>i_addrs := bds\<rparr>"
    using a by (auto simp: ext_def)
  then have "ino u ip = (ino s ip)\<lparr>i_addrs := bds\<rparr>" by simp
  then show "ext s ip d u" using a unfolding ext_def dv by auto
qed

lemma ino_upd [simp]: "ip < length (icache s) \<Longrightarrow> ino (upd_ino ip f s) ip = f (ino s ip)"
  and ino_upd_other [simp]: "j \<noteq> ip \<Longrightarrow> ino (upd_ino ip f s) j = ino s j"
  and upd_ino_same [simp]: "sb (upd_ino ip f s) = sb s" "blk (upd_ino ip f s) = blk s" "outst (upd_ino ip f s) = outst s"
    "length (icache (upd_ino ip f s)) = length (icache s)" "BBLOCK c (upd_ino ip f s) = BBLOCK c s"
    "used (upd_ino ip f s) = used s" "layout (upd_ino ip f s) = layout s" "taken (upd_ino ip f s) = taken s"
  by (simp_all add: upd_ino_def BBLOCK_def fun_eq_iff used_def layout_def taken_def)

lemma zero_not_taken: "layout s dev d \<Longrightarrow> \<not> taken s dev d 0"
  by (auto simp: taken_def layout_def)

text \<open>After \<open>balloc\<close>: a zeroed block that is in nobody's file, everything else as before.\<close>

lemma balloc_fresh:
  assumes ok: "file_ok s ip d" and v: "balloc (fdev s ip) s = Val (b, t)"
  shows "icache t = icache s" "sb t = sb s" "layout t (fdev s ip) d" "taken t (fdev s ip) d b" "b \<noteq> 0"
    "\<not> taken s (fdev s ip) d b" "\<And>k. k < 512 \<Longrightarrow> blk t (fdev s ip) b k = 0"
    "\<And>c. taken s (fdev s ip) d c \<Longrightarrow> taken t (fdev s ip) d c \<and> blk t (fdev s ip) c = blk s (fdev s ip) c"
proof -
  have L: "layout s (fdev s ip) d" using ok by (simp add: file_ok_def)
  note B = balloc_Val [OF L v]
  note A = alloc_block_facts [OF L B(1,2), folded B(4)]
  show s: "icache t = icache s" "sb t = sb s" using B(4) by simp_all
  show "layout t (fdev s ip) d" by (rule A(2))
  show tk: "taken t (fdev s ip) d b" using B(1,2) A(1) s by (simp add: taken_def)
  show "b \<noteq> 0" using tk zero_not_taken [OF A(2)] by auto
  show nt: "\<not> taken s (fdev s ip) d b" using B(3) by (simp add: taken_def)
  show "blk t (fdev s ip) b k = 0" if "k < 512" for k using A(3) [of k] that by (simp add: BSIZE_val)
  show "taken t (fdev s ip) d c \<and> blk t (fdev s ip) c = blk s (fdev s ip) c" if c: "taken s (fdev s ip) d c" for c
  proof
    show "taken t (fdev s ip) d c" using c A(1) s by (simp add: taken_def)
    have "c \<noteq> b" using c nt by auto
    moreover have "c \<noteq> BBLOCK (unat b) s" using BBLOCK_less(2) [OF L B(2)] c by (auto simp: taken_def)
    ultimately show "blk t (fdev s ip) c = blk s (fdev s ip) c" using A(4) [of "fdev s ip" c] by simp
  qed
qed

lemma fblocks_ptr: "n < 140 \<Longrightarrow> ptr s ip n \<noteq> 0 \<Longrightarrow> ptr s ip n \<in> fblocks s ip"
  by (auto simp: fblocks_def)

lemma file_okD:
  assumes "file_ok s ip d"
  shows "layout s (fdev s ip) d" "ip < length (icache s)" "length (i_addrs (ino s ip)) = 13"
    "b \<in> fblocks s ip \<Longrightarrow> taken s (fdev s ip) d b"
    "n < 140 \<Longrightarrow> ptr s ip n \<noteq> 0 \<Longrightarrow> ptr s ip n \<noteq> ind s ip"
    "m < 140 \<Longrightarrow> n < 140 \<Longrightarrow> ptr s ip m \<noteq> 0 \<Longrightarrow> ptr s ip m = ptr s ip n \<Longrightarrow> m = n"
  using assms by (auto simp: file_ok_def)

lemma file_ok_cong:
  assumes "file_ok s ip d" "layout t (fdev s ip) d" "ip < length (icache t)" "fdev t ip = fdev s ip"
    "i_addrs (ino t ip) = i_addrs (ino s ip)" "taken t (fdev s ip) d = taken s (fdev s ip) d" "\<And>k. ptr t ip k = ptr s ip k"
  shows "file_ok t ip d"
proof -
  have "fblocks t ip = fblocks s ip" using assms(5,7) by (simp add: fblocks_def)
  moreover note file_okD(3,4,5,6) [OF assms(1)]
  ultimately show ?thesis using assms(2-7) unfolding file_ok_def by (metis (no_types, lifting))
qed

text \<open>
  One block is added to the file: as the data block \<open>bn\<close>, or as the indirect block.
\<close>

lemma file_ok_add:
  assumes ok: "file_ok s ip d" and t: "layout t (fdev s ip) d" "sb t = sb s" "length (icache t) = length (icache s)"
      "\<forall>j. j \<noteq> ip \<longrightarrow> ino t j = ino s j" "ino t ip = (ino s ip)\<lparr>i_addrs := ads\<rparr>" "length ads = 13"
    and b: "\<not> taken s (fdev s ip) d b" "taken t (fdev s ip) d b"
    and keep: "\<And>c. taken s (fdev s ip) d c \<Longrightarrow> taken t (fdev s ip) d c"
    and blocks: "\<And>c. taken s (fdev s ip) d c \<Longrightarrow> c \<noteq> ind s ip \<Longrightarrow> blk t (fdev s ip) c = blk s (fdev s ip) c"
    and new: "(\<forall>n < 140. ptr t ip n = (if n = bn then b else ptr s ip n)) \<and> ptr s ip bn = 0 \<and> bn < 140 \<and> ind t ip = ind s ip \<or>
      (\<forall>n < 140. ptr t ip n = ptr s ip n) \<and> ind s ip = 0 \<and> ind t ip = b"
    and zero: "\<forall>k < 512. blk t (fdev s ip) b k = 0"
  shows "file_ok t ip d" "ext s ip d t" "x < 71680 \<Longrightarrow> fbyte t ip x = fbyte s ip x"
proof -
  have dv: "fdev t ip = fdev s ip" using t(5) by simp
  have bn: "b \<notin> fblocks s ip" "b \<noteq> 0" using b file_okD(4) [OF ok, of b] zero_not_taken [OF t(1)] by auto
  have fb: "fblocks t ip = insert b (fblocks s ip)" using new bn(2) by (auto simp: fblocks_def; blast)
  have pi: "ptr t ip n \<noteq> ind t ip" if "n < 140" "ptr t ip n \<noteq> 0" for n
    using new
  proof
    assume a: "(\<forall>n < 140. ptr t ip n = (if n = bn then b else ptr s ip n)) \<and> ptr s ip bn = 0 \<and> bn < 140 \<and> ind t ip = ind s ip"
    then show ?thesis using that bn file_okD(5) [OF ok that(1)] by (auto simp: fblocks_def)
  next
    assume a: "(\<forall>n < 140. ptr t ip n = ptr s ip n) \<and> ind s ip = 0 \<and> ind t ip = b"
    then show ?thesis using that bn fblocks_ptr [OF that(1), of s ip] by auto
  qed
  have inj: "m = n" if "m < 140" "n < 140" "ptr t ip m \<noteq> 0" "ptr t ip m = ptr t ip n" for m n
    using new
  proof
    assume "(\<forall>n < 140. ptr t ip n = (if n = bn then b else ptr s ip n)) \<and> ptr s ip bn = 0 \<and> bn < 140 \<and> ind t ip = ind s ip"
    then have "ptr t ip m = (if m = bn then b else ptr s ip m)" "ptr t ip n = (if n = bn then b else ptr s ip n)"
      using that(1,2) by blast+
    then have e: "(if m = bn then b else ptr s ip m) = (if n = bn then b else ptr s ip n)"
      "(if m = bn then b else ptr s ip m) \<noteq> 0"
      using that(3,4) by simp_all
    have "ptr s ip m \<noteq> b" "ptr s ip n \<noteq> b" using fblocks_ptr that(1,2) bn by metis+
    then show ?thesis using e file_okD(6) [OF ok that(1,2)] by (auto split: if_splits)
  next
    assume "(\<forall>n < 140. ptr t ip n = ptr s ip n) \<and> ind s ip = 0 \<and> ind t ip = b"
    then show ?thesis using that file_okD(6) [OF ok that(1,2)] by simp
  qed
  show "file_ok t ip d"
    unfolding file_ok_def dv
  proof (intro conjI)
    show "ip < length (icache t)" "length (i_addrs (ino t ip)) = 13" using t(3,5,6) file_okD(2) [OF ok] by simp_all
    show "\<forall>c \<in> fblocks t ip. taken t (fdev s ip) d c" unfolding fb using b(2) keep file_okD(4) [OF ok] by blast
  qed (use t(1) pi inj in blast)+
  have "taken t (fdev s ip) d c \<and> c \<notin> fblocks t ip \<and> blk t (fdev s ip) c = blk s (fdev s ip) c"
    if "taken s (fdev s ip) d c" "c \<notin> fblocks s ip" for c
  proof -
    have "c \<noteq> ind s ip" using that zero_not_taken [OF file_okD(1) [OF ok]] by (auto simp: fblocks_def)
    then show ?thesis using that keep blocks fb b(1) by auto
  qed
  then show "ext s ip d t" using t(2-5) unfolding ext_def by blast
  show "fbyte t ip x = fbyte s ip x" if x: "x < 71680"
  proof -
    have n: "x div 512 < 140" using x by (simp add: div_less_iff_less_mult)
    show ?thesis
    proof (cases "ptr s ip (x div 512) = 0")
      case True
      then show ?thesis using new n zero by (auto simp: fbyte_def dv)
    next
      case False
      then have "taken s (fdev s ip) d (ptr s ip (x div 512))" "ptr s ip (x div 512) \<noteq> ind s ip"
        using fblocks_ptr [OF n False] file_okD(4,5) [OF ok] n by auto
      then have "blk t (fdev s ip) (ptr s ip (x div 512)) = blk s (fdev s ip) (ptr s ip (x div 512))" by (rule blocks)
      moreover have "ptr t ip (x div 512) = ptr s ip (x div 512)" using new n False by auto
      ultimately show ?thesis by (simp add: fbyte_def dv)
    qed
  qed
qed

section \<open>bmap\<close>

text \<open>The outcome of an operation that may allocate blocks but writes none of the file's bytes.\<close>

definition same_file :: "'a fs_scheme \<Rightarrow> nat \<Rightarrow> nat \<Rightarrow> 'a fs_scheme \<Rightarrow> bool" where
  "same_file s ip d t \<longleftrightarrow> file_ok t ip d \<and> ext s ip d t \<and> (\<forall>x < 71680. fbyte t ip x = fbyte s ip x) \<and>
     (\<forall>n < 140. ptr s ip n \<noteq> 0 \<longrightarrow> ptr t ip n = ptr s ip n)"

lemma same_file_refl: "file_ok s ip d \<Longrightarrow> same_file s ip d s"
  by (simp add: same_file_def ext_refl)

lemma same_file_trans: "same_file s ip d t \<Longrightarrow> same_file t ip d u \<Longrightarrow> same_file s ip d u"
  unfolding same_file_def by (auto intro: ext_trans)

lemma add_direct:
  assumes ok: "file_ok s ip d" and v: "balloc (fdev s ip) s = Val (b, t0)" and bn: "bn < 12" "ptr s ip bn = 0"
    and t: "t = upd_ino ip (\<lambda>i. i\<lparr>i_addrs := (i_addrs i)[bn := b]\<rparr>) t0"
  shows "same_file s ip d t" "ptr t ip bn = b" "b \<noteq> 0"
proof -
  note F = balloc_fresh [OF ok v] and D = file_okD [OF ok]
  have it: "ino t ip = (ino s ip)\<lparr>i_addrs := (i_addrs (ino s ip))[bn := b]\<rparr>" unfolding t by (simp add: D(2) F(1))
  have keep: "taken t (fdev s ip) d c \<and> blk t (fdev s ip) c = blk s (fdev s ip) c" if "taken s (fdev s ip) d c" for c
    using F(8) [OF that] by (simp add: t)
  have i: "ind t ip = ind s ip" using bn(1) by (simp add: it)
  have pt: "ptr t ip n = (if n = bn then b else ptr s ip n)" if "n < 140" for n
  proof (cases "n < 12")
    case True
    then show ?thesis using bn(1) D(3) by (simp add: ptr_def it)
  next
    case False
    have "blk t (fdev s ip) (ind s ip) = blk s (fdev s ip) (ind s ip)" if "ind s ip \<noteq> 0"
      using keep D(4) [of "ind s ip"] that by (simp add: fblocks_def)
    then show ?thesis using False bn(1) i by (auto simp: ptr_def it)
  qed
  note add = file_ok_add [OF ok, of t "(i_addrs (ino s ip))[bn := b]" b bn]
  have "file_ok t ip d" "ext s ip d t" "\<And>x. x < 71680 \<Longrightarrow> fbyte t ip x = fbyte s ip x"
    by (rule add(1) add(2) add(3); use F D keep it i pt bn in \<open>simp add: t\<close>)+
  then show "same_file s ip d t" using pt bn(2) by (simp add: same_file_def)
  show "ptr t ip bn = b" "b \<noteq> 0" using pt bn(1) F(5) by simp_all
qed

lemma add_ind:
  assumes ok: "file_ok s ip d" and v: "balloc (fdev s ip) s = Val (b, t0)" and no: "ind s ip = 0"
    and t: "t = upd_ino ip (\<lambda>i. i\<lparr>i_addrs := (i_addrs i)[12 := b]\<rparr>) t0"
  shows "same_file s ip d t" "ind t ip = b" "b \<noteq> 0" "n < 140 \<Longrightarrow> ptr t ip n = ptr s ip n"
proof -
  note F = balloc_fresh [OF ok v] and D = file_okD [OF ok]
  have it: "ino t ip = (ino s ip)\<lparr>i_addrs := (i_addrs (ino s ip))[12 := b]\<rparr>" unfolding t by (simp add: D(2) F(1))
  have keep: "taken t (fdev s ip) d c \<and> blk t (fdev s ip) c = blk s (fdev s ip) c" if "taken s (fdev s ip) d c" for c
    using F(8) [OF that] by (simp add: t)
  show i: "ind t ip = b" using D(3) by (simp add: it)
  show "b \<noteq> 0" by (rule F(5))
  have z: "ld32 (blk t (fdev s ip) b) (4 * k) = 0" if "k < 128" for k
    using that F(7) by (simp add: ld32_def t)
  show pt: "ptr t ip n = ptr s ip n" if "n < 140" for n
    using z [of "n - 12"] i D(3) F(5) no that by (auto simp: ptr_def it)
  note add = file_ok_add [OF ok, of t "(i_addrs (ino s ip))[12 := b]" b bn]
  have "file_ok t ip d" "ext s ip d t" "\<And>x. x < 71680 \<Longrightarrow> fbyte t ip x = fbyte s ip x"
    by (rule add(1) add(2) add(3); use F D keep it i pt no in \<open>simp add: t\<close>)+
  then show "same_file s ip d t" using pt by (simp add: same_file_def)
qed

lemma add_listed:
  assumes ok: "file_ok s ip d" and v: "balloc (fdev s ip) s = Val (b, t0)" and bn: "12 \<le> bn" "bn < 140" "ptr s ip bn = 0"
    and i0: "ind s ip \<noteq> 0"
    and t: "t = wblk (fdev t0 ip) (ind s ip) (st32 (4 * (bn - 12)) b (blk s (fdev s ip) (ind s ip))) t0"
  shows "same_file s ip d t" "ptr t ip bn = b" "b \<noteq> 0"
proof -
  note F = balloc_fresh [OF ok v] and D = file_okD [OF ok]
  have dv: "fdev t0 ip = fdev s ip" by (simp add: F(1))
  have tk: "taken s (fdev s ip) d (ind s ip)" using D(4) i0 by (simp add: fblocks_def)
  have it: "ino t ip = (ino s ip)\<lparr>i_addrs := i_addrs (ino s ip)\<rparr>" by (simp add: t F(1))
  have nb: "BBLOCK c s \<noteq> ind s ip" if "c < unat (sb_size (sb s))" for c
    using BBLOCK_less(2) [OF D(1) that] tk by (auto simp: taken_def)
  have us: "used t (fdev s ip) c = used t0 (fdev s ip) c" if "c < unat (sb_size (sb s))" for c
    using nb [OF that] F(2) by (simp add: used_def t dv BBLOCK_def)
  have tt: "taken t (fdev s ip) d c = taken t0 (fdev s ip) d c" for c
    using us [of "unat c"] F(2) by (auto simp: taken_def t)
  have L: "layout t (fdev s ip) d"
    using F(2,3) us unfolding layout_def by (simp add: t)
  have keep: "taken t (fdev s ip) d c" if "taken s (fdev s ip) d c" for c
    using F(8) [OF that] tt by simp
  have blocks: "blk t (fdev s ip) c = blk s (fdev s ip) c" if "taken s (fdev s ip) d c" "c \<noteq> ind s ip" for c
    using F(8) [OF that(1)] that(2) by (simp add: t)
  have bi: "b \<noteq> ind s ip" using F(6) tk by auto
  have pt: "ptr t ip n = (if n = bn then b else ptr s ip n)" if "n < 140" for n
  proof (cases "n < 12")
    case True
    then show ?thesis using bn(1) by (simp add: ptr_def it)
  next
    case False
    then have "ptr t ip n = ld32 (st32 (0 + 4 * (bn - 12)) b (blk s (fdev s ip) (ind s ip))) (0 + 4 * (n - 12))"
      using i0 F(1) by (simp add: ptr_def it t dv)
    also have "\<dots> = (if n - 12 = bn - 12 then b else ptr s ip n)"
      unfolding ld32_st32_slot using False i0 by (simp add: ptr_def)
    finally show ?thesis using False bn(1) by auto
  qed
  note add = file_ok_add [OF ok, of t "i_addrs (ino s ip)" b bn]
  have "file_ok t ip d" "ext s ip d t" "\<And>x. x < 71680 \<Longrightarrow> fbyte t ip x = fbyte s ip x"
    by (rule add(1) add(2) add(3); use F D L keep blocks it pt bn tt bi in \<open>simp add: t\<close>)+
  then show "same_file s ip d t" using pt bn(3) by (simp add: same_file_def)
  show "ptr t ip bn = b" "b \<noteq> 0" using pt bn(2) F(5) by simp_all
qed

lemma bmap_ind_spec:
  assumes ok: "file_ok s ip d" and v: "bmap_ind ip s = Val (a, t)"
  shows "same_file s ip d t \<and> ind t ip = a \<and> a \<noteq> 0"
proof (cases "ind s ip = 0")
  case True
  then obtain t0 where b: "balloc (fdev s ip) s = Val (a, t0)"
      "t = upd_ino ip (\<lambda>i. i\<lparr>i_addrs := (i_addrs i)[12 := a]\<rparr>) t0"
    using v by (auto simp: bmap_ind_def fs_consts)
  show ?thesis using add_ind(1-3) [OF ok b(1) True b(2)] by blast
next
  case False
  then show ?thesis using v same_file_refl [OF ok] by (auto simp: bmap_ind_def fs_consts)
qed

lemma bmap_listed_spec:
  assumes ok: "file_ok s ip d" and bn: "12 \<le> bn" "bn < 140" and i: "ind s ip \<noteq> 0"
    and v: "bmap_listed ip (bn - 12) (ind s ip) s = Val (a, t)"
  shows "same_file s ip d t \<and> ptr t ip bn = a \<and> a \<noteq> 0"
proof -
  have p: "ld32 (blk s (fdev s ip) (ind s ip)) (4 * (bn - 12)) = ptr s ip bn" using bn(1) i by (simp add: ptr_def)
  show ?thesis
  proof (cases "ptr s ip bn = 0")
    case True
    then obtain t0 where b: "balloc (fdev s ip) s = Val (a, t0)"
        "t = wblk (fdev t0 ip) (ind s ip) (st32 (4 * (bn - 12)) a (blk s (fdev s ip) (ind s ip))) t0"
      using v p by (auto simp: bmap_listed_def Let_def)
    show ?thesis using add_listed [OF ok b(1) bn True i b(2)] by blast
  next
    case False
    then show ?thesis using v p same_file_refl [OF ok] by (auto simp: bmap_listed_def Let_def)
  qed
qed

lemma bmap_spec:
  assumes ok: "file_ok s ip d" and bn: "bn < 140" and v: "bmap ip bn s = Val (a, t)"
  shows "same_file s ip d t \<and> ptr t ip bn = a \<and> a \<noteq> 0"
proof (cases "bn < 12")
  case True
  then have p: "ptr s ip bn = i_addrs (ino s ip) ! bn" by (simp add: ptr_def)
  show ?thesis
  proof (cases "ptr s ip bn = 0")
    case False
    then show ?thesis using v True p same_file_refl [OF ok] by (auto simp: bmap_def fs_consts)
  next
    case z: True
    then obtain t0 where b: "balloc (fdev s ip) s = Val (a, t0)"
        "t = upd_ino ip (\<lambda>i. i\<lparr>i_addrs := (i_addrs i)[bn := a]\<rparr>) t0"
      using v True p by (auto simp: bmap_def fs_consts)
    show ?thesis using add_direct [OF ok b(1) True z b(2)] by blast
  qed
next
  case False
  then have "bn - 12 < 128" using bn by simp
  then obtain i s1 where s1: "bmap_ind ip s = Val (i, s1)" "bmap_listed ip (bn - 12) i s1 = Val (a, t)"
    using v False by (auto simp: bmap_def fs_consts)
  note I = bmap_ind_spec [OF ok s1(1)]
  then have "file_ok s1 ip d" by (simp add: same_file_def)
  then show ?thesis
    using bmap_listed_spec [of s1 ip d bn a t] I s1(2) False bn same_file_trans [of s ip d s1 t] by simp
qed

section \<open>readi\<close>

lemma chunk_512: "off mod 512 + chunk off n \<le> 512" "chunk off n \<le> n" "0 < n \<Longrightarrow> 0 < chunk off n"
  using chunk_le [of off n] chunk_pos [of n off] by (simp_all add: BSIZE_val)

text \<open>The bytes of a chunk lie in one block.\<close>

lemma chunk_block:
  assumes "k < chunk off n"
  shows "(off + k) div 512 = off div 512" "(off + k) mod 512 = off mod 512 + k"
proof -
  have "off mod 512 + k < 512" using chunk_512(1) [of off n] assms by linarith
  moreover have "off + k = 512 * (off div 512) + (off mod 512 + k)" by simp
  ultimately show "(off + k) div 512 = off div 512" "(off + k) mod 512 = off mod 512 + k"
    by (metis div_mult_self4 div_less zero_neq_numeral add_0_right, metis mod_mult_self4 mod_less)
qed

lemma readi_loop_spec:
  assumes "file_ok s ip d" "off + n \<le> 71680" "readi_loop ip off n s = Val (bs, t)"
  shows "same_file s ip d t \<and> bs = map (fbyte s ip) [off..<off + n]"
  using assms
proof (induction ip off n s arbitrary: bs t rule: readi_loop.induct)
  case (1 ip off n s)
  note sl = readi_loop.simps [of ip off n s]
  show ?case
  proof (cases "n = 0")
    case True
    then show ?thesis using 1(4) sl same_file_refl [OF 1(2)] by auto
  next
    case False
    let ?m = "chunk off n"
    have m: "off mod 512 + ?m \<le> 512" "?m \<le> n" "0 < ?m" using chunk_512 False by auto
    obtain a s1 cs where a: "bmap ip (off div 512) s = Val (a, s1)"
        "readi_loop ip (off + ?m) (n - ?m) s1 = Val (cs, t)"
        "bs = map (\<lambda>k. blk s1 (fdev s1 ip) a (off mod 512 + k)) [0..<?m] @ cs"
      using 1(4) sl False by (auto simp: Let_def BSIZE_val)
    have "off div 512 < 140" using 1(3) False by (simp add: div_less_iff_less_mult)
    note B = bmap_spec [OF 1(2) this a(1)]
    then have ok1: "file_ok s1 ip d" and f: "\<And>x. x < 71680 \<Longrightarrow> fbyte s1 ip x = fbyte s ip x"
      by (simp_all add: same_file_def)
    have IH: "same_file s1 ip d t \<and> cs = map (fbyte s1 ip) [off + ?m..<off + ?m + (n - ?m)]"
      by (rule 1(1) [OF False refl refl ok1 _ a(2)]) (use 1(3) m in simp)
    have "blk s1 (fdev s1 ip) a (off mod 512 + k) = fbyte s ip (off + k)" if "k < ?m" for k
      using B f [of "off + k"] chunk_block [OF that] that m 1(3) by (simp add: fbyte_def)
    then have "map (\<lambda>k. blk s1 (fdev s1 ip) a (off mod 512 + k)) [0..<?m] = map (fbyte s ip) [off..<off + ?m]"
      by (intro nth_equalityI) simp_all
    moreover have "cs = map (fbyte s ip) [off + ?m..<off + n]" using IH f m(2) 1(3) by simp
    moreover have "[off..<off + n] = [off..<off + ?m] @ [off + ?m..<off + n]"
      using upt_add_eq_append [of off "off + ?m" "n - ?m"] m(2) by simp
    ultimately have "bs = map (fbyte s ip) [off..<off + n]" using a(3) by simp
    then show ?thesis using IH B same_file_trans by blast
  qed
qed

section \<open>writei\<close>

text \<open>The file with the bytes \<open>src\<close> at \<open>off\<close>.\<close>

definition patched :: "(nat \<Rightarrow> byte) \<Rightarrow> nat \<Rightarrow> byte list \<Rightarrow> nat \<Rightarrow> byte" where
  "patched f off src x = (if off \<le> x \<and> x < off + length src then src ! (x - off) else f x)"

text \<open>A write into one block of the file.\<close>

lemma write_block:
  assumes ok: "file_ok s ip d" and n: "n < 140" "ptr s ip n \<noteq> 0" and t: "t = wblk (fdev s ip) (ptr s ip n) m s"
  shows "file_ok t ip d" "ext s ip d t"
    "\<And>x. x < 71680 \<Longrightarrow> fbyte t ip x = (if x div 512 = n then m (x mod 512) else fbyte s ip x)"
    "\<And>k. ptr t ip k = ptr s ip k"
proof -
  note D = file_okD [OF ok]
  let ?b = "ptr s ip n"
  have tk: "taken s (fdev s ip) d ?b" using D(4) fblocks_ptr [OF n] by blast
  have nb: "BBLOCK c s \<noteq> ?b" if "c < unat (sb_size (sb s))" for c
    using BBLOCK_less(2) [OF D(1) that] tk by (auto simp: taken_def)
  have us: "used t (fdev s ip) c = used s (fdev s ip) c" if "c < unat (sb_size (sb s))" for c
    using nb [OF that] by (simp add: used_def t BBLOCK_def)
  have tt: "taken t (fdev s ip) d = taken s (fdev s ip) d"
  proof
    show "taken t (fdev s ip) d c = taken s (fdev s ip) d c" for c
      using us [of "unat c"] by (auto simp: taken_def t)
  qed
  have L: "layout t (fdev s ip) d" using D(1) us unfolding layout_def by (simp add: t)
  have it: "icache t = icache s" by (simp add: t)
  show pt: "ptr t ip k = ptr s ip k" for k
    using D(5) [OF n] by (simp add: ptr_def it t)
  then have fb: "fblocks t ip = fblocks s ip" by (simp add: fblocks_def it)
  show "file_ok t ip d" by (rule file_ok_cong [OF ok L _ _ _ tt pt]) (use D(2) it in simp_all)
  have "ino t ip = (ino s ip)\<lparr>i_addrs := i_addrs (ino s ip)\<rparr>" by (simp add: it)
  moreover have "blk t (fdev s ip) c = blk s (fdev s ip) c" if "c \<notin> fblocks s ip" for c
    using fblocks_ptr [OF n] that by (auto simp: t)
  moreover have "sb t = sb s" by (simp add: t)
  ultimately show "ext s ip d t" unfolding ext_def tt fb by (metis it)
  show "fbyte t ip x = (if x div 512 = n then m (x mod 512) else fbyte s ip x)" if x: "x < 71680" for x
  proof -
    have k: "x div 512 < 140" using x by (simp add: div_less_iff_less_mult)
    have "ptr s ip (x div 512) \<noteq> ?b" if "x div 512 \<noteq> n" using D(6) [OF n(1) k n(2)] that by metis
    moreover have "blk t (fdev s ip) c = (if c = ?b then m else blk s (fdev s ip) c)" for c by (simp add: t)
    ultimately show ?thesis using n(2) by (auto simp: fbyte_def pt it)
  qed
qed

lemma patched_step:
  assumes "m \<le> length src" "\<And>x. x < N \<Longrightarrow> g x = (if off \<le> x \<and> x < off + m then src ! (x - off) else f x)" "x < N"
  shows "patched g (off + m) (drop m src) x = patched f off src x"
  using assms by (auto simp: patched_def nth_drop)

lemma writei_loop_spec:
  assumes "file_ok s ip d" "off + length src \<le> 71680" "writei_loop ip off src s = Val t"
  shows "file_ok t ip d \<and> ext s ip d t \<and> (\<forall>x < 71680. fbyte t ip x = patched (fbyte s ip) off src x) \<and>
    (\<forall>n < 140. ptr s ip n \<noteq> 0 \<longrightarrow> ptr t ip n \<noteq> 0) \<and>
    (\<forall>x. off \<le> x \<and> x < off + length src \<longrightarrow> ptr t ip (x div 512) \<noteq> 0)"
  using assms
proof (induction "length src" arbitrary: off src s t rule: less_induct)
  case 1: (less src off s t)
  note sl = writei_loop.simps [of ip off src s, unfolded Let_def BSIZE_val]
  show ?case
  proof (cases "src = []")
    case True
    then show ?thesis using 1(4) sl 1(2) by (auto simp: patched_def ext_refl)
  next
    case False
    let ?m = "chunk off (length src)" and ?o = "off mod 512"
    have m: "?o + ?m \<le> 512" "?m \<le> length src" "0 < ?m" using chunk_512 False by auto
    obtain a s1 where a: "bmap ip (off div 512) s = Val (a, s1)"
        "writei_loop ip (off + ?m) (drop ?m src) (wblk (fdev s1 ip) a
           (\<lambda>x. if ?o \<le> x \<and> x < ?o + ?m then src ! (x - ?o) else blk s1 (fdev s1 ip) a x) s1) = Val t"
      using 1(4) sl False by auto
    let ?d = "\<lambda>x. if ?o \<le> x \<and> x < ?o + ?m then src ! (x - ?o) else blk s1 (fdev s1 ip) a x"
    define s2 where "s2 = wblk (fdev s1 ip) a ?d s1"
    have "off < 71680" using 1(3) m(2,3) by linarith
    then have n: "off div 512 < 140" by (simp add: div_less_iff_less_mult)
    note B = bmap_spec [OF 1(2) n a(1)]
    then have ok1: "file_ok s1 ip d" and e1: "ext s ip d s1" and pn: "ptr s1 ip (off div 512) = a" "a \<noteq> 0"
      and f1: "\<And>x. x < 71680 \<Longrightarrow> fbyte s1 ip x = fbyte s ip x" by (simp_all add: same_file_def)
    note W = write_block [OF ok1 n, unfolded pn(1), OF pn(2) s2_def]
    have f2: "fbyte s2 ip x = (if off \<le> x \<and> x < off + ?m then src ! (x - off) else fbyte s ip x)" if x: "x < 71680" for x
    proof (cases "x div 512 = off div 512")
      case True
      have xo: "x = 512 * (off div 512) + x mod 512" "off = 512 * (off div 512) + ?o"
        using True by (metis mult_div_mod_eq) simp
      then have "off \<le> x \<longleftrightarrow> ?o \<le> x mod 512" "x < off + ?m \<longleftrightarrow> x mod 512 < ?o + ?m" "x - off = x mod 512 - ?o"
        by linarith+
      moreover have "blk s1 (fdev s1 ip) a (x mod 512) = fbyte s ip x"
        using f1 [OF x] True pn by (simp add: fbyte_def)
      ultimately show ?thesis using W(3) [OF x] True by simp
    next
      case False
      have "\<not> (off \<le> x \<and> x < off + ?m)"
      proof
        assume a: "off \<le> x \<and> x < off + ?m"
        then have "x - off < ?m" "off + (x - off) = x" by linarith+
        then show False using chunk_block(1) [of "x - off" off "length src"] False by simp
      qed
      then show ?thesis using W(3) [OF x] f1 [OF x] False by auto
    qed
    have IH: "file_ok t ip d \<and> ext s2 ip d t \<and> (\<forall>x < 71680. fbyte t ip x = patched (fbyte s2 ip) (off + ?m) (drop ?m src) x) \<and>
        (\<forall>n < 140. ptr s2 ip n \<noteq> 0 \<longrightarrow> ptr t ip n \<noteq> 0) \<and>
        (\<forall>x. off + ?m \<le> x \<and> x < off + ?m + length (drop ?m src) \<longrightarrow> ptr t ip (x div 512) \<noteq> 0)"
      by (rule 1(1) [OF _ W(1) _ a(2) [folded s2_def]]) (use 1(3) m in simp_all)
    have "fbyte t ip x = patched (fbyte s ip) off src x" if x: "x < 71680" for x
      using IH x patched_step [OF m(2) f2 x] by simp
    moreover have p2: "ptr t ip n \<noteq> 0" if "n < 140" "ptr s1 ip n \<noteq> 0" for n
      using IH that W(4) by simp
    moreover have "ptr t ip n \<noteq> 0" if "n < 140" "ptr s ip n \<noteq> 0" for n
      using p2 [OF that(1)] B that by (simp add: same_file_def)
    moreover have "ptr t ip (x div 512) \<noteq> 0" if x: "off \<le> x" "x < off + length src" for x
    proof (cases "x < off + ?m")
      case True
      then have "x - off < ?m" "off + (x - off) = x" using x by linarith+
      then have "x div 512 = off div 512" using chunk_block(1) [of "x - off" off "length src"] by simp
      then show ?thesis using p2 [OF n] pn by simp
    next
      case False
      then show ?thesis using IH x m(2) by simp
    qed
    ultimately show ?thesis using IH ext_trans [OF ext_trans [OF e1 W(2)]] by blast
  qed
qed

section \<open>Reading what was written\<close>

lemma readi_spec:
  assumes ok: "file_ok s ip d" and ty: "i_type (ino s ip) \<noteq> T_DEV" and sz: "unat (i_size (ino s ip)) \<le> 71680"
    and off: "unat off \<le> unat (i_size (ino s ip))" "unat off + unat n < 4294967296"
    and v: "readi ip off n s = Val (r, bs, t)"
  shows "same_file s ip d t" "bs = map (fbyte s ip) [unat off..<min (unat off + unat n) (unat (i_size (ino s ip)))]"
    "r = int (length bs)"
proof -
  let ?sz = "i_size (ino s ip)"
  have on: "unat (off + n) = unat off + unat n" using off(2) by (rule unat_add_no_wrap)
  define m where "m = (if ?sz < off + n then ?sz - off else n)"
  have m: "unat off + unat m = min (unat off + unat n) (unat ?sz)"
    using off(1) on by (simp add: m_def word_less_nat_alt unat_sub_uint)
  have "readi ip off n s = andthen (readi_loop ip (unat off) (unat m) s) (\<lambda>(bs, t). Val (uint m, bs, t))"
    using ty off(1) on by (simp add: readi_def m_def Let_def word_less_nat_alt)
  then have "andthen (readi_loop ip (unat off) (unat m) s) (\<lambda>(bs, t). Val (uint m, bs, t)) = Val (r, bs, t)" using v by simp
  then have l: "readi_loop ip (unat off) (unat m) s = Val (bs, t)" "r = uint m" by auto
  have "unat off + unat m \<le> 71680" using m sz by simp
  note R = readi_loop_spec [OF ok this l(1)]
  show "same_file s ip d t" using R by blast
  show b: "bs = map (fbyte s ip) [unat off..<min (unat off + unat n) (unat ?sz)]" using R m by simp
  have "length bs = unat m" using R by simp
  then show "r = int (length bs)" using l(2) by simp
qed

text \<open>Reading blocks that are there changes nothing.\<close>

lemma bmap_hit: "bn < 140 \<Longrightarrow> ptr s ip bn \<noteq> 0 \<Longrightarrow> bmap ip bn s = Val (ptr s ip bn, s)"
proof (cases "bn < 12")
  case False
  moreover assume "bn < 140" "ptr s ip bn \<noteq> 0"
  moreover have "bn - 12 < 128" using \<open>bn < 140\<close> False by simp
  ultimately show ?thesis
    by (simp add: bmap_def fs_consts bmap_ind_def bmap_listed_def ptr_def Let_def split: if_splits)
qed (simp add: bmap_def fs_consts ptr_def)

lemma readi_loop_hit:
  assumes "off + n \<le> 71680" "\<And>x. off \<le> x \<Longrightarrow> x < off + n \<Longrightarrow> ptr s ip (x div 512) \<noteq> 0"
  shows "\<exists>bs. readi_loop ip off n s = Val (bs, s)"
  using assms
proof (induction n arbitrary: off rule: less_induct)
  case (less n)
  note sl = readi_loop.simps [of ip off n s]
  show ?case
  proof (cases "n = 0")
    case False
    have m: "0 < chunk off n" "chunk off n \<le> n" using chunk_512 False by auto
    have "off < 71680" using less(2) False by simp
    then have "off div 512 < 140" by (simp add: div_less_iff_less_mult)
    moreover have "ptr s ip (off div 512) \<noteq> 0" using less(3) [of off] False by simp
    ultimately have b: "bmap ip (off div 512) s = Val (ptr s ip (off div 512), s)" by (rule bmap_hit)
    have "\<exists>bs. readi_loop ip (off + chunk off n) (n - chunk off n) s = Val (bs, s)"
      by (rule less(1)) (use m less(2,3) False in auto)
    then show ?thesis using sl False b by (auto simp: Let_def BSIZE_val)
  qed (use sl in simp)
qed

text \<open>Writing the inode itself back to its block, before the bitmap.\<close>

definition inode_below :: "'a fs_scheme \<Rightarrow> nat \<Rightarrow> bool" where
  "inode_below s ip \<longleftrightarrow> unat (IBLOCK (i_inum (ino s ip)) s) < unat (sb_bmapstart (sb s))"

lemma set_size:
  assumes ok: "file_ok s ip d" and ib: "inode_below s ip"
    and t: "t = iupdate ip (upd_ino ip (\<lambda>i. i\<lparr>i_size := z\<rparr>) s)"
  shows "file_ok t ip d" "fbyte t ip x = fbyte s ip x \<or> \<not> x < 71680" "ino t ip = (ino s ip)\<lparr>i_size := z\<rparr>"
    "taken t (fdev s ip) d = taken s (fdev s ip) d" "fblocks t ip = fblocks s ip"
    "\<And>b. taken s (fdev s ip) d b \<Longrightarrow> blk t (fdev s ip) b = blk s (fdev s ip) b" "n < 140 \<Longrightarrow> ptr t ip n = ptr s ip n"
proof -
  note D = file_okD [OF ok]
  let ?ib = "IBLOCK (i_inum (ino s ip)) s"
  have it: "ino t ip = (ino s ip)\<lparr>i_size := z\<rparr>" "icache t = (icache s)[ip := (ino s ip)\<lparr>i_size := z\<rparr>]"
    using D(2) by (simp_all add: t iupdate_def Let_def upd_ino_def)
  then show "ino t ip = (ino s ip)\<lparr>i_size := z\<rparr>" by simp
  have sb: "sb t = sb s" by (simp add: t iupdate_def Let_def)
  have blk: "blk t e c = blk s e c" if "c \<noteq> ?ib" for e c
    using that D(2) by (simp add: t iupdate_def Let_def IBLOCK_def)
  have nb: "BBLOCK c s \<noteq> ?ib" if "c < unat (sb_size (sb s))" for c
    using BBLOCK_less(1) [OF D(1) that] ib by (auto simp: inode_below_def)
  have us: "used t (fdev s ip) c = used s (fdev s ip) c" if "c < unat (sb_size (sb s))" for c
    using blk [OF nb [OF that]] sb by (simp add: used_def BBLOCK_def)
  show tt: "taken t (fdev s ip) d = taken s (fdev s ip) d"
  proof
    show "taken t (fdev s ip) d c = taken s (fdev s ip) d c" for c using us [of "unat c"] sb by (auto simp: taken_def)
  qed
  have L: "layout t (fdev s ip) d" using D(1) us sb unfolding layout_def by simp
  have "unat ?ib < d" using D(1) ib by (simp add: layout_def inode_below_def)
  then show bt: "blk t (fdev s ip) b = blk s (fdev s ip) b" if "taken s (fdev s ip) d b" for b
    using that by (intro blk) (auto simp: taken_def)
  have ti: "ind s ip \<noteq> 0 \<Longrightarrow> taken s (fdev s ip) d (ind s ip)" using D(4) by (simp add: fblocks_def)
  have pt: "ptr t ip k = ptr s ip k" for k
    using bt [OF ti] by (simp add: ptr_def it(1))
  then show "n < 140 \<Longrightarrow> ptr t ip n = ptr s ip n" by simp
  show fb: "fblocks t ip = fblocks s ip" using pt by (simp add: fblocks_def it(1))
  show "file_ok t ip d" by (rule file_ok_cong [OF ok L _ _ _ tt pt]) (use D(2) it in simp_all)
  show "fbyte t ip x = fbyte s ip x \<or> \<not> x < 71680"
  proof (cases "x < 71680")
    case True
    then have n: "x div 512 < 140" by (simp add: div_less_iff_less_mult)
    have "ptr s ip (x div 512) \<noteq> 0 \<Longrightarrow> blk t (fdev s ip) (ptr s ip (x div 512)) = blk s (fdev s ip) (ptr s ip (x div 512))"
      using bt D(4) fblocks_ptr [OF n] by blast
    then show ?thesis by (simp add: fbyte_def pt it(1))
  qed simp
qed

lemma writei_Val:
  assumes ok: "file_ok s ip d" and ib: "inode_below s ip" and ty: "i_type (ino s ip) \<noteq> T_DEV"
    and off: "unat off \<le> unat (i_size (ino s ip))" "unat off + length src \<le> 71680"
    and v: "writei ip src off s = Val (r, t)"
  shows "r = int (length src)" "file_ok t ip d" "i_type (ino t ip) = i_type (ino s ip)" "fdev t ip = fdev s ip"
    "unat (i_size (ino t ip)) = max (unat (i_size (ino s ip))) (unat off + length src)"
    "\<And>x. x < 71680 \<Longrightarrow> fbyte t ip x = patched (fbyte s ip) (unat off) src x"
    "\<And>x. unat off \<le> x \<Longrightarrow> x < unat off + length src \<Longrightarrow> ptr t ip (x div 512) \<noteq> 0"
    "\<And>b. taken s (fdev s ip) d b \<Longrightarrow> b \<notin> fblocks s ip \<Longrightarrow>
       taken t (fdev s ip) d b \<and> b \<notin> fblocks t ip \<and> blk t (fdev s ip) b = blk s (fdev s ip) b"
proof -
  let ?n = "of_nat (length src) :: uint"
  have n: "unat ?n = length src" using off(2) by (intro unat_of_nat_uint) simp
  have on: "unat (off + ?n) = unat off + length src" using off(2) n by (subst unat_add_no_wrap) simp_all
  have "writei ip src off s = andthen (writei_loop ip (unat off) src s) (\<lambda>t.
      if 0 < ?n \<and> i_size (ino t ip) < off + ?n
      then Val (uint ?n, iupdate ip (upd_ino ip (\<lambda>i. i\<lparr>i_size := off + ?n\<rparr>) t)) else Val (uint ?n, t))"
    using ty off on by (simp add: writei_def Let_def word_less_nat_alt fs_consts BSIZE_val)
  then obtain t0 where t0: "writei_loop ip (unat off) src s = Val t0"
      "(if 0 < ?n \<and> i_size (ino t0 ip) < off + ?n
      then Val (uint ?n, iupdate ip (upd_ino ip (\<lambda>i. i\<lparr>i_size := off + ?n\<rparr>) t0)) else Val (uint ?n, t0)) = Val (r, t)"
    using v by (cases "writei_loop ip (unat off) src s") auto
  note W = writei_loop_spec [OF ok off(2) t0(1)]
  then have ok0: "file_ok t0 ip d" and e: "ext s ip d t0" by blast+
  then obtain ads where i0: "ino t0 ip = (ino s ip)\<lparr>i_addrs := ads\<rparr>" and sb0: "sb t0 = sb s" by (auto simp: ext_def)
  have ib0: "inode_below t0 ip" using ib by (simp add: inode_below_def i0 sb0 IBLOCK_def)
  have u: "uint ?n = int (length src)" using n by (metis uint_nat)
  have out: "taken t0 (fdev s ip) d b \<and> b \<notin> fblocks t0 ip \<and> blk t0 (fdev s ip) b = blk s (fdev s ip) b"
    if "taken s (fdev s ip) d b" "b \<notin> fblocks s ip" for b
    using e that by (simp add: ext_def)
  have "r = int (length src) \<and> file_ok t ip d \<and> i_type (ino t ip) = i_type (ino s ip) \<and> fdev t ip = fdev s ip \<and>
    unat (i_size (ino t ip)) = max (unat (i_size (ino s ip))) (unat off + length src) \<and>
    (\<forall>x < 71680. fbyte t ip x = fbyte t0 ip x) \<and> (\<forall>n < 140. ptr t ip n = ptr t0 ip n) \<and>
    (\<forall>b. taken t0 (fdev s ip) d b \<longrightarrow> taken t (fdev s ip) d b \<and> blk t (fdev s ip) b = blk t0 (fdev s ip) b) \<and>
    fblocks t ip = fblocks t0 ip"
  proof (cases "0 < ?n \<and> i_size (ino t0 ip) < off + ?n")
    case True
    then have t: "t = iupdate ip (upd_ino ip (\<lambda>i. i\<lparr>i_size := off + ?n\<rparr>) t0)" "r = int (length src)"
      using t0(2) u by auto
    note S = set_size [OF ok0 ib0 t(1)]
    have "i_size (ino s ip) < off + ?n" using True by (simp add: i0)
    then have "unat (i_size (ino s ip)) < unat off + length src" using on by (simp add: word_less_nat_alt)
    then show ?thesis using S t(2) on by (auto simp: i0)
  next
    case False
    then have t: "t = t0" "r = int (length src)" using t0(2) u by auto
    have "unat off + length src \<le> unat (i_size (ino s ip))"
    proof (cases "0 < ?n")
      case True
      then have "\<not> i_size (ino s ip) < off + ?n" using False by (simp add: i0)
      then show ?thesis using on by (simp add: word_less_nat_alt)
    next
      case False
      then have "length src = 0" using n by (simp add: word_less_nat_alt)
      then show ?thesis using off(1) by simp
    qed
    then show ?thesis using t ok0 by (simp add: i0)
  qed
  note R = this
  show "r = int (length src)" "file_ok t ip d" "i_type (ino t ip) = i_type (ino s ip)" "fdev t ip = fdev s ip"
    "unat (i_size (ino t ip)) = max (unat (i_size (ino s ip))) (unat off + length src)"
    using R by blast+
  show "fbyte t ip x = patched (fbyte s ip) (unat off) src x" if "x < 71680" for x using R W that by simp
  show "ptr t ip (x div 512) \<noteq> 0" if x: "unat off \<le> x" "x < unat off + length src" for x
  proof -
    have "x < 71680" using x off(2) by linarith
    then have "x div 512 < 140" by (simp add: div_less_iff_less_mult)
    then show ?thesis using R W x by simp
  qed
  show "taken t (fdev s ip) d b \<and> b \<notin> fblocks t ip \<and> blk t (fdev s ip) b = blk s (fdev s ip) b"
    if "taken s (fdev s ip) d b" "b \<notin> fblocks s ip" for b
    using R out [OF that] by simp
qed

end
