(* ===== verification/Xv6_Rw.thy ===== *)
theory Xv6_Rw
  imports Xv6_Content
begin

text \<open>
  Reading back what was written, and how many free blocks a write needs.
\<close>

section \<open>Free blocks\<close>

definition nfree :: "'a fs_scheme \<Rightarrow> uint \<Rightarrow> nat" where
  "nfree s dev = card {c. c < unat (sb_size (sb s)) \<and> \<not> used s dev c}"

lemma nfree_cong:
  assumes "sb t = sb s" "\<And>c. c < unat (sb_size (sb s)) \<Longrightarrow> used t dev c = used s dev c"
  shows "nfree t dev = nfree s dev"
  unfolding nfree_def by (rule arg_cong [of _ _ card]) (use assms in auto)

lemma nfree_upd_ino [simp]: "nfree (upd_ino ip f s) dev = nfree s dev"
  by (rule nfree_cong) (simp_all add: used_def BBLOCK_def)

lemma nfree_data:
  assumes L: "layout s dev d" and b: "d \<le> unat b"
  shows "nfree (wblk e b m s) dev = nfree s dev"
proof (rule nfree_cong)
  fix c assume c: "c < unat (sb_size (sb s))"
  have "BBLOCK c s \<noteq> b" using BBLOCK_less(2) [OF L c] b by auto
  then show "used (wblk e b m s) dev c = used s dev c" by (simp add: used_def)
qed simp

lemma balloc_nfree:
  assumes L: "layout s dev d" and f: "0 < nfree s dev"
  shows "\<exists>b t. balloc dev s = Val (b, t) \<and> Suc (nfree t dev) = nfree s dev"
proof -
  let ?F = "{c. c < unat (sb_size (sb s)) \<and> \<not> used s dev c}"
  have "?F \<noteq> {}" using f unfolding nfree_def by (metis (no_types, lifting) card.empty less_irrefl)
  then have "\<not> (\<forall>c < unat (sb_size (sb s)). used s dev c)" by auto
  then obtain b t where bt: "balloc dev s = Val (b, t)" by (auto simp: balloc_spec Let_def)
  note B = balloc_Val [OF L bt]
  note A = alloc_block_facts(1) [OF L B(1,2), folded B(4)]
  have "{c. c < unat (sb_size (sb t)) \<and> \<not> used t dev c} = ?F - {unat b}"
    using A by (auto simp: B(4))
  then have "nfree t dev = card (?F - {unat b})" by (simp add: nfree_def)
  moreover have "unat b \<in> ?F" using B(2,3) by simp
  then have "Suc (card (?F - {unat b})) = card ?F" by (intro card_Suc_Diff1) simp_all
  ultimately show ?thesis using bt by (auto simp: nfree_def)
qed

lemma bmap_ind_nfree:
  assumes ok: "file_ok s ip d" and f: "0 < nfree s (fdev s ip)"
  shows "\<exists>a t. bmap_ind ip s = Val (a, t) \<and> nfree s (fdev s ip) \<le> Suc (nfree t (fdev s ip))"
proof (cases "ind s ip = 0")
  case True
  then show ?thesis using balloc_nfree [OF file_okD(1) [OF ok] f] by (auto simp: bmap_ind_def fs_consts)
next
  case False
  then show ?thesis by (simp add: bmap_ind_def fs_consts)
qed

lemma bmap_listed_nfree:
  assumes ok: "file_ok s ip d" and f: "0 < nfree s (fdev s ip)" and i: "ind s ip \<noteq> 0"
  shows "\<exists>a t. bmap_listed ip k (ind s ip) s = Val (a, t) \<and> nfree s (fdev s ip) \<le> Suc (nfree t (fdev s ip))"
proof (cases "ld32 (blk s (fdev s ip) (ind s ip)) (4 * k) = 0")
  case True
  obtain b t where b: "balloc (fdev s ip) s = Val (b, t)" "Suc (nfree t (fdev s ip)) = nfree s (fdev s ip)"
    using balloc_nfree [OF file_okD(1) [OF ok] f] by blast
  have "d \<le> unat (ind s ip)" using file_okD(4) [OF ok] i by (simp add: fblocks_def taken_def)
  then have "nfree (wblk e (ind s ip) m t) (fdev s ip) = nfree t (fdev s ip)" for e m
    using nfree_data balloc_fresh(3) [OF ok b(1)] by blast
  then show ?thesis using True b by (simp add: bmap_listed_def Let_def)
next
  case False
  then show ?thesis by (simp add: bmap_listed_def Let_def)
qed

lemma bmap_nfree:
  assumes ok: "file_ok s ip d" and bn: "bn < 140" and f: "1 < nfree s (fdev s ip)"
  shows "\<exists>a t. bmap ip bn s = Val (a, t) \<and> nfree s (fdev s ip) \<le> nfree t (fdev s ip) + 2"
proof (cases "bn < 12")
  case True
  have "\<exists>b t. balloc (fdev s ip) s = Val (b, t) \<and> Suc (nfree t (fdev s ip)) = nfree s (fdev s ip)"
    using balloc_nfree [OF file_okD(1) [OF ok]] f by simp
  then show ?thesis using True by (auto simp: bmap_def fs_consts)
next
  case False
  obtain a t where a: "bmap_ind ip s = Val (a, t)" "nfree s (fdev s ip) \<le> Suc (nfree t (fdev s ip))"
    using bmap_ind_nfree [OF ok] f by fastforce
  note B = bmap_ind_spec [OF ok a(1)]
  then have t: "file_ok t ip d" "ind t ip = a" "a \<noteq> 0" "fdev t ip = fdev s ip" by (auto simp: same_file_def ext_def)
  obtain b u where "bmap_listed ip (bn - 12) (ind t ip) t = Val (b, u)" "nfree t (fdev t ip) \<le> Suc (nfree u (fdev t ip))"
    using bmap_listed_nfree [OF t(1), of "bn - 12"] a(2) f t by fastforce
  then show ?thesis using False bn a t by (simp add: bmap_def fs_consts)
qed

text \<open>The blocks that a range of bytes touches.\<close>

definition spans :: "nat \<Rightarrow> nat \<Rightarrow> nat" where
  "spans off n = (if n = 0 then 0 else Suc ((off + n - 1) div 512 - off div 512))"

lemma spans_chunk: "0 < n \<Longrightarrow> spans off n = Suc (spans (off + chunk off n) (n - chunk off n))"
proof (cases "n \<le> 512 - off mod 512")
  case True
  assume n: "0 < n"
  have "off + n - 1 = 512 * (off div 512) + (off mod 512 + n - 1)" using n by simp
  moreover have "off mod 512 + n - 1 < 512" using True n by simp
  ultimately have "(off + n - 1) div 512 = off div 512" by (metis div_mult_self4 div_less zero_neq_numeral add_0_right)
  then show ?thesis using True n by (simp add: spans_def chunk_def BSIZE_val)
next
  case False
  assume n: "0 < n"
  let ?m = "512 - off mod 512"
  have c: "chunk off n = ?m" using False by (simp add: chunk_def BSIZE_val)
  have q: "off + ?m = 512 * Suc (off div 512)" 
  proof -
    have "off mod 512 < 512" by simp
    then show ?thesis using mult_div_mod_eq [of 512 off] unfolding mult_Suc_right by linarith
  qed
  then have "(off + ?m) div 512 = Suc (off div 512)" by simp
  moreover have "Suc (off div 512) \<le> (off + n - 1) div 512"
  proof -
    have "off + ?m \<le> off + n - 1" using False by simp
    then show ?thesis using div_le_mono [of "off + ?m" "off + n - 1" 512] q by simp
  qed
  moreover have "off + ?m + (n - ?m) = off + n" using False by simp
  moreover have "n - ?m \<noteq> 0" using False by linarith
  ultimately have "spans (off + ?m) (n - ?m) = Suc ((off + n - 1) div 512 - Suc (off div 512))"
      "Suc (off div 512) \<le> (off + n - 1) div 512"
    unfolding spans_def by (simp_all only: if_False)
  then show ?thesis using n unfolding c by (simp add: spans_def Suc_diff_Suc Suc_le_lessD)
qed

lemma spans_le: "spans off n \<le> n div 512 + 2"
proof -
  have "(off + n - 1) div 512 \<le> off div 512 + n div 512 + 1" by linarith
  then have "(off + n - 1) div 512 - off div 512 \<le> n div 512 + 1" by linarith
  then show ?thesis by (simp add: spans_def)
qed

lemma writei_loop_returns:
  assumes "file_ok s ip d" "off + length src \<le> 71680" "2 * spans off (length src) \<le> nfree s (fdev s ip)"
  shows "\<exists>t. writei_loop ip off src s = Val t"
  using assms
proof (induction ip off src s rule: writei_loop.induct)
  case (1 ip off src s)
  note sl = writei_loop.simps [of ip off src s]
  show ?case
  proof (cases "src = []")
    case True
    then show ?thesis using sl by simp
  next
    case False
    let ?m = "chunk off (length src)" and ?n = "off div 512"
    have "0 < length src" using False by simp
    then have "off < 71680" using 1(3) by linarith
    then have n: "?n < 140" by (simp add: div_less_iff_less_mult)
    have m: "?m \<le> length src" "0 < ?m" using chunk_512 False by auto
    have sp: "2 * spans (off + ?m) (length src - ?m) + 2 \<le> nfree s (fdev s ip)"
      using 1(4) spans_chunk [of "length src" off] False by simp
    obtain a s1 where a: "bmap ip ?n s = Val (a, s1)" "nfree s (fdev s ip) \<le> nfree s1 (fdev s ip) + 2"
      using bmap_nfree [OF 1(2) n] sp by fastforce
    note B = bmap_spec [OF 1(2) n a(1)]
    then have s1: "file_ok s1 ip d" "fdev s1 ip = fdev s ip" "ptr s1 ip ?n = a" "a \<noteq> 0" by (auto simp: same_file_def ext_def)
    let ?w = "\<lambda>x. if off mod 512 \<le> x \<and> x < off mod 512 + ?m then src ! (x - off mod 512) else blk s1 (fdev s1 ip) a x"
    let ?s2 = "wblk (fdev s1 ip) a ?w s1"
    have w: "file_ok ?s2 ip d" using write_block(1) [OF s1(1) n, of ?s2 ?w] s1(3,4) by simp
    have "d \<le> unat a" using file_okD(4) [OF s1(1)] fblocks_ptr [OF n, of s1 ip] s1 by (auto simp: taken_def)
    then have f: "nfree ?s2 (fdev s ip) = nfree s1 (fdev s ip)"
      using nfree_data [OF file_okD(1) [OF s1(1)]] s1(2) by simp
    have "\<exists>t. writei_loop ip (off + ?m) (drop ?m src) ?s2 = Val t"
    proof (rule 1(1) [OF False refl refl refl, unfolded BSIZE_val])
      show "file_ok ?s2 ip d" by (rule w)
      show "off + ?m + length (drop ?m src) \<le> 71680" using 1(3) m by simp
      show "2 * spans (off + ?m) (length (drop ?m src)) \<le> nfree ?s2 (fdev ?s2 ip)" using f sp a(2) s1(2) by simp
    qed
    then show ?thesis using sl False a(1) unfolding BSIZE_val by (simp add: Let_def)
  qed
qed

section \<open>The claim\<close>


section \<open>A small file\<close>

text \<open>Sixteen blocks, of which the first five are marked, and one empty file in the cache.\<close>

definition ex_file :: fs where
  "ex_file = ex_fs\<lparr>sb := (sb ex_fs)\<lparr>sb_size := 16\<rparr>,
     icache := [\<lparr>i_dev = 1, i_inum = 1, i_ref = 1, i_holder = Some 1, i_valid = True, i_type = T_FILE, i_major = 0,
       i_minor = 0, i_nlink = 1, i_size = 0, i_addrs = replicate 13 0, i_mode = 3\<rparr>]\<rparr>"

lemma ex_file_used: "b < 16 \<Longrightarrow> used ex_file 1 b \<longleftrightarrow> b < 5"
proof -
  assume "b < 16"
  then have "b \<in> set [0..<16]" by simp
  moreover have "list_all (\<lambda>b. used ex_file 1 b \<longleftrightarrow> b < 5) [0..<16]"
    by (simp add: upt_rec [of _ 16] used_def bit_used_def BBLOCK_def ex_file_def ex_fs_def BPB_val push_bit_eq_mult)
  ultimately show ?thesis unfolding list_all_iff by blast
qed

lemma ex_file_ok: "file_ok ex_file 0 4" "inode_below ex_file 0" "i_type (ino ex_file 0) \<noteq> T_DEV"
    "i_size (ino ex_file 0) = 0" "fdev ex_file 0 = 1"
proof -
  have i: "i_addrs (ino ex_file 0) = replicate 13 0" "fdev ex_file 0 = 1" by (simp_all add: ex_file_def)
  have "layout ex_file 1 4" using ex_file_used by (simp add: layout_def ex_file_def ex_fs_def BPB_val)
  moreover have "ptr ex_file 0 n = 0" if "n < 140" for n using that by (auto simp: ptr_def i)
  then have "fblocks ex_file 0 = {}" by (auto simp: fblocks_def i)
  moreover have "length (icache ex_file) = 1" by (simp add: ex_file_def)
  ultimately show "file_ok ex_file 0 4" using \<open>\<And>n. n < 140 \<Longrightarrow> ptr ex_file 0 n = 0\<close> i
    by (simp add: file_ok_def)
  show "inode_below ex_file 0" "i_type (ino ex_file 0) \<noteq> T_DEV" "i_size (ino ex_file 0) = 0" "fdev ex_file 0 = 1"
    by (simp_all add: inode_below_def IBLOCK_def IPB_def BSIZE_val ex_file_def ex_fs_def T_DEV_def T_FILE_def)
qed

lemma ex_file_nfree: "4 \<le> nfree ex_file 1"
proof -
  have sz: "unat (sb_size (sb ex_file)) = 16" by (simp add: ex_file_def)
  have "{5, 6, 7, 8} \<subseteq> {c. c < unat (sb_size (sb ex_file)) \<and> \<not> used ex_file 1 c}"
    using ex_file_used by (simp add: sz)
  then have "card {5, 6, 7, 8 :: nat} \<le> nfree ex_file 1" unfolding nfree_def by (intro card_mono) simp_all
  then show ?thesis by simp
qed


end
