(* ===== verification/Xv6_Execload.thy ===== *)
theory Xv6_Execload
  imports Xv6_Execstack Xv6_Rw
begin

text \<open>Loading a segment: the bytes of the file at the addresses of the new program.\<close>

unbundle bit_operations_syntax

section \<open>Reading a part of a file that has all its blocks\<close>

definition has_blocks :: "'a fs_scheme \<Rightarrow> nat \<Rightarrow> nat \<Rightarrow> nat \<Rightarrow> bool" where
  "has_blocks f ip lo hi \<longleftrightarrow> (\<forall>x. lo \<le> x \<and> x < hi \<longrightarrow> ptr f ip (x div 512) \<noteq> 0)"

lemma readi_present:
  assumes ok: "file_ok f ip D" and ty: "i_type (ino f ip) \<noteq> T_DEV" and sz: "unat (i_size (ino f ip)) \<le> 71680"
    and n: "unat off + unat n \<le> unat (i_size (ino f ip))" and h: "has_blocks f ip (unat off) (unat off + unat n)"
  shows "readi ip off n f = Val (uint n, map (fbyte f ip) [unat off..<unat off + unat n], f)"
proof -
  have on: "unat (off + n) = unat off + unat n" by (rule unat_add_no_wrap) (use n sz in simp)
  obtain bs where l: "readi_loop ip (unat off) (unat n) f = Val (bs, f)"
    using readi_loop_hit [of "unat off" "unat n" f ip] n sz h by (auto simp: has_blocks_def)
  have "bs = map (fbyte f ip) [unat off..<unat off + unat n]"
    using readi_loop_spec [OF ok _ l] n sz by simp
  moreover have "readi ip off n f = andthen (readi_loop ip (unat off) (unat n) f) (\<lambda>(bs, t). Val (uint n, bs, t))"
    using ty n on by (simp add: readi_def Let_def word_less_nat_alt)
  ultimately show ?thesis using l by simp
qed

section \<open>One page\<close>

lemma load_page:
  assumes ok: "uvm_ok v vs d" and a: "unat a mod 4096 = 0" and u: "user v d (vpn a)" and n: "length bs \<le> 4096"
  shows "walkpgdir d a False v = (tab v d (vpn a div 1024) + 4 * PTX a, v)"
    "tab v d (vpn a div 1024) + 4 * PTX a \<noteq> 0"
    "uvm_ok (v\<lparr>pm := put_bytes (phys (P2V (PTE_ADDR (rd32 (tab v d (vpn a div 1024) + 4 * PTX a) v)))) bs (pm v)\<rparr>) vs d"
    "wrote v d (unat a) bs (v\<lparr>pm := put_bytes (phys (P2V (PTE_ADDR (rd32 (tab v d (vpn a div 1024) + 4 * PTX a) v)))) bs (pm v)\<rparr>)"
proof -
  note D = uvm_okD(1) [OF ok]
  have h: "has_tab v d (vpn a div 1024)" by (rule user_has_tab [OF u])
  show "walkpgdir d a False v = (tab v d (vpn a div 1024) + 4 * PTX a, v)" by (rule walk_present [OF dir_okD(2) [OF D] h])
  show "tab v d (vpn a div 1024) + 4 * PTX a \<noteq> 0" by (rule entry_slot(2) [OF D h])
  have f: "P2V (PTE_ADDR (rd32 (tab v d (vpn a div 1024) + 4 * PTX a) v)) = frame v d (vpn a)"
    by (simp add: entry_slot(3) [OF D h] frame_def)
  define m where "m = put_bytes (phys (frame v d (vpn a))) bs (pm v)"
  have mm: "\<forall>x. m x = (if phys (frame v d (vpn a)) \<le> x \<and> x < phys (frame v d (vpn a)) + length bs
      then bs ! (x - phys (frame v d (vpn a))) else pm v x)"
    by (simp add: m_def put_bytes_def)
  have n': "unat a mod 4096 + length bs \<le> 4096" using a n by simp
  have e: "phys (frame v d (vpn a)) = phys (frame v d (unat a div 4096)) + unat a mod 4096" using a by (simp add: vpn_def)
  note w = write_chunk [of v vs d "unat a" "length bs" m _ "\<lambda>k. bs ! k", OF ok _ n' mm e, folded vpn_def, OF u]
  show "uvm_ok (v\<lparr>pm := put_bytes (phys (P2V (PTE_ADDR (rd32 (tab v d (vpn a div 1024) + 4 * PTX a) v)))) bs (pm v)\<rparr>) vs d"
    unfolding f m_def [symmetric] by (rule w(1))
  show "wrote v d (unat a) bs (v\<lparr>pm := put_bytes (phys (P2V (PTE_ADDR (rd32 (tab v d (vpn a div 1024) + 4 * PTX a) v)))) bs (pm v)\<rparr>)"
    unfolding f m_def [symmetric] using w(2,4) by (simp add: wrote_def)
qed

section \<open>The loop\<close>

lemma loaduvm_loop_loads:
  assumes fo: "file_ok f ip D" "i_type (ino f ip) \<noteq> T_DEV" "unat (i_size (ino f ip)) \<le> 71680"
    and rng: "unat off + unat sz \<le> unat (i_size (ino f ip))" "has_blocks f ip (unat off) (unat off + unat sz)"
    and a: "unat addr mod 4096 = 0" "unat addr + unat sz \<le> 2147483648"
  shows "unat i mod 4096 = 0 \<Longrightarrow> unat sz - unat i \<le> 4096 * n \<Longrightarrow> uvm_ok v vs d \<Longrightarrow>
    \<forall>x. unat addr \<le> x \<and> x < unat addr + unat sz \<longrightarrow> user v d (x div 4096) \<Longrightarrow>
    \<exists>w. loaduvm_loop n d addr ip off sz i f v = Val (0, f, w) \<and> uvm_ok w vs d \<and>
      wrote v d (unat addr + unat i) (map (fbyte f ip) [unat off + unat i..<unat off + unat sz]) w"
proof (induction n arbitrary: i v)
  case 0
  then have "\<not> i < sz" by (simp add: word_less_nat_alt)
  then show ?case using 0 unfolding loaduvm_loop.simps [of 0 d addr ip off sz i f v]
    by (simp add: word_less_nat_alt wrote_none)
next
  case (Suc n)
  note sl = loaduvm_loop.simps [of "Suc n" d addr ip off sz i f v]
  show ?case
  proof (cases "i < sz")
    case False
    then show ?thesis using Suc.prems unfolding sl by (simp add: word_less_nat_alt wrote_none)
  next
    case True
    then have lt: "unat i < unat sz" by (simp add: word_less_nat_alt)
    define m where "m = (if sz - i < of_nat PGSIZE then sz - i else of_nat PGSIZE)"
    have m: "unat m = min 4096 (unat sz - unat i)"
      using lt by (simp add: m_def word_less_nat_alt unat_sub_uint PGSIZE_def min_def)
    have ai: "unat (addr + i) = unat addr + unat i" by (rule unat_add_no_wrap) (use a(2) lt in simp)
    have oi: "unat (off + i) = unat off + unat i" by (rule unat_add_no_wrap) (use rng(1) fo(3) lt in simp)
    have am: "unat (addr + i) mod 4096 = 0" unfolding ai using a(1) Suc.prems(1) by (metis mod_0_imp_dvd dvd_add dvd_imp_mod_0)
    define bs where "bs = map (fbyte f ip) [unat off + unat i..<unat off + unat i + unat m]"
    have "readi ip (off + i) m f = Val (uint m, map (fbyte f ip) [unat (off + i)..<unat (off + i) + unat m], f)"
      by (rule readi_present [OF fo]) (use rng lt m in \<open>auto simp: oi has_blocks_def\<close>)
    then have rd: "readi ip (off + i) m f = Val (uint m, bs, f)" by (simp add: oi bs_def)
    have u: "user v d (vpn (addr + i))" using Suc.prems(4) lt unfolding vpn_def ai by simp
    have lb: "length bs = unat m" "length bs \<le> 4096" using m by (simp_all add: bs_def)
    note pg = load_page [OF Suc.prems(3) am u lb(2)]
    define v2 where "v2 = v\<lparr>pm := put_bytes (phys (P2V (PTE_ADDR (rd32 (tab v d (vpn (addr + i) div 1024) + 4 * PTX (addr + i)) v)))) bs (pm v)\<rparr>"
    have st: "loaduvm_loop (Suc n) d addr ip off sz i f v = loaduvm_loop n d addr ip off sz (i + of_nat PGSIZE) f v2"
      unfolding sl m_def [symmetric] Let_def using True pg(1,2) rd by (simp add: v2_def)
    have w2: "uvm_ok v2 vs d" "wrote v d (unat addr + unat i) bs v2" using pg(3,4) by (simp_all add: v2_def ai)
    have i': "unat (i + of_nat PGSIZE) = unat i + 4096"
      by (subst unat_add_no_wrap) (use lt a(2) in \<open>simp_all add: PGSIZE_def\<close>)
    have u2: "user v2 d = user v d" by (rule wrote_user [OF w2(2)])
    have "\<exists>w. loaduvm_loop n d addr ip off sz (i + of_nat PGSIZE) f v2 = Val (0, f, w) \<and> uvm_ok w vs d \<and>
        wrote v2 d (unat addr + unat (i + of_nat PGSIZE)) (map (fbyte f ip) [unat off + unat (i + of_nat PGSIZE)..<unat off + unat sz]) w"
      by (rule Suc.IH) (use Suc.prems i' w2(1) u2 in auto)
    then obtain w where w: "loaduvm_loop n d addr ip off sz (i + of_nat PGSIZE) f v2 = Val (0, f, w)" "uvm_ok w vs d"
        "wrote v2 d (unat addr + unat i + 4096) (map (fbyte f ip) [unat off + unat i + 4096..<unat off + unat sz]) w"
      unfolding i' by (auto simp: add.assoc)
    have "wrote v d (unat addr + unat i) (map (fbyte f ip) [unat off + unat i..<unat off + unat sz]) w"
    proof (cases "unat i + 4096 \<le> unat sz")
      case True
      then have "unat m = 4096" using m by simp
      then have "map (fbyte f ip) [unat off + unat i..<unat off + unat sz] =
          bs @ map (fbyte f ip) [unat off + unat i + 4096..<unat off + unat sz]"
        using True upt_add_eq_append [of "unat off + unat i" "unat off + unat i + 4096" "unat sz - (unat i + 4096)"]
        by (simp add: bs_def add.assoc)
      then show ?thesis using wrote_trans [OF w2(2)] w(3) lb \<open>unat m = 4096\<close> by simp
    next
      case False
      then have "unat m = unat sz - unat i" using m by simp
      then have b: "bs = map (fbyte f ip) [unat off + unat i..<unat off + unat sz]" using lt by (simp add: bs_def)
      have e: "[unat off + unat i + 4096..<unat off + unat sz] = []" using False by simp
      have "wrote v2 d (unat addr + unat i + 4096) [] w" using w(3) unfolding e by simp
      then have "wrote v2 d (unat addr + unat i + length bs) [] w" by (auto simp: wrote_def)
      then show ?thesis using wrote_trans [OF w2(2), of "[]" w] b by simp
    qed
    then show ?thesis using st w(1,2) by auto
  qed
qed

text \<open>
  C14: loading a segment.  When the pages of the segment are mapped and the file has the bytes, \<open>loaduvm\<close>
  returns 0 and afterwards the memory of the program holds at \<open>addr\<close> the \<open>sz\<close> bytes of the file from \<open>off\<close>
  on, page by page through the page table and block by block through the inode; the rest of the program's
  memory, its page table and the file system are unchanged.
\<close>

theorem loaduvm_loads:
  assumes "uvm_ok v vs d" and "file_ok f ip D" and "i_type (ino f ip) \<noteq> T_DEV" and "unat (i_size (ino f ip)) \<le> 71680"
    and "unat off + unat sz \<le> unat (i_size (ino f ip))" and "has_blocks f ip (unat off) (unat off + unat sz)"
    and "unat addr mod 4096 = 0" and "unat addr + unat sz \<le> 2147483648"
    and "\<forall>x. unat addr \<le> x \<and> x < unat addr + unat sz \<longrightarrow> user v d (x div 4096)"
  shows "\<exists>w. loaduvm d addr ip off sz f v = Val (0, f, w) \<and> uvm_ok w vs d \<and>
    (\<forall>m < 1048576. entry w d m = entry v d m) \<and>
    (\<forall>x. user v d (x div 4096) \<longrightarrow> umem w d x =
       (if unat addr \<le> x \<and> x < unat addr + unat sz then fbyte f ip (unat off + (x - unat addr)) else umem v d x))"
proof -
  have "\<exists>w. loaduvm_loop 1048576 d addr ip off sz 0 f v = Val (0, f, w) \<and> uvm_ok w vs d \<and>
      wrote v d (unat addr + unat (0 :: uint)) (map (fbyte f ip) [unat off + unat (0 :: uint)..<unat off + unat sz]) w"
    by (rule loaduvm_loop_loads [OF assms(2-8)]) (use assms(1,8,9) in simp_all)
  then obtain w where w: "loaduvm_loop 1048576 d addr ip off sz 0 f v = Val (0, f, w)" "uvm_ok w vs d"
      "wrote v d (unat addr) (map (fbyte f ip) [unat off..<unat off + unat sz]) w" by auto
  have "loaduvm d addr ip off sz f v = Val (0, f, w)" using w(1) assms(7) by (simp add: loaduvm_def PGSIZE_def)
  moreover have "umem w d x = (if unat addr \<le> x \<and> x < unat addr + unat sz then fbyte f ip (unat off + (x - unat addr)) else umem v d x)"
    if "user v d (x div 4096)" for x
  proof -
    have "map (fbyte f ip) [unat off..<unat off + unat sz] ! (x - unat addr) = fbyte f ip (unat off + (x - unat addr))"
      if "unat addr \<le> x" "x < unat addr + unat sz"
      using that by (subst nth_map_upt) (simp_all add: less_diff_conv2)
    then show ?thesis using w(3) \<open>user v d (x div 4096)\<close> by (auto simp: wrote_def)
  qed
  ultimately show ?thesis using w(2,3) by (intro exI [of _ w]) (simp add: wrote_def)
qed

text \<open>A file of three bytes in block 4, and a process of one page.\<close>

definition ex_prog :: fs where
  "ex_prog = ex_file\<lparr>blk := (blk ex_file)(1 := (blk ex_file 1)(4 := (\<lambda>k. of_nat (65 + k)))),
     icache := [(ino ex_file 0)\<lparr>i_size := 3, i_addrs := 4 # replicate 12 0\<rparr>]\<rparr>"

lemma ex_prog_ok: "file_ok ex_prog 0 4" "has_blocks ex_prog 0 0 3" "i_type (ino ex_prog 0) \<noteq> T_DEV"
    "unat (i_size (ino ex_prog 0)) = 3" "fbyte ex_prog 0 1 = 66"
proof -
  have i: "i_addrs (ino ex_prog 0) = 4 # replicate 12 0" "fdev ex_prog 0 = 1" "unat (i_size (ino ex_prog 0)) = 3"
    by (simp_all add: ex_prog_def ex_file_def)
  have u: "used ex_prog 1 b = used ex_file 1 b" if "b < 16" for b
    using that by (simp add: used_def BBLOCK_def ex_prog_def ex_file_def ex_fs_def BPB_val)
  have p: "ptr ex_prog 0 n = (if n = 0 then 4 else 0)" if "n < 140" for n
    using that by (cases n) (auto simp: ptr_def i)
  have p0: "ptr ex_prog 0 0 = 4" using p [of 0] by simp
  have pn: "n = 0" if "n < 140" "ptr ex_prog 0 n \<noteq> 0" for n using p [OF that(1)] that(2) by (simp split: if_splits)
  have pi: "m = n" if "m < 140" "n < 140" "ptr ex_prog 0 n \<noteq> 0" "ptr ex_prog 0 m = ptr ex_prog 0 n" for m n
    using pn [OF that(2,3)] pn [OF that(1)] that(3,4) by simp
  have "ind ex_prog 0 = 0" by (simp add: i)
  then have "fblocks ex_prog 0 = {4}" using p0 pn by (auto simp: fblocks_def)
  moreover
  have "layout ex_prog 1 4" using ex_file_used u by (simp add: layout_def ex_prog_def ex_file_def ex_fs_def BPB_val)
  moreover have "taken ex_prog 1 4 4"
    using u [of 4] ex_file_used [of 4] by (simp add: taken_def ex_prog_def ex_file_def)
  moreover have "length (icache ex_prog) = 1" by (simp add: ex_prog_def)
  ultimately show "file_ok ex_prog 0 4" using i pi by (auto simp: file_ok_def)
  show "has_blocks ex_prog 0 0 3" using p by (simp add: has_blocks_def)
  show "i_type (ino ex_prog 0) \<noteq> T_DEV" by (simp add: ex_prog_def ex_file_def T_DEV_def T_FILE_def)
  show "unat (i_size (ino ex_prog 0)) = 3" by (rule i(3))
  show "fbyte ex_prog 0 1 = 66" using p [of 0] i(2) by (simp add: fbyte_def ex_prog_def)
qed

theorem loaduvm_loads_witness:
  "\<exists>(v :: kstate) w. loaduvm 0x80101000 0 0 0 3 ex_prog v = Val (0, ex_prog, w) \<and> umem w 0x80101000 1 = 66"
proof -
  let ?d = "0x80101000 :: uint"
  obtain v :: kstate and ws where v: "uvm_ok v ws ?d" "new_page v ?d 0" using one_page_space by blast
  have u: "user v ?d 0" using new_user [OF v(2)] by simp
  have z: "unat (0 :: uint) = 0" "unat (3 :: uint) = 3" by simp_all
  have "\<exists>w. loaduvm ?d 0 0 0 3 ex_prog v = Val (0, ex_prog, w) \<and> uvm_ok w ws ?d \<and>
      (\<forall>m < 1048576. entry w ?d m = entry v ?d m) \<and>
      (\<forall>x. user v ?d (x div 4096) \<longrightarrow> umem w ?d x =
         (if unat (0 :: uint) \<le> x \<and> x < unat (0 :: uint) + unat (3 :: uint)
          then fbyte ex_prog 0 (unat (0 :: uint) + (x - unat (0 :: uint))) else umem v ?d x))"
    by (rule loaduvm_loads [OF v(1) ex_prog_ok(1,3)]) (use ex_prog_ok u in \<open>auto simp: z\<close>)
  then obtain w where w: "loaduvm ?d 0 0 0 3 ex_prog v = Val (0, ex_prog, w)"
      "\<forall>x. user v ?d (x div 4096) \<longrightarrow> umem w ?d x = (if x < 3 then fbyte ex_prog 0 x else umem v ?d x)"
    by auto
  then have "umem w ?d 1 = 66" using u ex_prog_ok(5) by simp
  then show ?thesis using w(1) by blast
qed

end
