(* ===== verification/Xv6_Sysexec.thy ===== *)
theory Xv6_Sysexec
  imports Xv6_Login Xv6_Exec
begin

text \<open>\<open>sys_exec\<close> of \<open>sysfile.c\<close>: the path and the argument vector from user memory.\<close>

text \<open>The loop over the vector, \<open>k\<close> places of \<open>argv\<close> left; a string is its address and length.\<close>

fun exec_args :: "uproc \<Rightarrow> uint \<Rightarrow> nat \<Rightarrow> nat \<Rightarrow> (uint \<times> nat) list option" where
  "exec_args p uargv i 0 = None"
| "exec_args p uargv i (Suc k) =
     (case fetchint p (uargv + 4 * of_nat i) of
        None \<Rightarrow> None
      | Some uarg \<Rightarrow>
          if uarg = 0 then Some []
          else (case fetchstr p uarg of
                  None \<Rightarrow> None
                | Some s \<Rightarrow> map_option ((#) s) (exec_args p uargv (i + 1) k)))"

definition user_bytes :: "uproc \<Rightarrow> uint \<times> nat \<Rightarrow> byte list" where
  "user_bytes p s = map (\<lambda>k. Xv6_Login.umem p (fst s + of_nat k)) [0..<snd s]"

definition sys_exec :: "uint \<Rightarrow> uproc \<Rightarrow> image \<Rightarrow> (int \<times> image) outcome" where
  "sys_exec kdata p x =
     (case (argstr p 0, argint p 1) of
        (Some path, Some uargv) \<Rightarrow>
          (case exec_args p uargv 0 MAXARG of
             None \<Rightarrow> Val (- 1, x)
           | Some as \<Rightarrow> exec kdata (map chr_of_byte (user_bytes p path)) (map (user_bytes p) as) x)
      | _ \<Rightarrow> Val (- 1, x))"

text \<open>At most 31 arguments get through, so the check of \<open>exec\<close> against \<open>MAXARG\<close> never fails here.\<close>

lemma exec_args_length: "exec_args p uargv i k = Some as \<Longrightarrow> length as < k"
  by (induction k arbitrary: i as) (fastforce split: option.splits if_splits)+

text \<open>Every argument lies in the process with its NUL, and has no NUL before.\<close>

lemma exec_args_inside:
  assumes "exec_args p uargv i k = Some as" "(a, n) \<in> set as"
  shows "unat a + n < unat (sz p) \<and> Xv6_Login.umem p (a + of_nat n) = 0 \<and> 0 \<notin> set (user_bytes p (a, n))"
  using assms
proof (induction k arbitrary: i as)
  case (Suc k)
  obtain u where u: "fetchint p (uargv + 4 * of_nat i) = Some u" using Suc.prems(1) by (auto split: option.splits)
  have "u \<noteq> 0" using Suc.prems u by auto
  then obtain b bs where b: "fetchstr p u = Some b" "exec_args p uargv (i + 1) k = Some bs" "as = b # bs"
    using Suc.prems(1) u by (auto split: option.splits)
  show ?case
  proof (cases "(a, n) = b")
    case True
    then have s: "a = u" "\<not> sz p \<le> u" "str_scan (Xv6_Login.umem p) u (unat (sz p) - unat u) = Some n"
      using b(1) by (auto simp: fetchstr_def split: if_splits)
    have "unat u + (unat (sz p) - unat u) \<le> 4294967295"
      using s(2) unat_lt_32 [of "sz p"] unfolding word_le_nat_alt by linarith
    note r = str_scan_Some [OF s(3) this]
    have "unat u < unat (sz p)" using s(2) by (simp add: word_le_nat_alt)
    then show ?thesis using r s(1) by (auto simp: user_bytes_def less_diff_conv)
  next
    case False
    then show ?thesis using Suc.IH [OF b(2)] Suc.prems(2) b(3) by simp
  qed
qed simp

end
