(* ===== verification/Xv6_Inode.thy ===== *)
theory Xv6_Inode
  imports Xv6_Rw
begin

text \<open>The on-disk inode: what \<open>iupdate\<close> stores is what \<open>ilock\<close> loads.\<close>

unbundle bit_operations_syntax

section \<open>Fields\<close>

lemma word16_bytes: "(ucast (ucast w :: byte) :: 16 word) OR push_bit 8 (ucast (ucast (drop_bit 8 w) :: byte)) = w"
  by (rule bit_word_eqI) (auto simp: bit_simps)

lemma ld16_st16 [simp]: "ld16 (st16 a w m) a = w"
  by (simp add: ld16_def st16_def word16_bytes)

lemma field_other:
  "b + 2 \<le> a \<or> a + 2 \<le> b \<Longrightarrow> ld16 (st16 a w m) b = ld16 m b"
  "b + 2 \<le> a \<or> a + 4 \<le> b \<Longrightarrow> ld16 (st32 a v m) b = ld16 m b"
  "b + 4 \<le> a \<or> a + 2 \<le> b \<Longrightarrow> ld32 (st16 a w m) b = ld32 m b"
  "c < a \<or> a + 2 \<le> c \<Longrightarrow> st16 a w m c = m c"
  by (auto simp: ld16_def st16_def ld32_def st32_def)

lemma put_addrs_fold:
  "fold (\<lambda>k. st32 (a + 4 * k) (ws ! k)) [0..<n] m b = m b" if "b < a \<or> a + 4 * n \<le> b"
  using that by (induction n) (auto simp: st32_other)

lemma put_addrs_field:
  "j < n \<Longrightarrow> ld32 (fold (\<lambda>k. st32 (a + 4 * k) (ws ! k)) [0..<n] m) (a + 4 * j) = ws ! j"
  by (induction n) (auto simp: ld32_st32_slot)

lemma put_addrs_other: "b < a \<or> a + 52 \<le> b \<Longrightarrow> put_addrs a ws m b = m b"
  using put_addrs_fold [of b a 13] by (simp add: put_addrs_def NDIRECT_def)

lemma get_put_addrs: "length ws = 13 \<Longrightarrow> get_addrs a (put_addrs a ws m) = ws"
  using put_addrs_field [of _ 13 a ws m]
  by (intro nth_equalityI) (simp_all add: get_addrs_def put_addrs_def NDIRECT_def del: upt_Suc)

lemma ld_put_addrs:
  "b + 2 \<le> a \<Longrightarrow> ld16 (put_addrs a ws m) b = ld16 m b" "b + 4 \<le> a \<Longrightarrow> ld32 (put_addrs a ws m) b = ld32 m b"
  by (auto simp: ld16_def ld32_def put_addrs_other)

text \<open>The 13 bits of the link count and the 3 bits of the mode share 16 bits.\<close>

lemma bitfields:
  fixes n :: "16 word" and m :: uint
  defines "w \<equiv> (n AND 0x1FFF) OR push_bit 13 (ucast (m AND 7))"
  shows "w AND 0x1FFF = n AND 0x1FFF" "(ucast (drop_bit 13 w) :: uint) = m AND 7"
proof -
  have s: "(0x1FFF :: 16 word) = mask 13" "(7 :: uint) = mask 3" by (simp_all add: mask_eq_exp_minus_1)
  show "w AND 0x1FFF = n AND 0x1FFF" unfolding w_def s
    by (rule bit_word_eqI) (auto simp: bit_simps)
  show "(ucast (drop_bit 13 w) :: uint) = m AND 7" unfolding w_def s
    by (rule bit_word_eqI) (auto simp: bit_simps)
qed

section \<open>The inode block\<close>

definition inode_image :: "inode \<Rightarrow> nat \<Rightarrow> memory \<Rightarrow> memory" where
  "inode_image i a m =
     put_addrs (a + 12) (i_addrs i) (st32 (a + 8) (i_size i)
       (st16 (a + 6) ((i_nlink i AND 0x1FFF) OR push_bit 13 (ucast (i_mode i AND 7)))
         (st16 (a + 4) (i_minor i) (st16 (a + 2) (i_major i) (st16 a (i_type i) m)))))"

lemma iupdate_image:
  "iupdate ip s = (let i = ino s ip; ib = IBLOCK (i_inum i) s
     in wblk (i_dev i) ib (inode_image i (dino_off (i_inum i)) (blk s (i_dev i) ib)) s)"
  by (simp add: iupdate_def inode_image_def Let_def)

lemma inode_image_fields:
  "ld16 (inode_image i a m) a = i_type i" "ld16 (inode_image i a m) (a + 2) = i_major i"
  "ld16 (inode_image i a m) (a + 4) = i_minor i" "ld32 (inode_image i a m) (a + 8) = i_size i"
  "ld16 (inode_image i a m) (a + 6) = (i_nlink i AND 0x1FFF) OR push_bit 13 (ucast (i_mode i AND 7))"
  "length (i_addrs i) = 13 \<Longrightarrow> get_addrs (a + 12) (inode_image i a m) = i_addrs i"
  by (simp_all add: inode_image_def ld_put_addrs get_put_addrs field_other)

lemma inode_image_other: "b < a \<or> a + 64 \<le> b \<Longrightarrow> inode_image i a m b = m b"
  by (auto simp: inode_image_def put_addrs_other st32_other field_other(4))

lemma dino_off_disjoint:
  assumes "i \<noteq> j" "IBLOCK i s = IBLOCK j s"
  shows "dino_off i + 64 \<le> dino_off j \<or> dino_off j + 64 \<le> dino_off i"
proof -
  have u: "unat (of_nat (unat k div IPB) :: uint) = unat k div IPB" for k :: uint
  proof (rule unat_of_nat_uint)
    have "unat k div IPB \<le> unat k" by (rule div_le_dividend)
    then show "unat k div IPB < 4294967296" using unat_lt_32 [of k] by linarith
  qed
  have "(of_nat (unat i div IPB) :: uint) = of_nat (unat j div IPB)" using assms(2) by (simp add: IBLOCK_def)
  then have "unat i div IPB = unat j div IPB" using u by metis
  then have "unat i mod IPB \<noteq> unat j mod IPB" using assms(1) div_mult_mod_eq [of "unat i" IPB] div_mult_mod_eq [of "unat j" IPB]
    by (metis word_unat_eq_iff)
  then have "unat i mod IPB + 1 \<le> unat j mod IPB \<or> unat j mod IPB + 1 \<le> unat i mod IPB" by linarith
  then show ?thesis unfolding dino_off_def by linarith
qed

text \<open>
  C34: inodes survive their cache slot.  After \<open>iupdate\<close>, dropping the cached copy and locking the
  inode again loads the same type, device numbers, size and addresses; the link count comes back modulo
  2^13 and the mode modulo 2^3, the widths of their bit fields; an inode without type panics.  Neither
  another block nor another inode of the same block has changed.
\<close>

theorem iupdate_ilock:
  assumes ip: "ip < length (icache s)" and len: "length (i_addrs (ino s ip)) = 13"
    and ref: "1 \<le> i_ref (ino s ip)" "i_holder (ino s ip) = None"
  shows "(ilock ip (upd_ino ip (\<lambda>i. i\<lparr>i_valid := False\<rparr>) (iupdate ip s)) =
      (if i_type (ino s ip) = 0 then Panic ''ilock: no type''
       else Val (upd_ino ip (\<lambda>i. i\<lparr>i_holder := Some (cur s), i_nlink := i_nlink i AND 0x1FFF,
         i_mode := i_mode i AND 7, i_valid := True\<rparr>) (iupdate ip s)))) \<and>
    (\<not> (e = i_dev (ino s ip) \<and> b = IBLOCK (i_inum (ino s ip)) s) \<longrightarrow> blk (iupdate ip s) e b = blk s e b) \<and>
    (j \<noteq> i_inum (ino s ip) \<and> IBLOCK j s = IBLOCK (i_inum (ino s ip)) s \<and> dino_off j \<le> k \<and> k < dino_off j + 64 \<longrightarrow>
       blk (iupdate ip s) (i_dev (ino s ip)) (IBLOCK j s) k = blk s (i_dev (ino s ip)) (IBLOCK j s) k)" (is "?load \<and> ?other \<and> ?same")
proof -
  let ?i = "ino s ip"
  let ?ib = "IBLOCK (i_inum ?i) s" and ?a = "dino_off (i_inum ?i)"
  define d where "d = inode_image ?i ?a (blk s (i_dev ?i) ?ib)"
  have u: "iupdate ip s = wblk (i_dev ?i) ?ib d s" by (simp add: iupdate_image d_def Let_def)
  have I: "IBLOCK j (wblk e c m s) = IBLOCK j s" "IBLOCK j (upd_ino ip f s') = IBLOCK j s'" for j e c m f s'
    by (simp_all add: IBLOCK_def upd_ino_def)
  note f = inode_image_fields [of ?i ?a "blk s (i_dev ?i) ?ib", folded d_def]
  have bf: "ld16 d (?a + 6) AND 0x1FFF = i_nlink ?i AND 0x1FFF" "(ucast (drop_bit 13 (ld16 d (?a + 6))) :: uint) = i_mode ?i AND 7"
    unfolding f(5) by (rule bitfields)+
  have ?load
    using ip ref by (simp add: ilock_def Let_def u I f(1-4) f(6) [OF len] bf upd_ino_def IBLOCK_def del: add_2_eq_Suc')
  moreover have ?other by (simp add: u)
  moreover have ?same
    using dino_off_disjoint [of j "i_inum ?i" s] by (auto simp: u d_def intro!: inode_image_other)
  ultimately show ?thesis by blast
qed

lemma iupdate_ilock_witness:
  "ilock 0 (upd_ino 0 (\<lambda>i. i\<lparr>i_valid := False\<rparr>) (iupdate 0 (upd_ino 0 (\<lambda>i. i\<lparr>i_holder := None\<rparr>) ex_file))) =
    Val (upd_ino 0 (\<lambda>i. i\<lparr>i_holder := Some 1, i_nlink := i_nlink i AND 0x1FFF, i_mode := i_mode i AND 7, i_valid := True\<rparr>)
      (iupdate 0 (upd_ino 0 (\<lambda>i. i\<lparr>i_holder := None\<rparr>) ex_file)))"
  using iupdate_ilock [THEN conjunct1, of 0 "upd_ino 0 (\<lambda>i. i\<lparr>i_holder := None\<rparr>) ex_file"]
  by (simp add: upd_ino_def ex_file_def ex_fs_def T_FILE_def)

end
