(* ===== verification/Xv6_Names.thy ===== *)
theory Xv6_Names
  imports Xv6_Path
begin

text \<open>
  Path names: the loop of \<open>namex\<close> with its pointer into the path is a walk along the list of the path's
  components.
\<close>

section \<open>Components\<close>

text \<open>The path up to its NUL, cut at the slashes.\<close>

fun cut_slash :: "string \<Rightarrow> string list" where
  "cut_slash [] = [[]]"
| "cut_slash (c # cs) = (if c = CHR ''/'' then [] # cut_slash cs else (c # hd (cut_slash cs)) # tl (cut_slash cs))"

definition components :: "string \<Rightarrow> string list" where
  "components path = map (take DIRSIZ) (filter (\<lambda>w. w \<noteq> []) (cut_slash (takeWhile (\<lambda>c. c \<noteq> NUL) path)))"

lemma cut_slash_ne [simp]: "cut_slash cs \<noteq> []"
  by (cases cs) auto

lemma cut_slash_word:
  "\<forall>c \<in> set w. c \<noteq> CHR ''/'' \<Longrightarrow> cut_slash (w @ cs) = (w @ hd (cut_slash cs)) # tl (cut_slash cs)"
  by (induction w) auto

lemma components_slash: "components (skip_slash path) = components path"
  by (induction path) (auto simp: components_def skip_slash_def)

lemma components_word:
  assumes w: "w \<noteq> []" "\<forall>c \<in> set w. not_slash c" and r: "at0 r = NUL \<or> at0 r = CHR ''/''"
  shows "components (w @ r) = take DIRSIZ w # components r"
proof -
  let ?t = "takeWhile (\<lambda>c. c \<noteq> NUL) r"
  have t: "takeWhile (\<lambda>c. c \<noteq> NUL) (w @ r) = w @ ?t" using w(2) by (simp add: not_slash_def takeWhile_append2)
  have "hd (cut_slash ?t) = []" using r by (cases r) auto
  moreover have "\<forall>c \<in> set w. c \<noteq> CHR ''/''" using w(2) by (simp add: not_slash_def)
  ultimately have "cut_slash (w @ ?t) = w # tl (cut_slash ?t)" using cut_slash_word by simp
  moreover have "filter (\<lambda>w. w \<noteq> []) (cut_slash ?t) = filter (\<lambda>w. w \<noteq> []) (tl (cut_slash ?t))"
    using \<open>hd (cut_slash ?t) = []\<close> by (cases "cut_slash ?t") auto
  ultimately show ?thesis using w(1) by (simp add: components_def t)
qed

lemma components_NUL: "at0 path = NUL \<Longrightarrow> components path = []"
  by (cases path) (auto simp: components_def)

lemma skipelem_components:
  "skipelem path = (case components path of [] \<Rightarrow> None | w # ws \<Rightarrow>
     Some (w, skip_slash (dropWhile not_slash (skip_slash path))))" (is ?e)
  "components path = w # ws \<Longrightarrow> components (skip_slash (dropWhile not_slash (skip_slash path))) = ws"
proof -
  let ?s = "skip_slash path"
  let ?w = "takeWhile not_slash ?s" and ?r = "dropWhile not_slash ?s"
  have c: "components path = components ?s" by (simp add: components_slash)
  have "?e \<and> (components path = w # ws \<longrightarrow> components (skip_slash ?r) = ws)"
  proof (cases "at0 ?s = NUL")
    case True
    then show ?thesis using components_NUL [OF True] c by (simp add: skipelem_def Let_def)
  next
    case False
    then obtain a s where s: "?s = a # s" "a \<noteq> NUL" by (cases ?s) auto
    have "?s \<noteq> []" using s(1) by simp
    then have "hd ?s \<noteq> CHR ''/''" using hd_dropWhile [of "\<lambda>c. c = CHR ''/''" path] unfolding skip_slash_def by blast
    then have a: "not_slash a" using s by (simp add: not_slash_def)
    have r: "at0 ?r = NUL \<or> at0 ?r = CHR ''/''"
    proof (cases ?r)
      case (Cons x xs)
      then have "\<not> not_slash x" using hd_dropWhile [of not_slash ?s] by force
      then show ?thesis using Cons by (auto simp: not_slash_def)
    next
      case Nil
      have "at0 ?r = at0 []" by (rule arg_cong [OF Nil])
      then have "at0 ?r = NUL" by (rule trans) simp
      then show ?thesis by (rule disjI1)
    qed
    have "components (?w @ ?r) = take DIRSIZ ?w # components ?r"
      by (rule components_word [OF _ _ r]) (use s a in \<open>auto dest: set_takeWhileD\<close>)
    then have "components path = take DIRSIZ ?w # components (skip_slash ?r)"
      by (simp only: takeWhile_dropWhile_id components_slash)
    then show ?thesis using False by (simp add: skipelem_def Let_def)
  qed
  then show ?e "components path = w # ws \<Longrightarrow> components (skip_slash ?r) = ws" by blast+
qed

lemma skip_slash_end: "at0 (skip_slash r) = NUL \<longleftrightarrow> components (skip_slash r) = []"
proof
  show "at0 (skip_slash r) = NUL \<Longrightarrow> components (skip_slash r) = []" by (rule components_NUL)
  assume "components (skip_slash r) = []"
  then have "skipelem r = None" using skipelem_components(1) [of r] by (simp add: components_slash)
  then show "at0 (skip_slash r) = NUL" by (simp add: skipelem_def Let_def split: if_splits)
qed

section \<open>The walk\<close>

text \<open>The specification: from the inode \<open>ip\<close> along the names, to the last one or to its directory.\<close>

fun walk :: "bool \<Rightarrow> nat \<Rightarrow> string list \<Rightarrow> string \<Rightarrow> 'a fs_scheme \<Rightarrow> (nat option \<times> string \<times> 'a fs_scheme) outcome" where
  "walk nip ip [] name s =
     (if nip then andthen (iput ip s) (\<lambda>s1. Val (None, name, s1)) else Val (Some ip, name, s))"
| "walk nip ip (w # ws) name s =
     andthen (ilock ip s) (\<lambda>s1.
       if i_type (ino s1 ip) \<noteq> T_DIR then andthen (iunlockput ip s1) (\<lambda>s2. Val (None, w, s2))
       else if nip \<and> ws = [] then andthen (iunlock ip s1) (\<lambda>s2. Val (Some ip, w, s2))
       else andthen (dirlookup ip w s1) (\<lambda>(next, s2).
         case next of
           None \<Rightarrow> andthen (iunlockput ip s2) (\<lambda>s3. Val (None, w, s3))
         | Some (ip', _) \<Rightarrow> andthen (iunlockput ip s2) (walk nip ip' ws w)))"

lemma namex_loop_walk: "namex_loop nip ip path name s = walk nip ip (components path) name s"
proof (induction "components path" arbitrary: path ip name s)
  case Nil
  then show ?case using skipelem_components(1) [of path] namex_loop.simps [of nip ip path name s] by (simp flip: Nil)
next
  case (Cons w ws)
  let ?r = "skip_slash (dropWhile not_slash (skip_slash path))"
  have p: "components path = w # ws" using Cons(2) by simp
  have r: "components ?r = ws" by (rule skipelem_components(2) [OF p])
  have e: "at0 ?r = NUL \<longleftrightarrow> ws = []" using skip_slash_end r by simp
  have IH: "namex_loop nip ip ?r name = (walk nip ip ws name :: 'a fs_scheme \<Rightarrow> _)" for ip name
    by (rule ext) (use Cons(1) [OF r [symmetric]] r in simp)
  have "skipelem path = Some (w, ?r)" using skipelem_components(1) [of path] p by simp
  then have "namex_loop nip ip path name s = andthen (ilock ip s) (\<lambda>s1.
       if i_type (ino s1 ip) \<noteq> T_DIR then andthen (iunlockput ip s1) (\<lambda>s2. Val (None, w, s2))
       else if nip \<and> at0 ?r = NUL then andthen (iunlock ip s1) (\<lambda>s2. Val (Some ip, w, s2))
       else andthen (dirlookup ip w s1) (\<lambda>(next, s2).
         case next of
           None \<Rightarrow> andthen (iunlockput ip s2) (\<lambda>s3. Val (None, w, s3))
         | Some (ip', _) \<Rightarrow> andthen (iunlockput ip s2) (namex_loop nip ip' ?r w)))"
    using namex_loop.simps [of nip ip path name s] by simp
  then show ?case unfolding e IH p walk.simps .
qed

text \<open>
  C35: path resolution walks the components of the path: the words between slashes that are not empty,
  up to the NUL, cut to 14 characters; from the root when the path starts with a slash, otherwise from
  the current directory.  \<open>nameiparent\<close> stops one component early and gives that component's name.
\<close>

theorem namex_walk:
  "namex path nip wd s =
     (if at0 path = CHR ''/'' then andthen (iget ROOTDEV ROOTINO s) (\<lambda>(ip, t). walk nip ip (components path) [] t)
      else walk nip wd (components path) [] (upd_ino wd (\<lambda>i. i\<lparr>i_ref := i_ref i + 1\<rparr>) s))"
  unfolding namex_def idup_def namex_loop_walk by simp

end
