(* ===== verification/Xv6_Swap.thy ===== *)
theory Xv6_Swap
  imports Xv6_Vm "HOL-Library.Signed_Division"
begin

text \<open>
  Swapping in the Memory-Swap kernel: \<open>pageswap.c\<close>, its page allocator and the parts of \<open>vm.c\<close> that
  call it.  The state extends the page allocator's by the slots, the swap blocks of device 0, and the
  fields of the process table that the victim search reads.  A pair of \<open>bread\<close> and \<open>brelse\<close> reads a
  block, and \<open>bwrite\<close> in between writes it (the contract of the buffer cache); locks are the atomicity
  of one call.
\<close>

unbundle bit_operations_syntax

section \<open>State\<close>

definition SWAP_SLOT_TOTAL :: nat where "SWAP_SLOT_TOTAL = 800"
definition SWAP_BLOCKS_PER_PAGE :: nat where "SWAP_BLOCKS_PER_PAGE = 8"
definition SWAP_BLOCK_START :: nat where "SWAP_BLOCK_START = 2"
definition SWAP_BSIZE :: nat where "SWAP_BSIZE = 512"
definition PHYSTOP_sw :: uint where "PHYSTOP_sw = 0x400000"
definition PTE_A :: uint where "PTE_A = 0x20"

record swap_slot =
  page_perm :: uint
  is_free :: bool

record swproc =
  sp_unused :: bool
  sp_pid :: int
  sp_rss :: int
  sp_pgdir :: uint

text \<open>\<open>alpha\<close> and \<open>beta\<close> are set by build flags; \<open>limit\<close> is 100.  \<open>me\<close> is the index of \<open>myproc()\<close>.\<close>

record swstate = kstate +
  slots :: "swap_slot list"
  swapdisk :: "nat \<Rightarrow> memory"
  swprocs :: "swproc list"
  me :: "nat option"
  threshold :: int
  npages_to_swap :: int
  alpha :: int
  beta :: int

definition limit :: int where "limit = 100"

definition upd_slot :: "nat \<Rightarrow> (swap_slot \<Rightarrow> swap_slot) \<Rightarrow> 'a swstate_scheme \<Rightarrow> 'a swstate_scheme" where
  "upd_slot i f s = s\<lparr>slots := (slots s)[i := f (slots s ! i)]\<rparr>"

definition upd_rss :: "nat \<Rightarrow> int \<Rightarrow> 'a swstate_scheme \<Rightarrow> 'a swstate_scheme" where
  "upd_rss i d s = s\<lparr>swprocs := (swprocs s)[i := (swprocs s ! i)\<lparr>sp_rss := sp_rss (swprocs s ! i) + d\<rparr>]\<rparr>"

section \<open>Slots\<close>

definition swapInit :: "'a swstate_scheme \<Rightarrow> 'a swstate_scheme" where
  "swapInit s = s\<lparr>slots := map (\<lambda>_. \<lparr>page_perm = 0, is_free = True\<rparr>) [0..<SWAP_SLOT_TOTAL]\<rparr>"

definition findFreeSlot :: "'a swstate_scheme \<Rightarrow> int \<times> 'a swstate_scheme" where
  "findFreeSlot s =
     (case scan is_free (slots s) of
        None \<Rightarrow> (- 1, s)
      | Some i \<Rightarrow> (int i, upd_slot i (\<lambda>x. x\<lparr>is_free := False\<rparr>) s))"

definition freeSlot :: "int \<Rightarrow> 'a swstate_scheme \<Rightarrow> 'a swstate_scheme" where
  "freeSlot i s =
     (if 0 \<le> i \<and> i < int SWAP_SLOT_TOTAL then upd_slot (nat i) (\<lambda>x. x\<lparr>is_free := True, page_perm := 0\<rparr>) s else s)"

definition slot_block :: "int \<Rightarrow> nat \<Rightarrow> nat" where
  "slot_block slot i = SWAP_BLOCK_START + nat slot * SWAP_BLOCKS_PER_PAGE + i"

section \<open>Free pages\<close>

text \<open>The free list is followed to its end; it has at most one node for each page of memory.\<close>

fun count_run :: "nat \<Rightarrow> uint \<Rightarrow> 'a kstate_scheme \<Rightarrow> int \<Rightarrow> int outcome" where
  "count_run n r s tot =
     (if r = 0 then Val tot
      else case n of 0 \<Rightarrow> Asleep | Suc k \<Rightarrow> count_run k (rd32 r s) s (tot + 1))"

declare count_run.simps [simp del]

definition countFreePages :: "'a kstate_scheme \<Rightarrow> int outcome" where
  "countFreePages s = count_run 1048576 (freelist s) s 0"

definition kfrepagecnt :: "'a kstate_scheme \<Rightarrow> int outcome" where
  "kfrepagecnt s = count_run 1048576 (freelist s) s 0"

definition kfree_sw :: "uint \<Rightarrow> 'a kstate_scheme \<Rightarrow> 'a kstate_scheme outcome" where
  "kfree_sw v s =
     (if unat v mod PGSIZE \<noteq> 0 \<or> v < kend s \<or> PHYSTOP_sw \<le> V2P v then Panic ''kfree''
      else Val (s\<lparr>pm := st32 (phys v) (freelist s) (memset (pm s) (phys v) 1 PGSIZE), freelist := v\<rparr>))"

section \<open>Out\<close>

definition out_block :: "int \<Rightarrow> uint \<Rightarrow> nat \<Rightarrow> 'a swstate_scheme \<Rightarrow> 'a swstate_scheme" where
  "out_block slot pa i s =
     s\<lparr>swapdisk := (swapdisk s)(slot_block slot i :=
        (\<lambda>k. if k < SWAP_BSIZE then pm s (phys (P2V pa) + i * SWAP_BSIZE + k) else swapdisk s (slot_block slot i) k))\<rparr>"

definition swapAndPageOut :: "uint \<Rightarrow> uint \<Rightarrow> uint \<Rightarrow> 'a swstate_scheme \<Rightarrow> int \<times> 'a swstate_scheme" where
  "swapAndPageOut pgdir va pa s =
     (case findFreeSlot s of (slot, s1) \<Rightarrow>
        if slot < 0 then (- 1, s1)
        else case walkpgdir pgdir va False s1 of (pte, s2) \<Rightarrow>
          if pte = 0 then (- 1, s2)
          else if rd32 pte s2 AND PTE_P = 0 then (- 1, s2)
          else let s3 = upd_slot (nat slot) (\<lambda>x. x\<lparr>page_perm := rd32 pte s2 AND 0xFFF\<rparr>) s2;
                   s4 = fold (out_block slot pa) [0..<SWAP_BLOCKS_PER_PAGE] s3
            in (0, wr32 pte (push_bit 12 (of_int slot) OR (rd32 pte s4 AND NOT PTE_P AND 0xFFF)) s4))"

text \<open>The victim: the largest resident set, the smaller pid on a tie.\<close>

definition better_victim :: "swproc list \<Rightarrow> nat \<Rightarrow> nat option \<times> int \<Rightarrow> nat option \<times> int" where
  "better_victim ps i best =
     (let p = ps ! i
      in if \<not> sp_unused p \<and> 1 \<le> sp_pid p
         then case best of (v, maxrss) \<Rightarrow>
           if maxrss < sp_rss p \<or> sp_rss p = maxrss \<and> (case v of None \<Rightarrow> False | Some j \<Rightarrow> sp_pid p < sp_pid (ps ! j))
           then (Some i, sp_rss p) else best
         else best)"

definition findVictimProc :: "'a swstate_scheme \<Rightarrow> nat option" where
  "findVictimProc s = fst (fold (better_victim (swprocs s)) [0..<length (swprocs s)] (None, 0))"

text \<open>The page numbers of the addresses below \<open>KERNBASE\<close>.\<close>

definition user_pages :: "nat list" where
  "user_pages = [0..<unat KERNBASE div PGSIZE]"

definition page_va :: "nat \<Rightarrow> uint" where
  "page_va i = of_nat (i * PGSIZE)"

definition pte_at :: "uint \<Rightarrow> nat \<Rightarrow> 'a kstate_scheme \<Rightarrow> uint" where
  "pte_at pgdir i s = fst (walkpgdir pgdir (page_va i) False s)"

definition user_pte :: "uint \<Rightarrow> 'a kstate_scheme \<Rightarrow> nat \<Rightarrow> bool" where
  "user_pte pgdir s i \<longleftrightarrow>
     (let pte = pte_at pgdir i s in pte \<noteq> 0 \<and> rd32 pte s AND PTE_P \<noteq> 0 \<and> rd32 pte s AND PTE_U \<noteq> 0)"

definition clear_accessed :: "uint \<Rightarrow> nat \<Rightarrow> 'a kstate_scheme \<Rightarrow> 'a kstate_scheme" where
  "clear_accessed pgdir i s =
     (if user_pte pgdir s i then wr32 (pte_at pgdir i s) (rd32 (pte_at pgdir i s) s AND NOT PTE_A) s else s)"

text \<open>The result is the physical address, 0 for none, and the virtual address.\<close>

definition findVictimPage :: "uint \<Rightarrow> 'a kstate_scheme \<Rightarrow> (uint \<times> uint) \<times> 'a kstate_scheme" where
  "findVictimPage pgdir s =
     (case find (\<lambda>i. user_pte pgdir s i \<and> rd32 (pte_at pgdir i s) s AND PTE_A = 0) user_pages of
        Some i \<Rightarrow> ((PTE_ADDR (rd32 (pte_at pgdir i s) s), page_va i), s)
      | None \<Rightarrow>
          let t = fold (clear_accessed pgdir) user_pages s
          in case find (user_pte pgdir t) user_pages of
               Some i \<Rightarrow> ((PTE_ADDR (rd32 (pte_at pgdir i t) t), page_va i), t)
             | None \<Rightarrow> ((0, 0), t))"

text \<open>\<open>victim\<close> is an index of the process table, \<open>n\<close> the number of pages wanted.\<close>

function swap_out_loop :: "nat \<Rightarrow> int \<Rightarrow> int \<Rightarrow> int \<Rightarrow> 'a swstate_scheme \<Rightarrow> 'a swstate_scheme outcome" where
  "swap_out_loop victim n swapped attempts s =
     (if swapped < n \<and> attempts < n * 2
      then let pgdir = sp_pgdir (swprocs s ! victim)
        in case findVictimPage pgdir s of ((pa, va), s1) \<Rightarrow>
          if pa = 0 then Val s1
          else case swapAndPageOut pgdir va pa s1 of (r, s2) \<Rightarrow>
            if r = 0 then andthen (kfree_sw (P2V pa) (upd_rss victim (- 1) s2)) (swap_out_loop victim n (swapped + 1) (attempts + 1))
            else swap_out_loop victim n swapped (attempts + 1) s2
      else Val s)"
  by pat_completeness auto
termination by (relation "measure (\<lambda>(victim, n, swapped, attempts, s). nat (n * 2 - attempts))") auto

declare swap_out_loop.simps [simp del]

definition swapOutPages :: "'a swstate_scheme \<Rightarrow> 'a swstate_scheme outcome" where
  "swapOutPages s =
     (case findVictimProc s of None \<Rightarrow> Val s | Some victim \<Rightarrow> swap_out_loop victim (npages_to_swap s) 0 0 s)"

definition adapt :: "'a swstate_scheme \<Rightarrow> 'a swstate_scheme" where
  "adapt s =
     (let t = threshold s - (threshold s * beta s) sdiv 100;
          n = npages_to_swap s + (npages_to_swap s * alpha s) sdiv 100
      in s\<lparr>threshold := (if t < 1 then 1 else t), npages_to_swap := (if limit < n then limit else n)\<rparr>)"

definition checkAndSwap :: "'a swstate_scheme \<Rightarrow> 'a swstate_scheme outcome" where
  "checkAndSwap s =
     andthen (countFreePages s) (\<lambda>free_pages.
       if threshold s < free_pages then Val s else andthen (swapOutPages s) (\<lambda>t. Val (adapt t)))"

text \<open>An empty free list is refilled by swapping, up to twice.\<close>

definition refill :: "'a swstate_scheme \<Rightarrow> 'a swstate_scheme outcome" where
  "refill s =
     (if freelist s = 0
      then andthen (checkAndSwap s) (\<lambda>s1. if freelist s1 = 0 then checkAndSwap s1 else Val s1) else Val s)"

definition kalloc_sw :: "'a swstate_scheme \<Rightarrow> (uint \<times> 'a swstate_scheme) outcome" where
  "kalloc_sw s =
     andthen (refill s) (\<lambda>t.
       let r = freelist t
       in if r = 0 then Val (0, t)
          else let u = t\<lparr>freelist := rd32 r t\<rparr> in Val (r, u\<lparr>pm := memset (pm u) (phys r) 5 PGSIZE\<rparr>))"

text \<open>\<open>kalloc\<close> with one more round of swapping when it fails, and with two.\<close>

definition kalloc_retry :: "'a swstate_scheme \<Rightarrow> (uint \<times> 'a swstate_scheme) outcome" where
  "kalloc_retry s =
     andthen (kalloc_sw s) (\<lambda>(mem, s1). if mem = 0 then andthen (checkAndSwap s1) kalloc_sw else Val (mem, s1))"

definition kalloc_retry2 :: "'a swstate_scheme \<Rightarrow> (uint \<times> 'a swstate_scheme) outcome" where
  "kalloc_retry2 s =
     andthen (kalloc_retry s) (\<lambda>(mem, s1). if mem = 0 then andthen (checkAndSwap s1) kalloc_sw else Val (mem, s1))"

definition dup_block :: "int \<Rightarrow> int \<Rightarrow> nat \<Rightarrow> 'a swstate_scheme \<Rightarrow> 'a swstate_scheme" where
  "dup_block parent child b s =
     s\<lparr>swapdisk := (swapdisk s)(slot_block child b :=
        (\<lambda>k. if k < SWAP_BSIZE then swapdisk s (slot_block parent b) k else swapdisk s (slot_block child b) k))\<rparr>"

definition duplicateSwapSlot :: "int \<Rightarrow> 'a swstate_scheme \<Rightarrow> (int \<times> 'a swstate_scheme) outcome" where
  "duplicateSwapSlot parent s =
     (if parent < 0 \<or> int SWAP_SLOT_TOTAL \<le> parent then Val (- 1, s)
      else if is_free (slots s ! nat parent) then Val (- 1, s)
      else andthen
        (case findFreeSlot s of (c, s1) \<Rightarrow>
           if 0 \<le> c then Val (c, s1)
           else andthen (checkAndSwap s1) (\<lambda>s2. case findFreeSlot s2 of (c, s3) \<Rightarrow>
             if 0 \<le> c then Val (c, s3) else andthen (checkAndSwap s3) (\<lambda>s4. Val (findFreeSlot s4))))
        (\<lambda>(child, t).
           if child < 0 then Val (- 1, t)
           else Val (child, fold (dup_block parent child) [0..<SWAP_BLOCKS_PER_PAGE]
             (upd_slot (nat child) (\<lambda>x. x\<lparr>page_perm := page_perm (slots t ! nat parent)\<rparr>) t))))"

section \<open>Page tables\<close>

text \<open>As in the other kernels, but a new table comes from this kernel's \<open>kalloc\<close>.\<close>

definition walkpgdir_sw :: "uint \<Rightarrow> uint \<Rightarrow> bool \<Rightarrow> 'a swstate_scheme \<Rightarrow> (uint \<times> 'a swstate_scheme) outcome" where
  "walkpgdir_sw pgdir va alloc s =
     (let pde = pgdir + 4 * PDX va
      in if rd32 pde s AND PTE_P \<noteq> 0 then Val (P2V (PTE_ADDR (rd32 pde s)) + 4 * PTX va, s)
         else if \<not> alloc then Val (0, s)
         else andthen (kalloc_sw s) (\<lambda>(pgtab, s1).
           if pgtab = 0 then Val (0, s1)
           else Val (pgtab + 4 * PTX va, wr32 pde (V2P pgtab OR PTE_P OR PTE_W OR PTE_U) (zero_page pgtab s1))))"

fun mapPages_loop :: "nat \<Rightarrow> uint \<Rightarrow> uint \<Rightarrow> uint \<Rightarrow> uint \<Rightarrow> uint \<Rightarrow> 'a swstate_scheme
    \<Rightarrow> (int \<times> 'a swstate_scheme) outcome" where
  "mapPages_loop 0 pgdir a lastp pa perm s = Asleep"
| "mapPages_loop (Suc n) pgdir a lastp pa perm s =
     andthen (walkpgdir_sw pgdir a True s) (\<lambda>(pte, s1).
       if pte = 0 then Val (- 1, s1)
       else if rd32 pte s1 AND PTE_P \<noteq> 0 then Panic ''remap''
       else let s2 = wr32 pte (pa OR perm OR PTE_P) s1
            in if a = lastp then Val (0, s2)
               else mapPages_loop n pgdir (a + of_nat PGSIZE) lastp (pa + of_nat PGSIZE) perm s2)"

definition mapPages :: "uint \<Rightarrow> uint \<Rightarrow> uint \<Rightarrow> uint \<Rightarrow> uint \<Rightarrow> 'a swstate_scheme \<Rightarrow> (int \<times> 'a swstate_scheme) outcome" where
  "mapPages pgdir va sz pa perm s =
     (let a = PGROUNDDOWN va; lastp = PGROUNDDOWN (va + sz - 1)
      in mapPages_loop (Suc (unat (lastp - a) div PGSIZE)) pgdir a lastp pa perm s)"

section \<open>In\<close>

definition in_block :: "int \<Rightarrow> uint \<Rightarrow> nat \<Rightarrow> 'a swstate_scheme \<Rightarrow> 'a swstate_scheme" where
  "in_block slot mem i s =
     s\<lparr>pm := (\<lambda>a. if phys mem + i * SWAP_BSIZE \<le> a \<and> a < phys mem + i * SWAP_BSIZE + SWAP_BSIZE
                  then swapdisk s (slot_block slot i) (a - (phys mem + i * SWAP_BSIZE)) else pm s a)\<rparr>"

definition swapPageIn :: "uint \<Rightarrow> uint \<Rightarrow> 'a swstate_scheme \<Rightarrow> (int \<times> 'a swstate_scheme) outcome" where
  "swapPageIn pgdir va s =
     (let page_addr = PGROUNDDOWN va; pte = fst (walkpgdir pgdir page_addr False s)
      in if pte = 0 then Val (- 1, s)
         else if rd32 pte s AND PTE_P \<noteq> 0 then Val (0, s)
         else let slot = uint (drop_bit 12 (PTE_ADDR (rd32 pte s)))
           in if slot < 0 \<or> int SWAP_SLOT_TOTAL \<le> slot then Val (- 1, s)
              else if is_free (slots s ! nat slot) then Val (- 1, s)
              else andthen (kalloc_retry s) (\<lambda>(mem, s1).
                if mem = 0 then Val (- 1, s1)
                else let s2 = fold (in_block slot mem) [0..<SWAP_BLOCKS_PER_PAGE] s1
                  in andthen (mapPages pgdir page_addr (of_nat PGSIZE) (V2P mem) (page_perm (slots s2 ! nat slot) OR PTE_P) s2)
                    (\<lambda>(r, s3).
                      if r < 0 then andthen (kfree_sw mem s3) (\<lambda>s4. Val (- 1, s4))
                      else let s4 = freeSlot slot s3
                        in Val (0, case me s4 of None \<Rightarrow> s4 | Some p \<Rightarrow> upd_rss p 1 s4))))"

text \<open>
  The default branch of \<open>trap\<close> for a page fault of a process: whether the process goes on; otherwise it
  is marked as killed.  A fault in the kernel is a panic.
\<close>

definition trap_pgflt :: "bool \<Rightarrow> uint \<Rightarrow> uint \<Rightarrow> 'a swstate_scheme \<Rightarrow> (bool \<times> 'a swstate_scheme) outcome" where
  "trap_pgflt from_user pgdir addr s =
     (if \<not> from_user then Panic ''trap''
      else andthen (swapPageIn pgdir addr s) (\<lambda>(r, s1). Val (r = 0, s1)))"

text \<open>The slots of a process that exits.\<close>

definition clean_page :: "uint \<Rightarrow> nat \<Rightarrow> 'a swstate_scheme \<Rightarrow> 'a swstate_scheme" where
  "clean_page pgdir i s =
     (let pte = pte_at pgdir i s
      in if pte \<noteq> 0 \<and> rd32 pte s AND PTE_P = 0 \<and> rd32 pte s \<noteq> 0
         then freeSlot (uint (drop_bit 12 (PTE_ADDR (rd32 pte s)))) s else s)"

definition swapAndClean :: "uint \<Rightarrow> 'a swstate_scheme \<Rightarrow> 'a swstate_scheme" where
  "swapAndClean pgdir s = (if pgdir = 0 then s else fold (clean_page pgdir) user_pages s)"

end
