(* ===== verification/Xv6_Swapio.thy ===== *)
theory Xv6_Swapio
  imports Xv6_Swap Xv6_Copyout
begin

text \<open>
  What swapping does to an address space: a page that goes out and comes in again.
\<close>

unbundle bit_operations_syntax

section \<open>Entries of swapped pages\<close>

definition swap_entry :: "nat \<Rightarrow> uint \<Rightarrow> uint" where
  "swap_entry i e = push_bit 12 (of_nat i) OR (e AND NOT PTE_P AND 0xFFF)"

lemma mask12: "(0xFFF :: uint) = mask 12" and pte_p_bit: "bit PTE_P k \<longleftrightarrow> k = 0"
  by (simp_all add: mask_eq_exp_minus_1 PTE_P_def bit_simps)

lemma swap_entry_absent [simp]: "swap_entry i e AND PTE_P = 0"
  unfolding swap_entry_def mask12 by (rule bit_word_eqI) (auto simp: bit_simps pte_p_bit)

lemma swap_entry_addr: "PTE_ADDR (swap_entry i e) = push_bit 12 (of_nat i)"
  unfolding swap_entry_def PTE_ADDR_def mask12 by (rule bit_word_eqI) (auto simp: bit_simps)

lemma swap_entry_slot:
  assumes "i < 800"
  shows "uint (drop_bit 12 (PTE_ADDR (swap_entry i e))) = int i"
proof -
  have "drop_bit 12 (push_bit 12 (of_nat i :: uint)) = take_bit 20 (of_nat i)"
    by (rule bit_word_eqI) (auto simp: bit_simps)
  then have "unat (drop_bit 12 (PTE_ADDR (swap_entry i e))) = take_bit 20 (unat (of_nat i :: uint))"
    by (simp add: swap_entry_addr unsigned_take_bit_eq)
  also have "\<dots> = i" using assms by (simp add: unat_of_nat take_bit_nat_eq_self)
  finally show ?thesis by (metis uint_nat)
qed

section \<open>Blocks\<close>

lemma slot_block_inj: "slot_block (int i) j = slot_block (int i) k \<longleftrightarrow> j = k"
  by (simp add: slot_block_def)

lemma slot_block_other:
  "j < 8 \<Longrightarrow> k < 8 \<Longrightarrow> slot_block (int i) j = slot_block (int m) k \<longleftrightarrow> i = m \<and> j = k"
  unfolding slot_block_def SWAP_BLOCKS_PER_PAGE_def by auto presburger+

lemma out_blocks:
  fixes s :: "'a swstate_scheme" and i :: nat and pa :: uint
  defines "t \<equiv> \<lambda>n. fold (out_block (int i) pa) [0..<n] s"
  shows "t n = s\<lparr>swapdisk := swapdisk (t n)\<rparr> \<and>
    (\<forall>j < n. \<forall>k < 512. swapdisk (t n) (slot_block (int i) j) k = pm s (phys (P2V pa) + j * 512 + k)) \<and>
    (\<forall>b. (\<forall>j < n. b \<noteq> slot_block (int i) j) \<longrightarrow> swapdisk (t n) b = swapdisk s b)"
proof (induction n)
  case 0
  show ?case by (simp add: t_def)
next
  case (Suc n)
  have e: "t (Suc n) = out_block (int i) pa n (t n)" by (simp add: t_def)
  obtain D where D: "t n = s\<lparr>swapdisk := D\<rparr>" using Suc by metis
  define D' where "D' = D(slot_block (int i) n :=
    (\<lambda>k. if k < 512 then pm s (phys (P2V pa) + n * 512 + k) else D (slot_block (int i) n) k))"
  have e': "t (Suc n) = s\<lparr>swapdisk := D'\<rparr>" unfolding e D by (simp add: out_block_def SWAP_BSIZE_def D'_def cong: if_cong)
  have d: "swapdisk (t (Suc n)) = D'" "swapdisk (t n) = D" unfolding e' by (simp_all add: D)
  show ?case
  proof (rule conjI)
    show "t (Suc n) = s\<lparr>swapdisk := swapdisk (t (Suc n))\<rparr>" unfolding e' by simp
  qed (use Suc in \<open>auto simp: d D'_def slot_block_inj less_Suc_eq\<close>)
qed

lemma in_blocks:
  fixes s :: "'a swstate_scheme" and i :: nat and mem :: uint
  defines "t \<equiv> \<lambda>n. fold (in_block (int i) mem) [0..<n] s"
  shows "t n = s\<lparr>pm := pm (t n)\<rparr> \<and>
    (\<forall>j < n. \<forall>k < 512. pm (t n) (phys mem + j * 512 + k) = swapdisk s (slot_block (int i) j) k) \<and>
    (\<forall>a. a < phys mem \<or> phys mem + n * 512 \<le> a \<longrightarrow> pm (t n) a = pm s a)"
proof (induction n)
  case 0
  show ?case by (simp add: t_def)
next
  case (Suc n)
  have e: "t (Suc n) = in_block (int i) mem n (t n)" by (simp add: t_def)
  obtain m where m: "t n = s\<lparr>pm := m\<rparr>" using Suc by metis
  have "\<not> phys mem + n * 512 \<le> phys mem + j * 512 + k" if "j < n" "k < 512" for j k
  proof -
    have "Suc j * 512 \<le> n * 512" using that(1) by (intro mult_le_mono1) simp
    then show ?thesis using that(2) by simp
  qed
  moreover define m' where "m' = (\<lambda>a. if phys mem + n * 512 \<le> a \<and> a < phys mem + n * 512 + 512
    then swapdisk s (slot_block (int i) n) (a - (phys mem + n * 512)) else m a)"
  have e': "t (Suc n) = s\<lparr>pm := m'\<rparr>" unfolding e m by (simp add: in_block_def SWAP_BSIZE_def m'_def cong: if_cong)
  ultimately show ?case using Suc unfolding e' m by (auto simp: m'_def less_Suc_eq)
qed

lemma slot_record [simp]: "x\<lparr>is_free := a, page_perm := b\<rparr> = (\<lparr>page_perm = b, is_free = a\<rparr> :: swap_slot)"
  by (cases x) simp

section \<open>Address spaces\<close>

lemma same_view:
  fixes s :: "'a kstate_scheme" and t :: "'b kstate_scheme"
  assumes "pm t = pm s" "freelist t = freelist s" "kend t = kend s"
  shows "entry t d = entry s d" "own t d = own s d" "frame t d = frame s d" "user t d = user s d" "umem t d = umem s d"
    "uvm_ok t vs d = uvm_ok s vs d" "dir_ok t vs d = dir_ok s vs d" "has_tab t d = has_tab s d" "tab t d = tab s d"
proof -
  show h: "has_tab t d = has_tab s d" and g: "tab t d = tab s d" by (simp_all add: has_tab_def tab_def pde_def assms(1) fun_eq_iff)
  show e: "entry t d = entry s d" by (simp add: entry_def h g assms(1) fun_eq_iff)
  show o: "own t d = own s d" by (simp add: own_def h g)
  show f: "frame t d = frame s d" and u: "user t d = user s d" by (simp_all add: frame_def user_def e fun_eq_iff)
  show "umem t d = umem s d" by (simp add: umem_def f assms(1) fun_eq_iff)
  show w: "dir_ok t vs d = dir_ok s vs d" by (simp add: dir_ok_def free_ok_def assms h g o)
  show "uvm_ok t vs d = uvm_ok s vs d" by (simp add: uvm_ok_def frames_def w o f u assms(3))
qed

text \<open>One page loses its frame.\<close>

lemma unmap_entry:
  assumes ok: "uvm_ok s vs d" and n: "user s d n" and t: "dir_ok t vs d" "own t d = own s d" "kend t = kend s"
    and e: "\<And>m. m < 1048576 \<Longrightarrow> entry t d m = (if m = n then w else entry s d m)" and w: "w AND PTE_P = 0"
  shows "uvm_ok t vs d" "user t d m \<longleftrightarrow> user s d m \<and> m \<noteq> n" "frame s d n \<notin> frames t d"
    "user t d m \<Longrightarrow> frame t d m = frame s d m"
proof -
  note D = uvm_okD [OF ok]
  show u: "user t d m \<longleftrightarrow> user s d m \<and> m \<noteq> n" for m
    using e [of m] w by (cases "m < 1048576") (auto simp: user_def)
  show f: "frame t d m = frame s d m" if "user t d m" for m
    using that e [OF user_less [OF that]] by (auto simp: u frame_def)
  have "page_ok (kend t) p \<and> p \<notin> set vs \<and> p \<notin> own t d" if p: "p \<in> frames t d" for p
    using p f u D(2-4) t(2,3) unfolding frames_def by auto
  moreover have "inj_on (frame t d) {m. user t d m}" using D(5) f u by (auto simp: inj_on_def)
  ultimately show "uvm_ok t vs d" using t(1) by (simp add: uvm_ok_def)
  show "frame s d n \<notin> frames t d" using f u D(5) [OF _ n] unfolding frames_def by auto
qed

section \<open>Out\<close>

lemma found_slot:
  assumes "scan is_free (slots s) = Some i"
  shows "findFreeSlot s = (int i, upd_slot i (\<lambda>x. x\<lparr>is_free := False\<rparr>) s)" "i < length (slots s)"
proof -
  show "findFreeSlot s = (int i, upd_slot i (\<lambda>x. x\<lparr>is_free := False\<rparr>) s)" by (simp add: findFreeSlot_def assms)
  show "i < length (slots s)" using assms by (auto simp: scan_Some)
qed

lemma swap_out:
  fixes s :: "'a swstate_scheme"
  assumes ok: "uvm_ok s vs d" and u: "user s d (vpn va)" and i: "scan is_free (slots s) = Some i"
  obtains t :: "'a swstate_scheme" where "swapAndPageOut d va (PTE_ADDR (entry s d (vpn va))) s = (0, t)" "uvm_ok t vs d"
    "own t d = own s d" "kend t = kend s" "frame s d (vpn va) \<notin> frames t d"
    "\<And>m. m < 1048576 \<Longrightarrow> entry t d m = (if m = vpn va then swap_entry i (entry s d (vpn va)) else entry s d m)"
    "slots t = (slots s)[i := \<lparr>page_perm = entry s d (vpn va) AND 0xFFF, is_free = False\<rparr>]"
    "\<And>j k. j < 8 \<Longrightarrow> k < 512 \<Longrightarrow> swapdisk t (slot_block (int i) j) k = pm s (phys (frame s d (vpn va)) + j * 512 + k)"
    "\<And>b. \<forall>j < 8. b \<noteq> slot_block (int i) j \<Longrightarrow> swapdisk t b = swapdisk s b"
    "\<And>p. page_ok (kend s) p \<Longrightarrow> p \<notin> own s d \<Longrightarrow> page_eq s t p" "swprocs t = swprocs s" "me t = me s"
    "has_tab t d (vpn va div 1024)"
proof -
  let ?n = "vpn va"
  let ?e = "entry s d ?n" and ?f = "frame s d ?n"
  let ?p = "tab s d (?n div 1024) + 4 * PTX va"
  note D = uvm_okD [OF ok]
  note h = user_has_tab [OF u]
  note F = found_slot [OF i]
  define s1 where "s1 = upd_slot i (\<lambda>x. x\<lparr>is_free := False\<rparr>) s"
  define s3 where "s3 = upd_slot i (\<lambda>x. x\<lparr>page_perm := ?e AND 0xFFF\<rparr>) s1"
  define s4 where "s4 = fold (out_block (int i) (PTE_ADDR ?e)) [0..<8] s3"
  note B = out_blocks [where n = 8 and i = i and pa = "PTE_ADDR ?e" and s = s3, folded s4_def]
  have v1: "pm s1 = pm s" "freelist s1 = freelist s" "kend s1 = kend s" by (simp_all add: s1_def upd_slot_def)
  have v3: "pm s3 = pm s" "freelist s3 = freelist s" "kend s3 = kend s" using v1 by (simp_all add: s3_def upd_slot_def)
  obtain X where X: "s4 = s3\<lparr>swapdisk := X\<rparr>" using B by metis
  have v4: "pm s4 = pm s" "freelist s4 = freelist s" "kend s4 = kend s" by (simp_all add: X v3)
  note V1 = same_view [OF v1, where d = d] and V4 = same_view [OF v4, where d = d]
  have w1: "walkpgdir d va False s1 = (?p, s1)"
    using walk_present [of "kend s" d s1 va False] dir_okD(2) [OF D(1)] h V1(8,9) by simp
  note E = entry_slot(2,3) [OF D(1) h]
  have r1: "rd32 ?p s1 = ?e" "rd32 ?p s4 = ?e" using E(2) v1 v4 by (simp_all add: rd32_def)
  define t where "t = wr32 ?p (swap_entry i ?e) s4"
  have pr: "?e AND PTE_P \<noteq> 0" using u by (simp add: user_def)
  have run: "swapAndPageOut d va (PTE_ADDR ?e) s = (0, t)"
    using F E(1) pr
    by (simp add: swapAndPageOut_def s1_def [symmetric] w1 r1 Let_def s3_def [symmetric] SWAP_BLOCKS_PER_PAGE_def
        s4_def [symmetric] t_def swap_entry_def)
  have d4: "dir_ok s4 vs d" "has_tab s4 d (?n div 1024)" "tab s4 d (?n div 1024) = tab s d (?n div 1024)"
    using D(1) h V4 by simp_all
  note W = write_entry [OF d4(1,2), where w = "swap_entry i ?e", unfolded d4(3), folded t_def]
  have kt: "kend t = kend s" by (simp add: t_def wr32_def v4)
  have et: "entry t d m = (if m = ?n then swap_entry i ?e else entry s d m)" if "m < 1048576" for m
    using W(2) [OF that] V4(1) by simp
  have ot: "own t d = own s d" using W(4) V4(2) by simp
  note U = unmap_entry [OF ok u W(3) ot kt et swap_entry_absent]
  have "slots t = (slots s)[i := \<lparr>page_perm = ?e AND 0xFFF, is_free = False\<rparr>]"
    using F(2) by (simp add: t_def wr32_def X s3_def s1_def upd_slot_def)
  moreover have "phys (P2V (PTE_ADDR ?e)) = phys ?f" by (simp add: frame_def)
  then have "swapdisk t (slot_block (int i) j) k = pm s (phys ?f + j * 512 + k)" if "j < 8" "k < 512" for j k
    using B that v3(1) by (simp add: t_def wr32_def)
  moreover have "swapdisk t b = swapdisk s b" if "\<forall>j < 8. b \<noteq> slot_block (int i) j" for b
    using B that by (simp add: t_def wr32_def s3_def s1_def upd_slot_def)
  moreover have "page_eq s t p" if "page_ok (kend s) p" "p \<notin> own s d" for p
    using W(5) [of p] that v4(3) V4(2) v4(1) by (simp add: page_eq_def)
  moreover have "has_tab t d (?n div 1024)"
  proof -
    have "t = s4\<lparr>pm := st32 (phys (tab s4 d (?n div 1024)) + 4 * (?n mod 1024)) (swap_entry i ?e) (pm s4)\<rparr>"
      using entry_slot(1) [OF d4(1,2)] by (simp add: t_def wr32_def d4(3))
    from set_entry(6) [OF d4(1) vpn_less d4(2) this vpn_idx] show ?thesis using d4(2) by simp
  qed
  moreover have "swprocs t = swprocs s" "me t = me s" by (simp_all add: t_def wr32_def X s3_def s1_def upd_slot_def)
  ultimately show thesis using that [OF run U(1) ot kt U(3) et] by blast
qed

section \<open>In\<close>

lemma page_rounds:
  assumes "unat a mod 4096 = 0"
  shows "PGROUNDDOWN a = a" "PGROUNDDOWN (a + of_nat PGSIZE - 1) = a"
proof -
  have q: "4096 * (unat a div 4096) = unat a" using assms by auto
  then show "PGROUNDDOWN a = a" by (simp add: word_unat_eq_iff vpn_PGROUNDDOWN vpn_def)
  have "unat (a + 4095) = unat a + 4095"
    using page_number_less [of a] q by (simp add: unat_add_uint)
  moreover have "(4096 * r + 4095) div 4096 = (r :: nat)" for r by simp
  then have "(unat a + 4095) div 4096 = unat a div 4096" using q by metis
  ultimately have "4096 * vpn (a + 4095) = unat a" using q by (simp add: vpn_def)
  then show "PGROUNDDOWN (a + of_nat PGSIZE - 1) = a"
    by (simp add: word_unat_eq_iff vpn_PGROUNDDOWN PGSIZE_def add.commute)
qed

lemma mapPages_one:
  fixes s :: "'a swstate_scheme"
  assumes "dir_ok s vs d" "has_tab s d (vpn a div 1024)" "unat a mod 4096 = 0" "entry s d (vpn a) AND PTE_P = 0"
  shows "mapPages d a (of_nat PGSIZE) pa perm s =
    Val (0, wr32 (tab s d (vpn a div 1024) + 4 * PTX a) (pa OR perm OR PTE_P) s)"
proof -
  have "walkpgdir_sw d a True s = Val (tab s d (vpn a div 1024) + 4 * PTX a, s)"
    using assms(2) slot_addr(1) [OF dir_okD(2) [OF assms(1)], of "PDX a"]
    by (simp add: walkpgdir_sw_def rd32_def Let_def PDX_vpn has_tab_def tab_def pde_def)
  then show ?thesis
    using entry_slot(2,3) [OF assms(1,2)] assms(4) by (simp add: mapPages_def page_rounds [OF assms(3)] Let_def)
qed

lemma kalloc_sw_pool:
  fixes s :: "'a swstate_scheme"
  assumes "freelist s = v" "v \<noteq> 0"
  shows "kalloc_retry s =
    Val (v, s\<lparr>freelist := ld32 (pm s) (phys v), pm := memset (pm s) (phys v) 5 PGSIZE\<rparr>)"
  using assms by (simp add: kalloc_retry_def kalloc_sw_def refill_def Let_def rd32_def)

lemma page_bytes:
  assumes "(x :: nat) < 4096"
  shows "x div 512 < 8" "x mod 512 < 512" "x div 512 * 512 + x mod 512 = x"
  using assms by (simp_all add: div_less_iff_less_mult)

lemma swap_in:
  fixes s :: "'a swstate_scheme"
  assumes ok: "uvm_ok s (v # ws) d" and n: "vpn va < 524288" "has_tab s d (vpn va div 1024)"
    and e: "entry s d (vpn va) AND PTE_P = 0" "uint (drop_bit 12 (PTE_ADDR (entry s d (vpn va)))) = int i"
    and i: "i < 800" "\<not> is_free (slots s ! i)" "page_perm (slots s ! i) AND NOT 0xFFF = 0"
  obtains t :: "'a swstate_scheme" where "swapPageIn d va s = Val (0, t)" "uvm_ok t ws d" "own t d = own s d" "kend t = kend s"
    "frame t d (vpn va) = v" "user t d m \<longleftrightarrow> m = vpn va \<or> user s d m"
    "\<And>m. m < 1048576 \<Longrightarrow> entry t d m = (if m = vpn va then V2P v OR (page_perm (slots s ! i) OR PTE_P) OR PTE_P else entry s d m)"
    "slots t = (slots s)[i := \<lparr>page_perm = 0, is_free = True\<rparr>]" "swapdisk t = swapdisk s"
    "\<And>x. x < 4096 \<Longrightarrow> pm t (phys v + x) = swapdisk s (slot_block (int i) (x div 512)) (x mod 512)"
    "\<And>p. page_ok (kend s) p \<Longrightarrow> p \<notin> own s d \<Longrightarrow> p \<noteq> v \<Longrightarrow> page_eq s t p"
proof -
  let ?a = "PGROUNDDOWN va"
  let ?n = "vpn va"
  let ?perm = "page_perm (slots s ! i) OR PTE_P"
  note D = uvm_okD(1) [OF ok]
  have va: "vpn ?a = ?n" "unat ?a mod 4096 = 0" by (simp_all add: vpn_PGROUNDDOWN)
  have ptx: "PTX ?a = PTX va" by (simp add: word_unat_eq_iff PTX_vpn va(1))
  let ?p = "tab s d (?n div 1024) + 4 * PTX va"
  have w: "walkpgdir d ?a False s = (?p, s)"
    using walk_present [OF dir_okD(2) [OF D], of s ?a False] n(2) va(1) ptx by simp
  note E = entry_slot(2,3) [OF D n(2)]
  have fl: "freelist s = v" "v \<noteq> 0" using dir_okD(1) [OF D] by (simp_all add: free_ok_def)
  define s1 where "s1 = s\<lparr>freelist := ld32 (pm s) (phys v), pm := memset (pm s) (phys v) 5 PGSIZE\<rparr>"
  define z where "z = fold (in_block (int i) v) [0..<8] s1"
  note B = in_blocks [where n = 8 and i = i and mem = v and s = s1, folded z_def]
  obtain M where M: "z = s1\<lparr>pm := M\<rparr>" using B by metis
  have zf: "freelist z = ld32 (pm s) (phys v)" "kend z = kend s" "slots z = slots s" "swapdisk z = swapdisk s"
    by (simp_all add: M s1_def)
  have zo: "\<forall>a. a < phys v \<or> phys v + PGSIZE \<le> a \<longrightarrow> pm z a = pm s a"
    using B by (auto simp: s1_def memset_eq filled_def PGSIZE_def)
  note T = take_filled [OF ok zf(1,2) zo]
  have zi: "pm z (phys v + x) = swapdisk s (slot_block (int i) (x div 512)) (x mod 512)" if "x < 4096" for x
  proof -
    have "pm z (phys v + (x div 512) * 512 + x mod 512) = swapdisk s1 (slot_block (int i) (x div 512)) (x mod 512)"
      using B page_bytes [OF that] by blast
    then show ?thesis using page_bytes(3) [OF that] by (simp add: add.assoc s1_def)
  qed
  have own: "\<forall>p \<in> own s d. page_eq s z p" using T(5,10) D unfolding dir_ok_def by metis
  note fr = own_frame [OF own]
  have zt: "has_tab z d (vpn ?a div 1024)" "tab z d (?n div 1024) = tab s d (?n div 1024)" "entry z d (vpn ?a) AND PTE_P = 0"
    using fr(2,3) [OF vpn_idx] fr(5) [OF vpn_less] n(2) e(1) by (simp_all add: va(1))
  define u where "u = wr32 ?p (V2P v OR ?perm OR PTE_P) z"
  have map: "mapPages d ?a (of_nat PGSIZE) (V2P v) ?perm z = Val (0, u)"
    using mapPages_one [OF uvm_okD(1) [OF T(1)] zt(1) va(2) zt(3), of "V2P v" ?perm] by (simp add: u_def va(1) zt(2) ptx)
  define t where "t = (case me (freeSlot (int i) u) of None \<Rightarrow> freeSlot (int i) u | Some p \<Rightarrow> upd_rss p 1 (freeSlot (int i) u))"
  have run: "swapPageIn d va s = Val (0, t)"
    using E e i kalloc_sw_pool [OF fl] fl(2)
    by (simp add: swapPageIn_def Let_def w SWAP_SLOT_TOTAL_def SWAP_BLOCKS_PER_PAGE_def s1_def [symmetric] z_def [symmetric]
        zf(3) map t_def)
  have tv: "pm t = pm u" "freelist t = freelist u" "kend t = kend u" "swapdisk t = swapdisk s"
      "slots t = (slots s)[i := \<lparr>page_perm = 0, is_free = True\<rparr>]"
    using i(1) zf by (simp_all add: t_def freeSlot_def upd_slot_def upd_rss_def SWAP_SLOT_TOTAL_def u_def wr32_def split: option.split)
  note V = same_view [OF tv(1-3), where d = d]
  note W = write_entry [OF uvm_okD(1) [OF T(1)] zt(1) [unfolded va(1)], where w = "V2P v OR ?perm OR PTE_P", unfolded zt(2), folded u_def]
  have eu: "\<forall>m < 1048576. entry u d m = (if m = ?n then V2P v OR ?perm OR PTE_P else entry z d m)" using W(2) by blast
  have nz: "\<not> user z d ?n" using zt(3) by (simp add: user_def va(1))
  have pv: "(V2P v OR ?perm OR PTE_P) AND PTE_P \<noteq> 0" by (rule present_or)
  have "(?perm OR PTE_P) AND NOT 0xFFF = 0" using i(3) by (simp add: bit.conj_disj_distrib2 PTE_P_def)
  then have av: "P2V (PTE_ADDR (V2P v OR ?perm OR PTE_P)) = v"
    using PTE_ADDR_or [OF page_V2P_aligned [OF T(4)]] by (simp add: or.assoc)
  have tv': "page_ok (kend z) v" "v \<notin> own z d" "v \<notin> frames z d" using T(2-6) zf(2) by simp_all
  note A = uvm_ok_add [OF T(1) W(1) n(1) nz tv' T(7) eu pv av]
  show thesis
  proof (rule that [OF run])
    show "uvm_ok t ws d" "own t d = own s d" "kend t = kend s" "frame t d ?n = v"
      using A(1,2) V W(4) T(2) tv(3) zf(2) by (simp_all add: u_def wr32_def)
    show et: "entry t d m = (if m = ?n then V2P v OR ?perm OR PTE_P else entry s d m)" if "m < 1048576" for m
      using eu T(9) that V(1) by simp
    show "user t d m \<longleftrightarrow> m = ?n \<or> user s d m"
      using et [of m] n(1) pv by (cases "m < 1048576") (auto simp: user_def)
    show "slots t = (slots s)[i := \<lparr>page_perm = 0, is_free = True\<rparr>]" "swapdisk t = swapdisk s" by (fact tv(5,4))+
    have "page_eq z u v" using W(5) [of v] tv' by simp
    then show "pm t (phys v + x) = swapdisk s (slot_block (int i) (x div 512)) (x mod 512)" if "x < 4096" for x
      using zi [OF that] that tv(1) by (simp add: page_eq_def)
    show "page_eq s t p" if "page_ok (kend s) p" "p \<notin> own s d" "p \<noteq> v" for p
    proof -
      have "page_eq z u p" using W(5) [of p] that(1,2) T(2) zf(2) by simp
      then show ?thesis using T(10) [OF that(1,3)] tv(1) by (simp add: page_eq_def)
    qed
  qed
qed

end
