(* ===== verification/Xv6_Swapping.thy ===== *)
theory Xv6_Swapping
  imports Xv6_Swapio
begin

text \<open>
  The properties of swapping: round trip, page faults, the choice of the victim page.
\<close>

unbundle bit_operations_syntax

section \<open>Round trip\<close>

lemma page_split: "x div 4096 = n \<Longrightarrow> x mod 4096 < (4096 :: nat)"
  by simp

text \<open>Pages of memory that stay as they are.\<close>

lemma umem_kept:
  assumes ok: "uvm_ok s vs d" and m: "user s d m" and e: "entry t d m = entry s d m"
    and q: "\<And>p. page_ok (kend s) p \<Longrightarrow> p \<notin> own s d \<Longrightarrow> p \<noteq> v \<Longrightarrow> page_eq s t p" and v: "v \<in> set vs \<or> v = 0"
    and x: "x div 4096 = m"
  shows "umem t d x = umem s d x"
proof -
  note D = uvm_okD(2-4) [OF ok m]
  have "frame s d m \<noteq> v" using D v page_ok_phys(5) [OF D(1)] by auto
  then have "page_eq s t (frame s d m)" using q D by blast
  moreover have "frame t d m = frame s d m" using e by (simp add: frame_def)
  ultimately show ?thesis using x by (simp add: umem_def page_eq_def)
qed

lemma flags_back:
  assumes "unat a mod 4096 = 0" "e AND PTE_P \<noteq> 0"
  shows "PTE_FLAGS (a OR ((e AND 0xFFF) OR PTE_P) OR PTE_P) = PTE_FLAGS e"
proof -
  have p: "bit e 0" using assms(2) by (auto simp: PTE_P_def and_one_eq bit_0 odd_iff_mod_2_eq_one split: if_splits)
  have a: "\<not> bit a k" if "k < 12" for k
  proof -
    have "a = push_bit 12 (drop_bit 12 a)" by (rule aligned_shift(1) [OF assms(1)])
    then have "bit a k = bit (push_bit 12 (drop_bit 12 a)) k" by simp
    then show ?thesis using that by (simp add: bit_simps)
  qed
  show ?thesis unfolding PTE_FLAGS_def mask12
    by (rule bit_word_eqI) (use a p in \<open>auto simp: bit_simps pte_p_bit\<close>)
qed

text \<open>The way back, from any state where the slot still holds the page.\<close>

lemma swap_back:
  fixes u :: "'a swstate_scheme"
  assumes n5: "n < 524288" and p: "e AND PTE_P \<noteq> 0" and i8: "i < 800"
    and u: "uvm_ok u (v # ws) d" "length (slots u) = 800" "vpn va' = n" "has_tab u d (n div 1024)"
      "entry u d n = swap_entry i e" "slots u ! i = \<lparr>page_perm = e AND 0xFFF, is_free = False\<rparr>"
    and b: "\<forall>j < 8. \<forall>k < 512. swapdisk u (slot_block (int i) j) k = c (j * 512 + k)"
  shows "\<exists>w. swapPageIn d va' u = Val (0, w) \<and> uvm_ok w ws d \<and> user w d n \<and> is_free (slots w ! i) \<and>
    PTE_FLAGS (entry w d n) = PTE_FLAGS e \<and> (\<forall>x. x div 4096 = n \<longrightarrow> umem w d x = c (x mod 4096)) \<and>
    (\<forall>m. m \<noteq> n \<and> user u d m \<longrightarrow> entry w d m = entry u d m \<and> (\<forall>x. x div 4096 = m \<longrightarrow> umem w d x = umem u d x))"
proof -
  have e: "entry u d n = swap_entry i e" using u(5) by simp
  have a: "entry u d (vpn va') AND PTE_P = 0" "uint (drop_bit 12 (PTE_ADDR (entry u d (vpn va')))) = int i"
    using swap_entry_slot [OF i8] by (simp_all add: u(3) e)
  have f: "\<not> is_free (slots u ! i)" "page_perm (slots u ! i) = e AND 0xFFF" by (simp_all add: u(6))
  have cl: "page_perm (slots u ! i) AND NOT 0xFFF = 0" unfolding f(2) by (simp add: and.assoc)
  have h: "vpn va' < 524288" "has_tab u d (vpn va' div 1024)" using n5 u(3,4) by simp_all
  obtain w :: "'a swstate_scheme" where W: "swapPageIn d va' u = Val (0, w)" "uvm_ok w ws d" "own w d = own u d" "kend w = kend u"
      "frame w d (vpn va') = v" "user w d n \<longleftrightarrow> n = vpn va' \<or> user u d n"
      "\<And>m. m < 1048576 \<Longrightarrow> entry w d m = (if m = vpn va' then V2P v OR (page_perm (slots u ! i) OR PTE_P) OR PTE_P else entry u d m)"
      "slots w = (slots u)[i := \<lparr>page_perm = 0, is_free = True\<rparr>]" "swapdisk w = swapdisk u"
      "\<And>x. x < 4096 \<Longrightarrow> pm w (phys v + x) = swapdisk u (slot_block (int i) (x div 512)) (x mod 512)"
      "\<And>p. page_ok (kend u) p \<Longrightarrow> p \<notin> own u d \<Longrightarrow> p \<noteq> v \<Longrightarrow> page_eq u w p"
    by (rule swap_in [OF u(1) h a i8 f(1) cl]) (rule that)
  have v: "unat (V2P v) mod 4096 = 0"
    using dir_okD(1) [OF uvm_okD(1) [OF u(1)]] by (intro page_V2P_aligned [of "kend u"]) (simp add: free_ok_def)
  have "PTE_FLAGS (entry w d n) = PTE_FLAGS e" using W(7) [OF vpn_less, of va'] flags_back [OF v p] by (simp add: u(3) f(2))
  moreover have "umem w d x = c (x mod 4096)" if "x div 4096 = n" for x
  proof -
    let ?x = "x mod 4096"
    note pb = page_bytes [OF page_split [OF that]]
    have "umem w d x = swapdisk u (slot_block (int i) (?x div 512)) (?x mod 512)"
      using W(5) W(10) [OF page_split [OF that]] that u(3) by (simp add: umem_def)
    also have "\<dots> = c (?x div 512 * 512 + ?x mod 512)" using b pb(1,2) by simp
    also have "\<dots> = c ?x" using pb(3) by simp
    finally show ?thesis .
  qed
  moreover have "entry w d m = entry u d m \<and> (\<forall>x. x div 4096 = m \<longrightarrow> umem w d x = umem u d x)" if "m \<noteq> n" "user u d m" for m
  proof -
    have "entry w d m = entry u d m" using W(7) [OF user_less [OF that(2)]] that(1) u(3) by simp
    then show ?thesis using umem_kept [OF u(1) that(2), of w v] W(11) by simp
  qed
  moreover have "is_free (slots w ! i)" using W(8) u(2) i8 by simp
  moreover have "user w d n" using W(6) u(3) by simp
  ultimately show ?thesis by (intro exI [of _ w] conjI allI impI W(1,2)) blast+
qed

text \<open>
  C8: swapping keeps the user's memory.  \<open>swapAndPageOut\<close> of a present page returns 0, and from then on
  the page is not present and the other pages of the process are as before.  Whatever happens
  afterwards, as long as the entry, the slot and its eight blocks are left alone and a page is free,
  \<open>swapPageIn\<close> of any address in the page returns 0, the page has its old contents and flags, its slot
  is free, and no other page of the process has changed.
\<close>

theorem swap_out_in:
  fixes s :: "'a swstate_scheme"
  assumes ok: "uvm_ok s vs d" and n: "user s d (vpn va)" and i: "scan is_free (slots s) = Some i" "length (slots s) = 800"
  shows "\<exists>t. swapAndPageOut d va (PTE_ADDR (entry s d (vpn va))) s = (0, t) \<and> uvm_ok t vs d \<and> \<not> user t d (vpn va) \<and>
    length (slots t) = 800 \<and> has_tab t d (vpn va div 1024) \<and>
    (\<forall>m. m \<noteq> vpn va \<and> user s d m \<longrightarrow> entry t d m = entry s d m \<and> (\<forall>x. x div 4096 = m \<longrightarrow> umem t d x = umem s d x)) \<and>
    (\<forall>(u :: 'a swstate_scheme) v ws va'. uvm_ok u (v # ws) d \<and> length (slots u) = 800 \<and> vpn va' = vpn va \<and> has_tab u d (vpn va div 1024) \<and>
       entry u d (vpn va) = entry t d (vpn va) \<and> slots u ! i = slots t ! i \<and>
       (\<forall>j < 8. \<forall>k < 512. swapdisk u (slot_block (int i) j) k = swapdisk t (slot_block (int i) j) k) \<longrightarrow>
       (\<exists>w. swapPageIn d va' u = Val (0, w) \<and> uvm_ok w ws d \<and> user w d (vpn va) \<and> is_free (slots w ! i) \<and>
          PTE_FLAGS (entry w d (vpn va)) = PTE_FLAGS (entry s d (vpn va)) \<and>
          (\<forall>x. x div 4096 = vpn va \<longrightarrow> umem w d x = umem s d x) \<and>
          (\<forall>m. m \<noteq> vpn va \<and> user u d m \<longrightarrow> entry w d m = entry u d m \<and> (\<forall>x. x div 4096 = m \<longrightarrow> umem w d x = umem u d x))))"
proof -
  let ?n = "vpn va"
  let ?e = "entry s d ?n" and ?f = "frame s d ?n"
  have i8: "i < 800" using found_slot(2) [OF i(1)] i(2) by simp
  have n5: "?n < 524288" and p: "?e AND PTE_P \<noteq> 0" using n by (simp_all add: user_def)
  obtain t :: "'a swstate_scheme" where T: "swapAndPageOut d va (PTE_ADDR ?e) s = (0, t)" "uvm_ok t vs d"
      "own t d = own s d" "kend t = kend s" "?f \<notin> frames t d"
      "\<And>m. m < 1048576 \<Longrightarrow> entry t d m = (if m = ?n then swap_entry i ?e else entry s d m)"
      "slots t = (slots s)[i := \<lparr>page_perm = ?e AND 0xFFF, is_free = False\<rparr>]"
      "\<And>j k. j < 8 \<Longrightarrow> k < 512 \<Longrightarrow> swapdisk t (slot_block (int i) j) k = pm s (phys ?f + j * 512 + k)"
      "\<And>b. \<forall>j < 8. b \<noteq> slot_block (int i) j \<Longrightarrow> swapdisk t b = swapdisk s b"
      "\<And>p. page_ok (kend s) p \<Longrightarrow> p \<notin> own s d \<Longrightarrow> page_eq s t p" "swprocs t = swprocs s" "me t = me s"
      "has_tab t d (?n div 1024)"
    by (rule swap_out [OF ok n i(1)]) (rule that)
  have et: "entry t d ?n = swap_entry i ?e" using T(6) by simp
  have nu: "\<not> user t d ?n" by (simp add: user_def et)
  have keep: "entry t d m = entry s d m \<and> (\<forall>x. x div 4096 = m \<longrightarrow> umem t d x = umem s d x)" if "m \<noteq> ?n" "user s d m" for m
  proof -
    have "entry t d m = entry s d m" using T(6) [OF user_less [OF that(2)]] that(1) by simp
    then show ?thesis using umem_kept [OF ok that(2), of t 0] T(10) by simp
  qed
  have sl: "slots t ! i = \<lparr>page_perm = ?e AND 0xFFF, is_free = False\<rparr>" using T(7) found_slot(2) [OF i(1)] by simp
  have ret: "\<exists>w. swapPageIn d va' u = Val (0, w) \<and> uvm_ok w ws d \<and> user w d ?n \<and> is_free (slots w ! i) \<and>
          PTE_FLAGS (entry w d ?n) = PTE_FLAGS ?e \<and> (\<forall>x. x div 4096 = ?n \<longrightarrow> umem w d x = umem s d x) \<and>
          (\<forall>m. m \<noteq> ?n \<and> user u d m \<longrightarrow> entry w d m = entry u d m \<and> (\<forall>x. x div 4096 = m \<longrightarrow> umem w d x = umem u d x))"
    if u: "uvm_ok u (v # ws) d \<and> length (slots u) = 800 \<and> vpn va' = ?n \<and> has_tab u d (?n div 1024) \<and>
         entry u d ?n = entry t d ?n \<and> slots u ! i = slots t ! i \<and>
         (\<forall>j < 8. \<forall>k < 512. swapdisk u (slot_block (int i) j) k = swapdisk t (slot_block (int i) j) k)"
    for u :: "'a swstate_scheme" and v ws va'
  proof -
    have "\<forall>j < 8. \<forall>k < 512. swapdisk u (slot_block (int i) j) k = pm s (phys ?f + (j * 512 + k))"
      using u T(8) by (simp add: add.assoc)
    then have "\<exists>w. swapPageIn d va' u = Val (0, w) \<and> uvm_ok w ws d \<and> user w d ?n \<and> is_free (slots w ! i) \<and>
        PTE_FLAGS (entry w d ?n) = PTE_FLAGS ?e \<and> (\<forall>x. x div 4096 = ?n \<longrightarrow> umem w d x = pm s (phys ?f + x mod 4096)) \<and>
        (\<forall>m. m \<noteq> ?n \<and> user u d m \<longrightarrow> entry w d m = entry u d m \<and> (\<forall>x. x div 4096 = m \<longrightarrow> umem w d x = umem u d x))"
      using u et sl by (intro swap_back [where v = v, OF n5 p i8]) simp_all
    then show ?thesis unfolding umem_def [of s d] by simp
  qed
  show ?thesis
  proof (intro exI conjI)
    show "\<forall>m. m \<noteq> ?n \<and> user s d m \<longrightarrow> entry t d m = entry s d m \<and> (\<forall>x. x div 4096 = m \<longrightarrow> umem t d x = umem s d x)"
      using keep by blast
    show "length (slots t) = 800" using T(7) i(2) by simp
  qed (intro T(1,2,13) nu allI impI ret; assumption)+
qed

section \<open>A small process\<close>

text \<open>One user page, a page of memory in the pool, and all slots free.\<close>

definition with_slots :: "kstate \<Rightarrow> swap_slot list \<Rightarrow> swstate" where
  "with_slots k sl = \<lparr>pm = pm k, freelist = freelist k, kend = kend k, slots = sl, swapdisk = (\<lambda>_ _. 0),
     swprocs = [], me = None, threshold = 100, npages_to_swap = 4, alpha = 25, beta = 10\<rparr>"

lemma with_slots_view [simp]:
  "entry (with_slots k sl) d = entry k d" "user (with_slots k sl) d = user k d" "uvm_ok (with_slots k sl) vs d = uvm_ok k vs d"
  "has_tab (with_slots k sl) d = has_tab k d" "slots (with_slots k sl) = sl"
proof -
  have e: "pm (with_slots k sl) = pm k" "freelist (with_slots k sl) = freelist k" "kend (with_slots k sl) = kend k"
    by (simp_all add: with_slots_def)
  show "entry (with_slots k sl) d = entry k d" "user (with_slots k sl) d = user k d" "uvm_ok (with_slots k sl) vs d = uvm_ok k vs d"
    "has_tab (with_slots k sl) d = has_tab k d"
    using same_view [OF e] by simp_all
  show "slots (with_slots k sl) = sl" by (simp add: with_slots_def)
qed

lemma one_page_process:
  "\<exists>(k :: kstate) v ws. uvm_ok k (v # ws) 0x80101000 \<and> user k 0x80101000 0 \<and> entry k 0x80101000 1 = 0 \<and>
    new_page k 0x80101000 0 \<and> (\<forall>n. user k 0x80101000 n \<longrightarrow> frame k 0x80101000 n \<in> {0x80104000, 0x80103000, 0x80102000})"
proof -
  let ?d = "0x80101000 :: uint"
  have e: "\<forall>n. \<not> user ex_kstate ?d n" "own ex_kstate ?d = {?d}"
    by (auto simp: user_def entry_def own_def has_tab_def pde_def ex_kstate_def ld32_def)
  have p: "page_ok (kend ex_kstate) 0x80102000" "page_ok (kend ex_kstate) 0x80103000" "page_ok (kend ex_kstate) 0x80104000"
    by (simp_all add: page_ok_def ex_kstate_def PGSIZE_def KERNBASE_def PHYSTOP_def)
  obtain s :: kstate where s: "uvm_ok s [0x80102000] ?d" "\<forall>n. \<not> user s ?d n" "own s ?d = {?d}" "kend s = kend ex_kstate"
    using empty_dir_add [OF empty_dir_ok e p(1)] by auto
  obtain t :: kstate where t: "uvm_ok t [0x80103000, 0x80102000] ?d" "\<forall>n. \<not> user t ?d n" "own t ?d = {?d}" "kend t = kend ex_kstate"
    using empty_dir_add [OF s(1-3), of "0x80103000"] s(4) p(2) by auto
  obtain u :: kstate where u: "uvm_ok u [0x80104000, 0x80103000, 0x80102000] ?d" "\<forall>n. \<not> user u ?d n" "own u ?d = {?d}"
    using empty_dir_add [OF t(1-3), of "0x80104000"] t(4) p(3) by auto
  have tab1: "\<not> has_tab u ?d 0"
  proof
    assume h: "has_tab u ?d 0"
    then have "tab u ?d 0 \<in> own u ?d" by (intro own_tab) simp_all
    then show False using u(3) dir_okD(5) [OF uvm_okD(1) [OF u(1)], of 0] h by simp
  qed
  have v: "vpn 0 = 0" by (simp add: vpn_def)
  obtain r w ws where w: "r = 0 \<and> alloced u [0x80104000, 0x80103000, 0x80102000] ?d (vpn 0) (Suc (vpn 0)) w ws \<and>
        length [0x80103000, 0x80102000 :: uint] \<le> Suc (length ws) \<or>
      r = - 1 \<and> [0x80103000, 0x80102000 :: uint] = [] \<and> alloced u [0x80104000, 0x80103000, 0x80102000] ?d (vpn 0) (vpn 0) w [] \<and>
        0x80104000 \<notin> own w ?d \<and> 0x80104000 \<notin> frames w ?d"
    by (rule alloc_page [OF u(1) refl, of 0]) (use u(2) v in simp_all)
  then have a: "uvm_ok w ws ?d" "new_page w ?d 0" "entry w ?d 1 = entry u ?d 1" "length ws \<noteq> 0"
    using v by (auto simp: alloced_def)
  then obtain x xs where "ws = x # xs" by (cases ws) auto
  moreover have "entry w ?d 1 = 0" using a(3) tab1 by (simp add: entry_def)
  moreover have "frame w ?d n \<in> {0x80104000, 0x80103000, 0x80102000}" if n: "user w ?d n" for n
  proof -
    have al: "alloced u [0x80104000, 0x80103000, 0x80102000] ?d 0 1 w ws" using w v by auto
    then have "n = 0" using u(2) n user_less [OF n] by (cases "n = 0") (auto simp: alloced_def user_def)
    then show ?thesis using al by (simp add: alloced_def)
  qed
  ultimately show ?thesis using a(1,2) new_user [OF a(2)] by (intro exI [of _ w] exI [of _ x] exI [of _ xs]) auto
qed

lemma swap_out_in_witness:
  "\<exists>s t w. swapAndPageOut 0x80101000 0 (PTE_ADDR (entry s 0x80101000 0)) s = (0, t) \<and> \<not> user t 0x80101000 0 \<and>
    swapPageIn 0x80101000 5 t = Val (0, w) \<and> user w 0x80101000 0 \<and> umem w 0x80101000 7 = umem (s :: swstate) 0x80101000 7"
proof -
  let ?d = "0x80101000 :: uint"
  let ?sl = "replicate 800 \<lparr>page_perm = 0, is_free = True\<rparr>"
  obtain k :: kstate and v ws where k: "uvm_ok k (v # ws) ?d" "user k ?d 0" using one_page_process by blast
  have va: "vpn 0 = 0" "vpn 5 = 0" by (simp_all add: vpn_def)
  have i: "scan is_free ?sl = Some 0" by (simp add: numeral_eq_Suc)
  obtain t where t: "swapAndPageOut ?d 0 (PTE_ADDR (entry (with_slots k ?sl) ?d (vpn 0))) (with_slots k ?sl) = (0, t) \<and>
      uvm_ok t (v # ws) ?d \<and> \<not> user t ?d (vpn 0) \<and> length (slots t) = 800 \<and> has_tab t ?d (vpn 0 div 1024)"
    and b: "\<forall>(u :: swstate) v ws va'. uvm_ok u (v # ws) ?d \<and> length (slots u) = 800 \<and> vpn va' = vpn 0 \<and> has_tab u ?d (vpn 0 div 1024) \<and>
       entry u ?d (vpn 0) = entry t ?d (vpn 0) \<and> slots u ! 0 = slots t ! 0 \<and>
       (\<forall>j < 8. \<forall>l < 512. swapdisk u (slot_block (int 0) j) l = swapdisk t (slot_block (int 0) j) l) \<longrightarrow>
       (\<exists>w. swapPageIn ?d va' u = Val (0, w) \<and> uvm_ok w ws ?d \<and> user w ?d (vpn 0) \<and> is_free (slots w ! 0) \<and>
          PTE_FLAGS (entry w ?d (vpn 0)) = PTE_FLAGS (entry (with_slots k ?sl) ?d (vpn 0)) \<and>
          (\<forall>x. x div 4096 = vpn 0 \<longrightarrow> umem w ?d x = umem (with_slots k ?sl) ?d x) \<and>
          (\<forall>m. m \<noteq> vpn 0 \<and> user u ?d m \<longrightarrow> entry w ?d m = entry u ?d m \<and> (\<forall>x. x div 4096 = m \<longrightarrow> umem w ?d x = umem u ?d x)))"
    using swap_out_in [of "with_slots k ?sl" "v # ws" ?d 0 0] k i va(1) by auto
  obtain w where "swapPageIn ?d 5 t = Val (0, w)" "user w ?d (vpn 0)"
      "\<forall>x. x div 4096 = vpn 0 \<longrightarrow> umem w ?d x = umem (with_slots k ?sl) ?d x"
  proof -
    have "uvm_ok t (v # ws) ?d \<and> length (slots t) = 800 \<and> vpn 5 = vpn 0 \<and> has_tab t ?d (vpn 0 div 1024) \<and>
       entry t ?d (vpn 0) = entry t ?d (vpn 0) \<and> slots t ! 0 = slots t ! 0 \<and>
       (\<forall>j < 8. \<forall>l < 512. swapdisk t (slot_block (int 0) j) l = swapdisk t (slot_block (int 0) j) l)"
      using t va by simp
    from b [THEN spec, THEN spec, THEN spec, THEN spec, THEN mp, OF this] show thesis using that by blast
  qed
  then show ?thesis using t va(1) by (intro exI [of _ "with_slots k ?sl"] exI [of _ t] exI [of _ w]) simp
qed

end
