(* ===== verification/Xv6_Fault.thy ===== *)
theory Xv6_Fault
  imports Xv6_Swapping
begin

text \<open>Page faults: what each kind of entry leads to, and an entry that was never swapped.\<close>

unbundle bit_operations_syntax

section \<open>The cases of a page fault\<close>

abbreviation slot_of :: "uint \<Rightarrow> nat" where
  "slot_of e \<equiv> unat (drop_bit 12 (PTE_ADDR e))"

lemma swapPageIn_walk:
  fixes s :: "'a swstate_scheme"
  assumes "dir_ok s vs d"
  shows "\<not> has_tab s d (vpn va div 1024) \<Longrightarrow> swapPageIn d va s = Val (- 1, s)"
    "has_tab s d (vpn va div 1024) \<Longrightarrow> entry s d (vpn va) AND PTE_P \<noteq> 0 \<Longrightarrow> swapPageIn d va s = Val (0, s)"
    "has_tab s d (vpn va div 1024) \<Longrightarrow> entry s d (vpn va) AND PTE_P = 0 \<Longrightarrow>
       800 \<le> slot_of (entry s d (vpn va)) \<or> is_free (slots s ! slot_of (entry s d (vpn va))) \<Longrightarrow> swapPageIn d va s = Val (- 1, s)"
proof -
  let ?a = "PGROUNDDOWN va"
  have va: "vpn ?a = vpn va" by (simp add: vpn_PGROUNDDOWN)
  have ptx: "PTX ?a = PTX va" by (simp add: word_unat_eq_iff PTX_vpn va)
  show "\<not> has_tab s d (vpn va div 1024) \<Longrightarrow> swapPageIn d va s = Val (- 1, s)"
    using walk_absent [OF dir_okD(2) [OF assms], of s ?a] by (simp add: swapPageIn_def Let_def va)
  have w: "walkpgdir d ?a False s = (tab s d (vpn va div 1024) + 4 * PTX va, s)" if "has_tab s d (vpn va div 1024)"
    using walk_present [OF dir_okD(2) [OF assms], of s ?a False] that va ptx by simp
  show "swapPageIn d va s = Val (0, s)" if "has_tab s d (vpn va div 1024)" "entry s d (vpn va) AND PTE_P \<noteq> 0"
    using entry_slot(2,3) [OF assms that(1)] that(2) by (simp add: swapPageIn_def Let_def w [OF that(1)])
  show "swapPageIn d va s = Val (- 1, s)" if "has_tab s d (vpn va div 1024)" "entry s d (vpn va) AND PTE_P = 0"
    "800 \<le> slot_of (entry s d (vpn va)) \<or> is_free (slots s ! slot_of (entry s d (vpn va)))"
  proof -
    let ?k = "slot_of (entry s d (vpn va))"
    have u: "uint (drop_bit 12 (PTE_ADDR (entry s d (vpn va)))) = int ?k" by (rule uint_nat)
    note E = entry_slot(2,3) [OF assms that(1)]
    show ?thesis
    proof (cases "800 \<le> ?k")
      case True
      then have "int SWAP_SLOT_TOTAL \<le> uint (drop_bit 12 (PTE_ADDR (entry s d (vpn va))))"
        unfolding u by (simp only: SWAP_SLOT_TOTAL_def of_nat_le_iff)
      then show ?thesis using E that(2) by (simp add: swapPageIn_def Let_def w [OF that(1)])
    next
      case False
      then have "is_free (slots s ! nat (uint (drop_bit 12 (PTE_ADDR (entry s d (vpn va))))))"
        using that(3) unfolding u by simp
      then show ?thesis using E that(2) by (simp add: swapPageIn_def Let_def w [OF that(1)])
    qed
  qed
qed

lemma fault_in:
  fixes s :: "'a swstate_scheme"
  assumes ok: "uvm_ok s (v # ws) d" and n: "vpn va < 524288" "has_tab s d (vpn va div 1024)"
    and e: "entry s d (vpn va) AND PTE_P = 0" "slot_of (entry s d (vpn va)) = i"
    and i: "i < 800" "\<not> is_free (slots s ! i)" "page_perm (slots s ! i) AND NOT 0xFFF = 0" "length (slots s) = 800"
  shows "\<exists>t. trap_pgflt True d va s = Val (True, t) \<and> uvm_ok t ws d \<and> user t d (vpn va) \<and> is_free (slots t ! i) \<and>
    (\<forall>x. x div 4096 = vpn va \<longrightarrow> umem t d x = swapdisk s (slot_block (int i) (x mod 4096 div 512)) (x mod 4096 mod 512))"
proof -
  have u: "uint (drop_bit 12 (PTE_ADDR (entry s d (vpn va)))) = int i" using e(2) by (metis uint_nat)
  obtain t :: "'a swstate_scheme" where T: "swapPageIn d va s = Val (0, t)" "uvm_ok t ws d" "own t d = own s d" "kend t = kend s"
      "frame t d (vpn va) = v" "user t d (vpn va) \<longleftrightarrow> vpn va = vpn va \<or> user s d (vpn va)"
      "\<And>m. m < 1048576 \<Longrightarrow> entry t d m = (if m = vpn va then V2P v OR (page_perm (slots s ! i) OR PTE_P) OR PTE_P else entry s d m)"
      "slots t = (slots s)[i := \<lparr>page_perm = 0, is_free = True\<rparr>]" "swapdisk t = swapdisk s"
      "\<And>x. x < 4096 \<Longrightarrow> pm t (phys v + x) = swapdisk s (slot_block (int i) (x div 512)) (x mod 512)"
      "\<And>p. page_ok (kend s) p \<Longrightarrow> p \<notin> own s d \<Longrightarrow> p \<noteq> v \<Longrightarrow> page_eq s t p"
    by (rule swap_in [OF ok n e(1) u i(1-3)]) (rule that)
  have "umem t d x = swapdisk s (slot_block (int i) (x mod 4096 div 512)) (x mod 4096 mod 512)" if "x div 4096 = vpn va" for x
    using T(5) T(10) [OF page_split [OF that]] that by (simp add: umem_def)
  moreover have "is_free (slots t ! i)" using T(8) i(1,4) by simp
  moreover have "trap_pgflt True d va s = Val (True, t)" by (simp add: trap_pgflt_def T(1))
  ultimately show ?thesis using T(2,6) by blast
qed


section \<open>Entries that were never swapped\<close>

text \<open>
  An entry of zero reads as slot 0.  When a process touches a page that was never mapped, in a range
  with a page table, and slot 0 is in use, the fault gives it the page in slot 0, whosever it is, and
  frees the slot; a process whose page it was is then killed at its next access.
\<close>

theorem unmapped_fault_steals:
  fixes s :: "'a swstate_scheme"
  assumes ok: "uvm_ok s (v # ws) d" and n: "vpn va < 524288" "has_tab s d (vpn va div 1024)" "entry s d (vpn va) = 0"
    and sl: "length (slots s) = 800" "\<not> is_free (slots s ! 0)" "page_perm (slots s ! 0) AND NOT 0xFFF = 0"
  shows "\<exists>t. trap_pgflt True d va s = Val (True, t) \<and> user t d (vpn va) \<and> is_free (slots t ! 0) \<and>
    (\<forall>x. x div 4096 = vpn va \<longrightarrow> umem t d x = swapdisk s (slot_block 0 (x mod 4096 div 512)) (x mod 4096 mod 512)) \<and>
    (\<forall>d' va' us. dir_ok t us d' \<and> has_tab t d' (vpn va' div 1024) \<and> entry t d' (vpn va') AND PTE_P = 0 \<and>
       slot_of (entry t d' (vpn va')) = 0 \<longrightarrow> trap_pgflt True d' va' t = Val (False, t))"
proof -
  have e: "entry s d (vpn va) AND PTE_P = 0" "slot_of (entry s d (vpn va)) = 0" by (simp_all add: n(3) PTE_ADDR_def)
  obtain t where T: "trap_pgflt True d va s = Val (True, t)" "user t d (vpn va)" "is_free (slots t ! 0)"
      "\<forall>x. x div 4096 = vpn va \<longrightarrow> umem t d x = swapdisk s (slot_block (int 0) (x mod 4096 div 512)) (x mod 4096 mod 512)"
    using fault_in [OF ok n(1,2) e _ sl(2,3,1)] by auto
  have "trap_pgflt True d' va' t = Val (False, t)"
    if "dir_ok t us d'" "has_tab t d' (vpn va' div 1024)" "entry t d' (vpn va') AND PTE_P = 0" "slot_of (entry t d' (vpn va')) = 0"
    for d' va' us
    using swapPageIn_walk(3) [OF that(1-3)] that(4) T(3) by (simp add: trap_pgflt_def)
  then show ?thesis using T by (intro exI [of _ t]) auto
qed

section \<open>Examples\<close>

definition one_used :: "swap_slot list" where
  "one_used = \<lparr>page_perm = 7, is_free = False\<rparr> # replicate 799 \<lparr>page_perm = 0, is_free = True\<rparr>"

lemma one_used_props: "length one_used = 800" "\<not> is_free (one_used ! 0)" "page_perm (one_used ! 0) AND NOT 0xFFF = 0"
    "\<forall>x \<in> set one_used. page_perm x AND NOT 0xFFF = 0"
  by (simp_all add: one_used_def)

lemma vpn_4096: "vpn 4096 = 1" "vpn 0 = 0"
  by (simp_all add: vpn_def)


lemma unmapped_fault_steals_witness:
  "\<exists>(s :: swstate) t. entry s 0x80101000 1 = 0 \<and> trap_pgflt True 0x80101000 4096 s = Val (True, t) \<and>
    user t 0x80101000 1 \<and> is_free (slots t ! 0)"
proof -
  obtain k :: kstate and v ws where k: "uvm_ok k (v # ws) 0x80101000" "user k 0x80101000 0" "entry k 0x80101000 1 = 0"
    using one_page_process by blast
  let ?s = "with_slots k one_used"
  have o: "uvm_ok ?s (v # ws) 0x80101000" "has_tab ?s 0x80101000 (vpn 4096 div 1024)" "entry ?s 0x80101000 (vpn 4096) = 0"
    using k user_has_tab [OF k(2)] by (simp_all add: vpn_4096)
  have n: "vpn 4096 < 524288" by (simp add: vpn_4096)
  obtain t where "trap_pgflt True 0x80101000 4096 ?s = Val (True, t)" "user t 0x80101000 (vpn 4096)" "is_free (slots t ! 0)"
    using unmapped_fault_steals [OF o(1) n o(2,3)] one_used_props by auto
  then show ?thesis using o(3) unfolding vpn_4096 by (intro exI [of _ ?s] exI [of _ t] conjI)
qed

end
