(* ===== verification/Xv6_Victim.thy ===== *)
theory Xv6_Victim
  imports Xv6_Fault
begin

text \<open>The choice of the page to swap out, and the adaption of the thresholds.\<close>

unbundle bit_operations_syntax

section \<open>Entries below the kernel\<close>

lemma user_pages_val: "user_pages = [0..<524288]"
  by (simp add: user_pages_def KERNBASE_def PGSIZE_def)

lemma vpn_page_va: "i < 524288 \<Longrightarrow> vpn (page_va i) = i"
proof -
  assume "i < 524288"
  then have "unat (of_nat (i * 4096) :: uint) = i * 4096" by (simp only: unat_of_nat; simp add: take_bit_nat_eq_self)
  then show "vpn (page_va i) = i" by (simp add: vpn_def page_va_def PGSIZE_def del: of_nat_mult)
qed

lemma pte_at_entry:
  assumes "dir_ok s vs d" "i < 524288"
  shows "user_pte d s i = accessible s d i" "accessible s d i \<Longrightarrow> rd32 (pte_at d i s) s = entry s d i"
    "accessible s d i \<Longrightarrow> pte_at d i s = tab s d (vpn (page_va i) div 1024) + 4 * PTX (page_va i)"
proof -
  note v = vpn_page_va [OF assms(2)]
  have h: "has_tab s d (i div 1024)" if "accessible s d i"
    using that by (cases "has_tab s d (i div 1024)") (simp_all add: accessible_def entry_def)
  have p: "pte_at d i s = tab s d (i div 1024) + 4 * PTX (page_va i)" if "has_tab s d (i div 1024)"
    using walk_present [OF dir_okD(2) [OF assms(1)], of s "page_va i" False] that v by (simp add: pte_at_def)
  have n: "pte_at d i s = 0" if "\<not> has_tab s d (i div 1024)"
    using walk_absent [OF dir_okD(2) [OF assms(1)], of s "page_va i"] that v by (simp add: pte_at_def)
  note E = entry_slot(2,3) [OF assms(1), of "page_va i", unfolded v]
  show a: "rd32 (pte_at d i s) s = entry s d i" "pte_at d i s = tab s d (vpn (page_va i) div 1024) + 4 * PTX (page_va i)"
    if "accessible s d i" using E h [OF that] p v by simp_all
  show "user_pte d s i = accessible s d i"
  proof (cases "has_tab s d (i div 1024)")
    case True
    then show ?thesis using E p by (simp add: user_pte_def accessible_def)
  next
    case False
    then show ?thesis using n h by (auto simp: user_pte_def)
  qed
qed

lemma clear_A:
  "(e AND NOT PTE_A) AND PTE_P = e AND PTE_P" "(e AND NOT PTE_A) AND PTE_U = e AND PTE_U"
  "PTE_ADDR (e AND NOT PTE_A) = PTE_ADDR e"
proof -
  have "NOT PTE_A AND PTE_P = PTE_P" "NOT PTE_A AND PTE_U = PTE_U" "NOT PTE_A AND NOT 0xFFF = NOT 0xFFF"
    by (simp_all add: PTE_A_def PTE_P_def PTE_U_def)
  then show "(e AND NOT PTE_A) AND PTE_P = e AND PTE_P" "(e AND NOT PTE_A) AND PTE_U = e AND PTE_U"
    "PTE_ADDR (e AND NOT PTE_A) = PTE_ADDR e"
    by (simp_all only: PTE_ADDR_def and.assoc)
qed

lemma clear_accessed_entry:
  fixes s :: "'a kstate_scheme"
  assumes "dir_ok s vs d" "i < 524288"
  shows "dir_ok (clear_accessed d i s) vs d"
    "m < 1048576 \<Longrightarrow> entry (clear_accessed d i s) d m = (if m = i \<and> accessible s d i then entry s d i AND NOT PTE_A else entry s d m)"
    "m < 1048576 \<Longrightarrow> accessible (clear_accessed d i s) d m = accessible s d m"
proof -
  let ?t = "clear_accessed d i s"
  note P = pte_at_entry [OF assms]
  have "dir_ok ?t vs d \<and> (\<forall>m < 1048576. entry ?t d m = (if m = i \<and> accessible s d i then entry s d i AND NOT PTE_A else entry s d m))"
  proof (cases "accessible s d i")
    case True
    have h: "has_tab s d (vpn (page_va i) div 1024)"
      using True vpn_page_va [OF assms(2)] by (cases "has_tab s d (i div 1024)") (simp_all add: accessible_def entry_def)
    have "?t = wr32 (tab s d (vpn (page_va i) div 1024) + 4 * PTX (page_va i)) (entry s d i AND NOT PTE_A) s"
      using P True by (simp add: clear_accessed_def)
    then show ?thesis using write_entry(2,3) [OF assms(1) h] True vpn_page_va [OF assms(2)] by simp
  next
    case False
    then show ?thesis using P(1) assms(1) by (simp add: clear_accessed_def)
  qed
  then show "dir_ok ?t vs d"
    and e: "m < 1048576 \<Longrightarrow> entry ?t d m = (if m = i \<and> accessible s d i then entry s d i AND NOT PTE_A else entry s d m)" for m
    by blast+
  show "accessible ?t d m = accessible s d m" if "m < 1048576"
    using e [OF that] by (auto simp: accessible_def clear_A)
qed

lemma clear_all:
  fixes s :: "'a kstate_scheme"
  assumes "dir_ok s vs d" "set xs \<subseteq> {..<524288}" "distinct xs"
  shows "dir_ok (fold (clear_accessed d) xs s) vs d \<and> (\<forall>m < 1048576. entry (fold (clear_accessed d) xs s) d m =
      (if m \<in> set xs \<and> accessible s d m then entry s d m AND NOT PTE_A else entry s d m))"
  using assms
proof (induction xs arbitrary: s)
  case (Cons x xs)
  have x: "x < 524288" using Cons(3) by simp
  note C = clear_accessed_entry [OF Cons(2) x]
  show ?case using Cons(1) [OF C(1)] Cons(3,4) C(2,3) by auto
qed simp

section \<open>The victim\<close>

lemma find_upt: "find P [0..<n] = (if \<exists>i < n. P i then Some (LEAST i. P i) else None)"
proof (cases "\<exists>i < n. P i")
  case True
  then have l: "P (LEAST i. P i)" "(LEAST i. P i) < n" by (meson LeastI, meson Least_le le_less_trans)
  have "find P [0..<n] = Some (LEAST i. P i)"
    unfolding find_Some_iff using l not_less_Least by (intro exI [of _ "LEAST i. P i"]) (auto simp: nth_upt)
  then show ?thesis using True by simp
qed (auto simp: find_None_iff)

lemma find_user: "find P user_pages = (if \<exists>i < 524288. P i then Some (LEAST i. P i) else None)"
  unfolding user_pages_val by (rule find_upt)

lemma set_user_pages: "set user_pages = {..<524288}" "distinct user_pages"
  unfolding user_pages_val by auto

text \<open>
  The second chance.  The page to swap out is the first user page whose accessed bit is clear, and
  then nothing changes.  When all of them have been accessed, the bit is cleared in every one and
  nowhere else, and the first user page is chosen; there is none exactly when no page is present for
  the user.
\<close>

theorem findVictimPage_second_chance:
  fixes s :: "'a kstate_scheme"
  assumes ok: "dir_ok s vs d"
  defines "cold \<equiv> \<lambda>i. accessible s d i \<and> entry s d i AND PTE_A = 0"
  shows "if \<exists>i < 524288. cold i
    then findVictimPage d s = ((PTE_ADDR (entry s d (LEAST i. cold i)), page_va (LEAST i. cold i)), s)
    else \<exists>t. dir_ok t vs d \<and>
      (\<forall>m < 1048576. entry t d m = (if m < 524288 \<and> accessible s d m then entry s d m AND NOT PTE_A else entry s d m)) \<and>
      findVictimPage d s =
        (if \<exists>i < 524288. accessible s d i
         then (PTE_ADDR (entry s d (LEAST i. accessible s d i)), page_va (LEAST i. accessible s d i)) else (0, 0), t)"
proof -
  let ?c = "\<lambda>i. user_pte d s i \<and> rd32 (pte_at d i s) s AND PTE_A = 0"
  note P = pte_at_entry [OF ok]
  have fc: "find ?c user_pages = find cold user_pages"
    by (rule find_cong [OF refl]) (use P set_user_pages in \<open>auto simp: cold_def\<close>)
  let ?t = "fold (clear_accessed d) user_pages s"
  have "dir_ok ?t vs d \<and> (\<forall>m < 1048576. entry ?t d m =
      (if m \<in> set user_pages \<and> accessible s d m then entry s d m AND NOT PTE_A else entry s d m))"
    by (rule clear_all [OF ok]) (simp_all add: set_user_pages)
  then have t: "dir_ok ?t vs d" "\<forall>m < 1048576. entry ?t d m = (if m < 524288 \<and> accessible s d m then entry s d m AND NOT PTE_A else entry s d m)"
    by (simp_all add: set_user_pages)
  have at: "accessible ?t d i = accessible s d i" if "i < 524288" for i
    using t(2) that by (auto simp: accessible_def clear_A)
  have ft: "find (user_pte d ?t) user_pages = find (accessible s d) user_pages"
    by (rule find_cong [OF refl]) (use pte_at_entry(1) [OF t(1)] at set_user_pages in auto)
  show ?thesis
  proof (cases "\<exists>i < 524288. cold i")
    case True
    then have l: "cold (LEAST i. cold i)" "(LEAST i. cold i) < 524288" by (meson LeastI, meson Least_le le_less_trans)
    have f: "find ?c user_pages = Some (LEAST i. cold i)" using True unfolding fc unfolding find_user by simp
    have r: "rd32 (pte_at d (LEAST i. cold i) s) s = entry s d (LEAST i. cold i)" using P(2) l by (simp add: cold_def)
    show ?thesis using True unfolding findVictimPage_def f by (simp add: r)
  next
    case False
    have f: "find ?c user_pages = None" using False unfolding fc unfolding find_user by simp
    have "findVictimPage d s =
        (if \<exists>i < 524288. accessible s d i
         then (PTE_ADDR (entry s d (LEAST i. accessible s d i)), page_va (LEAST i. accessible s d i)) else (0, 0), ?t)"
    proof (cases "\<exists>i < 524288. accessible s d i")
      case True
      then have l: "accessible s d (LEAST i. accessible s d i)" "(LEAST i. accessible s d i) < 524288"
        by (meson LeastI, meson Least_le le_less_trans)
      have g: "find (user_pte d ?t) user_pages = Some (LEAST i. accessible s d i)"
        using True unfolding ft unfolding find_user by simp
      have r: "PTE_ADDR (rd32 (pte_at d (LEAST i. accessible s d i) ?t) ?t) = PTE_ADDR (entry s d (LEAST i. accessible s d i))"
        using pte_at_entry(2) [OF t(1) l(2)] l at t(2) by (simp add: clear_A)
      show ?thesis using True unfolding findVictimPage_def f by (simp add: g Let_def r)
    next
      case no: False
      have g: "find (user_pte d ?t) user_pages = None" using no unfolding ft unfolding find_user by simp
      show ?thesis unfolding findVictimPage_def f if_not_P [OF no] by (simp add: g Let_def)
    qed
    then show ?thesis using False t by auto
  qed
qed

lemma bit_push_5: "\<not> bit (push_bit 12 w :: uint) 5"
  by (simp add: bit_simps)

lemma pte_a_bit: "bit PTE_A k \<longleftrightarrow> k = 5"
proof -
  have "PTE_A = push_bit 5 1" by (simp add: PTE_A_def)
  then have "bit PTE_A k = bit (push_bit 5 1 :: uint) k" by (rule arg_cong)
  from this [unfolded bit_push_bit_iff bit_1_iff possible_bit_word] show ?thesis by auto
qed

lemma pte_low_bits: "\<not> bit PTE_P 5" "\<not> bit PTE_W 5" "\<not> bit PTE_U 5"
  by (simp_all add: PTE_P_def PTE_W_def PTE_U_def bit_simps)

lemma new_page_cold:
  assumes "new_page s d n" "page_ok e (frame s d n)"
  shows "accessible s d n" "entry s d n AND PTE_A = 0"
proof -
  let ?a = "V2P (frame s d n)"
  have e: "entry s d n = ?a OR (PTE_W OR PTE_U) OR PTE_P" using assms(1) by (simp add: new_page_def)
  have "bit (entry s d n AND PTE_P) 0" "bit (entry s d n AND PTE_U) 2"
    by (simp_all add: e bit_simps PTE_P_def PTE_U_def PTE_W_def)
  then show "accessible s d n" unfolding accessible_def by (metis bit_0_eq bot_apply bot_bool_def)
  have "?a = push_bit 12 (drop_bit 12 ?a)" by (rule aligned_shift(1) [OF page_V2P_aligned [OF assms(2)]])
  then have "\<not> bit ?a 5" by (metis bit_push_5)
  then show "entry s d n AND PTE_A = 0"
    by (intro bit_word_eqI) (auto simp: e bit_simps pte_a_bit pte_low_bits)
qed

lemma findVictimPage_second_chance_witness:
  "\<exists>s :: kstate. user s 0x80101000 0 \<and> findVictimPage 0x80101000 s = ((PTE_ADDR (entry s 0x80101000 0), 0), s)"
proof -
  let ?d = "0x80101000 :: uint"
  obtain k :: kstate and v ws where k: "uvm_ok k (v # ws) ?d" "user k ?d 0" "new_page k ?d 0" using one_page_process by blast
  note c = new_page_cold [OF k(3) uvm_okD(2) [OF k(1,2)]]
  let ?c = "\<lambda>i. accessible k ?d i \<and> entry k ?d i AND PTE_A = 0"
  have l: "(LEAST i. ?c i) = 0" using c by (intro Least_equality) auto
  have "\<exists>i < 524288. ?c i" using c by (intro exI [of _ 0]) simp
  then have "findVictimPage ?d k = ((PTE_ADDR (entry k ?d (LEAST i. ?c i)), page_va (LEAST i. ?c i)), k)"
    using findVictimPage_second_chance [OF uvm_okD(1) [OF k(1)]] by (simp only: if_True)
  then show ?thesis unfolding l using k(2) by (auto simp: page_va_def)
qed

section \<open>The thresholds\<close>

definition params :: "'a swstate_scheme \<Rightarrow> int \<times> int \<times> int \<times> int" where
  "params s = (threshold s, npages_to_swap s, alpha s, beta s)"

lemma params_simps [simp]:
  "params (upd_slot i f s) = params s" "params (upd_rss j x s) = params s" "params (wr32 p w s) = params s"
  "params (out_block sl pa i s) = params s"
  by (simp_all add: params_def upd_slot_def upd_rss_def wr32_def out_block_def)

lemma params_fold: "(\<And>x s. params (f x s) = params s) \<Longrightarrow> params (fold f xs s) = params (s :: 'a swstate_scheme)"
  by (induction xs arbitrary: s) simp_all

lemma params_walk: "params (snd (walkpgdir d va False s)) = params s"
  by (simp add: walkpgdir_def Let_def)

lemma params_victim: "params (snd (findVictimPage d s)) = params s"
proof -
  have "params (clear_accessed d i s) = params s" for i and s :: "'a swstate_scheme"
    using params_simps(3) by (simp add: clear_accessed_def)
  then have "params (fold (clear_accessed d) user_pages s) = params s" by (rule params_fold)
  then show ?thesis by (simp add: findVictimPage_def Let_def split: option.split)
qed

lemma params_out: "params (snd (swapAndPageOut d va pa s)) = params s"
proof -
  obtain sl s1 where f: "findFreeSlot s = (sl, s1)" by fastforce
  then have p1: "params s1 = params s" using params_simps(1) by (auto simp: findFreeSlot_def split: option.splits)
  obtain pte s2 where w: "walkpgdir d va False s1 = (pte, s2)" by fastforce
  then have p2: "params s2 = params s" using params_walk [of d va s1] p1 by simp
  have "params (fold (out_block sl pa) xs s') = params s'" for xs and s' :: "'a swstate_scheme"
    by (rule params_fold) (rule params_simps(4))
  then show ?thesis using p1 p2 params_simps(1,3) by (simp add: swapAndPageOut_def f w Let_def)
qed

lemma params_kfree: "kfree_sw v s = Val t \<Longrightarrow> params t = params (s :: 'a swstate_scheme)"
  by (auto simp: params_def kfree_sw_def split: if_splits)

lemma params_loop: "swap_out_loop victim n sw tries s = Val t \<Longrightarrow> params t = params s"
proof (induction victim n sw tries s rule: swap_out_loop.induct)
  case (1 victim n sw tries s)
  obtain pa va s1 where v: "findVictimPage (sp_pgdir (swprocs s ! victim)) s = ((pa, va), s1)" by (metis surj_pair)
  obtain r s2 where o: "swapAndPageOut (sp_pgdir (swprocs s ! victim)) va pa s1 = (r, s2)" by fastforce
  have p: "params s1 = params s" "params s2 = params s"
    using params_victim [of "sp_pgdir (swprocs s ! victim)" s] params_out [of "sp_pgdir (swprocs s ! victim)" va pa s1]
    by (simp_all add: v o)
  note sl = swap_out_loop.simps [of victim n sw tries s]
  show ?case
  proof (cases "sw < n \<and> tries < n * 2 \<and> pa \<noteq> 0")
    case True
    then have c: "sw < n \<and> tries < n * 2" "pa \<noteq> 0" by simp_all
    note IH = 1(1) [OF c(1) refl v [symmetric] refl c(2) o [symmetric]] 1(2) [OF c(1) refl v [symmetric] refl c(2) o [symmetric]]
    show ?thesis
    proof (cases "r = 0")
      case True
      then obtain s3 where "kfree_sw (P2V pa) (upd_rss victim (- 1) s2) = Val s3"
          "swap_out_loop victim n (sw + 1) (tries + 1) s3 = Val t"
        using 1(3) sl c v o by (cases "kfree_sw (P2V pa) (upd_rss victim (- 1) s2)") (auto simp: Let_def)
      then show ?thesis using IH(1) [OF True] params_kfree p by fastforce
    next
      case False
      then show ?thesis using 1(3) sl c v o IH(2) p by (auto simp: Let_def)
    qed
  next
    case False
    then show ?thesis using 1(3) sl v p by (auto simp: Let_def split: if_splits)
  qed
qed

text \<open>
  The swapping policy stays within its bounds.  Whatever \<open>checkAndSwap\<close> does, it does nothing but
  count when more pages are free than the threshold; otherwise the threshold falls, but not below 1, and
  the number of pages to swap grows, but not above the limit.
\<close>

theorem checkAndSwap_bounds:
  assumes "1 \<le> threshold s" "1 \<le> npages_to_swap s" "npages_to_swap s \<le> limit" "0 \<le> alpha s" "0 \<le> beta s"
    and run: "checkAndSwap s = Val t" "countFreePages s = Val n"
  shows "if threshold s < n then t = s
    else 1 \<le> threshold t \<and> threshold t \<le> threshold s \<and>
      threshold t = max 1 (threshold s - threshold s * beta s div 100) \<and>
      npages_to_swap s \<le> npages_to_swap t \<and> npages_to_swap t \<le> limit \<and>
      npages_to_swap t = min limit (npages_to_swap s + npages_to_swap s * alpha s div 100)"
proof (cases "threshold s < n")
  case True
  then show ?thesis using run by (simp add: checkAndSwap_def)
next
  case False
  then obtain u where u: "swapOutPages s = Val u" "t = adapt u"
    using run by (cases "swapOutPages s") (auto simp: checkAndSwap_def)
  have "params u = params s"
    using u(1) params_loop by (auto simp: swapOutPages_def split: option.splits)
  then have p: "threshold u = threshold s" "npages_to_swap u = npages_to_swap s" "alpha u = alpha s" "beta u = beta s"
    by (simp_all add: params_def)
  have d: "x sdiv 100 = x div 100" if "0 \<le> x" for x :: int using that by (cases "x = 0") (simp_all add: signed_divide_int_def)
  have nn: "0 \<le> threshold s * beta s" "0 \<le> npages_to_swap s * alpha s" using assms(1,2,4,5) by simp_all
  have "0 \<le> threshold s * beta s div 100" "0 \<le> npages_to_swap s * alpha s div 100" using nn by simp_all
  then show ?thesis using False assms(1-3) nn
    by (auto simp: u(2) adapt_def Let_def p d limit_def max_def min_def)
qed

lemma checkAndSwap_bounds_witness:
  "countFreePages (with_slots ex_kstate []) = Val 0 \<and>
   (\<exists>t. checkAndSwap (with_slots ex_kstate []) = Val t \<and> threshold t = 90 \<and> npages_to_swap t = 5)"
proof -
  let ?s = "with_slots ex_kstate []"
  have c: "countFreePages ?s = Val 0"
    by (simp add: countFreePages_def with_slots_def ex_kstate_def count_run.simps)
  moreover have "swapOutPages ?s = Val ?s" by (simp add: swapOutPages_def findVictimProc_def with_slots_def)
  then have r: "checkAndSwap ?s = Val (adapt ?s)" using c by (simp add: checkAndSwap_def with_slots_def)
  have i: "threshold ?s = 100" "npages_to_swap ?s = 4" "alpha ?s = 25" "beta ?s = 10" by (simp_all add: with_slots_def)
  then show ?thesis using checkAndSwap_bounds [OF _ _ _ _ _ r c] c r by (simp add: limit_def)
qed

end
