(* ===== verification/Xv6_Freevm.thy ===== *)
theory Xv6_Freevm
  imports Xv6_Uvm
begin

text \<open>
  Giving back an address space: \<open>freevm\<close> puts every page of it into the pool.
\<close>

unbundle bit_operations_syntax

section \<open>One page more\<close>

lemma kfree_page:
  assumes "free_ok s vs" "page_ok (kend s) v" "v \<notin> set vs"
  obtains t where "kfree v s = Val t" "free_ok t (v # vs)" "kend t = kend s"
    "\<And>p. page_ok (kend s) p \<Longrightarrow> p \<noteq> v \<Longrightarrow> page_eq s t p"
proof -
  obtain t where t: "kfree v s = Val t" "free_ok t (v # vs)" "kend t = kend s"
      "\<And>x. x < phys v \<or> phys v + PGSIZE \<le> x \<Longrightarrow> pm t x = pm s x"
    using kfree_ok [OF assms] by metis
  have "page_eq s t p" if "page_ok (kend s) p" "p \<noteq> v" for p
    using pages_apart [OF assms(2) that(1)] that(2) by (auto simp: page_eq_def PGSIZE_def intro!: t(4))
  then show thesis using that t by blast
qed

section \<open>The tables\<close>

definition tabs :: "'a kstate_scheme \<Rightarrow> uint \<Rightarrow> nat set \<Rightarrow> uint set" where
  "tabs s d I = {tab s d i | i. i \<in> I \<and> has_tab s d i}"

lemma rd_pde:
  assumes "page_ok e d" "i < 1024"
  shows "rd32 (d + 4 * of_nat i) s = pde s d i"
proof -
  have u: "unat (of_nat i :: uint) = i" using assms(2) by (simp add: unat_of_nat_uint)
  then have "unat (4 * of_nat i :: uint) = 4 * i" using assms(2) unat_4_mult [of "of_nat i"] by simp
  then show ?thesis using phys_offset(1) [OF assms(1), of "4 * of_nat i"] assms(2) by (simp add: rd32_def pde_def)
qed

lemma pde_kept:
  assumes "page_eq s t d" "i < 1024"
  shows "pde t d i = pde s d i" "has_tab t d i = has_tab s d i" "tab t d i = tab s d i"
  using page_eq_ld32 [OF assms] by (simp_all add: pde_def has_tab_def tab_def)

lemma free_tables:
  assumes "free_ok s vs" "page_ok (kend s) d" "d \<notin> set vs" "set js \<subseteq> {..<1024}" "distinct js"
    and "\<forall>i \<in> set js. has_tab s d i \<longrightarrow> page_ok (kend s) (tab s d i) \<and> tab s d i \<notin> set vs \<and> tab s d i \<noteq> d"
    and "\<forall>i \<in> set js. \<forall>j \<in> set js. has_tab s d i \<and> has_tab s d j \<and> tab s d i = tab s d j \<longrightarrow> i = j"
  shows "\<exists>t gs. each (freevm_step d) js s = Val t \<and> free_ok t (gs @ vs) \<and> set gs = tabs s d (set js) \<and> kend t = kend s \<and>
    (\<forall>p. page_ok (kend s) p \<and> p \<notin> set gs \<longrightarrow> page_eq s t p)"
  using assms
proof (induction js arbitrary: s vs)
  case Nil
  then show ?case by (auto simp: tabs_def intro!: exI [of _ "[]"])
next
  case (Cons j js)
  note r = rd_pde [OF Cons(3), of j s]
  show ?case
  proof (cases "has_tab s d j")
    case False
    then have "freevm_step d j s = Val s" using r Cons(5) by (simp add: freevm_step_def has_tab_def Let_def)
    moreover have "tabs s d (set (j # js)) = tabs s d (set js)" using False by (auto simp: tabs_def)
    ultimately show ?thesis using Cons(1) [OF Cons(2-4)] Cons(5-8) by auto
  next
    case True
    let ?v = "tab s d j"
    have v: "page_ok (kend s) ?v" "?v \<notin> set vs" "?v \<noteq> d" using Cons(7) True by auto
    obtain t where t: "kfree ?v s = Val t" "free_ok t (?v # vs)" "kend t = kend s"
        "\<And>p. page_ok (kend s) p \<Longrightarrow> p \<noteq> ?v \<Longrightarrow> page_eq s t p"
      by (rule kfree_page [OF Cons(2) v(1,2)]) (rule that)
    have "page_eq s t d" using t(4) Cons(3) v(3) by auto
    note k = pde_kept [OF this]
    have ih: "\<exists>u gs. each (freevm_step d) js t = Val u \<and> free_ok u (gs @ ?v # vs) \<and> set gs = tabs t d (set js) \<and> kend u = kend t \<and>
        (\<forall>p. page_ok (kend t) p \<and> p \<notin> set gs \<longrightarrow> page_eq t u p)"
    proof (rule Cons(1) [OF t(2)])
      show "\<forall>i \<in> set js. has_tab t d i \<longrightarrow> page_ok (kend t) (tab t d i) \<and> tab t d i \<notin> set (?v # vs) \<and> tab t d i \<noteq> d"
      proof (intro ballI impI)
        fix i assume i: "i \<in> set js" "has_tab t d i"
        then have "i < 1024" "i \<noteq> j" using Cons(5,6) by auto
        then show "page_ok (kend t) (tab t d i) \<and> tab t d i \<notin> set (?v # vs) \<and> tab t d i \<noteq> d"
          using i k [of i] Cons(7,8) True t(3) by auto
      qed
      show "\<forall>i \<in> set js. \<forall>i' \<in> set js. has_tab t d i \<and> has_tab t d i' \<and> tab t d i = tab t d i' \<longrightarrow> i = i'"
        using Cons(5,8) k by (metis insert_iff list.simps(15) lessThan_iff subset_iff)
    qed (use Cons(3-6) v t(3) in auto)
    then obtain u gs where u: "each (freevm_step d) js t = Val u" "free_ok u (gs @ ?v # vs)" "set gs = tabs t d (set js)"
        "kend u = kend t" "\<And>p. page_ok (kend t) p \<Longrightarrow> p \<notin> set gs \<Longrightarrow> page_eq t u p"
      by blast
    have tt: "tabs t d (set js) = tabs s d (set js)"
      using Cons(5) k unfolding tabs_def by (metis (no_types, lifting) insert_subset lessThan_iff list.simps(15) subset_iff)
    have "freevm_step d j s = Val t"
      using t(1) True r Cons(5) by (simp add: freevm_step_def has_tab_def tab_def Let_def)
    moreover have "set (gs @ [?v]) = tabs s d (set (j # js))" using u(3) tt True by (auto simp: tabs_def)
    moreover have "page_eq s u p" if "page_ok (kend s) p" "p \<notin> set (gs @ [?v])" for p
      using page_eq_trans [OF t(4) u(5)] that t(3) by auto
    ultimately show ?thesis using u t(3) by (intro exI [of _ u] exI [of _ "gs @ [?v]"]) auto
  qed
qed

section \<open>freevm\<close>

text \<open>All pages that an address space holds.\<close>

definition held :: "'a kstate_scheme \<Rightarrow> uint \<Rightarrow> uint set" where
  "held s d = own s d \<union> frames s d"

lemma freevm_frees:
  assumes ok: "uvm_ok s vs d"
  obtains t ws where "freevm d s = Val t" "free_ok t ws" "set ws = set vs \<union> held s d" "kend t = kend s"
    "\<And>p. page_ok (kend s) p \<Longrightarrow> p \<notin> held s d \<Longrightarrow> page_eq s t p"
proof -
  have nz: "d \<noteq> 0" using page_ok_phys(5) dir_okD(2) uvm_okD(1) [OF ok] by blast
  have "\<exists>fs t. deallocuvm d KERNBASE 0 s = Val (0, t) \<and> unmapped s vs d (page_up 0) (page_up KERNBASE) fs t"
    by (rule deallocuvm_unmaps [OF ok]) (simp_all add: KERNBASE_def)
  moreover have "page_up 0 = 0" "page_up KERNBASE = 524288" by (simp_all add: page_up_def KERNBASE_def)
  ultimately obtain fs t where t: "deallocuvm d KERNBASE 0 s = Val (0, t)" "unmapped s vs d 0 524288 fs t" by auto
  have fs: "set fs = frames s d" using t(2) by (auto simp: unmapped_def frames_def user_def)
  have D: "dir_ok t (fs @ vs) d" "own t d = own s d" "kend t = kend s"
    using t(2) uvm_okD(1) by (auto simp: unmapped_def)
  have own: "own t d = insert d (tabs t d {..<1024})" by (auto simp: own_def tabs_def)
  have "\<exists>u gs. each (freevm_step d) [0..<1024] t = Val u \<and> free_ok u (gs @ fs @ vs) \<and> set gs = tabs t d (set [0..<1024]) \<and>
      kend u = kend t \<and> (\<forall>p. page_ok (kend t) p \<and> p \<notin> set gs \<longrightarrow> page_eq t u p)"
    by (rule free_tables [OF dir_okD(1-3) [OF D(1)]])
      (use D(1) dir_okD(5) [OF D(1)] in \<open>auto simp: dir_ok_def atLeast0LessThan\<close>)
  then obtain u gs where u: "each (freevm_step d) [0..<1024] t = Val u" "free_ok u (gs @ fs @ vs)"
      "set gs = tabs t d {..<1024}" "kend u = kend t" "\<And>p. page_ok (kend t) p \<Longrightarrow> p \<notin> set gs \<Longrightarrow> page_eq t u p"
    by (auto simp: atLeast0LessThan)
  have "d \<notin> tabs t d {..<1024}" using dir_okD(5) [OF D(1)] unfolding tabs_def mem_Collect_eq lessThan_iff by metis
  then have d: "page_ok (kend u) d" "d \<notin> set (gs @ fs @ vs)" using dir_okD(2,3) [OF D(1)] u(3,4) by auto
  obtain z where z: "kfree d u = Val z" "free_ok z (d # gs @ fs @ vs)" "kend z = kend u"
      "\<And>p. page_ok (kend u) p \<Longrightarrow> p \<noteq> d \<Longrightarrow> page_eq u z p"
    by (rule kfree_page [OF u(2) d]) (rule that)
  show thesis
  proof (rule that)
    show "freevm d s = Val z" using nz t(1) u(1) z(1) by (simp add: freevm_def)
    show "free_ok z (d # gs @ fs @ vs)" by fact
    show "set (d # gs @ fs @ vs) = set vs \<union> held s d" using D(2) own u(3) fs by (auto simp: held_def)
    show "kend z = kend s" using z(3) u(4) D(3) by simp
    fix p assume p: "page_ok (kend s) p" "p \<notin> held s d"
    have "page_eq s t p" using t(2) p fs by (simp add: unmapped_def held_def)
    moreover have "p \<notin> set gs" "p \<noteq> d" using p(2) D(2) own u(3) by (auto simp: held_def)
    then have "page_eq t u p" "page_eq u z p" using u(4,5) z(4) D(3) p(1) by auto
    ultimately show "page_eq s z p" by (blast intro: page_eq_trans)
  qed
qed

text \<open>
  C11: nothing leaks.  \<open>freevm\<close> of an address space returns, and the pool afterwards is a well-formed free list
  (each page once) of exactly the pages it had before, the memory of every user page, the tables, and the directory
  itself; no page outside of the address space changes.
\<close>

theorem freevm_returns_all:
  assumes "uvm_ok s vs d"
  shows "\<exists>t ws. freevm d s = Val t \<and> free_ok t ws \<and> set ws = set vs \<union> own s d \<union> frames s d \<and>
    length ws = length vs + card (own s d) + card (frames s d) \<and>
    (\<forall>p. page_ok (kend s) p \<and> p \<notin> own s d \<union> frames s d \<union> set vs \<longrightarrow> page_eq s t p)"
proof -
  obtain t ws where t: "freevm d s = Val t" "free_ok t ws" "set ws = set vs \<union> held s d"
      "\<And>p. page_ok (kend s) p \<Longrightarrow> p \<notin> held s d \<Longrightarrow> page_eq s t p"
    by (rule freevm_frees [OF assms]) (rule that)
  have D: "distinct vs" "distinct ws" using t(2) dir_okD(1) [OF uvm_okD(1) [OF assms]] by (simp_all add: free_ok_def)
  have fin: "finite (own s d)" "finite (frames s d)" using t(3) by (auto simp: held_def intro: rev_finite_subset [of "set ws"])
  have dis: "set vs \<inter> (own s d \<union> frames s d) = {}" "own s d \<inter> frames s d = {}"
    using assms by (auto simp: uvm_ok_def dir_ok_def)
  have "length ws = card (set vs \<union> (own s d \<union> frames s d))" using t(3) distinct_card [OF D(2)] by (simp add: held_def)
  also have "\<dots> = length vs + (card (own s d) + card (frames s d))"
    using fin dis distinct_card [OF D(1)] by (simp add: card_Un_disjoint)
  finally show ?thesis using t by (intro exI [of _ t] exI [of _ ws]) (auto simp: held_def)
qed

lemma freevm_returns_all_witness:
  "\<exists>(s :: kstate) t ws. freevm 0x80101000 s = Val t \<and> free_ok t ws \<and> length ws = 2 + card (own s 0x80101000) + card (frames s 0x80101000)"
proof -
  obtain s :: kstate where "uvm_ok s [0x80103000, 0x80102000] 0x80101000" using empty_dir_pool by blast
  from freevm_returns_all [OF this] show ?thesis by auto
qed

end
