(* ===== verification/Xv6_Fork.thy ===== *)
theory Xv6_Fork
  imports Xv6_Freevm
begin

text \<open>
  The address space of a child: \<open>setupkvm\<close> and \<open>copyuvm\<close>, on a state that holds the parent's
  address space, the child's under construction, and the pool.
\<close>

unbundle bit_operations_syntax

section \<open>A second address space\<close>

text \<open>The directory \<open>d\<close> has been built out of the pool \<open>vs\<close>, and nothing else has changed.\<close>

definition child :: "'a kstate_scheme \<Rightarrow> uint list \<Rightarrow> uint \<Rightarrow> 'a kstate_scheme \<Rightarrow> uint list \<Rightarrow> bool" where
  "child s vs d t ws \<longleftrightarrow>
     uvm_ok t ws d \<and> kend t = kend s \<and> set vs = set ws \<union> held t d \<and>
     (\<forall>p. page_ok (kend s) p \<and> p \<notin> set vs \<longrightarrow> page_eq s t p)"

text \<open>The pool is back.\<close>

definition undone :: "'a kstate_scheme \<Rightarrow> uint list \<Rightarrow> 'a kstate_scheme \<Rightarrow> uint list \<Rightarrow> bool" where
  "undone s vs t ws \<longleftrightarrow>
     free_ok t ws \<and> kend t = kend s \<and> set ws = set vs \<and> (\<forall>p. page_ok (kend s) p \<and> p \<notin> set vs \<longrightarrow> page_eq s t p)"

text \<open>What lies outside of the pool is untouched.\<close>

lemma outside_kept:
  assumes ok: "uvm_ok s vs p" and t: "free_ok t ws" "kend t = kend s" "set ws \<subseteq> set vs"
    "\<forall>q. page_ok (kend s) q \<and> q \<notin> set vs \<longrightarrow> page_eq s t q"
  shows "uvm_ok t ws p" "\<And>n. n < 1048576 \<Longrightarrow> entry t p n = entry s p n" "\<And>i. i < 1024 \<Longrightarrow> has_tab t p i = has_tab s p i"
    "\<And>i. i < 1024 \<Longrightarrow> tab t p i = tab s p i" "\<And>n. user s p n \<Longrightarrow> page_eq s t (frame s p n)"
proof -
  note D = uvm_okD(1) [OF ok]
  have own: "\<forall>q \<in> own s p. page_eq s t q" using D t(4) by (simp add: dir_ok_def)
  note fr = own_frame [OF own]
  have dis: "own s p \<inter> set ws = {}" "set ws \<inter> frames s p = {}" "own s p \<inter> frames s p = {}"
    using ok D t(3) by (auto simp: uvm_ok_def dir_ok_def)
  have "dir_ok t ws p" by (rule dir_frame [OF D own t(1,2) dis(1)])
  then show "uvm_ok t ws p" using uvm_ok_user(1) [OF ok _ t(2)] dis fr(4,5) by simp
  show "\<And>n. n < 1048576 \<Longrightarrow> entry t p n = entry s p n" "\<And>i. i < 1024 \<Longrightarrow> has_tab t p i = has_tab s p i"
    "\<And>i. i < 1024 \<Longrightarrow> tab t p i = tab s p i"
    by (fact fr(5,2,3))+
  show "page_eq s t (frame s p n)" if "user s p n" for n using t(4) uvm_okD(2,3) [OF ok that] by blast
qed

lemma childD:
  assumes "child s vs d t ws"
  shows "uvm_ok t ws d" "free_ok t ws" "kend t = kend s" "set ws \<subseteq> set vs" "set vs = set ws \<union> held t d"
    "\<forall>q. page_ok (kend s) q \<and> q \<notin> set vs \<longrightarrow> page_eq s t q"
  using assms dir_okD(1) [OF uvm_okD(1)] by (auto simp: child_def)

lemma parent_kept:
  assumes ok: "uvm_ok s vs p" and c: "child s vs d t ws"
  shows "uvm_ok t ws p" "\<And>n. n < 1048576 \<Longrightarrow> entry t p n = entry s p n" "\<And>i. i < 1024 \<Longrightarrow> has_tab t p i = has_tab s p i"
    "\<And>i. i < 1024 \<Longrightarrow> tab t p i = tab s p i" "\<And>n. user s p n \<Longrightarrow> page_eq s t (frame s p n)"
  by (fact outside_kept [OF ok childD(2,3,4,6) [OF c]])+

lemma child_freed:
  assumes "child s vs d t ws"
  obtains u us where "freevm d t = Val u" "undone s vs u us"
proof -
  note C = childD [OF assms]
  obtain u us where u: "freevm d t = Val u" "free_ok u us" "set us = set ws \<union> held t d" "kend u = kend t"
      "\<And>p. page_ok (kend t) p \<Longrightarrow> p \<notin> held t d \<Longrightarrow> page_eq t u p"
    by (rule freevm_frees [OF C(1)]) (rule that)
  have "page_eq s u p" if "page_ok (kend s) p" "p \<notin> set vs" for p
    using page_eq_trans [of s t p u] C(3,5,6) u(5) [of p] that by auto
  then show thesis using that u C(3,5) by (auto simp: undone_def)
qed

text \<open>A directory has at most 1025 pages, so a pool that has run out was not much larger than the copy.\<close>

lemma held_size:
  assumes "uvm_ok s vs d" "\<And>n. user s d n \<Longrightarrow> n < k"
  shows "finite (held s d)" "card (held s d) \<le> 1025 + k"
proof -
  have o: "own s d \<subseteq> insert d (tab s d ` {..<1024})" by (auto simp: own_def)
  have "card (own s d) \<le> card (insert d (tab s d ` {..<1024}))" by (rule card_mono [OF _ o]) simp
  also have "\<dots> \<le> Suc (card (tab s d ` {..<1024}))" by (rule card_insert_le_m1) simp_all
  also have "\<dots> \<le> 1025" using card_image_le [of "{..<1024}" "tab s d"] by simp
  finally have co: "card (own s d) \<le> 1025" .
  have f: "frames s d \<subseteq> frame s d ` {..<k}" using assms(2) by (auto simp: frames_def)
  have "card (frames s d) \<le> card (frame s d ` {..<k})" by (rule card_mono [OF _ f]) simp
  also have "\<dots> \<le> k" using card_image_le [of "{..<k}" "frame s d"] by simp
  finally have "card (frames s d) \<le> k" .
  then show "card (held s d) \<le> 1025 + k" using co card_Un_le [of "own s d" "frames s d"] by (simp add: held_def)
  show "finite (held s d)" using finite_subset [OF o] finite_subset [OF f] by (simp add: held_def)
qed

lemma pool_used_up:
  assumes "distinct vs" "set vs \<subseteq> insert v (held t d)" "uvm_ok t ws d" "\<And>n. user t d n \<Longrightarrow> n < k"
  shows "length vs \<le> k + 1026"
proof -
  note h = held_size [OF assms(3,4)]
  have "length vs = card (set vs)" using distinct_card [OF assms(1)] by simp
  also have "\<dots> \<le> card (insert v (held t d))" by (rule card_mono [OF _ assms(2)]) (use h(1) in simp)
  also have "\<dots> \<le> Suc (card (held t d))" using card_insert_le_m1 [of "Suc (card (held t d))" "held t d" v] by simp
  finally show ?thesis using h(2) by simp
qed

text \<open>The same with the tables counted.\<close>

lemma held_count:
  assumes "\<And>n. user s d n \<Longrightarrow> n \<in> U" "finite U" and "\<And>i. i < 1024 \<Longrightarrow> has_tab s d i \<Longrightarrow> i \<in> K" "finite K"
  shows "finite (held s d)" "card (held s d) \<le> Suc (card K + card U)"
proof -
  have o: "held s d \<subseteq> insert d (tab s d ` K \<union> frame s d ` U)" using assms(1,3) by (auto simp: held_def own_def frames_def)
  show "finite (held s d)" using finite_subset [OF o] assms(2,4) by simp
  have "card (held s d) \<le> card (insert d (tab s d ` K \<union> frame s d ` U))" by (rule card_mono [OF _ o]) (use assms(2,4) in simp)
  also have "\<dots> \<le> Suc (card (tab s d ` K \<union> frame s d ` U))" by (rule card_insert_le_m1) simp_all
  also have "\<dots> \<le> Suc (card (tab s d ` K) + card (frame s d ` U))" using card_Un_le by simp
  also have "\<dots> \<le> Suc (card K + card U)" using add_mono [OF card_image_le [OF assms(4), of "tab s d"] card_image_le [OF assms(2), of "frame s d"]] by simp
  finally show "card (held s d) \<le> Suc (card K + card U)" .
qed

lemma pool_count:
  assumes "distinct vs" "set vs \<subseteq> insert v (held t d)"
    and "\<And>n. user t d n \<Longrightarrow> n \<in> U" "finite U" and "\<And>i. i < 1024 \<Longrightarrow> has_tab t d i \<Longrightarrow> i \<in> K" "finite K"
  shows "length vs \<le> card K + card U + 2"
proof -
  note h = held_count [where s = t and d = d, OF assms(3-6)]
  have "length vs = card (set vs)" using distinct_card [OF assms(1)] by simp
  also have "\<dots> \<le> card (insert v (held t d))" by (rule card_mono [OF _ assms(2)]) (use h(1) in simp)
  also have "\<dots> \<le> Suc (card (held t d))" using card_insert_le_m1 [of "Suc (card (held t d))" "held t d" v] by simp
  finally show ?thesis using h(2) by simp
qed

section \<open>setupkvm\<close>

text \<open>
  No page is mapped outside of the kernel's part up to number \<open>hi\<close>, none is open to the user, and
  the tables are among the numbers \<open>K\<close>.
\<close>

definition blank :: "nat set \<Rightarrow> 'a kstate_scheme \<Rightarrow> uint \<Rightarrow> nat \<Rightarrow> bool" where
  "blank K t d hi \<longleftrightarrow> (\<forall>n < 1048576. \<not> (524288 \<le> n \<and> n < hi) \<longrightarrow> entry t d n AND PTE_P = 0) \<and>
     (\<forall>n < 1048576. entry t d n AND PTE_U = 0) \<and> (\<forall>i < 1024. has_tab t d i \<longrightarrow> i \<in> K)"

lemma blank_user: "blank K t d hi \<Longrightarrow> \<not> user t d n"
  by (auto simp: blank_def user_def)

lemma closed_entry:
  assumes "unat pa mod 4096 = 0" "perm AND PTE_U = 0"
  shows "((pa + 4096 * of_nat k) OR perm OR PTE_P) AND PTE_U = 0"
proof -
  have "pa + 4096 * of_nat k = push_bit 12 (drop_bit 12 pa) + push_bit 12 (of_nat k)"
    using aligned_shift(1) [OF assms(1)] by (simp add: push_bit_eq_mult mult.commute)
  also have "\<dots> = push_bit 12 (drop_bit 12 pa + of_nat k)" by (rule push_bit_add [symmetric])
  finally have e: "pa + 4096 * of_nat k = push_bit 12 (drop_bit 12 pa + of_nat k)" .
  have "PTE_U = push_bit 2 1" by (simp add: PTE_U_def)
  then have "bit PTE_U k = bit (push_bit 2 1 :: uint) k" for k by (rule arg_cong)
  from this [unfolded bit_push_bit_iff bit_1_iff possible_bit_word] have "push_bit 12 w AND PTE_U = 0" for w :: uint
    by (intro bit_word_eqI) (auto simp: bit_simps)
  then show ?thesis using assms(2) unfolding e by (simp only: bit.conj_disj_distrib2) (simp add: PTE_P_def PTE_U_def)
qed

lemma child_present:
  assumes c: "child s vs d t ws" and g: "grown t ws u us d"
    and e: "user u d = user t d" "\<And>n. user t d n \<Longrightarrow> entry u d n = entry t d n"
  shows "child s vs d u us"
proof -
  note C = childD [OF c]
  have G: "dir_ok u us d" "kend u = kend t" "set ws = set us \<union> (own u d - own t d)" "own t d \<subseteq> own u d"
    "own u d \<subseteq> own t d \<union> set ws"
    using g C(1) by (auto simp: grown_def uvm_ok_def dir_ok_def)
  have dis: "own u d \<inter> frames t d = {}" "set us \<inter> frames t d = {}"
    using C(1) G(3,5) by (auto simp: uvm_ok_def)
  note U = uvm_ok_present [OF C(1) G(1,2) dis e]
  have "page_eq s u p" if "page_ok (kend s) p" "p \<notin> set vs" for p
  proof (rule page_eq_trans)
    show "page_eq s t p" using C(6) that by blast
    have "p \<notin> own t d" "p \<notin> set ws" using C(5) that(2) by (auto simp: held_def)
    then show "page_eq t u p" using g that(1) C(3) by (simp add: grown_def)
  qed
  then show ?thesis using U G C(3,5) by (auto simp: child_def held_def)
qed

lemma child_grown:
  assumes "child s vs d t ws" "grown t ws u us d" "\<And>n. n < 524288 \<Longrightarrow> entry u d n = entry t d n"
  shows "child s vs d u us"
proof (rule child_present [OF assms(1,2)])
  show "user u d = user t d" by (rule ext) (use assms(3) in \<open>auto simp: user_def\<close>)
qed (use assms(3) in \<open>simp add: user_def\<close>)

lemma kvm_map:
  assumes c: "child s vs d t ws" and b: "blank K t d lo" and va: "lo \<le> vpn va" "524288 \<le> vpn va" "vpn va \<le> vpn (va + sz - 1)"
    and cl: "unat pa mod 4096 = 0" "perm AND PTE_U = 0"
    and K: "\<And>m. vpn va \<le> m \<Longrightarrow> m \<le> vpn (va + sz - 1) \<Longrightarrow> m div 1024 \<in> K"
  obtains r u us where "mappages d va sz pa perm t = Val (r, u)" "child s vs d u us" "blank K u d (Suc (vpn (va + sz - 1)))"
    "r = 0 \<or> r = - 1 \<and> us = []"
proof -
  note C = childD [OF c]
  have "entry t d m AND PTE_P = 0" if "vpn va \<le> m" "m \<le> vpn (va + sz - 1)" for m
    using b that va(1) le_less_trans [OF that(2) vpn_less] by (simp add: blank_def)
  then obtain r u where m: "mappages d va sz pa perm t = Val (r, u)"
      "mapped t ws d (vpn va) (Suc (vpn (va + sz - 1) - vpn va)) pa perm r u"
    using mappages_maps_lemma [OF uvm_okD(1) [OF C(1)] va(3), of pa perm] by blast
  from this(2) obtain us j where u: "grown t ws u us d"
      "r = 0 \<and> j = Suc (vpn (va + sz - 1) - vpn va) \<or> r = - 1 \<and> j < Suc (vpn (va + sz - 1) - vpn va) \<and> us = []"
      "\<forall>m < 1048576. entry u d m = map_range (entry t d) (vpn va) j pa perm m"
    unfolding mapped_def by (elim exE conjE) (rule that)
  have "entry u d n = entry t d n" if "n < 524288" for n using u(3) that va(2) by (simp add: map_range_def)
  note cu = child_grown [OF c u(1) this]
  have le: "vpn va + j \<le> Suc (vpn (va + sz - 1))" using u(2) va(3) by auto
  have "entry u d n AND PTE_P = 0" if "n < 1048576" "\<not> (524288 \<le> n \<and> n < Suc (vpn (va + sz - 1)))" for n
  proof -
    have "\<not> (vpn va \<le> n \<and> n < vpn va + j)" "\<not> (524288 \<le> n \<and> n < lo)" using that(2) le va by auto
    then show ?thesis using u(3) b that(1) unfolding blank_def by (simp add: map_range_def)
  qed
  moreover have "entry u d n AND PTE_U = 0" if "n < 1048576" for n
    using u(3) b that closed_entry [OF cl, of "n - vpn va"] unfolding blank_def map_range_def
    by (cases "vpn va \<le> n \<and> n < vpn va + j") auto
  moreover have "i \<in> K" if "i < 1024" "has_tab u d i" for i
    using mappages_tabs [OF uvm_okD(1) [OF C(1)] va(3) m(1) K] b that unfolding blank_def new_tabs_def by blast
  ultimately have "blank K u d (Suc (vpn (va + sz - 1)))" by (simp add: blank_def)
  then show thesis using that m(1) u(2) cu by blast
qed

text \<open>The first page of the pool as an empty directory.\<close>

lemma new_directory:
  fixes s :: "'a kstate_scheme"
  assumes f: "free_ok s (v # vs)" "KERNBASE < kend s" and z: "z = zero_page v (s\<lparr>freelist := ld32 (pm s) (phys v)\<rparr>)"
  shows "child s (v # vs) v z vs" "blank K z v 524288" "kalloc s = (v, s\<lparr>freelist := ld32 (pm s) (phys v)\<rparr>)" "v \<noteq> 0"
proof -
  note zp = zeroed_page [OF f(1) refl, folded z] and tk = taken_page [OF f(1)]
  have "pde z v i = 0" if "i < 1024" for i using zp(2) [OF that] by (simp add: pde_def)
  then have h: "\<not> has_tab z v i" if "i < 1024" for i using that by (simp add: has_tab_def)
  then have e: "entry z v n = 0" if "n < 1048576" for n using that div1024_less by (simp add: entry_def)
  have o: "own z v = {v}" using h by (auto simp: own_def)
  have nu: "\<not> user z v n" for n using e [of n] by (auto simp: user_def)
  have "dir_ok z vs v" using zp(1,5) tk(3,4) f(2) h o by (simp add: dir_ok_def)
  then have "uvm_ok z vs v" using nu by (simp add: uvm_ok_def frames_def)
  then show "child s (v # vs) v z vs" using zp(4,5) o nu by (auto simp: child_def held_def frames_def)
  show "blank K z v 524288" using e h by (simp add: blank_def)
  show "kalloc s = (v, s\<lparr>freelist := ld32 (pm s) (phys v)\<rparr>)" "v \<noteq> 0" by (fact tk)+
qed

text \<open>The kernel's data starts at a page boundary after the kernel's code.\<close>

definition kdata_ok :: "uint \<Rightarrow> uint \<Rightarrow> bool" where
  "kdata_ok stop kdata \<longleftrightarrow> unat kdata mod 4096 = 0 \<and> KERNLINK < kdata \<and> kdata < P2V stop"

lemma kdata_phys: "kdata_ok stop kdata \<Longrightarrow> unat (V2P kdata) mod 4096 = 0"
proof -
  assume k: "kdata_ok stop kdata"
  then have "2148532224 < unat kdata"
    by (simp add: kdata_ok_def KERNLINK_def KERNBASE_def EXTMEM_def word_less_nat_alt)
  then have "unat (V2P kdata) = unat kdata - 4096 * 524288" by (simp add: V2P_def KERNBASE_def unat_sub_uint)
  then show ?thesis using k \<open>2148532224 < unat kdata\<close> by (simp add: kdata_ok_def mod_eq_0_iff_dvd dvd_diff_nat)
qed

text \<open>The lines of \<open>kmap\<close>, for any end of the physical memory.\<close>

definition kmap_upto :: "uint \<Rightarrow> uint \<Rightarrow> (uint \<times> uint \<times> uint \<times> uint) list" where
  "kmap_upto stop kdata =
     [(KERNBASE, 0, EXTMEM, PTE_W), (KERNLINK, V2P KERNLINK, V2P kdata, 0), (kdata, V2P kdata, stop, PTE_W),
      (DEVSPACE, DEVSPACE, 0, PTE_W)]"

lemma below_page: "m \<noteq> 0 \<Longrightarrow> (4096 * m - 1) div 4096 = m - (1 :: nat)"
proof -
  assume "m \<noteq> 0"
  then obtain k where m: "m = Suc k" by (cases m) auto
  have "4096 * Suc k - 1 = 4095 + 4096 * k" by simp
  then show ?thesis unfolding m by simp
qed

lemma kmap_ranges:
  assumes "kdata_ok stop kdata" "stop \<le> PHYSTOP"
  shows "vpn KERNBASE = 524288" "vpn (KERNBASE + (EXTMEM - 0) - 1) = 524543" "vpn KERNLINK = 524544"
    "vpn (KERNLINK + (V2P kdata - V2P KERNLINK) - 1) = vpn kdata - 1" "524544 < vpn kdata"
    "vpn (kdata + (stop - V2P kdata) - 1) < 581632" "vpn kdata \<le> vpn (kdata + (stop - V2P kdata) - 1)"
    "vpn DEVSPACE = 1040384" "vpn (DEVSPACE + (0 - DEVSPACE) - 1) = 1048575"
proof -
  have al: "unat kdata = 4096 * vpn kdata" using assms unat_aligned [of kdata] by (simp add: kdata_ok_def)
  have lo: "2148532224 < unat kdata"
    using assms by (simp add: kdata_ok_def KERNLINK_def KERNBASE_def EXTMEM_def word_less_nat_alt)
  have st: "unat stop \<le> 234881024" using assms(2) by (simp add: PHYSTOP_def word_le_nat_alt)
  have pv: "unat (P2V stop) = unat stop + 2147483648" using st by (simp add: P2V_def KERNBASE_def unat_add_uint)
  have kp: "unat kdata < unat (P2V stop)" using assms(1) by (simp add: kdata_ok_def word_less_nat_alt)
  show q: "524544 < vpn kdata" using lo unfolding al by linarith
  have "KERNLINK + (V2P kdata - V2P KERNLINK) - 1 = kdata - 1" by (simp add: V2P_def)
  moreover have "unat (kdata - 1) = unat kdata - 1" using lo by (simp add: unat_sub_uint)
  ultimately show "vpn (KERNLINK + (V2P kdata - V2P KERNLINK) - 1) = vpn kdata - 1"
    using below_page [of "vpn kdata"] q unfolding vpn_def [of "_ - 1"] al by simp
  have e: "kdata + (stop - V2P kdata) - 1 = P2V stop - 1" by (simp add: V2P_def P2V_def)
  have ue: "unat (P2V stop - 1) = unat (P2V stop) - 1" unfolding pv using pv by (simp add: unat_sub_uint)
  have "unat (P2V stop) - 1 < 4096 * 581632" using st unfolding pv by simp
  then show "vpn (kdata + (stop - V2P kdata) - 1) < 581632" unfolding e vpn_def ue by (simp add: less_mult_imp_div_less)
  have "unat kdata \<le> unat (P2V stop) - 1" using kp by simp
  then show "vpn kdata \<le> vpn (kdata + (stop - V2P kdata) - 1)" unfolding e vpn_def ue by (rule div_le_mono)
  have "unat (- 1 :: uint) = 4294967295" by (simp add: unsigned_minus_1_eq_mask mask_eq_exp_minus_1)
  then show "vpn (DEVSPACE + (0 - DEVSPACE) - 1) = 1048575" by (simp add: vpn_def)
qed (simp_all add: vpn_def KERNBASE_def EXTMEM_def KERNLINK_def DEVSPACE_def)

text \<open>One line of \<open>kmap\<close> and the rest of the loop.\<close>

lemma setupkvm_line:
  assumes c: "child s vs d t ws" "blank K t d lo" "lo \<le> vpn va" "524288 \<le> vpn va" "vpn va \<le> vpn (va + (pe - ps) - 1)"
      "unat ps mod 4096 = 0" "perm AND PTE_U = 0"
    and K: "\<And>m. vpn va \<le> m \<Longrightarrow> m \<le> vpn (va + (pe - ps) - 1) \<Longrightarrow> m div 1024 \<in> K"
    and rest: "\<And>u us. child s vs d u us \<Longrightarrow> blank K u d (Suc (vpn (va + (pe - ps) - 1))) \<Longrightarrow>
      \<exists>r w ws'. setupkvm_loop ks d u = Val (r, w) \<and> P r w ws'"
    and fail: "\<And>u w us. child s vs d u [] \<Longrightarrow> blank K u d (Suc (vpn (va + (pe - ps) - 1))) \<Longrightarrow> undone s vs w us \<Longrightarrow> P 0 w us"
  shows "\<exists>r w ws'. setupkvm_loop ((va, ps, pe, perm) # ks) d t = Val (r, w) \<and> P r w ws'"
proof -
  obtain r u us where u: "mappages d va (pe - ps) ps perm t = Val (r, u)" "child s vs d u us"
      "blank K u d (Suc (vpn (va + (pe - ps) - 1)))" "r = 0 \<or> r = - 1 \<and> us = []"
    by (rule kvm_map [OF c]) (erule (1) K, rule that)
  show ?thesis
  proof (cases "r = 0")
    case True
    then show ?thesis using rest [OF u(2,3)] u(1) by auto
  next
    case False
    obtain w us' where w: "freevm d u = Val w" "undone s vs w us'" by (rule child_freed [OF u(2)]) (rule that)
    then have "setupkvm_loop ((va, ps, pe, perm) # ks) d t = Val (0, w)" using u(1,4) False by simp
    moreover have "P 0 w us'" using fail [of u w us'] u(2-4) w(2) False by simp
    ultimately show ?thesis by blast
  qed
qed

text \<open>The numbers of the tables for a memory that ends at \<open>stop\<close>.\<close>

definition kvm_tabs :: "uint \<Rightarrow> nat set" where
  "kvm_tabs stop = {512..<512 + (unat stop + 4194303) div 4194304} \<union> {1016..<1024}"

lemma card_kvm_tabs: "finite (kvm_tabs stop)" "card (kvm_tabs stop) \<le> (unat stop + 4194303) div 4194304 + 8"
  using card_Un_le [of "{512..<512 + (unat stop + 4194303) div 4194304}" "{1016..<1024}"] by (simp_all add: kvm_tabs_def)

lemma kmap_tabs:
  assumes "kdata_ok stop kdata" "stop \<le> PHYSTOP"
  shows "524288 \<le> m \<Longrightarrow> m \<le> vpn (kdata + (stop - V2P kdata) - 1) \<Longrightarrow> m div 1024 \<in> kvm_tabs stop"
    "1040384 \<le> m \<Longrightarrow> m \<le> 1048575 \<Longrightarrow> m div 1024 \<in> kvm_tabs stop"
proof -
  have st: "unat stop \<le> 234881024" using assms(2) by (simp add: PHYSTOP_def word_le_nat_alt)
  have pv: "unat (P2V stop) = unat stop + 2147483648" using st by (simp add: P2V_def KERNBASE_def unat_add_uint)
  have kp: "unat kdata < unat (P2V stop)" using assms(1) by (simp add: kdata_ok_def word_less_nat_alt)
  have lo: "2148532224 < unat kdata"
    using assms by (simp add: kdata_ok_def KERNLINK_def KERNBASE_def EXTMEM_def word_less_nat_alt)
  have e: "kdata + (stop - V2P kdata) - 1 = P2V stop - 1" by (simp add: V2P_def P2V_def)
  have "unat (P2V stop - 1) = unat (P2V stop) - 1" unfolding pv using pv by (simp add: unat_sub_uint)
  then have v: "vpn (kdata + (stop - V2P kdata) - 1) = (unat stop + 2147483647) div 4096" unfolding e vpn_def pv by simp
  show "m div 1024 \<in> kvm_tabs stop" if "524288 \<le> m" "m \<le> vpn (kdata + (stop - V2P kdata) - 1)"
  proof -
    have "m div 1024 \<le> (unat stop + 2147483647) div 4096 div 1024" using div_le_mono [OF that(2), of 1024] unfolding v .
    also have "\<dots> = (unat stop + 2147483647) div 4194304" by (simp add: div_mult2_eq [symmetric])
    finally have "m div 1024 \<le> (unat stop + 2147483647) div 4194304" .
    moreover have "unat stop + 2147483647 = (unat stop + 4194303) + 4194304 * 511" using lo kp pv by simp
    then have "(unat stop + 2147483647) div 4194304 = (unat stop + 4194303) div 4194304 + 511" by simp
    moreover have "512 \<le> m div 1024" using div_le_mono [OF that(1), of 1024] by simp
    ultimately show ?thesis by (simp add: kvm_tabs_def)
  qed
  show "m div 1024 \<in> kvm_tabs stop" if "1040384 \<le> m" "m \<le> 1048575"
    using div_le_mono [OF that(1), of 1024] div_le_mono [OF that(2), of 1024] by (simp add: kvm_tabs_def)
qed

lemma kmap_builds:
  fixes s :: "'a kstate_scheme"
  assumes f: "free_ok s (v # vs)" "KERNBASE < kend s" and k: "kdata_ok stop kdata" "stop \<le> PHYSTOP"
  shows "\<exists>r t ws. setupkvm_loop (kmap_upto stop kdata) v (zero_page v (s\<lparr>freelist := ld32 (pm s) (phys v)\<rparr>)) = Val (r, t) \<and>
    (r = v \<and> r \<noteq> 0 \<and> child s (v # vs) r t ws \<and> blank (kvm_tabs stop) t r 1048576 \<or>
     r = 0 \<and> undone s (v # vs) t ws \<and> length (v # vs) \<le> card (kvm_tabs stop) + 2)"
proof -
  define z where "z = zero_page v (s\<lparr>freelist := ld32 (pm s) (phys v)\<rparr>)"
  let ?K = "kvm_tabs stop"
  define P where "P r t ws \<longleftrightarrow> r = v \<and> r \<noteq> 0 \<and> child s (v # vs) r t ws \<and> blank ?K t r 1048576 \<or>
      r = 0 \<and> undone s (v # vs) t ws \<and> length (v # vs) \<le> card ?K + 2"
    for r and t :: "'a kstate_scheme" and ws
  note N = new_directory [OF f z_def]
  note R = kmap_ranges [OF k]
  have short: "P 0 w us" if "child s (v # vs) v u []" "blank ?K u v hi" "undone s (v # vs) w us" for u w us hi
  proof -
    have "length (v # vs) \<le> card ?K + card ({} :: nat set) + 2"
      by (rule pool_count [where v = v and t = u and d = v])
        (use f(1) childD(5) [OF that(1)] blank_user [OF that(2)] that(2) card_kvm_tabs in \<open>auto simp: free_ok_def blank_def\<close>)
    then show ?thesis using that(3) by (simp add: P_def)
  qed
  have al: "unat (V2P KERNLINK) mod 4096 = 0" "unat (V2P kdata) mod 4096 = 0" "unat DEVSPACE mod 4096 = 0"
    using kdata_phys [OF k(1)] by (simp_all add: V2P_def KERNLINK_def KERNBASE_def EXTMEM_def DEVSPACE_def)
  have pu: "PTE_W AND PTE_U = 0" "(0 :: uint) AND PTE_U = 0" by (simp_all add: PTE_W_def PTE_U_def)
  have tabs: "m div 1024 \<in> ?K" if "524288 \<le> m" "m \<le> vpn (kdata + (stop - V2P kdata) - 1) \<or> 1040384 \<le> m \<and> m \<le> 1048575" for m
    using kmap_tabs [OF k] that by blast
  have "\<exists>r w ws. setupkvm_loop (kmap_upto stop kdata) v z = Val (r, w) \<and> P r w ws"
    unfolding kmap_upto_def
  proof (rule setupkvm_line [OF N(1) N(2) [where K = ?K]], goal_cases)
    case (7 u us)
    show ?case
    proof (rule setupkvm_line [OF 7], goal_cases)
      case (7 u us)
      show ?case
      proof (rule setupkvm_line [OF 7], goal_cases)
        case (7 u us)
        show ?case
        proof (rule setupkvm_line [OF 7], goal_cases)
          case (7 u us)
          then have "P v u us" using N(4) R by (simp add: P_def)
          then show ?case by auto
        qed (use R al pu in \<open>auto intro: short tabs\<close>)
      qed (use R al pu in \<open>auto intro: short tabs\<close>)
    qed (use R al pu in \<open>auto intro: short tabs\<close>)
  qed (use R al pu in \<open>auto intro: short tabs\<close>)
  then show ?thesis by (simp add: P_def z_def)
qed

lemma setupkvm_builds:
  fixes s :: "'a kstate_scheme"
  assumes f: "free_ok s vs" "KERNBASE < kend s" and k: "kdata_ok PHYSTOP kdata"
  shows "\<exists>r t ws. setupkvm kdata s = Val (r, t) \<and>
    (r \<noteq> 0 \<and> child s vs r t ws \<and> (\<forall>n. \<not> user t r n) \<and> (\<forall>n < 1048576. entry t r n AND PTE_U = 0) \<or>
     r = 0 \<and> undone s vs t ws \<and> length vs \<le> 1026)"
proof (cases vs)
  case Nil
  then show ?thesis using kalloc_empty [of s] f(1) by (auto simp: setupkvm_def undone_def)
next
  case (Cons v ws)
  have "\<not> DEVSPACE < P2V PHYSTOP" by (simp add: DEVSPACE_def P2V_def PHYSTOP_def KERNBASE_def)
  then have "setupkvm kdata s = setupkvm_loop (kmap_upto PHYSTOP kdata) v (zero_page v (s\<lparr>freelist := ld32 (pm s) (phys v)\<rparr>))"
    using taken_page(1,2) [OF f(1) [unfolded Cons]] by (simp add: setupkvm_def kmap_def kmap_upto_def Let_def)
  moreover obtain r t ws' where t: "setupkvm_loop (kmap_upto PHYSTOP kdata) v (zero_page v (s\<lparr>freelist := ld32 (pm s) (phys v)\<rparr>)) = Val (r, t)"
      "r = v \<and> r \<noteq> 0 \<and> child s (v # ws) r t ws' \<and> blank (kvm_tabs PHYSTOP) t r 1048576 \<or>
       r = 0 \<and> undone s (v # ws) t ws' \<and> length (v # ws) \<le> card (kvm_tabs PHYSTOP) + 2"
    using kmap_builds [OF f(1) [unfolded Cons] f(2) k order.refl] by blast
  have "card (kvm_tabs PHYSTOP) \<le> 1024" using card_kvm_tabs(2) [of PHYSTOP] by (simp add: PHYSTOP_def)
  moreover have "(\<forall>n. \<not> user t r n) \<and> (\<forall>n < 1048576. entry t r n AND PTE_U = 0)" if "blank (kvm_tabs PHYSTOP) t r 1048576"
    using blank_user [OF that] that by (simp add: blank_def)
  ultimately show ?thesis using t Cons by auto
qed

end
