(* ===== verification/Xv6_Forkcopy.thy ===== *)
theory Xv6_Forkcopy
  imports Xv6_Fork
begin

text \<open>
  Copying the parent's pages: the loop of \<open>copyuvm\<close>.
\<close>

unbundle bit_operations_syntax

section \<open>What has been copied\<close>

definition page_copied :: "'a kstate_scheme \<Rightarrow> uint \<Rightarrow> 'a kstate_scheme \<Rightarrow> uint \<Rightarrow> nat \<Rightarrow> bool" where
  "page_copied s p t d n \<longleftrightarrow>
     PTE_FLAGS (entry t d n) = PTE_FLAGS (entry s p n) \<and>
     (\<forall>k < 4096. pm t (phys (frame t d n) + k) = pm s (phys (frame s p n) + k))"

definition copied_to :: "'a kstate_scheme \<Rightarrow> uint \<Rightarrow> uint list \<Rightarrow> uint \<Rightarrow> nat \<Rightarrow> 'a kstate_scheme \<Rightarrow> uint list \<Rightarrow> bool" where
  "copied_to s p vs d k t ws \<longleftrightarrow>
     child s vs d t ws \<and> (\<forall>n. user t d n \<longleftrightarrow> n < k \<and> user s p n) \<and> (\<forall>n < k. user s p n \<longrightarrow> page_copied s p t d n)"

lemma cleared_bits: "x AND NOT m = x \<Longrightarrow> x AND m = 0" for x m :: uint
  by (metis and.assoc and.commute and.right_neutral bit.conj_cancel_right bit.conj_zero_right)

lemma present_flag:
  assumes "e AND PTE_P \<noteq> 0"
  shows "PTE_FLAGS e OR PTE_P = PTE_FLAGS e"
proof -
  have "odd e" using assms by (simp add: PTE_P_def and_one_eq odd_iff_mod_2_eq_one)
  then show ?thesis
    unfolding PTE_FLAGS_def PTE_P_def by (intro bit_word_eqI) (auto simp: bit_simps bit_0)
qed

lemma copied_entry:
  assumes "page_ok e v"
  shows "PTE_FLAGS (V2P v OR PTE_FLAGS w OR PTE_P) = PTE_FLAGS w OR PTE_P"
    "P2V (PTE_ADDR (V2P v OR PTE_FLAGS w OR PTE_P)) = v"
proof -
  have a: "V2P v AND NOT 0xFFF = V2P v" using aligned_shift(2) [OF page_V2P_aligned [OF assms]] .
  have z: "V2P v AND 0xFFF = 0" by (rule cleared_bits [OF a])
  have p: "PTE_P AND 0xFFF = PTE_P" "PTE_P AND NOT 0xFFF = 0" by (simp_all add: PTE_P_def)
  show "PTE_FLAGS (V2P v OR PTE_FLAGS w OR PTE_P) = PTE_FLAGS w OR PTE_P"
    unfolding PTE_FLAGS_def by (simp only: bit.conj_disj_distrib2 z p and.assoc) simp
  have "(PTE_FLAGS w OR PTE_P) AND NOT 0xFFF = 0"
    unfolding PTE_FLAGS_def by (simp only: bit.conj_disj_distrib2 p and.assoc) simp
  then show "P2V (PTE_ADDR (V2P v OR PTE_FLAGS w OR PTE_P)) = v"
    using PTE_ADDR_or [OF page_V2P_aligned [OF assms]] by (simp add: or.assoc)
qed

section \<open>One page\<close>

text \<open>Everything of the address space but what is taken out of the pool keeps its contents.\<close>

lemma page_copied_kept:
  assumes sp: "page_copied s p t d n" and t: "uvm_ok t ws d" "user t d n" and e: "entry u d n = entry t d n"
    and eq: "\<And>q. page_ok (kend t) q \<Longrightarrow> q \<notin> own t d \<Longrightarrow> q \<notin> set ws \<Longrightarrow> page_eq t u q"
  shows "page_copied s p u d n"
proof -
  have "page_eq t u (frame t d n)" using uvm_okD(2-4) [OF t] by (intro eq)
  moreover have "frame u d n = frame t d n" using e by (simp add: frame_def)
  ultimately show ?thesis using sp e by (simp add: page_copied_def page_eq_def)
qed

lemma copy_page:
  fixes s :: "'a kstate_scheme"
  assumes ok: "uvm_ok s vs p" and c: "copied_to s p vs d (vpn i) t (v # ws)" and i: "unat i mod 4096 = 0" "vpn i < 524288"
    and u: "user s p (vpn i)"
    and z: "z = t\<lparr>freelist := ld32 (pm t) (phys v), pm := memmove (pm t) (phys v) (phys (frame s p (vpn i))) PGSIZE\<rparr>"
  obtains r w us where "mappages d i (of_nat PGSIZE) (V2P v) (PTE_FLAGS (entry s p (vpn i))) z = Val (r, w)"
    "r = 0 \<and> copied_to s p vs d (Suc (vpn i)) w us \<and> (\<forall>m < 1048576. m \<noteq> vpn i \<longrightarrow> entry w d m = entry t d m) \<or>
     r = - 1 \<and> uvm_ok w [] d \<and> kend w = kend s \<and> set vs = insert v (held w d) \<and> page_ok (kend s) v \<and> v \<notin> held w d \<and>
       (\<forall>n. user w d n \<longrightarrow> n < vpn i) \<and> (\<forall>q. page_ok (kend s) q \<and> q \<notin> set vs \<longrightarrow> page_eq s w q)"
proof -
  let ?n = "vpn i" and ?f = "frame s p (vpn i)" and ?fl = "PTE_FLAGS (entry s p (vpn i))"
  have ch: "child s vs d t (v # ws)" and us: "\<And>n. user t d n \<longleftrightarrow> n < ?n \<and> user s p n"
    and sp: "\<And>n. n < ?n \<Longrightarrow> user s p n \<Longrightarrow> page_copied s p t d n"
    using c by (simp_all add: copied_to_def)
  note C = childD [OF ch] and K = parent_kept [OF ok ch]
  have zo: "\<forall>a. a < phys v \<or> phys v + PGSIZE \<le> a \<longrightarrow> pm z a = pm t a" by (auto simp: z memmove_eq moved_def)
  note T = take_filled [OF C(1) _ _ zo, simplified z, simplified, folded z]
  have zc: "pm z (phys v + k) = pm s (phys ?f + k)" if "k < 4096" for k
  proof -
    have "pm z (phys v + k) = pm t (phys ?f + k)" using that by (simp add: z memmove_eq moved_def PGSIZE_def)
    then show ?thesis using K(5) [OF u] that by (simp add: page_eq_def)
  qed
  note D = uvm_okD(1) [OF T(1)]
  have no: "entry z d ?n AND PTE_P = 0" using us [of ?n] T(9) [OF vpn_less] i(2) by (simp add: user_def)
  obtain r w xs where m: "mappages d i (of_nat PGSIZE) (V2P v) ?fl z = Val (r, w)" "grown z ws w xs d"
    and cs: "r = 0 \<and> (\<forall>m < 1048576. entry w d m = (if m = ?n then V2P v OR ?fl OR PTE_P else entry z d m)) \<or>
      r = - 1 \<and> ws = [] \<and> xs = [] \<and> (\<forall>m < 1048576. entry w d m = entry z d m)"
    using mappages_page [OF D i(1) no] by blast
  have kz: "kend z = kend s" using C(3) by (simp add: z)
  have G: "kend w = kend s" "set ws = set xs \<union> (own w d - own t d)" "own t d \<subseteq> own w d"
    using m(2) T(2) kz D by (auto simp: grown_def dir_ok_def)
  have eq: "page_eq s w q" if "page_ok (kend s) q" "q \<notin> set vs" for q
  proof -
    have q: "q \<noteq> v" "q \<notin> own t d" "q \<notin> set ws" using that(2) C(5) by (auto simp: held_def)
    then have "page_eq s t q" "page_eq t z q" using C(3,6) that T(10) [of q] by auto
    moreover have "page_eq z w q" using m(2) q that(1) kz T(2) by (simp add: grown_def)
    ultimately show ?thesis by (blast intro: page_eq_trans)
  qed
  from cs show thesis
  proof
    assume r: "r = 0 \<and> (\<forall>m < 1048576. entry w d m = (if m = ?n then V2P v OR ?fl OR PTE_P else entry z d m))"
    have nz: "\<not> user z d ?n" using no by (simp add: user_def)
    have pv: "page_ok (kend t) v" using T(4) .
    note ce = copied_entry [OF pv, of "entry s p ?n"]
    have v': "page_ok (kend z) v" "v \<notin> own z d" "v \<notin> frames z d" "v \<notin> set ws" using T kz C(3) by simp_all
    have e: "\<forall>m < 1048576. entry w d m = (if m = ?n then V2P v OR ?fl OR PTE_P else entry z d m)" using r by blast
    have pr: "(V2P v OR ?fl OR PTE_P) AND PTE_P \<noteq> 0" by (rule present_or)
    note A = uvm_ok_add [OF T(1) m(2) i(2) nz v' e pr ce(2)]
    have uw: "user w d n \<longleftrightarrow> n < Suc ?n \<and> user s p n" for n
    proof (cases "n = ?n")
      case True
      then show ?thesis using e i(2) pr u by (simp add: user_def)
    next
      case False
      then have "user w d n \<longleftrightarrow> user t d n" using e T(9) [of n] by (cases "n < 1048576") (auto simp: user_def)
      then show ?thesis using us [of n] False by auto
    qed
    have "set vs = set xs \<union> held w d" using C(5) G(2,3) A(3) T(3) by (auto simp: held_def)
    then have cw: "child s vs d w xs" using A(1) G(1) eq by (simp add: child_def)
    have "page_copied s p w d n" if n: "n < ?n" "user s p n" for n
    proof (rule page_copied_kept [OF sp [OF n] C(1)])
      show "user t d n" using us n by simp
      show "entry w d n = entry t d n" using e T(9) [of n] n i(2) by simp
      show "page_eq t w q" if q: "page_ok (kend t) q" "q \<notin> own t d" "q \<notin> set (v # ws)" for q
      proof (rule page_eq_trans)
        show "page_eq t z q" using T(10) q by simp
        show "page_eq z w q" using m(2) q T(2) kz C(3) by (simp add: grown_def)
      qed
    qed
    moreover have "page_copied s p w d ?n"
    proof -
      have "page_eq z w v" using m(2) v' by (simp add: grown_def)
      then have "pm w (phys (frame w d ?n) + k) = pm s (phys ?f + k)" if "k < 4096" for k
        using zc [OF that] that A(2) by (simp add: page_eq_def)
      moreover have "?fl OR PTE_P = ?fl" using u by (intro present_flag) (simp add: user_def)
      ultimately show ?thesis using e ce(1) by (simp add: page_copied_def)
    qed
    ultimately have "copied_to s p vs d (Suc ?n) w xs" using cw uw by (auto simp: copied_to_def less_Suc_eq)
    moreover have "\<forall>m < 1048576. m \<noteq> ?n \<longrightarrow> entry w d m = entry t d m" using e T(9) by simp
    ultimately show thesis using that m(1) r by blast
  next
    assume r: "r = - 1 \<and> ws = [] \<and> xs = [] \<and> (\<forall>m < 1048576. entry w d m = entry z d m)"
    note S = grown_same [OF T(1) m(2)]
    have "uvm_ok w [] d" "frames w d = frames t d" using S r T(3) by auto
    moreover have "own w d = own t d" using G(2,3) r by auto
    moreover have "user w d n \<longrightarrow> n < ?n" for n using us [of n] r T(9) [of n] by (cases "n < 1048576") (auto simp: user_def)
    ultimately show thesis using that [OF m(1), of xs] r G(1) C(3,5) T(4-6) eq by (auto simp: held_def)
  qed
qed

section \<open>The loop\<close>

lemma copy_stuck:
  fixes w :: "'a kstate_scheme"
  assumes f: "uvm_ok w [] d" "kend w = kend s" "set vs = insert v (held w d)" "page_ok (kend s) v" "v \<notin> held w d"
    "\<forall>n. user w d n \<longrightarrow> n < k" "\<forall>q. page_ok (kend s) q \<and> q \<notin> set vs \<longrightarrow> page_eq s w q" and vs: "distinct vs"
  obtains x y us where "kfree v w = Val x" "freevm d x = Val y" "undone s vs y us" "length vs \<le> k + 1026"
proof -
  have v: "page_ok (kend w) v" "v \<notin> own w d" "v \<notin> frames w d" using f(2,4,5) by (simp_all add: held_def)
  obtain x where x: "kfree v w = Val x" "uvm_ok x [v] d" "own x d = own w d" "kend x = kend w"
      "\<And>n. n < 1048576 \<Longrightarrow> entry x d n = entry w d n" "\<And>q. page_ok (kend w) q \<Longrightarrow> q \<noteq> v \<Longrightarrow> page_eq w x q"
    by (rule free_unused [OF f(1) v(1) _ v(2,3)]) (simp, rule that)
  have dis: "own x d \<inter> frames w d = {}" "set [v] \<inter> frames w d = {}" using f(1) x(3) v(3) by (auto simp: uvm_ok_def)
  have "frames x d = frames w d" by (rule uvm_ok_user(3) [OF f(1) uvm_okD(1) [OF x(2)] x(4) dis]) (use x(5) in simp)
  moreover have "page_eq s x q" if "page_ok (kend s) q" "q \<notin> set vs" for q
    using page_eq_trans [of s w q x] f(2,3,7) x(6) [of q] that by auto
  ultimately have "child s vs d x [v]" using x(2-4) f(2,3) by (auto simp: child_def held_def)
  then obtain y us where "freevm d x = Val y" "undone s vs y us" by (rule child_freed) (rule that)
  moreover have "length vs \<le> k + 1026" by (rule pool_used_up [OF vs _ f(1)]) (use f(3,6) in auto)
  ultimately show thesis using that x(1) by blast
qed

lemma copyuvm_loop_copies:
  fixes s :: "'a kstate_scheme"
  assumes ok: "uvm_ok s vs p" and full: "\<forall>n < page_up sz. user s p n" and d: "d \<noteq> 0"
    and c: "copied_to s p vs d (vpn i) t ws" and i: "unat i mod 4096 = 0" "vpn i \<le> page_up sz" "page_up sz - vpn i \<le> n"
  shows "\<exists>r w us. copyuvm_loop n p d i sz t = Val (r, w) \<and>
    (r = d \<and> copied_to s p vs d (page_up sz) w us \<or> r = 0 \<and> undone s vs w us \<and> length vs \<le> page_up sz + 1026)"
  using c i
proof (induction n arbitrary: i t ws)
  case 0
  then have "vpn i = page_up sz" by simp
  moreover from this have "\<not> i < sz" using less_page_up [OF 0(2)] by simp
  ultimately show ?case using 0(1) by (simp add: copyuvm_loop.simps; blast)
next
  case (Suc n)
  note sl = copyuvm_loop.simps [of "Suc n" p d i sz t]
  have ch: "child s vs d t ws" and us: "\<And>n. user t d n \<Longrightarrow> n < vpn i" using Suc(2) by (simp_all add: copied_to_def)
  note C = childD [OF ch] and K = parent_kept [OF ok ch]
  have dv: "distinct vs" using dir_okD(1) [OF uvm_okD(1) [OF ok]] by (simp add: free_ok_def)
  show ?case
  proof (cases "i < sz")
    case False
    then have "vpn i = page_up sz" using less_page_up [OF Suc(3)] Suc(4) by simp
    then show ?thesis using Suc(2) False by (simp add: sl; blast)
  next
    case True
    then have lt: "vpn i < page_up sz" using less_page_up [OF Suc(3)] by simp
    have u: "user s p (vpn i)" using full lt by simp
    then have lo: "vpn i < 524288" by (simp add: user_def)
    note D = uvm_okD(1) [OF K(1)]
    have h: "has_tab t p (vpn i div 1024)" using user_has_tab [OF u] K(3) by simp
    note W = walk_present [OF dir_okD(2) [OF D] h, of False] and E = entry_slot(2,3) [OF D h, unfolded K(2) [OF vpn_less]]
    have pr: "entry s p (vpn i) AND PTE_P \<noteq> 0" using u by (simp add: user_def)
    note head = sl [simplified True W E pr Let_def, simplified E pr, simplified]
    show ?thesis
    proof (cases ws)
      case Nil
      obtain w us' where w: "freevm d t = Val w" "undone s vs w us'" by (rule child_freed [OF ch]) (rule that)
      have "length vs \<le> vpn i + 1026" by (rule pool_used_up [OF dv _ C(1)]) (use C(5) Nil us in auto)
      moreover have "kalloc t = (0, t)" using kalloc_empty C(2) Nil by simp
      ultimately show ?thesis using w lt head E pr by auto
    next
      case (Cons v vs')
      define z where "z = t\<lparr>freelist := ld32 (pm t) (phys v), pm := memmove (pm t) (phys v) (phys (frame s p (vpn i))) PGSIZE\<rparr>"
      have ka: "kalloc t = (v, t\<lparr>freelist := ld32 (pm t) (phys v)\<rparr>)" "v \<noteq> 0" using kalloc_ok(1,3) [OF C(2) [unfolded Cons]] by simp_all
      obtain r w us' where w: "mappages d i (of_nat PGSIZE) (V2P v) (PTE_FLAGS (entry s p (vpn i))) z = Val (r, w)"
          "r = 0 \<and> copied_to s p vs d (Suc (vpn i)) w us' \<and> (\<forall>m < 1048576. m \<noteq> vpn i \<longrightarrow> entry w d m = entry t d m) \<or>
           r = - 1 \<and> uvm_ok w [] d \<and> kend w = kend s \<and> set vs = insert v (held w d) \<and> page_ok (kend s) v \<and> v \<notin> held w d \<and>
             (\<forall>n. user w d n \<longrightarrow> n < vpn i) \<and> (\<forall>q. page_ok (kend s) q \<and> q \<notin> set vs \<longrightarrow> page_eq s w q)"
        by (rule copy_page [OF ok Suc(2) [unfolded Cons] Suc(3) lo u z_def]) (rule that)
      have step: "copyuvm_loop (Suc n) p d i sz t =
          (if r < 0 then andthen (kfree v w) (\<lambda>s5. andthen (freevm d s5) (\<lambda>s6. Val (0, s6)))
           else copyuvm_loop n p d (i + of_nat PGSIZE) sz w)"
        using head ka w(1) E pr by (simp add: z_def frame_def)
      note np = next_page [OF Suc(3) lo]
      from w(2) show ?thesis
      proof
        assume r: "r = 0 \<and> copied_to s p vs d (Suc (vpn i)) w us' \<and> (\<forall>m < 1048576. m \<noteq> vpn i \<longrightarrow> entry w d m = entry t d m)"
        then have "copied_to s p vs d (vpn (i + of_nat PGSIZE)) w us'" by (simp add: np(2))
        from Suc(1) [OF this np(1)] show ?thesis using step r lt Suc(5) by (simp add: np(2))
      next
        assume r: "r = - 1 \<and> uvm_ok w [] d \<and> kend w = kend s \<and> set vs = insert v (held w d) \<and> page_ok (kend s) v \<and>
          v \<notin> held w d \<and> (\<forall>n. user w d n \<longrightarrow> n < vpn i) \<and> (\<forall>q. page_ok (kend s) q \<and> q \<notin> set vs \<longrightarrow> page_eq s w q)"
        then obtain x y us2 where "kfree v w = Val x" "freevm d x = Val y" "undone s vs y us2" "length vs \<le> vpn i + 1026"
          using copy_stuck [of w d s vs v "vpn i"] dv by blast
        then show ?thesis using step r lt by auto
      qed
    qed
  qed
qed

text \<open>
  C9: the memory of a child (\<open>copyuvm\<close>, called by \<open>fork\<close>).  For a parent whose pages below its size are all present,
  \<open>copyuvm\<close> returns.  Either the result is a directory with exactly the parent's pages, each with the
  parent's flags and contents in memory of its own that comes from the pool; or it is 0, which
  happens only when the pool has at most 1026 pages more than the parent, and then every page is back
  in the pool.  In both cases the parent's address space is as before, entry by entry and byte by byte.
\<close>

theorem copyuvm_copies:
  assumes ok: "uvm_ok s vs p" and full: "\<forall>n < page_up sz. user s p n" and sz: "sz \<le> KERNBASE" and k: "kdata_ok PHYSTOP kdata"
  shows "\<exists>d t ws. copyuvm kdata p sz s = Val (d, t) \<and> uvm_ok t ws p \<and>
    (\<forall>n < 1048576. entry t p n = entry s p n) \<and> (\<forall>n. user s p n \<longrightarrow> page_eq s t (frame s p n)) \<and>
    (d \<noteq> 0 \<and> uvm_ok t ws d \<and> own t d \<union> frames t d \<subseteq> set vs \<and> (\<forall>n. user t d n \<longleftrightarrow> n < page_up sz) \<and>
       (\<forall>n < page_up sz. PTE_FLAGS (entry t d n) = PTE_FLAGS (entry s p n) \<and>
          (\<forall>k < 4096. pm t (phys (frame t d n) + k) = pm s (phys (frame s p n) + k))) \<or>
     d = 0 \<and> set ws = set vs \<and> length vs \<le> page_up sz + 1026)"
proof -
  note D = uvm_okD(1) [OF ok]
  obtain d t ws where t: "setupkvm kdata s = Val (d, t)"
      "d \<noteq> 0 \<and> child s vs d t ws \<and> (\<forall>n. \<not> user t d n) \<or> d = 0 \<and> undone s vs t ws \<and> length vs \<le> 1026"
    using setupkvm_builds [OF dir_okD(1,4) [OF D] k] by blast
  have "\<exists>r w us. copyuvm kdata p sz s = Val (r, w) \<and>
      (r \<noteq> 0 \<and> copied_to s p vs r (page_up sz) w us \<or> r = 0 \<and> undone s vs w us \<and> length vs \<le> page_up sz + 1026)"
  proof (cases "d = 0")
    case False
    have v0: "vpn 0 = 0" by (simp add: vpn_def)
    have "copied_to s p vs d (vpn 0) t ws" using t(2) False by (simp add: copied_to_def v0)
    moreover have "page_up sz \<le> 524288" using page_up_user sz by (simp add: word_le_nat_alt KERNBASE_def)
    ultimately show ?thesis using copyuvm_loop_copies [OF ok full False, of 0 t ws 1048576] t(1) False by (auto simp: v0 copyuvm_def)
  qed (use t in \<open>auto simp: copyuvm_def\<close>)
  then obtain r w us where w: "copyuvm kdata p sz s = Val (r, w)"
      "r \<noteq> 0 \<and> copied_to s p vs r (page_up sz) w us \<or> r = 0 \<and> undone s vs w us \<and> length vs \<le> page_up sz + 1026"
    by blast
  from w(2) show ?thesis
  proof
    assume c: "r \<noteq> 0 \<and> copied_to s p vs r (page_up sz) w us"
    then have ch: "child s vs r w us" by (simp add: copied_to_def)
    show ?thesis using parent_kept [OF ok ch] childD(1,5) [OF ch] w(1) c
      using full by (intro exI [of _ r] exI [of _ w] exI [of _ us]) (auto simp: copied_to_def page_copied_def held_def)
  next
    assume c: "r = 0 \<and> undone s vs w us \<and> length vs \<le> page_up sz + 1026"
    then have "free_ok w us" "kend w = kend s" "set us \<subseteq> set vs" "\<forall>q. page_ok (kend s) q \<and> q \<notin> set vs \<longrightarrow> page_eq s w q"
      by (simp_all add: undone_def)
    note K = outside_kept [OF ok this]
    show ?thesis using K c w(1) by (intro exI [of _ r] exI [of _ w] exI [of _ us]) (auto simp: undone_def)
  qed
qed

section \<open>A process of one page and a large pool\<close>

lemma empty_dir_large:
  "n < 2048 \<Longrightarrow> \<exists>(s :: kstate) vs. uvm_ok s vs 0x80101000 \<and> (\<forall>m. \<not> user s 0x80101000 m) \<and> own s 0x80101000 = {0x80101000} \<and>
    kend s = kend ex_kstate \<and> length vs = n \<and> (\<forall>v \<in> set vs. \<exists>i < n. v = 0x80102000 + of_nat (i * 4096))"
proof (induction n)
  case 0
  have e: "\<forall>n. \<not> user ex_kstate 0x80101000 n" "own ex_kstate 0x80101000 = {0x80101000}"
    by (auto simp: user_def entry_def own_def has_tab_def pde_def ex_kstate_def ld32_def)
  show ?case using empty_dir_ok e by (intro exI [of _ ex_kstate] exI [of _ "[]"]) simp
next
  case (Suc n)
  then obtain s :: kstate and vs where s: "uvm_ok s vs 0x80101000" "\<forall>m. \<not> user s 0x80101000 m"
      "own s 0x80101000 = {0x80101000}" "kend s = kend ex_kstate" "length vs = n"
      "\<forall>v \<in> set vs. \<exists>i < n. v = 0x80102000 + of_nat (i * 4096)"
    by auto
  let ?v = "0x80102000 + of_nat (n * 4096) :: uint"
  have addr: "unat (0x80102000 + of_nat (i * 4096) :: uint) = 2148540416 + i * 4096" if "i < 2048" for i
    using that by (simp add: unat_add_uint unat_of_nat_uint del: of_nat_mult)
  have u: "unat ?v = 2148540416 + n * 4096" using Suc(2) by (intro addr) simp
  then have al: "unat ?v = 4096 * (524546 + n)" by simp
  have "unat ?v mod 4096 = 0" unfolding al by (rule mod_mult_self1_is_0)
  then have "page_ok (kend s) ?v"
    using u Suc(2) by (simp add: page_ok_def s(4) ex_kstate_def PGSIZE_def KERNBASE_def PHYSTOP_def word_le_nat_alt)
  moreover have "unat ?v \<noteq> unat (0x80101000 :: uint)" unfolding u by simp
  then have "?v \<noteq> 0x80101000" by metis
  moreover have "?v \<notin> set vs"
  proof
    assume "?v \<in> set vs"
    then obtain i where "i < n" "?v = 0x80102000 + of_nat (i * 4096)" using s(6) by blast
    then show False using addr [of i] u Suc(2) by simp
  qed
  ultimately obtain t :: kstate where t: "uvm_ok t (?v # vs) 0x80101000" "\<forall>m. \<not> user t 0x80101000 m"
      "own t 0x80101000 = {0x80101000}" "kend t = kend s"
    using empty_dir_add [OF s(1,2,3)] by blast
  have "\<forall>w \<in> set (?v # vs). \<exists>i < Suc n. w = 0x80102000 + of_nat (i * 4096)" using s(6) by (auto intro: less_SucI)
  then show ?case using t s(4,5) by (intro exI [of _ t] exI [of _ "?v # vs"]) simp
qed

lemma pooled_process:
  assumes "Suc (Suc n) < 2048"
  shows "\<exists>(s :: kstate) vs. uvm_ok s vs 0x80101000 \<and> user s 0x80101000 0 \<and> n \<le> length vs \<and>
    (\<forall>v \<in> set vs. \<exists>i < Suc (Suc n). v = 0x80102000 + of_nat (i * 4096))"
proof -
  let ?p = "0x80101000 :: uint"
  obtain s0 :: kstate and us where s0: "uvm_ok s0 us ?p" "\<forall>m. \<not> user s0 ?p m" "length us = Suc (Suc n)"
      "\<forall>v \<in> set us. \<exists>i < Suc (Suc n). v = 0x80102000 + of_nat (i * 4096)"
    using empty_dir_large [OF assms] by blast
  obtain v us' where us: "us = v # us'" "length us' = Suc n" using s0(3) unfolding length_Suc_conv by auto
  have v0: "vpn 0 = 0" by (simp add: vpn_def)
  have a0: "unat (0 :: uint) mod 4096 = 0" "vpn 0 < 524288" "\<not> user s0 ?p (vpn 0)" using s0(2) by (simp_all add: v0)
  obtain r :: int and s vs where "r = 0 \<and> alloced s0 (v # us') ?p (vpn 0) (Suc (vpn 0)) s vs \<and> length us' \<le> Suc (length vs) \<or>
     r = - 1 \<and> us' = [] \<and> alloced s0 (v # us') ?p (vpn 0) (vpn 0) s [] \<and> v \<notin> own s ?p \<and> v \<notin> frames s ?p"
    by (rule alloc_page [OF s0(1) [unfolded us(1)] refl a0]) (rule that)
  then have al: "alloced s0 (v # us') ?p (vpn 0) (Suc (vpn 0)) s vs" and len: "Suc n \<le> Suc (length vs)" using us(2) by fastforce+
  have "uvm_ok s vs ?p" "user s ?p 0" "set vs \<subseteq> set us" using al new_user [of s ?p 0] by (simp_all add: alloced_def v0 us(1))
  then show ?thesis using len s0(4) by (intro exI [of _ s] exI [of _ vs]) auto
qed

lemma large_process:
  "\<exists>(s :: kstate) vs. uvm_ok s vs 0x80101000 \<and> user s 0x80101000 0 \<and> 1998 \<le> length vs"
  using pooled_process [of 1998] by auto

lemma copyuvm_copies_witness:
  "\<exists>(s :: kstate) d t ws. user s 0x80101000 0 \<and> copyuvm 0x80180000 0x80101000 4096 s = Val (d, t) \<and> d \<noteq> 0 \<and>
    uvm_ok t ws d \<and> user t d 0 \<and> uvm_ok t ws 0x80101000"
proof -
  let ?p = "0x80101000 :: uint"
  obtain s :: kstate and vs where s: "uvm_ok s vs ?p" "user s ?p 0" and len: "1998 \<le> length vs" using large_process by blast
  have pu: "page_up 4096 = 1" by (simp add: page_up_def)
  have full: "\<forall>n < page_up 4096. user s ?p n" using s(2) by (simp add: pu)
  have k: "(4096 :: uint) \<le> KERNBASE" "kdata_ok PHYSTOP 0x80180000"
    by (simp_all add: KERNBASE_def kdata_ok_def KERNLINK_def EXTMEM_def P2V_def PHYSTOP_def)
  obtain d t ws where c: "copyuvm 0x80180000 ?p 4096 s = Val (d, t)" "uvm_ok t ws ?p"
      "d \<noteq> 0 \<and> uvm_ok t ws d \<and> (\<forall>n. user t d n \<longleftrightarrow> n < 1) \<or> length vs \<le> 1 + 1026"
    using copyuvm_copies [OF s(1) full k] unfolding pu
    by (elim exE conjE disjE) (rule that, assumption, assumption, simp)+
  have "d \<noteq> 0" "uvm_ok t ws d" "user t d 0" using c(3) len by auto
  then show ?thesis using s(2) c(1,2) by blast
qed

end
