(* ===== verification/Xv6_Swapvm.thy ===== *)
theory Xv6_Swapvm
  imports Xv6_Swapping Xv6_Freevm
begin

text \<open>
  Address spaces in the Memory-Swap kernel (its \<open>vm.c\<close>, and \<open>growproc\<close> of its \<open>proc.c\<close>): allocation swaps pages
  out when the pool is empty, a fork duplicates the slots of swapped pages, and \<open>copyout\<close> brings a page in.
\<close>

unbundle bit_operations_syntax

section \<open>Releasing\<close>

fun deallocuvm_sw_loop :: "nat \<Rightarrow> uint \<Rightarrow> uint \<Rightarrow> uint \<Rightarrow> 'a swstate_scheme \<Rightarrow> 'a swstate_scheme outcome" where
  "deallocuvm_sw_loop n pgdir a oldsz s =
     (if \<not> a < oldsz then Val s
      else case n of 0 \<Rightarrow> Asleep | Suc k \<Rightarrow>
        (case walkpgdir pgdir a False s of (pte, s1) \<Rightarrow>
           if pte = 0
           then deallocuvm_sw_loop k pgdir (PGADDR (PDX a + 1) 0 0 - of_nat PGSIZE + of_nat PGSIZE) oldsz s1
           else if rd32 pte s1 AND PTE_P \<noteq> 0
           then if PTE_ADDR (rd32 pte s1) = 0 then Panic ''kfree''
                else andthen (kfree_sw (P2V (PTE_ADDR (rd32 pte s1))) s1)
                  (\<lambda>s2. deallocuvm_sw_loop k pgdir (a + of_nat PGSIZE) oldsz (wr32 pte 0 s2))
           else deallocuvm_sw_loop k pgdir (a + of_nat PGSIZE) oldsz s1))"

declare deallocuvm_sw_loop.simps [simp del]

definition deallocuvm_sw :: "uint \<Rightarrow> uint \<Rightarrow> uint \<Rightarrow> 'a swstate_scheme \<Rightarrow> (uint \<times> 'a swstate_scheme) outcome" where
  "deallocuvm_sw pgdir oldsz newsz s =
     (if oldsz \<le> newsz then Val (oldsz, s)
      else andthen (deallocuvm_sw_loop 1048576 pgdir (PGROUNDUP newsz) oldsz s) (\<lambda>t. Val (newsz, t)))"

definition freevm_sw_step :: "uint \<Rightarrow> nat \<Rightarrow> 'a swstate_scheme \<Rightarrow> 'a swstate_scheme outcome" where
  "freevm_sw_step pgdir i s =
     (let pde = rd32 (pgdir + 4 * of_nat i) s
      in if pde AND PTE_P \<noteq> 0 then kfree_sw (P2V (PTE_ADDR pde)) s else Val s)"

definition freevm_sw :: "uint \<Rightarrow> 'a swstate_scheme \<Rightarrow> 'a swstate_scheme outcome" where
  "freevm_sw pgdir s =
     (if pgdir = 0 then Panic ''freevm: no pgdir''
      else andthen (deallocuvm_sw pgdir KERNBASE 0 s) (\<lambda>(_, s1).
           andthen (each (freevm_sw_step pgdir) [0..<1024] s1) (kfree_sw pgdir)))"

section \<open>Building\<close>

definition kmap_sw :: "uint \<Rightarrow> (uint \<times> uint \<times> uint \<times> uint) list" where
  "kmap_sw kdata =
     [(KERNBASE, 0, EXTMEM, PTE_W),
      (KERNLINK, V2P KERNLINK, V2P kdata, 0),
      (kdata, V2P kdata, PHYSTOP_sw, PTE_W),
      (DEVSPACE, DEVSPACE, 0, PTE_W)]"

fun setupkvm_sw_loop :: "(uint \<times> uint \<times> uint \<times> uint) list \<Rightarrow> uint \<Rightarrow> 'a swstate_scheme
    \<Rightarrow> (uint \<times> 'a swstate_scheme) outcome" where
  "setupkvm_sw_loop [] pgdir s = Val (pgdir, s)"
| "setupkvm_sw_loop ((virt, phys_start, phys_end, perm) # ks) pgdir s =
     andthen (mapPages pgdir virt (phys_end - phys_start) phys_start perm s) (\<lambda>(r, s1).
       if r < 0 then andthen (freevm_sw pgdir s1) (\<lambda>s2. Val (0, s2)) else setupkvm_sw_loop ks pgdir s1)"

definition setupkvm_sw :: "uint \<Rightarrow> 'a swstate_scheme \<Rightarrow> (uint \<times> 'a swstate_scheme) outcome" where
  "setupkvm_sw kdata s =
     andthen (kalloc_sw s) (\<lambda>(pgdir, s1).
       if pgdir = 0 then Val (0, s1)
       else let s2 = zero_page pgdir s1
            in if DEVSPACE < P2V PHYSTOP_sw then Panic ''PHYSTOP too high''
               else setupkvm_sw_loop (kmap_sw kdata) pgdir s2)"

definition inituvm_sw :: "uint \<Rightarrow> uint \<Rightarrow> uint \<Rightarrow> 'a swstate_scheme \<Rightarrow> 'a swstate_scheme outcome" where
  "inituvm_sw pgdir init sz s =
     (if PGSIZE \<le> unat sz then Panic ''inituvm: more than a page''
      else andthen (kalloc_sw s) (\<lambda>(mem, s1).
        andthen (mapPages pgdir 0 (of_nat PGSIZE) (V2P mem) (PTE_W OR PTE_U) (zero_page mem s1)) (\<lambda>(_, s2).
          Val (s2\<lparr>pm := memmove (pm s2) (phys mem) (phys init) (unat sz)\<rparr>))))"

fun allocuvm_sw_loop :: "nat \<Rightarrow> uint \<Rightarrow> uint \<Rightarrow> uint \<Rightarrow> uint \<Rightarrow> 'a swstate_scheme
    \<Rightarrow> (uint \<times> 'a swstate_scheme) outcome" where
  "allocuvm_sw_loop n pgdir oldsz newsz a s =
     (if \<not> a < newsz then Val (newsz, s)
      else case n of 0 \<Rightarrow> Asleep | Suc k \<Rightarrow>
        andthen (kalloc_retry2 s) (\<lambda>(mem, s1).
          if mem = 0 then andthen (deallocuvm_sw pgdir newsz oldsz s1) (\<lambda>(_, s2). Val (0, s2))
          else andthen (mapPages pgdir a (of_nat PGSIZE) (V2P mem) (PTE_W OR PTE_U) (zero_page mem s1)) (\<lambda>(r, s2).
            if r < 0
            then andthen (deallocuvm_sw pgdir newsz oldsz s2) (\<lambda>(_, s3).
                 andthen (kfree_sw mem s3) (\<lambda>s4. Val (0, s4)))
            else allocuvm_sw_loop k pgdir oldsz newsz (a + of_nat PGSIZE) s2)))"

declare allocuvm_sw_loop.simps [simp del]

definition allocuvm_sw :: "uint \<Rightarrow> uint \<Rightarrow> uint \<Rightarrow> 'a swstate_scheme \<Rightarrow> (uint \<times> 'a swstate_scheme) outcome" where
  "allocuvm_sw pgdir oldsz newsz s =
     (if KERNBASE \<le> newsz then Val (0, s)
      else if newsz < oldsz then Val (oldsz, s)
      else allocuvm_sw_loop 1048576 pgdir oldsz newsz (PGROUNDUP oldsz) s)"

section \<open>Forking\<close>

text \<open>
  One page.  The physical address and the flags of a present page are read before the page for the
  child is allocated.  The result says whether the loop goes on; otherwise it goes to \<open>bad\<close>.
\<close>

definition copy_present :: "uint \<Rightarrow> uint \<Rightarrow> uint \<Rightarrow> uint \<Rightarrow> uint \<times> 'a swstate_scheme
    \<Rightarrow> (bool \<times> 'a swstate_scheme) outcome" where
  "copy_present d i pa flags m =
     (case m of (mem, s) \<Rightarrow>
        if mem = 0 then Val (False, s)
        else andthen (mapPages d i (of_nat PGSIZE) (V2P mem) flags
               (s\<lparr>pm := memmove (pm s) (phys mem) (phys (P2V pa)) PGSIZE\<rparr>)) (\<lambda>(r, s1).
             if r < 0 then andthen (kfree_sw mem s1) (\<lambda>s2. Val (False, s2)) else Val (True, s1)))"

definition copy_swapped :: "uint \<Rightarrow> uint \<Rightarrow> uint \<Rightarrow> uint \<Rightarrow> 'a swstate_scheme \<Rightarrow> (bool \<times> 'a swstate_scheme) outcome" where
  "copy_swapped pgdir d i e s =
     andthen (duplicateSwapSlot (uint (drop_bit 12 (PTE_ADDR e))) s) (\<lambda>(new_slot, s1).
       if new_slot < 0
       then andthen (swapPageIn pgdir i s1) (\<lambda>(r, s2).
         if r = 0
         then case walkpgdir pgdir i False s2 of (pte, s3) \<Rightarrow>
           if pte = 0 \<or> rd32 pte s3 AND PTE_P = 0 then Val (False, s3)
           else andthen (kalloc_sw s3) (copy_present d i (PTE_ADDR (rd32 pte s3)) (PTE_FLAGS (rd32 pte s3)))
         else Val (False, s2))
       else andthen (walkpgdir_sw d i True s1) (\<lambda>(child_pte, s2).
         if child_pte = 0 then Val (False, s2)
         else Val (True, wr32 child_pte (push_bit 12 (of_int new_slot) OR (PTE_FLAGS e AND NOT PTE_P)) s2)))"

fun copyuvm_sw_loop :: "nat \<Rightarrow> uint \<Rightarrow> uint \<Rightarrow> uint \<Rightarrow> uint \<Rightarrow> 'a swstate_scheme
    \<Rightarrow> (uint \<times> 'a swstate_scheme) outcome" where
  "copyuvm_sw_loop n pgdir d i sz s =
     (if \<not> i < sz then Val (d, s)
      else case n of 0 \<Rightarrow> Asleep | Suc k \<Rightarrow>
        (case walkpgdir pgdir i False s of (pte, s1) \<Rightarrow>
           if pte = 0 then Panic ''copyuvm: pte should exist''
           else andthen
             (if rd32 pte s1 AND PTE_P \<noteq> 0
              then andthen (kalloc_retry2 s1) (copy_present d i (PTE_ADDR (rd32 pte s1)) (PTE_FLAGS (rd32 pte s1)))
              else if rd32 pte s1 \<noteq> 0 then copy_swapped pgdir d i (rd32 pte s1) s1
              else Val (True, s1))
             (\<lambda>(go, s2).
                if go then copyuvm_sw_loop k pgdir d (i + of_nat PGSIZE) sz s2
                else andthen (freevm_sw d s2) (\<lambda>s3. Val (0, s3)))))"

declare copyuvm_sw_loop.simps [simp del]

definition copyuvm_sw :: "uint \<Rightarrow> uint \<Rightarrow> uint \<Rightarrow> 'a swstate_scheme \<Rightarrow> (uint \<times> 'a swstate_scheme) outcome" where
  "copyuvm_sw kdata pgdir sz s =
     andthen (setupkvm_sw kdata s) (\<lambda>(d, s1).
       if d = 0 then Val (0, s1) else copyuvm_sw_loop 1048576 pgdir d 0 sz s1)"

section \<open>Copying to a user address\<close>

definition uva2ka_sw :: "uint \<Rightarrow> uint \<Rightarrow> 'a swstate_scheme \<Rightarrow> uint" where
  "uva2ka_sw pgdir uva s =
     (case walkpgdir pgdir uva False s of (pte, s1) \<Rightarrow>
        if pte = 0 then 0
        else if rd32 pte s1 AND PTE_P = 0 then 0
        else if rd32 pte s1 AND PTE_U = 0 then 0
        else P2V (PTE_ADDR (rd32 pte s1)))"

text \<open>
  With a null pointer for the page, the copy goes to an address below 4096: page 0 of the address
  space \<open>cur\<close> the processor is running on.  A page that is not there or not writable is a fault in
  the kernel, where \<open>trap\<close> panics.
\<close>

definition low_write :: "uint \<Rightarrow> uint \<Rightarrow> uint \<Rightarrow> nat \<Rightarrow> 'a swstate_scheme \<Rightarrow> 'a swstate_scheme outcome" where
  "low_write cur off buf n s =
     (case walkpgdir cur 0 False s of (pte, s1) \<Rightarrow>
        if pte = 0 \<or> rd32 pte s1 AND PTE_P = 0 \<or> rd32 pte s1 AND PTE_W = 0 then Panic ''trap''
        else Val (s1\<lparr>pm := memmove (pm s1) (phys (P2V (PTE_ADDR (rd32 pte s1)) + off)) (phys buf) n\<rparr>))"

text \<open>The address of the page: \<open>None\<close> stands for the return of -1.\<close>

definition copyout_page :: "uint \<Rightarrow> uint \<Rightarrow> 'a swstate_scheme \<Rightarrow> (uint option \<times> 'a swstate_scheme) outcome" where
  "copyout_page pgdir va0 s =
     (let pa0 = uva2ka_sw pgdir va0 s
      in if pa0 \<noteq> 0 then Val (Some pa0, s)
         else case walkpgdir pgdir va0 False s of (pte, s1) \<Rightarrow>
           if pte \<noteq> 0 \<and> rd32 pte s1 AND PTE_P = 0
           then andthen (swapPageIn pgdir va0 s1) (\<lambda>(r, s2). Val (None, s2))
           else Val (Some pa0, s1))"

function copyout_sw :: "uint \<Rightarrow> uint \<Rightarrow> uint \<Rightarrow> uint \<Rightarrow> uint \<Rightarrow> 'a swstate_scheme \<Rightarrow> (int \<times> 'a swstate_scheme) outcome" where
  "copyout_sw cur pgdir va buf len s =
     (if \<not> 0 < len then Val (0, s)
      else let va0 = PGROUNDDOWN va; n = copyout_n va len
        in andthen (copyout_page pgdir va0 s) (\<lambda>(pa0, s1).
          case pa0 of None \<Rightarrow> Val (- 1, s1)
          | Some a \<Rightarrow>
              andthen
                (if a = 0 then low_write cur (va - va0) buf (unat n) s1
                 else Val (s1\<lparr>pm := memmove (pm s1) (phys (a + (va - va0))) (phys buf) (unat n)\<rparr>))
                (copyout_sw cur pgdir (va0 + of_nat PGSIZE) (buf + n) (len - n))))"
  by pat_completeness auto
termination
proof (relation "measure (\<lambda>(cur, pgdir, va, buf, len, s). unat len)")
  fix va len :: uint
  assume "\<not> \<not> 0 < len"
  then have "unat (len - copyout_n va len) < unat len" by (intro copyout_less) simp
  then show "((cur, pgdir, w, b, len - n, t), cur', pgdir', va, b', len, t')
      \<in> measure (\<lambda>(cur, pgdir, va, buf, len, s). unat len)" if "n = copyout_n va len"
    for cur pgdir w b n t cur' pgdir' b' t'
    using that by simp
qed simp

declare copyout_sw.simps [simp del]

section \<open>growproc\<close>

text \<open>The size of process \<open>i\<close> is \<open>sz\<close>; the resident pages are counted by the request, not by what was mapped.\<close>

definition growproc_sw :: "nat \<Rightarrow> uint \<Rightarrow> int \<Rightarrow> 'a swstate_scheme \<Rightarrow> (int \<times> uint \<times> 'a swstate_scheme) outcome" where
  "growproc_sw i sz n s =
     (let pgdir = sp_pgdir (swprocs s ! i)
      in if 0 < n
         then andthen (allocuvm_sw pgdir sz (sz + of_int n) s) (\<lambda>(sz', s1).
           if sz' = 0 then Val (- 1, sz, s1)
           else Val (0, sz', upd_rss i (n div 4096 + (if n mod 4096 \<noteq> 0 then 1 else 0)) s1))
         else if n < 0
         then andthen (deallocuvm_sw pgdir sz (sz + of_int n) s) (\<lambda>(sz', s1).
           if sz' = 0 then Val (- 1, sz, s1)
           else Val (0, sz', upd_rss i (- ((- n) div 4096 + (if (- n) mod 4096 \<noteq> 0 then 1 else 0))) s1))
         else Val (0, sz, s))"

end
