(* ===== verification/Xv6_Swapfork.thy ===== *)
theory Xv6_Swapfork
  imports Xv6_Swapvm Xv6_Forkcopy
begin

text \<open>
  Forking a process some of whose pages are swapped out.  With pages in the pool the routines of the
  Memory-Swap kernel do what those of the other kernels do, so their lemmas apply.
\<close>

unbundle bit_operations_syntax

section \<open>With pages in the pool\<close>

lemma kalloc_sw_taken:
  "freelist s \<noteq> 0 \<Longrightarrow> kalloc_sw s =
    Val (freelist s, s\<lparr>freelist := rd32 (freelist s) s, pm := memset (pm s) (phys (freelist s)) 5 PGSIZE\<rparr>)"
  by (simp add: kalloc_sw_def refill_def Let_def rd32_def)

lemma kalloc_retry2_taken:
  "freelist s \<noteq> 0 \<Longrightarrow> kalloc_retry2 s =
    Val (freelist s, s\<lparr>freelist := rd32 (freelist s) s, pm := memset (pm s) (phys (freelist s)) 5 PGSIZE\<rparr>)"
  by (simp add: kalloc_retry2_def kalloc_retry_def kalloc_sw_taken)

lemma memset_over: "memset (memset m a c n) a c' n = memset m a c' n"
  by (rule ext) (simp add: memset_eq filled_def)

lemma zero_over: "zero_page v (s\<lparr>freelist := f, pm := memset m (phys v) c PGSIZE\<rparr>) = zero_page v (s\<lparr>freelist := f, pm := m\<rparr>)"
  by (simp add: zero_page_def memset_over)

lemma walk_sw:
  assumes w: "walkpgdir d va al s = (r, t)" "r \<noteq> 0"
  shows "walkpgdir_sw d va al s = Val (r, t)"
proof (cases "rd32 (d + 4 * PDX va) s AND PTE_P = 0 \<and> al")
  case True
  then have nz: "freelist s \<noteq> 0" using w by (auto simp: walkpgdir_def kalloc_def Let_def split: if_splits)
  have "s\<lparr>freelist := f\<rparr> = s\<lparr>freelist := f, pm := pm s\<rparr>" for f by simp
  then show ?thesis
    using w True nz kalloc_sw_taken [OF nz] zero_over [where s = s and v = "freelist s"]
    by (simp add: walkpgdir_def walkpgdir_sw_def Let_def kalloc_def rd32_def)
next
  case False
  then show ?thesis using w by (auto simp: walkpgdir_def walkpgdir_sw_def Let_def)
qed

lemma mapPages_loop_eq:
  "mappages_loop n d a l pa perm s = Val (0, t) \<Longrightarrow> mapPages_loop n d a l pa perm s = Val (0, t)"
proof (induction n arbitrary: a pa s)
  case (Suc n)
  obtain r u where w: "walkpgdir d a True s = (r, u)" by fastforce
  have nz: "r \<noteq> 0" using Suc(2) w by auto
  then have p: "rd32 r u AND PTE_P = 0" using Suc(2) w by (auto split: if_splits)
  note W = walk_sw [OF w nz]
  show ?case
  proof (cases "a = l")
    case True
    then show ?thesis using Suc(2) w W nz p by simp
  next
    case False
    then have "mappages_loop n d (a + of_nat PGSIZE) l (pa + of_nat PGSIZE) perm (wr32 r (pa OR perm OR PTE_P) u) = Val (0, t)"
      using Suc(2) w nz p by simp
    then show ?thesis using Suc(1) W nz p False by simp
  qed
qed simp

lemma mapPages_eq: "mappages d va sz pa perm s = Val (0, t) \<Longrightarrow> mapPages d va sz pa perm s = Val (0, t)"
  unfolding mappages_def mapPages_def Let_def by (rule mapPages_loop_eq)

lemma mappages_loop_result: "mappages_loop n d a l pa perm s = Val (r, t) \<Longrightarrow> r = 0 \<or> r = - 1"
proof (induction n arbitrary: a pa s)
  case (Suc n)
  then show ?case by (auto simp: Let_def split: if_splits prod.splits)
qed simp

lemma mappages_result: "mappages d va sz pa perm s = Val (r, t) \<Longrightarrow> r = 0 \<or> r = - 1"
  unfolding mappages_def Let_def by (rule mappages_loop_result)

text \<open>Neither touches the slots or the swap area.\<close>

definition slots_same :: "'a swstate_scheme \<Rightarrow> 'a swstate_scheme \<Rightarrow> bool" where
  "slots_same s t \<longleftrightarrow> slots t = slots s \<and> swapdisk t = swapdisk s"

lemma slots_same_trans [trans]: "slots_same s t \<Longrightarrow> slots_same t u \<Longrightarrow> slots_same s u"
  by (simp add: slots_same_def)

lemma walk_slots: "walkpgdir d va al s = (r, t) \<Longrightarrow> slots_same s t"
  by (auto simp: walkpgdir_def Let_def kalloc_def zero_page_def wr32_def slots_same_def split: if_splits)

lemma mappages_loop_slots: "mappages_loop n d a l pa perm s = Val (r, t) \<Longrightarrow> slots_same s t"
proof (induction n arbitrary: a pa s)
  case (Suc n)
  obtain p u where w: "walkpgdir d a True s = (p, u)" by fastforce
  define z where "z = wr32 p (pa OR perm OR PTE_P) u"
  have z: "slots_same u z" by (simp add: z_def wr32_def slots_same_def)
  from Suc(2) w have "p = 0 \<and> t = u \<or> t = z \<or> mappages_loop n d (a + of_nat PGSIZE) l (pa + of_nat PGSIZE) perm z = Val (r, t)"
    by (auto simp: Let_def z_def split: if_splits)
  then show ?case using Suc(1) walk_slots [OF w] z by (auto intro: slots_same_trans)
qed simp

lemma mappages_slots: "mappages d va sz pa perm s = Val (r, t) \<Longrightarrow> slots_same s t"
  unfolding mappages_def Let_def by (rule mappages_loop_slots)

lemma setupkvm_sw_loop_eq:
  "setupkvm_loop ks d s = Val (r, t) \<Longrightarrow> r \<noteq> 0 \<Longrightarrow> setupkvm_sw_loop ks d s = Val (r, t) \<and> slots_same s t"
proof (induction ks arbitrary: s)
  case Nil
  then show ?case by (simp add: slots_same_def)
next
  case (Cons k ks)
  obtain v ps pe perm where k: "k = (v, ps, pe, perm)" by (cases k)
  from Cons(2,3) obtain q u where u: "mappages d v (pe - ps) ps perm s = Val (q, u)" "\<not> q < 0"
      "setupkvm_loop ks d u = Val (r, t)"
    unfolding k by (auto split: if_splits)
  then have q: "q = 0" using mappages_result by fastforce
  have "mapPages d v (pe - ps) ps perm s = Val (0, u)" using mapPages_eq u(1) unfolding q .
  then show ?case using Cons(1) [OF u(3) Cons(3)] slots_same_trans [OF mappages_slots [OF u(1)]] unfolding k by simp
qed

lemma setupkvm_sw_builds:
  fixes s :: "'a swstate_scheme"
  assumes f: "free_ok s vs" "KERNBASE < kend s" and k: "kdata_ok PHYSTOP_sw kdata" and n: "11 < length vs"
  obtains d t ws where "setupkvm_sw kdata s = Val (d, t)" "d \<noteq> 0" "child s vs d t ws" "\<forall>n. \<not> user t d n" "slots_same s t"
    "\<And>i. i < 1024 \<Longrightarrow> has_tab t d i \<Longrightarrow> i \<in> kvm_tabs PHYSTOP_sw"
proof -
  obtain v ws where vs: "vs = v # ws" using n by (cases vs) auto
  note tk = taken_page(1,2) [OF f(1) [unfolded vs]]
  define z where "z = zero_page v (s\<lparr>freelist := ld32 (pm s) (phys v)\<rparr>)"
  have "PHYSTOP_sw \<le> PHYSTOP" by (simp add: PHYSTOP_def PHYSTOP_sw_def)
  moreover have "card (kvm_tabs PHYSTOP_sw) \<le> 9" using card_kvm_tabs(2) [of PHYSTOP_sw] by (simp add: PHYSTOP_sw_def)
  ultimately obtain r t us where t: "setupkvm_loop (kmap_upto PHYSTOP_sw kdata) v z = Val (r, t)"
      "r \<noteq> 0" "child s vs r t us" "blank (kvm_tabs PHYSTOP_sw) t r 1048576"
    using kmap_builds [OF f(1) [unfolded vs] f(2) k] n unfolding vs z_def by fastforce
  have fl: "freelist s = v" "v \<noteq> 0" using tk by (simp_all add: kalloc_def)
  have "\<not> DEVSPACE < P2V PHYSTOP_sw" by (simp add: DEVSPACE_def P2V_def PHYSTOP_sw_def KERNBASE_def)
  then have "setupkvm_sw kdata s = Val (r, t)"
    using setupkvm_sw_loop_eq [OF t(1,2)] kalloc_sw_taken [of s] fl
    by (simp add: setupkvm_sw_def kmap_sw_def kmap_upto_def [symmetric] z_def zero_page_def memset_over rd32_def)
  moreover have "slots_same s t"
    using setupkvm_sw_loop_eq [OF t(1,2)] by (simp add: slots_same_def z_def zero_page_def)
  moreover have "\<forall>n. \<not> user t r n" "\<And>i. i < 1024 \<Longrightarrow> has_tab t r i \<Longrightarrow> i \<in> kvm_tabs PHYSTOP_sw"
    using blank_user [OF t(4)] t(4) by (simp_all add: blank_def)
  ultimately show thesis using that t(2,3) by blast
qed

section \<open>Duplicating a slot\<close>

lemma dup_blocks:
  fixes s :: "'a swstate_scheme" and i c :: nat
  assumes "i \<noteq> c" "n \<le> 8"
  shows "\<exists>D. fold (dup_block (int i) (int c)) [0..<n] s = s\<lparr>swapdisk := D\<rparr> \<and>
    (\<forall>j < n. \<forall>k < 512. D (slot_block (int c) j) k = swapdisk s (slot_block (int i) j) k) \<and>
    (\<forall>b. (\<forall>j < n. b \<noteq> slot_block (int c) j) \<longrightarrow> D b = swapdisk s b)"
  using assms(2)
proof (induction n)
  case 0
  show ?case by (intro exI [of _ "swapdisk s"]) simp
next
  case (Suc n)
  then obtain D where D: "fold (dup_block (int i) (int c)) [0..<n] s = s\<lparr>swapdisk := D\<rparr>"
      "\<forall>j < n. \<forall>k < 512. D (slot_block (int c) j) k = swapdisk s (slot_block (int i) j) k"
      "\<forall>b. (\<forall>j < n. b \<noteq> slot_block (int c) j) \<longrightarrow> D b = swapdisk s b"
    by auto
  have "slot_block (int i) n \<noteq> slot_block (int c) j" if "j < n" for j
    using slot_block_other [of n j i c] that Suc(2) assms(1) by simp
  then have i: "D (slot_block (int i) n) = swapdisk s (slot_block (int i) n)" using D(3) by blast
  define D' where "D' = D(slot_block (int c) n := (\<lambda>k. if k < 512 then D (slot_block (int i) n) k else D (slot_block (int c) n) k))"
  have "fold (dup_block (int i) (int c)) [0..<Suc n] s = s\<lparr>swapdisk := D'\<rparr>"
    by (simp add: D(1) dup_block_def SWAP_BSIZE_def D'_def cong: if_cong)
  moreover have "\<forall>j < Suc n. \<forall>k < 512. D' (slot_block (int c) j) k = swapdisk s (slot_block (int i) j) k"
    using D(2) i by (auto simp: D'_def slot_block_inj less_Suc_eq)
  moreover have "\<forall>b. (\<forall>j < Suc n. b \<noteq> slot_block (int c) j) \<longrightarrow> D' b = swapdisk s b"
    using D(3) by (simp add: D'_def less_Suc_eq)
  ultimately show ?case by blast
qed

lemma duplicate_slot:
  fixes s :: "'a swstate_scheme"
  assumes i: "i < 800" "\<not> is_free (slots s ! i)" and len: "length (slots s) = 800" and c: "scan is_free (slots s) = Some c"
  obtains D where "duplicateSwapSlot (int i) s = Val (int c, s\<lparr>slots := (slots s)[c := \<lparr>page_perm = page_perm (slots s ! i), is_free = False\<rparr>],
      swapdisk := D\<rparr>)"
    "\<And>j k. j < 8 \<Longrightarrow> k < 512 \<Longrightarrow> D (slot_block (int c) j) k = swapdisk s (slot_block (int i) j) k"
    "\<And>m j. m \<noteq> c \<Longrightarrow> j < 8 \<Longrightarrow> D (slot_block (int m) j) = swapdisk s (slot_block (int m) j)" "c < 800" "is_free (slots s ! c)"
proof -
  note F = found_slot [OF c]
  have fc: "is_free (slots s ! c)" "c < 800" using c len by (auto simp: scan_Some)
  then have ne: "i \<noteq> c" using i(2) by auto
  define u where "u = s\<lparr>slots := (slots s)[c := \<lparr>page_perm = page_perm (slots s ! i), is_free = False\<rparr>]\<rparr>"
  have u: "upd_slot c (\<lambda>x. x\<lparr>page_perm := page_perm (slots s ! i)\<rparr>) (upd_slot c (\<lambda>x. x\<lparr>is_free := False\<rparr>) s) = u"
    using F(2) by (simp add: upd_slot_def u_def)
  obtain D where D: "fold (dup_block (int i) (int c)) [0..<8] u = u\<lparr>swapdisk := D\<rparr>"
      "\<forall>j < 8. \<forall>k < 512. D (slot_block (int c) j) k = swapdisk u (slot_block (int i) j) k"
      "\<forall>b. (\<forall>j < 8. b \<noteq> slot_block (int c) j) \<longrightarrow> D b = swapdisk u b"
    using dup_blocks [OF ne order.refl, of u] by blast
  have pp: "page_perm (slots (upd_slot c (\<lambda>x. x\<lparr>is_free := False\<rparr>) s) ! i) = page_perm (slots s ! i)"
    using ne by (simp add: upd_slot_def)
  show thesis
  proof (rule that)
    show "duplicateSwapSlot (int i) s = Val (int c, s\<lparr>slots := (slots s)[c := \<lparr>page_perm = page_perm (slots s ! i), is_free = False\<rparr>],
        swapdisk := D\<rparr>)"
      using i F(1) pp by (simp add: duplicateSwapSlot_def SWAP_SLOT_TOTAL_def SWAP_BLOCKS_PER_PAGE_def u D(1)) (simp add: u_def)
    show "D (slot_block (int c) j) k = swapdisk s (slot_block (int i) j) k" if "j < 8" "k < 512" for j k
      using D(2) that by (simp add: u_def)
    show "D (slot_block (int m) j) = swapdisk s (slot_block (int m) j)" if "m \<noteq> c" "j < 8" for m j
      using D(3) slot_block_other [of j _ m c] that by (simp add: u_def)
  qed (fact fc)+
qed

section \<open>The child so far\<close>

text \<open>
  The tables of a child whose pages below \<open>hi\<close> are copied, and the room that the copy needs in the pool.
\<close>

definition fork_tabs :: "nat \<Rightarrow> nat set" where
  "fork_tabs hi = {..<(hi + 1023) div 1024} \<union> kvm_tabs PHYSTOP_sw"

definition few_tabs :: "'a kstate_scheme \<Rightarrow> uint \<Rightarrow> nat \<Rightarrow> bool" where
  "few_tabs t d hi \<longleftrightarrow> (\<forall>i < 1024. has_tab t d i \<longrightarrow> i \<in> fork_tabs hi)"

definition fork_room :: "'a kstate_scheme \<Rightarrow> uint \<Rightarrow> nat \<Rightarrow> nat" where
  "fork_room s p hi = card {n. n < hi \<and> user s p n} + (hi + 1023) div 1024 + 11"

lemma fork_tabs_card: "finite (fork_tabs hi)" "card (fork_tabs hi) \<le> (hi + 1023) div 1024 + 9"
  using card_Un_le [of "{..<(hi + 1023) div 1024}" "kvm_tabs PHYSTOP_sw"] card_kvm_tabs [of PHYSTOP_sw]
  by (simp_all add: fork_tabs_def PHYSTOP_sw_def)

lemma few_tabs_add: "few_tabs t d hi \<Longrightarrow> new_tabs t u d {m div 1024} \<Longrightarrow> m < hi \<Longrightarrow> few_tabs u d hi"
  by (auto simp: few_tabs_def new_tabs_def fork_tabs_def)

lemma few_tabs_same: "few_tabs t d hi \<Longrightarrow> (\<And>i. i < 1024 \<Longrightarrow> has_tab u d i = has_tab t d i) \<Longrightarrow> few_tabs u d hi"
  by (simp add: few_tabs_def)

text \<open>A pool of that size has a page left at every moment of the copy.\<close>

lemma fork_room_left:
  assumes "distinct vs" "set vs \<subseteq> insert v (held t d)" "\<And>n. user t d n \<Longrightarrow> n < hi \<and> user s p n" "few_tabs t d hi"
  shows "length vs \<le> fork_room s p hi"
proof -
  have "length vs \<le> card (fork_tabs hi) + card {n. n < hi \<and> user s p n} + 2"
    by (rule pool_count [OF assms(1,2)]) (use assms(3,4) fork_tabs_card(1) in \<open>simp_all add: few_tabs_def\<close>)
  then show ?thesis using fork_tabs_card(2) [of hi] by (simp add: fork_room_def)
qed

definition swapped_out :: "'a kstate_scheme \<Rightarrow> uint \<Rightarrow> nat \<Rightarrow> bool" where
  "swapped_out s p n \<longleftrightarrow> entry s p n AND PTE_P = 0 \<and> entry s p n \<noteq> 0"

definition slot_no :: "'a kstate_scheme \<Rightarrow> uint \<Rightarrow> nat \<Rightarrow> nat" where
  "slot_no s p n = unat (drop_bit 12 (PTE_ADDR (entry s p n)))"

text \<open>Slot \<open>c\<close> of \<open>t\<close> holds what slot \<open>i\<close> of \<open>s\<close> holds.\<close>

definition slot_copy :: "'a swstate_scheme \<Rightarrow> nat \<Rightarrow> 'a swstate_scheme \<Rightarrow> nat \<Rightarrow> bool" where
  "slot_copy s i t c \<longleftrightarrow> slots t ! c = \<lparr>page_perm = page_perm (slots s ! i), is_free = False\<rparr> \<and>
     (\<forall>j < 8. \<forall>k < 512. swapdisk t (slot_block (int c) j) k = swapdisk s (slot_block (int i) j) k)"

definition slot_kept :: "'a swstate_scheme \<Rightarrow> 'a swstate_scheme \<Rightarrow> nat \<Rightarrow> bool" where
  "slot_kept s t i \<longleftrightarrow> slots t ! i = slots s ! i \<and> (\<forall>j < 8. swapdisk t (slot_block (int i) j) = swapdisk s (slot_block (int i) j))"

text \<open>\<open>c\<close> maps the swapped pages before number \<open>k\<close> to the slots of the child.\<close>

definition slots_forked :: "'a swstate_scheme \<Rightarrow> uint \<Rightarrow> uint \<Rightarrow> nat \<Rightarrow> (nat \<Rightarrow> nat) \<Rightarrow> 'a swstate_scheme \<Rightarrow> bool" where
  "slots_forked s p d k c t \<longleftrightarrow>
     (\<forall>n < k. swapped_out s p n \<longrightarrow> entry t d n = swap_entry (c n) (entry s p n) \<and> c n < 800 \<and> is_free (slots s ! c n) \<and>
        slot_copy s (slot_no s p n) t (c n)) \<and>
     inj_on c {n. n < k \<and> swapped_out s p n} \<and> length (slots t) = 800 \<and>
     (\<forall>i < 800. i \<notin> c ` {n. n < k \<and> swapped_out s p n} \<longrightarrow> slot_kept s t i)"

lemma forked_same:
  assumes f: "slots_forked s p d k c t" and e: "\<And>n. n < k \<Longrightarrow> entry u d n = entry t d n" and sl: "slots_same t u"
    and k: "\<not> swapped_out s p k"
  shows "slots_forked s p d (Suc k) c u"
proof -
  have "{n. n < Suc k \<and> swapped_out s p n} = {n. n < k \<and> swapped_out s p n}" using k by (auto simp: less_Suc_eq)
  then show ?thesis
    using f e sl k unfolding slots_forked_def slot_copy_def slot_kept_def slots_same_def by (simp add: less_Suc_eq all_conj_distrib)
qed

section \<open>A present page\<close>

lemma memmove_over:
  assumes "page_ok e v" "page_ok e f" "f \<noteq> v"
  shows "memmove (memset m (phys v) c PGSIZE) (phys v) (phys f) PGSIZE = memmove m (phys v) (phys f) PGSIZE"
  using pages_apart [OF assms(1,2)] assms(3) by (intro ext) (auto simp: memmove_eq moved_def memset_eq filled_def)

lemma fork_present:
  fixes s :: "'a swstate_scheme"
  assumes ok: "uvm_ok s vs p" and c: "copied_to s p vs d (vpn i) t ws" and i: "unat i mod 4096 = 0" "vpn i < 524288"
    and u: "user s p (vpn i)" and n: "fork_room s p hi < length vs" "vpn i < hi" "few_tabs t d hi"
  obtains w us where "andthen (kalloc_retry2 t) (copy_present d i (PTE_ADDR (entry s p (vpn i))) (PTE_FLAGS (entry s p (vpn i)))) = Val (True, w)"
    "copied_to s p vs d (Suc (vpn i)) w us" "\<And>m. m < 1048576 \<Longrightarrow> m \<noteq> vpn i \<Longrightarrow> entry w d m = entry t d m" "slots_same t w"
    "few_tabs w d hi"
proof -
  let ?f = "frame s p (vpn i)" and ?fl = "PTE_FLAGS (entry s p (vpn i))"
  have dv: "distinct vs" using dir_okD(1) [OF uvm_okD(1) [OF ok]] by (simp add: free_ok_def)
  have ch: "child s vs d t ws" using c by (simp add: copied_to_def)
  note C = childD [OF ch]
  have "ws \<noteq> []"
  proof
    assume "ws = []"
    then have "length vs \<le> fork_room s p hi"
      using c n(2,3) by (intro fork_room_left [OF dv, where t = t and d = d]) (auto simp: C(5) copied_to_def)
    then show False using n(1) by simp
  qed
  then obtain v ws' where ws: "ws = v # ws'" by (cases ws) auto
  have fl: "freelist t = v" "v \<noteq> 0" "page_ok (kend s) v" using C(2,3) by (simp_all add: ws free_ok_def)
  have f: "page_ok (kend s) ?f" "?f \<noteq> v" using uvm_okD(2,3) [OF ok u] C(5) ws by auto
  define z where "z = t\<lparr>freelist := ld32 (pm t) (phys v), pm := memmove (pm t) (phys v) (phys ?f) PGSIZE\<rparr>"
  have run: "kalloc_retry2 t = Val (v, t\<lparr>freelist := ld32 (pm t) (phys v), pm := memset (pm t) (phys v) 5 PGSIZE\<rparr>)"
    using kalloc_retry2_taken [of t] fl by (simp add: rd32_def)
  have over: "memmove (memset (pm t) (phys v) 5 PGSIZE) (phys v) (phys ?f) PGSIZE = memmove (pm t) (phys v) (phys ?f) PGSIZE"
    by (rule memmove_over [OF fl(3) f])
  obtain r w us where w: "mappages d i (of_nat PGSIZE) (V2P v) ?fl z = Val (r, w)"
      "r = 0 \<and> copied_to s p vs d (Suc (vpn i)) w us \<and> (\<forall>m < 1048576. m \<noteq> vpn i \<longrightarrow> entry w d m = entry t d m) \<or>
       r = - 1 \<and> uvm_ok w [] d \<and> kend w = kend s \<and> set vs = insert v (held w d) \<and> page_ok (kend s) v \<and> v \<notin> held w d \<and>
         (\<forall>n. user w d n \<longrightarrow> n < vpn i) \<and> (\<forall>q. page_ok (kend s) q \<and> q \<notin> set vs \<longrightarrow> page_eq s w q)"
    by (rule copy_page [OF ok c [unfolded ws] i u z_def]) (rule that)
  have zo: "\<forall>a. a < phys v \<or> phys v + PGSIZE \<le> a \<longrightarrow> pm z a = pm t a" by (auto simp: z_def memmove_eq moved_def)
  note T = take_filled [OF C(1) [unfolded ws] _ _ zo, simplified z_def, simplified, folded z_def]
  have "\<forall>q \<in> own t d. page_eq t z q" using T(5,10) uvm_okD(1) [OF C(1)] unfolding dir_ok_def by metis
  then have "few_tabs z d hi" using own_frame(2) by (intro few_tabs_same [OF n(3)]) blast
  moreover have "new_tabs z w d {vpn i div 1024}"
    by (rule mappages_page_tabs [OF uvm_okD(1) [OF T(1)] i(1) w(1)])
  ultimately have ft: "few_tabs w d hi" using few_tabs_add n(2) by blast
  have usr: "user t d m \<longleftrightarrow> m < vpn i \<and> user s p m" for m using c by (simp add: copied_to_def)
  have "r = 0"
  proof (rule ccontr)
    assume r: "r \<noteq> 0"
    have no: "entry z d (vpn i) AND PTE_P = 0" using usr [of "vpn i"] T(9) [OF vpn_less] i(2) by (simp add: user_def)
    have "entry w d m = entry t d m" if "m < 1048576" for m
      using mappages_page [OF uvm_okD(1) [OF T(1)] i(1) no, of "V2P v" ?fl] w(1) r that T(9) [OF that] by auto
    then have "user w d = user t d" by (rule user_cong)
    then have "user s p m" if "user w d m" for m using usr that by simp
    then have "length vs \<le> fork_room s p hi" using w(2) r n(2) ft by (intro fork_room_left [OF dv, of v w d hi]) auto
    then show False using n(1) by simp
  qed
  then have "mapPages d i (of_nat PGSIZE) (V2P v) ?fl z = Val (0, w)" using w(1) mapPages_eq by simp
  then have "andthen (kalloc_retry2 t) (copy_present d i (PTE_ADDR (entry s p (vpn i))) ?fl) = Val (True, w)"
    using fl(2) over by (simp add: run copy_present_def z_def frame_def)
  moreover have "slots_same t w" using mappages_slots [OF w(1)] by (simp add: slots_same_def z_def)
  moreover have "copied_to s p vs d (Suc (vpn i)) w us" "\<forall>m < 1048576. m \<noteq> vpn i \<longrightarrow> entry w d m = entry t d m"
    using w(2) \<open>r = 0\<close> by simp_all
  ultimately show thesis using that ft by blast
qed

section \<open>A swapped page\<close>

lemma entry_of_child: "push_bit 12 (of_nat c) OR (PTE_FLAGS e AND NOT PTE_P) = swap_entry c e"
  by (simp add: swap_entry_def PTE_FLAGS_def ac_simps)

lemma fork_swapped:
  fixes s :: "'a swstate_scheme"
  assumes ok: "uvm_ok s vs p" and c: "copied_to s p vs d (vpn i) t ws" and lo: "vpn i < 524288"
    and u: "swapped_out s p (vpn i)" and n: "fork_room s p hi < length vs" "vpn i < hi" "few_tabs t d hi"
    and f: "slots_forked s p d (vpn i) g t" and sl: "slot_no s p (vpn i) < 800" "\<not> is_free (slots s ! slot_no s p (vpn i))"
    and x: "scan is_free (slots t) = Some x"
  obtains w us where "copy_swapped p d i (entry s p (vpn i)) t = Val (True, w)"
    "copied_to s p vs d (Suc (vpn i)) w us" "slots_forked s p d (Suc (vpn i)) (g(vpn i := x)) w" "few_tabs w d hi"
proof -
  let ?n = "vpn i" and ?i = "slot_no s p (vpn i)" and ?e = "entry s p (vpn i)"
  let ?S = "{n. n < ?n \<and> swapped_out s p n}"
  have ch: "child s vs d t ws" and us: "\<And>n. user t d n \<longleftrightarrow> n < ?n \<and> user s p n" using c by (simp_all add: copied_to_def)
  note C = childD [OF ch]
  have dv: "distinct vs" using dir_okD(1) [OF uvm_okD(1) [OF ok]] by (simp add: free_ok_def)
  have G: "\<And>n. n < ?n \<Longrightarrow> swapped_out s p n \<Longrightarrow> is_free (slots s ! g n) \<and> g n < 800"
    and len: "length (slots t) = 800" and kept: "\<And>i. i < 800 \<Longrightarrow> i \<notin> g ` ?S \<Longrightarrow> slot_kept s t i"
    using f by (auto simp: slots_forked_def)
  have ki: "slot_kept s t ?i" using G sl by (intro kept) auto
  then have nf: "\<not> is_free (slots t ! ?i)" using sl(2) by (simp add: slot_kept_def)
  obtain D where D: "duplicateSwapSlot (int ?i) t = Val (int x, t\<lparr>slots := (slots t)[x := \<lparr>page_perm = page_perm (slots t ! ?i), is_free = False\<rparr>],
        swapdisk := D\<rparr>)"
      "\<And>j k. j < 8 \<Longrightarrow> k < 512 \<Longrightarrow> D (slot_block (int x) j) k = swapdisk t (slot_block (int ?i) j) k"
      "\<And>m j. m \<noteq> x \<Longrightarrow> j < 8 \<Longrightarrow> D (slot_block (int m) j) = swapdisk t (slot_block (int m) j)" "x < 800" "is_free (slots t ! x)"
    by (rule duplicate_slot [OF sl(1) nf len x]) (rule that)
  define t1 where "t1 = t\<lparr>slots := (slots t)[x := \<lparr>page_perm = page_perm (slots t ! ?i), is_free = False\<rparr>], swapdisk := D\<rparr>"
  have dup: "duplicateSwapSlot (uint (drop_bit 12 (PTE_ADDR ?e))) t = Val (int x, t1)"
    using D(1) by (simp add: t1_def slot_no_def)
  have v1: "pm t1 = pm t" "freelist t1 = freelist t" "kend t1 = kend t" by (simp_all add: t1_def)
  note V = same_view [OF v1, where d = d]
  have D1: "dir_ok t1 ws d" using uvm_okD(1) [OF C(1)] V(7) by simp
  have ne: "ws \<noteq> []"
  proof
    assume "ws = []"
    then have "length vs \<le> fork_room s p hi"
      using c n(2,3) by (intro fork_room_left [OF dv, where t = t and d = d]) (auto simp: C(5) copied_to_def)
    then show False using n(1) by simp
  qed
  obtain t2 us where t2: "walkpgdir d i True t1 = (tab t2 d (?n div 1024) + 4 * PTX i, t2)" "grown t1 ws t2 us d"
      "has_tab t2 d (?n div 1024)" "\<forall>n < 1048576. entry t2 d n = entry t1 d n"
    using walk_alloc [OF D1, of i] ne by blast
  have D2: "dir_ok t2 us d" using t2(2) by (simp add: grown_def)
  let ?p = "tab t2 d (?n div 1024) + 4 * PTX i"
  note E = entry_slot(2) [OF D2 t2(3)] and W = write_entry [OF D2 t2(3), where w = "swap_entry x ?e"]
  define w where "w = wr32 ?p (swap_entry x ?e) t2"
  have run: "copy_swapped p d i ?e t = Val (True, w)"
    using dup walk_sw [OF t2(1) E] E by (simp add: copy_swapped_def entry_of_child w_def)
  have ew: "entry w d m = (if m = ?n then swap_entry x ?e else entry t d m)" if "m < 1048576" for m
    using W(2) [OF that] t2(4) that V(1) by (simp add: w_def)
  have nu: "\<not> user s p ?n" using u by (simp add: swapped_out_def user_def)
  have uw: "user w d m \<longleftrightarrow> user t d m" for m
    using ew [of m] us [of m] nu by (cases "m < 1048576") (auto simp: user_def)
  have g1: "grown t ws w us d"
    using grown_trans [OF t2(2) W(1)] V(2) v1 unfolding w_def [symmetric] by (simp add: grown_def page_eq_def)
  have "entry w d m = entry t d m" if "user t d m" for m using ew [OF user_less [OF that]] that us nu by auto
  then have cw: "child s vs d w us" by (intro child_present [OF ch g1]) (use uw in auto)
  have sp: "page_copied s p w d m" if m: "m < ?n" "user s p m" for m
  proof (rule page_copied_kept [OF _ C(1)])
    show "page_copied s p t d m" using c m by (simp add: copied_to_def)
    show "user t d m" using us m by simp
    show "entry w d m = entry t d m" using ew m lo by simp
    show "page_eq t w q" if "page_ok (kend t) q" "q \<notin> own t d" "q \<notin> set ws" for q
      using g1 that by (simp add: grown_def)
  qed
  have ct: "copied_to s p vs d (Suc ?n) w us" using cw sp uw us nu by (auto simp: copied_to_def less_Suc_eq)
  have sw: "slots w = (slots t)[x := \<lparr>page_perm = page_perm (slots t ! ?i), is_free = False\<rparr>]" "swapdisk w = D"
    using walk_slots [OF t2(1)] by (simp_all add: w_def wr32_def slots_same_def t1_def)
  have xg: "x \<notin> g ` ?S"
  proof
    assume "x \<in> g ` ?S"
    then obtain m where m: "m < ?n" "swapped_out s p m" "x = g m" by blast
    then have "slot_copy s (slot_no s p m) t (g m)" using f by (auto simp: slots_forked_def)
    then show False using D(5) m(3) by (simp add: slot_copy_def)
  qed
  have fx: "is_free (slots s ! x)" using kept [OF D(4) xg] D(5) by (simp add: slot_kept_def)
  have S: "{n. n < Suc ?n \<and> swapped_out s p n} = insert ?n ?S" using u by (auto simp: less_Suc_eq)
  have im: "(g(?n := x)) ` {n. n < Suc ?n \<and> swapped_out s p n} = insert x (g ` ?S)" unfolding S by auto
  have new: "slot_copy s ?i w x"
    using D(2,4) ki len by (simp add: slot_copy_def slot_kept_def sw)
  have old: "entry w d m = swap_entry (g m) (entry s p m) \<and> g m < 800 \<and> is_free (slots s ! g m) \<and> slot_copy s (slot_no s p m) w (g m)"
    if m: "m < ?n" "swapped_out s p m" for m
  proof -
    have "g m \<noteq> x" using xg m by auto
    then show ?thesis
      using f m ew [of m] lo D(3) [of "g m"] by (auto simp: slots_forked_def slot_copy_def sw)
  qed
  have k: "slot_kept s w j" if "j < 800" "j \<notin> insert x (g ` ?S)" for j
    using kept [OF that(1)] that(2) D(3) [of j] by (simp add: slot_kept_def sw)
  have "inj_on (g(?n := x)) (insert ?n ?S)"
    using f xg by (auto simp: slots_forked_def inj_on_def)
  then have "slots_forked s p d (Suc ?n) (g(?n := x)) w"
    using new old k fx D(4) len ew [of ?n] lo unfolding slots_forked_def im S [symmetric]
    by (auto simp: less_Suc_eq sw)
  moreover have "few_tabs w d hi"
  proof (rule few_tabs_add [OF few_tabs_same [OF n(3)] _ n(2)])
    show "has_tab t1 d j = has_tab t d j" for j using V(8) by simp
    show "new_tabs t1 w d {?n div 1024}"
      unfolding w_def by (rule new_tabs_trans [OF walk_tabs [OF D1 t2(1)] write_tabs [OF D2 t2(3)]])
  qed
  ultimately show thesis using that run ct by blast
qed

section \<open>All pages\<close>

lemma free_slot_left:
  fixes g :: "nat \<Rightarrow> nat"
  assumes f: "slots_forked s p d k g t" and k: "k < hi" "swapped_out s p k"
    and n: "card {n. n < hi \<and> swapped_out s p n} \<le> card {i. i < 800 \<and> is_free (slots s ! i)}"
  shows "\<exists>x. scan is_free (slots t) = Some x"
proof -
  let ?S = "{n. n < k \<and> swapped_out s p n}" and ?F = "{i. i < 800 \<and> is_free (slots s ! i)}"
  have "?S \<subset> {n. n < hi \<and> swapped_out s p n}" using k by auto
  then have "card ?S < card {n. n < hi \<and> swapped_out s p n}" by (intro psubset_card_mono) simp_all
  moreover have "card (g ` ?S) \<le> card ?S" by (rule card_image_le) simp
  ultimately have lt: "card (g ` ?S) < card ?F" using n by linarith
  have "\<not> ?F \<subseteq> g ` ?S"
  proof
    assume "?F \<subseteq> g ` ?S"
    then have "card ?F \<le> card (g ` ?S)" by (intro card_mono) simp_all
    then show False using lt by linarith
  qed
  then obtain j where j: "j < 800" "is_free (slots s ! j)" "j \<notin> g ` ?S" by blast
  moreover have "length (slots t) = 800" "slot_kept s t j" using f j(1,3) by (simp_all add: slots_forked_def)
  moreover from this have "slots t ! j \<in> set (slots t)" using j(1) by (intro nth_mem) simp
  ultimately have "slots t ! j \<in> set (slots t)" "is_free (slots t ! j)" by (simp_all only: slot_kept_def)
  then have "scan is_free (slots t) \<noteq> None" unfolding scan_None by blast
  then show ?thesis by blast
qed

lemma copyuvm_sw_loop_forks:
  fixes s :: "'a swstate_scheme"
  assumes ok: "uvm_ok s vs p" and tb: "\<forall>n < page_up sz. has_tab s p (n div 1024)" and hi: "page_up sz \<le> 524288"
    and sl: "\<forall>n < page_up sz. swapped_out s p n \<longrightarrow> slot_no s p n < 800 \<and> \<not> is_free (slots s ! slot_no s p n)"
    and cnt: "card {n. n < page_up sz \<and> swapped_out s p n} \<le> card {i. i < 800 \<and> is_free (slots s ! i)}"
    and len: "fork_room s p (page_up sz) < length vs"
    and c: "copied_to s p vs d (vpn i) t ws" and f: "slots_forked s p d (vpn i) g t" and ft: "few_tabs t d (page_up sz)"
    and i: "unat i mod 4096 = 0" "vpn i \<le> page_up sz" "page_up sz - vpn i \<le> n"
  shows "\<exists>w us g. copyuvm_sw_loop n p d i sz t = Val (d, w) \<and> copied_to s p vs d (page_up sz) w us \<and> slots_forked s p d (page_up sz) g w"
  using c f i ft
proof (induction n arbitrary: i t ws g)
  case 0
  then have "vpn i = page_up sz" by simp
  moreover from this have "\<not> i < sz" using less_page_up [OF 0(3)] by simp
  ultimately show ?case using 0(1,2) by (simp add: copyuvm_sw_loop.simps; blast)
next
  case (Suc n)
  note run = copyuvm_sw_loop.simps [of "Suc n" p d i sz t]
  have ch: "child s vs d t ws" using Suc(2) by (simp add: copied_to_def)
  note K = parent_kept [OF ok ch]
  show ?case
  proof (cases "i < sz")
    case False
    then have "vpn i = page_up sz" using less_page_up [OF Suc(4)] Suc(5) by simp
    then show ?thesis using Suc(2,3) False by (simp add: run; blast)
  next
    case True
    then have lt: "vpn i < page_up sz" using less_page_up [OF Suc(4)] by simp
    then have lo: "vpn i < 524288" using hi by simp
    note D = uvm_okD(1) [OF K(1)]
    have h: "has_tab t p (vpn i div 1024)" using tb lt K(3) by simp
    note W = walk_present [OF dir_okD(2) [OF D] h, of False] and E = entry_slot(2,3) [OF D h, unfolded K(2) [OF vpn_less]]
    let ?e = "entry s p (vpn i)"
    define a where "a = (if ?e AND PTE_P \<noteq> 0 then andthen (kalloc_retry2 t) (copy_present d i (PTE_ADDR ?e) (PTE_FLAGS ?e))
      else if ?e \<noteq> 0 then copy_swapped p d i ?e t else Val (True, t))"
    have step: "copyuvm_sw_loop (Suc n) p d i sz t = andthen a (\<lambda>(go, s2).
        if go then copyuvm_sw_loop n p d (i + of_nat PGSIZE) sz s2 else andthen (freevm_sw d s2) (\<lambda>s3. Val (0, s3)))"
      unfolding run W prod.case E(2) a_def using True E(1) by simp
    have "\<exists>w us g. a = Val (True, w) \<and> copied_to s p vs d (Suc (vpn i)) w us \<and> slots_forked s p d (Suc (vpn i)) g w \<and>
        few_tabs w d (page_up sz)"
    proof (cases "user s p (vpn i)")
      case u: True
      then have pr: "?e AND PTE_P \<noteq> 0" "\<not> swapped_out s p (vpn i)" by (simp_all add: user_def swapped_out_def)
      obtain w us where w: "andthen (kalloc_retry2 t) (copy_present d i (PTE_ADDR ?e) (PTE_FLAGS ?e)) = Val (True, w)"
          "copied_to s p vs d (Suc (vpn i)) w us" "\<And>m. m < 1048576 \<Longrightarrow> m \<noteq> vpn i \<Longrightarrow> entry w d m = entry t d m" "slots_same t w"
          "few_tabs w d (page_up sz)"
        by (rule fork_present [OF ok Suc(2) Suc(4) lo u len lt Suc(7)]) (rule that)
      have "slots_forked s p d (Suc (vpn i)) g w" by (rule forked_same [OF Suc(3) _ w(4) pr(2)]) (use w(3) lo in simp)
      moreover have "a = Val (True, w)" unfolding a_def using pr(1) by (simp only: w(1)) simp
      ultimately show ?thesis using w(2,5) by blast
    next
      case nu: False
      then have np: "?e AND PTE_P = 0" using lo by (simp add: user_def)
      show ?thesis
      proof (cases "?e = 0")
        case True
        then have ns: "\<not> swapped_out s p (vpn i)" by (simp add: swapped_out_def)
        have "slots_forked s p d (Suc (vpn i)) g t" by (rule forked_same [OF Suc(3) refl _ ns]) (simp add: slots_same_def)
        moreover have "copied_to s p vs d (Suc (vpn i)) t ws" using Suc(2) nu by (auto simp: copied_to_def less_Suc_eq)
        moreover have "a = Val (True, t)" using True by (simp add: a_def)
        ultimately show ?thesis using Suc(7) by blast
      next
        case False
        then have so: "swapped_out s p (vpn i)" using np by (simp add: swapped_out_def)
        obtain x where x: "scan is_free (slots t) = Some x" using free_slot_left [OF Suc(3) lt so cnt] by blast
        have sn: "slot_no s p (vpn i) < 800" "\<not> is_free (slots s ! slot_no s p (vpn i))" using sl lt so by auto
        obtain w us where w: "copy_swapped p d i ?e t = Val (True, w)"
            "copied_to s p vs d (Suc (vpn i)) w us" "slots_forked s p d (Suc (vpn i)) (g(vpn i := x)) w"
            "few_tabs w d (page_up sz)"
          by (rule fork_swapped [OF ok Suc(2) lo so len lt Suc(7) Suc(3) sn x]) (rule that)
        moreover have "a = Val (True, w)" using np False w(1) by (simp add: a_def)
        ultimately show ?thesis by blast
      qed
    qed
    then obtain w us g' where w: "a = Val (True, w)" "copied_to s p vs d (Suc (vpn i)) w us" "slots_forked s p d (Suc (vpn i)) g' w"
        "few_tabs w d (page_up sz)"
      by blast
    note np = next_page [OF Suc(4) lo]
    show ?thesis
      using Suc(1) [of "i + of_nat PGSIZE" w us g'] w(2-4) np lt Suc(6) by (simp add: step w(1))
  qed
qed

text \<open>
  C10: \<open>fork\<close> of a process with swapped pages (\<open>copyuvm\<close> of the Memory-Swap kernel).  When the pool has more pages than
  the process has pages in memory, one page table for each 4 MB and 11 pages (the directory and the tables of the
  kernel's part take ten), and there are as many free slots as the process has swapped pages, the child has the
  present pages of the parent with the same flags and contents, and for every swapped page a slot of its own that
  was free, holds the same permissions and the same 4096 bytes, and is named by an entry with the flags of the parent's.  No
  two pages share a slot, all other slots and the parent's entries and pages are as before.
\<close>

theorem copyuvm_sw_forks:
  fixes s :: "'a swstate_scheme"
  assumes ok: "uvm_ok s vs p" and len: "length (slots s) = 800" and sz: "sz \<le> KERNBASE" and k: "kdata_ok PHYSTOP_sw kdata"
    and tb: "\<forall>n < page_up sz. has_tab s p (n div 1024)"
    and sl: "\<forall>n < page_up sz. swapped_out s p n \<longrightarrow> slot_no s p n < 800 \<and> \<not> is_free (slots s ! slot_no s p n)"
    and cnt: "card {n. n < page_up sz \<and> swapped_out s p n} \<le> card {i. i < 800 \<and> is_free (slots s ! i)}"
    and pool: "card {n. n < page_up sz \<and> user s p n} + (page_up sz + 1023) div 1024 + 11 < length vs"
  shows "\<exists>d t ws c. copyuvm_sw kdata p sz s = Val (d, t) \<and> d \<noteq> 0 \<and> uvm_ok t ws p \<and> uvm_ok t ws d \<and>
    (\<forall>n < 1048576. entry t p n = entry s p n) \<and> (\<forall>n. user s p n \<longrightarrow> page_eq s t (frame s p n)) \<and>
    (\<forall>n. user t d n \<longleftrightarrow> n < page_up sz \<and> user s p n) \<and>
    (\<forall>n < page_up sz. user s p n \<longrightarrow> PTE_FLAGS (entry t d n) = PTE_FLAGS (entry s p n) \<and>
       (\<forall>k < 4096. pm t (phys (frame t d n) + k) = pm s (phys (frame s p n) + k))) \<and>
    (\<forall>n < page_up sz. swapped_out s p n \<longrightarrow> entry t d n = swap_entry (c n) (entry s p n) \<and> c n < 800 \<and> is_free (slots s ! c n) \<and>
       slot_copy s (slot_no s p n) t (c n)) \<and>
    inj_on c {n. n < page_up sz \<and> swapped_out s p n} \<and>
    (\<forall>i < 800. i \<notin> c ` {n. n < page_up sz \<and> swapped_out s p n} \<longrightarrow> slot_kept s t i)"
proof -
  note D = uvm_okD(1) [OF ok]
  obtain d t ws where t: "setupkvm_sw kdata s = Val (d, t)" "d \<noteq> 0" "child s vs d t ws" "\<forall>n. \<not> user t d n" "slots_same s t"
      "\<And>i. i < 1024 \<Longrightarrow> has_tab t d i \<Longrightarrow> i \<in> kvm_tabs PHYSTOP_sw"
    by (rule setupkvm_sw_builds [OF dir_okD(1,4) [OF D] k]) (use pool in simp, rule that)
  have ft: "few_tabs t d (page_up sz)" using t(6) by (simp add: few_tabs_def fork_tabs_def)
  have v0: "vpn 0 = 0" by (simp add: vpn_def)
  have c0: "copied_to s p vs d (vpn 0) t ws" using t(3,4) by (simp add: copied_to_def v0)
  have f0: "slots_forked s p d (vpn 0) id t"
    using t(5) len by (simp add: slots_forked_def v0 slots_same_def slot_kept_def)
  have hi: "page_up sz \<le> 524288" using page_up_user sz by (simp add: word_le_nat_alt KERNBASE_def)
  have i0: "unat (0 :: uint) mod 4096 = 0" "vpn 0 \<le> page_up sz" "page_up sz - vpn 0 \<le> 1048576" using hi by (simp_all add: v0)
  obtain w us c where w: "copyuvm_sw_loop 1048576 p d 0 sz t = Val (d, w)"
      "copied_to s p vs d (page_up sz) w us" "slots_forked s p d (page_up sz) c w"
    using copyuvm_sw_loop_forks [OF ok tb hi sl cnt pool [folded fork_room_def] c0 f0 ft i0] by blast
  have ch: "child s vs d w us" using w(2) by (simp add: copied_to_def)
  note K = parent_kept [OF ok ch] and C = w(2) [unfolded copied_to_def page_copied_def] and F = w(3) [unfolded slots_forked_def]
  have run: "copyuvm_sw kdata p sz s = Val (d, w)" using t(1,2) w(1) by (simp add: copyuvm_sw_def)
  show ?thesis
    by (intro exI [of _ d] exI [of _ w] exI [of _ us] exI [of _ c] conjI run t(2) K(1) childD(1) [OF ch])
      (use K(2,5) C F in blast)+
qed

lemma copyuvm_sw_forks_witness:
  "\<exists>(s :: swstate) vs d t c. uvm_ok s vs 0x80101000 \<and> (\<forall>v \<in> set vs. v < P2V PHYSTOP_sw) \<and> swapped_out s 0x80101000 0 \<and>
    copyuvm_sw 0x80180000 0x80101000 4096 s = Val (d, t) \<and> d \<noteq> 0 \<and>
    slot_copy s (slot_no s 0x80101000 0) t c \<and> is_free (slots s ! c)"
proof -
  let ?p = "0x80101000 :: uint"
  let ?sl = "\<lparr>page_perm = 0, is_free = False\<rparr> # replicate 799 \<lparr>page_perm = 0, is_free = True\<rparr>"
  obtain k :: kstate and vs where k: "uvm_ok k vs ?p" "user k ?p 0" "20 \<le> length vs"
      "\<forall>v \<in> set vs. \<exists>i < Suc (Suc 20). v = 0x80102000 + of_nat (i * 4096)"
    using pooled_process [of 20] by auto
  have low: "v < P2V PHYSTOP_sw" if "v \<in> set vs" for v
  proof -
    obtain i where i: "i < Suc (Suc 20)" "v = 0x80102000 + of_nat (i * 4096)" using k(4) \<open>v \<in> set vs\<close> by blast
    then have "unat v = 2148540416 + i * 4096" by (simp add: unat_add_uint unat_of_nat_uint del: of_nat_mult)
    then show ?thesis using i(1) by (simp add: word_less_nat_alt P2V_def PHYSTOP_sw_def KERNBASE_def)
  qed
  let ?s = "with_slots k ?sl"
  have v0: "vpn 0 = 0" by (simp add: vpn_def)
  have i: "scan is_free (slots ?s) = Some 1" by (simp add: numeral_eq_Suc)
  have u: "uvm_ok ?s vs ?p" "user ?s ?p (vpn 0)" using k(1,2) by (simp_all add: v0)
  obtain t :: swstate where t: "uvm_ok t vs ?p"
      "\<And>m. m < 1048576 \<Longrightarrow> entry t ?p m = (if m = vpn 0 then swap_entry 1 (entry ?s ?p (vpn 0)) else entry ?s ?p m)"
      "slots t = (slots ?s)[1 := \<lparr>page_perm = entry ?s ?p (vpn 0) AND 0xFFF, is_free = False\<rparr>]" "has_tab t ?p (vpn 0 div 1024)"
    by (rule swap_out [OF u i]) (rule that)
  have e: "entry t ?p 0 = swap_entry 1 (entry ?s ?p 0)" using t(2) [of 0] by (simp add: v0)
  have sn: "slot_no t ?p 0 = 1" using swap_entry_slot [of 1 "entry ?s ?p 0"] by (simp add: slot_no_def e unat_eq_nat_uint)
  have "entry t ?p 0 \<noteq> 0" using sn by (auto simp: slot_no_def PTE_ADDR_def)
  then have so: "swapped_out t ?p 0" by (simp add: swapped_out_def e)
  have pu: "page_up 4096 = 1" by (simp add: page_up_def)
  have len: "length (slots t) = 800" using t(3) by simp
  have h: "(4096 :: uint) \<le> KERNBASE" "kdata_ok PHYSTOP_sw 0x80180000"
    by (simp_all add: KERNBASE_def kdata_ok_def KERNLINK_def EXTMEM_def P2V_def PHYSTOP_sw_def)
  have tb: "\<forall>n < page_up 4096. has_tab t ?p (n div 1024)" using t(4) by (simp add: pu v0)
  have sl: "\<forall>n < page_up 4096. swapped_out t ?p n \<longrightarrow> slot_no t ?p n < 800 \<and> \<not> is_free (slots t ! slot_no t ?p n)"
    using sn t(3) by (simp add: pu)
  have "is_free (slots t ! 2)" using t(3) by simp
  then have "card {2 :: nat} \<le> card {i. i < 800 \<and> is_free (slots t ! i)}" by (intro card_mono) auto
  moreover have "card {n. n < page_up 4096 \<and> swapped_out t ?p n} \<le> card {0 :: nat}" by (rule card_mono) (auto simp: pu)
  ultimately have cnt: "card {n. n < page_up 4096 \<and> swapped_out t ?p n} \<le> card {i. i < 800 \<and> is_free (slots t ! i)}" by simp
  have "card {n. n < page_up 4096 \<and> user t ?p n} \<le> card {0 :: nat}" by (rule card_mono) (auto simp: pu)
  then have pool: "card {n. n < page_up 4096 \<and> user t ?p n} + (page_up 4096 + 1023) div 1024 + 11 < length vs" using k(3) by (simp add: pu)
  obtain d w c where "copyuvm_sw 0x80180000 ?p 4096 t = Val (d, w)" "d \<noteq> 0"
      "\<forall>n < page_up 4096. swapped_out t ?p n \<longrightarrow> entry w d n = swap_entry (c n) (entry t ?p n) \<and> c n < 800 \<and> is_free (slots t ! c n) \<and>
         slot_copy t (slot_no t ?p n) w (c n)"
    using copyuvm_sw_forks [OF t(1) len h tb sl cnt pool] by (elim exE conjE) (rule that)
  then show ?thesis using so pu t(1) low
    by (intro exI [of _ t] exI [of _ vs] exI [of _ d] exI [of _ w] exI [of _ "c 0"]) simp
qed

end
