(* ===== verification/Xv6_Swapcopy.thy ===== *)
theory Xv6_Swapcopy
  imports Xv6_Swapvm Xv6_Fault Xv6_Execstack
begin

text \<open>
  Copying to user memory and shrinking a process in the Memory-Swap kernel, compared with the
  other kernels.
\<close>

unbundle bit_operations_syntax

section \<open>Copies that succeed in the other kernels\<close>

lemma uva2ka_sw_eq: "uva2ka d va s = Val a \<Longrightarrow> uva2ka_sw d va s = a"
  by (auto simp: uva2ka_def uva2ka_sw_def split: if_splits prod.splits)

lemma copyout_same:
  fixes s :: "'a swstate_scheme"
  shows "copyout d va buf len s = Val (0, t) \<Longrightarrow> copyout_sw act d va buf len s = Val (0, t)"
proof (induction "unat len" arbitrary: va buf len s rule: less_induct)
  case less
  show ?case
  proof (cases "0 < len")
    case False
    then show ?thesis using less(2) by (simp add: copyout.simps [of d va] copyout_sw.simps [of act d va])
  next
    case True
    let ?va = "PGROUNDDOWN va" and ?n = "copyout_n va len"
    obtain a where a: "uva2ka d ?va s = Val a" "a \<noteq> 0" and
      r: "copyout d (?va + of_nat PGSIZE) (buf + ?n) (len - ?n)
        (s\<lparr>pm := memmove (pm s) (phys (a + (va - ?va))) (phys buf) (unat ?n)\<rparr>) = Val (0, t)"
      using less(2) True by (subst (asm) copyout.simps) (auto simp: Let_def split: if_splits)
    have "copyout_page d ?va s = Val (Some a, s)" using uva2ka_sw_eq [OF a(1)] a(2) by (simp add: copyout_page_def)
    then show ?thesis
      using less(1) [OF copyout_less [OF True] r] True a(2) by (subst copyout_sw.simps) (simp add: Let_def)
  qed
qed

section \<open>Copies that do not\<close>

lemma page_low: "va - PGROUNDDOWN va \<noteq> 0 \<longleftrightarrow> unat va mod 4096 \<noteq> 0"
  using off_page [of va] by (metis unat_0 unat_eq_zero)

text \<open>The first round, on an address space with a table for the page.\<close>

lemma copyout_page_entry:
  fixes s :: "'a swstate_scheme"
  assumes "dir_ok s vs d" "has_tab s d (vpn va div 1024)"
  shows "copyout_page d (PGROUNDDOWN va) s =
    (let e = entry s d (vpn va)
     in if e AND PTE_P = 0 then andthen (swapPageIn d (PGROUNDDOWN va) s) (\<lambda>(r, t). Val (None, t))
        else Val (Some (if e AND PTE_U = 0 then 0 else frame s d (vpn va)), s))"
proof -
  let ?a = "PGROUNDDOWN va"
  have v: "vpn ?a = vpn va" by (simp add: vpn_PGROUNDDOWN)
  have h: "has_tab s d (vpn ?a div 1024)" using assms(2) v by simp
  note W = walk_present [OF dir_okD(2) [OF assms(1)] h, of False] and E = entry_slot(2,3) [OF assms(1) h]
  have f: "frame s d (vpn va) \<noteq> 0 \<or> frame s d (vpn va) = 0" by blast
  show ?thesis using E by (auto simp: copyout_page_def uva2ka_sw_def W v Let_def frame_def)
qed

lemma swapped_walk:
  "swapPageIn d (PGROUNDDOWN va) s = swapPageIn d va s"
proof -
  have "PGROUNDDOWN (PGROUNDDOWN va) = PGROUNDDOWN va"
    by (simp add: PGROUNDDOWN_def and.assoc)
  then show ?thesis by (simp add: swapPageIn_def)
qed

lemma one_chunk:
  assumes "0 < len" "unat va mod 4096 + unat len \<le> 4096"
  shows "copyout_n va len = len"
  using assms unat_copyout_n [of va len] by (simp add: word_unat_eq_iff)

text \<open>
  C40: \<open>copyout\<close> of the kernel that swaps, beside that of the other kernels.  A copy that succeeds there has the
  same effect here.  But, for an address with a page table: a page that is swapped out comes into memory, and the call fails nevertheless.  A page that is there but not for the user
  (the guard page below the stack), on which the other kernels fail, makes it write the bytes to page 0 of the process
  that is running, and return success.
\<close>

theorem copyout_sw_compared:
  fixes s :: "'a swstate_scheme"
  assumes ok: "uvm_ok s (v # ws) d" and n: "vpn va < 524288" "has_tab s d (vpn va div 1024)"
    and len: "0 < len" "unat va mod 4096 + unat len \<le> 4096"
  shows "(\<forall>t. copyout d va buf len s = Val (0, t) \<longrightarrow> copyout_sw act d va buf len s = Val (0, t)) \<and>
    (entry s d (vpn va) AND PTE_P = 0 \<and> slot_of (entry s d (vpn va)) < 800 \<and> length (slots s) = 800 \<and>
      \<not> is_free (slots s ! slot_of (entry s d (vpn va))) \<and> page_perm (slots s ! slot_of (entry s d (vpn va))) AND NOT 0xFFF = 0 \<longrightarrow>
      (\<exists>t. copyout_sw act d va buf len s = Val (- 1, t) \<and> user t d (vpn va))) \<and>
    (user s d (vpn va) \<and> entry s d (vpn va) AND PTE_U = 0 \<and> uvm_ok s us act \<and> user s act 0 \<and> entry s act 0 AND PTE_W \<noteq> 0 \<longrightarrow>
      copyout d va buf len s = Val (- 1, s) \<and>
      (\<exists>t. copyout_sw act d va buf len s = Val (0, t) \<and>
         (\<forall>k < unat len. umem t act (unat va mod 4096 + k) = pm s (phys buf + k))))"
proof (intro conjI impI allI)
  show "copyout_sw act d va buf len s = Val (0, t)" if "copyout d va buf len s = Val (0, t)" for t
    using copyout_same that .
next
  note D = uvm_okD(1) [OF ok]
  let ?e = "entry s d (vpn va)"
  note P = copyout_page_entry [OF D n(2)]
  assume a: "?e AND PTE_P = 0 \<and> slot_of ?e < 800 \<and> length (slots s) = 800 \<and>
    \<not> is_free (slots s ! slot_of ?e) \<and> page_perm (slots s ! slot_of ?e) AND NOT 0xFFF = 0"
  have "\<exists>t. trap_pgflt True d va s = Val (True, t) \<and> user t d (vpn va)"
    using fault_in [OF ok n _ refl] a by blast
  then obtain t where t: "swapPageIn d va s = Val (0, t)" "user t d (vpn va)" by (auto simp: trap_pgflt_def)
  then have "copyout_sw act d va buf len s = Val (- 1, t)"
    using P a len(1) by (subst copyout_sw.simps) (simp add: Let_def swapped_walk)
  then show "\<exists>t. copyout_sw act d va buf len s = Val (- 1, t) \<and> user t d (vpn va)" using t(2) by blast
next
  note D = uvm_okD(1) [OF ok]
  let ?e = "entry s d (vpn va)"
  note P = copyout_page_entry [OF D n(2)]
  assume a: "user s d (vpn va) \<and> ?e AND PTE_U = 0 \<and> uvm_ok s us act \<and> user s act 0 \<and> entry s act 0 AND PTE_W \<noteq> 0"
  have h: "has_tab s d (vpn (PGROUNDDOWN va) div 1024)" using n(2) by (simp add: vpn_PGROUNDDOWN)
  have "uva2ka d (PGROUNDDOWN va) s = Val 0"
    using uva2ka_result [OF ok h] a by (simp add: accessible_def vpn_PGROUNDDOWN)
  then show "copyout d va buf len s = Val (- 1, s)" using len(1) by (subst copyout.simps) (simp add: Let_def)
  have c: "uvm_ok s us act" "user s act 0" "entry s act 0 AND PTE_W \<noteq> 0" "entry s act 0 AND PTE_P \<noteq> 0"
    using a by (simp_all add: user_def)
  note C = uvm_okD(1) [OF c(1)]
  have v0: "vpn 0 = 0" by (simp add: vpn_def)
  have h0: "has_tab s act (vpn 0 div 1024)" using user_has_tab [OF c(2)] by (simp add: v0)
  note W = walk_present [OF dir_okD(2) [OF C] h0, of False] and E = entry_slot(2,3) [OF C h0, unfolded v0]
  let ?f = "frame s act 0" and ?off = "va - PGROUNDDOWN va"
  define m where "m = memmove (pm s) (phys (?f + ?off)) (phys buf) (unat len)"
  have low: "low_write act ?off buf (unat len) s = Val (s\<lparr>pm := m\<rparr>)"
    using W E c(3,4) by (simp add: low_write_def v0 m_def frame_def)
  have ph: "phys (?f + ?off) = phys ?f + unat va mod 4096"
    using phys_offset(1) [OF uvm_okD(2) [OF c(1,2)], of ?off] by (simp add: off_page)
  have mv: "m x = (if phys ?f + unat va mod 4096 \<le> x \<and> x < phys ?f + unat va mod 4096 + unat len
      then pm s (phys buf + (x - (phys ?f + unat va mod 4096))) else pm s x)" for x
    by (simp add: m_def memmove_eq Xv6_String.moved_def ph)
  have "\<forall>x. x < phys ?f \<or> phys ?f + PGSIZE \<le> x \<longrightarrow> m x = pm s x" using len(2) by (auto simp: mv PGSIZE_def)
  note U = user_write [OF c(1,2) this]
  have "umem (s\<lparr>pm := m\<rparr>) act (unat va mod 4096 + k) = pm s (phys buf + k)" if k: "k < unat len" for k
  proof -
    have q: "unat va mod 4096 + k < 4096" using k len(2) by simp
    have "frame (s\<lparr>pm := m\<rparr>) act 0 = ?f" using U(2) [of 0] by (simp add: frame_def)
    then show ?thesis using q k by (simp add: umem_def mv)
  qed
  moreover have "copyout_sw act d va buf len s = Val (0, s\<lparr>pm := m\<rparr>)"
    using P a len(1) low one_chunk [OF len] by (subst copyout_sw.simps) (simp add: Let_def user_def copyout_sw.simps [of act d _ _ 0])
  ultimately show "\<exists>t. copyout_sw act d va buf len s = Val (0, t) \<and>
      (\<forall>k < unat len. umem t act (unat va mod 4096 + k) = pm s (phys buf + k))" by blast
qed

lemma copyout_sw_compared_witness:
  "\<exists>(s :: swstate) t. entry s 0x80101000 0 AND PTE_U = 0 \<and> copyout 0x80101000 8 KERNBASE 4 s = Val (- 1, s) \<and>
    copyout_sw 0x80101000 0x80101000 8 KERNBASE 4 s = Val (0, t) \<and> umem t 0x80101000 11 = pm s 3"
proof -
  let ?d = "0x80101000 :: uint"
  obtain k :: kstate and v ws where k: "uvm_ok k (v # ws) ?d" "user k ?d 0" "new_page k ?d 0" using one_page_process by blast
  have v0: "vpn 0 = 0" "vpn 8 = 0" by (simp_all add: vpn_def)
  obtain u :: kstate where u: "uvm_ok u (v # ws) ?d" "user u ?d = user k ?d" "entry u ?d 0 = entry k ?d 0 AND NOT PTE_U"
  proof -
    obtain u :: kstate where "uvm_ok u (v # ws) ?d" "user u ?d = user k ?d"
        "\<And>n. n < 1048576 \<Longrightarrow> entry u ?d n = (if n = vpn 0 then entry k ?d n AND NOT PTE_U else entry k ?d n)"
      by (rule clearpteu_ok [OF k(1), of 0]) (use k(2) v0 in simp, rule that)
    then show thesis using that by (simp add: v0)
  qed
  let ?s = "with_slots u one_used"
  have w: "entry ?s ?d 0 AND PTE_W \<noteq> 0"
  proof -
    have "bit (entry ?s ?d 0 AND PTE_W) 1"
      using k(3) by (simp add: u(3) new_page_def PTE_U_def PTE_W_def PTE_P_def bit_simps)
    then show ?thesis by auto
  qed
  have z: "entry ?s ?d 0 AND PTE_U = 0" by (simp add: u(3) and.assoc)
  have o: "uvm_ok ?s (v # ws) ?d" "user ?s ?d 0" "has_tab ?s ?d (vpn 8 div 1024)"
    using u(1,2) k(2) user_has_tab [of u ?d 0] by (simp_all add: v0)
  have l: "(0 :: uint) < 4" "unat (8 :: uint) mod 4096 + unat (4 :: uint) \<le> 4096" "vpn 8 < 524288" by (simp_all add: v0)
  note T = copyout_sw_compared [OF o(1) l(3) o(3) l(1,2), where act = ?d and buf = KERNBASE and us = "v # ws"]
  obtain t where "copyout ?d 8 KERNBASE 4 ?s = Val (- 1, ?s)" "copyout_sw ?d ?d 8 KERNBASE 4 ?s = Val (0, t)"
      "\<forall>k < unat (4 :: uint). umem t ?d (unat (8 :: uint) mod 4096 + k) = pm ?s (phys KERNBASE + k)"
    using T o(1,2) z w unfolding v0 by blast
  moreover have "umem t ?d 11 = pm ?s 3" using calculation(3) [rule_format, of 3] by (simp add: phys_def V2P_def)
  ultimately show ?thesis using z by blast
qed

section \<open>Shrinking\<close>

text \<open>Memory of this kernel ends at 4 MB.\<close>

definition low_frames :: "'a kstate_scheme \<Rightarrow> uint \<Rightarrow> bool" where
  "low_frames s d \<longleftrightarrow> (\<forall>n. user s d n \<longrightarrow> V2P (frame s d n) < PHYSTOP_sw)"

lemma kfree_sw_eq: "V2P v < PHYSTOP_sw \<Longrightarrow> kfree_sw v s = kfree v s"
proof -
  assume v: "V2P v < PHYSTOP_sw"
  moreover have "PHYSTOP_sw < PHYSTOP" by (simp add: PHYSTOP_sw_def PHYSTOP_def)
  ultimately have "V2P v < PHYSTOP" by (rule less_trans)
  then have "\<not> PHYSTOP_sw \<le> V2P v" "\<not> PHYSTOP \<le> V2P v" using v by (simp_all only: not_le not_False_eq_True)
  then show ?thesis by (simp add: kfree_sw_def kfree_def)
qed

lemma kfree_slots: "kfree v s = Val t \<Longrightarrow> slots t = slots s" for s t :: "'a swstate_scheme"
  by (auto simp: kfree_def split: if_splits)

lemma dealloc_loop_sw:
  fixes s :: "'a swstate_scheme"
  assumes "uvm_ok s vs d" "low_frames s d" "unat a mod 4096 = 0" "page_up oldsz \<le> 524288"
    "deallocuvm_loop n d a oldsz s = Val t"
  shows "deallocuvm_sw_loop n d a oldsz s = Val t \<and> slots t = slots s"
  using assms
proof (induction n arbitrary: a s vs rule: less_induct)
  case (less n)
  note D = uvm_okD [OF less(2)]
  note sl = deallocuvm_loop.simps [of n d a oldsz s] and sw = deallocuvm_sw_loop.simps [of n d a oldsz s]
  show ?case
  proof (cases "a < oldsz")
    case False
    then show ?thesis using less(6) sl sw by simp
  next
    case True
    then have lo: "vpn a < 524288" using less_page_up [OF less(4)] less(5) by simp
    obtain k where k: "n = Suc k" using less(6) True sl by (cases n) auto
    note np = next_page [OF less(4) lo] and IH = less(1) [of k]
    show ?thesis
    proof (cases "has_tab s d (vpn a div 1024)")
      case no: False
      note W = walk_absent [OF dir_okD(2) [OF D(1)] no] and jp = jump_page [OF lo]
      show ?thesis using IH [OF _ less(2,3) jp(1) less(5)] less(6) sl sw True k W by simp
    next
      case h: True
      let ?p = "tab s d (vpn a div 1024) + 4 * PTX a"
      note W = walk_present [OF dir_okD(2) [OF D(1)] h, of False] and E = entry_slot(2,3) [OF D(1) h]
      show ?thesis
      proof (cases "user s d (vpn a)")
        case u: True
        obtain s2 where s2: "kfree (frame s d (vpn a)) s = Val s2"
            "unmapped s vs d (vpn a) (Suc (vpn a)) [frame s d (vpn a)] (wr32 ?p 0 s2)"
          by (rule dealloc_page [OF less(2) u]) (rule that)
        then have ok: "uvm_ok (wr32 ?p 0 s2) ([frame s d (vpn a)] @ vs) d"
          and en: "\<forall>n < 1048576. entry (wr32 ?p 0 s2) d n = (if n = vpn a then 0 else entry s d n)"
          using u by (auto simp: unmapped_def less_Suc_eq_le)
        have "low_frames (wr32 ?p 0 s2) d"
          unfolding low_frames_def
        proof (intro allI impI)
          fix n assume n: "user (wr32 ?p 0 s2) d n"
          then have "entry (wr32 ?p 0 s2) d n = entry s d n" using en user_less [OF n] by (auto simp: user_def split: if_splits)
          then show "V2P (frame (wr32 ?p 0 s2) d n) < PHYSTOP_sw" using n less(3) by (simp add: low_frames_def user_def frame_def)
        qed
        note I = IH [OF _ ok this np(1) less(5)]
        have kf: "kfree_sw (frame s d (vpn a)) s = Val s2" using s2(1) kfree_sw_eq [of "frame s d (vpn a)" s] less(3) u by (simp add: low_frames_def)
        have st: "deallocuvm_loop n d a oldsz s = deallocuvm_loop k d (a + of_nat PGSIZE) oldsz (wr32 ?p 0 s2)"
          "deallocuvm_sw_loop n d a oldsz s = deallocuvm_sw_loop k d (a + of_nat PGSIZE) oldsz (wr32 ?p 0 s2)"
          using sl sw True k W E u s2(1) kf frame_addr [OF less(2) u] by (simp_all add: user_def frame_def)
        moreover have "slots (wr32 ?p 0 s2) = slots s" using kfree_slots [OF s2(1)] by (simp add: wr32_def)
        ultimately show ?thesis using I less(6) k by simp
      next
        case u: False
        then have "deallocuvm_loop n d a oldsz s = deallocuvm_loop k d (a + of_nat PGSIZE) oldsz s"
          "deallocuvm_sw_loop n d a oldsz s = deallocuvm_sw_loop k d (a + of_nat PGSIZE) oldsz s"
          using sl sw True k W E lo by (simp_all add: user_def)
        then show ?thesis using IH [OF _ less(2,3) np(1) less(5)] less(6) k by simp
      qed
    qed
  qed
qed

text \<open>
  Shrinking a process with swapped pages.  \<open>deallocuvm\<close> frees the present pages beyond the new size, as in the
  other kernels, but leaves the entries of the swapped ones and their slots.  So the slots stay in use, and when
  the process touches such an address beyond its size, the old page comes back.
\<close>

theorem shrink_keeps_swapped:
  fixes s :: "'a swstate_scheme"
  assumes ok: "uvm_ok s (v # vs) d" and lf: "low_frames s d" and sz: "newsz < oldsz" "oldsz \<le> KERNBASE"
    and va: "page_up newsz \<le> vpn va" "vpn va < page_up oldsz" "has_tab s d (vpn va div 1024)" "entry s d (vpn va) AND PTE_P = 0" "entry s d (vpn va) \<noteq> 0"
    and sl: "slot_of (entry s d (vpn va)) < 800" "\<not> is_free (slots s ! slot_of (entry s d (vpn va)))"
      "page_perm (slots s ! slot_of (entry s d (vpn va))) AND NOT 0xFFF = 0" "length (slots s) = 800"
  shows "\<exists>fs t u. deallocuvm_sw d oldsz newsz s = Val (newsz, t) \<and> uvm_ok t (fs @ v # vs) d \<and>
    set fs = frame s d ` {n. page_up newsz \<le> n \<and> n < page_up oldsz \<and> user s d n} \<and>
    (\<forall>n. page_up newsz \<le> n \<and> n < page_up oldsz \<longrightarrow> \<not> user t d n) \<and>
    entry t d (vpn va) = entry s d (vpn va) \<and> slots t = slots s \<and>
    trap_pgflt True d va t = Val (True, u) \<and> user u d (vpn va)"
proof -
  have b: "unat oldsz \<le> 2147483648" using sz(2) by (simp add: word_le_nat_alt KERNBASE_def)
  have hi: "page_up oldsz \<le> 524288" by (rule page_up_user [OF b])
  obtain fs t where t: "deallocuvm d oldsz newsz s = Val (newsz, t)"
      "unmapped s (v # vs) d (page_up newsz) (page_up oldsz) fs t"
    using deallocuvm_unmaps [OF ok sz(1) b] by blast
  have nb: "unat newsz + 4095 < 4294967296" using sz(1) b by (simp add: word_less_nat_alt)
  have "deallocuvm_loop 1048576 d (PGROUNDUP newsz) oldsz s = Val t"
    using t(1) sz(1) by (simp add: deallocuvm_def not_le [symmetric])
  from dealloc_loop_sw [OF ok lf PGROUNDUP_props(1) [OF nb] hi this]
  have sw: "deallocuvm_sw d oldsz newsz s = Val (newsz, t)" "slots t = slots s"
    using sz(1) [unfolded not_le [symmetric]] by (simp_all add: deallocuvm_sw_def)
  have U: "uvm_ok t (fs @ v # vs) d" "set fs = frame s d ` {n. page_up newsz \<le> n \<and> n < page_up oldsz \<and> user s d n}"
    "\<And>n. n < 1048576 \<Longrightarrow> entry t d n = (if page_up newsz \<le> n \<and> n < page_up oldsz \<and> user s d n then 0 else entry s d n)"
    "own t d = own s d"
    using t(2) by (auto simp: unmapped_def)
  have e: "entry t d (vpn va) = entry s d (vpn va)" using U(3) [OF vpn_less] va(4) by (simp add: user_def)
  have nu: "\<not> user t d n" if "page_up newsz \<le> n" "n < page_up oldsz" for n
    using U(3) [of n] that hi by (auto simp: user_def)
  have "entry t d (vpn va) \<noteq> 0" using e va(5) by simp
  then have h: "has_tab t d (vpn va div 1024)" by (cases "has_tab t d (vpn va div 1024)") (simp_all add: entry_def)
  obtain w ws where ws: "fs @ v # vs = w # ws" by (cases fs) auto
  have "\<exists>u. trap_pgflt True d va t = Val (True, u) \<and> user u d (vpn va)"
    using fault_in [OF U(1) [unfolded ws] _ h _ refl, unfolded e] va(2,4) hi sl sw(2) by fastforce
  then show ?thesis using sw U(1,2) nu e by blast
qed

lemma shrink_keeps_swapped_witness:
  "\<exists>(s :: swstate) t u. deallocuvm_sw 0x80101000 4096 0 s = Val (0, t) \<and> trap_pgflt True 0x80101000 0 t = Val (True, u) \<and>
    user u 0x80101000 0"
proof -
  let ?d = "0x80101000 :: uint"
  obtain k :: kstate and v ws where k: "uvm_ok k (v # ws) ?d" "user k ?d 0"
      "\<forall>n. user k ?d n \<longrightarrow> frame k ?d n \<in> {0x80104000, 0x80103000, 0x80102000}"
    using one_page_process by blast
  let ?s = "with_slots k one_used"
  have v0: "vpn 0 = 0" by (simp add: vpn_def)
  have i: "scan is_free (slots ?s) = Some 1" by (simp add: one_used_def numeral_eq_Suc)
  have u: "uvm_ok ?s (v # ws) ?d" "user ?s ?d (vpn 0)" using k(1,2) by (simp_all add: v0)
  obtain t :: swstate where t: "uvm_ok t (v # ws) ?d"
      "\<And>m. m < 1048576 \<Longrightarrow> entry t ?d m = (if m = vpn 0 then swap_entry 1 (entry ?s ?d (vpn 0)) else entry ?s ?d m)"
      "slots t = (slots ?s)[1 := \<lparr>page_perm = entry ?s ?d (vpn 0) AND 0xFFF, is_free = False\<rparr>]" "has_tab t ?d (vpn 0 div 1024)"
    by (rule swap_out [OF u i]) (rule that)
  have e: "entry t ?d (vpn 0) = swap_entry 1 (entry ?s ?d 0)" using t(2) [of 0] by (simp add: v0)
  have sn: "slot_of (entry t ?d (vpn 0)) = 1" using swap_entry_slot [of 1 "entry ?s ?d 0"] by (simp add: e unat_eq_nat_uint)
  then have nz: "entry t ?d (vpn 0) \<noteq> 0" by (auto simp: PTE_ADDR_def)
  have lf: "low_frames t ?d"
    unfolding low_frames_def
  proof (intro allI impI)
    fix n assume n: "user t ?d n"
    have "\<not> user t ?d 0" using e v0 by (simp add: user_def)
    then have "n \<noteq> 0" using n by metis
    then have "entry t ?d n = entry k ?d n" using t(2) [OF user_less [OF n]] by (simp add: v0)
    then have "frame t ?d n \<in> {0x80104000, 0x80103000, 0x80102000}" using k(3) n by (simp add: user_def frame_def)
    then show "V2P (frame t ?d n) < PHYSTOP_sw" by (auto simp: V2P_def KERNBASE_def PHYSTOP_sw_def)
  qed
  have pu: "page_up 0 = 0" "page_up 4096 = 1" by (simp_all add: page_up_def)
  define pp where "pp = entry ?s ?d (vpn 0) AND 0xFFF"
  have z: "pp AND NOT 0xFFF = 0" by (simp add: pp_def and.assoc)
  have st: "slots t = one_used[1 := \<lparr>page_perm = pp, is_free = False\<rparr>]" using t(3) by (simp add: pp_def)
  have len: "length (slots t) = 800" by (simp add: st one_used_def)
  have sl: "slot_of (entry t ?d (vpn 0)) < 800" "\<not> is_free (slots t ! slot_of (entry t ?d (vpn 0)))"
    "page_perm (slots t ! slot_of (entry t ?d (vpn 0))) AND NOT 0xFFF = 0"
    unfolding sn st using z by (simp_all add: one_used_def)
  have "\<exists>fs (t' :: swstate) u. deallocuvm_sw ?d 4096 0 t = Val (0, t') \<and> uvm_ok t' (fs @ v # ws) ?d \<and>
    set fs = frame t ?d ` {n. page_up 0 \<le> n \<and> n < page_up 4096 \<and> user t ?d n} \<and>
    (\<forall>n. page_up 0 \<le> n \<and> n < page_up 4096 \<longrightarrow> \<not> user t' ?d n) \<and>
    entry t' ?d (vpn 0) = entry t ?d (vpn 0) \<and> slots t' = slots t \<and>
    trap_pgflt True ?d 0 t' = Val (True, u) \<and> user u ?d (vpn 0)"
    by (rule shrink_keeps_swapped [OF t(1) lf _ _ _ _ t(4) _ nz sl len]) (simp_all add: pu v0 KERNBASE_def e [unfolded v0])
  then show ?thesis by (auto simp: v0)
qed

end
