(* ===== verification/Xv6_Spin.thy ===== *)
theory Xv6_Spin
  imports Xv6_Prelude
begin

text \<open>
  Spin locks (\<open>spinlock.c\<close>, the same in the three kernels).  A step is one access of one processor to the
  lock, so processors interleave inside \<open>acquire\<close>, \<open>holding\<close> and \<open>release\<close>.  The interrupt flag, the depth of
  \<open>pushcli\<close> and the place in the code are state of the processor; so are the locks its code has acquired.
\<close>

section \<open>Processors and locks\<close>

text \<open>The place in the code: what the processor does next, and for which lock.\<close>

datatype place =
    Outside
  | Acq_holding nat
  | Acq_owner nat
  | Acq_xchg nat
  | Acq_record nat
  | Rel_holding nat
  | Rel_owner nat
  | Rel_clear nat
  | Rel_unlock nat
  | Rel_popcli nat
  | Panicked string

text \<open>
  \<open>mine\<close> are the locks the code has acquired, \<open>saved\<close> the places that interrupts have left, and \<open>was\<close> the interrupt flag
  that the code outside of locks has set; these three are not in the kernel.  \<open>stack\<close> and \<open>frame_addr\<close> are what \<open>getcallerpcs\<close> reads: the words of the kernel stack and the address of \<open>lk\<close>.\<close>

record lcpu =
  FL_IF :: bool
  ncli :: int
  intena :: bool
  place :: place
  mine :: "nat list"
  saved :: "place list"
  was :: bool
  stack :: "uint \<Rightarrow> uint"
  frame_addr :: uint

record spinlock =
  locked :: bool
  owner :: "nat option"
  pcs :: "uint list"

record spins =
  lcpus :: "nat \<Rightarrow> lcpu"
  locks :: "nat \<Rightarrow> spinlock"

definition initlock :: "spinlock \<Rightarrow> spinlock" where
  "initlock lk = lk\<lparr>locked := False, owner := None\<rparr>"

section \<open>Interrupts\<close>

definition pushcli :: "lcpu \<Rightarrow> lcpu" where
  "pushcli c = c\<lparr>FL_IF := False, intena := (if ncli c = 0 then FL_IF c else intena c), ncli := ncli c + 1\<rparr>"

definition popcli :: "lcpu \<Rightarrow> lcpu outcome" where
  "popcli c =
     (if FL_IF c then Panic ''popcli - interruptible''
      else let c1 = c\<lparr>ncli := ncli c - 1\<rparr>
           in if ncli c1 < 0 then Panic ''popcli''
              else Val (if ncli c1 = 0 \<and> intena c1 then c1\<lparr>FL_IF := True\<rparr> else c1))"

text \<open>The end of a function that calls \<open>popcli\<close>, then goes on at \<open>q\<close>.\<close>

definition popcli_to :: "place \<Rightarrow> lcpu \<Rightarrow> lcpu" where
  "popcli_to q c = (case popcli c of Val c1 \<Rightarrow> c1\<lparr>place := q\<rparr> | Panic m \<Rightarrow> c\<lparr>place := Panicked m\<rparr> | Asleep \<Rightarrow> c)"

text \<open>The saved program counters: at most ten frames, as long as the frame pointers are kernel addresses.\<close>

fun callerpcs :: "nat \<Rightarrow> uint \<Rightarrow> (uint \<Rightarrow> uint) \<Rightarrow> uint list" where
  "callerpcs 0 ebp mem = []"
| "callerpcs (Suc n) ebp mem =
     (if ebp = 0 \<or> ebp < KERNBASE \<or> ebp = 0xffffffff then replicate (Suc n) 0
      else mem (ebp + 4) # callerpcs n (mem ebp) mem)"

definition getcallerpcs :: "uint \<Rightarrow> (uint \<Rightarrow> uint) \<Rightarrow> uint list" where
  "getcallerpcs v mem = callerpcs 10 (v - 8) mem"

section \<open>Steps\<close>

definition upd_cpu :: "nat \<Rightarrow> lcpu \<Rightarrow> spins \<Rightarrow> spins" where
  "upd_cpu i c s = s\<lparr>lcpus := (lcpus s)(i := c)\<rparr>"

definition upd_lock :: "nat \<Rightarrow> (spinlock \<Rightarrow> spinlock) \<Rightarrow> spins \<Rightarrow> spins" where
  "upd_lock l f s = s\<lparr>locks := (locks s)(l := f (locks s l))\<rparr>"

text \<open>The calls: \<open>acquire\<close> begins with \<open>pushcli\<close>, and both then call \<open>holding\<close>.\<close>

definition acquire_begin :: "nat \<Rightarrow> lcpu \<Rightarrow> lcpu" where
  "acquire_begin l c = (pushcli c)\<lparr>place := Acq_holding l\<rparr>"

definition release_begin :: "nat \<Rightarrow> lcpu \<Rightarrow> lcpu" where
  "release_begin l c = c\<lparr>place := Rel_holding l\<rparr>"

text \<open>
  \<open>holding\<close> is \<open>pushcli\<close>, a read of \<open>locked\<close> and, if that is set, of \<open>cpu\<close>, and \<open>popcli\<close>.  The first read: on to the
  second one, or out of it with the answer no.
\<close>

definition holding_locked :: "nat \<Rightarrow> place \<Rightarrow> place \<Rightarrow> lcpu \<Rightarrow> spins \<Rightarrow> lcpu" where
  "holding_locked l next_read no c s =
     (if locked (locks s l) then (pushcli c)\<lparr>place := next_read\<rparr> else popcli_to no (pushcli c))"

definition holding_owner :: "nat \<Rightarrow> nat \<Rightarrow> place \<Rightarrow> place \<Rightarrow> lcpu \<Rightarrow> spins \<Rightarrow> lcpu" where
  "holding_owner i l yes no c s = popcli_to (if owner (locks s l) = Some i then yes else no) c"

text \<open>One step of processor \<open>i\<close>.\<close>

definition spin_run :: "nat \<Rightarrow> spins \<Rightarrow> spins" where
  "spin_run i s =
     (let c = lcpus s i
      in case place c of
           Outside \<Rightarrow> s
         | Panicked m \<Rightarrow> s
         | Acq_holding l \<Rightarrow> upd_cpu i (holding_locked l (Acq_owner l) (Acq_xchg l) c s) s
         | Acq_owner l \<Rightarrow> upd_cpu i (holding_owner i l (Panicked ''acquire'') (Acq_xchg l) c s) s
         | Acq_xchg l \<Rightarrow>
             if locked (locks s l) then s
             else upd_lock l (\<lambda>lk. lk\<lparr>locked := True\<rparr>) (upd_cpu i (c\<lparr>place := Acq_record l\<rparr>) s)
         | Acq_record l \<Rightarrow>
             upd_lock l (\<lambda>lk. lk\<lparr>owner := Some i, pcs := getcallerpcs (frame_addr c) (stack c)\<rparr>)
               (upd_cpu i (c\<lparr>place := Outside, mine := l # mine c\<rparr>) s)
         | Rel_holding l \<Rightarrow> upd_cpu i (holding_locked l (Rel_owner l) (Panicked ''release'') c s) s
         | Rel_owner l \<Rightarrow> upd_cpu i (holding_owner i l (Rel_clear l) (Panicked ''release'') c s) s
         | Rel_clear l \<Rightarrow>
             upd_lock l (\<lambda>lk. lk\<lparr>owner := None, pcs := (pcs lk)[0 := 0]\<rparr>) (upd_cpu i (c\<lparr>place := Rel_unlock l\<rparr>) s)
         | Rel_unlock l \<Rightarrow>
             upd_lock l (\<lambda>lk. lk\<lparr>locked := False\<rparr>) (upd_cpu i (c\<lparr>place := Rel_popcli l, mine := remove1 l (mine c)\<rparr>) s)
         | Rel_popcli l \<Rightarrow> upd_cpu i (popcli_to Outside c) s)"

text \<open>
  What can happen.  The code of a processor may call \<open>acquire\<close> and \<open>release\<close> for any lock, also wrongly, and
  switch interrupts when it holds no lock.  An interrupt comes at any place where they are on, switches them off and runs
  code that calls these functions too; \<open>iret\<close> ends it when it has released its locks.
\<close>

inductive spin_step :: "spins \<Rightarrow> spins \<Rightarrow> bool" where
  run: "spin_step s (spin_run i s)"
| acquire: "place (lcpus s i) = Outside \<Longrightarrow> spin_step s (upd_cpu i (acquire_begin l (lcpus s i)) s)"
| release: "place (lcpus s i) = Outside \<Longrightarrow> spin_step s (upd_cpu i (release_begin l (lcpus s i)) s)"
| switch: "place (lcpus s i) = Outside \<Longrightarrow> mine (lcpus s i) = [] \<Longrightarrow>
    spin_step s (upd_cpu i ((lcpus s i)\<lparr>FL_IF := b, was := b\<rparr>) s)"
| interrupt: "FL_IF (lcpus s i) \<Longrightarrow> \<forall>m. place (lcpus s i) \<noteq> Panicked m \<Longrightarrow>
    spin_step s (upd_cpu i ((lcpus s i)\<lparr>FL_IF := False, was := False, saved := place (lcpus s i) # saved (lcpus s i), place := Outside\<rparr>) s)"
| iret: "place (lcpus s i) = Outside \<Longrightarrow> mine (lcpus s i) = [] \<Longrightarrow> saved (lcpus s i) = p # ps \<Longrightarrow>
    spin_step s (upd_cpu i ((lcpus s i)\<lparr>FL_IF := True, was := True, saved := ps, place := p\<rparr>) s)"
| stack: "spin_step s (upd_cpu i ((lcpus s i)\<lparr>stack := m, frame_addr := f\<rparr>) s)"

text \<open>Before the first lock is used.\<close>

definition spin_init :: "spins \<Rightarrow> bool" where
  "spin_init s \<longleftrightarrow>
     (\<forall>i. let c = lcpus s i in ncli c = 0 \<and> place c = Outside \<and> mine c = [] \<and> saved c = [] \<and> was c = FL_IF c) \<and>
     (\<forall>l. \<not> locked (locks s l) \<and> owner (locks s l) = None)"

inductive spin_reach :: "spins \<Rightarrow> bool" where
  init: "spin_init s \<Longrightarrow> spin_reach s"
| step: "spin_reach s \<Longrightarrow> spin_step s t \<Longrightarrow> spin_reach t"

section \<open>What every reachable state satisfies\<close>

text \<open>The calls of \<open>pushcli\<close> that the place accounts for.\<close>

fun pushed :: "place \<Rightarrow> int" where
  "pushed (Acq_holding l) = 1"
| "pushed (Acq_owner l) = 2"
| "pushed (Acq_xchg l) = 1"
| "pushed (Acq_record l) = 1"
| "pushed (Rel_owner l) = 1"
| "pushed (Rel_popcli l) = 1"
| "pushed _ = 0"

fun panicked :: "place \<Rightarrow> bool" where
  "panicked (Panicked m) = True"
| "panicked _ = False"

text \<open>The places at which interrupts can be on: outside, or at the beginning of a \<open>release\<close> of a lock that is not held.\<close>

fun quiet :: "place \<Rightarrow> bool" where
  "quiet Outside = True"
| "quiet (Rel_holding l) = True"
| "quiet _ = False"

fun wants :: "place \<Rightarrow> nat set" where
  "wants (Acq_xchg l) = {l}"
| "wants (Acq_record l) = {l}"
| "wants _ = {}"

fun gives :: "place \<Rightarrow> nat set" where
  "gives (Rel_clear l) = {l}"
| "gives (Rel_unlock l) = {l}"
| "gives _ = {}"

definition owns :: "lcpu \<Rightarrow> nat \<Rightarrow> bool" where
  "owns c l \<longleftrightarrow> l \<in> set (mine c) \<or> place c = Acq_record l"

definition cpu_inv :: "lcpu \<Rightarrow> bool" where
  "cpu_inv c \<longleftrightarrow>
     (panicked (place c) \<or> ncli c = int (length (mine c)) + pushed (place c) \<and>
        (if ncli c = 0 then FL_IF c = was c else \<not> FL_IF c \<and> intena c = was c)) \<and>
     distinct (mine c) \<and> wants (place c) \<inter> set (mine c) = {} \<and> gives (place c) \<subseteq> set (mine c) \<and> (\<forall>p \<in> set (saved c). quiet p)"

definition lock_inv :: "(nat \<Rightarrow> lcpu) \<Rightarrow> nat \<Rightarrow> spinlock \<Rightarrow> bool" where
  "lock_inv cs l lk \<longleftrightarrow>
     (locked lk \<longleftrightarrow> (\<exists>i. owns (cs i) l)) \<and> (\<forall>i j. owns (cs i) l \<and> owns (cs j) l \<longrightarrow> i = j) \<and>
     (\<forall>i. owner lk = Some i \<longleftrightarrow> l \<in> set (mine (cs i)) \<and> place (cs i) \<noteq> Rel_unlock l)"

definition spin_inv :: "spins \<Rightarrow> bool" where
  "spin_inv s \<longleftrightarrow> (\<forall>i. cpu_inv (lcpus s i)) \<and> (\<forall>l. lock_inv (lcpus s) l (locks s l))"

lemma upd_sel [simp]:
  "lcpus (upd_cpu i c s) = (lcpus s)(i := c)" "locks (upd_cpu i c s) = locks s"
  "lcpus (upd_lock l f s) = lcpus s" "locks (upd_lock l f s) = (locks s)(l := f (locks s l))"
  by (simp_all add: upd_cpu_def upd_lock_def)

text \<open>A step inside one processor that changes neither what it owns nor what it is about to unlock.\<close>

lemma lock_inv_same:
  assumes "lock_inv cs l lk" "l \<in> set (mine c) \<longleftrightarrow> l \<in> set (mine (cs i))" "place c = Acq_record l \<longleftrightarrow> place (cs i) = Acq_record l"
    "place c = Rel_unlock l \<longleftrightarrow> place (cs i) = Rel_unlock l"
  shows "lock_inv (cs(i := c)) l lk"
proof -
  have "owns ((cs(i := c)) j) l = owns (cs j) l" for j using assms(2,3) by (simp add: owns_def)
  moreover have "l \<in> set (mine ((cs(i := c)) j)) \<and> place ((cs(i := c)) j) \<noteq> Rel_unlock l \<longleftrightarrow>
      l \<in> set (mine (cs j)) \<and> place (cs j) \<noteq> Rel_unlock l" for j
    using assms(2,4) by simp
  ultimately show ?thesis using assms(1) unfolding lock_inv_def by presburger
qed

lemma spin_inv_local:
  assumes "spin_inv s" "cpu_inv c" "set (mine c) = set (mine (lcpus s i))"
    "\<And>l. place c = Acq_record l \<longleftrightarrow> place (lcpus s i) = Acq_record l"
    "\<And>l. place c = Rel_unlock l \<longleftrightarrow> place (lcpus s i) = Rel_unlock l"
  shows "spin_inv (upd_cpu i c s)"
  using assms(1,2) lock_inv_same [where c = c and cs = "lcpus s" and i = i] assms(3-5) by (simp add: spin_inv_def)

lemma spin_inv_lock:
  assumes "spin_inv s" "cpu_inv c" "lock_inv ((lcpus s)(i := c)) l (f (locks s l))"
    "\<And>m. m \<noteq> l \<Longrightarrow> m \<in> set (mine c) \<longleftrightarrow> m \<in> set (mine (lcpus s i))"
    "\<And>m. m \<noteq> l \<Longrightarrow> place c = Acq_record m \<longleftrightarrow> place (lcpus s i) = Acq_record m"
    "\<And>m. m \<noteq> l \<Longrightarrow> place c = Rel_unlock m \<longleftrightarrow> place (lcpus s i) = Rel_unlock m"
  shows "spin_inv (upd_lock l f (upd_cpu i c s))"
proof -
  have "lock_inv ((lcpus s)(i := c)) m (locks s m)" if "m \<noteq> l" for m
    by (rule lock_inv_same) (use assms(1,4-6) that in \<open>simp_all add: spin_inv_def\<close>)
  then show ?thesis using assms(1-3) by (simp add: spin_inv_def)
qed

lemma popcli_val:
  assumes "\<not> FL_IF c" "0 < ncli c"
  shows "popcli_to q c = c\<lparr>ncli := ncli c - 1, FL_IF := (ncli c = 1 \<and> intena c), place := q\<rparr>"
  using assms by (simp add: popcli_to_def popcli_def Let_def)

lemma cpu_place:
  assumes "cpu_inv c" "\<not> panicked (place c)"
  shows "ncli c = int (length (mine c)) + pushed (place c)" "ncli c = 0 \<Longrightarrow> FL_IF c = was c"
    "ncli c \<noteq> 0 \<Longrightarrow> \<not> FL_IF c \<and> intena c = was c" "distinct (mine c)" "wants (place c) \<inter> set (mine c) = {}"
    "gives (place c) \<subseteq> set (mine c)" "(\<forall>p \<in> set (saved c). quiet p)"
  using assms by (auto simp: cpu_inv_def split: if_splits)

lemma spin_invD:
  assumes "spin_inv s"
  shows "cpu_inv (lcpus s i)" "lock_inv (lcpus s) l (locks s l)"
  using assms by (simp_all add: spin_inv_def)

text \<open>The answer of \<open>holding\<close>: \<open>owner\<close> is set for the holder only, and \<open>locked\<close> whenever it is.\<close>

lemma owner_mine:
  assumes "spin_inv s" "\<forall>l. place (lcpus s i) \<noteq> Rel_unlock l"
  shows "owner (locks s l) = Some i \<longleftrightarrow> l \<in> set (mine (lcpus s i))" "l \<in> set (mine (lcpus s i)) \<Longrightarrow> locked (locks s l)"
  using spin_invD(2) [OF assms(1), of l] assms(2) by (auto simp: lock_inv_def owns_def)

lemma spin_run_inv:
  assumes inv: "spin_inv s"
  shows "spin_inv (spin_run i s)"
proof -
  let ?c = "lcpus s i"
  note C = spin_invD(1) [OF inv, of i]
  show ?thesis
  proof (cases "place ?c")
    case Outside
    then show ?thesis using inv by (simp add: spin_run_def Let_def)
  next
    case (Panicked m)
    then show ?thesis using inv by (simp add: spin_run_def Let_def)
  next
    case (Acq_holding l)
    note P = cpu_place [OF C, unfolded Acq_holding, simplified] and O = owner_mine [OF inv, of i l, unfolded Acq_holding, simplified]
    have "spin_inv (upd_cpu i (holding_locked l (Acq_owner l) (Acq_xchg l) ?c s) s)"
      by (rule spin_inv_local [OF inv]) (use P O Acq_holding in \<open>auto simp: holding_locked_def popcli_val pushcli_def cpu_inv_def\<close>)
    then show ?thesis using Acq_holding by (simp add: spin_run_def Let_def)
  next
    case (Acq_owner l)
    note P = cpu_place [OF C, unfolded Acq_owner, simplified] and O = owner_mine [OF inv, of i l, unfolded Acq_owner, simplified]
    have "spin_inv (upd_cpu i (holding_owner i l (Panicked ''acquire'') (Acq_xchg l) ?c s) s)"
      by (rule spin_inv_local [OF inv]) (use P O Acq_owner in \<open>auto simp: holding_owner_def popcli_val cpu_inv_def\<close>)
    then show ?thesis using Acq_owner by (simp add: spin_run_def Let_def)
  next
    case (Rel_holding l)
    note P = cpu_place [OF C, unfolded Rel_holding, simplified] and O = owner_mine [OF inv, of i l, unfolded Rel_holding, simplified]
    have "spin_inv (upd_cpu i (holding_locked l (Rel_owner l) (Panicked ''release'') ?c s) s)"
      by (rule spin_inv_local [OF inv]) (use P O Rel_holding in \<open>auto simp: holding_locked_def popcli_val pushcli_def cpu_inv_def\<close>)
    then show ?thesis using Rel_holding by (simp add: spin_run_def Let_def)
  next
    case (Rel_owner l)
    note P = cpu_place [OF C, unfolded Rel_owner, simplified] and O = owner_mine [OF inv, of i l, unfolded Rel_owner, simplified]
    have "spin_inv (upd_cpu i (holding_owner i l (Rel_clear l) (Panicked ''release'') ?c s) s)"
      by (rule spin_inv_local [OF inv]) (use P O Rel_owner in \<open>auto simp: holding_owner_def popcli_val cpu_inv_def\<close>)
    then show ?thesis using Rel_owner by (simp add: spin_run_def Let_def)
  next
    case (Rel_popcli l)
    note P = cpu_place [OF C, unfolded Rel_popcli, simplified]
    have "spin_inv (upd_cpu i (popcli_to Outside ?c) s)"
      by (rule spin_inv_local [OF inv]) (use P Rel_popcli in \<open>auto simp: popcli_val cpu_inv_def\<close>)
    then show ?thesis using Rel_popcli by (simp add: spin_run_def Let_def)
  next
    case (Acq_xchg l)
    note P = cpu_place [OF C, unfolded Acq_xchg, simplified] and L = spin_invD(2) [OF inv, of l]
    have "spin_inv (upd_lock l (\<lambda>lk. lk\<lparr>locked := True\<rparr>) (upd_cpu i (?c\<lparr>place := Acq_record l\<rparr>) s))"
      if "\<not> locked (locks s l)"
    proof (rule spin_inv_lock [OF inv])
      have "\<not> owns (lcpus s j) l" for j using L that by (simp add: lock_inv_def)
      then show "lock_inv ((lcpus s)(i := ?c\<lparr>place := Acq_record l\<rparr>)) l ((locks s l)\<lparr>locked := True\<rparr>)"
        using L Acq_xchg by (auto simp: lock_inv_def owns_def)
    qed (use P Acq_xchg in \<open>auto simp: cpu_inv_def\<close>)
    then show ?thesis using Acq_xchg inv by (simp add: spin_run_def Let_def)
  next
    case (Acq_record l)
    note P = cpu_place [OF C, unfolded Acq_record, simplified] and L = spin_invD(2) [OF inv, of l]
    let ?d = "?c\<lparr>place := Outside, mine := l # mine ?c\<rparr>"
    let ?f = "\<lambda>lk. lk\<lparr>owner := Some i, pcs := getcallerpcs (frame_addr ?c) (stack ?c)\<rparr>"
    have "spin_inv (upd_lock l ?f (upd_cpu i ?d s))"
    proof (rule spin_inv_lock [OF inv])
      have o: "owns ?c l" using Acq_record by (simp add: owns_def)
      then have j: "\<not> owns (lcpus s j) l" if "j \<noteq> i" for j using L that by (auto simp: lock_inv_def)
      have "owns (((lcpus s)(i := ?d)) j) l \<longleftrightarrow> j = i" for j using j [of j] by (auto simp: owns_def)
      moreover have "l \<notin> set (mine (lcpus s j))" if "j \<noteq> i" for j using j [OF that] by (simp add: owns_def)
      ultimately show "lock_inv ((lcpus s)(i := ?d)) l (?f (locks s l))"
        using L o by (auto simp: lock_inv_def)
    qed (use P Acq_record in \<open>auto simp: cpu_inv_def\<close>)
    then show ?thesis using Acq_record by (simp add: spin_run_def Let_def)
  next
    case (Rel_clear l)
    note P = cpu_place [OF C, unfolded Rel_clear, simplified] and L = spin_invD(2) [OF inv, of l]
    let ?d = "?c\<lparr>place := Rel_unlock l\<rparr>" and ?f = "\<lambda>lk. lk\<lparr>owner := None, pcs := (pcs lk)[0 := 0]\<rparr>"
    have "spin_inv (upd_lock l ?f (upd_cpu i ?d s))"
    proof (rule spin_inv_lock [OF inv])
      have o: "owns ?c l" using P by (simp add: owns_def)
      then have j: "\<not> owns (lcpus s j) l" if "j \<noteq> i" for j using L that by (auto simp: lock_inv_def)
      have "owns (((lcpus s)(i := ?d)) j) l \<longleftrightarrow> j = i" for j using j [of j] P by (auto simp: owns_def)
      moreover have "l \<notin> set (mine (lcpus s j))" if "j \<noteq> i" for j using j [OF that] by (simp add: owns_def)
      ultimately show "lock_inv ((lcpus s)(i := ?d)) l (?f (locks s l))"
        using L o by (auto simp: lock_inv_def)
    qed (use P Rel_clear in \<open>auto simp: cpu_inv_def\<close>)
    then show ?thesis using Rel_clear by (simp add: spin_run_def Let_def)
  next
    case (Rel_unlock l)
    note P = cpu_place [OF C, unfolded Rel_unlock, simplified] and L = spin_invD(2) [OF inv, of l]
    let ?d = "?c\<lparr>place := Rel_popcli l, mine := remove1 l (mine ?c)\<rparr>"
    have m: "set (mine ?d) = set (mine ?c) - {l}" using P by simp
    have "spin_inv (upd_lock l (\<lambda>lk. lk\<lparr>locked := False\<rparr>) (upd_cpu i ?d s))"
    proof (rule spin_inv_lock [OF inv])
      have o: "owns ?c l" using P by (simp add: owns_def)
      then have j: "\<not> owns (lcpus s j) l" if "j \<noteq> i" for j using L that by (auto simp: lock_inv_def)
      have "\<not> owns (((lcpus s)(i := ?d)) j) l" for j using j [of j] P by (auto simp: owns_def)
      moreover have "l \<notin> set (mine (lcpus s j))" if "j \<noteq> i" for j using j [OF that] by (simp add: owns_def)
      ultimately show "lock_inv ((lcpus s)(i := ?d)) l ((locks s l)\<lparr>locked := False\<rparr>)"
        using L P Rel_unlock m by (auto simp: lock_inv_def)
      have "l \<in> set (mine ?c)" using P by simp
      then have "length (mine ?c) = Suc (length (remove1 l (mine ?c)))"
        using length_pos_if_in_set [of l "mine ?c"] by (simp add: length_remove1)
      then have "int (length (remove1 l (mine ?c))) = int (length (mine ?c)) - 1" by simp
      then show "cpu_inv ?d" using P Rel_unlock m by (auto simp: cpu_inv_def)
    qed (use P Rel_unlock m in \<open>auto simp: cpu_inv_def\<close>)
    then show ?thesis using Rel_unlock by (simp add: spin_run_def Let_def)
  qed
qed

lemma spin_step_inv: "spin_step s t \<Longrightarrow> spin_inv s \<Longrightarrow> spin_inv t"
proof (induction rule: spin_step.induct)
  case (run s i)
  then show ?case by (rule spin_run_inv)
next
  case (acquire s i l)
  note P = cpu_place [OF spin_invD(1) [OF acquire(2)], of i, unfolded acquire(1), simplified]
  show ?case
    by (rule spin_inv_local [OF acquire(2)]) (use P acquire(1) in \<open>auto simp: acquire_begin_def pushcli_def cpu_inv_def\<close>)
next
  case (release s i l)
  note P = cpu_place [OF spin_invD(1) [OF release(2)], of i, unfolded release(1), simplified]
  show ?case
    by (rule spin_inv_local [OF release(2)]) (use P release(1) in \<open>auto simp: release_begin_def cpu_inv_def\<close>)
next
  case (switch s i b)
  note P = cpu_place [OF spin_invD(1) [OF switch(3)], of i, unfolded switch(1), simplified]
  show ?case by (rule spin_inv_local [OF switch(3)]) (use P switch(1,2) in \<open>auto simp: cpu_inv_def\<close>)
next
  case (interrupt s i)
  have np: "\<not> panicked (place (lcpus s i))" using interrupt(2) by (cases "place (lcpus s i)") auto
  note P = cpu_place [OF spin_invD(1) [OF interrupt(3)] np]
  have z: "ncli (lcpus s i) = 0" using P(3) interrupt(1) by blast
  then have "mine (lcpus s i) = []" "pushed (place (lcpus s i)) = 0"
    using P(1) by (cases "place (lcpus s i)"; simp)+
  then have q: "quiet (place (lcpus s i))" using P(6) np by (cases "place (lcpus s i)") auto
  have "cpu_inv ((lcpus s i)\<lparr>FL_IF := False, was := False, saved := place (lcpus s i) # saved (lcpus s i), place := Outside\<rparr>)"
    using P z q \<open>mine (lcpus s i) = []\<close> by (simp add: cpu_inv_def)
  then show ?case by (rule spin_inv_local [OF interrupt(3)]) (use q in \<open>auto split: place.splits\<close>)
next
  case (iret s i p ps)
  note P = cpu_place [OF spin_invD(1) [OF iret(4)], of i, unfolded iret(1), simplified]
  have q: "quiet p" using P iret(3) by simp
  have "cpu_inv ((lcpus s i)\<lparr>FL_IF := True, was := True, saved := ps, place := p\<rparr>)"
    using P iret(2,3) q by (cases p) (simp_all add: cpu_inv_def)
  then show ?case by (rule spin_inv_local [OF iret(4)]) (use q iret(1) in auto)
next
  case (stack s i f m)
  have "cpu_inv ((lcpus s i)\<lparr>stack := m, frame_addr := f\<rparr>)" using spin_invD(1) [OF stack, of i] by (auto simp: cpu_inv_def split: if_splits)
  then show ?case by (rule spin_inv_local [OF stack]) simp_all
qed

lemma spin_reach_inv: "spin_reach s \<Longrightarrow> spin_inv s"
proof (induction rule: spin_reach.induct)
  case (init s)
  then show ?case by (simp add: spin_init_def spin_inv_def cpu_inv_def lock_inv_def owns_def Let_def)
next
  case (step s t)
  then show ?case using spin_step_inv by blast
qed

text \<open>
  C7: spin locks, for any number of processors and locks, under every interleaving of the single accesses inside
  \<open>acquire\<close>, \<open>holding\<close> and \<open>release\<close>, with interrupts and with code that calls them in any order.  No two processors hold the
  same lock, \<open>locked\<close> is set exactly when one does, and \<open>cpu\<close> names it between \<open>acquire\<close> and \<open>release\<close>.  While a processor
  holds a lock or is taking one its interrupts are off, so no interrupt finds it there; when it holds none they are as it
  left them before.  \<open>ncli\<close> counts the locks held.
\<close>

theorem spin_mutual_exclusion:
  assumes "spin_reach s"
  shows "(\<forall>i j l. l \<in> set (mine (lcpus s i)) \<and> l \<in> set (mine (lcpus s j)) \<longrightarrow> i = j) \<and>
    (\<forall>l. locked (locks s l) \<longleftrightarrow> (\<exists>i. l \<in> set (mine (lcpus s i)) \<or> place (lcpus s i) = Acq_record l)) \<and>
    (\<forall>i l. owner (locks s l) = Some i \<longleftrightarrow> l \<in> set (mine (lcpus s i)) \<and> place (lcpus s i) \<noteq> Rel_unlock l) \<and>
    (\<forall>i. \<not> panicked (place (lcpus s i)) \<longrightarrow>
       (FL_IF (lcpus s i) \<longrightarrow> mine (lcpus s i) = [] \<and> quiet (place (lcpus s i))) \<and>
       (place (lcpus s i) = Outside \<longrightarrow> ncli (lcpus s i) = int (length (mine (lcpus s i))) \<and>
          (mine (lcpus s i) = [] \<longrightarrow> FL_IF (lcpus s i) = was (lcpus s i))))"
proof -
  note I = spin_reach_inv [OF assms]
  have L: "(\<forall>i j. l \<in> set (mine (lcpus s i)) \<and> l \<in> set (mine (lcpus s j)) \<longrightarrow> i = j) \<and>
    (locked (locks s l) \<longleftrightarrow> (\<exists>i. l \<in> set (mine (lcpus s i)) \<or> place (lcpus s i) = Acq_record l)) \<and>
    (\<forall>i. owner (locks s l) = Some i \<longleftrightarrow> l \<in> set (mine (lcpus s i)) \<and> place (lcpus s i) \<noteq> Rel_unlock l)" for l
    using spin_invD(2) [OF I, of l] by (auto simp: lock_inv_def owns_def)
  have C: "(FL_IF c \<longrightarrow> mine c = [] \<and> quiet (place c)) \<and>
      (place c = Outside \<longrightarrow> ncli c = int (length (mine c)) \<and> (mine c = [] \<longrightarrow> FL_IF c = was c))"
    if c: "c = lcpus s i" and np: "\<not> panicked (place c)" for c i
  proof -
    note P = cpu_place [OF spin_invD(1) [OF I, of i, folded c] np]
    show ?thesis using P(1-3,6) np by (cases "mine c"; cases "place c") auto
  qed
  show ?thesis using L C by blast
qed

text \<open>
  C38: misuse of a spin lock is caught, and nothing else is.  In every reachable state \<open>acquire\<close> goes into its panic exactly
  when the processor holds the lock already, \<open>release\<close> exactly when it does not, whatever the other processors do in
  between, and \<open>popcli\<close> never panics.
\<close>

theorem spin_misuse_panics:
  assumes "spin_reach s" and "\<not> panicked (place (lcpus s i))"
  shows "(\<forall>m. place (lcpus (spin_run i s) i) = Panicked m \<longleftrightarrow>
      (\<exists>l. m = ''acquire'' \<and> place (lcpus s i) = Acq_owner l \<and> l \<in> set (mine (lcpus s i)) \<or>
         m = ''release'' \<and> place (lcpus s i) = Rel_owner l \<and> l \<notin> set (mine (lcpus s i)) \<or>
         m = ''release'' \<and> place (lcpus s i) = Rel_holding l \<and> \<not> locked (locks s l))) \<and>
    (\<forall>l \<in> set (mine (lcpus s i)).
      (place (lcpus s i) = Acq_holding l \<longrightarrow> place (lcpus (spin_run i s) i) = Acq_owner l) \<and>
      (place (lcpus s i) = Rel_holding l \<longrightarrow> place (lcpus (spin_run i s) i) = Rel_owner l))"
proof (intro conjI allI ballI impI)
  let ?c = "lcpus s i"
  note I = spin_reach_inv [OF assms(1)]
  note P = cpu_place [OF spin_invD(1) [OF I, of i] assms(2)] and O = owner_mine [OF I, of i]
  show "place (lcpus (spin_run i s) i) = Panicked m \<longleftrightarrow>
    (\<exists>l. m = ''acquire'' \<and> place ?c = Acq_owner l \<and> l \<in> set (mine ?c) \<or>
       m = ''release'' \<and> place ?c = Rel_owner l \<and> l \<notin> set (mine ?c) \<or>
       m = ''release'' \<and> place ?c = Rel_holding l \<and> \<not> locked (locks s l))" for m
    using assms(2) P O by (cases "place ?c") (auto simp: spin_run_def Let_def holding_locked_def holding_owner_def popcli_val pushcli_def)
  fix l assume "l \<in> set (mine ?c)"
  then show "place ?c = Acq_holding l \<Longrightarrow> place (lcpus (spin_run i s) i) = Acq_owner l"
    "place ?c = Rel_holding l \<Longrightarrow> place (lcpus (spin_run i s) i) = Rel_owner l"
    using O(2) by (simp_all add: spin_run_def holding_locked_def Let_def)
qed

section \<open>A run\<close>

definition idle_cpu :: lcpu where
  "idle_cpu = \<lparr>FL_IF = True, ncli = 0, intena = False, place = Outside, mine = [], saved = [], was = True, stack = (\<lambda>_. 0), frame_addr = 0\<rparr>"

definition spin0 :: spins where
  "spin0 = \<lparr>lcpus = (\<lambda>_. idle_cpu), locks = (\<lambda>_. \<lparr>locked = False, owner = None, pcs = replicate 10 0\<rparr>)\<rparr>"

text \<open>Processor 0 takes lock 0 and calls \<open>acquire\<close> again.\<close>

definition spin1 :: spins where
  "spin1 = (spin_run 0 ^^ 3) (upd_cpu 0 (acquire_begin 0 (lcpus spin0 0)) spin0)"

lemma reach_run: "spin_reach s \<Longrightarrow> spin_reach (spin_run i s)"
  by (rule spin_reach.step [OF _ spin_step.run])

lemma spin1_reach: "spin_reach spin1"
proof -
  have "spin_reach spin0" by (rule spin_reach.init) (simp add: spin_init_def spin0_def idle_cpu_def)
  then have "spin_reach (upd_cpu 0 (acquire_begin 0 (lcpus spin0 0)) spin0)"
    by (rule spin_reach.step) (rule spin_step.acquire, simp add: spin0_def idle_cpu_def)
  then show ?thesis unfolding spin1_def numeral_3_eq_3 by (simp add: reach_run)
qed

lemma spin1_place: "mine (lcpus spin1 0) = [0]" "place (lcpus spin1 0) = Outside"
  by (simp_all add: spin1_def numeral_3_eq_3 spin_run_def spin0_def idle_cpu_def acquire_begin_def pushcli_def holding_locked_def
      popcli_val Let_def)

lemma spin_mutual_exclusion_witness:
  "spin_reach spin1 \<and> 0 \<in> set (mine (lcpus spin1 0)) \<and> locked (locks spin1 0) \<and> owner (locks spin1 0) = Some 0 \<and>
    ncli (lcpus spin1 0) = 1 \<and> \<not> FL_IF (lcpus spin1 0)"
proof -
  note M = spin_mutual_exclusion [OF spin1_reach]
  have m: "0 \<in> set (mine (lcpus spin1 0))" by (simp add: spin1_place)
  have p: "place (lcpus spin1 0) \<noteq> Rel_unlock 0" "\<not> panicked (place (lcpus spin1 0))" by (simp_all add: spin1_place)
  have "locked (locks spin1 0)" "owner (locks spin1 0) = Some 0" using M m p by blast+
  moreover have "ncli (lcpus spin1 0) = int (length (mine (lcpus spin1 0)))" using M p(2) spin1_place(2) by blast
  moreover have "FL_IF (lcpus spin1 0) \<longrightarrow> mine (lcpus spin1 0) = []" using M p(2) by blast
  ultimately show ?thesis using spin1_reach m by (simp add: spin1_place)
qed

lemma spin_misuse_panics_witness:
  "place (lcpus (spin_run 0 (spin_run 0 (upd_cpu 0 (acquire_begin 0 (lcpus spin1 0)) spin1))) 0) = Panicked ''acquire''"
proof -
  let ?s = "upd_cpu 0 (acquire_begin 0 (lcpus spin1 0)) spin1"
  have r: "spin_reach ?s" "spin_reach (spin_run 0 ?s)"
    using spin_reach.step [OF spin1_reach spin_step.acquire [OF spin1_place(2)]] reach_run by blast+
  have p: "place (lcpus ?s 0) = Acq_holding 0" "mine (lcpus ?s 0) = [0]"
    using spin1_place by (simp_all add: acquire_begin_def pushcli_def)
  then have q: "place (lcpus (spin_run 0 ?s) 0) = Acq_owner 0" using spin_misuse_panics [OF r(1), of 0] by simp
  have "mine (lcpus (spin_run 0 ?s) 0) = [0]"
    using p q by (auto simp: spin_run_def holding_locked_def popcli_to_def popcli_def pushcli_def Let_def split: if_splits)
  then show ?thesis using spin_misuse_panics [OF r(2), of 0] q by simp
qed

end
