(* ===== verification/Xv6_Malloc.thy ===== *)
theory Xv6_Malloc
  imports Xv6_Prelude
begin

text \<open>
  The user's allocator (\<open>umalloc.c\<close>, the same in the three systems): a circular list of free blocks in the
  order of their addresses, threaded through the headers of the blocks.  A pointer is the number of its byte, which does not
  wrap since user memory ends at \<open>KERNBASE\<close>; sizes are unsigned words and count headers of 8 bytes.
\<close>

section \<open>The heap\<close>

text \<open>
  \<open>hptr\<close> and \<open>hsize\<close> are the two fields of the header at an address; \<open>base_addr\<close> is the address of the static
  \<open>base\<close>; \<open>brk\<close> is the end of the process's memory.
\<close>

record uheap =
  hptr :: "nat \<Rightarrow> nat"
  hsize :: "nat \<Rightarrow> uint"
  base_addr :: nat
  freep :: nat
  brk :: nat

definition after_block :: "nat \<Rightarrow> uheap \<Rightarrow> nat" where
  "after_block p h = p + 8 * unat (hsize h p)"

text \<open>
  The system call \<open>sbrk\<close>, that is \<open>growproc\<close> and \<open>allocuvm\<close> or \<open>deallocuvm\<close> (the \<open>Virtual memory\<close> part): growing fails
  at \<open>KERNBASE\<close> or when there are no pages, which \<open>grant\<close> says for the size and the request.  A request below the
  beginning of memory is larger than the size as an unsigned number, so \<open>deallocuvm\<close> does nothing.
\<close>

definition usbrk :: "(nat \<Rightarrow> int \<Rightarrow> bool) \<Rightarrow> int \<Rightarrow> uheap \<Rightarrow> nat option \<times> uheap" where
  "usbrk grant n h =
     (let sz = int (brk h) + n
      in if 0 < n \<and> (2147483648 \<le> sz \<or> \<not> grant (brk h) n) then (None, h)
         else if n < 0 \<and> sz = 0 then (None, h\<lparr>brk := 0\<rparr>)
         else (Some (brk h), if sz < 0 then h else h\<lparr>brk := nat sz\<rparr>))"

section \<open>free\<close>

text \<open>The search for the place of the block \<open>bp\<close>: the last free block before it.\<close>

partial_function (option) free_place :: "uheap \<Rightarrow> nat \<Rightarrow> nat \<Rightarrow> nat option" where
  "free_place h bp p =
     (if p < bp \<and> bp < hptr h p then Some p
      else if hptr h p \<le> p \<and> (p < bp \<or> bp < hptr h p) then Some p
      else free_place h bp (hptr h p))"

definition join_right :: "nat \<Rightarrow> nat \<Rightarrow> uheap \<Rightarrow> uheap" where
  "join_right bp p h =
     (if after_block bp h = hptr h p
      then h\<lparr>hsize := (hsize h)(bp := hsize h bp + hsize h (hptr h p)), hptr := (hptr h)(bp := hptr h (hptr h p))\<rparr>
      else h\<lparr>hptr := (hptr h)(bp := hptr h p)\<rparr>)"

definition join_left :: "nat \<Rightarrow> nat \<Rightarrow> uheap \<Rightarrow> uheap" where
  "join_left bp p h =
     (if after_block p h = bp
      then h\<lparr>hsize := (hsize h)(p := hsize h p + hsize h bp), hptr := (hptr h)(p := hptr h bp)\<rparr>
      else h\<lparr>hptr := (hptr h)(p := bp)\<rparr>)"

definition ufree :: "nat \<Rightarrow> uheap \<Rightarrow> uheap option" where
  "ufree ap h =
     (let bp = ap - 8
      in map_option (\<lambda>p. (join_left bp p (join_right bp p h))\<lparr>freep := p\<rparr>) (free_place h bp (freep h)))"

section \<open>malloc\<close>

text \<open>The result is \<open>freep\<close>, or 0 when the kernel refuses.\<close>

definition morecore :: "(nat \<Rightarrow> int \<Rightarrow> bool) \<Rightarrow> uint \<Rightarrow> uheap \<Rightarrow> (nat \<times> uheap) option" where
  "morecore grant nu h =
     (let nu = (if nu < 4096 then 4096 else nu)
      in case usbrk grant (sint (nu * 8)) h of
           (None, h1) \<Rightarrow> Some (0, h1)
         | (Some hp, h1) \<Rightarrow>
             map_option (\<lambda>h2. (freep h2, h2)) (ufree (hp + 8) (h1\<lparr>hsize := (hsize h1)(hp := nu)\<rparr>)))"

partial_function (option) malloc_loop :: "(nat \<Rightarrow> int \<Rightarrow> bool) \<Rightarrow> uint \<Rightarrow> nat \<Rightarrow> nat \<Rightarrow> uheap \<Rightarrow> (nat \<times> uheap) option" where
  "malloc_loop grant nunits prevp p h =
     (if nunits \<le> hsize h p
      then if hsize h p = nunits
           then Some (p + 8, h\<lparr>hptr := (hptr h)(prevp := hptr h p), freep := prevp\<rparr>)
           else let h1 = h\<lparr>hsize := (hsize h)(p := hsize h p - nunits)\<rparr>;
                    q = after_block p h1
                in Some (q + 8, h1\<lparr>hsize := (hsize h1)(q := nunits), freep := prevp\<rparr>)
      else if p = freep h
      then Option.bind (morecore grant nunits h) (\<lambda>(p1, h1).
        if p1 = 0 then Some (0, h1) else malloc_loop grant nunits p1 (hptr h1 p1) h1)
      else malloc_loop grant nunits p (hptr h p) h)"

definition nunits_for :: "uint \<Rightarrow> uint" where
  "nunits_for nbytes = (nbytes + 8 - 1) div 8 + 1"

definition umalloc :: "(nat \<Rightarrow> int \<Rightarrow> bool) \<Rightarrow> uint \<Rightarrow> uheap \<Rightarrow> (nat \<times> uheap) option" where
  "umalloc grant nbytes h =
     (let h1 = (if freep h = 0
                then h\<lparr>hptr := (hptr h)(base_addr h := base_addr h), freep := base_addr h, hsize := (hsize h)(base_addr h := 0)\<rparr>
                else h)
      in malloc_loop grant (nunits_for nbytes) (freep h1) (hptr h1 (freep h1)) h1)"

section \<open>The list of free blocks\<close>

text \<open>The blocks \<open>ns\<close> are linked from \<open>x\<close> on, and the last one to \<open>y\<close>.\<close>

fun seg :: "(nat \<Rightarrow> nat) \<Rightarrow> nat \<Rightarrow> nat list \<Rightarrow> nat \<Rightarrow> bool" where
  "seg f x [] y \<longleftrightarrow> x = y"
| "seg f x (a # ns) y \<longleftrightarrow> x = a \<and> seg f (f a) ns y"

text \<open>The blocks are apart from each other, with the end of the memory after the last.\<close>

fun spaced :: "(nat \<Rightarrow> uint) \<Rightarrow> nat list \<Rightarrow> nat \<Rightarrow> bool" where
  "spaced g [] e \<longleftrightarrow> True"
| "spaced g [a] e \<longleftrightarrow> a + 8 * unat (g a) \<le> e"
| "spaced g (a # b # ns) e \<longleftrightarrow> a + 8 * unat (g a) < b \<and> spaced g (b # ns) e"

definition heap_ok :: "uheap \<Rightarrow> nat list \<Rightarrow> bool" where
  "heap_ok h bs \<longleftrightarrow>
     seg (hptr h) (base_addr h) (base_addr h # bs) (base_addr h) \<and> spaced (hsize h) (base_addr h # bs) (brk h) \<and>
     hsize h (base_addr h) = 0 \<and> 0 < base_addr h \<and> (\<forall>b \<in> set bs. 0 < hsize h b \<and> base_addr h + 8 \<le> b) \<and>
     freep h \<in> set (base_addr h # bs) \<and> base_addr h + 8 \<le> brk h \<and> brk h \<le> 2147483648"

definition block :: "uheap \<Rightarrow> nat \<Rightarrow> nat set" where
  "block h b = {b..<b + 8 * unat (hsize h b)}"

definition free_bytes :: "uheap \<Rightarrow> nat list \<Rightarrow> nat set" where
  "free_bytes h bs = (\<Union>b \<in> set bs. block h b)"

lemma seg_append [simp]: "seg f x (as @ bs) y \<longleftrightarrow> (\<exists>z. seg f x as z \<and> seg f z bs y)"
  by (induction as arbitrary: x) auto

lemma seg_upd [simp]: "u \<notin> set ns \<Longrightarrow> seg (f(u := v)) x ns y = seg f x ns y"
  by (induction ns arbitrary: x) auto

lemma seg_next:
  assumes "seg f x ns y" "i < length ns"
  shows "f (ns ! i) = (if Suc i < length ns then ns ! Suc i else y)"
  using assms
proof (induction ns arbitrary: x i)
  case (Cons a ns)
  then show ?case by (cases i; cases ns) auto
qed simp

lemma spaced_upd: "u \<notin> set ns \<Longrightarrow> spaced (g(u := v)) ns e = spaced g ns e"
  by (induction g ns e rule: spaced.induct) auto

lemma spaced_Cons: "spaced g (a # ns) e \<longleftrightarrow> (case ns of [] \<Rightarrow> a + 8 * unat (g a) \<le> e | b # _ \<Rightarrow> a + 8 * unat (g a) < b) \<and> spaced g ns e"
  by (cases ns) auto

lemma spaced_append:
  "spaced g (xs @ a # ys) e \<longleftrightarrow> spaced g (a # ys) e \<and> (xs = [] \<or> (\<exists>e'. e' < a \<and> spaced g xs e'))"
proof (induction xs)
  case (Cons x xs)
  show ?case
  proof (cases xs)
    case Nil
    then show ?thesis by (auto simp: spaced_Cons [of g x] intro: exI [of _ "x + 8 * unat (g x)"])
  next
    case (Cons b bs)
    then show ?thesis using Cons.IH by (auto simp: spaced_Cons [of g x])
  qed
qed simp

lemma spaced_less: "spaced g (a # ns) e \<Longrightarrow> b \<in> set ns \<Longrightarrow> a + 8 * unat (g a) < b"
proof (induction ns arbitrary: a)
  case (Cons c ns)
  then have "a + 8 * unat (g a) < c" "spaced g (c # ns) e" by simp_all
  then show ?case using Cons(1) [of c] Cons(3) by fastforce
qed simp

lemma spaced_end: "spaced g ns e \<Longrightarrow> b \<in> set ns \<Longrightarrow> b + 8 * unat (g b) \<le> e"
proof (induction ns arbitrary: b)
  case (Cons a ns)
  show ?case
  proof (cases "ns = []")
    case False
    then obtain c where c: "c \<in> set ns" by (cases ns) auto
    then have "c + 8 * unat (g c) \<le> e" using Cons by (simp add: spaced_Cons)
    moreover have "a + 8 * unat (g a) < c" using spaced_less [OF Cons(2) c] .
    ultimately show ?thesis using Cons by (cases "b = a") (auto simp: spaced_Cons)
  qed (use Cons in simp)
qed simp

lemma spaced_sorted: "spaced g ns e \<Longrightarrow> sorted_wrt (<) ns"
proof (induction ns)
  case (Cons a ns)
  then show ?case using spaced_less [OF Cons(2)] by (fastforce simp: spaced_Cons)
qed simp

section \<open>The search of free\<close>

lemma place_upto:
  assumes "seg (hptr h) p (ps @ [l]) y" "sorted_wrt (<) (ps @ [l])" "\<forall>x \<in> set (ps @ [l]). x < bp" "bp < y \<or> y \<le> l"
  shows "free_place h bp p = Some l"
  using assms
proof (induction ps arbitrary: p)
  case Nil
  then show ?case by (subst free_place.simps) auto
next
  case (Cons a ps)
  obtain b cs where b: "ps @ [l] = b # cs" by (cases ps) auto
  have "hptr h a = b" "a < b" "b < bp" "p = a" using Cons(2-4) b by auto
  then show ?case using Cons by (subst free_place.simps) auto
qed

lemma place_wrap:
  assumes "seg (hptr h) r rs y" "sorted_wrt (<) rs" "\<forall>x \<in> set rs. bp < x" "y < bp" "free_place h bp y = Some l"
  shows "free_place h bp r = Some l"
  using assms
proof (induction rs arbitrary: r)
  case (Cons a rs)
  have r: "r = a" "bp < a" using Cons by auto
  have "\<not> (hptr h a \<le> a \<and> bp < hptr h a)" using Cons by (cases rs) auto
  moreover have "free_place h bp (hptr h a) = Some l" using Cons by auto
  ultimately show ?case using r by (subst free_place.simps) auto
qed simp

lemma heap_less: "heap_ok h bs \<Longrightarrow> b \<in> set bs \<Longrightarrow> base_addr h < b"
  by (auto simp: heap_ok_def)

lemma heap_sorted: "heap_ok h bs \<Longrightarrow> sorted_wrt (<) (base_addr h # bs)"
  unfolding heap_ok_def using spaced_sorted by blast

lemma heap_split:
  assumes "heap_ok h bs" "base_addr h < bp" "bp \<notin> set bs"
  obtains xs p R where "base_addr h # bs = xs @ p # R" "\<forall>x \<in> set (xs @ [p]). x < bp" "\<forall>r \<in> set R. bp < r"
proof
  let ?ns = "base_addr h # bs"
  let ?L = "takeWhile (\<lambda>x. x < bp) ?ns" let ?R = "dropWhile (\<lambda>x. x < bp) ?ns"
  have ne: "?L \<noteq> []" using assms(2) by simp
  have s: "sorted_wrt (<) ?ns" using heap_sorted [OF assms(1)] .
  show "?ns = butlast ?L @ last ?L # ?R" using append_butlast_last_id [OF ne] takeWhile_dropWhile_id
    by (metis append.assoc append_Cons append_Nil)
  show "\<forall>x \<in> set (butlast ?L @ [last ?L]). x < bp"
    unfolding append_butlast_last_id [OF ne] by (metis set_takeWhileD)
  show "\<forall>r \<in> set ?R. bp < r"
  proof
    fix r assume r: "r \<in> set ?R"
    then obtain b cs where b: "?R = b # cs" by (cases ?R) auto
    have bn: "\<not> b < bp" "b \<in> set ?ns"
      using b hd_dropWhile [of "\<lambda>x. x < bp" ?ns] set_dropWhileD [of b "\<lambda>x. x < bp" ?ns] by auto
    then have "bp < b" using assms(2,3) by (cases "b = bp") auto
    moreover have "sorted_wrt (<) ?R" using s by (metis sorted_wrt_append takeWhile_dropWhile_id)
    ultimately show "bp < r" using r unfolding b by auto
  qed
qed

lemma free_place_split:
  assumes ok: "heap_ok h bs" and split: "base_addr h # bs = xs @ p # R"
    and L: "\<forall>x \<in> set (xs @ [p]). x < bp" and R: "\<forall>r \<in> set R. bp < r"
  shows "free_place h bp (freep h) = Some p"
proof -
  have s: "sorted_wrt (<) (xs @ p # R)" using heap_sorted [OF ok] split by simp
  have f: "freep h \<in> set (xs @ p # R)" and g: "seg (hptr h) (base_addr h) (xs @ p # R) (base_addr h)"
    using ok unfolding heap_ok_def split by blast+
  have b0: "base_addr h \<le> p" "base_addr h < bp" using split L s by (cases xs; auto)+
  have upto: "free_place h bp q = Some p" if "xs @ [p] = us @ q # vs" for us q vs
  proof -
    have "sorted_wrt (<) (xs @ [p])" using s by (simp add: sorted_wrt_append)
    then have sv: "sorted_wrt (<) (q # vs)" unfolding that by (simp add: sorted_wrt_append)
    have e: "xs @ p # R = us @ (q # vs) @ R" using that by (metis append.assoc append_Cons append_Nil)
    obtain y where y: "seg (hptr h) q (q # vs) y" "seg (hptr h) y R (base_addr h)"
      using g unfolding e seg_append by auto
    have l: "q # vs = butlast (q # vs) @ [p]" using that
      by (metis append_butlast_last_id last_appendR last_snoc list.distinct(1))
    have "bp < y \<or> y \<le> p" using y(2) R b0 by (cases R) auto
    moreover have "\<forall>x \<in> set (q # vs). x < bp" using L unfolding that by auto
    ultimately show ?thesis using place_upto [of h q "butlast (q # vs)" p y bp] y(1) sv unfolding l [symmetric] by blast
  qed
  show ?thesis
  proof (cases "freep h \<in> set (xs @ [p])")
    case True
    then show ?thesis using upto split_list by metis
  next
    case False
    then obtain us vs where v: "R = us @ freep h # vs" using f split_list by fastforce
    obtain zs where z: "xs @ [p] = base_addr h # zs" using split by (cases xs) auto
    have "seg (hptr h) (freep h) (freep h # vs) (base_addr h)" using g v by auto
    moreover have "sorted_wrt (<) (freep h # vs)" using s v by (simp add: sorted_wrt_append)
    ultimately show ?thesis using place_wrap [of h "freep h" "freep h # vs" "base_addr h" bp p] R v b0
      upto [of "[]" "base_addr h" zs] z by auto
  qed
qed

section \<open>What free does\<close>

text \<open>An allocated block: inside the heap and apart from the free blocks.\<close>

definition held_block :: "uheap \<Rightarrow> nat list \<Rightarrow> nat \<Rightarrow> bool" where
  "held_block h bs b \<longleftrightarrow>
     base_addr h + 8 \<le> b \<and> 0 < hsize h b \<and> after_block b h \<le> brk h \<and>
     (\<forall>c \<in> set bs. after_block b h \<le> c \<or> after_block c h \<le> b)"

lemma seg_cong: "(\<And>x. x \<in> set ns \<Longrightarrow> f x = g x) \<Longrightarrow> seg f x ns y = seg g x ns y"
  by (induction ns arbitrary: x) auto

lemma spaced_cong: "(\<And>x. x \<in> set ns \<Longrightarrow> f x = g x) \<Longrightarrow> spaced f ns e = spaced g ns e"
  by (induction ns) (auto simp: spaced_Cons split: list.splits)

lemma free_bytes_simps [simp]:
  "free_bytes h [] = {}" "free_bytes h (b # bs) = block h b \<union> free_bytes h bs"
  "free_bytes h (as @ bs) = free_bytes h as \<union> free_bytes h bs"
  by (auto simp: free_bytes_def)

lemma block_cong: "hsize h b = hsize g b \<Longrightarrow> block h b = block g b"
  by (simp add: block_def)

lemma free_bytes_cong: "(\<And>b. b \<in> set bs \<Longrightarrow> hsize h b = hsize g b) \<Longrightarrow> free_bytes h bs = free_bytes g bs"
  by (auto simp: free_bytes_def block_def)

lemma unat_join:
  fixes x y :: uint
  assumes "a + 8 * unat x = b" "b + 8 * unat y \<le> e" "e \<le> 2147483648"
  shows "unat (x + y) = unat x + unat y"
  using assms by (simp add: unat_add_lem [symmetric])

lemma join_right_ok:
  assumes seg: "seg (hptr h) (hptr h p) R z" and sp: "spaced (hsize h) R (brk h)"
    and bp: "bp \<notin> set R" "after_block bp h \<le> brk h" "\<forall>r \<in> set R. after_block bp h \<le> r" "z < bp"
    and sz: "0 < hsize h bp" "\<forall>r \<in> set R. 0 < hsize h r" "brk h \<le> 2147483648"
  shows "\<exists>R1. set R1 \<subseteq> set R \<and> seg (hptr (join_right bp p h)) bp (bp # R1) z \<and>
    spaced (hsize (join_right bp p h)) (bp # R1) (brk h) \<and> hsize h bp \<le> hsize (join_right bp p h) bp \<and>
    free_bytes (join_right bp p h) (bp # R1) = block h bp \<union> free_bytes h R"
    (is "\<exists>R1. ?P R1")
proof (cases "after_block bp h = hptr h p")
  case False
  have "after_block bp h < r" if "R = r # rs" for r rs using False bp(3) seg that by fastforce
  moreover have g: "hsize (join_right bp p h) = hsize h" "hptr (join_right bp p h) = (hptr h)(bp := hptr h p)"
    using False by (simp_all add: join_right_def)
  moreover have "free_bytes (join_right bp p h) ns = free_bytes h ns" for ns by (rule free_bytes_cong) (simp add: g)
  moreover have "block (join_right bp p h) b = block h b" for b by (rule block_cong) (simp add: g)
  ultimately have "?P R" using assms by (auto simp: g spaced_Cons [of _ bp] after_block_def split: list.splits)
  then show ?thesis by blast
next
  case True
  obtain r rs where R: "R = r # rs" "hptr h p = r"
    using seg True bp(4) by (cases R) (auto simp: after_block_def)
  have e: "r + 8 * unat (hsize h r) \<le> brk h" using spaced_end [OF sp] R by auto
  have u: "unat (hsize h bp + hsize h r) = unat (hsize h bp) + unat (hsize h r)"
    using unat_join [OF _ e sz(3)] True R by (simp add: after_block_def)
  have g: "hsize (join_right bp p h) = (hsize h)(bp := hsize h bp + hsize h r)" "hptr (join_right bp p h) = (hptr h)(bp := hptr h r)"
    using True R by (simp_all add: join_right_def)
  have end_eq: "bp + 8 * (unat (hsize h bp) + unat (hsize h r)) = r + 8 * unat (hsize h r)"
    using True R by (simp add: after_block_def)
  have b: "block (join_right bp p h) bp = block h bp \<union> block h r"
    using True R u by (auto simp: block_def g after_block_def)
  have "spaced (hsize h) (r # rs) (brk h)" using sp R by simp
  then have s: "spaced (hsize (join_right bp p h)) (bp # rs) (brk h)"
    using bp(1) R u end_eq unfolding g spaced_Cons [of _ bp] spaced_Cons [of _ r]
    by (auto simp: spaced_upd split: list.splits)
  have f: "free_bytes (join_right bp p h) rs = free_bytes h rs"
    using bp(1) R by (intro free_bytes_cong) (auto simp: g)
  have "hsize h bp \<le> hsize (join_right bp p h) bp" using u by (simp add: g word_le_nat_alt)
  then have "?P rs" using seg R bp(1) s f b by (auto simp: g)
  then show ?thesis by blast
qed

lemma join_left_ok:
  assumes seg: "seg (hptr h) x (xs @ [p]) y" "seg (hptr h) bp (bp # R) z"
    and sp: "spaced (hsize h) (xs @ [p]) e" "spaced (hsize h) (bp # R) (brk h)" "after_block p h \<le> bp" "brk h \<le> 2147483648"
    and d: "p \<notin> set xs" "p \<notin> set R" "p \<noteq> bp" "bp \<notin> set xs"
  shows "\<exists>R1. set R1 \<subseteq> set (bp # R) \<and> seg (hptr (join_left bp p h)) x (xs @ p # R1) z \<and>
    spaced (hsize (join_left bp p h)) (xs @ p # R1) (brk h) \<and>
    free_bytes (join_left bp p h) (p # R1) = block h p \<union> free_bytes h (bp # R) \<and>
    (\<forall>b \<in> set R1. hsize (join_left bp p h) b = hsize h b) \<and> hsize h p \<le> hsize (join_left bp p h) p \<and>
    (\<exists>b \<in> set (p # R1). hsize h bp \<le> hsize (join_left bp p h) b)" (is "\<exists>R1. ?P R1")
proof (cases "after_block p h = bp")
  case False
  have g: "hsize (join_left bp p h) = hsize h" "hptr (join_left bp p h) = (hptr h)(p := bp)"
    using False by (simp_all add: join_left_def)
  have "spaced (hsize h) (p # bp # R) (brk h)" using False sp by (simp add: after_block_def)
  then have "spaced (hsize h) (xs @ p # bp # R) (brk h)" using sp(1) by (auto simp: spaced_append)
  moreover have "free_bytes (join_left bp p h) ns = free_bytes h ns" for ns by (rule free_bytes_cong) (simp add: g)
  moreover have "block (join_left bp p h) b = block h b" for b by (rule block_cong) (simp add: g)
  ultimately have "?P (bp # R)" using seg d by (auto simp: g)
  then show ?thesis by blast
next
  case True
  have e: "bp + 8 * unat (hsize h bp) \<le> brk h" using spaced_end [OF sp(2)] by auto
  have u: "unat (hsize h p + hsize h bp) = unat (hsize h p) + unat (hsize h bp)"
    using unat_join [OF _ e sp(4)] True by (simp add: after_block_def)
  have g: "hsize (join_left bp p h) = (hsize h)(p := hsize h p + hsize h bp)" "hptr (join_left bp p h) = (hptr h)(p := hptr h bp)"
    using True by (simp_all add: join_left_def)
  have end_eq: "p + 8 * (unat (hsize h p) + unat (hsize h bp)) = bp + 8 * unat (hsize h bp)"
    using True by (simp add: after_block_def)
  have b: "block (join_left bp p h) p = block h p \<union> block h bp"
    using True u by (auto simp: block_def g after_block_def)
  have "spaced (hsize (join_left bp p h)) (p # R) (brk h)"
    using d sp(2) u end_eq unfolding g spaced_Cons [of _ bp] spaced_Cons [of _ p]
    by (auto simp: spaced_upd split: list.splits)
  then have s: "spaced (hsize (join_left bp p h)) (xs @ p # R) (brk h)"
    using sp(1) d by (auto simp: spaced_append g spaced_upd)
  have f: "free_bytes (join_left bp p h) R = free_bytes h R"
    using d by (intro free_bytes_cong) (auto simp: g)
  have "?P R" using seg d s f b u by (auto simp: g word_le_nat_alt)
  then show ?thesis by blast
qed

lemma join_frame:
  "base_addr (join_right bp p h) = base_addr h" "brk (join_right bp p h) = brk h" "freep (join_right bp p h) = freep h"
  "base_addr (join_left bp p h) = base_addr h" "brk (join_left bp p h) = brk h" "freep (join_left bp p h) = freep h"
  "c \<noteq> bp \<Longrightarrow> hsize (join_right bp p h) c = hsize h c \<and> hptr (join_right bp p h) c = hptr h c"
  "c \<noteq> p \<Longrightarrow> hsize (join_left bp p h) c = hsize h c \<and> hptr (join_left bp p h) c = hptr h c"
  by (simp_all add: join_right_def join_left_def)

text \<open>Only the headers of free blocks and of \<open>bp\<close> change.\<close>

definition headers_kept :: "nat set \<Rightarrow> uheap \<Rightarrow> uheap \<Rightarrow> bool" where
  "headers_kept W h h' \<longleftrightarrow> base_addr h' = base_addr h \<and> (\<forall>c. c \<notin> W \<longrightarrow> hsize h' c = hsize h c \<and> hptr h' c = hptr h c)"

lemma heap_ok_list:
  assumes "heap_ok h bs" "base_addr h # bs = xs @ p # R"
  shows "seg (hptr h) (base_addr h) (xs @ [p]) (hptr h p)" "seg (hptr h) (hptr h p) R (base_addr h)"
    "\<exists>e. spaced (hsize h) (xs @ [p]) e" "spaced (hsize h) R (brk h)" "p \<notin> set xs" "p \<notin> set R"
    "\<And>r. r \<in> set R \<Longrightarrow> r \<in> set bs"
proof -
  have o: "seg (hptr h) (base_addr h) (xs @ p # R) (base_addr h)" "spaced (hsize h) (xs @ p # R) (brk h)"
    using assms unfolding heap_ok_def assms(2) [symmetric] by blast+
  then show "seg (hptr h) (base_addr h) (xs @ [p]) (hptr h p)" "seg (hptr h) (hptr h p) R (base_addr h)" by auto
  show "\<exists>e. spaced (hsize h) (xs @ [p]) e" "spaced (hsize h) R (brk h)"
    using o(2) by (auto simp: spaced_append spaced_Cons [of _ p])
  have "distinct (xs @ p # R)" using spaced_sorted [OF o(2)] strict_sorted_iff by blast
  then show "p \<notin> set xs" "p \<notin> set R" by auto
  have "xs = [] \<and> R = bs \<or> (\<exists>ys. xs = base_addr h # ys \<and> bs = ys @ p # R)" using assms(2) by (cases xs) auto
  then show "r \<in> set bs" if "r \<in> set R" for r using that by auto
qed

text \<open>The block between its neighbours.\<close>

lemma held_block_between:
  assumes ok: "heap_ok h bs" and bp: "held_block h bs bp" and split: "base_addr h # bs = xs @ p # R"
    and L: "p < bp" and R: "\<forall>r \<in> set R. bp < r"
  shows "\<forall>r \<in> set R. after_block bp h \<le> r" "after_block p h \<le> bp"
proof -
  note l = heap_ok_list [OF ok split]
  show "\<forall>r \<in> set R. after_block bp h \<le> r"
  proof
    fix r assume r: "r \<in> set R"
    then have "after_block bp h \<le> r \<or> after_block r h \<le> bp" using bp l(7) by (auto simp: held_block_def)
    then show "after_block bp h \<le> r" using R r by (fastforce simp: after_block_def)
  qed
  have "p \<in> set (base_addr h # bs)" unfolding split by simp
  then show "after_block p h \<le> bp"
    using bp L ok by (cases "p = base_addr h") (auto simp: held_block_def after_block_def heap_ok_def)
qed

text \<open>Both joins.\<close>

lemma join_both:
  assumes ok: "heap_ok h bs" and bp: "held_block h bs bp" and split: "base_addr h # bs = xs @ p # R"
    and L: "\<forall>x \<in> set (xs @ [p]). x < bp" and R: "\<forall>r \<in> set R. bp < r"
  defines "h2 \<equiv> join_left bp p (join_right bp p h)"
  shows "\<exists>R2. set R2 \<subseteq> insert bp (set R) \<and> seg (hptr h2) (base_addr h) (xs @ p # R2) (base_addr h) \<and>
    spaced (hsize h2) (xs @ p # R2) (brk h) \<and> free_bytes h2 (p # R2) = block h p \<union> block h bp \<union> free_bytes h R \<and>
    (\<forall>b \<in> set (p # R2). hsize h b \<le> hsize h2 b) \<and> (\<exists>b \<in> set (p # R2). hsize h bp \<le> hsize h2 b)"
proof -
  note l = heap_ok_list [OF ok split]
  obtain e where e: "spaced (hsize h) (xs @ [p]) e" using l(3) by blast
  have o: "brk h \<le> 2147483648" "\<forall>b \<in> set bs. 0 < hsize h b" "base_addr h < bp"
    using ok bp by (auto simp: heap_ok_def held_block_def)
  have p: "p < bp" using L by simp
  note gap = held_block_between [OF ok bp split p R]
  define h1 where "h1 = join_right bp p h"
  obtain R1 where R1: "set R1 \<subseteq> set R" "seg (hptr h1) bp (bp # R1) (base_addr h)" "spaced (hsize h1) (bp # R1) (brk h)"
    "hsize h bp \<le> hsize h1 bp" "free_bytes h1 (bp # R1) = block h bp \<union> free_bytes h R"
    using join_right_ok [OF l(2,4) _ _ gap(1) o(3) _ _ o(1)] R o(2) l(7) bp unfolding held_block_def h1_def by blast
  have same: "hsize h1 x = hsize h x" "hptr h1 x = hptr h x" if "x \<in> set (xs @ p # R)" for x
  proof -
    have "x \<noteq> bp" using that L R by auto
    then show "hsize h1 x = hsize h x" "hptr h1 x = hptr h x" by (simp_all add: h1_def join_frame)
  qed
  have "seg (hptr h1) (base_addr h) (xs @ [p]) (hptr h p) = seg (hptr h) (base_addr h) (xs @ [p]) (hptr h p)"
    by (rule seg_cong) (use same in auto)
  moreover have "spaced (hsize h1) (xs @ [p]) e = spaced (hsize h) (xs @ [p]) e"
    by (rule spaced_cong) (use same in auto)
  ultimately have xs: "seg (hptr h1) (base_addr h) (xs @ [p]) (hptr h p)" "spaced (hsize h1) (xs @ [p]) e"
    using l(1) e by blast+
  have sp: "hsize h1 p = hsize h p" using same(1) by simp
  have left: "after_block p h1 \<le> bp" using gap(2) sp by (simp add: after_block_def)
  have b1: "brk h1 = brk h" by (simp add: h1_def join_frame)
  have "p \<notin> set R1" "p \<noteq> bp" "bp \<notin> set xs" using R1(1) l(6) L by auto
  then obtain R2 where R2: "set R2 \<subseteq> set (bp # R1)" "seg (hptr h2) (base_addr h) (xs @ p # R2) (base_addr h)"
    "spaced (hsize h2) (xs @ p # R2) (brk h)" "free_bytes h2 (p # R2) = block h1 p \<union> free_bytes h1 (bp # R1)"
    "\<forall>b \<in> set R2. hsize h2 b = hsize h1 b" "hsize h1 p \<le> hsize h2 p" "\<exists>b \<in> set (p # R2). hsize h1 bp \<le> hsize h2 b"
    using join_left_ok [OF xs(1) R1(2) xs(2) R1(3) [folded b1] left o(1) [folded b1] l(5)] unfolding h2_def h1_def [symmetric] b1
    by blast
  have "hsize h b \<le> hsize h2 b" if "b \<in> set R2" for b
  proof -
    have "b = bp \<or> b \<in> set R" using that R2(1) R1(1) by auto
    then have "hsize h b \<le> hsize h1 b" using R1(4) same(1) [of b] by auto
    then show ?thesis using R2(5) that by simp
  qed
  moreover have "hsize h p \<le> hsize h2 p" using R2(6) sp by simp
  moreover have "\<exists>b \<in> set (p # R2). hsize h bp \<le> hsize h2 b" using R2(7) R1(4) order_trans by blast
  moreover have "free_bytes h2 (p # R2) = block h p \<union> block h bp \<union> free_bytes h R"
    using R2(4) R1(5) block_cong [OF sp] by auto
  moreover have "set R2 \<subseteq> insert bp (set R)" using R2(1) R1(1) by auto
  ultimately show ?thesis using R2(2,3) by (intro exI [of _ R2]) simp
qed

lemma ufree_ok:
  assumes ok: "heap_ok h bs" and bp: "held_block h bs bp"
  shows "\<exists>h' bs'. ufree (bp + 8) h = Some h' \<and> heap_ok h' bs' \<and> free_bytes h' bs' = free_bytes h bs \<union> block h bp \<and>
    brk h' = brk h \<and> headers_kept (set (bp # base_addr h # bs)) h h' \<and> (\<exists>b \<in> set bs'. hsize h bp \<le> hsize h' b)"
proof -
  have n: "base_addr h < bp" "bp \<notin> set bs" using bp
    by (auto simp: held_block_def after_block_def word_less_nat_alt dest: bspec [of _ _ bp])
  obtain xs p R where split: "base_addr h # bs = xs @ p # R" and L: "\<forall>x \<in> set (xs @ [p]). x < bp" and R: "\<forall>r \<in> set R. bp < r"
    using heap_split [OF ok n] .
  have o: "hsize h (base_addr h) = 0" "0 < base_addr h" "brk h \<le> 2147483648" "base_addr h + 8 \<le> brk h"
    "\<forall>b \<in> set bs. 0 < hsize h b \<and> base_addr h + 8 \<le> b" using ok by (auto simp: heap_ok_def)
  define h2 where "h2 = join_left bp p (join_right bp p h)"
  obtain R2 where R2: "set R2 \<subseteq> insert bp (set R)" "seg (hptr h2) (base_addr h) (xs @ p # R2) (base_addr h)"
    "spaced (hsize h2) (xs @ p # R2) (brk h)" "free_bytes h2 (p # R2) = block h p \<union> block h bp \<union> free_bytes h R"
    "\<forall>b \<in> set (p # R2). hsize h b \<le> hsize h2 b" "\<exists>b \<in> set (p # R2). hsize h bp \<le> hsize h2 b"
    using join_both [OF ok bp split L R] unfolding h2_def by blast
  have xs: "hsize h2 b = hsize h b" if "b \<in> set xs" for b
  proof -
    have "b \<noteq> p" "b \<noteq> bp" using that L heap_ok_list(5) [OF ok split] by auto
    then show ?thesis by (simp add: h2_def join_frame)
  qed
  define bs' where "bs' = tl (xs @ p # R2)"
  have bs': "base_addr h # bs' = xs @ p # R2" using split by (cases xs) (auto simp: bs'_def)
  have fr: "base_addr h2 = base_addr h" "brk h2 = brk h" by (simp_all add: h2_def join_frame)
  have z: "hsize h2 (base_addr h) = 0"
    using n(1) o(1) by (auto simp: h2_def join_left_def join_right_def after_block_def)
  have pos: "0 < hsize h2 b \<and> base_addr h + 8 \<le> b" if b: "b \<in> set bs'" for b
  proof -
    have b': "b \<in> set (xs @ p # R2)" using b bs' by (metis list.set_intros(2))
    then have "b \<in> set (bp # base_addr h # bs)" unfolding split using R2(1) by auto
    moreover have "b \<noteq> base_addr h" using spaced_sorted [OF R2(3)] b unfolding bs' [symmetric] by auto
    moreover have "hsize h b \<le> hsize h2 b" using b' R2(5) xs by auto
    ultimately show ?thesis using o(5) bp by (auto simp: held_block_def dest: less_le_trans)
  qed
  have "heap_ok (h2\<lparr>freep := p\<rparr>) bs'"
    using R2(2,3) z pos o(2-4) fr bs' by (auto simp: heap_ok_def)
  moreover have "free_bytes h2 bs' = free_bytes h bs \<union> block h bp"
  proof -
    have "free_bytes h2 xs = free_bytes h xs" by (intro free_bytes_cong xs)
    then have "free_bytes h2 (base_addr h # bs') = free_bytes h (base_addr h # bs) \<union> block h bp"
      unfolding bs' split using R2(4) by auto
    then show ?thesis using z o(1) by (simp add: block_def)
  qed
  moreover have "headers_kept (set (bp # base_addr h # bs)) h h2"
    unfolding split by (auto simp: headers_kept_def h2_def join_frame)
  moreover have "ufree (bp + 8) h = Some (h2\<lparr>freep := p\<rparr>)"
    using free_place_split [OF ok split L R] by (simp add: ufree_def h2_def)
  moreover have "\<exists>b \<in> set bs'. hsize h bp \<le> hsize h2 b"
  proof -
    obtain b where b: "b \<in> set (base_addr h # bs')" "hsize h bp \<le> hsize h2 b" using R2(6) unfolding bs' by auto
    then show ?thesis using z bp by (auto simp: held_block_def)
  qed
  ultimately show ?thesis using fr
    by (intro exI [of _ "h2\<lparr>freep := p\<rparr>"] exI [of _ bs']) (simp add: free_bytes_def block_def headers_kept_def)
qed

section \<open>The search of malloc\<close>

lemma scan_skip:
  assumes "seg (hptr h) p (us @ q # vs) z" "\<forall>u \<in> set us. hsize h u < n" "freep h \<notin> set us"
  shows "malloc_loop grant n prev p h = malloc_loop grant n (last (prev # us)) q h"
  using assms
proof (induction us arbitrary: prev p)
  case (Cons u us)
  have "p = u" "\<not> n \<le> hsize h u" "u \<noteq> freep h" using Cons(2-4) by auto
  then have "malloc_loop grant n prev p h = malloc_loop grant n u (hptr h u) h" by (subst malloc_loop.simps) simp
  also have "\<dots> = malloc_loop grant n (last (u # us)) q h" using Cons by auto
  finally show ?case by simp
qed simp

lemma seg_last: "seg f p (us @ q # vs) z \<Longrightarrow> f prev = p \<Longrightarrow> f (last (prev # us)) = q"
  by (induction us arbitrary: prev p) auto

text \<open>The list from the block after \<open>freep\<close> round to \<open>freep\<close>.\<close>

lemma heap_round:
  assumes "heap_ok h bs"
  obtains us where "seg (hptr h) (hptr h (freep h)) (us @ [freep h]) (hptr h (freep h))"
    "set (us @ [freep h]) = set (base_addr h # bs)" "freep h \<notin> set us"
proof -
  have "freep h \<in> set (base_addr h # bs)" using assms unfolding heap_ok_def by blast
  then obtain L R where s: "base_addr h # bs = L @ freep h # R" using split_list by fast
  note l = heap_ok_list [OF assms s]
  have "seg (hptr h) (hptr h (freep h)) ((R @ L) @ [freep h]) (hptr h (freep h))" using l(1,2) by auto
  moreover have "set ((R @ L) @ [freep h]) = set (base_addr h # bs)" unfolding s by auto
  moreover have "freep h \<notin> set (R @ L)" using l(5,6) by simp
  ultimately show ?thesis by (rule that)
qed

lemma malloc_fits:
  assumes ok: "heap_ok h bs" and fit: "\<exists>q \<in> set (base_addr h # bs). n \<le> hsize h q"
  obtains prev q where "malloc_loop grant n (freep h) (hptr h (freep h)) h = malloc_loop grant n prev q h"
    "prev \<in> set (base_addr h # bs)" "q \<in> set (base_addr h # bs)" "hptr h prev = q" "n \<le> hsize h q"
proof -
  obtain us where us: "seg (hptr h) (hptr h (freep h)) (us @ [freep h]) (hptr h (freep h))"
    "set (us @ [freep h]) = set (base_addr h # bs)" "freep h \<notin> set us" using heap_round [OF ok] .
  let ?P = "\<lambda>u. hsize h u < n"
  have "\<exists>q \<in> set (us @ [freep h]). n \<le> hsize h q" using fit us(2) by simp
  then have "dropWhile ?P (us @ [freep h]) \<noteq> []" by (auto simp: not_less [symmetric])
  then obtain q vs where q: "dropWhile ?P (us @ [freep h]) = q # vs" by (cases "dropWhile ?P (us @ [freep h])") auto
  define ts where "ts = takeWhile ?P (us @ [freep h])"
  have split: "us @ [freep h] = ts @ q # vs" unfolding ts_def q [symmetric] by simp
  have nq: "n \<le> hsize h q" using hd_dropWhile [of ?P "us @ [freep h]"] unfolding q by auto
  have small: "\<forall>u \<in> set ts. hsize h u < n" unfolding ts_def by (auto dest: set_takeWhileD)
  have "set ts \<subseteq> set us" using split by (cases vs rule: rev_cases) auto
  then have fp: "freep h \<notin> set ts" using us(3) by blast
  have seg: "seg (hptr h) (hptr h (freep h)) (ts @ q # vs) (hptr h (freep h))" using us(1) split by simp
  have all: "set (ts @ q # vs) = set (base_addr h # bs)" using us(2) split by simp
  have f: "freep h \<in> set (base_addr h # bs)" using us(2) by auto
  show ?thesis
  proof (rule that)
    show "malloc_loop grant n (freep h) (hptr h (freep h)) h = malloc_loop grant n (last (freep h # ts)) q h"
      by (rule scan_skip [OF seg small fp])
    show "hptr h (last (freep h # ts)) = q" by (rule seg_last [OF seg refl])
    have "last (freep h # ts) \<in> insert (freep h) (set ts)" by (simp)
    then show "last (freep h # ts) \<in> set (base_addr h # bs)" using f all by (metis Un_iff insertE set_append)
    show "q \<in> set (base_addr h # bs)" using all by auto
  qed (rule nq)
qed

lemma malloc_no_fit:
  assumes ok: "heap_ok h bs" and no: "\<forall>q \<in> set (base_addr h # bs). hsize h q < n"
  shows "malloc_loop grant n (freep h) (hptr h (freep h)) h =
    Option.bind (morecore grant n h) (\<lambda>(p1, h1). if p1 = 0 then Some (0, h1) else malloc_loop grant n p1 (hptr h1 p1) h1)"
proof -
  obtain us where us: "seg (hptr h) (hptr h (freep h)) (us @ [freep h]) (hptr h (freep h))"
    "set (us @ [freep h]) = set (base_addr h # bs)" "freep h \<notin> set us" using heap_round [OF ok] .
  have n: "\<forall>u \<in> set (us @ [freep h]). hsize h u < n" using no us(2) by simp
  then have "malloc_loop grant n (freep h) (hptr h (freep h)) h = malloc_loop grant n (last (freep h # us)) (freep h) h"
    using scan_skip [OF us(1) _ us(3)] by simp
  moreover have "\<not> n \<le> hsize h (freep h)" using n by (simp add: not_le)
  ultimately show ?thesis by (subst (asm) (2) malloc_loop.simps) simp
qed

section \<open>The block malloc takes\<close>

lemma held_block_apart:
  assumes "heap_ok h bs" "base_addr h + 8 \<le> b" "0 < hsize h b" "after_block b h \<le> brk h" "block h b \<inter> free_bytes h bs = {}"
  shows "held_block h bs b"
proof -
  have "after_block b h \<le> c \<or> after_block c h \<le> b" if c: "c \<in> set bs" for c
  proof (rule ccontr)
    assume a: "\<not> (after_block b h \<le> c \<or> after_block c h \<le> b)"
    have "0 < unat (hsize h c)" using c assms(1) by (auto simp: heap_ok_def word_less_nat_alt)
    then have "max b c \<in> block h b" "max b c \<in> block h c" using a assms(3)
      by (auto simp: block_def after_block_def word_less_nat_alt)
    then show False using assms(5) c by (auto simp: free_bytes_def)
  qed
  then show ?thesis using assms(2-4) by (simp add: held_block_def)
qed

text \<open>What a call of \<open>malloc\<close> that finds a block of \<open>n\<close> headers does to the heap.\<close>

definition taken :: "uint \<Rightarrow> uheap \<Rightarrow> nat list \<Rightarrow> nat \<Rightarrow> uheap \<Rightarrow> nat list \<Rightarrow> bool" where
  "taken n h bs b h' bs' \<longleftrightarrow>
     heap_ok h' bs' \<and> held_block h' bs' b \<and> hsize h' b = n \<and> brk h' = brk h \<and>
     block h' b \<union> free_bytes h' bs' = free_bytes h bs \<and> block h' b \<inter> free_bytes h' bs' = {} \<and>
     headers_kept (free_bytes h bs \<union> {base_addr h}) h h'"

lemma spaced_block:
  assumes "spaced (hsize h) (xs @ q # ys) e"
  shows "block h q \<inter> free_bytes h (xs @ ys) = {}"
proof -
  have "q + 8 * unat (hsize h q) < b" if "b \<in> set ys" for b
    using spaced_less [of "hsize h" q ys e] assms that by (simp add: spaced_append)
  moreover have "b + 8 * unat (hsize h b) < q" if "b \<in> set xs" for b
    using assms that spaced_end by (force simp: spaced_append)
  ultimately show ?thesis by (fastforce simp: free_bytes_def block_def)
qed

lemma spaced_remove: "spaced g (xs @ q # ys) e \<Longrightarrow> xs \<noteq> [] \<Longrightarrow> spaced g (xs @ ys) e"
proof (induction xs)
  case (Cons x xs)
  show ?case
  proof (cases xs)
    case Nil
    then show ?thesis using Cons(2) by (cases ys) (auto simp: spaced_Cons [of g q])
  next
    case (Cons y zs)
    then show ?thesis using Cons.IH Cons.prems by (auto simp: spaced_Cons [of g x])
  qed
qed simp

lemma heap_pred:
  assumes ok: "heap_ok h bs" and prev: "prev \<in> set (base_addr h # bs)" and q: "hptr h prev = q" "q \<noteq> base_addr h"
  obtains xs ys where "base_addr h # bs = xs @ prev # q # ys"
proof -
  obtain xs zs where z: "base_addr h # bs = xs @ prev # zs" using prev split_list by fast
  have "seg (hptr h) q zs (base_addr h)" using heap_ok_list(2) [OF ok z] q(1) by simp
  then obtain ys where "zs = q # ys" using q(2) by (cases zs) auto
  then show ?thesis using that z by simp
qed

lemma take_whole:
  assumes ok: "heap_ok h bs" and split: "base_addr h # bs = xs @ prev # q # ys"
  shows "\<exists>bs'. taken (hsize h q) h bs q (h\<lparr>hptr := (hptr h)(prev := hptr h q), freep := prev\<rparr>) bs'"
    (is "\<exists>bs'. taken _ _ _ _ ?h bs'")
proof -
  define bs' where "bs' = tl (xs @ prev # ys)"
  have bs': "base_addr h # bs' = xs @ prev # ys" using split by (cases xs) (auto simp: bs'_def)
  have s: "spaced (hsize h) (xs @ prev # q # ys) (brk h)" "seg (hptr h) (base_addr h) (xs @ prev # q # ys) (base_addr h)"
    and o: "hsize h (base_addr h) = 0" "0 < base_addr h" "brk h \<le> 2147483648" "base_addr h + 8 \<le> brk h"
      "\<forall>b \<in> set bs. 0 < hsize h b \<and> base_addr h + 8 \<le> b"
    using ok unfolding heap_ok_def split [symmetric] by blast+
  have d: "distinct (xs @ prev # q # ys)" using spaced_sorted [OF s(1)] strict_sorted_iff by blast
  have q: "q \<in> set bs" using split by (cases xs) auto
  have sub: "set bs' \<subseteq> set bs"
  proof -
    have "distinct (base_addr h # bs')" unfolding bs' using d by auto
    moreover have "set (base_addr h # bs') \<subseteq> set (base_addr h # bs)" unfolding bs' split by auto
    ultimately show ?thesis by auto
  qed
  have "seg (hptr ?h) (base_addr h) (xs @ prev # ys) (base_addr h)"
    using s(2) d by auto
  moreover have "spaced (hsize h) ((xs @ [prev]) @ ys) (brk h)"
    by (rule spaced_remove [of _ _ q]) (use s(1) in simp_all)
  ultimately have ok': "heap_ok ?h bs'" using o sub bs' by (auto simp: heap_ok_def)
  have f: "free_bytes ?h ns = free_bytes h ns" "block ?h c = block h c" for ns c
    by (simp_all add: free_bytes_def block_def)
  have "free_bytes h (base_addr h # bs) = block h q \<union> free_bytes h (base_addr h # bs')"
    unfolding bs' split by auto
  then have un: "block h q \<union> free_bytes h bs' = free_bytes h bs" using o(1) by (simp add: block_def)
  have "block h q \<inter> free_bytes h ((xs @ [prev]) @ ys) = {}" by (rule spaced_block) (use s(1) in simp)
  then have "block h q \<inter> free_bytes h (base_addr h # bs') = {}" unfolding bs' by simp
  then have dj: "block h q \<inter> free_bytes h bs' = {}" by auto
  have "q + 8 * unat (hsize h q) \<le> brk h" using spaced_end [OF s(1)] by simp
  then have held: "held_block ?h bs' q" using ok' o(5) q dj f by (intro held_block_apart) (auto simp: after_block_def)
  have "prev \<in> free_bytes h bs \<union> {base_addr h}"
  proof (cases "prev = base_addr h")
    case False
    have "prev \<in> set (base_addr h # bs)" unfolding split by simp
    then show ?thesis using False o(5) by (force simp: free_bytes_def block_def word_less_nat_alt)
  qed simp
  then have "headers_kept (free_bytes h bs \<union> {base_addr h}) h ?h" by (auto simp: headers_kept_def)
  then show ?thesis using ok' held un dj f by (intro exI [of _ bs']) (simp add: taken_def)
qed

lemma take_end:
  assumes ok: "heap_ok h bs" and q: "q \<in> set bs" and fp: "fp \<in> set (base_addr h # bs)" and n: "0 < n" "n < hsize h q"
  defines "b \<equiv> q + 8 * unat (hsize h q - n)"
  shows "taken n h bs b (h\<lparr>hsize := (hsize h)(q := hsize h q - n, b := n), freep := fp\<rparr>) bs"
    (is "taken _ _ _ _ ?h _")
proof -
  have s: "spaced (hsize h) (base_addr h # bs) (brk h)" "seg (hptr h) (base_addr h) (base_addr h # bs) (base_addr h)"
    and o: "hsize h (base_addr h) = 0" "0 < base_addr h" "brk h \<le> 2147483648" "base_addr h + 8 \<le> brk h"
      "\<forall>b \<in> set bs. 0 < hsize h b \<and> base_addr h + 8 \<le> b"
    using ok unfolding heap_ok_def by blast+
  have u: "unat (hsize h q - n) = unat (hsize h q) - unat n" "0 < unat n" "unat n < unat (hsize h q)"
    using n by (simp_all add: unat_sub less_imp_le word_less_nat_alt [symmetric] unat_gt_0)
  obtain xs ys where bs: "base_addr h # bs = xs @ q # ys" using q split_list [of q "base_addr h # bs"] by auto
  have sp: "spaced (hsize h) (xs @ q # ys) (brk h)" using s(1) bs by simp
  have d: "distinct (base_addr h # bs)" using heap_sorted [OF ok] strict_sorted_iff by blast
  have "b \<in> block h q" "b \<noteq> q" using u by (auto simp: b_def block_def)
  then have nb: "b \<notin> set (xs @ ys)"
  proof -
    have "b \<noteq> c" if c: "c \<in> set (xs @ ys)" for c
    proof (cases "c = base_addr h")
      case True
      then show ?thesis using o(5) q by (auto simp: b_def)
    next
      case False
      then have "c \<in> set bs" using c bs by (metis Un_iff list.set_intros(2) set_ConsD set_append)
      then have "c \<in> block h c" using o(5) by (auto simp: block_def word_less_nat_alt)
      then have "c \<in> free_bytes h (xs @ ys)" using c by (auto simp: free_bytes_def)
      then show ?thesis using spaced_block [OF sp] \<open>b \<in> block h q\<close> by blast
    qed
    then show ?thesis by blast
  qed
  have same: "hsize ?h c = hsize h c" if "c \<in> set (xs @ ys)" for c
    using that nb d unfolding bs by auto
  have hq: "hsize ?h q = hsize h q - n" "hsize ?h b = n" using \<open>b \<noteq> q\<close> by auto
  have "spaced (hsize ?h) (xs @ q # ys) (brk h)"
  proof -
    have x: "spaced (hsize ?h) xs e = spaced (hsize h) xs e" "spaced (hsize ?h) ys e = spaced (hsize h) ys e" for e
      by (rule spaced_cong, rule same, simp)+
    have "spaced (hsize ?h) (q # ys) (brk h)" using sp hq u x
      by (auto simp: spaced_append spaced_Cons [of _ q] split: list.splits simp del: fun_upd_apply)
    then show ?thesis using sp x by (auto simp: spaced_append simp del: fun_upd_apply)
  qed
  then have "spaced (hsize ?h) (base_addr h # bs) (brk h)" unfolding bs .
  moreover have "0 < hsize ?h c" if "c \<in> set bs" for c
    using that o(5) n u by (auto simp: word_less_nat_alt)
  moreover have "base_addr h \<noteq> q" "base_addr h \<noteq> b" using q d o(5) by (auto simp: b_def)
  ultimately have ok': "heap_ok ?h bs" using o s(2) fp unfolding heap_ok_def by auto
  have bl: "block h q = block ?h q \<union> block ?h b" "block ?h q \<inter> block ?h b = {}"
    unfolding block_def hq using u by (auto simp: b_def)
  have f: "free_bytes ?h (xs @ ys) = free_bytes h (xs @ ys)" by (rule free_bytes_cong) (rule same)
  have fb: "free_bytes g (base_addr h # bs) = block g q \<union> free_bytes g (xs @ ys)" for g :: uheap unfolding bs by auto
  have zero: "block ?h (base_addr h) = {}" "block h (base_addr h) = {}"
    using o(1) \<open>base_addr h \<noteq> q\<close> \<open>base_addr h \<noteq> b\<close> by (auto simp: block_def)
  have un: "block ?h b \<union> free_bytes ?h bs = free_bytes h bs" using fb [of ?h] fb [of h] f bl zero by auto
  have dj: "block ?h b \<inter> free_bytes ?h bs = {}"
    using fb [of ?h] f bl zero(1) spaced_block [OF sp] by auto
  have "q + 8 * unat (hsize h q) \<le> brk h" using spaced_end [OF sp] by simp
  then have "held_block ?h bs b" using ok' o(5) q dj n u hq by (intro held_block_apart) (auto simp: after_block_def b_def)
  moreover have "headers_kept (free_bytes h bs \<union> {base_addr h}) h ?h"
  proof -
    have "block h q \<subseteq> free_bytes h bs" using q by (auto simp: free_bytes_def)
    moreover have "q \<in> block h q" using u by (auto simp: block_def)
    ultimately have "q \<in> free_bytes h bs" "b \<in> free_bytes h bs" using \<open>b \<in> block h q\<close> by blast+
    then show ?thesis by (auto simp: headers_kept_def)
  qed
  ultimately show ?thesis using ok' un dj hq(2) unfolding taken_def by simp
qed

lemma malloc_takes:
  assumes ok: "heap_ok h bs" and n: "0 < n" and fit: "\<exists>q \<in> set bs. n \<le> hsize h q"
  shows "\<exists>b h' bs'. malloc_loop grant n (freep h) (hptr h (freep h)) h = Some (b + 8, h') \<and> taken n h bs b h' bs'"
proof -
  have "\<exists>q \<in> set (base_addr h # bs). n \<le> hsize h q" using fit by auto
  from malloc_fits [OF ok this] obtain prev q where
    eq: "malloc_loop grant n (freep h) (hptr h (freep h)) h = malloc_loop grant n prev q h"
    and m: "prev \<in> set (base_addr h # bs)" "q \<in> set (base_addr h # bs)" "hptr h prev = q" "n \<le> hsize h q" by metis
  have qb: "q \<noteq> base_addr h" using m(4) n ok by (auto simp: heap_ok_def)
  show ?thesis
  proof (cases "hsize h q = n")
    case True
    obtain xs ys where "base_addr h # bs = xs @ prev # q # ys" using heap_pred [OF ok m(1,3) qb] .
    from take_whole [OF ok this] show ?thesis
      unfolding eq using True by (subst malloc_loop.simps) auto
  next
    case False
    have "q \<in> set bs" "n < hsize h q" using m(2,4) qb False by auto
    note t = take_end [OF ok this(1) m(1) n this(2)]
    have "malloc_loop grant n prev q h = Some (q + 8 * unat (hsize h q - n) + 8,
        h\<lparr>hsize := (hsize h)(q := hsize h q - n, q + 8 * unat (hsize h q - n) := n), freep := prev\<rparr>)"
      using m(4) False by (subst malloc_loop.simps) (simp add: Let_def after_block_def)
    then show ?thesis unfolding eq using t by blast
  qed
qed

section \<open>More memory\<close>

lemma spaced_mono: "spaced g ns e \<Longrightarrow> e \<le> e' \<Longrightarrow> spaced g ns e'"
  by (induction ns) (auto simp: spaced_Cons split: list.splits)

text \<open>The number of headers that \<open>morecore\<close> asks for.\<close>

definition asked :: "uint \<Rightarrow> uint" where
  "asked nu = (if nu < 4096 then 4096 else nu)"

lemma sint_bytes:
  fixes k :: uint
  assumes "8 * unat k < 2147483648"
  shows "sint (k * 8) = int (8 * unat k)"
proof -
  have "unat (k * 8) = 8 * unat k" using assms by (simp add: unat_word_ariths)
  then have "uint (k * 8) = int (8 * unat k)" by (metis uint_nat)
  moreover have "int (8 * unat k) < 2147483648" using assms by linarith
  ultimately show ?thesis by (simp only: sint_uint32 if_True)
qed

lemma usbrk_nat:
  assumes "0 < m"
  shows "usbrk grant (int m) h =
    (if 2147483648 \<le> brk h + m \<or> \<not> grant (brk h) (int m) then (None, h) else (Some (brk h), h\<lparr>brk := brk h + m\<rparr>))"
proof -
  have "int (brk h) + int m = int (brk h + m)" by simp
  then show ?thesis using assms unfolding usbrk_def Let_def by (simp only: nat_int) auto
qed

text \<open>The heap with the new memory as one more block.\<close>

definition grown :: "uint \<Rightarrow> uheap \<Rightarrow> uheap" where
  "grown k h = h\<lparr>brk := brk h + 8 * unat k, hsize := (hsize h)(brk h := k)\<rparr>"

lemma grown_ok:
  assumes ok: "heap_ok h bs" and k: "brk h + 8 * unat k \<le> 2147483648" "0 < k"
  shows "heap_ok (grown k h) bs" "held_block (grown k h) bs (brk h)" "free_bytes (grown k h) bs = free_bytes h bs"
proof -
  have s: "spaced (hsize h) (base_addr h # bs) (brk h)" "base_addr h + 8 \<le> brk h"
    and p: "\<forall>b \<in> set bs. 0 < hsize h b" using ok unfolding heap_ok_def by blast+
  have less: "b < brk h" "after_block b h \<le> brk h" if "b \<in> set bs" for b
    using spaced_end [OF s(1), of b] bspec [OF p that] that by (auto simp: word_less_nat_alt after_block_def)
  have g: "hsize (grown k h) b = hsize h b" if "b \<noteq> brk h" for b using that by (simp add: grown_def)
  have nb: "b \<noteq> brk h" if "b \<in> set (base_addr h # bs)" for b using less(1) s(2) that by auto
  have "spaced (hsize (grown k h)) (base_addr h # bs) (brk h) = spaced (hsize h) (base_addr h # bs) (brk h)"
    by (rule spaced_cong) (rule g [OF nb])
  then have "spaced (hsize (grown k h)) (base_addr h # bs) (brk h + 8 * unat k)"
    using spaced_mono s(1) le_add1 by blast
  then show "heap_ok (grown k h) bs" using ok k g [OF nb] unfolding heap_ok_def by (simp add: grown_def)
  have "after_block b (grown k h) \<le> brk h" if "b \<in> set bs" for b
    using less(2) [OF that] g [OF nb, of b] that by (simp add: after_block_def)
  then show "held_block (grown k h) bs (brk h)" using s(2) k(2) by (simp add: held_block_def grown_def after_block_def)
  show "free_bytes (grown k h) bs = free_bytes h bs" by (rule free_bytes_cong) (simp add: g nb)
qed

lemma morecore_ok:
  assumes ok: "heap_ok h bs" and n: "8 * unat nu < 2147483648"
  shows "morecore grant nu h = Some (0, h) \<and> (2147483648 \<le> brk h + 8 * unat (asked nu) \<or> \<not> grant (brk h) (int (8 * unat (asked nu)))) \<or>
    (\<exists>h' bs'. morecore grant nu h = Some (freep h', h') \<and> 0 < freep h' \<and> heap_ok h' bs' \<and>
       brk h' = brk h + 8 * unat (asked nu) \<and> free_bytes h' bs' = free_bytes h bs \<union> {brk h..<brk h'} \<and>
       (\<exists>b \<in> set bs'. nu \<le> hsize h' b) \<and> headers_kept (free_bytes h bs \<union> {base_addr h, brk h}) h h')"
proof -
  define k where "k = asked nu"
  have k: "8 * unat k < 2147483648" "0 < k" "nu \<le> k"
    using n by (auto simp: k_def asked_def word_less_nat_alt word_le_nat_alt)
  have "0 < 8 * unat k" using k(2) by (simp add: word_less_nat_alt)
  note u = usbrk_nat [OF this, of grant h, folded sint_bytes [OF k(1)]]
  show ?thesis
  proof (cases "2147483648 \<le> brk h + 8 * unat k \<or> \<not> grant (brk h) (sint (k * 8))")
    case True
    then have "usbrk grant (sint (k * 8)) h = (None, h)" using u by simp
    then show ?thesis using True sint_bytes [OF k(1)] by (simp add: morecore_def k_def asked_def)
  next
    case False
    have u: "usbrk grant (sint (k * 8)) h = (Some (brk h), h\<lparr>brk := brk h + 8 * unat k\<rparr>)"
      using u False by simp
    have b: "brk h + 8 * unat k \<le> 2147483648" using False by simp
    note g = grown_ok [OF ok b k(2)]
    obtain h2 bs2 where h2: "ufree (brk h + 8) (grown k h) = Some h2" "heap_ok h2 bs2"
      "free_bytes h2 bs2 = free_bytes (grown k h) bs \<union> block (grown k h) (brk h)" "brk h2 = brk (grown k h)"
      "headers_kept (set (brk h # base_addr (grown k h) # bs)) (grown k h) h2"
      "\<exists>b \<in> set bs2. hsize (grown k h) (brk h) \<le> hsize h2 b"
      using ufree_ok [OF g(1,2)] by metis
    have m: "morecore grant nu h = Some (freep h2, h2)"
      using u h2(1) by (simp add: morecore_def k_def [unfolded asked_def, symmetric] grown_def)
    have "0 < freep h2" using h2(2) by (auto simp: heap_ok_def)
    moreover have "set bs \<subseteq> free_bytes h bs"
      using ok by (force simp: heap_ok_def free_bytes_def block_def word_less_nat_alt)
    then have "headers_kept (free_bytes h bs \<union> {base_addr h, brk h}) h h2"
      using h2(5) by (auto simp: headers_kept_def grown_def)
    moreover have "\<exists>b \<in> set bs2. nu \<le> hsize h2 b" using h2(6) k(3) by (auto simp: grown_def intro: order_trans)
    moreover have "block (grown k h) (brk h) = {brk h..<brk h2}" "brk h2 = brk h + 8 * unat (asked nu)"
      using h2(4) by (simp_all add: block_def grown_def k_def)
    ultimately show ?thesis using m h2(2,3) unfolding g(3) by blast
  qed
qed

section \<open>One call of malloc\<close>

definition opened :: "uheap \<Rightarrow> uheap" where
  "opened h =
     (if freep h = 0
      then h\<lparr>hptr := (hptr h)(base_addr h := base_addr h), freep := base_addr h, hsize := (hsize h)(base_addr h := 0)\<rparr>
      else h)"

text \<open>A request that fits into a 32-bit \<open>int\<close> with its header.\<close>

definition request_ok :: "uint \<Rightarrow> bool" where
  "request_ok nbytes \<longleftrightarrow> unat nbytes \<le> 0x7FFFFFF0"

lemma unat_nunits:
  assumes "request_ok nbytes"
  shows "unat (nunits_for nbytes) = (unat nbytes + 7) div 8 + 1"
proof -
  have b: "unat nbytes \<le> 2147483632" using assms by (simp add: request_ok_def)
  have "nbytes + 8 - 1 = nbytes + 7" by simp
  moreover have "unat (nbytes + 7) = unat nbytes + 7" using b by (simp add: unat_word_ariths)
  ultimately show ?thesis using b by (simp add: nunits_for_def unat_word_ariths unat_div)
qed

lemma nunits_for_ok:
  assumes "request_ok nbytes"
  shows "unat nbytes + 8 \<le> 8 * unat (nunits_for nbytes)" "8 * unat (nunits_for nbytes) < 2147483648" "0 < nunits_for nbytes"
  using unat_nunits [OF assms] assms by (simp_all add: request_ok_def word_less_nat_alt)

text \<open>
  The result of a call that gives a block at \<open>b\<close>: its memory was free or is new, the rest of that stays
  free, and no header of another block has changed.
\<close>

definition gives_block :: "uint \<Rightarrow> uheap \<Rightarrow> nat list \<Rightarrow> nat \<Rightarrow> uheap \<Rightarrow> nat list \<Rightarrow> bool" where
  "gives_block n h bs b h' bs' \<longleftrightarrow>
     heap_ok h' bs' \<and> held_block h' bs' b \<and> hsize h' b = n \<and> brk h \<le> brk h' \<and>
     block h' b \<union> free_bytes h' bs' = free_bytes h bs \<union> {brk h..<brk h'} \<and> block h' b \<inter> free_bytes h' bs' = {} \<and>
     headers_kept (free_bytes h bs \<union> {brk h..<brk h'} \<union> {base_addr h}) h h'"

definition no_room :: "(nat \<Rightarrow> int \<Rightarrow> bool) \<Rightarrow> uint \<Rightarrow> uheap \<Rightarrow> nat list \<Rightarrow> bool" where
  "no_room grant n h bs \<longleftrightarrow>
     (\<forall>b \<in> set bs. hsize h b < n) \<and>
     (2147483648 \<le> brk h + 8 * unat (asked n) \<or> \<not> grant (brk h) (int (8 * unat (asked n))))"

lemma taken_gives: "taken n h bs b h' bs' \<Longrightarrow> gives_block n h bs b h' bs'"
  by (simp add: taken_def gives_block_def)

lemma malloc_call:
  assumes ok: "heap_ok (opened h) bs" and nb: "request_ok nbytes"
  shows "umalloc grant nbytes h = Some (0, opened h) \<and> no_room grant (nunits_for nbytes) (opened h) bs \<or>
    (\<exists>b h' bs'. umalloc grant nbytes h = Some (b + 8, h') \<and> gives_block (nunits_for nbytes) (opened h) bs b h' bs')"
proof -
  define n where "n = nunits_for nbytes"
  define g where "g = opened h"
  note n = nunits_for_ok [OF nb, folded n_def]
  have eq: "umalloc grant nbytes h = malloc_loop grant n (freep g) (hptr g (freep g)) g"
    by (simp add: umalloc_def opened_def g_def n_def)
  have ok: "heap_ok g bs" using ok by (simp add: g_def)
  show ?thesis
  proof (cases "\<exists>q \<in> set bs. n \<le> hsize g q")
    case True
    then show ?thesis using malloc_takes [OF ok n(3)] taken_gives unfolding eq n_def g_def by blast
  next
    case False
    have "hsize g (base_addr g) = 0" using ok by (simp add: heap_ok_def)
    then have no: "\<forall>q \<in> set (base_addr g # bs). hsize g q < n" using False n(3) by auto
    note l = malloc_no_fit [OF ok no, of grant]
    show ?thesis
    proof (rule disjE [OF morecore_ok [OF ok n(2), of grant]])
      assume "morecore grant n g = Some (0, g) \<and> (2147483648 \<le> brk g + 8 * unat (asked n) \<or> \<not> grant (brk g) (int (8 * unat (asked n))))"
      then show ?thesis using l no unfolding eq no_room_def n_def g_def by simp
    next
      assume "\<exists>h' bs'. morecore grant n g = Some (freep h', h') \<and> 0 < freep h' \<and> heap_ok h' bs' \<and>
         brk h' = brk g + 8 * unat (asked n) \<and> free_bytes h' bs' = free_bytes g bs \<union> {brk g..<brk h'} \<and>
         (\<exists>b \<in> set bs'. n \<le> hsize h' b) \<and> headers_kept (free_bytes g bs \<union> {base_addr g, brk g}) g h'"
      then obtain h1 bs1 where m: "morecore grant n g = Some (freep h1, h1)" "0 < freep h1" "heap_ok h1 bs1"
        "brk h1 = brk g + 8 * unat (asked n)" "free_bytes h1 bs1 = free_bytes g bs \<union> {brk g..<brk h1}"
        "\<exists>b \<in> set bs1. n \<le> hsize h1 b" "headers_kept (free_bytes g bs \<union> {base_addr g, brk g}) g h1" by blast
      obtain b h' bs' where t: "malloc_loop grant n (freep h1) (hptr h1 (freep h1)) h1 = Some (b + 8, h')" "taken n h1 bs1 b h' bs'"
        using malloc_takes [OF m(3) n(3) m(6), of grant] by blast
      have "brk g < brk h1" using m(4) by (simp add: asked_def word_less_nat_alt)
      then have sub: "free_bytes g bs \<union> {base_addr g, brk g} \<subseteq> free_bytes h1 bs1 \<union> {base_addr g}" using m(5) by auto
      have "headers_kept (free_bytes h1 bs1 \<union> {base_addr g}) g h'"
        using t(2) m(7) sub unfolding taken_def headers_kept_def by auto
      then have "gives_block n g bs b h' bs'" using t(2) m(5) \<open>brk g < brk h1\<close> unfolding taken_def gives_block_def by simp
      then show ?thesis using l m(1,2) t(1) unfolding eq n_def g_def by auto
    qed
  qed
qed

section \<open>Programs that allocate and free\<close>

text \<open>The state when a program starts; after its first call \<open>freep\<close> is set.\<close>

definition fresh_heap :: "uheap \<Rightarrow> bool" where
  "fresh_heap h \<longleftrightarrow> freep h = 0 \<and> 0 < base_addr h \<and> base_addr h + 8 \<le> brk h \<and> brk h \<le> 2147483648"

text \<open>
  Any sequence of calls: \<open>live\<close> maps the address of an allocated block to its size, \<open>grant\<close> may answer differently each time.
  Only live blocks are freed, and a program does not move the end of its memory by itself.
\<close>

inductive malloc_run :: "uheap \<Rightarrow> (nat \<rightharpoonup> uint) \<Rightarrow> bool" where
  start: "fresh_heap h \<Longrightarrow> malloc_run h Map.empty"
| malloc: "malloc_run h live \<Longrightarrow> request_ok nbytes \<Longrightarrow> umalloc grant nbytes h = Some (a, h') \<Longrightarrow>
    malloc_run h' (if a = 0 then live else live(a \<mapsto> nbytes))"
| free: "malloc_run h live \<Longrightarrow> live a = Some nbytes \<Longrightarrow> ufree a h = Some h' \<Longrightarrow> malloc_run h' (live(a := None))"

definition live_ok :: "uheap \<Rightarrow> nat list \<Rightarrow> (nat \<rightharpoonup> uint) \<Rightarrow> bool" where
  "live_ok h bs live \<longleftrightarrow>
     heap_ok h bs \<and>
     (\<forall>a n. live a = Some n \<longrightarrow> 8 \<le> a \<and> held_block h bs (a - 8) \<and> unat n + 8 \<le> 8 * unat (hsize h (a - 8))) \<and>
     (\<forall>a b. a \<in> dom live \<and> b \<in> dom live \<and> a \<noteq> b \<longrightarrow> block h (a - 8) \<inter> block h (b - 8) = {})"

lemma live_okD:
  assumes "live_ok h bs live"
  shows "heap_ok h bs" "live a = Some n \<Longrightarrow> 8 \<le> a" "live a = Some n \<Longrightarrow> held_block h bs (a - 8)"
    "live a = Some n \<Longrightarrow> unat n + 8 \<le> 8 * unat (hsize h (a - 8))"
    "a \<in> dom live \<Longrightarrow> b \<in> dom live \<Longrightarrow> a \<noteq> b \<Longrightarrow> block h (a - 8) \<inter> block h (b - 8) = {}"
  using assms by (auto simp: live_ok_def)

lemma held_block_ends:
  assumes "held_block h bs b"
  shows "block h b \<inter> free_bytes h bs = {}" "block h b \<subseteq> {base_addr h + 8..<brk h}" "b \<in> block h b" "0 < hsize h b"
  using assms by (fastforce simp: held_block_def block_def free_bytes_def after_block_def word_less_nat_alt)+

text \<open>A block that a call has not touched.\<close>

lemma held_block_kept:
  assumes "heap_ok h' bs'" "held_block h bs c" "headers_kept W h h'" "c \<notin> W" "brk h \<le> brk h'" "free_bytes h' bs' \<inter> block h c = {}"
  shows "held_block h' bs' c \<and> hsize h' c = hsize h c \<and> block h' c = block h c"
proof -
  have s: "hsize h' c = hsize h c" "base_addr h' = base_addr h" using assms(3,4) by (auto simp: headers_kept_def)
  then have b: "block h' c = block h c" by (intro block_cong)
  have "held_block h' bs' c" using assms(1,2,5,6) s b
    by (intro held_block_apart) (auto simp: held_block_def after_block_def)
  then show ?thesis using s b by blast
qed

lemma live_ok_malloc:
  assumes l: "live_ok h bs live" and g: "gives_block (nunits_for nbytes) h bs b h' bs'" and nb: "request_ok nbytes"
  shows "live_ok h' bs' (live(b + 8 \<mapsto> nbytes))"
proof -
  let ?W = "free_bytes h bs \<union> {brk h..<brk h'}"
  have g': "heap_ok h' bs'" "held_block h' bs' b" "hsize h' b = nunits_for nbytes" "brk h \<le> brk h'"
    "block h' b \<union> free_bytes h' bs' = ?W" "headers_kept (?W \<union> {base_addr h}) h h'"
    using g by (simp_all add: gives_block_def)
  have old: "held_block h' bs' (a - 8) \<and> hsize h' (a - 8) = hsize h (a - 8) \<and> block h' (a - 8) = block h (a - 8) \<and>
      block h (a - 8) \<inter> block h' b = {}" if "live a = Some n" for a n
  proof -
    note c = held_block_ends [OF live_okD(3) [OF l that]]
    have d: "block h (a - 8) \<inter> ?W = {}" using c(1,2) by auto
    have "a - 8 \<notin> ?W \<union> {base_addr h}" using c(2,3) d by auto
    moreover have "free_bytes h' bs' \<inter> block h (a - 8) = {}" "block h (a - 8) \<inter> block h' b = {}" using d g'(5) by blast+
    ultimately show ?thesis using held_block_kept [OF g'(1) live_okD(3) [OF l that] g'(6) _ g'(4)] by blast
  qed
  have "block h' (a - 8) \<inter> block h' (c - 8) = {}"
    if ac: "a \<in> dom (live(b + 8 \<mapsto> nbytes))" "c \<in> dom (live(b + 8 \<mapsto> nbytes))" "a \<noteq> c" for a c
  proof -
    have new: "block h' (x - 8) \<inter> block h' b = {}" if "x \<in> dom live" for x
      using old that by (metis domD)
    have two: "block h' (a - 8) \<inter> block h' (c - 8) = {}" if "a \<in> dom live" "c \<in> dom live"
      using old live_okD(5) [OF l that ac(3)] that by (metis domD)
    consider "a = b + 8" "c \<in> dom live" | "c = b + 8" "a \<in> dom live" | "a \<in> dom live" "c \<in> dom live"
      using ac by auto
    then show ?thesis
    proof cases
      case 1
      then show ?thesis using new [of c] by (simp add: Int_commute)
    next
      case 2
      then show ?thesis using new [of a] by simp
    qed (rule two)
  qed
  then show ?thesis using g'(1-3) old live_okD(2,4) [OF l] nunits_for_ok(1) [OF nb] by (auto simp: live_ok_def)
qed

lemma live_ok_free:
  assumes l: "live_ok h bs live" and a: "live a = Some nbytes"
  obtains h' bs' where "ufree a h = Some h'" "live_ok h' bs' (live(a := None))"
    "free_bytes h' bs' = free_bytes h bs \<union> block h (a - 8)"
proof -
  have a8: "a - 8 + 8 = a" using live_okD(2) [OF l a] by simp
  obtain h' bs' where h': "ufree a h = Some h'" "heap_ok h' bs'" "free_bytes h' bs' = free_bytes h bs \<union> block h (a - 8)"
    "brk h' = brk h" "headers_kept (set ((a - 8) # base_addr h # bs)) h h'"
    using ufree_ok [OF live_okD(1) [OF l] live_okD(3) [OF l a]] unfolding a8 by blast
  have old: "held_block h' bs' (c - 8) \<and> hsize h' (c - 8) = hsize h (c - 8) \<and> block h' (c - 8) = block h (c - 8)"
    if c: "live c = Some n" "c \<noteq> a" for c n
  proof -
    note e = held_block_ends [OF live_okD(3) [OF l c(1)]]
    have d: "block h (c - 8) \<inter> block h (a - 8) = {}" using live_okD(5) [OF l] a c by blast
    have "b \<in> free_bytes h bs" if "b \<in> set bs" for b
      using that live_okD(1) [OF l] by (force simp: heap_ok_def free_bytes_def block_def word_less_nat_alt)
    then have "c - 8 \<notin> set bs" using e(1,3) by blast
    moreover have "c - 8 \<noteq> a - 8" using d e(3) by auto
    moreover have "c - 8 \<noteq> base_addr h" using e(2,3) by auto
    ultimately have "c - 8 \<notin> set ((a - 8) # base_addr h # bs)" by simp
    moreover have "free_bytes h' bs' \<inter> block h (c - 8) = {}" using e(1) d h'(3) by blast
    ultimately show ?thesis using held_block_kept [OF h'(2) live_okD(3) [OF l c(1)] h'(5)] h'(4) by simp
  qed
  have "live_ok h' bs' (live(a := None))"
    unfolding live_ok_def
  proof (intro conjI allI impI)
    fix c n assume "(live(a := None)) c = Some n"
    then have c: "live c = Some n" "c \<noteq> a" by (auto split: if_splits)
    show "8 \<le> c" using live_okD(2) [OF l c(1)] .
    show "held_block h' bs' (c - 8)" using old [OF c] by blast
    show "unat n + 8 \<le> 8 * unat (hsize h' (c - 8))" using old [OF c] live_okD(4) [OF l c(1)] by simp
  next
    fix c d assume "c \<in> dom (live(a := None)) \<and> d \<in> dom (live(a := None)) \<and> c \<noteq> d"
    then have c: "c \<in> dom live" "d \<in> dom live" "c \<noteq> a" "d \<noteq> a" "c \<noteq> d" by auto
    then show "block h' (c - 8) \<inter> block h' (d - 8) = {}" using old live_okD(5) [OF l c(1,2,5)] by (metis domD)
  qed (rule h'(2))
  then show ?thesis using that h'(1,3) by blast
qed

text \<open>What every program keeps.\<close>

lemma malloc_run_ok:
  assumes "malloc_run h live"
  shows "\<exists>bs. live_ok (opened h) bs live \<and> (live \<noteq> Map.empty \<longrightarrow> opened h = h)"
  using assms
proof (induction rule: malloc_run.induct)
  case (start h)
  then have "heap_ok (opened h) []" by (simp add: fresh_heap_def heap_ok_def opened_def)
  then show ?case by (auto simp: live_ok_def)
next
  case (malloc h live nbytes grant a h')
  then obtain bs where l: "live_ok (opened h) bs live" by blast
  have nz: "opened g = g" if "heap_ok g cs" for g cs using that by (auto simp: opened_def heap_ok_def)
  show ?case
  proof (rule disjE [OF malloc_call [OF live_okD(1) [OF l] malloc(2), of grant]])
    assume "umalloc grant nbytes h = Some (0, opened h) \<and> no_room grant (nunits_for nbytes) (opened h) bs"
    then have "a = 0" "h' = opened h" using malloc(3) by auto
    then show ?thesis using l nz [OF live_okD(1) [OF l]] by auto
  next
    assume "\<exists>b h' bs'. umalloc grant nbytes h = Some (b + 8, h') \<and> gives_block (nunits_for nbytes) (opened h) bs b h' bs'"
    then obtain b bs' where b: "a = b + 8" "gives_block (nunits_for nbytes) (opened h) bs b h' bs'" using malloc(3) by auto
    have "live_ok h' bs' (live(a \<mapsto> nbytes))" using live_ok_malloc [OF l b(2) malloc(2)] b(1) by simp
    moreover from this have "opened h' = h'" by (rule nz [OF live_okD(1)])
    moreover have "a \<noteq> 0" using b(1) by simp
    ultimately show ?thesis by (metis)
  qed
next
  case (free h live a nbytes h')
  then obtain bs where "live_ok h bs live" by fastforce
  from live_ok_free [OF this free(2)] obtain bs' where l: "live_ok h' bs' (live(a := None))" using free(3) by fastforce
  then have "opened h' = h'" using live_okD(1) by (fastforce simp: opened_def heap_ok_def)
  then show ?case using l by metis
qed


text \<open>
  C37: Freed memory is used again.  After \<open>free\<close> of a live block a request of at most the same size succeeds without
  asking the kernel for memory, wherever the search starts and whatever else is allocated.
\<close>

theorem malloc_reuses:
  assumes "malloc_run h live" "live a = Some n" "request_ok m" "m \<le> n"
  shows "\<exists>h1 b h2. ufree a h = Some h1 \<and> umalloc grant m h1 = Some (b + 8, h2) \<and> brk h2 = brk h"
proof -
  obtain bs where "live_ok (opened h) bs live" "live \<noteq> Map.empty \<longrightarrow> opened h = h"
    using malloc_run_ok [OF assms(1)] by blast
  then have l: "live_ok h bs live" using assms(2) by auto
  have "a - 8 + 8 = a" using live_okD(2) [OF l assms(2)] by simp
  then obtain h1 bs1 where h1: "ufree a h = Some h1" "heap_ok h1 bs1" "brk h1 = brk h" "\<exists>b \<in> set bs1. hsize h (a - 8) \<le> hsize h1 b"
    using ufree_ok [OF live_okD(1) [OF l] live_okD(3) [OF l assms(2)]] by metis
  have "unat m + 8 \<le> 8 * unat (hsize h (a - 8))" using live_okD(4) [OF l assms(2)] assms(4) by (simp add: word_le_nat_alt)
  moreover have "unat (nunits_for m) = (unat m + 7) div 8 + 1" by (rule unat_nunits [OF assms(3)])
  ultimately have "nunits_for m \<le> hsize h (a - 8)" by (simp add: word_le_nat_alt)
  then have fit: "\<exists>b \<in> set bs1. nunits_for m \<le> hsize h1 b" using h1(4) order_trans by blast
  obtain b h2 bs2 where t: "malloc_loop grant (nunits_for m) (freep h1) (hptr h1 (freep h1)) h1 = Some (b + 8, h2)"
    "taken (nunits_for m) h1 bs1 b h2 bs2"
    using malloc_takes [OF h1(2) nunits_for_ok(3) [OF assms(3)] fit, of grant] by blast
  have "freep h1 \<noteq> 0" using h1(2) by (auto simp: heap_ok_def)
  then have "umalloc grant m h1 = Some (b + 8, h2)" using t(1) by (simp add: umalloc_def)
  then show ?thesis using h1(1,3) t(2) by (auto simp: taken_def)
qed

text \<open>A program with two blocks of 10 and 20 bytes.\<close>

definition start_heap :: uheap where
  "start_heap = \<lparr>hptr = (\<lambda>_. 0), hsize = (\<lambda>_. 0), base_addr = 8, freep = 0, brk = 16\<rparr>"

definition two_blocks :: uheap where
  "two_blocks = \<lparr>hptr = (\<lambda>_. 0)(8 := 16, 16 := 8), hsize = (\<lambda>_. 0)(8 := 0, 16 := 4089, 32760 := 3, 32728 := 4),
     base_addr = 8, freep = 8, brk = 32784\<rparr>"

lemma two_blocks_run: "malloc_run two_blocks [32768 \<mapsto> 10, 32736 \<mapsto> 20]"
proof -
  let ?g = "\<lambda>_ _. True"
  have s: "malloc_run start_heap Map.empty" by (rule malloc_run.start) (simp add: fresh_heap_def start_heap_def)
  define h1 where "h1 = \<lparr>hptr = (\<lambda>_. 0)(8 := 16, 16 := 8), hsize = (\<lambda>_. 0)(8 := 0, 16 := 4093, 32760 := 3),
     base_addr = 8, freep = 8, brk = 32784\<rparr>"
  have m1: "umalloc ?g 10 start_heap = Some (32768, h1)"
    by (simp add: umalloc_def start_heap_def nunits_for_def malloc_loop.simps free_place.simps morecore_def usbrk_def
        ufree_def join_left_def join_right_def after_block_def h1_def Let_def fun_eq_iff)
  have m2: "umalloc ?g 20 h1 = Some (32736, two_blocks)"
    by (simp add: umalloc_def two_blocks_def nunits_for_def malloc_loop.simps after_block_def h1_def Let_def fun_eq_iff)
  have "malloc_run h1 [32768 \<mapsto> 10]" using malloc_run.malloc [OF s _ m1] by (simp add: request_ok_def)
  from malloc_run.malloc [OF this _ m2] show ?thesis by (simp add: request_ok_def)
qed


theorem malloc_reuses_witness:
  "\<exists>h1 b h2. ufree 32736 two_blocks = Some h1 \<and> umalloc (\<lambda>_ _. False) 20 h1 = Some (b + 8, h2) \<and> brk h2 = 32784"
  using malloc_reuses [OF two_blocks_run, of 32736 20 20 "\<lambda>_ _. False"] by (simp add: request_ok_def two_blocks_def)

end
