(* ===== verification/Xv6_Shellrun.thy ===== *)
theory Xv6_Shellrun
  imports Xv6_Shellwords
begin

text \<open>
  Running command lines (\<open>sh.c\<close>): \<open>main\<close> with its built-in commands, and \<open>runcmd\<close>.  A process of the
  shell is the list of what it does; a fork holds the list of the child, an exec and a wait the descriptors the process has
  then.  What the system calls answer is given by a record
  of functions; the descriptors are tables as the kernel keeps them, filled from the lowest free entry.
\<close>

section \<open>Descriptors and system calls\<close>

text \<open>What a descriptor refers to: pipes are named by the place of their command in the line.\<close>

datatype chan = Console | Opened string int | Rd "nat list" | Wr "nat list"

type_synonym fdtab = "chan option list"

definition sh_close :: "int \<Rightarrow> fdtab \<Rightarrow> fdtab" where
  "sh_close fd t = (if 0 \<le> fd then t[nat fd := None] else t)"

definition lowest :: "chan \<Rightarrow> fdtab \<Rightarrow> (nat \<times> fdtab) option" where
  "lowest x t = map_option (\<lambda>fd. (fd, t[fd := Some x])) (scan (\<lambda>y. y = None) t)"

definition sh_dup :: "nat \<Rightarrow> fdtab \<Rightarrow> fdtab" where
  "sh_dup fd t = (case t ! fd of None \<Rightarrow> t | Some x \<Rightarrow> (case lowest x t of None \<Rightarrow> t | Some (_, u) \<Rightarrow> u))"

text \<open>
  The answers of the system, for the process at a place: whether a file can be opened, a program executed, a process forked, a pipe
  made, a directory entered, a file's mode changed, a call blocked or unblocked, the history printed.
\<close>

record answers =
  opens :: "nat list \<Rightarrow> string \<Rightarrow> int \<Rightarrow> bool"
  forks :: "nat list \<Rightarrow> bool"
  pipes :: "nat list \<Rightarrow> bool"
  execs :: "nat list \<Rightarrow> string list \<Rightarrow> bool"
  chdirs :: "nat \<Rightarrow> string \<Rightarrow> bool"
  chmods :: "nat \<Rightarrow> string \<Rightarrow> int \<Rightarrow> bool"
  blocks :: "nat \<Rightarrow> int \<Rightarrow> bool"
  unblocks :: "nat \<Rightarrow> int \<Rightarrow> bool"
  histories :: "nat \<Rightarrow> bool"

text \<open>A message is the format and the arguments of the call of \<open>printf\<close>.\<close>

datatype printed = Str string | Num int

datatype act =
    Exec "string list" fdtab
  | Print nat string "printed list"
  | Fork "act list"
  | Wait fdtab
  | Chdir string
  | Chmod string int
  | Block int
  | Unblock int
  | History
  | Exit

definition message :: "nat \<Rightarrow> string \<Rightarrow> printed list \<Rightarrow> act" where
  "message fd fmt args = Print fd (fmt @ [CHR 0x0A]) args"

definition sh_panic :: "string \<Rightarrow> act list" where
  "sh_panic s = [message 2 ''%s'' [Str s], Exit]"

text \<open>\<open>fork1\<close>, then the rest of the parent.\<close>

definition fork1 :: "answers \<Rightarrow> nat list \<Rightarrow> act list \<Rightarrow> act list \<Rightarrow> act list" where
  "fork1 env path child parent = (if forks env path then Fork child # parent else sh_panic ''fork'')"

section \<open>runcmd\<close>

fun runcmd :: "answers \<Rightarrow> nat list \<Rightarrow> string cmd \<Rightarrow> fdtab \<Rightarrow> act list" where
  "runcmd env path (EXEC argv) t =
     (if argv = [] then [Exit]
      else Exec argv t # (if execs env path argv then [] else [message 2 ''exec %s failed'' [Str (hd argv)], Exit]))"
| "runcmd env path (REDIR c file mode fd) t =
     (let t = sh_close fd t
      in case (if opens env path file mode then lowest (Opened file mode) t else None) of
           None \<Rightarrow> [message 2 ''open %s failed'' [Str file], Exit]
         | Some (_, t) \<Rightarrow> runcmd env (path @ [0]) c t)"
| "runcmd env path (LIST c d) t =
     fork1 env (path @ [0]) (runcmd env (path @ [0]) c t) (Wait t # runcmd env (path @ [1]) d t)"
| "runcmd env path (PIPE c d) t =
     (case (if pipes env path then lowest (Rd path) t else None) of
        None \<Rightarrow> sh_panic ''pipe''
      | Some (p0, t1) \<Rightarrow>
          (case lowest (Wr path) t1 of
             None \<Rightarrow> sh_panic ''pipe''
           | Some (p1, t2) \<Rightarrow>
               let ends = (\<lambda>t. sh_close (int p1) (sh_close (int p0) t))
               in fork1 env (path @ [0]) (runcmd env (path @ [0]) c (ends (sh_dup p1 (sh_close 1 t2))))
                 (fork1 env (path @ [1]) (runcmd env (path @ [1]) d (ends (sh_dup p0 (sh_close 0 t2))))
                   [Wait (ends t2), Wait (ends t2), Exit])))"
| "runcmd env path (BACK c) t = fork1 env (path @ [0]) (runcmd env (path @ [0]) c t) [Exit]"

section \<open>The built-in commands\<close>

text \<open>The line is the whole buffer: past the text there are zeros.  The \<open>n\<close>-th line of the shell.\<close>

definition builtin_history :: "answers \<Rightarrow> nat \<Rightarrow> act list" where
  "builtin_history env n = History # (if histories env n then [] else [message 2 ''Error getting history'' []])"

definition builtin_block :: "answers \<Rightarrow> nat \<Rightarrow> string \<Rightarrow> act list" where
  "builtin_block env n buf =
     (let k = atoi (drop 6 buf)
      in Block k # (if blocks env n k then [message 1 ''Blocked syscall %d'' [Num k]]
                    else [message 2 ''Error blocking syscall %d'' [Num k]]))"

definition builtin_unblock :: "answers \<Rightarrow> nat \<Rightarrow> string \<Rightarrow> act list" where
  "builtin_unblock env n buf =
     (let k = atoi (drop 8 buf)
      in Unblock k # (if unblocks env n k then [message 1 ''Unblocked syscall %d'' [Num k]]
                      else [message 2 ''Error unblocking syscall %d'' [Num k]]))"

definition delims :: string where "delims = [CHR '' '', CHR 0x0A]"

definition builtin_chmod :: "answers \<Rightarrow> nat \<Rightarrow> string \<Rightarrow> act list" where
  "builtin_chmod env n buf =
     (let (_, nt) = strtok_xv6 None (Some buf) delims;
          (filename, nt) = strtok_xv6 nt None delims;
          (mode_str, nt) = strtok_xv6 nt None delims
      in case (filename, mode_str) of
           (Some f, Some m) \<Rightarrow>
             Chmod f (atoi m) # (if chmods env n f (atoi m) then [] else [message 2 ''Operation failed'' []])
         | _ \<Rightarrow> [message 2 ''Usage: chmod filename mode'' []])"

section \<open>main\<close>

text \<open>Until a descriptor above 2 comes back, which is closed again.\<close>

lemma lowest_fills:
  assumes "lowest x t = Some (fd, u)"
  shows "length (filter (\<lambda>y. y = None) u) < length (filter (\<lambda>y. y = None) t)"
proof -
  have fd: "fd < length t" "t ! fd = None" "u = t[fd := Some x]"
    using assms by (auto simp: lowest_def scan_Some)
  define a b where "a = take fd t" and "b = drop (Suc fd) t"
  have "t = a @ None # b" unfolding a_def b_def using id_take_nth_drop [OF fd(1)] fd(2) by simp
  moreover have "u = a @ Some x # b" unfolding a_def b_def using fd by (simp add: upd_conv_take_nth_drop)
  ultimately show ?thesis by simp
qed

function open_console :: "answers \<Rightarrow> fdtab \<Rightarrow> fdtab" where
  "open_console env t =
     (case (if opens env [] ''console'' 2 then lowest Console t else None) of
        None \<Rightarrow> t
      | Some (fd, u) \<Rightarrow> if 3 \<le> fd then sh_close (int fd) u else open_console env u)"
  by pat_completeness auto
termination
  by (relation "measure (\<lambda>(env, t). length (filter (\<lambda>y. y = None) t))")
    (auto split: if_splits dest: lowest_fills)

declare open_console.simps [simp del]

text \<open>The words as \<open>exec\<close> gets them: the C strings in the line after \<open>nulterminate\<close>.\<close>

definition words_in :: "string \<Rightarrow> ptrs cmd \<Rightarrow> string cmd" where
  "words_in s c = map_cmd (\<lambda>w. cstr (drop (length s - length (fst w)) (nulterminate c (s @ [NUL])))) c"

text \<open>
  The child of a line: \<open>runcmd(parsecmd(buf))\<close>.  Before it panics over a line that goes on behind its
  command, \<open>parsecmd\<close> prints the rest.
\<close>

definition leftovers :: "string \<Rightarrow> act list" where
  "leftovers s =
     (case parseline (parsecmd_fuel s) s of
        Some (Val (c, r)) \<Rightarrow> if skip r \<noteq> [] then [message 2 ''leftovers: %s'' [Str (skip r)]] else []
      | _ \<Rightarrow> [])"

definition run_line :: "answers \<Rightarrow> nat list \<Rightarrow> string \<Rightarrow> fdtab \<Rightarrow> act list" where
  "run_line env path s t =
     (case parsecmd s of
        Some (Val c) \<Rightarrow> runcmd env path (words_in s c) t
      | Some (Panic m) \<Rightarrow> leftovers s @ sh_panic m
      | _ \<Rightarrow> [])"

text \<open>One line: what the shell does for it, and whether it goes on.\<close>

definition chop :: "string \<Rightarrow> string" where
  "chop buf = buf[strlen buf - 1 := NUL]"

definition shell_line :: "answers \<Rightarrow> nat \<Rightarrow> string \<Rightarrow> fdtab \<Rightarrow> act list \<times> bool" where
  "shell_line env n buf t =
     (if take 3 buf = ''cd ''
      then (Chdir (cstr (drop 3 (chop buf))) #
              (if chdirs env n (cstr (drop 3 (chop buf))) then []
               else [message 2 ''cannot cd %s'' [Str (cstr (drop 3 (chop buf)))]]), True)
      else if my_strncmp buf ''history'' 7 = 0 then (builtin_history env n, True)
      else if my_strncmp buf ''block'' 5 = 0 then (builtin_block env n buf, True)
      else if my_strncmp buf ''unblock'' 7 = 0 then (builtin_unblock env n buf, True)
      else if my_strncmp buf ''chmod'' 5 = 0 then (builtin_chmod env n buf, True)
      else if forks env [n] then ([Fork (run_line env [n] (cstr buf) t), Wait t], True)
      else (sh_panic ''fork'', False))"

text \<open>\<open>getcmd\<close>: the buffer of 100 bytes, and the input left.  \<open>None\<close> when the line is empty: the end of the input.\<close>

definition getcmd :: "string \<Rightarrow> (string \<times> string) option" where
  "getcmd inp =
     (case gets 100 inp of (b, rest) \<Rightarrow>
        if at0 b = NUL then None else Some (b @ replicate (100 - length b) NUL, rest))"

lemma getcmd_shrinks: "getcmd inp = Some (buf, rest) \<Longrightarrow> length rest < length inp"
proof -
  assume g: "getcmd inp = Some (buf, rest)"
  obtain b where b: "gets_loop 99 inp = (b, rest)" "at0 b \<noteq> NUL"
    using g by (auto simp: getcmd_def gets_def split: prod.splits if_splits)
  have s: "inp = butlast b @ rest" "last b = NUL" using gets_loop_split [OF b(1)] by auto
  moreover have "butlast b \<noteq> []"
  proof
    assume "butlast b = []"
    then have "b = [] \<or> b = [NUL]" using s(2) by (cases b) (auto split: if_splits)
    then show False using b(2) by auto
  qed
  ultimately show ?thesis by (cases "butlast b") auto
qed

function sh_loop :: "answers \<Rightarrow> nat \<Rightarrow> string \<Rightarrow> fdtab \<Rightarrow> act list" where
  "sh_loop env n inp t =
     Print 2 ''$ '' [] #
     (case getcmd inp of
        None \<Rightarrow> [Exit]
      | Some (buf, rest) \<Rightarrow>
          (case shell_line env n buf t of (acts, goes_on) \<Rightarrow>
             acts @ (if goes_on then sh_loop env (n + 1) rest t else [])))"
  by pat_completeness auto
termination by (relation "measure (\<lambda>(env, n, inp, t). length inp)") (auto dest: getcmd_shrinks)

declare sh_loop.simps [simp del]

definition sh_main :: "answers \<Rightarrow> string \<Rightarrow> fdtab \<Rightarrow> act list" where
  "sh_main env inp t = sh_loop env 0 inp (open_console env t)"

end
