(* ===== verification/Xv6_Shellexec.thy ===== *)
theory Xv6_Shellexec
  imports Xv6_Shellrun "HOL-Library.Sublist"
begin

text \<open>
  What a command line means: the programs that run, each with its input and its output.  The processes of \<open>runcmd\<close> run
  exactly these, and the whole shell does for the text of a line.
\<close>

section \<open>The meaning of a command\<close>

text \<open>The commands of a tree at a place, with the channels of descriptors 0 and 1; those of the tree are \<open>i\<close> and \<open>out\<close>.\<close>

fun runs :: "nat list \<Rightarrow> string cmd \<Rightarrow> chan \<Rightarrow> chan \<Rightarrow> (string list \<times> chan \<times> chan) list" where
  "runs p (EXEC argv) i out = (if argv = [] then [] else [(argv, i, out)])"
| "runs p (REDIR c f mode fd) i out =
     runs (p @ [0]) c (if fd = 0 then Opened f mode else i) (if fd = 1 then Opened f mode else out)"
| "runs p (PIPE c d) i out = runs (p @ [0]) c i (Wr p) @ runs (p @ [1]) d (Rd p) out"
| "runs p (LIST c d) i out = runs (p @ [0]) c i out @ runs (p @ [1]) d i out"
| "runs p (BACK c) i out = runs (p @ [0]) c i out"

text \<open>A table with exactly three descriptors, of \<open>m + 5\<close>.\<close>

definition std :: "nat \<Rightarrow> chan \<Rightarrow> chan \<Rightarrow> chan \<Rightarrow> fdtab" where
  "std m i out e = Some i # Some out # Some e # None # None # replicate m None"

fun redirs_ok :: "'w cmd \<Rightarrow> bool" where
  "redirs_ok (EXEC ws) \<longleftrightarrow> True"
| "redirs_ok (REDIR c f mode fd) \<longleftrightarrow> redirs_ok c \<and> (fd = 0 \<or> fd = 1)"
| "redirs_ok (PIPE c d) \<longleftrightarrow> redirs_ok c \<and> redirs_ok d"
| "redirs_ok (LIST c d) \<longleftrightarrow> redirs_ok c \<and> redirs_ok d"
| "redirs_ok (BACK c) \<longleftrightarrow> redirs_ok c"

text \<open>The programs that the processes of a tree execute, with their descriptors, and the descriptors of those that wait.\<close>

fun exec_of :: "act \<Rightarrow> (string list \<times> fdtab) list" where
  "exec_of (Exec argv t) = [(argv, t)]"
| "exec_of (Fork as) = concat (map exec_of as)"
| "exec_of _ = []"

definition execs_of :: "act list \<Rightarrow> (string list \<times> fdtab) list" where
  "execs_of as = concat (map exec_of as)"

fun wait_of :: "act \<Rightarrow> fdtab list" where
  "wait_of (Wait t) = [t]"
| "wait_of (Fork as) = concat (map wait_of as)"
| "wait_of _ = []"

definition waits_of :: "act list \<Rightarrow> fdtab list" where
  "waits_of as = concat (map wait_of as)"

definition run_table :: "nat \<Rightarrow> chan \<Rightarrow> string list \<times> chan \<times> chan \<Rightarrow> string list \<times> fdtab" where
  "run_table m e r = (case r of (argv, i, out) \<Rightarrow> (argv, std m i out e))"

declare exec_of.simps(2) [simp del] wait_of.simps(2) [simp del]

lemma of_simps [simp]:
  "execs_of [] = []" "execs_of (a # as) = exec_of a @ execs_of as"
  "waits_of [] = []" "waits_of (a # as) = wait_of a @ waits_of as"
  "exec_of (Fork as) = execs_of as" "wait_of (Fork as) = waits_of as"
  "exec_of (message fd s args) = []" "wait_of (message fd s args) = []"
  "execs_of (sh_panic s) = []" "waits_of (sh_panic s) = []"
  by (simp_all add: execs_of_def waits_of_def message_def sh_panic_def exec_of.simps(2) wait_of.simps(2))

lemma run_table_simp [simp]: "run_table m e (argv, i, out) = (argv, std m i out e)"
  by (simp add: run_table_def)

lemma std_ops:
  "lowest x (std m i out e) = Some (3, (std m i out e)[3 := Some x])"
  "lowest y ((std m i out e)[3 := Some x]) = Some (4, (std m i out e)[3 := Some x, 4 := Some y])"
  by (simp_all add: lowest_def std_def eval_nat_numeral)

lemma std_redirect:
  "lowest x (sh_close 0 (std m i out e)) = Some (0, std m x out e)"
  "lowest x (sh_close 1 (std m i out e)) = Some (1, std m i x e)"
  by (simp_all add: lowest_def std_def sh_close_def)

lemma std_pipe:
  shows "sh_close 4 (sh_close 3 (sh_dup 4 (sh_close 1 ((std m i out e)[3 := Some x, 4 := Some y])))) = std m i y e"
    "sh_close 4 (sh_close 3 (sh_dup 3 (sh_close 0 ((std m i out e)[3 := Some x, 4 := Some y])))) = std m x out e"
    "sh_close 4 (sh_close 3 ((std m i out e)[3 := Some x, 4 := Some y])) = std m i out e"
  by (simp_all add: sh_dup_def lowest_def std_def sh_close_def eval_nat_numeral)

section \<open>The processes of a command\<close>

text \<open>Nothing fails.\<close>

definition all_succeed :: "answers \<Rightarrow> bool" where
  "all_succeed env \<longleftrightarrow> (\<forall>p f mode. opens env p f mode) \<and> (\<forall>p. forks env p) \<and> (\<forall>p. pipes env p)"

definition wired :: "answers \<Rightarrow> nat \<Rightarrow> chan \<Rightarrow> (string list \<times> chan \<times> chan) list \<Rightarrow> act list \<Rightarrow> bool" where
  "wired env m e rs as \<longleftrightarrow>
     set (execs_of as) \<subseteq> run_table m e ` set rs \<and> (all_succeed env \<longrightarrow> execs_of as = map (run_table m e) rs) \<and>
     (\<forall>t \<in> set (waits_of as). \<exists>i out. t = std m i out e)"

lemma wired_fork1:
  assumes "wired env m e rs1 as" "wired env m e rs2 bs"
  shows "wired env m e (rs1 @ rs2) (fork1 env p as bs)"
proof (cases "forks env p")
  case True
  have "set (execs_of as) \<union> set (execs_of bs) \<subseteq> run_table m e ` (set rs1 \<union> set rs2)"
    using assms unfolding wired_def image_Un by blast
  moreover have "\<forall>t \<in> set (waits_of as) \<union> set (waits_of bs). \<exists>i out. t = std m i out e"
    using assms unfolding wired_def by blast
  ultimately show ?thesis using True assms unfolding wired_def by (simp add: fork1_def)
next
  case False
  then have "\<not> all_succeed env" by (auto simp: all_succeed_def)
  then show ?thesis using False by (simp add: wired_def fork1_def)
qed

lemma wired_simps [simp]:
  "wired env m e rs (Wait (std m i out e) # as) \<longleftrightarrow> wired env m e rs as" "wired env m e [] [Exit]" "wired env m e [] []"
  "wired env m e rs (Print fd s args # as) \<longleftrightarrow> wired env m e rs as"
  "\<not> all_succeed env \<Longrightarrow> wired env m e rs (sh_panic s)"
  by (auto simp: wired_def)

lemma runcmd_wired: "redirs_ok c \<Longrightarrow> wired env m e (runs p c i out) (runcmd env p c (std m i out e))"
proof (induction c arbitrary: p i out)
  case (EXEC ws)
  then show ?case by (auto simp: wired_def message_def)
next
  case (REDIR c f mode fd)
  note IH = REDIR.IH [of "p @ [0]"]
  show ?case
  proof (cases "opens env p f mode")
    case True
    then show ?thesis using REDIR.prems IH by (auto simp: std_redirect)
  qed (auto simp: wired_def all_succeed_def)
next
  case (PIPE c d)
  have "wired env m e (runs (p @ [1]) d (Rd p) out @ [])
      (fork1 env (p @ [1]) (runcmd env (p @ [1]) d (std m (Rd p) out e)) [Wait (std m i out e), Wait (std m i out e), Exit])"
    by (rule wired_fork1) (use PIPE in simp_all)
  moreover have "wired env m e (runs (p @ [0]) c i (Wr p)) (runcmd env (p @ [0]) c (std m i (Wr p) e))" using PIPE by simp
  ultimately have "wired env m e (runs (p @ [0]) c i (Wr p) @ runs (p @ [1]) d (Rd p) out)
      (fork1 env (p @ [0]) (runcmd env (p @ [0]) c (std m i (Wr p) e)) (fork1 env (p @ [1])
         (runcmd env (p @ [1]) d (std m (Rd p) out e)) [Wait (std m i out e), Wait (std m i out e), Exit]))"
    using wired_fork1 by simp
  moreover have "\<not> pipes env p \<Longrightarrow> \<not> all_succeed env" by (auto simp: all_succeed_def)
  ultimately show ?case by (auto simp: std_ops std_pipe Let_def)
next
  case (LIST c d)
  then show ?case using wired_fork1 by simp
next
  case (BACK c)
  have "wired env m e (runs (p @ [0]) c i out @ []) (fork1 env (p @ [0]) (runcmd env (p @ [0]) c (std m i out e)) [Exit])"
    by (rule wired_fork1) (use BACK in simp_all)
  then show ?case by simp
qed

section \<open>From the text to the command\<close>

definition NL :: char where "NL = CHR 0x0A"

lemma cmd_ok_redirs: "cmd_ok c \<Longrightarrow> redirs_ok c"
  by (induction c) (auto simp: redir_ok_def)

lemma parse_line:
  assumes "cmd_ok t" "skip rest = []"
  shows "\<exists>c. parsecmd (show_cmd 3 t @ rest) = Some (Val c) \<and> text_cmd c = t"
proof -
  let ?s = "show_cmd 3 t @ rest"
  have f: "follows '')'' rest" using assms(2) by (simp add: follows_def)
  have "reads3 t" using reads_all [OF assms(1)] by simp
  then have y: "yields (parseline (parsecmd_fuel ?s) ?s) (\<lambda>(c, s). text_cmd c = t \<and> s = skip rest)"
    using f unfolding reads3_def by blast
  have "parseline (parsecmd_fuel ?s) ?s \<noteq> None"
    by (rule parse_total(1)) (simp add: parsecmd_fuel_def)
  then obtain c where "parseline (parsecmd_fuel ?s) ?s = Some (Val (c, []))" "text_cmd c = t"
    using y assms(2) by (auto simp: yields_def split: option.splits outcome.splits)
  then show ?thesis by (simp add: parsecmd_def)
qed

lemma words_in_text: "NUL \<notin> set s \<Longrightarrow> parsecmd s = Some (Val c) \<Longrightarrow> words_in s c = text_cmd c"
  unfolding words_in_def by (intro cmd.map_cong refl nulterminate_words)

text \<open>The printed line is one line.\<close>

definition line_char :: "char \<Rightarrow> bool" where
  "line_char c \<longleftrightarrow> c \<noteq> NUL \<and> c \<noteq> CHR 0x0A \<and> c \<noteq> CHR 0x0D"

lemma word_line: "word_ok w \<Longrightarrow> c \<in> set w \<Longrightarrow> line_char c"
  by (auto simp: word_ok_def line_char_def is_ws_def whitespace_def)

lemma show_line: "cmd_ok t \<Longrightarrow> c \<in> set (show_cmd k t) \<Longrightarrow> line_char c"
proof (induction t arbitrary: k)
  case (EXEC ws)
  then have "c = CHR '' '' \<or> (\<exists>w \<in> set ws. c \<in> set w)" by (auto simp: show_words_def split: if_splits)
  then show ?case using EXEC(1) word_line by (auto simp: line_char_def)
next
  case (REDIR t f mode fd)
  then have "c \<in> set (show_cmd 0 t) \<or> c \<in> set f \<or> c \<in> set ''< >''" by (auto simp: show_redir_def split: if_splits)
  then show ?case using REDIR word_line [of f c] by (auto simp: redir_ok_def line_char_def)
next
  case (PIPE t u)
  then have "c \<in> set (show_cmd 0 t) \<or> c \<in> set (show_cmd 1 u) \<or> c \<in> set ''(|)''" by (auto simp: paren_def split: if_splits)
  then show ?case using PIPE by (auto simp: line_char_def)
next
  case (LIST t u)
  then have "c \<in> set (show_cmd 2 t) \<or> c \<in> set (show_cmd 3 u) \<or> c \<in> set ''(;)''" by (auto simp: paren_def split: if_splits)
  then show ?case using LIST by (auto simp: line_char_def)
next
  case (BACK t)
  then have "c \<in> set (show_cmd 2 t) \<or> c \<in> set ''(&)''" by (auto simp: paren_def split: if_splits)
  then show ?case using BACK by (auto simp: line_char_def)
qed

lemma gets_loop_line:
  "\<forall>c \<in> set s. line_char c \<Longrightarrow> length s < k \<Longrightarrow> gets_loop k (s @ NL # rest) = (s @ [NL, NUL], rest)"
proof (induction s arbitrary: k)
  case Nil
  then show ?case by (cases k) (auto simp: NL_def)
next
  case (Cons c s)
  then show ?case by (cases k) (auto simp: line_char_def)
qed

text \<open>The buffer that holds a line.\<close>

definition buffer :: "string \<Rightarrow> string" where
  "buffer s = s @ NL # replicate (99 - length s) NUL"

lemma getcmd_line:
  assumes "\<forall>c \<in> set s. line_char c" "length s \<le> 98"
  shows "getcmd (s @ NL # rest) = Some (buffer s, rest)"
proof -
  have "gets 100 (s @ NL # rest) = (s @ [NL, NUL], rest)" using gets_loop_line [OF assms(1), of 99 rest] assms(2)
    by (simp add: gets_def)
  moreover have "at0 (s @ [NL, NUL]) \<noteq> NUL" using assms(1) by (cases s) (auto simp: line_char_def NL_def)
  moreover have "99 - length s = Suc (100 - (length s + 2))" using assms(2) by simp
  ultimately show ?thesis by (simp add: getcmd_def buffer_def)
qed

lemma cstr_buffer: "\<forall>c \<in> set s. line_char c \<Longrightarrow> length s \<le> 98 \<Longrightarrow> cstr (buffer s) = s @ [NL]"
proof -
  assume a: "\<forall>c \<in> set s. line_char c" "length s \<le> 98"
  have "cstr (s @ NL # replicate (Suc k) NUL) = s @ [NL]" for k
    using a(1) by (induction s) (auto simp: line_char_def NL_def)
  moreover obtain k where "99 - length s = Suc k" using a(2) by (cases "99 - length s") auto
  ultimately show ?thesis by (simp add: buffer_def)
qed

lemma my_strncmp_prefix: "NUL \<notin> set p \<Longrightarrow> my_strncmp s p (length p) = 0 \<longleftrightarrow> prefix p s"
proof (induction p arbitrary: s)
  case (Cons c p)
  then show ?case by (cases s) (auto simp: cstring_simps)
qed simp

lemma prefix_buffer: "\<forall>c \<in> set p. c \<noteq> NL \<Longrightarrow> prefix p (buffer s) \<longleftrightarrow> prefix p s"
  by (auto simp: buffer_def prefix_append prefix_Cons)

lemma builtin_test:
  assumes "\<forall>c \<in> set p. c \<noteq> NUL \<and> c \<noteq> NL" "length p = n"
  shows "my_strncmp (buffer s) p n = 0 \<longleftrightarrow> prefix p s"
  using my_strncmp_prefix [of p "buffer s"] prefix_buffer [of p s] assms by auto

text \<open>The first letters at which \<open>main\<close> takes a line for a built-in command.\<close>

definition builtins :: "string list" where
  "builtins = [''cd '', ''history'', ''block'', ''unblock'', ''chmod'']"

lemma builtin_tests:
  "take 3 (buffer s) = ''cd '' \<longleftrightarrow> prefix ''cd '' s" "my_strncmp (buffer s) ''history'' 7 = 0 \<longleftrightarrow> prefix ''history'' s"
  "my_strncmp (buffer s) ''block'' 5 = 0 \<longleftrightarrow> prefix ''block'' s" "my_strncmp (buffer s) ''unblock'' 7 = 0 \<longleftrightarrow> prefix ''unblock'' s"
  "my_strncmp (buffer s) ''chmod'' 5 = 0 \<longleftrightarrow> prefix ''chmod'' s"
proof -
  have "take 3 t = ''cd '' \<longleftrightarrow> prefix ''cd '' t" for t :: string
    by (metis append_eq_conv_conj append_take_drop_id length_Cons list.size(3) numeral_3_eq_3 prefixE prefixI)
  then show "take 3 (buffer s) = ''cd '' \<longleftrightarrow> prefix ''cd '' s"
    using prefix_buffer [of "''cd ''" s] by (simp add: NL_def)
next
  show "my_strncmp (buffer s) ''history'' 7 = 0 \<longleftrightarrow> prefix ''history'' s"
    by (rule builtin_test) (simp_all add: NL_def)
  show "my_strncmp (buffer s) ''block'' 5 = 0 \<longleftrightarrow> prefix ''block'' s"
    by (rule builtin_test) (simp_all add: NL_def)
  show "my_strncmp (buffer s) ''unblock'' 7 = 0 \<longleftrightarrow> prefix ''unblock'' s"
    by (rule builtin_test) (simp_all add: NL_def)
  show "my_strncmp (buffer s) ''chmod'' 5 = 0 \<longleftrightarrow> prefix ''chmod'' s"
    by (rule builtin_test) (simp_all add: NL_def)
qed

section \<open>A line with a command\<close>

lemma sh_loop_line:
  assumes "\<forall>c \<in> set s. line_char c" "length s \<le> 98" "shell_line env n (buffer s) t = (acts, True)"
  shows "sh_loop env n (s @ NL # rest) t = Print 2 ''$ '' [] # acts @ sh_loop env (n + 1) rest t"
  using getcmd_line [OF assms(1,2), of rest] assms(3) by (subst sh_loop.simps) simp

text \<open>
  C16: from the text of a line to the programs that run.  For every proper command tree whose text fits into the buffer and does not
  begin like a built-in command, the shell forks one process, waits for it and goes on with the next line.  The programs that this process
  and its children execute are programs of the tree, each with exactly three descriptors: input and output as the pipes and
  redirections of the tree say, and the shell's descriptor 2.  When no call fails they are all of them, in the order of the
  text.  Every process that waits has closed the pipes that it has made.
\<close>

theorem shell_runs_line:
  assumes "cmd_ok c" "length (show_cmd 3 c) \<le> 98" "\<forall>b \<in> set builtins. \<not> prefix b (show_cmd 3 c)" "forks env [n]"
  shows "\<exists>as. sh_loop env n (show_cmd 3 c @ NL # rest) (std m i out e) =
      Print 2 ''$ '' [] # Fork as # Wait (std m i out e) # sh_loop env (n + 1) rest (std m i out e) \<and>
    set (execs_of as) \<subseteq> (\<lambda>(argv, i', out'). (argv, std m i' out' e)) ` set (runs [n] c i out) \<and>
    (all_succeed env \<longrightarrow> execs_of as = map (\<lambda>(argv, i', out'). (argv, std m i' out' e)) (runs [n] c i out)) \<and>
    (\<forall>t \<in> set (waits_of as). \<exists>i' out'. t = std m i' out' e)"
proof -
  let ?s = "show_cmd 3 c" and ?t = "std m i out e"
  have lc: "\<forall>x \<in> set ?s. line_char x" using show_line [OF assms(1)] by blast
  have nul: "NUL \<notin> set (?s @ [NL])" using lc by (auto simp: line_char_def NL_def)
  have "skip [NL] = []" by (simp add: NL_def skip_def is_ws_def whitespace_def)
  then obtain p where p: "parsecmd (?s @ [NL]) = Some (Val p)" "text_cmd p = c"
    using parse_line [OF assms(1)] by blast
  define as where "as = runcmd env [n] c ?t"
  have "run_line env [n] (cstr (buffer ?s)) ?t = as"
    using p words_in_text [OF nul p(1)] cstr_buffer [OF lc assms(2)] by (simp add: run_line_def as_def)
  then have "shell_line env n (buffer ?s) ?t = ([Fork as, Wait ?t], True)"
    using assms(3,4) by (simp add: shell_line_def builtin_tests builtins_def)
  from sh_loop_line [OF lc assms(2) this]
  have "sh_loop env n (?s @ NL # rest) ?t = Print 2 ''$ '' [] # Fork as # Wait ?t # sh_loop env (n + 1) rest ?t" by simp
  moreover have "wired env m e (runs [n] c i out) as"
    unfolding as_def by (rule runcmd_wired) (rule cmd_ok_redirs [OF assms(1)])
  then have "set (execs_of as) \<subseteq> run_table m e ` set (runs [n] c i out)"
      "all_succeed env \<longrightarrow> execs_of as = map (run_table m e) (runs [n] c i out)"
      "\<forall>t \<in> set (waits_of as). \<exists>i' out'. t = std m i' out' e"
    by (simp_all add: wired_def)
  moreover have "run_table m e = (\<lambda>(argv, i', out'). (argv, std m i' out' e))" by (simp add: fun_eq_iff run_table_def)
  ultimately show ?thesis by (intro exI [of _ as]) simp
qed

text \<open>A system in which everything succeeds.\<close>

definition willing :: answers where
  "willing = \<lparr>opens = \<lambda>_ _ _. True, forks = \<lambda>_. True, pipes = \<lambda>_. True, execs = \<lambda>_ _. True, chdirs = \<lambda>_ _. True,
     chmods = \<lambda>_ _ _. True, blocks = \<lambda>_ _. True, unblocks = \<lambda>_ _. True, histories = \<lambda>_. True\<rparr>"

theorem shell_runs_line_witness:
  "show_cmd 3 (PIPE (EXEC [''cat'', ''a'']) (REDIR (EXEC [''wc'']) ''f'' 0x201 1)) = ''cat a |wc >f '' \<and>
   (\<exists>as. sh_loop willing 0 (''cat a |wc >f '' @ NL # []) (std 11 Console Console Console) =
       [Print 2 ''$ '' [], Fork as, Wait (std 11 Console Console Console), Print 2 ''$ '' [], Exit] \<and>
     execs_of as = [([''cat'', ''a''], std 11 Console (Wr [0]) Console), ([''wc''], std 11 (Rd [0]) (Opened ''f'' 0x201) Console)])"
proof -
  let ?c = "PIPE (EXEC [''cat'', ''a'']) (REDIR (EXEC [''wc'']) ''f'' 0x201 1)" and ?t = "std 11 Console Console Console"
  have s: "show_cmd 3 ?c = ''cat a |wc >f ''" by (simp add: paren_def show_words_def show_redir_def)
  have "cmd_ok ?c"
    by (simp add: MAXARGS_def word_ok_def redir_ok_def is_ws_def is_sym_def whitespace_def symbols_def O_WRONLY_def O_CREATE_def)
  moreover have "length (show_cmd 3 ?c) \<le> 98" "\<forall>b \<in> set builtins. \<not> prefix b (show_cmd 3 ?c)" unfolding s by (simp_all add: builtins_def)
  moreover have "forks willing [0]" by (simp add: willing_def)
  ultimately obtain as where as: "sh_loop willing 0 (show_cmd 3 ?c @ NL # []) ?t =
      Print 2 ''$ '' [] # Fork as # Wait ?t # sh_loop willing (0 + 1) [] ?t"
    "all_succeed willing \<longrightarrow> execs_of as = map (\<lambda>(argv, i', out'). (argv, std 11 i' out' Console)) (runs [0] ?c Console Console)"
    using shell_runs_line [of ?c willing 0 "[]" 11 Console Console Console] by blast
  have "sh_loop willing (0 + 1) [] ?t = [Print 2 ''$ '' [], Exit]"
    by (subst sh_loop.simps) (simp add: getcmd_def gets_def numeral_eq_Suc)
  moreover have "all_succeed willing" by (simp add: all_succeed_def willing_def)
  ultimately show ?thesis using as unfolding s by (intro conjI refl exI [of _ as]) simp_all
qed

section \<open>Lines with built-in commands\<close>

definition plain :: "string \<Rightarrow> bool" where
  "plain w \<longleftrightarrow> w \<noteq> [] \<and> (\<forall>c \<in> set w. line_char c \<and> c \<noteq> CHR '' '')"

lemma strtok_scan_word:
  "\<forall>c \<in> set w. line_char c \<and> c \<noteq> CHR '' '' \<Longrightarrow> d = CHR '' '' \<or> d = NL \<Longrightarrow> strtok_scan (w @ d # r) delims = (w, Some r)"
  by (induction w) (auto simp: delims_def NL_def line_char_def)

lemma atoi_stop: "\<not> is_digit c \<Longrightarrow> atoi (s @ c # r) = atoi s"
proof -
  assume c: "\<not> is_digit c"
  have "atoi_loop k (s @ c # r) = atoi_loop k s" for k by (induction s arbitrary: k) (simp_all add: c)
  then show ?thesis by (simp add: atoi_def)
qed

lemma not_digit_NL: "\<not> is_digit NL"
  by (simp add: is_digit_def NL_def uchar_def)

lemma chmod_line:
  assumes "plain f" "plain m"
  shows "builtin_chmod env n (buffer (''chmod '' @ f @ '' '' @ m)) =
    Chmod f (atoi m) # (if chmods env n f (atoi m) then [] else [message 2 ''Operation failed'' []])"
proof -
  define r where "r = replicate (99 - length (''chmod '' @ f @ '' '' @ m)) NUL"
  have b: "buffer (''chmod '' @ f @ '' '' @ m) = ''chmod'' @ CHR '' '' # f @ CHR '' '' # m @ NL # r"
    by (simp add: buffer_def r_def)
  have 1: "strtok_xv6 None (Some (''chmod'' @ CHR '' '' # f @ CHR '' '' # m @ NL # r)) delims =
      (Some ''chmod'', Some (f @ CHR '' '' # m @ NL # r))"
    using strtok_scan_word [of "''chmod''" "CHR '' ''" "f @ CHR '' '' # m @ NL # r"]
    by (simp add: strtok_xv6_def line_char_def)
  have 2: "strtok_xv6 (Some (w @ d # s)) None delims = (Some w, Some s)" if "plain w" "d = CHR '' '' \<or> d = NL" for w d s
  proof -
    have "at0 (w @ d # s) \<noteq> NUL" using that(1) by (cases w) (auto simp: plain_def line_char_def)
    then show ?thesis using strtok_scan_word [of w d s] that by (simp add: strtok_xv6_def plain_def)
  qed
  show ?thesis unfolding builtin_chmod_def b 1
    using 2 [OF assms(1), of "CHR '' ''" "m @ NL # r"] 2 [OF assms(2), of NL r] by simp
qed

text \<open>
  C39: the built-in commands.  A line with \<open>cd\<close>, \<open>chmod\<close>, \<open>block\<close>, \<open>unblock\<close> or \<open>history\<close> makes the shell itself do the call,
  with the argument as it was typed and numbers read by \<open>atoi\<close>, print the message for its answer, and go on with the next
  line without a process of its own.
\<close>

theorem shell_builtins:
  assumes "length s \<le> 98" "\<forall>c \<in> set s. line_char c"
  shows "(\<forall>d. s = ''cd '' @ d \<longrightarrow> sh_loop env n (s @ NL # rest) t = Print 2 ''$ '' [] # Chdir d #
        (if chdirs env n d then [] else [message 2 ''cannot cd %s'' [Str d]]) @ sh_loop env (n + 1) rest t) \<and>
    (\<forall>f m. s = ''chmod '' @ f @ '' '' @ m \<and> plain f \<and> plain m \<longrightarrow> sh_loop env n (s @ NL # rest) t = Print 2 ''$ '' [] # Chmod f (atoi m) #
        (if chmods env n f (atoi m) then [] else [message 2 ''Operation failed'' []]) @ sh_loop env (n + 1) rest t) \<and>
    (\<forall>k. s = ''block '' @ k \<longrightarrow> sh_loop env n (s @ NL # rest) t = Print 2 ''$ '' [] # Block (atoi k) #
        (if blocks env n (atoi k) then message 1 ''Blocked syscall %d'' [Num (atoi k)]
         else message 2 ''Error blocking syscall %d'' [Num (atoi k)]) # sh_loop env (n + 1) rest t) \<and>
    (\<forall>k. s = ''unblock '' @ k \<longrightarrow> sh_loop env n (s @ NL # rest) t = Print 2 ''$ '' [] # Unblock (atoi k) #
        (if unblocks env n (atoi k) then message 1 ''Unblocked syscall %d'' [Num (atoi k)]
         else message 2 ''Error unblocking syscall %d'' [Num (atoi k)]) # sh_loop env (n + 1) rest t) \<and>
    (prefix ''history'' s \<longrightarrow> sh_loop env n (s @ NL # rest) t = Print 2 ''$ '' [] # History #
        (if histories env n then [] else [message 2 ''Error getting history'' []]) @ sh_loop env (n + 1) rest t)"
proof (intro conjI allI impI)
  note step = sh_loop_line [OF assms(2,1)] and tests = shell_line_def builtin_tests
  fix d assume s: "s = ''cd '' @ d"
  have "strlen (buffer s) = length s + 1" unfolding strlen_cstr cstr_buffer [OF assms(2,1)] by simp
  then have c: "chop (buffer s) = s @ NUL # replicate (99 - length s) NUL" by (simp add: chop_def buffer_def)
  have "cstr (d @ NUL # r) = d" for r :: string using assms(2) unfolding s by (induction d) (auto simp: line_char_def)
  moreover have "drop 3 (chop (buffer s)) = d @ NUL # replicate (99 - length s) NUL"
    by (simp only: c) (simp add: s)
  ultimately have "cstr (drop 3 (chop (buffer s))) = d" by simp
  then show "sh_loop env n (s @ NL # rest) t = Print 2 ''$ '' [] # Chdir d #
        (if chdirs env n d then [] else [message 2 ''cannot cd %s'' [Str d]]) @ sh_loop env (n + 1) rest t"
    by (subst step) (auto simp: tests s)
next
  note step = sh_loop_line [OF assms(2,1)] and tests = shell_line_def builtin_tests
  fix f m assume s: "s = ''chmod '' @ f @ '' '' @ m \<and> plain f \<and> plain m"
  then have "builtin_chmod env n (buffer s) = Chmod f (atoi m) # (if chmods env n f (atoi m) then [] else [message 2 ''Operation failed'' []])"
    using chmod_line by blast
  then show "sh_loop env n (s @ NL # rest) t = Print 2 ''$ '' [] # Chmod f (atoi m) #
        (if chmods env n f (atoi m) then [] else [message 2 ''Operation failed'' []]) @ sh_loop env (n + 1) rest t"
    using s by (subst step) (auto simp: tests)
next
  note step = sh_loop_line [OF assms(2,1)] and tests = shell_line_def builtin_tests
  fix k assume s: "s = ''block '' @ k"
  have "atoi (drop 6 (buffer s)) = atoi k" using atoi_stop [OF not_digit_NL] by (simp add: buffer_def s)
  then show "sh_loop env n (s @ NL # rest) t = Print 2 ''$ '' [] # Block (atoi k) #
        (if blocks env n (atoi k) then message 1 ''Blocked syscall %d'' [Num (atoi k)]
         else message 2 ''Error blocking syscall %d'' [Num (atoi k)]) # sh_loop env (n + 1) rest t"
    by (subst step) (auto simp: tests s builtin_block_def Let_def)
next
  note step = sh_loop_line [OF assms(2,1)] and tests = shell_line_def builtin_tests
  fix k assume s: "s = ''unblock '' @ k"
  have "atoi (drop 8 (buffer s)) = atoi k" using atoi_stop [OF not_digit_NL] by (simp add: buffer_def s)
  then show "sh_loop env n (s @ NL # rest) t = Print 2 ''$ '' [] # Unblock (atoi k) #
        (if unblocks env n (atoi k) then message 1 ''Unblocked syscall %d'' [Num (atoi k)]
         else message 2 ''Error unblocking syscall %d'' [Num (atoi k)]) # sh_loop env (n + 1) rest t"
    by (subst step) (auto simp: tests s builtin_unblock_def Let_def)
next
  assume h: "prefix ''history'' s"
  then have "\<not> prefix ''cd '' s" by (auto simp: prefix_def)
  with h show "sh_loop env n (s @ NL # rest) t = Print 2 ''$ '' [] # History #
        (if histories env n then [] else [message 2 ''Error getting history'' []]) @ sh_loop env (n + 1) rest t"
    by (subst sh_loop_line [OF assms(2,1)]) (auto simp: shell_line_def builtin_tests builtin_history_def)
qed

theorem shell_builtins_witness:
  "sh_loop willing 0 (''block 21'' @ NL # ''chmod f 6'' @ NL # []) [] =
     [Print 2 ''$ '' [], Block 21, message 1 ''Blocked syscall %d'' [Num 21], Print 2 ''$ '' [], Chmod ''f'' 6, Print 2 ''$ '' [], Exit]"
proof -
  have a: "atoi ''21'' = 21" "atoi ''6'' = 6" by code_simp+
  have w: "blocks willing 0 21" "chmods willing 1 ''f'' 6" by (simp_all add: willing_def)
  have l: "length ''block 21'' \<le> 98" "\<forall>c \<in> set ''block 21''. line_char c" "length ''chmod f 6'' \<le> 98" "\<forall>c \<in> set ''chmod f 6''. line_char c"
    by (simp_all add: line_char_def)
  note e1 = shell_builtins [OF l(1,2), of willing 0 "''chmod f 6'' @ NL # []" "[]"] and e2 = shell_builtins [OF l(3,4), of willing 1 "[]" "[]"]
  have "''block 21'' = ''block '' @ ''21''" "''chmod f 6'' = ''chmod '' @ ''f'' @ '' '' @ ''6'' \<and> plain ''f'' \<and> plain ''6''"
    by (simp_all add: plain_def line_char_def)
  from mp [OF spec [OF conjunct1 [OF conjunct2 [OF conjunct2 [OF e1]]]] this(1)]
    mp [OF spec [OF spec [OF conjunct1 [OF conjunct2 [OF e2]]]] this(2)]
  have 1: "sh_loop willing 0 (''block 21'' @ NL # ''chmod f 6'' @ NL # []) [] =
      Print 2 ''$ '' [] # Block 21 # message 1 ''Blocked syscall %d'' [Num 21] # sh_loop willing (0 + 1) (''chmod f 6'' @ NL # []) []"
    and 2: "sh_loop willing 1 (''chmod f 6'' @ NL # []) [] = Print 2 ''$ '' [] # Chmod ''f'' 6 # sh_loop willing (1 + 1) [] []"
    unfolding a using w by (simp_all only: if_True append.simps)
  have 3: "sh_loop willing 2 [] [] = [Print 2 ''$ '' [], Exit]"
    by (subst sh_loop.simps) (simp add: getcmd_def gets_def numeral_eq_Suc)
  have n: "(0::nat) + 1 = 1" "(1::nat) + 1 = 2" by simp_all
  show ?thesis unfolding 1 n 2 3 ..
qed

end
