(* ===== verification/Spec2Isabelle.thy ===== *)
theory Spec2Isabelle
  imports Xv6_Print Xv6_Pipe Xv6_Fair Xv6_Exit Xv6_Reserve Xv6_Grep Xv6_Console Xv6_Screen Xv6_Shellwords Xv6_Login Xv6_Block Xv6_Copyout Xv6_Ide Xv6_Balance Xv6_Execargs Xv6_Execload Xv6_Sysexec Xv6_Inode Xv6_Names Xv6_Victim Xv6_Forkcopy Xv6_Swapfork Xv6_Swapcopy Xv6_Spin Xv6_Malloc Xv6_Shellexec
begin

text \<open>
  \<^bold>\<open>A model of the xv6 kernels of this repository.\<close>

  The repository holds three variants of the teaching kernel xv6 for x86, each a directory under
  \<open>src/\<close> with its own kernel, C library, user programs and image builder.  They share most files:

    \<^item> \<open>Enhanced-Shell-xv6\<close> (\<open>E:\<close> below): login, permission bits, command history, blocked system calls;
    \<^item> \<open>Signal-Scheduler-xv6\<close> (\<open>S:\<close>): dynamic priorities, delayed and time-limited processes, signals from
      the keyboard;
    \<^item> \<open>Memory-Swap-xv6\<close> (\<open>M:\<close>): pages are swapped to a reserved disk area when memory is short.

  A file that is the same in several variants is modelled once, from \<open>E:\<close>; the scheduler from \<open>S:\<close>,
  swapping from \<open>M:\<close>.

  \<^bold>\<open>How the parts interact.\<close>  A system call enters through \<open>syscall\<close>, which fetches its arguments from user
  memory, and runs on the process table, the open files or the address space of its process.  Files and
  directories are inodes; inodes live in blocks of the disk; every change of a block goes through
  the write-ahead log, the log through the buffer cache, and the cache through the queue of the disk
  driver.  Address spaces are page tables in pages from the page allocator, which in \<open>M:\<close> writes pages
  of processes to the swap area when its pool runs low.

  \<^bold>\<open>Theories and code.\<close>  A theory that models code has, in the order of the code, the state as a record, the
  operations as functions of it and then their lemmas; later theories of a group hold only lemmas.

    \<^item> \<open>Xv6_Prelude\<close>: results (\<open>outcome\<close>: a value, a panic, or a process that has to sleep), machine
      words, scans of tables.
    \<^item> \<open>Xv6_String\<close>, \<open>Xv6_Print\<close>: \<open>string.c\<close>, \<open>ulib.c\<close>, \<open>printf.c\<close> and \<open>cprintf\<close>.
    \<^item> \<open>Xv6_Proc\<close> (\<open>S:proc.c\<close>), \<open>Xv6_Sched\<close> (the choice of a round), \<open>Xv6_Kstep\<close> (the process table as an
      inductive step relation over all operations), \<open>Xv6_Kinv\<close> (what every run keeps), \<open>Xv6_Fair\<close>
      (bounded waiting), \<open>Xv6_Exit\<close> (fork, exit and wait, and where signals and expiry leave the protocol).
    \<^item> \<open>Xv6_Bio\<close> (\<open>bio.c\<close>, \<open>sleeplock.c\<close>, the disk as \<open>iderw\<close> presents it), \<open>Xv6_Ide\<close> (\<open>ide.c\<close>, the queue behind
      \<open>iderw\<close>), \<open>Xv6_Log\<close> (\<open>log.c\<close>), \<open>Xv6_Crash\<close> (crashes and recovery), \<open>Xv6_Txn\<close> (what a transaction
      keeps), \<open>Xv6_Reserve\<close> (the space reservation).
    \<^item> \<open>Xv6_Fs\<close> and \<open>Xv6_Path\<close> (\<open>E:fs.c\<close>), \<open>Xv6_Blocks\<close> (the bitmap as a set), \<open>Xv6_Content\<close> and \<open>Xv6_Rw\<close> (a file
      as a sequence of bytes), \<open>Xv6_Inode\<close> (the on-disk inode), \<open>Xv6_Names\<close> (path names), \<open>Xv6_File\<close>
      (\<open>file.c\<close> and \<open>sysfile.c\<close>).
    \<^item> \<open>Xv6_Kalloc\<close> (\<open>E:kalloc.c\<close>), \<open>Xv6_Vm\<close> (\<open>E:vm.c\<close>), \<open>Xv6_Pagemap\<close> (a directory as a map of pages),
      \<open>Xv6_Uvm\<close> (address spaces), \<open>Xv6_Copyout\<close> (user memory), \<open>Xv6_Freevm\<close>, \<open>Xv6_Fork\<close> and \<open>Xv6_Forkcopy\<close> (the end of
      an address space, the kernel's part of a new one, and \<open>copyuvm\<close>).
    \<^item> \<open>Xv6_Exec\<close> (\<open>E:exec.c\<close>, \<open>loaduvm\<close>), \<open>Xv6_Execload\<close> (segments), \<open>Xv6_Execstack\<close> and \<open>Xv6_Execargs\<close> (the user stack),
      \<open>Xv6_Sysexec\<close> (\<open>sys_exec\<close>), \<open>Xv6_Balance\<close> (system calls end the operations they begin).
    \<^item> \<open>Xv6_Swap\<close> (\<open>M:pageswap.c\<close>, \<open>M:kalloc.c\<close>, the page-fault branch of \<open>M:trap.c\<close>), \<open>Xv6_Swapio\<close>,
      \<open>Xv6_Swapping\<close> (round trip), \<open>Xv6_Fault\<close> (page faults), \<open>Xv6_Victim\<close> (the victim, the thresholds), \<open>Xv6_Swapvm\<close>
      (\<open>M:vm.c\<close>), \<open>Xv6_Swapfork\<close> (its \<open>copyuvm\<close>), \<open>Xv6_Swapcopy\<close> (its \<open>copyout\<close> and \<open>deallocuvm\<close>).
    \<^item> \<open>Xv6_Spin\<close> (\<open>spinlock.c\<close>, as an inductive step relation of any number of processors).
    \<^item> \<open>Xv6_Pipe\<close> (\<open>pipe.c\<close>), \<open>Xv6_Console\<close> and \<open>Xv6_Screen\<close> (\<open>console.c\<close>, \<open>kbd.c\<close>), \<open>Xv6_Login\<close> (\<open>E:init.c\<close> and the
      argument checks of \<open>E:syscall.c\<close>), \<open>Xv6_Block\<close> (blocked system calls and history).
    \<^item> \<open>Xv6_Shell\<close>, \<open>Xv6_Shellround\<close>, \<open>Xv6_Shellwords\<close> (the parser of \<open>E:sh.c\<close>), \<open>Xv6_Shellrun\<close> and \<open>Xv6_Shellexec\<close> (its
      \<open>main\<close>, built-in commands and \<open>runcmd\<close>), \<open>Xv6_Malloc\<close> (\<open>umalloc.c\<close>), \<open>Xv6_Grep\<close> (\<open>grep.c\<close>).

  \<^bold>\<open>State.\<close>  A pointer into a table is an index; a C string is the list of characters from the pointer to
  the end of its object; physical memory is a function from addresses to bytes, and page tables and
  the free list are words in it.  Integers whose wrap-around matters are words of their width: the
  counters of pipes and console, addresses, block numbers, sizes.  Panics, failures and sleeping are values.

  \<^bold>\<open>What the lemmas show.\<close>  Two interfaces are locales: \<open>bounded_fifo\<close>, a ring as a queue of bounded
  length, interpreted by pipes with their wrapping counters; and \<open>page_pool\<close>, interpreted by the
  free list that is threaded through the free pages.  The refinements are stated over the code's
  own operations: the queue of the disk driver gives the synchronous disk, the bitmap a set, the
  inode a file of bytes, the page directory a map, the console's ring a line editor, the shell's parser a
  grammar and its processes the meaning of a command line, the matcher of \<open>grep\<close> the language of its expression.  Invariants
  are proved over all reachable states: of the process table, of transactions under any interleaving, of pipes and console,
  of spin locks, of programs that allocate and free.  Crash
  safety quantifies over every prefix of the block writes of a commit and of any number of interrupted recoveries.  Address
  spaces are followed through their life: built by \<open>exec\<close>, grown, copied by a fork, swapped, and given back to the pool page by page.
  Properties carry the numbers C1 to C40 in the text before them.

  \<^bold>\<open>Bounds and fuel.\<close>  The shell's parser runs on four calls per character, which is shown
  to be enough on every line.  The loops over pages (\<open>mappages\<close>, \<open>allocuvm\<close>, \<open>deallocuvm\<close>, \<open>loaduvm\<close>, \<open>copyuvm\<close>, and those of \<open>M:vm.c\<close>)
  have \<open>2^20\<close> rounds, the number of pages of a 32-bit address space; the count of the free list has as many.  The victim search visits
  the 524288 user pages.  All other loops are recursive functions with a termination proof; \<open>printint\<close> and the searches of
  \<open>malloc\<close> and \<open>free\<close> are partial functions that are shown to return.

  \<^bold>\<open>Simplifications.\<close>  Outside of \<open>Xv6_Spin\<close> the code between \<open>acquire\<close> and \<open>release\<close> of a spin lock is one step; that locks exclude
  each other and interrupts is what \<open>Xv6_Spin\<close> proves.  So is a
  \<open>fork\<close> or an \<open>exit\<close> in the process table, with the calls into other subsystems recorded in
  order.  Sleeping ends a call of the model with \<open>Asleep\<close> (or a resumed step, for pipes, console and
  waiting), so concurrency is the interleaving of these steps.  The file system works on the blocks as the
  running transaction sees them; the property of \<open>log_write\<close> in \<open>Xv6_Txn\<close> is the contract of the log that justifies it.  The
  shell's processes are modelled by what they do, with the answers of the system calls as arguments; the user allocator takes
  from the kernel whether a process can grow.  The drive itself, the hardware registers and the memory caches are outside of the code.

  \<^bold>\<open>Not modelled.\<close>  Boot code, interrupt controllers, the serial port and assembly have no logic beyond the
  registers they write.  The switch over trap numbers only calls handlers that are modelled.  Tests and the small utilities
  only call the system calls.  The image builder \<open>mkfs\<close> runs on the host and through its C library; the theorems about
  the log and the file system state what they take from the image as hypotheses.
\<close>

end
